(* ===== verification/Tor_Prelude.thy ===== *)
theory Tor_Prelude
  imports Main "HOL-Library.Word" "HOL-Library.Monad_Syntax" "HOL-Library.Multiset"
begin

text \<open>
  The vocabulary shared by every component theory: the machine integer types, byte
  strings and their C reading, the platform constants of \<^verbatim>\<open>lib/cc/torint.h\<close>, the
  \<^verbatim>\<open>tor_assert\<close> / \<^verbatim>\<open>raw_assert\<close> abort as an \<open>option\<close> monad, result buffers, and the
  generic list and word lemmas that the component proofs use.

  Conventions.
  \<^item> A \<^verbatim>\<open>char\<close> or \<^verbatim>\<open>uint8_t\<close> is a \<open>8 word\<close>; a \<^verbatim>\<open>uint32_t\<close>, \<^verbatim>\<open>uint64_t\<close> is a \<open>32 word\<close>,
    \<open>64 word\<close>; sizes and indices whose overflow the code excludes are \<open>nat\<close> or \<open>int\<close>.
  \<^item> A NUL-terminated string is the list of the bytes before its NUL (\<open>c_str\<close>).
  \<^item> \<open>None\<close> in the result of a function that asserts means that the process aborted.
\<close>

unbundle bit_operations_syntax

subsection \<open>Types and constants\<close>

type_synonym byte = "8 word"
type_synonym bytes = "byte list"

abbreviation (input) INT_MAX :: nat where "INT_MAX \<equiv> 2147483647"
abbreviation (input) UINT32_MAX :: nat where "UINT32_MAX \<equiv> 4294967295"
abbreviation (input) SSIZE_MAX :: nat where "SSIZE_MAX \<equiv> 9223372036854775807"

text \<open>\<^verbatim>\<open>SIZE_T_CEILING\<close> of torint.h: \<^verbatim>\<open>((size_t)(SSIZE_MAX-16))\<close>.\<close>

abbreviation (input) SIZE_T_CEILING :: nat where "SIZE_T_CEILING \<equiv> SSIZE_MAX - 16"

text \<open>\<^verbatim>\<open>lib/defs/digest_sizes.h\<close> and \<^verbatim>\<open>lib/defs/x25519_sizes.h\<close>.\<close>

abbreviation (input) DIGEST_LEN :: nat where "DIGEST_LEN \<equiv> 20"
abbreviation (input) DIGEST256_LEN :: nat where "DIGEST256_LEN \<equiv> 32"
abbreviation (input) HEX_DIGEST_LEN :: nat where "HEX_DIGEST_LEN \<equiv> 40"
abbreviation (input) HEX_DIGEST256_LEN :: nat where "HEX_DIGEST256_LEN \<equiv> 64"

text \<open>A string literal of the source, as bytes.\<close>

definition lit :: "string \<Rightarrow> bytes" where
  "lit s = map of_char s"

text \<open>The C string that starts a byte sequence: everything before the first NUL.\<close>

definition c_str :: "bytes \<Rightarrow> bytes" where
  "c_str s = takeWhile (\<lambda>c. c \<noteq> 0) s"

definition is_c_str :: "bytes \<Rightarrow> bool" where
  "is_c_str s \<longleftrightarrow> 0 \<notin> set s"

subsection \<open>Assertions\<close>

text \<open>\<^verbatim>\<open>tor_assert(e)\<close> and \<^verbatim>\<open>raw_assert(e)\<close> abort the process when \<open>e\<close> is false.\<close>

definition tor_assert :: "bool \<Rightarrow> unit option" where
  "tor_assert b = (if b then Some () else None)"

lemma tor_assert_simps [simp]:
  "tor_assert True = Some ()"
  "tor_assert False = None"
  by (simp_all add: tor_assert_def)

lemma tor_assert_bind_Some_iff [simp]:
  "Option.bind (tor_assert b) f = Some r \<longleftrightarrow> b \<and> f () = Some r"
  by (simp add: tor_assert_def)

lemma tor_assert_bind_None_iff [simp]:
  "Option.bind (tor_assert b) f = None \<longleftrightarrow> (b \<longrightarrow> f () = None)"
  by (simp add: tor_assert_def)

subsection \<open>Fact collections\<close>

text \<open>
  \<open>c_string_simps\<close>: how \<open>c_str\<close> and \<open>is_c_str\<close> act on list operations;
  \<open>buffer_simps\<close>: writes into zero-filled buffers; \<open>word_nat_simps\<close>: unsigned
  readings of word operations.
\<close>

named_theorems c_string_simps
named_theorems buffer_simps
named_theorems word_nat_simps

subsection \<open>C strings\<close>

lemma is_c_str_Nil [c_string_simps]: "is_c_str []"
  by (simp add: is_c_str_def)

lemma is_c_str_Cons [c_string_simps]: "is_c_str (c # s) \<longleftrightarrow> c \<noteq> 0 \<and> is_c_str s"
  by (auto simp: is_c_str_def)

lemma is_c_str_append [c_string_simps]: "is_c_str (s @ t) \<longleftrightarrow> is_c_str s \<and> is_c_str t"
  by (auto simp: is_c_str_def)

lemma is_c_str_c_str [c_string_simps]: "is_c_str (c_str s)"
  by (auto simp: is_c_str_def c_str_def dest: set_takeWhileD)

lemma c_str_id [c_string_simps]: "is_c_str s \<Longrightarrow> c_str s = s"
  by (auto simp: is_c_str_def c_str_def takeWhile_eq_all_conv)

lemma c_str_append_NUL [c_string_simps]: "is_c_str s \<Longrightarrow> c_str (s @ 0 # t) = s"
  by (induction s) (auto simp: is_c_str_def c_str_def)

lemma c_str_replicate_0 [c_string_simps]: "c_str (replicate n 0) = []"
  by (cases n) (simp_all add: c_str_def)

lemma is_c_str_filter [c_string_simps]: "is_c_str s \<Longrightarrow> is_c_str (filter P s)"
  by (auto simp: is_c_str_def)

lemma is_c_str_take [c_string_simps]: "is_c_str s \<Longrightarrow> is_c_str (take n s)"
  by (auto simp: is_c_str_def dest: in_set_takeD)

subsection \<open>Result buffers\<close>

text \<open>
  A destination buffer of \<open>n\<close> bytes that was cleared with \<^verbatim>\<open>memset(dest, 0, n)\<close> and then
  received \<open>out\<close> from its start.
\<close>

definition zero_padded :: "nat \<Rightarrow> bytes \<Rightarrow> bytes" where
  "zero_padded n out = out @ replicate (n - length out) 0"

lemma length_zero_padded [buffer_simps]:
  "length out \<le> n \<Longrightarrow> length (zero_padded n out) = n"
  by (simp add: zero_padded_def)

lemma zero_padded_Nil [buffer_simps]: "zero_padded n [] = replicate n 0"
  by (simp add: zero_padded_def)

lemma zero_padded_write [buffer_simps]:
  assumes "length out < n"
  shows "(zero_padded n out)[length out := b] = zero_padded n (out @ [b])"
proof -
  obtain k where "n - length out = Suc k" using assms by (cases "n - length out") auto
  then show ?thesis using assms by (simp add: zero_padded_def list_update_append Suc_diff_Suc)
qed

lemma zero_padded_write_NUL:
  assumes "length out < n"
  shows "(zero_padded n out)[length out := 0] = zero_padded n out"
proof -
  obtain k where "n - length out = Suc k" using assms by (cases "n - length out") auto
  then show ?thesis by (simp add: zero_padded_def list_update_append)
qed

lemma c_str_zero_padded [c_string_simps]:
  "is_c_str out \<Longrightarrow> length out < n \<Longrightarrow> c_str (zero_padded n out) = out"
  by (cases "n - length out") (auto simp: zero_padded_def c_string_simps)

lemma take_zero_padded [buffer_simps]: "take (length out) (zero_padded n out) = out"
  by (simp add: zero_padded_def)

subsection \<open>Lists\<close>

lemma set_take_nth: "x \<in> set (take n xs) \<longleftrightarrow> (\<exists>i < min n (length xs). x = xs ! i)"
  by (auto simp: in_set_conv_nth)

text \<open>\<^verbatim>\<open>memchr\<close>: the index of the first occurrence.\<close>

fun memchr :: "bytes \<Rightarrow> byte \<Rightarrow> nat option" where
  "memchr [] ch = None"
| "memchr (x # xs) ch = (if x = ch then Some 0 else map_option Suc (memchr xs ch))"

lemma memchr_None: "memchr xs ch = None \<longleftrightarrow> ch \<notin> set xs"
  by (induction xs) auto

lemma memchr_append: "ch \<notin> set xs \<Longrightarrow> memchr (xs @ ys) ch = map_option ((+) (length xs)) (memchr ys ch)"
proof (induction xs)
  case Nil
  show ?case by (cases "memchr ys ch") simp_all
qed (auto simp: option.map_comp comp_def intro!: option.map_cong)

lemma memchr_Some: "memchr xs ch = Some i \<longleftrightarrow> i < length xs \<and> xs ! i = ch \<and> ch \<notin> set (take i xs)"
proof (induction xs arbitrary: i)
  case (Cons x xs)
  then show ?case by (cases i) auto
qed simp

lemma memchr_split: "ch \<notin> set xs \<Longrightarrow> memchr (xs @ ch # ys) ch = Some (length xs)"
  by (simp add: memchr_append)

subsection \<open>Words\<close>

lemma unat_drop_bit [word_nat_simps]: "unat (drop_bit k (w :: 'a :: len word)) = unat w div 2 ^ k"
  by (simp only: unat_drop_bit_eq flip: drop_bit_eq_div)

lemma unat_2p [word_nat_simps]:
  assumes "k < LENGTH('a)"
  shows "unat ((2 :: 'a :: len word) ^ k) = 2 ^ k"
proof -
  have "unat ((2 :: 'a word) ^ k) = unat (word_of_nat (2 ^ k) :: 'a word)" by simp
  also have "\<dots> = 2 ^ k" using assms by (simp only: unsigned_of_nat take_bit_eq_mod) simp
  finally show ?thesis .
qed

lemma unat_add_noflow [word_nat_simps]:
  "unat a + unat b < 2 ^ LENGTH('a) \<Longrightarrow> unat (a + b :: 'a :: len word) = unat a + unat b"
  by (simp add: unat_word_ariths)

lemma unat_mult_noflow [word_nat_simps]:
  "unat a * unat b < 2 ^ LENGTH('a) \<Longrightarrow> unat (a * b :: 'a :: len word) = unat a * unat b"
  by (simp add: unat_word_ariths)

lemma unat_sub_noflow [word_nat_simps]:
  "b \<le> a \<Longrightarrow> unat (a - b :: 'a :: len word) = unat a - unat b"
  by (rule unat_sub)

lemma word_high_bits_unset:
  assumes "unat (w :: 'a :: len word) < 2 ^ k" and "k \<le> m"
  shows "\<not> bit w m"
proof -
  have "unat w < 2 ^ m" using assms by (meson less_le_trans one_le_numeral power_increasing)
  then have "\<not> bit (unat w) m" by (simp add: bit_iff_odd)
  then show ?thesis by (auto simp: bit_unsigned_iff dest: bit_imp_le_length)
qed

lemma unat_ucast_byte [word_nat_simps]: "unat (ucast (b :: byte) :: 32 word) = unat b"
  using unsigned_less [of b, where ?'a = nat]
  by (simp add: unsigned_ucast_eq take_bit_nat_eq_self)

lemma ucast_byte_inject [simp]: "(ucast (a :: byte) :: 32 word) = ucast b \<longleftrightarrow> a = b"
  by (metis unat_ucast_byte unsigned_word_eqI)

lemma byte_uint_bounds: "0 \<le> uint (b :: byte) \<and> uint b < 256"
  using unsigned_less [of b, where ?'a = int] by simp

lemma word_xor_eq_0_iff [simp]: "(a :: 'a :: len word) XOR b = 0 \<longleftrightarrow> a = b"
  by (auto simp: bit_eq_iff [of "a XOR b"] bit_eq_iff [of a b] bit_xor_iff)

lemma word_and_mask_numerals:
  "(w :: 'a :: len word) AND 15 = take_bit 4 w"
  "w AND 31 = take_bit 5 w"
  "w AND 63 = take_bit 6 w"
  "w AND 255 = take_bit 8 w"
  by (simp_all add: take_bit_eq_mask mask_eq_exp_minus_1)

text \<open>A property of every byte, checked value by value.\<close>

lemma byte_all_cases:
  assumes "list_all (\<lambda>n. P (word_of_nat n :: byte)) [0..<256]"
  shows "P b"
proof -
  have "unat b < 256" using unsigned_less [of b, where ?'a = nat] by simp
  then have "unat b \<in> set [0..<256]" by simp
  then have "P (word_of_nat (unat b))" using assms unfolding list_all_iff by (rule bspec [rotated])
  then show ?thesis by simp
qed

text \<open>Numbers of 16 and 32 bits from their bytes.\<close>

lemma word16_bytes: "push_bit 8 (ucast (ucast (drop_bit 8 v) :: byte)) OR ucast (ucast v :: byte) = v" for v :: "16 word"
  by (rule bit_word_eqI) (auto simp: bit_simps)

lemma word32_bytes:
  fixes n :: "32 word"
  shows "push_bit 8 (push_bit 8 (push_bit 8 (ucast (ucast (drop_bit 24 n) :: byte)) OR ucast (ucast (drop_bit 16 n) :: byte)) OR
     ucast (ucast (drop_bit 8 n) :: byte)) OR ucast (ucast n :: byte) = n" (is "?l = n")
proof (rule bit_word_eqI)
  fix i
  assume "i < LENGTH(32)"
  then have i: "i < 32" by simp
  consider "i < 8" | "8 \<le> i" "i < 16" | "16 \<le> i" "i < 24" | "24 \<le> i" by linarith
  then show "bit ?l i \<longleftrightarrow> bit n i"
    using i by cases (auto simp: bit_or_iff bit_push_bit_iff bit_ucast_iff bit_drop_bit_eq)
qed

end
