(* ===== verification/Tor_Intmath.thy ===== *)
theory Tor_Intmath
  imports Tor_Prelude
begin

text \<open>
  \<^verbatim>\<open>src/tor/src/lib/intmath\<close>: saturating addition (\<^verbatim>\<open>addsub.c\<close>), logarithms and bit counts
  (\<^verbatim>\<open>bits.c\<close>), rounding, greatest common divisor and saturating multiplication
  (\<^verbatim>\<open>muldiv.c\<close>). Every integer keeps its C width, so that each wrap-around the code
  guards against is a wrap-around of the model.
\<close>

subsection \<open>addsub.c\<close>

definition tor_add_u32_nowrap :: "32 word \<Rightarrow> 32 word \<Rightarrow> 32 word" where
  "tor_add_u32_nowrap a b = (if a > (-1) - b then -1 else a + b)"

subsection \<open>bits.c\<close>

definition tor_log2 :: "64 word \<Rightarrow> nat" where
  "tor_log2 u0 =
    (let (u64, r) = (u0, 0);
         (u64, r) = (if u64 \<ge> push_bit 32 1 then (drop_bit 32 u64, 32) else (u64, r));
         (u64, r) = (if u64 \<ge> push_bit 16 1 then (drop_bit 16 u64, r + 16) else (u64, r));
         (u64, r) = (if u64 \<ge> push_bit 8 1 then (drop_bit 8 u64, r + 8) else (u64, r));
         (u64, r) = (if u64 \<ge> push_bit 4 1 then (drop_bit 4 u64, r + 4) else (u64, r));
         (u64, r) = (if u64 \<ge> push_bit 2 1 then (drop_bit 2 u64, r + 2) else (u64, r));
         r = (if u64 \<ge> push_bit 1 1 then r + 1 else r)
     in r)"

definition round_to_power_of_2 :: "64 word \<Rightarrow> 64 word" where
  "round_to_power_of_2 u64 =
    (if u64 = 0 then 1
     else let lg2 = tor_log2 u64; low = push_bit lg2 1
          in if lg2 = 63 then low
             else let high = push_bit (lg2 + 1) 1
                  in if high - u64 < u64 - low then high else low)"

definition nybble_table :: "nat list" where
  "nybble_table = [0, 1, 1, 2, 1, 2, 2, 3, 1, 2, 2, 3, 2, 3, 3, 4]"

definition n_bits_set_u8 :: "8 word \<Rightarrow> nat" where
  "n_bits_set_u8 v = nybble_table ! unat (v AND 15) + nybble_table ! unat (drop_bit 4 v)"

subsection \<open>muldiv.c\<close>

definition round_to_next_multiple_of :: "32 word \<Rightarrow> 32 word \<Rightarrow> 32 word option" where
  "round_to_next_multiple_of number divisor = do {
     tor_assert (divisor > 0);
     if (-1) - divisor + 1 < number then Some (-1)
     else let number = number + (divisor - 1) in Some (number - number mod divisor) }"

definition round_uint32_to_next_multiple_of :: "32 word \<Rightarrow> 32 word \<Rightarrow> 32 word option" where
  "round_uint32_to_next_multiple_of number divisor = do {
     tor_assert (divisor > 0);
     if (-1) - divisor + 1 < number then Some (-1)
     else let number = number + (divisor - 1) in Some (number - number mod divisor) }"

definition round_uint64_to_next_multiple_of :: "64 word \<Rightarrow> 64 word \<Rightarrow> 64 word option" where
  "round_uint64_to_next_multiple_of number divisor = do {
     tor_assert (divisor > 0);
     if (-1) - divisor + 1 < number then Some (-1)
     else let number = number + (divisor - 1) in Some (number - number mod divisor) }"

function gcd64 :: "64 word \<Rightarrow> 64 word \<Rightarrow> 64 word" where
  "gcd64 a b = (if b \<noteq> 0 then gcd64 b (a mod b) else a)"
  by pat_completeness auto
termination
  by (relation "measure (\<lambda>(a, b). unat b)") (auto simp: unat_mod unat_gt_0)

declare gcd64.simps [simp del]

definition tor_mul_u64_nowrap :: "64 word \<Rightarrow> 64 word \<Rightarrow> 64 word" where
  "tor_mul_u64_nowrap a b =
    (if a = 0 \<or> b = 0 then 0 else if (-1) div a < b then -1 else a * b)"

text \<open>\<open>None\<close>: the division by a zero \<^verbatim>\<open>gcd\<close>, which traps.\<close>

definition simplify_fraction64 :: "64 word \<Rightarrow> 64 word \<Rightarrow> (64 word \<times> 64 word) option" where
  "simplify_fraction64 numer denom =
    (let g = gcd64 numer denom
     in if g = 0 then None else Some (numer div g, denom div g))"

subsection \<open>The reference functions are met\<close>

lemma unat_minus_1: "unat (- 1 :: 'a :: len word) = 2 ^ LENGTH('a) - 1"
  by (simp add: unsigned_minus_1_eq_mask mask_eq_exp_minus_1)

text \<open>One stage of the binary search for the highest bit.\<close>

definition log2_step :: "nat \<Rightarrow> 64 word \<times> nat \<Rightarrow> 64 word \<times> nat" where
  "log2_step k = (\<lambda>(u, r). if u \<ge> push_bit k 1 then (drop_bit k u, r + k) else (u, r))"

lemma tor_log2_steps:
  "tor_log2 u = snd (log2_step 1 (log2_step 2 (log2_step 4 (log2_step 8 (log2_step 16
     (log2_step 32 (u, 0)))))))"
  unfolding tor_log2_def log2_step_def Let_def case_prod_unfold
  by (simp only: fst_conv snd_conv add_0 if_distrib [of snd] if_distrib [of fst] cong: if_cong)

definition log2_inv :: "64 word \<Rightarrow> nat \<Rightarrow> 64 word \<times> nat \<Rightarrow> bool" where
  "log2_inv u0 k = (\<lambda>(u, r). unat u = unat u0 div 2 ^ r \<and> 0 < unat u \<and> unat u < 2 ^ k)"

lemma log2_inv_step:
  assumes inv: "log2_inv u0 j s" and k: "k < 64" and j: "j \<le> 2 * k"
  shows "log2_inv u0 k (log2_step k s)"
proof -
  obtain u r where s: "s = (u, r)" by (cases s)
  have p: "unat (push_bit k (1 :: 64 word)) = 2 ^ k" using k by (simp add: word_nat_simps)
  have "unat u < 2 ^ j" using inv by (simp add: log2_inv_def s)
  also have "\<dots> \<le> 2 ^ (k + k)" using j by (intro power_increasing) auto
  finally have "unat u div 2 ^ k < 2 ^ k" by (simp add: power_add less_mult_imp_div_less)
  moreover have "2 ^ k \<le> unat u \<Longrightarrow> 0 < unat u div 2 ^ k" by (simp add: div_greater_zero_iff)
  ultimately show ?thesis using inv
    by (auto simp: log2_inv_def log2_step_def s word_le_nat_alt p unat_drop_bit power_add
        div_mult2_eq simp del: drop_bit_eq_div push_bit_of_1)
qed

lemma tor_log2_bounds:
  assumes "u \<noteq> 0"
  shows "2 ^ tor_log2 u \<le> unat u \<and> unat u < 2 ^ Suc (tor_log2 u)"
proof -
  define s where "s = log2_step 1 (log2_step 2 (log2_step 4 (log2_step 8 (log2_step 16
     (log2_step 32 (u, 0))))))"
  have "log2_inv u 64 (u, 0)"
    using assms unsigned_less [of u, where ?'a = nat] by (simp add: log2_inv_def unat_gt_0)
  then have "log2_inv u 32 (log2_step 32 (u, 0))" by (rule log2_inv_step) auto
  then have "log2_inv u 16 (log2_step 16 (log2_step 32 (u, 0)))" by (rule log2_inv_step) auto
  then have "log2_inv u 8 (log2_step 8 (log2_step 16 (log2_step 32 (u, 0))))"
    by (rule log2_inv_step) auto
  from log2_inv_step [OF this, of 4]
  have "log2_inv u 4 (log2_step 4 (log2_step 8 (log2_step 16 (log2_step 32 (u, 0)))))" by simp
  from log2_inv_step [OF log2_inv_step [OF this, of 2], of 1]
  have "log2_inv u 1 s" unfolding s_def by simp
  then have one: "unat u div 2 ^ snd s = 1" by (auto simp: log2_inv_def split: prod.splits)
  have log: "tor_log2 u = snd s" by (simp only: tor_log2_steps s_def)
  have "unat u = 2 ^ snd s * (unat u div 2 ^ snd s) + unat u mod 2 ^ snd s" by simp
  then have "unat u = 2 ^ snd s + unat u mod 2 ^ snd s" by (simp only: one mult_1_right)
  moreover have "unat u mod 2 ^ snd s < 2 ^ snd s" by simp
  ultimately show ?thesis unfolding log power_Suc by linarith
qed

lemma tor_log2_less: "tor_log2 u < 64"
proof (cases "u = 0")
  case True
  then show ?thesis by (simp add: tor_log2_def)
next
  case False
  have "(2 :: nat) ^ tor_log2 u < 2 ^ 64"
    using tor_log2_bounds [OF False] unsigned_less [of u, where ?'a = nat]
    by (auto intro: le_less_trans)
  then show ?thesis by (simp only: power_strict_increasing_iff)
qed

lemma n_bits_set_u8_eq: "n_bits_set_u8 v = length (filter (\<lambda>i. bit v i) [0..<8])"
  by (rule byte_all_cases [of "\<lambda>v. n_bits_set_u8 v = length (filter (\<lambda>i. bit v i) [0..<8])"])
    code_simp

lemma gcd64_gcd: "unat (gcd64 a b) = gcd (unat a) (unat b)"
proof (induction a b rule: gcd64.induct)
  case (1 a b)
  show ?case
  proof (cases "b = 0")
    case True
    then show ?thesis by (simp add: gcd64.simps)
  next
    case False
    then have "unat (gcd64 a b) = gcd (unat b) (unat (a mod b))"
      using "1.IH" by (simp add: gcd64.simps [of a b])
    then show ?thesis by (simp add: unat_mod gcd.commute [of "unat b"] flip: gcd_red_nat)
  qed
qed

text \<open>Distances to powers of two on either side of an interval \<open>[2 ^ l, 2 ^ (l + 1))\<close>.\<close>

lemma pow2_distance:
  fixes n :: int
  assumes "2 ^ l \<le> n" "n < 2 ^ Suc l"
  shows "j \<le> l \<Longrightarrow> n - 2 ^ l \<le> \<bar>n - 2 ^ j\<bar>"
    and "l < j \<Longrightarrow> 2 ^ Suc l - n \<le> \<bar>n - 2 ^ j\<bar>"
    and "j < l \<Longrightarrow> n - 2 ^ l < \<bar>n - 2 ^ j\<bar>"
proof -
  have "j \<le> l \<Longrightarrow> (2 :: int) ^ j \<le> 2 ^ l" and "l < j \<Longrightarrow> (2 :: int) ^ Suc l \<le> 2 ^ j"
    and "j < l \<Longrightarrow> (2 :: int) ^ j < 2 ^ l"
    by (auto intro: power_increasing power_strict_increasing simp del: power_Suc)
  with assms show "j \<le> l \<Longrightarrow> n - 2 ^ l \<le> \<bar>n - 2 ^ j\<bar>"
    and "l < j \<Longrightarrow> 2 ^ Suc l - n \<le> \<bar>n - 2 ^ j\<bar>"
    and "j < l \<Longrightarrow> n - 2 ^ l < \<bar>n - 2 ^ j\<bar>"
    by linarith+
qed

lemma round_to_power_of_2_unat:
  assumes "u \<noteq> 0"
  defines "l \<equiv> tor_log2 u"
  shows "unat (round_to_power_of_2 u) =
    (if l < 63 \<and> 2 ^ Suc l - unat u < unat u - 2 ^ l then 2 ^ Suc l else 2 ^ l)"
proof -
  have l: "2 ^ l \<le> unat u" "unat u < 2 ^ Suc l" "l < 64"
    using tor_log2_bounds [OF assms(1)] tor_log2_less [of u] by (auto simp: l_def)
  have low: "unat ((2 :: 64 word) ^ l) = 2 ^ l" using l by (simp add: unat_2p)
  show ?thesis
  proof (cases "l < 63")
    case True
    then have high: "unat ((2 :: 64 word) ^ Suc l) = 2 ^ Suc l"
      by (intro unat_2p) simp
    have "unat ((2 :: 64 word) ^ Suc l - u) = 2 ^ Suc l - unat u"
      using l high by (subst unat_sub) (auto simp: word_le_nat_alt)
    moreover have "unat (u - (2 :: 64 word) ^ l) = unat u - 2 ^ l"
      using l low by (subst unat_sub) (auto simp: word_le_nat_alt)
    ultimately show ?thesis using assms True low high
      by (simp add: round_to_power_of_2_def Let_def word_less_nat_alt del: power_Suc)
  next
    case False
    then have "l = 63" using l by simp
    then show ?thesis using assms low by (simp add: round_to_power_of_2_def Let_def)
  qed
qed

text \<open>\<^verbatim>\<open>tor_log2\<close> is the floor of the binary logarithm of its argument, and zero for zero.\<close>

theorem tor_log2_floor:
  "tor_log2 0 = 0 \<and> (u \<noteq> 0 \<longrightarrow> 2 ^ tor_log2 u \<le> unat u \<and> unat u < 2 ^ (tor_log2 u + 1))"
  using tor_log2_bounds [of u] by (auto simp: tor_log2_def)

theorem tor_log2_floor_witness:
  "2 ^ tor_log2 1000 \<le> unat (1000 :: 64 word) \<and> unat (1000 :: 64 word) < 2 ^ (tor_log2 1000 + 1)"
  using tor_log2_floor [of 1000] by simp

text \<open>\<^verbatim>\<open>round_to_power_of_2\<close> returns the power of two that is closest to its argument among all
  powers that fit 64 bits, the lower one when two are equally close.\<close>

theorem round_to_power_of_2_closest:
  "\<exists>k < 64. unat (round_to_power_of_2 u) = 2 ^ k \<and>
     (\<forall>j < 64. \<bar>int (unat u) - 2 ^ k\<bar> \<le> \<bar>int (unat u) - 2 ^ j\<bar> \<and>
        (\<bar>int (unat u) - 2 ^ k\<bar> = \<bar>int (unat u) - 2 ^ j\<bar> \<longrightarrow> k \<le> j))"
proof (cases "u = 0")
  case True
  have "(1 :: int) \<le> 2 ^ j" for j :: nat by simp
  then show ?thesis using True by (intro exI [of _ 0]) (auto simp: round_to_power_of_2_def)
next
  case False
  define l where "l = tor_log2 u"
  define n where "n = int (unat u)"
  have "int (2 ^ l) \<le> n" "n < int (2 ^ Suc l)"
    unfolding n_def l_def using tor_log2_bounds [OF False] by (simp_all only: of_nat_le_iff of_nat_less_iff)
  then have l: "2 ^ l \<le> n" "n < 2 ^ Suc l" "l < 64"
    using tor_log2_less [of u] by (simp_all add: l_def)
  have nat_l: "2 ^ l \<le> unat u" "unat u < 2 ^ Suc l"
    using tor_log2_bounds [OF False] by (simp_all only: l_def)
  have "int (2 ^ Suc l - unat u) = 2 ^ Suc l - n" "int (unat u - 2 ^ l) = n - 2 ^ l"
    using nat_l by (simp_all add: n_def of_nat_diff)
  then have cmp: "2 ^ Suc l - unat u < unat u - 2 ^ l \<longleftrightarrow> 2 ^ Suc l - n < n - 2 ^ l"
    by (metis of_nat_less_iff)
  note dist = pow2_distance [OF l(1,2)]
  show ?thesis
  proof (cases "l < 63 \<and> 2 ^ Suc l - n < n - 2 ^ l")
    case True
    then have "unat (round_to_power_of_2 u) = 2 ^ Suc l"
      using round_to_power_of_2_unat [OF False] cmp by (simp only: l_def simp_thms if_True)
    moreover
    have "\<bar>n - 2 ^ Suc l\<bar> \<le> \<bar>n - 2 ^ j\<bar> \<and> (\<bar>n - 2 ^ Suc l\<bar> = \<bar>n - 2 ^ j\<bar> \<longrightarrow> Suc l \<le> j)" for j
      using True l dist(1) [of j] dist(2) [of j] by (cases "j \<le> l") auto
    ultimately show ?thesis using True unfolding n_def by (intro exI [of _ "Suc l"]) auto
  next
    case le: False
    then have "unat (round_to_power_of_2 u) = 2 ^ l"
      using round_to_power_of_2_unat [OF False] cmp by (simp only: l_def if_False)
    moreover have "\<bar>n - 2 ^ l\<bar> \<le> \<bar>n - 2 ^ j\<bar> \<and> (\<bar>n - 2 ^ l\<bar> = \<bar>n - 2 ^ j\<bar> \<longrightarrow> l \<le> j)" if "j < 64" for j
      using le l that dist(1) [of j] dist(2) [of j] dist(3) [of j] by (cases j l rule: linorder_cases) auto
    ultimately show ?thesis using l unfolding n_def by (intro exI [of _ l]) auto
  qed
qed

theorem round_to_power_of_2_closest_witness:
  "\<exists>k < 64. unat (round_to_power_of_2 1000) = 2 ^ k \<and> \<bar>int (unat (1000 :: 64 word)) - 2 ^ k\<bar> \<le> 24"
proof -
  obtain k where "k < 64" "unat (round_to_power_of_2 1000) = 2 ^ k"
    and "\<And>j. j < 64 \<Longrightarrow> \<bar>int (unat (1000 :: 64 word)) - 2 ^ k\<bar> \<le> \<bar>int (unat (1000 :: 64 word)) - 2 ^ j\<bar>"
    using round_to_power_of_2_closest [of 1000] by auto
  from this(1,2) this(3) [of 10] show ?thesis by auto
qed

text \<open>The common body of the three \<^verbatim>\<open>round_*_to_next_multiple_of\<close> functions, at any width.\<close>

lemma round_up_guard:
  fixes n d :: "'a :: len word"
  assumes "d \<noteq> 0"
  shows "(-1) - d + 1 < n \<longleftrightarrow> 2 ^ LENGTH('a) < unat n + unat d"
proof -
  have d: "0 < unat d" "unat d < 2 ^ LENGTH('a)"
    using assms unsigned_less [of d, where ?'a = nat] by (simp_all add: unat_gt_0)
  have s: "unat ((-1) - d) = 2 ^ LENGTH('a) - 1 - unat d"
    by (subst unat_sub) (simp_all add: unat_minus_1)
  have "unat ((-1) - d) + unat (1 :: 'a word) < 2 ^ LENGTH('a)" unfolding s unsigned_1 using d by linarith
  then have "unat ((-1) - d + 1) = 2 ^ LENGTH('a) - 1 - unat d + 1"
    by (simp only: unat_add_noflow s unsigned_1)
  then show ?thesis using d unfolding word_less_nat_alt by linarith
qed

lemma round_up_result:
  fixes n d :: "'a :: len word"
  assumes d: "d \<noteq> 0" and fits: "unat n + unat d \<le> 2 ^ LENGTH('a)"
  defines "m \<equiv> n + (d - 1)"
  shows "n \<le> m - m mod d" and "unat d dvd unat (m - m mod d)"
    and "unat (m - m mod d) < unat n + unat d"
proof -
  have d0: "0 < unat d" using d by (simp add: unat_gt_0)
  have "1 \<le> d" using d0 by (simp add: word_le_nat_alt)
  then have "unat (d - 1) = unat d - 1" by (simp add: unat_sub)
  then have m: "unat m = unat n + unat d - 1"
    using d0 fits by (simp add: m_def unat_add_noflow)
  have le: "m mod d \<le> m" by (simp add: word_le_nat_alt unat_mod)
  then have r: "unat (m - m mod d) = unat m - unat m mod unat d" by (simp add: unat_sub unat_mod)
  have "unat m mod unat d < unat d" using d0 by simp
  then show "n \<le> m - m mod d" unfolding word_le_nat_alt r using m d0 by linarith
  show "unat d dvd unat (m - m mod d)" unfolding r by (rule dvd_minus_mod)
  show "unat (m - m mod d) < unat n + unat d" using m r d0 by linarith
qed

lemmas round_defs = round_to_next_multiple_of_def round_uint32_to_next_multiple_of_def
  round_uint64_to_next_multiple_of_def

text \<open>For a nonzero divisor the three rounding functions return the least multiple of the
  divisor that is not below the number, unless \<^verbatim>\<open>number + divisor - 1\<close> overflows: then they
  return the largest value of the type, even where a multiple that fits exists.\<close>

theorem round_to_next_multiple_spec:
  assumes "d \<noteq> 0" and "e \<noteq> 0"
  shows "(if 2 ^ 32 < unat n + unat d then round_to_next_multiple_of n d = Some (-1)
          else \<exists>r. round_to_next_multiple_of n d = Some r \<and> n \<le> r \<and> unat d dvd unat r \<and>
                   unat r < unat n + unat d) \<and>
         round_uint32_to_next_multiple_of n d = round_to_next_multiple_of n d \<and>
         (if 2 ^ 64 < unat k + unat e then round_uint64_to_next_multiple_of k e = Some (-1)
          else \<exists>r. round_uint64_to_next_multiple_of k e = Some r \<and> k \<le> r \<and> unat e dvd unat r \<and>
                   unat r < unat k + unat e)"
proof (intro conjI)
  show "if 2 ^ 32 < unat n + unat d then round_to_next_multiple_of n d = Some (-1)
          else \<exists>r. round_to_next_multiple_of n d = Some r \<and> n \<le> r \<and> unat d dvd unat r \<and>
                   unat r < unat n + unat d"
    using round_up_guard [OF assms(1), of n] round_up_result [OF assms(1), of n] assms(1)
    by (auto simp: round_defs Let_def word_gt_0)
  show "round_uint32_to_next_multiple_of n d = round_to_next_multiple_of n d"
    by (simp add: round_defs)
  show "if 2 ^ 64 < unat k + unat e then round_uint64_to_next_multiple_of k e = Some (-1)
          else \<exists>r. round_uint64_to_next_multiple_of k e = Some r \<and> k \<le> r \<and> unat e dvd unat r \<and>
                   unat r < unat k + unat e"
    using round_up_guard [OF assms(2), of k] round_up_result [OF assms(2), of k] assms(2)
    by (auto simp: round_defs Let_def word_gt_0)
qed

theorem round_to_next_multiple_spec_witness:
  "round_to_next_multiple_of 4294967290 7 = Some (-1) \<and>
   (\<exists>r. round_uint64_to_next_multiple_of 10 7 = Some r \<and> 10 \<le> r \<and> unat (7 :: 64 word) dvd unat r \<and>
        unat r < unat (10 :: 64 word) + unat (7 :: 64 word))"
  using round_to_next_multiple_spec [of 7 7 4294967290 10] by simp

text \<open>\<^verbatim>\<open>tor_add_u32_nowrap\<close> and \<^verbatim>\<open>tor_mul_u64_nowrap\<close> compute the exact sum and product when
  it fits the type and the largest value of the type otherwise.\<close>

theorem nowrap_saturates:
  "unat (tor_add_u32_nowrap a b) = min (unat a + unat b) (2 ^ 32 - 1) \<and>
   unat (tor_mul_u64_nowrap c d) = min (unat c * unat d) (2 ^ 64 - 1)"
proof
  have "unat ((-1) - b) = 2 ^ 32 - 1 - unat b"
    by (subst unat_sub) (simp_all add: unat_minus_1)
  then show "unat (tor_add_u32_nowrap a b) = min (unat a + unat b) (2 ^ 32 - 1)"
    using unsigned_less [of b, where ?'a = nat]
    by (auto simp: tor_add_u32_nowrap_def word_less_nat_alt unat_minus_1 unat_add_noflow)
  show "unat (tor_mul_u64_nowrap c d) = min (unat c * unat d) (2 ^ 64 - 1)"
  proof (cases "c = 0 \<or> d = 0")
    case False
    then have c: "0 < unat c" by (simp add: unat_gt_0)
    have "(-1) div c < d \<longleftrightarrow> (2 ^ 64 - 1) div unat c < unat d"
      by (simp add: word_less_nat_alt unat_div unat_minus_1)
    also have "\<dots> \<longleftrightarrow> 2 ^ 64 - 1 < unat c * unat d"
      using c by (simp add: div_less_iff_less_mult mult.commute)
    finally show ?thesis using False
      by (auto simp: tor_mul_u64_nowrap_def unat_minus_1 unat_mult_noflow)
  qed (auto simp: tor_mul_u64_nowrap_def)
qed

text \<open>\<^verbatim>\<open>simplify_fraction64\<close> returns an equal fraction in lowest terms, for every fraction that
  is not 0/0 (which divides by zero).\<close>

theorem simplify_fraction64_lowest:
  assumes "numer \<noteq> 0 \<or> denom \<noteq> 0"
  shows "\<exists>n d. simplify_fraction64 numer denom = Some (n, d) \<and> coprime (unat n) (unat d) \<and>
     unat n * unat denom = unat d * unat numer"
proof -
  let ?g = "gcd64 numer denom"
  have g: "unat ?g = gcd (unat numer) (unat denom)" by (rule gcd64_gcd)
  have g0: "gcd (unat numer) (unat denom) \<noteq> 0" using assms by (auto simp: unat_eq_zero)
  then have "?g \<noteq> 0" using g by auto
  then have "simplify_fraction64 numer denom = Some (numer div ?g, denom div ?g)"
    by (simp add: simplify_fraction64_def Let_def)
  moreover have "coprime (unat (numer div ?g)) (unat (denom div ?g))"
    using g0 by (auto simp: unat_div g intro!: div_gcd_coprime)
  moreover have "unat (numer div ?g) * unat denom = unat (denom div ?g) * unat numer"
    by (simp add: unat_div g div_mult_swap dvd_div_mult mult.commute)
  ultimately show ?thesis by blast
qed

theorem simplify_fraction64_lowest_witness:
  "\<exists>n d. simplify_fraction64 84 36 = Some (n, d) \<and> coprime (unat n) (unat d) \<and>
     unat n * unat (36 :: 64 word) = unat d * unat (84 :: 64 word)"
  by (rule simplify_fraction64_lowest) simp

end
