(* ===== verification/Tor_Ctime.thy ===== *)
theory Tor_Ctime
  imports Tor_Prelude
begin

text \<open>
  \<^verbatim>\<open>src/tor/src/lib/ctime/di_ops.c\<close>: the data-independent comparison, search and copy
  operations. Each definition performs the masks, shifts and sign tricks of the source at
  the C width (\<^verbatim>\<open>int\<close> is a \<open>32 word\<close>, an arithmetic right shift is \<open>signed_drop_bit\<close>), and
  the lemmas show that it computes the plain function it stands for. The model is the
  \<^verbatim>\<open>!HAVE_TIMINGSAFE_MEMCMP\<close>, 64-bit configuration.
\<close>

subsection \<open>Comparison\<close>

fun tor_memcmp_loop :: "bytes \<Rightarrow> bytes \<Rightarrow> nat \<Rightarrow> 32 word \<Rightarrow> 32 word" where
  "tor_memcmp_loop x y 0 retval = retval"
| "tor_memcmp_loop x y (Suc i) retval =
    (let v1 = ucast (x ! i); v2 = ucast (y ! i);
         equal_p = v1 XOR v2;
         equal_p = equal_p - 1;
         equal_p = signed_drop_bit 8 equal_p;
         retval = retval AND equal_p;
         retval = retval + (v1 - v2)
     in tor_memcmp_loop x y i retval)"

definition tor_memcmp :: "bytes \<Rightarrow> bytes \<Rightarrow> nat \<Rightarrow> 32 word" where
  "tor_memcmp a b len = tor_memcmp_loop a b len 0"

fun tor_memeq_loop :: "bytes \<Rightarrow> bytes \<Rightarrow> nat \<Rightarrow> 32 word \<Rightarrow> 32 word" where
  "tor_memeq_loop ba bb 0 any_difference = any_difference"
| "tor_memeq_loop ba bb (Suc sz) any_difference =
    (let byte_diff = hd ba XOR hd bb
     in tor_memeq_loop (tl ba) (tl bb) sz (any_difference OR ucast byte_diff))"

definition tor_memeq :: "bytes \<Rightarrow> bytes \<Rightarrow> nat \<Rightarrow> 32 word" where
  "tor_memeq a b sz = (1 AND drop_bit 8 (tor_memeq_loop a b sz 0 - 1))"

fun safe_mem_is_zero_loop :: "bytes \<Rightarrow> nat \<Rightarrow> 32 word \<Rightarrow> 32 word" where
  "safe_mem_is_zero_loop ptr 0 tot = tot"
| "safe_mem_is_zero_loop ptr (Suc sz) tot =
    safe_mem_is_zero_loop (tl ptr) sz (tot OR ucast (hd ptr))"

definition safe_mem_is_zero :: "bytes \<Rightarrow> nat \<Rightarrow> 32 word" where
  "safe_mem_is_zero mem sz = (1 AND drop_bit 8 (safe_mem_is_zero_loop mem sz 0 - 1))"

subsection \<open>The digest map\<close>

text \<open>
  \<^verbatim>\<open>di_digest256_map_t\<close> is a linked list of (key, value) entries; a value is a pointer,
  modelled by its \<^verbatim>\<open>uintptr_t\<close>, and \<^verbatim>\<open>NULL\<close> is \<open>0\<close>.
\<close>

type_synonym di_digest256_map = "(bytes \<times> 64 word) list"

fun dimap_search :: "di_digest256_map \<Rightarrow> bytes \<Rightarrow> 64 word \<Rightarrow> 64 word" where
  "dimap_search [] key result = result"
| "dimap_search ((mkey, mval) # next) key result =
    (let r = ucast (tor_memeq mkey key 32);
         r = r - 1;
         result = result AND r;
         result = result OR (mval AND NOT r)
     in dimap_search next key result)"

definition dimap_add_entry :: "di_digest256_map \<Rightarrow> bytes \<Rightarrow> 64 word \<Rightarrow> di_digest256_map option" where
  "dimap_add_entry mp key val = do {
     let old_val = dimap_search mp key 0;
     tor_assert (old_val = 0);
     tor_assert (val \<noteq> 0);
     Some ((take 32 key, val) # mp) }"

subsection \<open>Weighted choice and conditional copy\<close>

fun select_array_loop :: "64 word list \<Rightarrow> int \<Rightarrow> int \<Rightarrow> nat \<Rightarrow> 64 word \<Rightarrow> 64 word \<Rightarrow> int \<times> nat \<times> 64 word" where
  "select_array_loop [] i i_chosen n_chosen total_so_far rand_val = (i_chosen, n_chosen, total_so_far)"
| "select_array_loop (e # entries) i i_chosen n_chosen total_so_far rand_val =
    (let total_so_far = total_so_far + e
     in if total_so_far > rand_val
        then select_array_loop entries (i + 1) i (Suc n_chosen) total_so_far 9223372036854775807
        else select_array_loop entries (i + 1) i_chosen n_chosen total_so_far rand_val)"

definition select_array_member_cumulative_timei :: "64 word list \<Rightarrow> 64 word \<Rightarrow> 64 word \<Rightarrow> int option" where
  "select_array_member_cumulative_timei entries tot rand_val = do {
     let (i_chosen, n_chosen, total_so_far) = select_array_loop entries 0 (-1) 0 0 rand_val;
     tor_assert (total_so_far = tot);
     tor_assert (n_chosen = 1);
     tor_assert (i_chosen \<ge> 0);
     tor_assert (i_chosen < int (length entries));
     Some i_chosen }"

fun memcpy_if_true_loop :: "byte \<Rightarrow> bytes \<Rightarrow> bytes \<Rightarrow> nat \<Rightarrow> bytes" where
  "memcpy_if_true_loop msk dest src 0 = dest"
| "memcpy_if_true_loop msk dest src (Suc n) =
    ((hd dest AND NOT msk) OR (hd src AND msk)) # memcpy_if_true_loop msk (tl dest) (tl src) n"

definition memcpy_if_true_timei :: "bool \<Rightarrow> bytes \<Rightarrow> bytes \<Rightarrow> nat \<Rightarrow> bytes" where
  "memcpy_if_true_timei s dest src n = memcpy_if_true_loop (- of_bool s) dest src n"

subsection \<open>Comparison computes memcmp\<close>

text \<open>The reference: the difference of the first two bytes that differ.\<close>

fun memcmp_ref :: "bytes \<Rightarrow> bytes \<Rightarrow> int" where
  "memcmp_ref (a # as) (b # bs) = (if a = b then memcmp_ref as bs else uint a - uint b)"
| "memcmp_ref _ _ = 0"

text \<open>A word below 256 that is decremented and shifted right by 8: all ones only for zero.\<close>

lemma dec_small:
  assumes "w \<noteq> 0" and "unat (w :: 32 word) < 256" and "8 \<le> m"
  shows "\<not> bit (w - 1) m"
proof -
  have w0: "0 < unat w" using assms(1) by (simp add: unat_gt_0)
  then have "unat (w - 1) = unat w - 1" by (subst unat_sub) (auto simp: word_le_nat_alt)
  then have "unat (w - 1) < 2 ^ 8" using assms(2) w0 by simp
  then show ?thesis using assms(3) by (rule word_high_bits_unset)
qed

lemma memcmp_mask:
  assumes "unat (w :: 32 word) < 256"
  shows "signed_drop_bit 8 (w - 1) = (if w = 0 then -1 else 0)"
proof (cases "w = 0")
  case False
  then show ?thesis using dec_small [OF False assms]
    by (auto intro!: bit_word_eqI simp: bit_signed_drop_bit_iff)
qed simp

lemma memeq_mask:
  assumes "unat (w :: 32 word) < 256"
  shows "1 AND drop_bit 8 (w - 1) = of_bool (w = 0)"
proof (cases "w = 0")
  case True
  then show ?thesis by (simp add: mask_eq_exp_minus_1)
next
  case False
  then have "\<not> bit (w - 1) 8" using dec_small [OF False assms] by simp
  then show ?thesis using False
    by (auto intro!: bit_word_eqI simp: bit_drop_bit_eq bit_and_iff bit_1_iff simp del: drop_bit_eq_div)
qed

lemma unat_xor_ucast: "unat (ucast (a :: byte) XOR ucast (b :: byte) :: 32 word) < 256"
proof -
  have "ucast a XOR ucast b = (ucast (a XOR b) :: 32 word)"
    by (rule bit_word_eqI) (auto simp: bit_ucast_iff bit_xor_iff)
  then show ?thesis using unsigned_less [of "a XOR b", where ?'a = nat] by (simp add: unat_ucast_byte)
qed

lemma xor_ucast_eq_0: "(ucast (a :: byte) XOR ucast (b :: byte) :: 32 word) = 0 \<longleftrightarrow> a = b"
  by simp

lemma memcmp_step:
  "(r AND signed_drop_bit 8 ((ucast (a :: byte) XOR ucast b :: 32 word) - 1)) + (ucast a - ucast b) =
     (if a = b then r else ucast a - ucast b)"
  unfolding memcmp_mask [OF unat_xor_ucast] xor_ucast_eq_0 by simp

lemma memcmp_ref_snoc:
  "length as = length bs \<Longrightarrow> memcmp_ref (as @ [a]) (bs @ [b]) =
     (if as = bs then uint a - uint b else memcmp_ref as bs)"
  by (induction as bs rule: list_induct2) auto

lemma memcmp_ref_bound: "\<bar>memcmp_ref as bs\<bar> < 256"
proof (induction as bs rule: memcmp_ref.induct)
  case (1 a as b bs)
  have "\<bar>uint a - uint b\<bar> < 256"
    using byte_uint_bounds [of a] byte_uint_bounds [of b] by linarith
  with 1 show ?case by simp
qed auto

lemma ucast_diff: "(ucast (a :: byte) - ucast b :: 32 word) = word_of_int (uint a - uint b)"
  by (simp only: ucast_eq wi_hom_sub)

lemma tor_memcmp_loop_ref:
  "i \<le> length x \<Longrightarrow> i \<le> length y \<Longrightarrow> tor_memcmp_loop x y i r =
     (if take i x = take i y then r else word_of_int (memcmp_ref (take i x) (take i y)))"
proof (induction i arbitrary: r)
  case (Suc i)
  have "tor_memcmp_loop x y (Suc i) r =
      tor_memcmp_loop x y i (if x ! i = y ! i then r else word_of_int (uint (x ! i) - uint (y ! i)))"
    by (simp only: tor_memcmp_loop.simps Let_def memcmp_step) (simp only: ucast_diff)
  moreover have "take (Suc i) x = take i x @ [x ! i]" "take (Suc i) y = take i y @ [y ! i]"
    "length (take i x) = length (take i y)"
    using Suc.prems by (simp_all add: take_Suc_conv_app_nth)
  ultimately show ?case using Suc.prems by (simp add: Suc.IH memcmp_ref_snoc)
qed simp

lemma memcmp_ref_0: "length as = length bs \<Longrightarrow> memcmp_ref as bs = 0 \<longleftrightarrow> as = bs"
  by (induction as bs rule: list_induct2) (auto dest: unsigned_word_eqI)

lemma memcmp_ref_less:
  "length as = length bs \<Longrightarrow> memcmp_ref as bs < 0 \<longleftrightarrow> (as, bs) \<in> lexord {(x, y). x < y}"
  by (induction as bs rule: list_induct2) (auto simp: word_less_def)

lemma sint_small: "\<bar>k\<bar> < 256 \<Longrightarrow> sint (word_of_int k :: 32 word) = k"
  by (simp add: signed_of_int signed_take_bit_int_eq_self)

text \<open>\<^verbatim>\<open>tor_memcmp\<close>, which runs over all bytes without a data-dependent branch, computes what
  the reference \<^verbatim>\<open>memcmp\<close> computes: zero for equal regions, and otherwise the sign of the
  lexicographic order on unsigned bytes.\<close>

theorem tor_memcmp_correct:
  assumes "len \<le> length a" and "len \<le> length b"
  shows "sint (tor_memcmp a b len) = memcmp_ref (take len a) (take len b) \<and>
    (sint (tor_memcmp a b len) = 0 \<longleftrightarrow> take len a = take len b) \<and>
    (sint (tor_memcmp a b len) < 0 \<longleftrightarrow> (take len a, take len b) \<in> lexord {(x, y). x < y})"
proof -
  have "memcmp_ref (take len a) (take len a) = 0" by (simp add: memcmp_ref_0)
  then have "tor_memcmp a b len = word_of_int (memcmp_ref (take len a) (take len b))"
    using assms by (auto simp: tor_memcmp_def tor_memcmp_loop_ref)
  then have "sint (tor_memcmp a b len) = memcmp_ref (take len a) (take len b)"
    by (simp add: sint_small memcmp_ref_bound)
  then show ?thesis using assms by (simp add: memcmp_ref_0 memcmp_ref_less)
qed

theorem tor_memcmp_correct_witness:
  "sint (tor_memcmp [1, 2, 200] [1, 2, 3] 2) = memcmp_ref [1, 2] [1, 2] \<and>
   (sint (tor_memcmp [1, 2, 200] [1, 2, 3] 3) < 0 \<longleftrightarrow>
     ([1, 2, 200 :: byte], [1, 2, 3]) \<in> lexord {(x, y). x < y})"
  using tor_memcmp_correct [of 2 "[1, 2, 200]" "[1, 2, 3]"] tor_memcmp_correct [of 3 "[1, 2, 200]" "[1, 2, 3]"]
  by simp

subsection \<open>Equality and zero tests\<close>

lemma or_ucast_byte: "(ucast (a :: byte) :: 32 word) OR ucast b = ucast (a OR b)"
  by (rule bit_word_eqI) (auto simp: bit_ucast_iff bit_or_iff)

lemma tor_memeq_loop_eq:
  assumes "sz \<le> length a" "sz \<le> length b"
  shows "\<exists>d :: byte. tor_memeq_loop a b sz (ucast (d0 :: byte)) = ucast d \<and>
     (d = 0 \<longleftrightarrow> d0 = 0 \<and> take sz a = take sz b)"
  using assms
proof (induction sz arbitrary: a b d0)
  case (Suc sz)
  obtain x a' y b' where ab: "a = x # a'" "b = y # b'"
    using Suc.prems by (metis Suc_le_length_iff)
  have "sz \<le> length a'" "sz \<le> length b'" using Suc.prems ab by simp_all
  then obtain d :: byte where "tor_memeq_loop a' b' sz (ucast (d0 OR (x XOR y))) = ucast d"
    and "d = 0 \<longleftrightarrow> d0 OR (x XOR y) = 0 \<and> take sz a' = take sz b'"
    using Suc.IH [of a' b' "d0 OR (x XOR y)"] by blast
  then show ?case by (auto simp: ab or_ucast_byte or_eq_0_iff)
qed auto

lemma tor_memeq_eq:
  assumes "sz \<le> length a" "sz \<le> length b"
  shows "tor_memeq a b sz = of_bool (take sz a = take sz b)"
proof -
  obtain d where "tor_memeq_loop a b sz 0 = ucast (d :: byte)" "d = 0 \<longleftrightarrow> take sz a = take sz b"
    using tor_memeq_loop_eq [OF assms, of 0] by auto
  then show ?thesis
    using unsigned_less [of d, where ?'a = nat]
    by (simp add: tor_memeq_def memeq_mask unat_ucast_byte flip: unat_eq_zero [of "ucast d"] unat_eq_zero [of d])
qed

lemma safe_mem_is_zero_loop_eq:
  assumes "sz \<le> length a"
  shows "\<exists>d :: byte. safe_mem_is_zero_loop a sz (ucast (d0 :: byte)) = ucast d \<and>
     (d = 0 \<longleftrightarrow> d0 = 0 \<and> set (take sz a) \<subseteq> {0})"
  using assms
proof (induction sz arbitrary: a d0)
  case (Suc sz)
  obtain x a' where a: "a = x # a'" using Suc.prems by (metis Suc_le_length_iff)
  have "sz \<le> length a'" using Suc.prems a by simp
  then obtain d :: byte where "safe_mem_is_zero_loop a' sz (ucast (d0 OR x)) = ucast d"
    and "d = 0 \<longleftrightarrow> d0 OR x = 0 \<and> set (take sz a') \<subseteq> {0}"
    using Suc.IH [of a' "d0 OR x"] by blast
  then show ?case by (auto simp: a or_ucast_byte or_eq_0_iff)
qed auto

lemma safe_mem_is_zero_eq:
  assumes "sz \<le> length a"
  shows "safe_mem_is_zero a sz = of_bool (set (take sz a) \<subseteq> {0})"
proof -
  obtain d where "safe_mem_is_zero_loop a sz 0 = ucast (d :: byte)" "d = 0 \<longleftrightarrow> set (take sz a) \<subseteq> {0}"
    using safe_mem_is_zero_loop_eq [OF assms, of 0] by auto
  then show ?thesis
    using unsigned_less [of d, where ?'a = nat]
    by (simp add: safe_mem_is_zero_def memeq_mask unat_ucast_byte flip: unat_eq_zero [of "ucast d"] unat_eq_zero [of d])
qed

subsection \<open>The digest map is a map\<close>

text \<open>
  The contract of a write-once key store: adding an absent key succeeds and changes the
  lookup of that key only, and adding a present key aborts.
\<close>

locale write_once_store =
  fixes empty :: "'m" and invar :: "'m \<Rightarrow> bool" and key_ok :: "'k \<Rightarrow> bool" and val_ok :: "'v \<Rightarrow> bool"
    and lookup :: "'m \<Rightarrow> 'k \<Rightarrow> 'v option" and add :: "'m \<Rightarrow> 'k \<Rightarrow> 'v \<Rightarrow> 'm option"
  assumes invar_empty: "invar empty"
    and lookup_empty: "key_ok k \<Longrightarrow> lookup empty k = None"
    and add_absent: "invar m \<Longrightarrow> key_ok k \<Longrightarrow> val_ok v \<Longrightarrow> lookup m k = None \<Longrightarrow>
      \<exists>m'. add m k v = Some m' \<and> invar m' \<and>
        (\<forall>k'. key_ok k' \<longrightarrow> lookup m' k' = (if k' = k then Some v else lookup m k'))"
    and add_present: "invar m \<Longrightarrow> key_ok k \<Longrightarrow> lookup m k \<noteq> None \<Longrightarrow> add m k v = None"
begin

definition add_all :: "('k \<times> 'v) list \<Rightarrow> 'm option" where
  "add_all kvs = foldl (\<lambda>m (k, v). Option.bind m (\<lambda>m. add m k v)) (Some empty) kvs"

lemma add_all_Nil: "add_all [] = Some empty"
  by (simp add: add_all_def)

lemma add_all_snoc: "add_all (kvs @ [(k, v)]) = Option.bind (add_all kvs) (\<lambda>m. add m k v)"
  by (simp add: add_all_def)

lemma add_all_lookup:
  assumes "distinct (map fst kvs)" and "\<forall>(k, v) \<in> set kvs. key_ok k \<and> val_ok v"
  shows "\<exists>m. add_all kvs = Some m \<and> invar m \<and> (\<forall>k. key_ok k \<longrightarrow> lookup m k = map_of kvs k)"
  using assms
proof (induction kvs rule: rev_induct)
  case Nil
  then show ?case by (auto simp: add_all_Nil invar_empty lookup_empty)
next
  case (snoc kv kvs)
  obtain k v where kv: "kv = (k, v)" by (cases kv)
  obtain m where m: "add_all kvs = Some m" "invar m"
    "\<And>k'. key_ok k' \<Longrightarrow> lookup m k' = map_of kvs k'"
    using snoc by auto
  have "key_ok k" "val_ok v" "map_of kvs k = None"
    using snoc.prems by (auto simp: kv map_of_eq_None_iff)
  then obtain m' where "add m k v = Some m'" "invar m'"
    "\<And>k'. key_ok k' \<Longrightarrow> lookup m' k' = (if k' = k then Some v else lookup m k')"
    using add_absent [of m k v] m by metis
  then show ?case
    using m \<open>map_of kvs k = None\<close>
    by (auto simp: kv add_all_snoc map_add_def map_of_append split: option.splits)
qed

lemma add_all_duplicate:
  assumes "distinct (map fst kvs)" and "\<forall>(k, v) \<in> set kvs. key_ok k \<and> val_ok v"
    and "k \<in> set (map fst kvs)"
  shows "add_all (kvs @ [(k, v)]) = None"
proof -
  obtain m where m: "add_all kvs = Some m" "invar m"
    "\<And>k'. key_ok k' \<Longrightarrow> lookup m k' = map_of kvs k'"
    using add_all_lookup [OF assms(1,2)] by auto
  have "key_ok k" "map_of kvs k \<noteq> None" using assms by (auto simp: map_of_eq_None_iff)
  then show ?thesis using m by (simp add: add_all_snoc add_present)
qed

end

definition dimap_invar :: "di_digest256_map \<Rightarrow> bool" where
  "dimap_invar m \<longleftrightarrow> distinct (map fst m) \<and> (\<forall>(k, v) \<in> set m. length k = 32 \<and> v \<noteq> 0)"

definition dimap_lookup :: "di_digest256_map \<Rightarrow> bytes \<Rightarrow> 64 word option" where
  "dimap_lookup m k = (let v = dimap_search m k 0 in if v = 0 then None else Some v)"

lemma dimap_search_map_of:
  assumes "distinct (map fst m)" "\<forall>(k, v) \<in> set m. length k = 32" "length key = 32"
  shows "dimap_search m key dflt = (case map_of m key of None \<Rightarrow> dflt | Some v \<Rightarrow> v)"
  using assms
proof (induction m arbitrary: dflt)
  case (Cons e m)
  obtain k v where e: "e = (k, v)" by (cases e)
  have "ucast (tor_memeq k key 32) - 1 = (if k = key then 0 else -1 :: 64 word)"
    using Cons.prems by (simp add: e tor_memeq_eq)
  then have "dimap_search (e # m) key dflt = dimap_search m key (if k = key then v else dflt)"
    by (simp add: e Let_def)
  moreover have "k = key \<Longrightarrow> map_of m key = None"
    using Cons.prems by (auto simp: e map_of_eq_None_iff)
  ultimately show ?case using Cons by (auto simp: e split: option.splits)
qed simp

lemma dimap_lookup_map_of:
  assumes "dimap_invar m" "length k = 32"
  shows "dimap_lookup m k = map_of m k"
proof -
  have "map_of m k = Some v \<Longrightarrow> v \<noteq> 0" for v
    using assms(1) by (auto simp: dimap_invar_def dest: map_of_SomeD)
  moreover have "dimap_search m k 0 = (case map_of m k of None \<Rightarrow> 0 | Some v \<Rightarrow> v)"
    using assms by (intro dimap_search_map_of) (auto simp: dimap_invar_def)
  ultimately show ?thesis by (auto simp: dimap_lookup_def Let_def split: option.splits)
qed

interpretation dimap: write_once_store "[]" dimap_invar "\<lambda>k. length k = 32" "\<lambda>v. v \<noteq> 0"
  dimap_lookup dimap_add_entry
proof (unfold_locales, goal_cases)
  case 1
  show ?case by (simp add: dimap_invar_def)
next
  case (2 k)
  then show ?case by (simp add: dimap_lookup_def)
next
  case (3 m k v)
  then have "map_of m k = None" by (simp add: dimap_lookup_map_of)
  with 3 have inv': "dimap_invar ((k, v) # m)" by (auto simp: dimap_invar_def map_of_eq_None_iff)
  moreover have "dimap_search m k 0 = 0" using 3 by (simp add: dimap_lookup_def Let_def split: if_splits)
  ultimately show ?case using 3 by (auto simp: dimap_add_entry_def dimap_lookup_map_of)
next
  case (4 m k v)
  then show ?case by (auto simp: dimap_lookup_def dimap_add_entry_def Let_def split: if_splits)
qed

text \<open>A data-independent map that received \<open>kvs\<close> (distinct 32-byte keys, values that are not
  \<^verbatim>\<open>NULL\<close>) through \<^verbatim>\<open>dimap_add_entry\<close> answers \<^verbatim>\<open>dimap_search\<close> like the association list: the
  stored value, or the default for a key it lacks; adding a key it holds aborts.\<close>

theorem dimap_search_after_adds:
  assumes "distinct (map fst kvs)" and "\<forall>(k, v) \<in> set kvs. length k = 32 \<and> v \<noteq> 0"
    and "length key = 32"
  shows "\<exists>m. foldl (\<lambda>m (k, v). Option.bind m (\<lambda>m. dimap_add_entry m k v)) (Some []) kvs = Some m \<and>
     dimap_search m key dflt = (case map_of kvs key of None \<Rightarrow> dflt | Some v \<Rightarrow> v) \<and>
     (key \<in> set (map fst kvs) \<longrightarrow> dimap_add_entry m key v' = None)"
proof -
  obtain m where m: "dimap.add_all kvs = Some m" "dimap_invar m" "dimap_lookup m key = map_of kvs key"
    using dimap.add_all_lookup [OF assms(1,2)] assms(3) by auto
  then have "map_of m key = map_of kvs key" using assms(3) by (simp add: dimap_lookup_map_of)
  moreover have "dimap_search m key dflt = (case map_of m key of None \<Rightarrow> dflt | Some v \<Rightarrow> v)"
    using m assms(3) by (intro dimap_search_map_of) (auto simp: dimap_invar_def)
  moreover have "key \<in> set (map fst kvs) \<Longrightarrow> dimap_add_entry m key v' = None"
    using m assms(3) by (intro dimap.add_present) (auto simp: map_of_eq_None_iff)
  ultimately show ?thesis using m(1) unfolding dimap.add_all_def by auto
qed

theorem dimap_search_after_adds_witness:
  "\<exists>m. dimap_add_entry [] (replicate 32 7) 11 = Some m \<and> dimap_search m (replicate 32 7) 5 = 11 \<and>
     dimap_add_entry m (replicate 32 7) 1 = None"
  using dimap_search_after_adds [of "[(replicate 32 7, 11)]" "replicate 32 7" 5 1] by auto

subsection \<open>Weighted choice\<close>

abbreviation weight_sum :: "64 word list \<Rightarrow> nat" where
  "weight_sum es \<equiv> sum_list (map unat es)"

lemma unat_acc:
  assumes "unat (acc :: 64 word) + unat e \<le> SSIZE_MAX"
  shows "unat (acc + e) = unat acc + unat e"
  using assms by (intro unat_add_noflow) simp

lemma select_array_loop_past:
  assumes "unat acc + weight_sum es \<le> unat rv" "unat acc + weight_sum es \<le> SSIZE_MAX"
  shows "select_array_loop es i ic n acc rv = (ic, n, acc + word_of_nat (weight_sum es))"
  using assms
proof (induction es arbitrary: i acc)
  case (Cons e es)
  have "unat (acc + e) = unat acc + unat e" using Cons.prems by (intro unat_acc) simp
  then show ?case using Cons.prems Cons.IH [of "acc + e" "i + 1"]
    by (auto simp: Let_def word_less_nat_alt add.assoc)
qed simp

lemma select_array_loop_hit:
  assumes "unat rv < unat acc + weight_sum es" "unat acc \<le> unat rv"
    and "unat acc + weight_sum es \<le> SSIZE_MAX"
  shows "\<exists>k < length es. select_array_loop es i ic n acc rv =
       (i + int k, Suc n, acc + word_of_nat (weight_sum es)) \<and>
     unat acc + weight_sum (take k es) \<le> unat rv \<and> unat rv < unat acc + weight_sum (take (Suc k) es)"
  using assms
proof (induction es arbitrary: i acc)
  case (Cons e es)
  have acc: "unat (acc + e) = unat acc + unat e" using Cons.prems by (intro unat_acc) simp
  show ?case
  proof (cases "unat rv < unat acc + unat e")
    case True
    have "select_array_loop es (i + 1) i (Suc n) (acc + e) 9223372036854775807 =
        (i, Suc n, acc + e + word_of_nat (weight_sum es))"
      using Cons.prems acc by (intro select_array_loop_past) simp_all
    then show ?thesis using True acc Cons.prems
      by (intro exI [of _ 0]) (simp add: Let_def word_less_nat_alt add.assoc)
  next
    case False
    obtain k where "k < length es" "select_array_loop es (i + 1) ic n (acc + e) rv =
       (i + 1 + int k, Suc n, acc + e + word_of_nat (weight_sum es))"
      "unat (acc + e) + weight_sum (take k es) \<le> unat rv"
      "unat rv < unat (acc + e) + weight_sum (take (Suc k) es)"
      using Cons.IH [of "acc + e" "i + 1"] Cons.prems False acc by auto
    then show ?thesis using False acc
      by (intro exI [of _ "Suc k"]) (simp add: Let_def word_less_nat_alt add.assoc)
  qed
qed simp

text \<open>\<^verbatim>\<open>select_array_member_cumulative_timei\<close> returns the index of the entry whose interval of
  cumulative weight contains the random value, so each entry is picked with its weight.\<close>

theorem select_array_member_first:
  assumes "weight_sum entries \<le> SSIZE_MAX" and "unat tot = weight_sum entries"
    and "unat rand_val < weight_sum entries"
  shows "\<exists>k < length entries.
     select_array_member_cumulative_timei entries tot rand_val = Some (int k) \<and>
     weight_sum (take k entries) \<le> unat rand_val \<and>
     unat rand_val < weight_sum (take (Suc k) entries)"
proof -
  obtain k where k: "k < length entries" "select_array_loop entries 0 (-1) 0 0 rand_val =
      (int k, 1, word_of_nat (weight_sum entries))"
    "weight_sum (take k entries) \<le> unat rand_val" "unat rand_val < weight_sum (take (Suc k) entries)"
    using select_array_loop_hit [of rand_val 0 entries 0 "-1" 0] assms by auto
  have "tot = word_of_nat (weight_sum entries)" unfolding assms(2) [symmetric] by simp
  then show ?thesis using k
    by (intro exI [of _ k]) (simp add: select_array_member_cumulative_timei_def)
qed

theorem select_array_member_first_witness:
  "\<exists>k < 3. select_array_member_cumulative_timei [5, 0, 7] 12 6 = Some (int k) \<and>
     weight_sum (take k [5, 0, 7]) \<le> 6 \<and> 6 < weight_sum (take (Suc k) [5, 0, 7])"
  using select_array_member_first [of "[5, 0, 7]" 12 6] by (simp add: numeral_3_eq_3)

subsection \<open>Conditional copy\<close>

lemma memcpy_if_true_loop_eq:
  assumes "n \<le> length dest" "n \<le> length src"
  shows "memcpy_if_true_loop (-1) dest src n = take n src @ drop n dest"
    and "memcpy_if_true_loop 0 dest src n = dest"
proof -
  show "memcpy_if_true_loop (-1) dest src n = take n src @ drop n dest" using assms
  proof (induction n arbitrary: dest src)
    case (Suc n)
    then show ?case by (cases dest; cases src) auto
  qed simp
  show "memcpy_if_true_loop 0 dest src n = dest" using assms
  proof (induction n arbitrary: dest src)
    case (Suc n)
    then show ?case by (cases dest; cases src) auto
  qed simp
qed

text \<open>\<^verbatim>\<open>tor_memeq\<close> decides equality of the regions, \<^verbatim>\<open>safe_mem_is_zero\<close> that a region is all
  zero, and \<^verbatim>\<open>memcpy_if_true_timei\<close> copies exactly when its condition holds.\<close>

theorem constant_time_ops_correct:
  assumes "n \<le> length a" and "n \<le> length b"
  shows "tor_memeq a b n = of_bool (take n a = take n b) \<and>
    safe_mem_is_zero a n = of_bool (\<forall>c \<in> set (take n a). c = 0) \<and>
    memcpy_if_true_timei s a b n = (if s then take n b @ drop n a else a)"
  using assms memcpy_if_true_loop_eq [OF assms]
  by (auto simp: tor_memeq_eq safe_mem_is_zero_eq memcpy_if_true_timei_def)

theorem constant_time_ops_correct_witness:
  "tor_memeq [1, 2, 3] [1, 2, 4] 2 = 1 \<and> memcpy_if_true_timei True [1, 2, 3] [9, 8, 7] 2 = [9, 8, 3]"
  using constant_time_ops_correct [of 2 "[1, 2, 3]" "[1, 2, 4]"]
    constant_time_ops_correct [of 2 "[1, 2, 3]" "[9, 8, 7]" True] by simp

end
