(* ===== verification/Tor_Binascii.thy ===== *)
theory Tor_Binascii
  imports Tor_Prelude
begin

text \<open>
  \<^verbatim>\<open>src/tor/src/lib/encoding/binascii.c\<close>: base 16, 32 and 64 encoding and decoding. A
  destination buffer is a byte list whose length is the C \<^verbatim>\<open>destlen\<close>; every \<^verbatim>\<open>*d++ = c\<close> is a
  list update, so a write past the end would be lost and the round-trip theorems below would
  fail. Encoders return \<open>None\<close> where \<^verbatim>\<open>tor_assert\<close> aborts; the decoders and \<^verbatim>\<open>base64_encode\<close>
  return the C result together with the buffer they leave. Source and destination pointers
  are not \<^verbatim>\<open>NULL\<close>.
\<close>

subsection \<open>Sizes\<close>

definition CEIL_DIV :: "nat \<Rightarrow> nat \<Rightarrow> nat" where
  "CEIL_DIV a b = (a + (b - 1)) div b"

definition BASE64_LEN :: "nat \<Rightarrow> nat" where
  "BASE64_LEN n = CEIL_DIV n 3 * 4"

definition BASE16_BUFSIZE :: "nat \<Rightarrow> nat" where
  "BASE16_BUFSIZE n = n * 2 + 1"

definition BASE32_NOPAD_BUFSIZE :: "nat \<Rightarrow> nat" where
  "BASE32_NOPAD_BUFSIZE n = CEIL_DIV (n * 8) 5 + 1"

definition base32_encoded_size :: "nat \<Rightarrow> nat option" where
  "base32_encoded_size srclen = do {
     tor_assert (srclen < SIZE_T_CEILING div 8);
     let enclen = BASE32_NOPAD_BUFSIZE srclen;
     tor_assert (enclen < INT_MAX \<and> enclen > srclen);
     Some enclen }"

definition base64_encode_size :: "nat \<Rightarrow> bool \<Rightarrow> nat option" where
  "base64_encode_size srclen multiline = do {
     tor_assert (srclen < INT_MAX);
     tor_assert (CEIL_DIV srclen 3 < INT_MAX div 4);
     let enclen = BASE64_LEN srclen;
     let enclen = (if multiline then enclen + CEIL_DIV enclen 64 else enclen);
     tor_assert (enclen < INT_MAX \<and> (enclen = 0 \<or> enclen > srclen));
     Some enclen }"

definition base64_decode_maxsize :: "nat \<Rightarrow> nat option" where
  "base64_decode_maxsize srclen = do {
     tor_assert (srclen < INT_MAX div 3);
     Some (CEIL_DIV (srclen * 3) 4) }"

subsection \<open>Base 16\<close>

definition hex_chars :: bytes where
  "hex_chars = lit ''0123456789ABCDEF''"

fun base16_encode_loop :: "bytes \<Rightarrow> nat \<Rightarrow> bytes \<Rightarrow> bytes" where
  "base16_encode_loop dest cp [] = dest[cp := 0]"
| "base16_encode_loop dest cp (b # src) =
    base16_encode_loop
      (dest[cp := hex_chars ! unat (drop_bit 4 b), cp + 1 := hex_chars ! unat (b AND 15)]) (cp + 2) src"

definition base16_encode :: "nat \<Rightarrow> bytes \<Rightarrow> bytes option" where
  "base16_encode destlen src = do {
     tor_assert (length src < SIZE_T_CEILING div 2 - 1);
     tor_assert (destlen \<ge> BASE16_BUFSIZE (length src));
     tor_assert (destlen < SIZE_T_CEILING);
     Some (base16_encode_loop (replicate destlen 0) 0 src) }"

definition hex_str :: "bytes \<Rightarrow> nat \<Rightarrow> bytes option" where
  "hex_str from fromlen =
    (let fromlen = (if fromlen > (65 - 1) div 2 then (65 - 1) div 2 else fromlen)
     in base16_encode 65 (take fromlen from))"

text \<open>\<^verbatim>\<open>hex_decode_digit\<close> of \<^verbatim>\<open>lib/string/compat_ctype.h\<close>; \<open>-1\<close> for a byte that is no hex digit.\<close>

definition hex_decode_digit :: "byte \<Rightarrow> int" where
  "hex_decode_digit c =
    (if 48 \<le> c \<and> c \<le> 57 then uint (c - 48)
     else if 65 \<le> c \<and> c \<le> 70 then uint (c - 65) + 10
     else if 97 \<le> c \<and> c \<le> 102 then uint (c - 97) + 10
     else -1)"

fun base16_decode_loop :: "bytes \<Rightarrow> nat \<Rightarrow> bytes \<Rightarrow> int \<times> bytes" where
  "base16_decode_loop dest d (s1 # s2 # src) =
    (let v1 = hex_decode_digit s1; v2 = hex_decode_digit s2
     in if v1 < 0 \<or> v2 < 0 then (-1, dest)
        else base16_decode_loop (dest[d := word_of_int (push_bit 4 v1 OR v2)]) (d + 1) src)"
| "base16_decode_loop dest d _ = (int d, dest)"

definition base16_decode :: "bytes \<Rightarrow> bytes \<Rightarrow> int \<times> bytes" where
  "base16_decode dest src =
    (if length src mod 2 \<noteq> 0 then (-1, dest)
     else if length dest < length src div 2 \<or> length dest > INT_MAX then (-1, dest)
     else base16_decode_loop (replicate (length dest) 0) 0 src)"

subsection \<open>Base 32\<close>

definition BASE32_CHARS :: bytes where
  "BASE32_CHARS = lit ''abcdefghijklmnopqrstuvwxyz234567''"

definition base32_u :: "bytes \<Rightarrow> nat \<Rightarrow> 32 word" where
  "base32_u src bt =
    (let idx = bt div 8;
         v = push_bit 8 (ucast (src ! idx));
         v = (if idx + 1 < length src then v + ucast (src ! (idx + 1)) else v)
     in drop_bit (11 - bt mod 8) v AND 31)"

function base32_encode_loop :: "bytes \<Rightarrow> nat \<Rightarrow> bytes \<Rightarrow> nat \<Rightarrow> bytes" where
  "base32_encode_loop src nbits dest bt =
    (if bt < nbits
     then base32_encode_loop src nbits (dest[bt div 5 := BASE32_CHARS ! unat (base32_u src bt)]) (bt + 5)
     else dest[bt div 5 := 0])"
  by pat_completeness auto
termination
  by (relation "measure (\<lambda>(src, nbits, dest, bt). nbits - bt)") auto

declare base32_encode_loop.simps [simp del]

text \<open>The counter \<^verbatim>\<open>i\<close> of the source is \<^verbatim>\<open>bit / 5\<close> throughout the loop.\<close>

definition base32_encode :: "nat \<Rightarrow> bytes \<Rightarrow> bytes option" where
  "base32_encode destlen src = do {
     enclen \<leftarrow> base32_encoded_size (length src);
     tor_assert (enclen \<le> destlen);
     tor_assert (destlen < SIZE_T_CEILING);
     Some (base32_encode_loop src (length src * 8) (replicate destlen 0) 0) }"

definition base32_value :: "byte \<Rightarrow> byte option" where
  "base32_value c =
    (if c > 96 \<and> c < 123 then Some (c - 97)
     else if c > 49 \<and> c < 56 then Some (c - 24)
     else if c > 64 \<and> c < 91 then Some (c - 65)
     else None)"

fun base32_values :: "bytes \<Rightarrow> bytes option" where
  "base32_values [] = Some []"
| "base32_values (c # src) =
    (case base32_value c of None \<Rightarrow> None
     | Some v \<Rightarrow> (case base32_values src of None \<Rightarrow> None | Some vs \<Rightarrow> Some (v # vs)))"

definition base32_byte :: "bytes \<Rightarrow> nat \<Rightarrow> byte" where
  "base32_byte tmp bt =
    (let k = bt div 5 in
     if bt mod 40 = 0 then push_bit 3 (tmp ! k) + drop_bit 2 (tmp ! (k + 1))
     else if bt mod 40 = 8 then push_bit 6 (tmp ! k) + push_bit 1 (tmp ! (k + 1)) + drop_bit 4 (tmp ! (k + 2))
     else if bt mod 40 = 16 then push_bit 4 (tmp ! k) + drop_bit 1 (tmp ! (k + 1))
     else if bt mod 40 = 24 then push_bit 7 (tmp ! k) + push_bit 2 (tmp ! (k + 1)) + drop_bit 3 (tmp ! (k + 2))
     else push_bit 5 (tmp ! k) + tmp ! (k + 1))"

function base32_decode_loop :: "bytes \<Rightarrow> nat \<Rightarrow> bytes \<Rightarrow> nat \<Rightarrow> bytes" where
  "base32_decode_loop tmp nbits dest bt =
    (if bt < nbits then base32_decode_loop tmp nbits (dest[bt div 8 := base32_byte tmp bt]) (bt + 8)
     else dest)"
  by pat_completeness auto
termination
  by (relation "measure (\<lambda>(tmp, nbits, dest, bt). nbits - bt)") auto

declare base32_decode_loop.simps [simp del]

definition base32_decode :: "bytes \<Rightarrow> bytes \<Rightarrow> (int \<times> bytes) option" where
  "base32_decode dest src = do {
     let nbits = (length src * 5) div 8 * 8;
     tor_assert (length src < SIZE_T_CEILING div 5);
     tor_assert (nbits div 8 \<le> length dest);
     tor_assert (length dest < SIZE_T_CEILING);
     let zeroed = replicate (length dest) 0;
     case base32_values src of
       None \<Rightarrow> Some (-1, zeroed)
     | Some tmp \<Rightarrow> Some (int (nbits div 8), base32_decode_loop tmp nbits zeroed 0) }"

subsection \<open>Base 64\<close>

definition base64_encode_table :: bytes where
  "base64_encode_table = lit ''ABCDEFGHIJKLMNOPQRSTUVWXYZabcdefghijklmnopqrstuvwxyz0123456789+/''"

text \<open>The encoder's write state: the buffer, the write position \<^verbatim>\<open>d - dest\<close> and \<^verbatim>\<open>linelen\<close>.\<close>

type_synonym b64_out = "bytes \<times> nat \<times> nat"

fun encode_char :: "bool \<Rightarrow> byte \<Rightarrow> b64_out \<Rightarrow> b64_out" where
  "encode_char multiline ch (dest, d, linelen) =
    (let dest = dest[d := ch]; d = d + 1
     in if multiline
        then let linelen = linelen + 1
             in if linelen mod 64 = 0 then (dest[d := 10], d + 1, 0) else (dest, d, linelen)
        else (dest, d, linelen))"

definition encode_n :: "bool \<Rightarrow> 32 word \<Rightarrow> nat \<Rightarrow> b64_out \<Rightarrow> b64_out" where
  "encode_n multiline n idx = encode_char multiline
     (base64_encode_table ! unat (drop_bit ((3 - idx) * 6) n AND 63))"

definition encode_pad :: "bool \<Rightarrow> b64_out \<Rightarrow> b64_out" where
  "encode_pad multiline = encode_char multiline 61"

fun base64_encode_loop :: "bool \<Rightarrow> bytes \<Rightarrow> 32 word \<Rightarrow> nat \<Rightarrow> b64_out \<Rightarrow> 32 word \<times> nat \<times> b64_out" where
  "base64_encode_loop ml [] n n_idx out = (n, n_idx, out)"
| "base64_encode_loop ml (b # src) n n_idx out =
    (let n = push_bit 8 n OR ucast b; n_idx = n_idx + 1
     in if n_idx = 3
        then base64_encode_loop ml src 0 0
               (encode_n ml n 3 (encode_n ml n 2 (encode_n ml n 1 (encode_n ml n 0 out))))
        else base64_encode_loop ml src n n_idx out)"

definition base64_encode_tail :: "bool \<Rightarrow> 32 word \<Rightarrow> nat \<Rightarrow> b64_out \<Rightarrow> b64_out option" where
  "base64_encode_tail ml n n_idx out =
    (if n_idx = 0 then Some out
     else if n_idx = 1 then
       (let n = push_bit 4 n
        in Some (encode_pad ml (encode_pad ml (encode_n ml n 3 (encode_n ml n 2 out)))))
     else if n_idx = 2 then
       (let n = push_bit 2 n
        in Some (encode_pad ml (encode_n ml n 3 (encode_n ml n 2 (encode_n ml n 1 out)))))
     else None)"

definition base64_encode :: "bytes \<Rightarrow> bytes \<Rightarrow> bool \<Rightarrow> (int \<times> bytes) option" where
  "base64_encode dest src multiline = do {
     enclen \<leftarrow> base64_encode_size (length src) multiline;
     if length dest < enclen + 1 \<or> length dest > SIZE_T_CEILING \<or> enclen > INT_MAX
     then Some (-1, dest)
     else do {
       let zeroed = replicate (length dest) 0;
       let (n, n_idx, out) = base64_encode_loop multiline src 0 0 (zeroed, 0, 0);
       case base64_encode_tail multiline n n_idx out of
         None \<Rightarrow> Some (-1, fst out)
       | Some (dest', d, linelen) \<Rightarrow> do {
           let (dest', d) = (if multiline \<and> linelen \<noteq> 0 then (dest'[d := 10], d + 1) else (dest', d));
           tor_assert (d = enclen);
           Some (int enclen, dest'[d := 0]) } } }"

text \<open>The in-place removal of padding; \<^verbatim>\<open>in\<close> and \<^verbatim>\<open>out\<close> are positions in \<^verbatim>\<open>dest\<close>.\<close>

function base64_nopad_loop :: "bytes \<Rightarrow> nat \<Rightarrow> nat \<Rightarrow> bytes \<times> nat" where
  "base64_nopad_loop dest inp out =
    (if inp < length dest \<and> dest ! inp \<noteq> 0
     then if dest ! inp = 61 \<or> dest ! inp = 10 then base64_nopad_loop dest (inp + 1) out
          else base64_nopad_loop (dest[out := dest ! inp]) (inp + 1) (out + 1)
     else (dest[out := 0], out))"
  by pat_completeness auto
termination
  by (relation "measure (\<lambda>(dest, inp, out). length dest - inp)") auto

declare base64_nopad_loop.simps [simp del]

definition base64_encode_nopad :: "bytes \<Rightarrow> bytes \<Rightarrow> (int \<times> bytes) option" where
  "base64_encode_nopad dest src = do {
     (n, dest) \<leftarrow> base64_encode dest src False;
     if n \<le> 0 then Some (n, dest)
     else do {
       tor_assert (nat n < length dest \<and> dest ! nat n = 0);
       let (dest, out) = base64_nopad_loop dest 0 0;
       tor_assert (out \<le> INT_MAX);
       Some (int out, dest) } }"

text \<open>\<^verbatim>\<open>base64_decode_table\<close>, with \<^verbatim>\<open>X\<close> = 255, \<^verbatim>\<open>SP\<close> = 64 and \<^verbatim>\<open>PAD\<close> = 65.\<close>

definition base64_decode_table :: "nat list" where
  "base64_decode_table =
    [255, 255, 255, 255, 255, 255, 255, 255, 255, 64, 64, 64, 255, 64, 255, 255] @
    replicate 16 255 @
    [64, 255, 255, 255, 255, 255, 255, 255, 255, 255, 255, 62, 255, 255, 255, 63,
     52, 53, 54, 55, 56, 57, 58, 59, 60, 61, 255, 255, 255, 65, 255, 255,
     255, 0, 1, 2, 3, 4, 5, 6, 7, 8, 9, 10, 11, 12, 13, 14,
     15, 16, 17, 18, 19, 20, 21, 22, 23, 24, 25, 255, 255, 255, 255, 255,
     255, 26, 27, 28, 29, 30, 31, 32, 33, 34, 35, 36, 37, 38, 39, 40,
     41, 42, 43, 44, 45, 46, 47, 48, 49, 50, 51, 255, 255, 255, 255, 255] @
    replicate 128 255"

text \<open>\<open>None\<close>: the function returned \<open>-1\<close> from inside the loop.\<close>

fun base64_decode_loop :: "bytes \<Rightarrow> 32 word \<Rightarrow> nat \<Rightarrow> bytes \<Rightarrow> nat \<Rightarrow> (32 word \<times> nat \<times> bytes \<times> nat) option" where
  "base64_decode_loop [] n n_idx dest di = Some (n, n_idx, dest, di)"
| "base64_decode_loop (c # src) n n_idx dest di =
    (let v = base64_decode_table ! unat c in
     if v = 255 then None
     else if v = 64 then base64_decode_loop src n n_idx dest di
     else if v = 65 then Some (n, n_idx, dest, di)
     else let n = push_bit 6 n OR word_of_nat v; n_idx = n_idx + 1
          in if n_idx = 4
             then if length dest < 3 \<or> di > length dest - 3 then None
                  else base64_decode_loop src 0 0
                    (dest[di := ucast (drop_bit 16 n), di + 1 := ucast (drop_bit 8 n AND 255),
                          di + 2 := ucast (n AND 255)]) (di + 3)
             else base64_decode_loop src n n_idx dest di)"

definition base64_decode_tail :: "32 word \<Rightarrow> nat \<Rightarrow> bytes \<Rightarrow> nat \<Rightarrow> (int \<times> bytes) option" where
  "base64_decode_tail n n_idx dest di =
    (if n_idx = 1 then None
     else if n_idx = 2 then
       (if length dest < 1 \<or> di > length dest - 1 then None
        else Some (int (di + 1), dest[di := ucast (drop_bit 4 n)]))
     else if n_idx = 3 then
       (if length dest < 2 \<or> di > length dest - 2 then None
        else Some (int (di + 2), dest[di := ucast (drop_bit 10 n), di + 1 := ucast (drop_bit 2 n)]))
     else Some (int di, dest))"

text \<open>
  The result is \<open>-1\<close> and no buffer on failure (the C buffer is then partly written and not
  used), or the number of bytes written and the buffer.
\<close>

definition base64_decode :: "bytes \<Rightarrow> bytes \<Rightarrow> (nat \<times> bytes) option" where
  "base64_decode dest src =
    (if length dest > INT_MAX then None
     else case base64_decode_loop src 0 0 (replicate (length dest) 0) 0 of
       None \<Rightarrow> None
     | Some (n, n_idx, dest, di) \<Rightarrow>
         map_option (\<lambda>(r, dest). (nat r, dest)) (base64_decode_tail n n_idx dest di))"

subsection \<open>Writing into a cleared buffer\<close>

lemma zero_padded_write2:
  assumes "length out + 1 < n"
  shows "(zero_padded n out)[length out := a, length out + 1 := b] = zero_padded n (out @ [a, b])"
  using zero_padded_write [of out n a] zero_padded_write [of "out @ [a]" n b] assms by simp

lemma zero_padded_write3:
  assumes "length out + 2 < n"
  shows "(zero_padded n out)[length out := a, length out + 1 := b, length out + 2 := c] =
    zero_padded n (out @ [a, b, c])"
  using zero_padded_write2 [of out n a b] zero_padded_write [of "out @ [a, b]" n c] assms by simp

subsection \<open>Base 16: encoding, decoding and their round trip\<close>

definition hex2 :: "byte \<Rightarrow> bytes" where
  "hex2 b = [hex_chars ! unat (drop_bit 4 b), hex_chars ! unat (b AND 15)]"

lemma length_concat_hex2 [simp]: "length (concat (map hex2 src)) = 2 * length src"
  by (induction src) (simp_all add: hex2_def)

lemma hex_chars_nibble:
  "k < 16 \<Longrightarrow> hex_decode_digit (hex_chars ! k) = int k \<and>
     (48 \<le> hex_chars ! k \<and> hex_chars ! k \<le> 57 \<or> 65 \<le> hex_chars ! k \<and> hex_chars ! k \<le> 70)"
proof -
  have "list_all (\<lambda>k. hex_decode_digit (hex_chars ! k) = int k \<and>
     (48 \<le> hex_chars ! k \<and> hex_chars ! k \<le> 57 \<or> 65 \<le> hex_chars ! k \<and> hex_chars ! k \<le> 70)) [0..<16]"
    by code_simp
  then show "k < 16 \<Longrightarrow> ?thesis" by (simp add: list_all_iff)
qed

lemma nibbles: "unat (drop_bit 4 (b :: byte)) < 16" "unat (b AND 15) < 16"
proof -
  show "unat (drop_bit 4 b) < 16"
    using unsigned_less [of b, where ?'a = nat] by (simp only: unat_drop_bit) simp
  show "unat (b AND 15) < 16"
    by (simp only: word_and_mask_numerals unsigned_take_bit_eq) (simp add: take_bit_eq_mod)
qed

lemma nibbles_join: "word_of_int (push_bit 4 (uint (drop_bit 4 b)) OR uint (b AND 15)) = (b :: byte)"
  unfolding word_and_mask_numerals
  by (rule bit_word_eqI)
    (auto simp: bit_word_of_int_iff bit_or_iff bit_push_bit_iff bit_uint_iff bit_drop_bit_eq
      bit_take_bit_iff simp del: push_bit_int_def dest: bit_imp_le_length)

lemma hex2_digits:
  "hex_decode_digit (hex_chars ! unat (drop_bit 4 b)) = uint (drop_bit 4 b)"
  "hex_decode_digit (hex_chars ! unat (b AND 15)) = uint (b AND 15)"
  "c \<in> set (hex2 b) \<Longrightarrow> 48 \<le> c \<and> c \<le> 57 \<or> 65 \<le> c \<and> c \<le> 70"
  using hex_chars_nibble [OF nibbles(1), of b] hex_chars_nibble [OF nibbles(2), of b]
  by (auto simp: hex2_def)

lemma hex_text_chars: "c \<in> set (concat (map hex2 src)) \<Longrightarrow> 48 \<le> c \<and> c \<le> 57 \<or> 65 \<le> c \<and> c \<le> 70"
  using hex2_digits(3) by auto

lemma is_c_str_hex [c_string_simps]: "is_c_str (concat (map hex2 src))"
  unfolding is_c_str_def using hex_text_chars [of 0 src] by auto

lemma base16_encode_loop_eq:
  "length out + 2 * length src < n \<Longrightarrow>
   base16_encode_loop (zero_padded n out) (length out) src = zero_padded n (out @ concat (map hex2 src))"
proof (induction src arbitrary: out)
  case Nil
  then show ?case by (simp add: zero_padded_write_NUL)
next
  case (Cons b src)
  have "base16_encode_loop (zero_padded n out) (length out) (b # src) =
      base16_encode_loop (zero_padded n (out @ hex2 b)) (length (out @ hex2 b)) src"
    using Cons.prems zero_padded_write2 [of out n] by (simp add: hex2_def)
  also have "\<dots> = zero_padded n ((out @ hex2 b) @ concat (map hex2 src))"
    using Cons.prems by (intro Cons.IH) (simp add: hex2_def)
  finally show ?case by simp
qed

lemma base16_encode_eq:
  assumes "2 * length src < destlen" "destlen < SIZE_T_CEILING" "length src \<le> INT_MAX"
  shows "base16_encode destlen src = Some (zero_padded destlen (concat (map hex2 src)))"
  using assms base16_encode_loop_eq [of "[]" src destlen]
  by (auto simp: base16_encode_def BASE16_BUFSIZE_def buffer_simps)

lemma base16_decode_loop_eq:
  "length out + length src \<le> n \<Longrightarrow>
   base16_decode_loop (zero_padded n out) (length out) (concat (map hex2 src)) =
     (int (length out + length src), zero_padded n (out @ src))"
proof (induction src arbitrary: out)
  case (Cons b src)
  have "base16_decode_loop (zero_padded n out) (length out) (concat (map hex2 (b # src))) =
      base16_decode_loop ((zero_padded n out)[length out := b]) (length out + 1) (concat (map hex2 src))"
    by (simp add: hex2_def Let_def not_less hex2_digits nibbles_join del: drop_bit_eq_div)
  also have "\<dots> = base16_decode_loop (zero_padded n (out @ [b])) (length (out @ [b])) (concat (map hex2 src))"
    using Cons.prems by (simp add: buffer_simps)
  also have "\<dots> = (int (length (out @ [b]) + length src), zero_padded n ((out @ [b]) @ src))"
    using Cons.prems by (intro Cons.IH) simp
  finally show ?case by simp
qed simp

lemma base16_decode_eq:
  assumes "length src \<le> length dest" "length dest \<le> INT_MAX"
  shows "base16_decode dest (concat (map hex2 src)) = (int (length src), zero_padded (length dest) src)"
  using assms base16_decode_loop_eq [of "[]" src "length dest"]
  by (auto simp: base16_decode_def buffer_simps)

text \<open>With room for the text and its NUL, \<^verbatim>\<open>base16_encode\<close> writes two characters per byte, and
  \<^verbatim>\<open>base16_decode\<close> of that text returns the number of bytes and the bytes themselves, the rest
  of the destination cleared.\<close>

theorem base16_roundtrip:
  assumes "2 * length src < destlen" and "destlen < SIZE_T_CEILING"
    and "length src \<le> length out" and "length out \<le> INT_MAX"
  shows "\<exists>buf. base16_encode destlen src = Some buf \<and> length buf = destlen \<and>
     length (c_str buf) = 2 * length src \<and>
     base16_decode out (c_str buf) = (int (length src), src @ replicate (length out - length src) 0)"
proof -
  let ?text = "concat (map hex2 src)"
  have "c_str (zero_padded destlen ?text) = ?text"
    using assms by (intro c_str_zero_padded) (simp_all add: c_string_simps)
  moreover have "length (zero_padded destlen ?text) = destlen"
    using assms by (intro length_zero_padded) simp
  ultimately show ?thesis using assms
    by (simp add: base16_encode_eq base16_decode_eq) (simp add: zero_padded_def)
qed

theorem base16_roundtrip_witness:
  "\<exists>buf. base16_encode 6 [222, 173] = Some buf \<and> length buf = 6 \<and> length (c_str buf) = 2 * length [222 :: byte, 173] \<and>
     base16_decode [9, 9, 9] (c_str buf) =
       (int (length [222 :: byte, 173]), [222, 173] @ replicate (length [9 :: byte, 9, 9] - length [222 :: byte, 173]) 0)"
  by (rule base16_roundtrip) simp_all

end
