(* ===== verification/Tor_Base32.thy ===== *)
theory Tor_Base32
  imports Tor_Binascii
begin

text \<open>
  Correctness of the base 32 half of \<^verbatim>\<open>binascii.c\<close>. Both directions are read as operations on
  one stream of bits: bit \<open>p\<close> of the stream is bit \<open>7 - p mod 8\<close> of byte \<open>p div 8\<close> of the source
  and bit \<open>4 - p mod 5\<close> of the five-bit value \<open>p div 5\<close>.
\<close>

subsection \<open>The encoder as a bit stream\<close>

definition stream_bit :: "bytes \<Rightarrow> nat \<Rightarrow> bool" where
  "stream_bit src p \<longleftrightarrow> p < 8 * length src \<and> bit (src ! (p div 8)) (7 - p mod 8)"

lemma plus_byte_or:
  "push_bit 8 (ucast (a :: byte)) + ucast (b :: byte) = (push_bit 8 (ucast a) OR ucast b :: 32 word)"
  by (intro disjunctive_add) (auto simp: bit_push_bit_iff bit_ucast_iff dest: bit_imp_le_length)

lemma div_mod_8: "y < 8 \<Longrightarrow> (8 * x + y) div 8 = x \<and> (8 * x + y) mod 8 = (y :: nat)"
  by simp

lemma base32_u_bit:
  assumes "bt < 8 * length src"
  shows "bit (base32_u src bt) k \<longleftrightarrow> k < 5 \<and> stream_bit src (bt + 4 - k)"
proof (cases "k < 5")
  case False
  then show ?thesis by (simp add: base32_u_def Let_def word_and_mask_numerals bit_take_bit_iff)
next
  case True
  define i r where "i = bt div 8" and "r = bt mod 8"
  have bt: "bt = 8 * i + r" and r: "r < 8" by (simp_all add: i_def r_def)
  have i: "i < length src" using assms bt by simp
  define b where "b = (if i + 1 < length src then src ! (i + 1) else 0)"
  have u: "base32_u src bt = take_bit 5 (drop_bit (11 - r) (push_bit 8 (ucast (src ! i)) OR ucast b))"
    by (simp add: base32_u_def Let_def word_and_mask_numerals plus_byte_or b_def i_def r_def)
  show ?thesis
  proof (cases "r + 4 - k < 8")
    case first: True
    have "bt + 4 - k = 8 * i + (r + 4 - k)" using True bt by linarith
    then have "(bt + 4 - k) div 8 = i" "(bt + 4 - k) mod 8 = r + 4 - k" using first by simp_all
    moreover have "7 - (r + 4 - k) = 11 - r + k - 8" "11 - r + k \<ge> 8" "11 - r + k < 32"
      using first True r by linarith+
    moreover have "bt + 4 - k < 8 * length src" using first True i bt by linarith
    ultimately show ?thesis using True i first
      by (auto simp: u stream_bit_def bit_take_bit_iff bit_drop_bit_eq bit_or_iff bit_push_bit_iff
          bit_ucast_iff dest: bit_imp_le_length)
  next
    case second: False
    obtain s where "r + 4 - k = 8 + s" using second by (metis le_Suc_ex linorder_not_less)
    then have "r + 4 = k + 8 + s" by linarith
    then have "bt + 4 - k = 8 * (i + 1) + s" using bt by simp
    moreover have "s < 8" using \<open>r + 4 = k + 8 + s\<close> r by linarith
    ultimately have "(bt + 4 - k) div 8 = i + 1" "(bt + 4 - k) mod 8 = s" by (simp_all only: div_mod_8)
    moreover have "7 - s = 11 - r + k" "11 - r + k < 8"
      using \<open>r + 4 = k + 8 + s\<close> r by linarith+
    moreover have "bt + 4 - k < 8 * length src \<longleftrightarrow> i + 1 < length src"
      using second True r bt by linarith
    ultimately show ?thesis using True i second
      by (auto simp: u stream_bit_def b_def bit_take_bit_iff bit_drop_bit_eq bit_or_iff bit_push_bit_iff
          bit_ucast_iff)
  qed
qed

subsection \<open>The decoder as a bit stream\<close>

text \<open>The five decoding cases: byte \<open>5q + r\<close> starts in the five-bit value \<open>8q + 8r div 5\<close>.\<close>

lemma five_bits: "unat (w :: byte) < 32 \<Longrightarrow> bit w n \<Longrightarrow> n < 5"
  using word_high_bits_unset [of w 5 n] by (cases "n < 5") auto

lemma zero32: "unat (0 :: byte) < 32"
  by simp

lemma base32_case_or:
  fixes a b c :: byte
  assumes "unat b < 32" and "unat c < 32"
  shows "push_bit 3 a + drop_bit 2 b = push_bit 3 a OR drop_bit 2 b"
    and "push_bit 6 a + push_bit 1 b + drop_bit 4 c = push_bit 6 a OR push_bit 1 b OR drop_bit 4 c"
    and "push_bit 4 a + drop_bit 1 b = push_bit 4 a OR drop_bit 1 b"
    and "push_bit 7 a + push_bit 2 b + drop_bit 3 c = push_bit 7 a OR push_bit 2 b OR drop_bit 3 c"
    and "push_bit 5 a + b = push_bit 5 a OR b"
proof -
  have low: "\<not> bit b n" "\<not> bit c n" if "n \<ge> 5" for n
    using that five_bits [OF assms(1), of n] five_bits [OF assms(2), of n] by auto
  have add: "x + y = x OR y" if "\<And>n. n < 8 \<Longrightarrow> \<not> bit x n \<or> \<not> bit y n" for x y :: byte
  proof (rule disjunctive_add)
    show "\<not> bit x n \<or> \<not> bit y n" for n using that [of n] bit_imp_le_length [of x n] by auto
  qed
  note bits = bit_or_iff bit_push_bit_iff bit_drop_bit_eq
  show "push_bit 3 a + drop_bit 2 b = push_bit 3 a OR drop_bit 2 b"
    by (rule add) (auto simp: bits low simp del: push_bit_Suc One_nat_def)
  show "push_bit 4 a + drop_bit 1 b = push_bit 4 a OR drop_bit 1 b"
    by (rule add) (auto simp: bits low simp del: push_bit_Suc One_nat_def)
  show "push_bit 5 a + b = push_bit 5 a OR b"
    by (rule add) (auto simp: bits low simp del: push_bit_Suc One_nat_def)
  have "push_bit 6 a + push_bit 1 b = push_bit 6 a OR push_bit 1 b"
    by (rule add) (auto simp: bits low simp del: push_bit_Suc One_nat_def)
  moreover have "(push_bit 6 a OR push_bit 1 b) + drop_bit 4 c = (push_bit 6 a OR push_bit 1 b) OR drop_bit 4 c"
    by (rule add) (auto simp: bits low simp del: push_bit_Suc One_nat_def)
  ultimately show "push_bit 6 a + push_bit 1 b + drop_bit 4 c = push_bit 6 a OR push_bit 1 b OR drop_bit 4 c"
    by (simp only: or.assoc)
  have "push_bit 7 a + push_bit 2 b = push_bit 7 a OR push_bit 2 b"
    by (rule add) (auto simp: bits low simp del: push_bit_Suc One_nat_def)
  moreover have "(push_bit 7 a OR push_bit 2 b) + drop_bit 3 c = (push_bit 7 a OR push_bit 2 b) OR drop_bit 3 c"
    by (rule add) (auto simp: bits low simp del: push_bit_Suc One_nat_def)
  ultimately show "push_bit 7 a + push_bit 2 b + drop_bit 3 c = push_bit 7 a OR push_bit 2 b OR drop_bit 3 c"
    by (simp only: or.assoc)
qed

lemma base32_byte_bit:
  assumes small: "\<And>m. m < length tmp \<Longrightarrow> unat (tmp ! m) < 32"
    and room: "8 * j + 8 \<le> 5 * length tmp" and "i < 8"
  shows "bit (base32_byte tmp (8 * j)) i \<longleftrightarrow> bit (tmp ! ((8 * j + 7 - i) div 5)) (4 - (8 * j + 7 - i) mod 5)"
proof -
  define q r where "q = j div 5" and "r = j mod 5"
  have j: "8 * j = 40 * q + 8 * r" and r: "r = 0 \<or> r = 1 \<or> r = 2 \<or> r = 3 \<or> r = 4"
    using mult_div_mod_eq [of 5 j] mod_less_divisor [of 5 j] unfolding q_def r_def by linarith+
  have i: "i = 0 \<or> i = 1 \<or> i = 2 \<or> i = 3 \<or> i = 4 \<or> i = 5 \<or> i = 6 \<or> i = 7" using assms(3) by arith
  have low: "\<not> bit (tmp ! (8 * q + m)) n" if "5 * m < 8 * r + 8" "5 \<le> n" for m n
  proof -
    have "8 * q + m < length tmp" using that(1) room j by linarith
    then show ?thesis using five_bits [OF small] that(2) by fastforce
  qed
  have ends: "unat (tmp ! (8 * q + m)) < 32" if "5 * m < 8 * r + 8" for m
    using that room j by (intro small) linarith
  have pos: "8 * j + 7 - i = 40 * q + (8 * r + 7 - i)" using j assms(3) by linarith
  have "(40 * q + n) div 5 = 8 * q + n div 5" "(40 * q + n) mod 5 = n mod 5" for n by presburger+
  then have rhs: "bit (tmp ! ((8 * j + 7 - i) div 5)) (4 - (8 * j + 7 - i) mod 5) \<longleftrightarrow>
      bit (tmp ! (8 * q + (8 * r + 7 - i) div 5)) (4 - (8 * r + 7 - i) mod 5)" by (simp only: pos)
  have "(40 * q + 8 * r) div 5 = 8 * q + 8 * r div 5" "(40 * q + 8 * r) mod 40 = 8 * r"
    using r by auto
  then have lhs: "base32_byte tmp (8 * j) =
      (let a = tmp ! (8 * q + 8 * r div 5); b = tmp ! (8 * q + (8 * r div 5 + 1)); c = tmp ! (8 * q + (8 * r div 5 + 2))
       in if r = 0 then push_bit 3 a + drop_bit 2 b else if r = 1 then push_bit 6 a + push_bit 1 b + drop_bit 4 c
       else if r = 2 then push_bit 4 a + drop_bit 1 b else if r = 3 then push_bit 7 a + push_bit 2 b + drop_bit 3 c
       else push_bit 5 a + b)"
    using r by (auto simp: base32_byte_def j Let_def simp del: One_nat_def push_bit_Suc)
      (simp_all add: add.commute)
  note bits = bit_or_iff bit_push_bit_iff bit_drop_bit_eq
  note or = base32_case_or(1,3,5) [OF _ zero32] base32_case_or(2,4)
  note eval = Let_def or bits low low [of 0, simplified] ends ends [of 0, simplified]
  from r show ?thesis
  proof (elim disjE)
    assume "r = 0"
    with i show ?thesis unfolding lhs rhs by (elim disjE; simp add: eval del: push_bit_Suc One_nat_def add_2_eq_Suc add_2_eq_Suc'; simp)
  next
    assume "r = 1"
    with i show ?thesis unfolding lhs rhs by (elim disjE; simp add: eval del: push_bit_Suc One_nat_def add_2_eq_Suc add_2_eq_Suc'; simp)
  next
    assume "r = 2"
    with i show ?thesis unfolding lhs rhs by (elim disjE; simp add: eval del: push_bit_Suc One_nat_def add_2_eq_Suc add_2_eq_Suc'; simp)
  next
    assume "r = 3"
    with i show ?thesis unfolding lhs rhs by (elim disjE; simp add: eval del: push_bit_Suc One_nat_def add_2_eq_Suc add_2_eq_Suc'; simp)
  next
    assume "r = 4"
    with i show ?thesis unfolding lhs rhs by (elim disjE; simp add: eval del: push_bit_Suc One_nat_def add_2_eq_Suc add_2_eq_Suc'; simp)
  qed
qed

subsection \<open>Round trip\<close>

text \<open>The characters that encode \<open>src\<close>.\<close>

definition base32_values_of :: "bytes \<Rightarrow> bytes" where
  "base32_values_of src = map (\<lambda>m. ucast (base32_u src (5 * m))) [0..<CEIL_DIV (length src * 8) 5]"

definition base32_text :: "bytes \<Rightarrow> bytes" where
  "base32_text src = map (\<lambda>m. BASE32_CHARS ! unat (base32_u src (5 * m))) [0..<CEIL_DIV (length src * 8) 5]"

lemma unat_base32_u: "unat (base32_u src bt) < 32"
  unfolding base32_u_def Let_def word_and_mask_numerals
  using take_bit_nat_less_exp [of 5] by (simp add: unsigned_take_bit_eq)

lemma BASE32_CHARS_value:
  "k < 32 \<Longrightarrow> base32_value (BASE32_CHARS ! k) = Some (word_of_nat k) \<and> BASE32_CHARS ! k \<noteq> 0"
proof -
  have "list_all (\<lambda>k. base32_value (BASE32_CHARS ! k) = Some (word_of_nat k) \<and> BASE32_CHARS ! k \<noteq> 0) [0..<32]"
    by code_simp
  then show "k < 32 \<Longrightarrow> ?thesis" by (simp add: list_all_iff)
qed

lemma base32_values_map:
  "(\<And>m. m \<in> set ms \<Longrightarrow> base32_value (f m) = Some (g m)) \<Longrightarrow> base32_values (map f ms) = Some (map g ms)"
  by (induction ms) auto

lemma base32_values_text: "base32_values (base32_text src) = Some (base32_values_of src)"
  unfolding base32_text_def base32_values_of_def
  using BASE32_CHARS_value [OF unat_base32_u] by (intro base32_values_map) simp

lemma CEIL_DIV_5:
  fixes n :: nat
  defines "d \<equiv> CEIL_DIV (n * 8) 5"
  shows "8 * n \<le> 5 * d" and "5 * d \<le> 8 * n + 4" and "d * 5 div 8 = n" and "m < d \<longleftrightarrow> 5 * m < 8 * n"
proof -
  have "5 * d + (n * 8 + 4) mod 5 = n * 8 + 4" "(n * 8 + 4) mod 5 < 5"
    unfolding d_def CEIL_DIV_def by simp_all
  then show le: "8 * n \<le> 5 * d" "5 * d \<le> 8 * n + 4" by linarith+
  then show "d * 5 div 8 = n" by (intro div_nat_eqI) simp_all
  show "m < d \<longleftrightarrow> 5 * m < 8 * n" using le by linarith
qed

lemma base32_encode_loop_text:
  assumes "CEIL_DIV (length src * 8) 5 < n" and "k \<le> CEIL_DIV (length src * 8) 5"
  shows "base32_encode_loop src (length src * 8) (zero_padded n (take k (base32_text src))) (5 * k) =
    zero_padded n (base32_text src)"
  using assms(2)
proof (induction "CEIL_DIV (length src * 8) 5 - k" arbitrary: k)
  case 0
  then have k: "k = length (base32_text src)" "5 * k \<ge> length src * 8"
    using CEIL_DIV_5(1) [of "length src"] by (simp_all add: base32_text_def)
  then show ?case using assms(1) zero_padded_write_NUL [of "base32_text src" n]
    by (simp add: base32_encode_loop.simps base32_text_def)
next
  case (Suc j)
  then have k: "k < CEIL_DIV (length src * 8) 5" by simp
  then have lt: "5 * k < length src * 8" using CEIL_DIV_5(4) [of k "length src"] by simp
  have len: "length (take k (base32_text src)) = k" using k by (simp add: base32_text_def)
  have "(zero_padded n (take k (base32_text src)))[k := BASE32_CHARS ! unat (base32_u src (5 * k))] =
      zero_padded n (take (Suc k) (base32_text src))"
    using zero_padded_write [of "take k (base32_text src)" n] k assms(1) len
    by (simp add: take_Suc_conv_app_nth base32_text_def)
  then show ?case using Suc(1) [of "Suc k"] Suc(2) k lt
    by (simp add: base32_encode_loop.simps [of _ _ _ "5 * k"] add.commute)
qed

lemma base32_decode_loop_fill:
  assumes "n \<le> length dest"
  shows "base32_decode_loop tmp (8 * n) dest (8 * j) =
    take j dest @ map (\<lambda>i. base32_byte tmp (8 * i)) [j..<n] @ drop (max j n) dest"
  using assms
proof (induction "n - j" arbitrary: j dest)
  case 0
  then show ?case by (simp add: base32_decode_loop.simps max_def)
next
  case (Suc k)
  then have j: "j < n" by simp
  have "base32_decode_loop tmp (8 * n) dest (8 * j) =
      base32_decode_loop tmp (8 * n) (dest[j := base32_byte tmp (8 * j)]) (8 * Suc j)"
    using j by (simp add: base32_decode_loop.simps [of _ _ _ "8 * j"] add.commute)
  moreover have "take (Suc j) (dest[j := b]) = take j dest @ [b]" for b
    using j Suc.prems by (simp add: take_Suc_conv_app_nth)
  ultimately show ?case using Suc(1) [of "Suc j" "dest[j := base32_byte tmp (8 * j)]"] Suc(2) Suc.prems j
    by (simp add: upt_conv_Cons max_def)
qed

lemma base32_byte_values_of:
  assumes j: "j < length src"
  shows "base32_byte (base32_values_of src) (8 * j) = src ! j"
proof (rule bit_word_eqI)
  fix i assume "i < LENGTH(8)"
  then have i: "i < 8" by simp
  let ?tmp = "base32_values_of src" and ?p = "8 * j + 7 - i"
  have len: "length ?tmp = CEIL_DIV (length src * 8) 5" by (simp add: base32_values_of_def)
  have small: "unat (?tmp ! m) < 32" if "m < length ?tmp" for m
    using that unat_base32_u [of src "5 * m"]
    by (simp add: base32_values_of_def unsigned_ucast_eq take_bit_nat_eq_self)
  have p: "?p < 8 * length src" using j i by linarith
  have m: "?p div 5 < length ?tmp" using p len CEIL_DIV_5(4) [of "?p div 5" "length src"]
    times_div_less_eq_dividend [of 5 ?p] by linarith
  have "8 * j + 8 \<le> 5 * length ?tmp" using j len CEIL_DIV_5(1) [of "length src"] by linarith
  then have "bit (base32_byte ?tmp (8 * j)) i \<longleftrightarrow> bit (?tmp ! (?p div 5)) (4 - ?p mod 5)"
    using base32_byte_bit [OF small _ i] by blast
  also have "\<dots> \<longleftrightarrow> bit (base32_u src (5 * (?p div 5))) (4 - ?p mod 5)"
    using m len less_le_trans [of "4 - ?p mod 5" 5 8] by (auto simp: base32_values_of_def bit_ucast_iff)
  also have "\<dots> \<longleftrightarrow> stream_bit src (5 * (?p div 5) + 4 - (4 - ?p mod 5))"
    using m len CEIL_DIV_5(4) [of "?p div 5" "length src"] by (subst base32_u_bit) auto
  also have "5 * (?p div 5) + 4 - (4 - ?p mod 5) = ?p"
    using mult_div_mod_eq [of 5 ?p] mod_less_divisor [of 5 ?p] by linarith
  also have "stream_bit src ?p \<longleftrightarrow> bit (src ! j) i"
  proof -
    have "?p = 8 * j + (7 - i)" using i by linarith
    then show ?thesis using p i div_mod_8 [of "7 - i" j] by (simp add: stream_bit_def)
  qed
  finally show "bit (base32_byte ?tmp (8 * j)) i \<longleftrightarrow> bit (src ! j) i" .
qed

text \<open>With room for the text and its NUL, \<^verbatim>\<open>base32_encode\<close> writes \<^verbatim>\<open>base32_encoded_size - 1\<close>
  characters for every source, and \<^verbatim>\<open>base32_decode\<close> of that text returns the source.\<close>

theorem base32_roundtrip:
  assumes "base32_encoded_size (length src) = Some enclen"
    and "enclen \<le> destlen" and "destlen < SIZE_T_CEILING"
    and "length src \<le> length out" and "length out < SIZE_T_CEILING"
  shows "\<exists>buf. base32_encode destlen src = Some buf \<and> length buf = destlen \<and>
    length (c_str buf) = enclen - 1 \<and>
    base32_decode out (c_str buf) = Some (int (length src), src @ replicate (length out - length src) 0)"
proof -
  have enclen: "enclen = CEIL_DIV (length src * 8) 5 + 1" "enclen < INT_MAX"
    using assms(1) by (auto simp: base32_encoded_size_def BASE32_NOPAD_BUFSIZE_def)
  have len: "length (base32_text src) = enclen - 1" by (simp add: base32_text_def enclen)
  have "base32_encode destlen src = Some (zero_padded destlen (base32_text src))"
    using assms(1-3) enclen base32_encode_loop_text [of src destlen 0]
    by (simp add: base32_encode_def zero_padded_Nil)
  moreover have "is_c_str (base32_text src)"
    using BASE32_CHARS_value [OF unat_base32_u] by (auto simp: is_c_str_def base32_text_def)
  then have "c_str (zero_padded destlen (base32_text src)) = base32_text src"
    using len enclen assms(2) by (simp add: c_str_zero_padded)
  moreover have "base32_decode out (base32_text src) =
      Some (int (length src), src @ replicate (length out - length src) 0)"
  proof -
    have n: "length (base32_text src) * 5 div 8 = length src" using CEIL_DIV_5(3) len enclen by simp
    have "map (\<lambda>i. base32_byte (base32_values_of src) (8 * i)) [0..<length src] = src"
      using base32_byte_values_of by (intro nth_equalityI) auto
    then show ?thesis
      using assms(4,5) n len enclen base32_decode_loop_fill [of "length src" "replicate (length out) 0" "base32_values_of src" 0]
      by (simp add: base32_decode_def base32_values_text mult.commute)
  qed
  ultimately show ?thesis using len assms(2) enclen by (simp add: length_zero_padded)
qed

theorem base32_roundtrip_witness:
  "\<exists>buf. base32_encode 6 [222, 173] = Some buf \<and> length buf = 6 \<and> length (c_str buf) = 5 - 1 \<and>
     base32_decode [9, 9, 9] (c_str buf) =
       Some (int (length [222 :: byte, 173]), [222, 173] @ replicate (length [9 :: byte, 9, 9] - length [222 :: byte, 173]) 0)"
  by (rule base32_roundtrip) (simp_all add: base32_encoded_size_def BASE32_NOPAD_BUFSIZE_def CEIL_DIV_def)

end
