(* ===== verification/Tor_Base64.thy ===== *)
theory Tor_Base64
  imports Tor_Binascii
begin

text \<open>
  Correctness of the base 64 half of \<^verbatim>\<open>binascii.c\<close>: the encoder writes exactly
  \<^verbatim>\<open>base64_encode_size\<close> bytes, in one line or in lines of 64, and the decoder recovers the
  source from every form (single line, multi-line, with the padding removed).
\<close>

subsection \<open>The encoded characters\<close>

definition b64_char :: "32 word \<Rightarrow> nat \<Rightarrow> byte" where
  "b64_char n idx = base64_encode_table ! unat (drop_bit ((3 - idx) * 6) n AND 63)"

definition b64_group :: "byte \<Rightarrow> byte \<Rightarrow> byte \<Rightarrow> 32 word" where
  "b64_group a b c = push_bit 8 (push_bit 8 (ucast a) OR ucast b) OR ucast c"

text \<open>The six-bit characters of a source, without padding.\<close>

fun b64_core :: "bytes \<Rightarrow> bytes" where
  "b64_core (a # b # c # src) =
     [b64_char (b64_group a b c) 0, b64_char (b64_group a b c) 1, b64_char (b64_group a b c) 2,
      b64_char (b64_group a b c) 3] @ b64_core src"
| "b64_core [a, b] =
     (let n = push_bit 2 (push_bit 8 (ucast a) OR ucast b) in [b64_char n 1, b64_char n 2, b64_char n 3])"
| "b64_core [a] = (let n = push_bit 4 (ucast a) in [b64_char n 2, b64_char n 3])"
| "b64_core [] = []"

definition b64_pad :: "bytes \<Rightarrow> bytes" where
  "b64_pad src = replicate ((3 - length src mod 3) mod 3) 61"

lemma length_b64: "length (b64_core src @ b64_pad src) = BASE64_LEN (length src)"
proof (induction src rule: b64_core.induct)
  case (1 a b c src)
  have "(length src + 3) mod 3 = length src mod 3"
    "(5 + length src) div 3 = (Suc (Suc (length src))) div 3 + 1" by simp_all
  then show ?case using 1 by (simp add: b64_pad_def BASE64_LEN_def CEIL_DIV_def)
qed (auto simp: b64_pad_def BASE64_LEN_def CEIL_DIV_def Let_def)

lemma encode_n_char: "encode_n ml n idx = encode_char ml (b64_char n idx)"
  by (simp add: encode_n_def b64_char_def)

lemma base64_encode_loop_tail:
  "(case base64_encode_loop ml src 0 0 st of (n, n_idx, out) \<Rightarrow> base64_encode_tail ml n n_idx out) =
     Some (fold (encode_char ml) (b64_core src @ b64_pad src) st)"
proof (induction src arbitrary: st rule: b64_core.induct)
  case (1 a b c src)
  then show ?case
    by (simp add: b64_pad_def encode_n_char b64_group_def Let_def del: encode_char.simps)
qed (simp_all add: b64_pad_def encode_n_char Let_def base64_encode_tail_def encode_pad_def
      numeral_2_eq_2 del: encode_char.simps)

subsection \<open>Line wrapping\<close>

fun wrap :: "bool \<Rightarrow> nat \<Rightarrow> bytes \<Rightarrow> bytes \<times> nat" where
  "wrap ml l [] = ([], l)"
| "wrap ml l (c # cs) =
    (if ml
     then if (l + 1) mod 64 = 0 then (case wrap ml 0 cs of (r, l') \<Rightarrow> (c # 10 # r, l'))
          else (case wrap ml (l + 1) cs of (r, l') \<Rightarrow> (c # r, l'))
     else (case wrap ml l cs of (r, l') \<Rightarrow> (c # r, l')))"

lemma length_wrap_single: "wrap False l cs = (cs, l)"
  by (induction cs) auto

lemma length_wrap_multi:
  "l < 64 \<Longrightarrow> length (fst (wrap True l cs)) = length cs + (l + length cs) div 64 \<and>
     snd (wrap True l cs) = (l + length cs) mod 64"
proof (induction cs arbitrary: l)
  case (Cons c cs)
  show ?case
  proof (cases "l + 1 = 64")
    case True
    then show ?thesis using Cons.IH [of 0] by (simp add: case_prod_unfold)
  next
    case False
    then show ?thesis using Cons.IH [of "l + 1"] Cons.prems by (simp add: case_prod_unfold)
  qed
qed simp

lemma filter_wrap: "10 \<notin> set cs \<Longrightarrow> filter (\<lambda>c. c \<noteq> 10) (fst (wrap ml l cs)) = cs"
  by (induction cs arbitrary: l) (auto split: prod.splits simp: prod_eq_iff)

lemma fold_encode_char:
  "length out + length (fst (wrap ml l cs)) < n \<Longrightarrow>
   fold (encode_char ml) cs (zero_padded n out, length out, l) =
     (zero_padded n (out @ fst (wrap ml l cs)), length out + length (fst (wrap ml l cs)), snd (wrap ml l cs))"
proof (induction cs arbitrary: out l)
  case (Cons c cs)
  show ?case
  proof (cases "ml \<and> (l + 1) mod 64 = 0")
    case nl: True
    have "encode_char ml c (zero_padded n out, length out, l) =
        (zero_padded n (out @ [c, 10]), length (out @ [c, 10]), 0)"
      using Cons.prems nl zero_padded_write2 [of out n c 10] by (simp split: prod.splits)
    then show ?thesis using Cons.prems nl Cons.IH [of "out @ [c, 10]" 0]
      by (simp split: prod.splits)
  next
    case cont: False
    define l' where "l' = (if ml then l + 1 else l)"
    have w: "wrap ml l (c # cs) = (c # fst (wrap ml l' cs), snd (wrap ml l' cs))"
      using cont by (auto simp: l'_def split: prod.splits)
    have "encode_char ml c (zero_padded n out, length out, l) =
        (zero_padded n (out @ [c]), length (out @ [c]), l')"
      using Cons.prems cont by (auto simp: l'_def buffer_simps split: prod.splits)
    then show ?thesis using Cons.prems w Cons.IH [of "out @ [c]" l'] by simp
  qed
qed simp

subsection \<open>What the encoder returns\<close>

lemma CEIL_DIV_64: "CEIL_DIV m 64 = m div 64 + (if m mod 64 = 0 then 0 else 1)"
proof -
  have "(m mod 64 + 63) div 64 = (if m mod 64 = 0 then 0 else 1)"
    using mod_less_divisor [of 64 m] by (auto intro!: div_nat_eqI)
  then show ?thesis unfolding CEIL_DIV_def by (subst div_add1_eq) simp
qed

lemma base64_encode_eq:
  assumes size: "base64_encode_size (length src) ml = Some enclen"
    and room: "enclen < length dest" "length dest \<le> SIZE_T_CEILING"
  defines "w \<equiv> wrap ml 0 (b64_core src @ b64_pad src)"
  defines "text \<equiv> fst w @ (if ml \<and> snd w \<noteq> 0 then [10] else [])"
  shows "length text = enclen"
    and "base64_encode dest src ml = Some (int enclen, zero_padded (length dest) text)"
proof -
  let ?cs = "b64_core src @ b64_pad src" and ?n = "length dest"
  have len: "length ?cs = BASE64_LEN (length src)" by (rule length_b64)
  have enc: "enclen = (if ml then length ?cs + CEIL_DIV (length ?cs) 64 else length ?cs)"
    and max: "enclen < INT_MAX"
    using size unfolding len by (auto simp: base64_encode_size_def Let_def)
  show len_text: "length text = enclen"
    using length_wrap_multi [of 0 ?cs] by (cases ml) (auto simp: text_def w_def enc CEIL_DIV_64 length_wrap_single)
  have room': "length (fst w) < ?n" using len_text room by (simp add: text_def)
  obtain n n_idx out where loop: "base64_encode_loop ml src 0 0 (replicate ?n 0, 0, 0) = (n, n_idx, out)"
    by (metis prod_cases3)
  have "base64_encode_tail ml n n_idx out = Some (fold (encode_char ml) ?cs (zero_padded ?n [], length ([] :: bytes), 0))"
    using base64_encode_loop_tail [of ml src "(replicate ?n 0, 0, 0)"] by (simp add: loop buffer_simps)
  also have "\<dots> = Some (zero_padded ?n (fst w), length (fst w), snd w)"
    using fold_encode_char [of "[]" ml 0 ?cs ?n] room' by (simp add: w_def)
  finally have tail: "base64_encode_tail ml n n_idx out = Some (zero_padded ?n (fst w), length (fst w), snd w)" .
  show "base64_encode dest src ml = Some (int enclen, zero_padded ?n text)"
  proof (cases "ml \<and> snd w \<noteq> 0")
    case True
    then have w10: "length (fst w) + 1 = enclen" "text = fst w @ [10]" using len_text by (simp_all add: text_def)
    then have "(zero_padded ?n (fst w))[length (fst w) := 10, length (fst w) + 1 := 0] = zero_padded ?n text"
      using room room' zero_padded_write [of "fst w" ?n 10] zero_padded_write_NUL [of "text" ?n] by simp
    then show ?thesis using True w10 room max size loop tail
      by (simp add: base64_encode_def)
  next
    case False
    then have "length (fst w) = enclen" "text = fst w" using len_text by (auto simp: text_def)
    then show ?thesis using False room max zero_padded_write_NUL [of "fst w" ?n]
      by (auto simp add: base64_encode_def size loop tail)
  qed
qed

subsection \<open>The decoder inverts the character stream\<close>

lemma table_inverse:
  "v < 64 \<Longrightarrow> base64_decode_table ! unat (base64_encode_table ! v) = v \<and>
     base64_encode_table ! v \<notin> {0, 10, 61}"
proof -
  have "list_all (\<lambda>v. base64_decode_table ! unat (base64_encode_table ! v) = v \<and>
     base64_encode_table ! v \<notin> {0, 10, 61}) [0..<64]"
    by code_simp
  then show "v < 64 \<Longrightarrow> ?thesis" by (simp add: list_all_iff)
qed

definition b64_val :: "32 word \<Rightarrow> nat \<Rightarrow> 32 word" where
  "b64_val n idx = take_bit 6 (drop_bit ((3 - idx) * 6) n)"

lemma unat_b64_val: "unat (b64_val n idx) < 64"
  unfolding b64_val_def unsigned_take_bit_eq by (simp add: take_bit_eq_mod)

lemma b64_char_value:
  "base64_decode_table ! unat (b64_char n idx) = unat (b64_val n idx)"
  "b64_char n idx \<notin> {0, 10, 61}"
  using table_inverse [OF unat_b64_val, of n idx]
  by (simp_all only: b64_char_def b64_val_def word_and_mask_numerals) simp_all

lemma decode_char_step:
  "base64_decode_loop (b64_char m idx # src) n k dest di =
    (let n = push_bit 6 n OR b64_val m idx
     in if k = 3
        then if length dest < 3 \<or> di > length dest - 3 then None
             else base64_decode_loop src 0 0
                    (dest[di := ucast (drop_bit 16 n), di + 1 := ucast (drop_bit 8 n AND 255),
                          di + 2 := ucast (n AND 255)]) (di + 3)
        else base64_decode_loop src n (k + 1) dest di)"
  using unat_b64_val [of m idx]
  by (simp add: b64_char_value Let_def del: drop_bit_eq_div)

lemmas b64_bits = bit_or_iff bit_push_bit_iff bit_drop_bit_eq bit_take_bit_iff bit_ucast_iff

definition b64_join4 :: "32 word \<Rightarrow> 32 word" where
  "b64_join4 n = push_bit 6 (push_bit 6 (push_bit 6 (push_bit 6 0 OR b64_val n 0) OR b64_val n 1)
     OR b64_val n 2) OR b64_val n 3"

lemma b64_join: "b64_join4 n = take_bit 24 n"
proof (rule bit_word_eqI)
  fix k
  show "bit (b64_join4 n) k = bit (take_bit 24 n) k"
    unfolding b64_join4_def b64_val_def
    by (cases "k < 12"; cases "k < 18"; auto simp: b64_bits simp del: drop_bit_eq_div
        dest: bit_imp_le_length)
qed

lemma decode_char_step4:
  "base64_decode_loop (b64_char m 0 # b64_char m 1 # b64_char m 2 # b64_char m 3 # src) 0 0 dest di =
    (let n = b64_join4 m
     in if length dest < 3 \<or> di > length dest - 3 then None
        else base64_decode_loop src 0 0
               (dest[di := ucast (drop_bit 16 n), di + 1 := ucast (drop_bit 8 n AND 255),
                     di + 2 := ucast (n AND 255)]) (di + 3))"
  by (simp add: decode_char_step Let_def b64_join4_def del: base64_decode_loop.simps drop_bit_eq_div)

lemma b64_group_bytes:
  "take_bit 24 (b64_group a b c) = b64_group a b c"
  "ucast (drop_bit 16 (b64_group a b c)) = a"
  "ucast (drop_bit 8 (b64_group a b c) AND 255) = b"
  "ucast (b64_group a b c AND 255) = c"
  unfolding b64_group_def word_and_mask_numerals
  by (rule bit_word_eqI; auto simp: b64_bits simp del: drop_bit_eq_div dest: bit_imp_le_length)+

lemma Suc_Suc_diff_2: "\<not> k < 2 \<Longrightarrow> Suc (Suc (k - 2)) = k" "2 \<le> k \<Longrightarrow> Suc (Suc (k - 2)) = k"
  by arith+

lemma b64_pair_bytes:
  fixes a b :: byte
  defines "n \<equiv> push_bit 2 (push_bit 8 (ucast a) OR ucast b) :: 32 word"
  defines "m \<equiv> push_bit 6 (push_bit 6 (push_bit 6 0 OR b64_val n 1) OR b64_val n 2) OR b64_val n 3"
  shows "ucast (drop_bit 10 m) = a" and "ucast (drop_bit 2 m) = b"
  unfolding m_def n_def b64_val_def
  by (rule bit_word_eqI; auto simp: b64_bits Suc_Suc_diff_2 simp del: drop_bit_eq_div
      dest: bit_imp_le_length)+

lemma b64_single_byte:
  fixes a :: byte
  defines "n \<equiv> push_bit 4 (ucast a) :: 32 word"
  shows "ucast (drop_bit 4 (push_bit 6 (push_bit 6 0 OR b64_val n 2) OR b64_val n 3)) = a"
  unfolding n_def b64_val_def
  by (rule bit_word_eqI)
    (auto simp: b64_bits Suc_Suc_diff_2 simp del: drop_bit_eq_div dest: bit_imp_le_length)

lemma table_special: "base64_decode_table ! 61 = 65" "base64_decode_table ! 10 = 64"
  by code_simp+

lemma decode_pad: "rest = [] \<or> hd rest = 61 \<Longrightarrow> base64_decode_loop rest n k dest di = Some (n, k, dest, di)"
  by (cases rest) (auto simp: table_special Let_def)

text \<open>Decoding the characters of \<open>src\<close>, whatever padding follows, yields \<open>src\<close>.\<close>

definition decodes_to :: "bytes \<Rightarrow> nat \<Rightarrow> bytes \<Rightarrow> bytes \<Rightarrow> bool" where
  "decodes_to cs n out res \<longleftrightarrow>
    (case base64_decode_loop cs 0 0 (zero_padded n out) (length out) of None \<Rightarrow> False
     | Some (m, k, d, di) \<Rightarrow> base64_decode_tail m k d di = Some (int (length res), zero_padded n res))"

lemma decodes_to_core:
  assumes "rest = [] \<or> hd rest = 61" and "length out + length src \<le> n"
  shows "decodes_to (b64_core src @ rest) n out (out @ src)"
  using assms(2)
proof (induction src arbitrary: out rule: b64_core.induct)
  case (1 a b c src)
  let ?g = "b64_group a b c"
  have room: "\<not> n - 3 < length out" "\<not> n < 3" "length out \<le> n" using 1(2) by simp_all
  have "base64_decode_loop (b64_core (a # b # c # src) @ rest) 0 0 (zero_padded n out) (length out) =
      base64_decode_loop (b64_core src @ rest) 0 0
        ((zero_padded n out)[length out := a, length out + 1 := b, length out + 2 := c]) (length out + 3)"
    using room decode_char_step4 [of ?g "b64_core src @ rest" "zero_padded n out" "length out"]
    by (simp add: Let_def b64_join b64_group_bytes length_zero_padded
        del: base64_decode_loop.simps drop_bit_eq_div)
  also have "\<dots> = base64_decode_loop (b64_core src @ rest) 0 0 (zero_padded n (out @ [a, b, c])) (length (out @ [a, b, c]))"
    using 1(2) zero_padded_write3 [of out n a b c] by (simp add: numeral_3_eq_3)
  finally show ?case using 1(1) [of "out @ [a, b, c]"] 1(2) by (simp add: decodes_to_def)
next
  case (2 a b)
  then show ?case
    using b64_pair_bytes [of a b] zero_padded_write2 [of out n a b]
    by (simp add: decodes_to_def decode_char_step Let_def decode_pad [OF assms(1)] base64_decode_tail_def
        buffer_simps del: base64_decode_loop.simps drop_bit_eq_div)
next
  case (3 a)
  moreover have "zero_padded n out \<noteq> []" "\<not> n - Suc 0 < length out"
    using 3 length_zero_padded [of out n] by fastforce+
  ultimately show ?case
    using b64_single_byte [of a] zero_padded_write [of out n a]
    by (simp add: decodes_to_def decode_char_step Let_def decode_pad [OF assms(1)] base64_decode_tail_def
        buffer_simps del: base64_decode_loop.simps drop_bit_eq_div)
next
  case 4
  then show ?case by (simp add: decodes_to_def decode_pad [OF assms(1)] base64_decode_tail_def)
qed

lemma decode_skips_newlines:
  "base64_decode_loop (filter (\<lambda>c. c \<noteq> 10) cs) n k dest di = base64_decode_loop cs n k dest di"
  by (induction cs n k dest di rule: base64_decode_loop.induct) (auto simp: table_special Let_def)

lemma b64_core_chars: "c \<in> set (b64_core src) \<Longrightarrow> c \<notin> {0, 10, 61}"
  by (induction src rule: b64_core.induct) (use b64_char_value(2) in \<open>auto simp: Let_def\<close>)

lemma b64_text_chars: "c \<in> set (b64_core src @ b64_pad src) \<Longrightarrow> c \<noteq> 0 \<and> c \<noteq> 10"
  using b64_core_chars [of c src] by (auto simp: b64_pad_def split: if_splits)

lemma set_wrap: "set (fst (wrap ml l cs)) \<subseteq> insert 10 (set cs)"
  by (induction cs arbitrary: l) (fastforce simp: case_prod_unfold split: if_splits)+

lemma base64_decode_decodes_to:
  assumes "length out \<le> INT_MAX" and "decodes_to (filter (\<lambda>c. c \<noteq> 10) cs) (length out) [] res"
  shows "base64_decode out cs = Some (length res, zero_padded (length out) res)"
  using assms unfolding decodes_to_def decode_skips_newlines
  by (auto simp: base64_decode_def buffer_simps split: option.splits)

lemma hd_b64_pad: "b64_pad src = [] \<or> hd (b64_pad src) = 61"
  by (cases "(3 - length src mod 3) mod 3") (simp_all add: b64_pad_def)

text \<open>With room for the text and its NUL, \<^verbatim>\<open>base64_encode\<close> writes \<^verbatim>\<open>base64_encode_size\<close> characters
  in one line or in lines of 64, and \<^verbatim>\<open>base64_decode\<close> of that text returns the source.\<close>

theorem base64_roundtrip:
  assumes "base64_encode_size (length src) ml = Some enclen"
    and "enclen < length dest" and "length dest \<le> SIZE_T_CEILING"
    and "length src \<le> length out" and "length out \<le> INT_MAX"
  shows "\<exists>buf. base64_encode dest src ml = Some (int enclen, buf) \<and> length buf = length dest \<and>
    length (c_str buf) = enclen \<and>
    base64_decode out (c_str buf) = Some (length src, src @ replicate (length out - length src) 0)"
proof -
  let ?cs = "b64_core src @ b64_pad src"
  define w where "w = wrap ml 0 ?cs"
  define enctxt where "enctxt = fst w @ (if ml \<and> snd w \<noteq> 0 then [10] else [])"
  have enc: "length enctxt = enclen" "base64_encode dest src ml = Some (int enclen, zero_padded (length dest) enctxt)"
    using base64_encode_eq [OF assms(1-3)] unfolding enctxt_def w_def by auto
  have "set enctxt \<subseteq> insert 10 (set ?cs)" using set_wrap [of ml 0 ?cs] by (auto simp: enctxt_def w_def)
  then have "is_c_str enctxt" using b64_text_chars [of 0 src] by (auto simp: is_c_str_def)
  then have str: "c_str (zero_padded (length dest) enctxt) = enctxt"
    using enc assms(2) by (simp add: c_str_zero_padded)
  have "10 \<notin> set ?cs" using b64_text_chars [of 10 src] by auto
  then have "filter (\<lambda>c. c \<noteq> 10) enctxt = ?cs" by (simp add: enctxt_def w_def filter_wrap)
  moreover have "decodes_to ?cs (length out) [] ([] @ src)"
    using assms(4) hd_b64_pad by (intro decodes_to_core) simp_all
  ultimately have "base64_decode out enctxt = Some (length src, zero_padded (length out) src)"
    using assms(5) by (intro base64_decode_decodes_to) simp_all
  then show ?thesis using enc str assms(2) by (simp add: length_zero_padded) (simp add: zero_padded_def)
qed

theorem base64_roundtrip_witness:
  "\<exists>buf. base64_encode (replicate 9 7) [222, 173] True = Some (int 5, buf) \<and> length buf = length (replicate 9 (7 :: byte)) \<and>
     length (c_str buf) = 5 \<and>
     base64_decode [9, 9, 9] (c_str buf) =
       Some (length [222 :: byte, 173], [222, 173] @ replicate (length [9 :: byte, 9, 9] - length [222 :: byte, 173]) 0)"
  by (rule base64_roundtrip) (simp_all add: base64_encode_size_def BASE64_LEN_def CEIL_DIV_def)

subsection \<open>Removing the padding\<close>

lemma base64_nopad_loop_str:
  assumes "out \<le> inp" and "inp < length dest" and "0 \<in> set (drop inp dest)" and "is_c_str (take out dest)"
  shows "c_str (fst (base64_nopad_loop dest inp out)) =
     take out dest @ filter (\<lambda>c. c \<noteq> 61 \<and> c \<noteq> 10) (c_str (drop inp dest)) \<and>
     snd (base64_nopad_loop dest inp out) =
       out + length (filter (\<lambda>c. c \<noteq> 61 \<and> c \<noteq> 10) (c_str (drop inp dest))) \<and>
     length (fst (base64_nopad_loop dest inp out)) = length dest"
  using assms
proof (induction dest inp out rule: base64_nopad_loop.induct)
  case (1 dest inp out)
  have d: "drop inp dest = dest ! inp # drop (Suc inp) dest"
    using "1.prems" by (simp add: Cons_nth_drop_Suc)
  show ?case
  proof (cases "dest ! inp = 0")
    case True
    have "dest[out := 0] = take out dest @ 0 # drop (Suc out) dest"
      using "1.prems" by (simp add: upd_conv_take_nth_drop)
    then show ?thesis using True d "1.prems"
      by (simp add: base64_nopad_loop.simps [of dest inp out] c_str_append_NUL) (simp add: c_str_def)
  next
    case ne: False
    have more: "0 \<in> set (drop (Suc inp) dest)" using "1.prems"(3) ne d by simp
    then have lt: "Suc inp < length dest" by (metis drop_all empty_iff list.set(1) not_less)
    have cs: "c_str (drop inp dest) = dest ! inp # c_str (drop (Suc inp) dest)"
      using ne d by (simp add: c_str_def)
    show ?thesis
    proof (cases "dest ! inp = 61 \<or> dest ! inp = 10")
      case True
      then show ?thesis using "1.IH"(1) "1.prems" ne cs more lt
        by (simp add: base64_nopad_loop.simps [of dest inp out])
    next
      case False
      let ?d = "dest[out := dest ! inp]"
      have "drop (Suc inp) ?d = drop (Suc inp) dest" using "1.prems" by simp
      moreover have "take (Suc out) ?d = take out dest @ [dest ! inp]"
        using "1.prems" by (simp add: take_Suc_conv_app_nth)
      ultimately show ?thesis using "1.IH"(2) "1.prems" ne cs more lt False
        by (simp add: base64_nopad_loop.simps [of dest inp out] c_string_simps)
    qed
  qed
qed

text \<open>\<^verbatim>\<open>base64_encode_nopad\<close> writes a text without padding characters that \<^verbatim>\<open>base64_decode\<close> turns
  back into the source.\<close>

theorem base64_nopad_roundtrip:
  assumes "base64_encode_size (length src) False = Some enclen"
    and "enclen < length dest" and "length dest \<le> SIZE_T_CEILING"
    and "length src \<le> length out" and "length out \<le> INT_MAX"
  shows "\<exists>n buf. base64_encode_nopad dest src = Some (int n, buf) \<and> length (c_str buf) = n \<and>
    61 \<notin> set (c_str buf) \<and> n \<le> enclen \<and>
    base64_decode out (c_str buf) = Some (length src, src @ replicate (length out - length src) 0)"
proof -
  let ?cs = "b64_core src @ b64_pad src" and ?n = "length dest"
  have enc: "length ?cs = enclen" "base64_encode dest src False = Some (int enclen, zero_padded ?n ?cs)"
    using base64_encode_eq [OF assms(1-3)] by (auto simp: length_wrap_single)
  have max: "enclen < INT_MAX" using assms(1) by (auto simp: base64_encode_size_def Let_def)
  have str: "is_c_str ?cs" using b64_text_chars [of 0 src] by (auto simp: is_c_str_def)
  have flt: "filter (\<lambda>c. c \<noteq> 61 \<and> c \<noteq> 10) ?cs = b64_core src"
    using b64_core_chars [of _ src] by (auto simp: b64_pad_def filter_id_conv)
  have dec: "base64_decode out (b64_core src) = Some (length src, zero_padded (length out) src)"
  proof (rule base64_decode_decodes_to [OF assms(5)])
    have "filter (\<lambda>c. c \<noteq> 10) (b64_core src) = b64_core src @ []"
      using b64_core_chars [of _ src] by (auto simp: filter_id_conv)
    then show "decodes_to (filter (\<lambda>c. c \<noteq> 10) (b64_core src)) (length out) [] src"
      using decodes_to_core [of "[]" "[]" src "length out"] assms(4) by simp
  qed
  show ?thesis
  proof (cases "enclen = 0")
    case True
    then have "b64_core src = []" using enc(1) by simp
    then show ?thesis using True enc dec assms(2) str
      by (auto simp: base64_encode_nopad_def c_string_simps zero_padded_def)
  next
    case False
    have drop0: "0 \<in> set (drop 0 (zero_padded ?n ?cs))" using enc(1) assms(2) by (auto simp: zero_padded_def)
    have nth: "zero_padded ?n ?cs ! enclen = 0"
      unfolding zero_padded_def nth_append using enc(1) assms(2) by simp
    obtain d o' where loop: "base64_nopad_loop (zero_padded ?n ?cs) 0 0 = (d, o')" by fastforce
    have "zero_padded ?n ?cs \<noteq> []" using drop0 by force
    then have "c_str d = b64_core src" "o' = length (b64_core src)"
      using base64_nopad_loop_str [of 0 0 "zero_padded ?n ?cs"] drop0 enc(1) assms(2) str flt loop
      by (auto simp: length_zero_padded c_str_zero_padded is_c_str_Nil)
    moreover have "length (b64_core src) \<le> enclen" using enc(1) by simp
    ultimately show ?thesis using False enc dec nth assms(2) max loop b64_core_chars [of 61 src]
      by (auto simp: base64_encode_nopad_def length_zero_padded zero_padded_def)
  qed
qed

theorem base64_nopad_roundtrip_witness:
  "\<exists>n buf. base64_encode_nopad (replicate 9 7) [222, 173] = Some (int n, buf) \<and> length (c_str buf) = n \<and>
     61 \<notin> set (c_str buf) \<and> n \<le> 4 \<and>
     base64_decode [9, 9, 9] (c_str buf) =
       Some (length [222 :: byte, 173], [222, 173] @ replicate (length [9 :: byte, 9, 9] - length [222 :: byte, 173]) 0)"
  by (rule base64_nopad_roundtrip) (simp_all add: base64_encode_size_def BASE64_LEN_def CEIL_DIV_def)

end
