(* ===== verification/Tor_String.thy ===== *)
theory Tor_String
  imports Tor_Ctime
begin

text \<open>
  String routines: \<^verbatim>\<open>lib/string/compat_ctype.c\<close>, \<^verbatim>\<open>lib/string/util_string.c\<close>.

  A pointer into a NUL-terminated string is the list of the bytes from it to the NUL, so the
  NUL test \<^verbatim>\<open>!*s\<close> is the empty list and a returned pointer is a suffix of the argument. A
  region \<^verbatim>\<open>[s, eos)\<close> is the list of its bytes, which may contain NUL. Routines that write in
  place work on the buffer that holds the string and its NUL.
\<close>

subsection \<open>Character types\<close>

definition TOR_ISALPHA_TABLE :: "32 word list" where
  "TOR_ISALPHA_TABLE = [0, 0, 0x7fffffe, 0x7fffffe, 0, 0, 0, 0]"

definition TOR_ISALNUM_TABLE :: "32 word list" where
  "TOR_ISALNUM_TABLE = [0, 0x3ff0000, 0x7fffffe, 0x7fffffe, 0, 0, 0, 0]"

definition TOR_ISSPACE_TABLE :: "32 word list" where
  "TOR_ISSPACE_TABLE = [0x3e00, 0x1, 0, 0, 0, 0, 0, 0]"

definition TOR_ISXDIGIT_TABLE :: "32 word list" where
  "TOR_ISXDIGIT_TABLE = [0, 0x3ff0000, 0x7e, 0x7e, 0, 0, 0, 0]"

definition TOR_ISDIGIT_TABLE :: "32 word list" where
  "TOR_ISDIGIT_TABLE = [0, 0x3ff0000, 0, 0, 0, 0, 0, 0]"

definition TOR_ISPRINT_TABLE :: "32 word list" where
  "TOR_ISPRINT_TABLE = [0, 0xffffffff, 0xffffffff, 0x7fffffff, 0, 0, 0, 0x0]"

definition TOR_ISUPPER_TABLE :: "32 word list" where
  "TOR_ISUPPER_TABLE = [0, 0, 0x7fffffe, 0, 0, 0, 0, 0]"

definition TOR_ISLOWER_TABLE :: "32 word list" where
  "TOR_ISLOWER_TABLE = [0, 0, 0, 0x7fffffe, 0, 0, 0, 0]"

text \<open>The macro \<^verbatim>\<open>DECLARE_CTYPE_FN\<close>.\<close>

definition ctype_fn :: "32 word list \<Rightarrow> byte \<Rightarrow> bool" where
  "ctype_fn table u \<longleftrightarrow> table ! unat (drop_bit 5 u AND 7) AND push_bit (unat (u AND 31)) 1 \<noteq> 0"

abbreviation TOR_ISALPHA :: "byte \<Rightarrow> bool" where "TOR_ISALPHA \<equiv> ctype_fn TOR_ISALPHA_TABLE"
abbreviation TOR_ISSPACE :: "byte \<Rightarrow> bool" where "TOR_ISSPACE \<equiv> ctype_fn TOR_ISSPACE_TABLE"
abbreviation TOR_ISDIGIT :: "byte \<Rightarrow> bool" where "TOR_ISDIGIT \<equiv> ctype_fn TOR_ISDIGIT_TABLE"
abbreviation TOR_ISPRINT :: "byte \<Rightarrow> bool" where "TOR_ISPRINT \<equiv> ctype_fn TOR_ISPRINT_TABLE"
abbreviation TOR_ISUPPER :: "byte \<Rightarrow> bool" where "TOR_ISUPPER \<equiv> ctype_fn TOR_ISUPPER_TABLE"
abbreviation TOR_ISXDIGIT :: "byte \<Rightarrow> bool" where "TOR_ISXDIGIT \<equiv> ctype_fn TOR_ISXDIGIT_TABLE"
abbreviation TOR_ISALNUM :: "byte \<Rightarrow> bool" where "TOR_ISALNUM \<equiv> ctype_fn TOR_ISALNUM_TABLE"
abbreviation TOR_ISLOWER :: "byte \<Rightarrow> bool" where "TOR_ISLOWER \<equiv> ctype_fn TOR_ISLOWER_TABLE"

definition TOR_TOUPPER_TABLE :: bytes where
  "TOR_TOUPPER_TABLE = map word_of_nat ([0..<97] @ [65..<91] @ [123..<256])"

definition TOR_TOLOWER_TABLE :: bytes where
  "TOR_TOLOWER_TABLE = map word_of_nat ([0..<65] @ [97..<123] @ [91..<256])"

definition TOR_TOUPPER :: "byte \<Rightarrow> byte" where
  "TOR_TOUPPER c = TOR_TOUPPER_TABLE ! unat c"

definition TOR_TOLOWER :: "byte \<Rightarrow> byte" where
  "TOR_TOLOWER c = TOR_TOLOWER_TABLE ! unat c"

subsection \<open>Searching\<close>

text \<open>
  The portable branch of \<^verbatim>\<open>tor_memmem\<close>: \<open>p\<close> is the offset of the candidate, found by
  \<^verbatim>\<open>memchr\<close> in \<^verbatim>\<open>[p, last_possible_start]\<close>.
\<close>

fun memchr_at :: "bytes \<Rightarrow> byte \<Rightarrow> nat \<Rightarrow> nat \<Rightarrow> nat option" where
  "memchr_at h first p 0 = None"
| "memchr_at h first p (Suc n) = (if h ! p = first then Some p else memchr_at h first (p + 1) n)"

lemma memchr_at_ge: "memchr_at h first p n = Some q \<Longrightarrow> p \<le> q \<and> q < p + n"
  by (induction h first p n rule: memchr_at.induct) (auto split: if_splits)

function tor_memmem_loop :: "bytes \<Rightarrow> bytes \<Rightarrow> nat \<Rightarrow> nat \<Rightarrow> nat option" where
  "tor_memmem_loop haystack needle last_possible_start p =
    (case memchr_at haystack (hd needle) p (last_possible_start + 1 - p) of
       None \<Rightarrow> None
     | Some p \<Rightarrow>
         if take (length needle) (drop p haystack) = needle then Some p
         else if p + 1 > last_possible_start then None
         else tor_memmem_loop haystack needle last_possible_start (p + 1))"
  by pat_completeness auto
termination
  by (relation "measure (\<lambda>(h, n, lst, p). lst + 1 - p)") (auto dest!: memchr_at_ge)

declare tor_memmem_loop.simps [simp del]

definition tor_memmem :: "bytes \<Rightarrow> bytes \<Rightarrow> nat option option" where
  "tor_memmem haystack needle = do {
     tor_assert (length needle \<noteq> 0);
     if length needle > length haystack then Some None
     else Some (tor_memmem_loop haystack needle (length haystack - length needle) 0) }"

definition tor_memstr :: "bytes \<Rightarrow> bytes \<Rightarrow> nat option option" where
  "tor_memstr haystack needle = tor_memmem haystack needle"

text \<open>\<^verbatim>\<open>fast_mem_is_zero\<close> compares chunks of \<^verbatim>\<open>sizeof(ZERO)\<close> = 32 bytes.\<close>

function fast_mem_is_zero :: "bytes \<Rightarrow> nat \<Rightarrow> bool" where
  "fast_mem_is_zero mem len =
    (if len \<ge> 32
     then if take 32 mem \<noteq> replicate 32 0 then False else fast_mem_is_zero (drop 32 mem) (len - 32)
     else if len \<noteq> 0 then take len mem = replicate len 0
     else True)"
  by pat_completeness auto
termination
  by (relation "measure (\<lambda>(mem, len). len)") auto

declare fast_mem_is_zero.simps [simp del]

definition tor_digest_is_zero :: "bytes \<Rightarrow> bool" where
  "tor_digest_is_zero digest \<longleftrightarrow> safe_mem_is_zero digest DIGEST_LEN \<noteq> 0"

definition tor_digest256_is_zero :: "bytes \<Rightarrow> bool" where
  "tor_digest256_is_zero digest \<longleftrightarrow> safe_mem_is_zero digest DIGEST256_LEN \<noteq> 0"

subsection \<open>Updates in place\<close>

text \<open>\<open>buf\<close> holds the string and its NUL; \<open>readp\<close> and \<open>sp\<close> are the two pointers.\<close>

function tor_strstrip_loop :: "bytes \<Rightarrow> bytes \<Rightarrow> nat \<Rightarrow> nat \<Rightarrow> bytes" where
  "tor_strstrip_loop buf strip readp sp =
    (if readp < length buf \<and> buf ! readp \<noteq> 0
     then if buf ! readp \<in> set strip then tor_strstrip_loop buf strip (readp + 1) sp
          else tor_strstrip_loop (buf[sp := buf ! readp]) strip (readp + 1) (sp + 1)
     else buf[sp := 0])"
  by pat_completeness auto
termination
  by (relation "measure (\<lambda>(buf, strip, readp, sp). length buf - readp)") auto

declare tor_strstrip_loop.simps [simp del]

definition tor_strstrip :: "bytes \<Rightarrow> bytes \<Rightarrow> bytes" where
  "tor_strstrip buf strip = tor_strstrip_loop buf strip 0 0"

fun tor_strlower :: "bytes \<Rightarrow> bytes" where
  "tor_strlower [] = []"
| "tor_strlower (c # s) = (if c \<noteq> 0 then TOR_TOLOWER c # tor_strlower s else c # s)"

fun tor_strupper :: "bytes \<Rightarrow> bytes" where
  "tor_strupper [] = []"
| "tor_strupper (c # s) = (if c \<noteq> 0 then TOR_TOUPPER c # tor_strupper s else c # s)"

fun tor_strreplacechar :: "bytes \<Rightarrow> byte \<Rightarrow> byte \<Rightarrow> bytes" where
  "tor_strreplacechar [] fnd replacement = []"
| "tor_strreplacechar (c # s) fnd replacement =
    (if c = fnd then replacement # tor_strreplacechar s fnd replacement
     else c # tor_strreplacechar s fnd replacement)"

subsection \<open>Predicates on strings\<close>

fun tor_strisprint :: "bytes \<Rightarrow> bool" where
  "tor_strisprint [] = True"
| "tor_strisprint (c # s) = (if \<not> TOR_ISPRINT c then False else tor_strisprint s)"

fun tor_strisnonupper :: "bytes \<Rightarrow> bool" where
  "tor_strisnonupper [] = True"
| "tor_strisnonupper (c # s) = (if TOR_ISUPPER c then False else tor_strisnonupper s)"

fun tor_strisspace :: "bytes \<Rightarrow> bool" where
  "tor_strisspace [] = True"
| "tor_strisspace (c # s) = (if \<not> TOR_ISSPACE c then False else tor_strisspace s)"

subsection \<open>Comparisons\<close>

text \<open>
  The C library's \<^verbatim>\<open>strncmp\<close> on the strings \<open>s1\<close> and \<open>s2\<close>: bytes are compared as unsigned
  values, the NUL that ends a string as zero. Only the sign of the result is specified; the
  difference of the first unequal bytes is used here. \<open>norm\<close> is the identity, or
  \<^verbatim>\<open>tolower\<close> for \<^verbatim>\<open>strncasecmp\<close>.
\<close>

fun strncmp_by :: "(byte \<Rightarrow> byte) \<Rightarrow> bytes \<Rightarrow> bytes \<Rightarrow> nat \<Rightarrow> int" where
  "strncmp_by norm s1 s2 0 = 0"
| "strncmp_by norm [] [] (Suc n) = 0"
| "strncmp_by norm [] (b # s2) (Suc n) = - uint (norm b)"
| "strncmp_by norm (a # s1) [] (Suc n) = uint (norm a)"
| "strncmp_by norm (a # s1) (b # s2) (Suc n) =
    (if norm a = norm b then strncmp_by norm s1 s2 n else uint (norm a) - uint (norm b))"

definition strncmp :: "bytes \<Rightarrow> bytes \<Rightarrow> nat \<Rightarrow> int" where
  "strncmp = strncmp_by id"

definition strncasecmp :: "bytes \<Rightarrow> bytes \<Rightarrow> nat \<Rightarrow> int" where
  "strncasecmp = strncmp_by TOR_TOLOWER"

definition strcmp :: "bytes \<Rightarrow> bytes \<Rightarrow> int" where
  "strcmp s1 s2 = strncmp s1 s2 (max (length s1) (length s2))"

definition strcasecmp :: "bytes \<Rightarrow> bytes \<Rightarrow> int" where
  "strcasecmp s1 s2 = strncasecmp s1 s2 (max (length s1) (length s2))"

definition strcmp_opt :: "bytes option \<Rightarrow> bytes option \<Rightarrow> int" where
  "strcmp_opt s1 s2 =
    (case s1 of
       None \<Rightarrow> (case s2 of None \<Rightarrow> 0 | Some _ \<Rightarrow> -1)
     | Some s1 \<Rightarrow> (case s2 of None \<Rightarrow> 1 | Some s2 \<Rightarrow> strcmp s1 s2))"

definition strcmpstart :: "bytes \<Rightarrow> bytes \<Rightarrow> int" where
  "strcmpstart s1 s2 = strncmp s1 s2 (length s2)"

definition strcasecmpstart :: "bytes \<Rightarrow> bytes \<Rightarrow> int" where
  "strcasecmpstart s1 s2 = strncasecmp s1 s2 (length s2)"

text \<open>\<^verbatim>\<open>fast_memcmp\<close> is the C library's \<^verbatim>\<open>memcmp\<close>.\<close>

definition fast_memcmpstart :: "bytes \<Rightarrow> bytes \<Rightarrow> int" where
  "fast_memcmpstart mem prefix =
    (if length mem < length prefix then -1 else memcmp_ref (take (length prefix) mem) prefix)"

definition strcmpend :: "bytes \<Rightarrow> bytes \<Rightarrow> int" where
  "strcmpend s1 s2 =
    (let n1 = length s1; n2 = length s2
     in if n2 > n1 then strcmp s1 s2 else strncmp (drop (n1 - n2) s1) s2 n2)"

definition strcasecmpend :: "bytes \<Rightarrow> bytes \<Rightarrow> int" where
  "strcasecmpend s1 s2 =
    (let n1 = length s1; n2 = length s2
     in if n2 > n1 then strcasecmp s1 s2 else strncasecmp (drop (n1 - n2) s1) s2 n2)"

subsection \<open>White space\<close>

lemma length_dropWhile_lt [simp]: "length (dropWhile P s) < Suc (length s)"
  by (simp add: length_dropWhile_le less_Suc_eq_le)

fun eat_whitespace :: "bytes \<Rightarrow> bytes" where
  "eat_whitespace [] = []"
| "eat_whitespace (c # s) =
    (if c = 32 \<or> c = 9 \<or> c = 10 \<or> c = 13 then eat_whitespace s
     else if c = 35 then eat_whitespace (dropWhile (\<lambda>c. c \<noteq> 10) s)
     else c # s)"

text \<open>\<open>s\<close> is the region up to \<^verbatim>\<open>eos\<close>; it may contain NUL.\<close>

fun eat_whitespace_eos :: "bytes \<Rightarrow> bytes" where
  "eat_whitespace_eos [] = []"
| "eat_whitespace_eos (c # s) =
    (if c = 32 \<or> c = 9 \<or> c = 10 \<or> c = 13 then eat_whitespace_eos s
     else if c = 35 then eat_whitespace_eos (dropWhile (\<lambda>c. c \<noteq> 0 \<and> c \<noteq> 10) s)
     else c # s)"

definition eat_whitespace_no_nl :: "bytes \<Rightarrow> bytes" where
  "eat_whitespace_no_nl s = dropWhile (\<lambda>c. c = 32 \<or> c = 9 \<or> c = 13) s"

definition eat_whitespace_eos_no_nl :: "bytes \<Rightarrow> bytes" where
  "eat_whitespace_eos_no_nl s = dropWhile (\<lambda>c. c = 32 \<or> c = 9 \<or> c = 13) s"

definition find_whitespace :: "bytes \<Rightarrow> bytes" where
  "find_whitespace s = dropWhile (\<lambda>c. \<not> (c = 35 \<or> c = 32 \<or> c = 13 \<or> c = 10 \<or> c = 9)) s"

definition find_whitespace_eos :: "bytes \<Rightarrow> bytes" where
  "find_whitespace_eos s = dropWhile (\<lambda>c. \<not> (c = 0 \<or> c = 35 \<or> c = 32 \<or> c = 13 \<or> c = 10 \<or> c = 9)) s"

lemma dropWhile_Cons_length: "dropWhile P s = x # r \<Longrightarrow> length r < length s"
  by (metis length_Cons length_dropWhile_le Suc_le_lessD)

text \<open>\<^verbatim>\<open>strchr(haystack, '\n')\<close> is the suffix that starts with the newline.\<close>

function find_str_at_start_of_line :: "bytes \<Rightarrow> bytes \<Rightarrow> bytes option" where
  "find_str_at_start_of_line haystack needle =
    (if strncmp haystack needle (length needle) = 0 then Some haystack
     else (case dropWhile (\<lambda>c. c \<noteq> 10) haystack of
             [] \<Rightarrow> None
           | nl # rest \<Rightarrow> if rest \<noteq> [] then find_str_at_start_of_line rest needle else None))"
  by pat_completeness auto
termination
  by (relation "measure (\<lambda>(h, n). length h)") (auto dest: dropWhile_Cons_length)

declare find_str_at_start_of_line.simps [simp del]

fun string_is_C_identifier_loop :: "bytes \<Rightarrow> nat \<Rightarrow> bool" where
  "string_is_C_identifier_loop [] iter = True"
| "string_is_C_identifier_loop (c # s) iter =
    (if iter = 0
     then if \<not> (TOR_ISALPHA c \<or> c = 95) then False else string_is_C_identifier_loop s (iter + 1)
     else if \<not> (TOR_ISALPHA c \<or> TOR_ISDIGIT c \<or> c = 95) then False
     else string_is_C_identifier_loop s (iter + 1))"

definition string_is_C_identifier :: "bytes \<Rightarrow> bool" where
  "string_is_C_identifier s = (if length s = 0 then False else string_is_C_identifier_loop s 0)"

subsection \<open>UTF-8\<close>

definition TOP_BITS :: "nat \<Rightarrow> byte" where
  "TOP_BITS x = push_bit (8 - x) 0xFF"

definition LOW_BITS :: "nat \<Rightarrow> byte" where
  "LOW_BITS x = drop_bit (8 - x) 0xFF"

definition bytes_in_char :: "byte \<Rightarrow> nat" where
  "bytes_in_char b =
    (if TOP_BITS 1 AND b = 0 then 1
     else if TOP_BITS 3 AND b = TOP_BITS 2 then 2
     else if TOP_BITS 4 AND b = TOP_BITS 3 then 3
     else if TOP_BITS 5 AND b = TOP_BITS 4 then 4
     else 0)"

definition is_continuation_byte :: "byte \<Rightarrow> bool" where
  "is_continuation_byte b \<longleftrightarrow> b AND TOP_BITS 2 = TOP_BITS 1"

fun validate_char_loop :: "bytes \<Rightarrow> 32 word \<Rightarrow> 32 word option" where
  "validate_char_loop [] codepoint = Some codepoint"
| "validate_char_loop (c # cs) codepoint =
    (if \<not> is_continuation_byte c then None
     else validate_char_loop cs (push_bit 6 codepoint OR ucast (c AND LOW_BITS 6)))"

text \<open>\<open>c\<close> holds the \<^verbatim>\<open>len\<close> bytes of the character.\<close>

definition validate_char :: "bytes \<Rightarrow> nat \<Rightarrow> bool" where
  "validate_char c len =
    (if len = 1 then True
     else (case validate_char_loop (tl c) (ucast (hd c AND LOW_BITS (7 - len))) of
             None \<Rightarrow> False
           | Some codepoint \<Rightarrow>
               if len = 2 \<and> codepoint \<le> 0x7f then False
               else if len = 3 \<and> codepoint \<le> 0x7ff then False
               else if len = 4 \<and> codepoint \<le> 0xffff then False
               else if codepoint \<ge> 0xd800 \<and> codepoint \<le> 0xdfff then False
               else codepoint \<le> 0x10ffff))"

function string_is_utf8 :: "bytes \<Rightarrow> bool" where
  "string_is_utf8 s =
    (if s = [] then True
     else let num_bytes = bytes_in_char (hd s)
          in if num_bytes = 0 then False
             else if num_bytes > length s then False
             else if \<not> validate_char (take num_bytes s) num_bytes then False
             else string_is_utf8 (drop num_bytes s))"
  by pat_completeness auto
termination
  by (relation "measure length") auto

declare string_is_utf8.simps [simp del]

text \<open>The literals \<^verbatim>\<open>"\uFEFF"\<close> and \<^verbatim>\<open>"\uFFFE"\<close> in UTF-8; \<^verbatim>\<open>strcmpstart\<close> reads \<open>s\<close> up to a NUL.\<close>

definition string_is_utf8_no_bom :: "bytes \<Rightarrow> bool" where
  "string_is_utf8_no_bom s =
    (if length s \<ge> 3 \<and> (strcmpstart (c_str s) [0xEF, 0xBB, 0xBF] = 0 \<or> strcmpstart (c_str s) [0xEF, 0xBF, 0xBE] = 0)
     then False else string_is_utf8 s)"

subsection \<open>Character classes\<close>

lemma ctype_fn_bit: "ctype_fn table u \<longleftrightarrow> bit (table ! (unat u div 32)) (unat u mod 32)"
proof -
  have "unat u < 256" using unsigned_less [of u, where ?'a = nat] by simp
  then have "unat u div 32 < 2 ^ 3" by (simp add: less_mult_imp_div_less)
  moreover have "drop_bit 5 u AND 7 = take_bit 3 (drop_bit 5 u)"
    by (simp add: take_bit_eq_mask mask_eq_exp_minus_1)
  ultimately have "unat (drop_bit 5 u AND 7) = unat u div 32"
    using unat_drop_bit [of 5 u] by (simp add: unsigned_take_bit_eq take_bit_nat_eq_self)
  moreover have "unat (u AND 31) = unat u mod 32"
    by (simp only: word_and_mask_numerals unsigned_take_bit_eq) (simp add: take_bit_eq_mod)
  ultimately show ?thesis by (simp add: ctype_fn_def bit_iff_and_push_bit_not_eq_0)
qed

lemma bit_range:
  "j < 32 \<Longrightarrow> bit (0x3e00 :: 32 word) j \<longleftrightarrow> 9 \<le> j \<and> j \<le> 13"
  "j < 32 \<Longrightarrow> bit (0x3ff0000 :: 32 word) j \<longleftrightarrow> 16 \<le> j \<and> j \<le> 25"
proof -
  have "list_all (\<lambda>j. bit (0x3e00 :: 32 word) j \<longleftrightarrow> 9 \<le> j \<and> j \<le> 13) [0..<32]" by code_simp
  then show "j < 32 \<Longrightarrow> bit (0x3e00 :: 32 word) j \<longleftrightarrow> 9 \<le> j \<and> j \<le> 13" by (simp add: list_all_iff)
  have "list_all (\<lambda>j. bit (0x3ff0000 :: 32 word) j \<longleftrightarrow> 16 \<le> j \<and> j \<le> 25) [0..<32]" by code_simp
  then show "j < 32 \<Longrightarrow> bit (0x3ff0000 :: 32 word) j \<longleftrightarrow> 16 \<le> j \<and> j \<le> 25" by (simp add: list_all_iff)
qed

lemma eight_cases: "i < 8 \<Longrightarrow> i = 0 \<or> i = 1 \<or> i = 2 \<or> i = 3 \<or> i = 4 \<or> i = 5 \<or> i = 6 \<or> i = (7::nat)"
  by arith

lemma ctype_fn_at:
  obtains i j where "unat u = 32 * i + j" "i < 8" "j < 32" "\<And>table. ctype_fn table u \<longleftrightarrow> bit (table ! i) j"
proof
  show "unat u = 32 * (unat u div 32) + unat u mod 32" by simp
  show "unat u div 32 < 8" using unsigned_less [of u, where ?'a = nat] by (simp add: less_mult_imp_div_less)
qed (simp_all add: ctype_fn_bit)

lemma TOR_ISSPACE_iff: "TOR_ISSPACE c \<longleftrightarrow> unat c \<in> {9..13} \<or> unat c = 32"
proof -
  obtain i j where c: "unat c = 32 * i + j" "i < 8" "j < 32" "\<And>table. ctype_fn table c \<longleftrightarrow> bit (table ! i) j"
    by (rule ctype_fn_at [of c]) blast
  then show ?thesis using eight_cases [OF c(2)] bit_range [OF c(3)]
    by (elim disjE) (auto simp: TOR_ISSPACE_TABLE_def bit_1_iff)
qed

lemma TOR_ISDIGIT_iff: "TOR_ISDIGIT c \<longleftrightarrow> unat c \<in> {48..57}"
proof -
  obtain i j where c: "unat c = 32 * i + j" "i < 8" "j < 32" "\<And>table. ctype_fn table c \<longleftrightarrow> bit (table ! i) j"
    by (rule ctype_fn_at [of c]) blast
  then show ?thesis using eight_cases [OF c(2)] bit_range [OF c(3)]
    by (elim disjE) (auto simp: TOR_ISDIGIT_TABLE_def bit_1_iff)
qed

subsection \<open>Searching and stripping\<close>

lemma memchr_at_None: "memchr_at h first p n = None \<Longrightarrow> p \<le> k \<Longrightarrow> k < p + n \<Longrightarrow> h ! k \<noteq> first"
proof (induction h first p n rule: memchr_at.induct)
  case (2 h first p n)
  then show ?case by (cases "k = p") (auto split: if_splits)
qed simp

lemma memchr_at_Some:
  "memchr_at h first p n = Some q \<Longrightarrow> h ! q = first \<and> (\<forall>k. p \<le> k \<and> k < q \<longrightarrow> h ! k \<noteq> first)"
proof (induction h first p n rule: memchr_at.induct)
  case (2 h first p n)
  then show ?case by (auto split: if_splits) (metis Suc_leI order_le_less)
qed simp

definition occurs_at :: "bytes \<Rightarrow> bytes \<Rightarrow> nat \<Rightarrow> bool" where
  "occurs_at needle haystack k \<longleftrightarrow> k + length needle \<le> length haystack \<and> take (length needle) (drop k haystack) = needle"

lemma occurs_at_hd: "occurs_at needle haystack k \<Longrightarrow> needle \<noteq> [] \<Longrightarrow> haystack ! k = hd needle"
proof -
  assume "occurs_at needle haystack k" "needle \<noteq> []"
  then have "k < length haystack" "hd needle = hd (take (length needle) (drop k haystack))"
    by (auto simp: occurs_at_def) (metis add_leD1 leD length_greater_0_conv less_add_same_cancel1 nat_less_le)
  then show ?thesis using \<open>needle \<noteq> []\<close> by (simp add: hd_drop_conv_nth)
qed

lemma tor_memmem_loop_first:
  assumes "needle \<noteq> []" and "lst = length haystack - length needle" and "length needle \<le> length haystack"
    and "\<And>k. k < p \<Longrightarrow> \<not> occurs_at needle haystack k"
  shows "(case tor_memmem_loop haystack needle lst p of
            None \<Rightarrow> \<forall>k. \<not> occurs_at needle haystack k
          | Some q \<Rightarrow> occurs_at needle haystack q \<and> (\<forall>k < q. \<not> occurs_at needle haystack k))"
  using assms
proof (induction haystack needle lst p rule: tor_memmem_loop.induct)
  case (1 haystack needle lst p)
  note unfold = tor_memmem_loop.simps [of haystack needle lst p]
  have out: "\<not> occurs_at needle haystack k" if "lst < k" for k
    using that "1.prems"(2,3) by (auto simp: occurs_at_def)
  show ?case
  proof (cases "memchr_at haystack (hd needle) p (lst + 1 - p)")
    case None
    have "\<not> occurs_at needle haystack k" for k
      using out [of k] "1.prems"(1,4) memchr_at_None [OF None, of k] occurs_at_hd [of needle haystack k]
      by (cases "k < p"; cases "lst < k") auto
    then show ?thesis using None unfold by simp
  next
    case (Some q)
    have q: "p \<le> q" "q \<le> lst" using memchr_at_ge [OF Some] by auto
    have before: "\<not> occurs_at needle haystack k" if "k < q" for k
      using that "1.prems"(1,4) memchr_at_Some [OF Some] occurs_at_hd [of needle haystack k] by (cases "k < p") auto
    show ?thesis
    proof (cases "take (length needle) (drop q haystack) = needle")
      case True
      then show ?thesis using Some unfold before q "1.prems"(2,3) by (auto simp: occurs_at_def)
    next
      case False
      then have upto: "\<not> occurs_at needle haystack k" if "k < q + 1" for k
        using that before by (cases "k = q") (auto simp: occurs_at_def)
      show ?thesis
      proof (cases "q + 1 > lst")
        case True
        then have "\<not> occurs_at needle haystack k" for k using upto out [of k] by (cases "k < q + 1") auto
        then show ?thesis using Some False True unfold by simp
      next
        case more: False
        then show ?thesis using "1.IH" [OF Some False more "1.prems"(1-3) upto] Some False unfold by simp
      qed
    qed
  qed
qed

text \<open>\<^verbatim>\<open>tor_memmem\<close> returns the offset of the first occurrence of the needle, and reports that there
  is none exactly when the needle occurs nowhere in the haystack.\<close>

theorem tor_memmem_first:
  assumes "needle \<noteq> []"
  shows "\<exists>r. tor_memmem haystack needle = Some r \<and>
     (case r of
        None \<Rightarrow> \<forall>k. \<not> occurs_at needle haystack k
      | Some q \<Rightarrow> occurs_at needle haystack q \<and> (\<forall>k < q. \<not> occurs_at needle haystack k))"
proof (cases "length needle > length haystack")
  case True
  then show ?thesis using assms by (auto simp: tor_memmem_def occurs_at_def)
next
  case False
  then show ?thesis
    using assms tor_memmem_loop_first [of needle "length haystack - length needle" haystack 0]
    by (auto simp: tor_memmem_def)
qed

theorem tor_memmem_first_witness:
  "\<exists>r. tor_memmem [1, 2, 2, 3] [2, 3] = Some r \<and>
     (case r of None \<Rightarrow> \<forall>k. \<not> occurs_at [2, 3] [1, 2, 2, 3] k
      | Some q \<Rightarrow> occurs_at [2, 3] [1, 2, 2, 3] q \<and> (\<forall>k < q. \<not> occurs_at [2, 3] [1, 2, 2, 3] k))"
  by (rule tor_memmem_first) simp

lemma tor_strstrip_loop_str:
  assumes "sp \<le> readp" and "readp < length buf" and "0 \<in> set (drop readp buf)" and "is_c_str (take sp buf)"
  shows "c_str (tor_strstrip_loop buf strip readp sp) =
     take sp buf @ filter (\<lambda>c. c \<notin> set strip) (c_str (drop readp buf)) \<and>
     length (tor_strstrip_loop buf strip readp sp) = length buf"
  using assms
proof (induction buf strip readp sp rule: tor_strstrip_loop.induct)
  case (1 buf strip readp sp)
  note unfold = tor_strstrip_loop.simps [of buf strip readp sp]
  have d: "drop readp buf = buf ! readp # drop (Suc readp) buf" using "1.prems" by (simp add: Cons_nth_drop_Suc)
  show ?case
  proof (cases "buf ! readp = 0")
    case True
    have "buf[sp := 0] = take sp buf @ 0 # drop (Suc sp) buf" using "1.prems" by (simp add: upd_conv_take_nth_drop)
    then show ?thesis using True d "1.prems" by (simp add: unfold c_str_append_NUL) (simp add: c_str_def)
  next
    case ne: False
    have more: "0 \<in> set (drop (Suc readp) buf)" using "1.prems"(3) ne d by simp
    then have lt: "Suc readp < length buf" by (metis drop_all empty_iff list.set(1) not_less)
    have cs: "c_str (drop readp buf) = buf ! readp # c_str (drop (Suc readp) buf)" using ne d by (simp add: c_str_def)
    show ?thesis
    proof (cases "buf ! readp \<in> set strip")
      case True
      then show ?thesis using "1.IH"(1) "1.prems" ne cs more lt by (simp add: unfold)
    next
      case False
      let ?b = "buf[sp := buf ! readp]"
      have "drop (Suc readp) ?b = drop (Suc readp) buf" using "1.prems" by simp
      moreover have "take (Suc sp) ?b = take sp buf @ [buf ! readp]"
        using "1.prems" by (simp add: take_Suc_conv_app_nth)
      ultimately show ?thesis using "1.IH"(2) "1.prems" ne cs more lt False
        by (simp add: unfold c_string_simps)
    qed
  qed
qed

text \<open>\<^verbatim>\<open>tor_strstrip\<close> deletes the characters of \<open>strip\<close>, within the buffer.\<close>

lemma tor_strstrip_eq:
  assumes "0 \<in> set buf"
  shows "c_str (tor_strstrip buf strip) = filter (\<lambda>c. c \<notin> set strip) (c_str buf) \<and>
    length (tor_strstrip buf strip) = length buf"
proof -
  have "buf \<noteq> []" using assms by auto
  then show ?thesis using assms tor_strstrip_loop_str [of 0 0 buf strip] by (simp add: tor_strstrip_def is_c_str_Nil)
qed

subsection \<open>UTF-8 validation accepts exactly the encodings of Unicode scalar values\<close>

definition scalar_value :: "nat \<Rightarrow> bool" where
  "scalar_value n \<longleftrightarrow> n \<le> 0x10ffff \<and> \<not> (0xd800 \<le> n \<and> n \<le> 0xdfff)"

definition utf8_encode :: "nat \<Rightarrow> bytes" where
  "utf8_encode n = map word_of_nat
    (if n < 0x80 then [n]
     else if n < 0x800 then [192 + n div 64, 128 + n mod 64]
     else if n < 0x10000 then [224 + n div 4096, 128 + n div 64 mod 64, 128 + n mod 64]
     else [240 + n div 262144, 128 + n div 4096 mod 64, 128 + n div 64 mod 64, 128 + n mod 64])"

lemma byte_255: "(255 :: byte) = - 1"
  by simp

lemma TOP_BITS_and: "TOP_BITS k AND b = push_bit (8 - k) (drop_bit (8 - k) b)"
  unfolding TOP_BITS_def byte_255
  by (rule bit_word_eqI) (auto simp: bit_and_iff bit_push_bit_iff bit_drop_bit_eq bit_mask_iff bit_not_iff)

lemma LOW_BITS_and:
  assumes "k \<le> 8"
  shows "unat (b AND LOW_BITS k) = unat b mod 2 ^ k"
proof -
  have "b AND LOW_BITS k = take_bit k b"
    unfolding LOW_BITS_def byte_255 using assms
    by (intro bit_word_eqI) (auto simp: bit_and_iff bit_take_bit_iff bit_drop_bit_eq bit_mask_iff)
  then show ?thesis by (simp only: unsigned_take_bit_eq) (simp add: take_bit_eq_mod)
qed

lemma unat_clear_low: "unat (push_bit n (drop_bit n (b :: byte))) = unat b div 2 ^ n * 2 ^ n"
proof -
  have "push_bit n (drop_bit n b) = b - take_bit n b"
    using bits_ident [of n b] by (simp add: algebra_simps)
  moreover have "take_bit n b \<le> b"
    by (simp only: word_le_nat_alt unsigned_take_bit_eq) (simp add: take_bit_eq_mod)
  ultimately have "unat (push_bit n (drop_bit n b)) = unat b - unat b mod 2 ^ n"
    by (simp only: unat_sub unsigned_take_bit_eq) (simp add: take_bit_eq_mod)
  then show ?thesis by (simp add: minus_mod_eq_div_mult)
qed

lemma TOP_BITS_numerals: "unat (TOP_BITS 1) = 128" "unat (TOP_BITS 2) = 192" "unat (TOP_BITS 3) = 224" "unat (TOP_BITS 4) = 240"
  by (simp_all add: TOP_BITS_def)

lemma byte_unat_lt: "unat (b :: byte) < 256"
  using unsigned_less [of b, where ?'a = nat] by simp

lemma div_mult_eq_iff: "0 < m \<Longrightarrow> n div m * m = q * m \<longleftrightarrow> q * m \<le> n \<and> n < Suc q * (m :: nat)"
  by (metis div_nat_eqI dividend_less_div_times div_times_less_eq_dividend mult.commute mult_Suc nat_mult_eq_cancel1
      add.commute)

lemma bytes_in_char_ranges:
  "bytes_in_char b = (let n = unat b in if n < 128 then 1 else if 192 \<le> n \<and> n < 224 then 2
     else if 224 \<le> n \<and> n < 240 then 3 else if 240 \<le> n \<and> n < 248 then 4 else 0)"
proof -
  have "TOP_BITS 1 AND b = 0 \<longleftrightarrow> unat b div 128 * 128 = 0"
    "TOP_BITS 3 AND b = TOP_BITS 2 \<longleftrightarrow> unat b div 32 * 32 = 192"
    "TOP_BITS 4 AND b = TOP_BITS 3 \<longleftrightarrow> unat b div 16 * 16 = 224"
    "TOP_BITS 5 AND b = TOP_BITS 4 \<longleftrightarrow> unat b div 8 * 8 = 240"
    unfolding TOP_BITS_and word_unat_eq_iff unat_clear_low TOP_BITS_numerals by simp_all
  moreover have "unat b div 128 * 128 = 0 \<longleftrightarrow> unat b < 128" "unat b div 32 * 32 = 192 \<longleftrightarrow> 192 \<le> unat b \<and> unat b < 224"
    "unat b div 16 * 16 = 224 \<longleftrightarrow> 224 \<le> unat b \<and> unat b < 240" "unat b div 8 * 8 = 240 \<longleftrightarrow> 240 \<le> unat b \<and> unat b < 248"
    using div_mult_eq_iff [of 128 "unat b" 0] div_mult_eq_iff [of 32 "unat b" 6]
      div_mult_eq_iff [of 16 "unat b" 14] div_mult_eq_iff [of 8 "unat b" 30] by simp_all
  ultimately show ?thesis by (simp only: bytes_in_char_def Let_def)
qed

lemma is_continuation_byte_range: "is_continuation_byte b \<longleftrightarrow> 128 \<le> unat b \<and> unat b < 192"
proof -
  have "is_continuation_byte b \<longleftrightarrow> unat b div 64 * 64 = 128"
    unfolding is_continuation_byte_def and.commute [of b] TOP_BITS_and word_unat_eq_iff unat_clear_low TOP_BITS_numerals
    by simp
  also have "\<dots> \<longleftrightarrow> 128 \<le> unat b \<and> unat b < 192" using div_mult_eq_iff [of 64 "unat b" 2] by simp
  finally show ?thesis .
qed

lemma codepoint_step:
  assumes "unat (cp :: 32 word) < 2 ^ 26"
  shows "unat (push_bit 6 cp OR ucast (c AND LOW_BITS 6)) = unat cp * 64 + unat c mod 64"
proof -
  have l: "unat (ucast (c AND LOW_BITS 6) :: 32 word) = unat c mod 64"
    using LOW_BITS_and [of 6 c] by (simp add: unat_ucast_byte)
  have "push_bit 6 cp OR ucast (c AND LOW_BITS 6) = push_bit 6 cp + ucast (c AND LOW_BITS 6)"
    using word_high_bits_unset [of "ucast (c AND LOW_BITS 6) :: 32 word" 6] l
    by (intro disjunctive_add [symmetric]) (auto simp: bit_push_bit_iff)
  moreover have "unat (push_bit 6 cp) = unat cp * 64"
    using assms by (simp add: push_bit_eq_mult unat_mult_noflow)
  moreover have "unat cp * 64 + unat c mod 64 < 2 ^ LENGTH(32)"
    using assms mod_less_divisor [of 64 "unat c"] unfolding len_of_numeral_defs by simp
  ultimately show ?thesis using l by (simp only: unat_add_noflow)
qed

text \<open>The decoded value of the continuation bytes \<open>cs\<close> after the leading value \<open>n\<close>.\<close>

definition decode_tail :: "bytes \<Rightarrow> nat \<Rightarrow> nat" where
  "decode_tail cs n = foldl (\<lambda>n c. n * 64 + unat c mod 64) n cs"

lemma validate_char_loop_eq:
  assumes "unat cp * 64 ^ length cs + 64 ^ length cs \<le> 2 ^ 32"
  shows "map_option unat (validate_char_loop cs cp) =
    (if \<forall>c \<in> set cs. is_continuation_byte c then Some (decode_tail cs (unat cp)) else None)"
  using assms
proof (induction cs arbitrary: cp)
  case (Cons c cs)
  let ?cp = "push_bit 6 cp OR ucast (c AND LOW_BITS 6)"
  have "(unat cp + 1) * 64 ^ length cs \<le> 2 ^ 26" using Cons.prems by simp
  moreover have "unat cp + 1 \<le> (unat cp + 1) * 64 ^ length cs"
    using mult_le_mono2 [of 1 "64 ^ length cs" "unat cp + 1"] by (simp only: mult_1_right one_le_numeral one_le_power)
  ultimately have "unat cp < 2 ^ 26" by linarith
  then have step: "unat ?cp = unat cp * 64 + unat c mod 64" by (rule codepoint_step)
  have "unat ?cp + 1 \<le> unat cp * 64 + 64" unfolding step by (simp add: Suc_leI)
  then have "(unat ?cp + 1) * 64 ^ length cs \<le> (unat cp * 64 + 64) * 64 ^ length cs" by (rule mult_le_mono1)
  then have "unat ?cp * 64 ^ length cs + 64 ^ length cs \<le> 2 ^ 32" using Cons.prems by (simp add: algebra_simps)
  then show ?case using Cons.IH [of ?cp] step
    by (cases "\<forall>c \<in> set cs. is_continuation_byte c") (auto simp: decode_tail_def)
qed (simp add: decode_tail_def)

definition accepted :: "nat \<Rightarrow> nat \<Rightarrow> bool" where
  "accepted len n \<longleftrightarrow> scalar_value n \<and> (len = 2 \<longrightarrow> 0x7f < n) \<and> (len = 3 \<longrightarrow> 0x7ff < n) \<and> (len = 4 \<longrightarrow> 0xffff < n)"

lemma validate_char_eq:
  assumes "length c = len" and "len = 2 \<or> len = 3 \<or> len = 4"
  shows "validate_char c len \<longleftrightarrow> (\<forall>b \<in> set (tl c). is_continuation_byte b) \<and>
    accepted len (decode_tail (tl c) (unat (hd c) mod 2 ^ (7 - len)))"
proof -
  let ?lead = "ucast (hd c AND LOW_BITS (7 - len)) :: 32 word"
  have lead: "unat ?lead = unat (hd c) mod 2 ^ (7 - len)" by (simp add: unat_ucast_byte LOW_BITS_and)
  have "unat ?lead + 1 \<le> 2 ^ (7 - len)" unfolding lead by (simp add: Suc_leI)
  then have "(unat ?lead + 1) * 64 ^ (len - 1) \<le> 2 ^ (7 - len) * 64 ^ (len - 1)" by (rule mult_le_mono1)
  then have "unat ?lead * 64 ^ length (tl c) + 64 ^ length (tl c) \<le> 2 ^ 32"
    using assms by (auto simp: algebra_simps)
  note loop = validate_char_loop_eq [OF this]
  have ne: "len \<noteq> 1" using assms(2) by auto
  show ?thesis
  proof (cases "validate_char_loop (tl c) ?lead")
    case None
    then show ?thesis using loop ne by (simp add: validate_char_def split: if_splits)
  next
    case (Some cp)
    then have all: "\<forall>b \<in> set (tl c). is_continuation_byte b"
      and cp: "decode_tail (tl c) (unat (hd c) mod 2 ^ (7 - len)) = unat cp"
      using loop lead by (simp_all split: if_splits)
    have "validate_char c len \<longleftrightarrow> \<not> (len = 2 \<and> cp \<le> 0x7f) \<and> \<not> (len = 3 \<and> cp \<le> 0x7ff) \<and>
        \<not> (len = 4 \<and> cp \<le> 0xffff) \<and> \<not> (0xd800 \<le> cp \<and> cp \<le> 0xdfff) \<and> cp \<le> 0x10ffff"
      using Some ne by (simp add: validate_char_def)
    then have "validate_char c len \<longleftrightarrow> accepted len (unat cp)"
      unfolding word_le_nat_alt accepted_def scalar_value_def by auto
    then show ?thesis using all cp by simp
  qed
qed

lemma unat_of_small: "k < 256 \<Longrightarrow> unat (word_of_nat k :: byte) = k"
  by (simp add: unsigned_of_nat take_bit_nat_eq_self)

lemma continuation_byte_low: "is_continuation_byte b \<Longrightarrow> \<exists>k < 64. unat b = 128 + k \<and> b = word_of_nat (128 + k)"
  unfolding is_continuation_byte_range
  by (rule exI [of _ "unat b - 128"]) (auto simp: word_unat_eq_iff unat_of_small)

lemma leading_byte_low:
  "base \<le> unat b \<Longrightarrow> unat (b :: byte) < base + m \<Longrightarrow> \<exists>k < m. unat b = base + k \<and> b = word_of_nat (base + k)"
  by (rule exI [of _ "unat b - base"]) (auto simp: word_unat_eq_iff)

lemma base_mods:
  "i < 32 \<Longrightarrow> (192 + i) mod 32 = (i :: nat)" "i < 16 \<Longrightarrow> (224 + i) mod 16 = (i :: nat)"
  "i < 8 \<Longrightarrow> (240 + i) mod 8 = (i :: nat)" "j < 64 \<Longrightarrow> (128 + j) mod 64 = (j :: nat)"
  using mod_mult_self3 [of 6 32 i] mod_mult_self3 [of 14 16 i] mod_mult_self3 [of 30 8 i] mod_mult_self3 [of 2 64 j]
  by simp_all

lemma div_mod_64: "k < 64 \<Longrightarrow> (x * 64 + k) div 64 = x \<and> (x * 64 + k) mod 64 = (k :: nat)"
  by simp

lemma validated_char2:
  assumes "192 \<le> unat a" and "unat a < 224" and "validate_char [a, b] 2"
  shows "\<exists>cp. scalar_value cp \<and> [a, b] = utf8_encode cp"
proof -
  obtain i where i: "i < 32" "unat a = 192 + i" "a = word_of_nat (192 + i)"
    using leading_byte_low [of 192 a 32] assms(1,2) by auto
  have "is_continuation_byte b" and acc: "accepted 2 ((unat a mod 32) * 64 + unat b mod 64)"
    using assms(3) validate_char_eq [of "[a, b]" 2] by (simp_all add: decode_tail_def)
  then obtain j where j: "j < 64" "unat b = 128 + j" "b = word_of_nat (128 + j)"
    using continuation_byte_low by blast
  have cp: "scalar_value (i * 64 + j)" "127 < i * 64 + j"
    using acc base_mods i(1,2) j(1,2) by (simp_all add: accepted_def)
  then have "utf8_encode (i * 64 + j) = [a, b]" using i j by (simp add: utf8_encode_def)
  then show ?thesis using cp by metis
qed

lemma validated_char3:
  assumes "224 \<le> unat a" and "unat a < 240" and "validate_char [a, b, c] 3"
  shows "\<exists>cp. scalar_value cp \<and> [a, b, c] = utf8_encode cp"
proof -
  obtain i where i: "i < 16" "unat a = 224 + i" "a = word_of_nat (224 + i)"
    using leading_byte_low [of 224 a 16] assms(1,2) by auto
  have "is_continuation_byte b" "is_continuation_byte c"
    and acc: "accepted 3 (((unat a mod 16) * 64 + unat b mod 64) * 64 + unat c mod 64)"
    using assms(3) validate_char_eq [of "[a, b, c]" 3] by (simp_all add: decode_tail_def)
  then obtain j k where j: "j < 64" "unat b = 128 + j" "b = word_of_nat (128 + j)"
    and k: "k < 64" "unat c = 128 + k" "c = word_of_nat (128 + k)"
    using continuation_byte_low by blast
  let ?cp = "(i * 64 + j) * 64 + k"
  have cp: "scalar_value ?cp" "2047 < ?cp"
    using acc base_mods i(1,2) j(1,2) k(1,2) by (simp_all add: accepted_def)
  have d: "?cp div 64 = i * 64 + j" "?cp mod 64 = k" using div_mod_64 [OF k(1)] by blast+
  then have "?cp div 4096 = i" using div_mult2_eq [of ?cp 64 64] j by simp
  then have "utf8_encode ?cp = [a, b, c]" using cp i j k d by (simp add: utf8_encode_def)
  then show ?thesis using cp by metis
qed

lemma validated_char4:
  assumes "240 \<le> unat a" and "unat a < 248" and "validate_char [a, b, c, d] 4"
  shows "\<exists>cp. scalar_value cp \<and> [a, b, c, d] = utf8_encode cp"
proof -
  obtain i where i: "i < 8" "unat a = 240 + i" "a = word_of_nat (240 + i)"
    using leading_byte_low [of 240 a 8] assms(1,2) by auto
  have cont: "is_continuation_byte b" "is_continuation_byte c" "is_continuation_byte d"
    and acc: "accepted 4 ((((unat a mod 8) * 64 + unat b mod 64) * 64 + unat c mod 64) * 64 + unat d mod 64)"
    using assms(3) validate_char_eq [of "[a, b, c, d]" 4] by (simp_all add: decode_tail_def)
  obtain j where j: "j < 64" "unat b = 128 + j" "b = word_of_nat (128 + j)" using continuation_byte_low [OF cont(1)] by blast
  obtain k where k: "k < 64" "unat c = 128 + k" "c = word_of_nat (128 + k)" using continuation_byte_low [OF cont(2)] by blast
  obtain l where l: "l < 64" "unat d = 128 + l" "d = word_of_nat (128 + l)" using continuation_byte_low [OF cont(3)] by blast
  define x y cp where "x = i * 64 + j" and "y = x * 64 + k" and "cp = y * 64 + l"
  have "accepted 4 cp"
    using acc base_mods(3) [OF i(1)] base_mods(4) j(1) k(1) l(1) by (simp add: i(2) j(2) k(2) l(2) x_def y_def cp_def)
  then have cp: "scalar_value cp" "\<not> cp < 128" "\<not> cp < 2048" "\<not> cp < 65536" by (simp_all add: accepted_def)
  have d: "cp div 64 = y" "cp mod 64 = l" "y div 64 = x" "y mod 64 = k" "x div 64 = i" "x mod 64 = j"
    using div_mod_64 [OF j(1), of i] div_mod_64 [OF k(1), of x] div_mod_64 [OF l(1), of y]
    by (simp_all only: x_def [symmetric] y_def [symmetric] cp_def [symmetric])
  then have d2: "cp div 4096 = x" "cp div 262144 = i"
    using div_mult2_eq [of cp 64 64] div_mult2_eq [of cp 4096 64] by simp_all
  have "utf8_encode cp = [a, b, c, d]"
    unfolding utf8_encode_def using cp(2-4) i(3) j(3) k(3) l(3) by (simp add: d d2)
  then show ?thesis using cp(1) by metis
qed

lemma validated_char_encodes:
  assumes "s \<noteq> []" and n: "bytes_in_char (hd s) = n" "n \<noteq> 0" "n \<le> length s" and v: "validate_char (take n s) n"
  shows "\<exists>cp. scalar_value cp \<and> take n s = utf8_encode cp"
proof -
  obtain a s' where s: "s = a # s'" using assms(1) by (cases s) auto
  have cases: "n = 1 \<and> unat a < 128 \<or> n = 2 \<and> 192 \<le> unat a \<and> unat a < 224 \<or>
      n = 3 \<and> 224 \<le> unat a \<and> unat a < 240 \<or> n = 4 \<and> 240 \<le> unat a \<and> unat a < 248"
    using n(1,2) s by (auto simp: bytes_in_char_ranges Let_def split: if_splits)
  then show ?thesis
  proof (elim disjE conjE)
    assume "n = 1" "unat a < 128"
    then show ?thesis using s by (intro exI [of _ "unat a"]) (simp add: scalar_value_def utf8_encode_def)
  next
    assume "n = 2" "192 \<le> unat a" "unat a < 224"
    moreover then obtain b where "take n s = [a, b]" using n(3) s by (cases s') auto
    ultimately show ?thesis using v validated_char2 by simp
  next
    assume "n = 3" "224 \<le> unat a" "unat a < 240"
    moreover then obtain b c where "take n s = [a, b, c]" using n(3) s by (cases s'; cases "tl s'") auto
    ultimately show ?thesis using v validated_char3 by simp
  next
    assume "n = 4" "240 \<le> unat a" "unat a < 248"
    moreover then obtain b c d where "take n s = [a, b, c, d]"
      using n(3) s by (cases s'; cases "tl s'"; cases "tl (tl s')") auto
    ultimately show ?thesis using v validated_char4 by simp
  qed
qed

lemma encoded_char_validated:
  assumes "scalar_value cp"
  defines "e \<equiv> utf8_encode cp"
  shows "e \<noteq> [] \<and> bytes_in_char (hd e) = length e \<and> validate_char e (length e)"
proof -
  have max: "cp \<le> 0x10ffff" using assms(1) by (simp add: scalar_value_def)
  have cont: "is_continuation_byte (word_of_nat (128 + k mod 64))" "unat (word_of_nat (128 + k mod 64) :: byte) mod 64 = k mod 64" for k
    using mod_less_divisor [of 64 k] by (simp_all add: is_continuation_byte_range unat_of_small base_mods(4) del: of_nat_add)
  consider "cp < 0x80" | "0x80 \<le> cp" "cp < 0x800" | "0x800 \<le> cp" "cp < 0x10000" | "0x10000 \<le> cp" by linarith
  then show ?thesis
  proof cases
    case 1
    then show ?thesis
      by (simp add: e_def utf8_encode_def bytes_in_char_ranges Let_def unat_of_small validate_char_def)
  next
    case 2
    have i: "cp div 64 < 32" using 2 by (simp add: less_mult_imp_div_less)
    have u: "unat (word_of_nat (192 + cp div 64) :: byte) = 192 + cp div 64" using i by (intro unat_of_small) simp
    have "accepted 2 cp" using assms(1) 2 by (simp add: accepted_def)
    then have "validate_char e 2" using 2 i cont [of cp] u validate_char_eq [of e 2]
      by (simp add: e_def utf8_encode_def base_mods decode_tail_def del: of_nat_add)
    moreover have "length e = 2" "bytes_in_char (hd e) = 2" using 2 i u
      by (simp_all add: e_def utf8_encode_def bytes_in_char_ranges Let_def del: of_nat_add)
    ultimately show ?thesis by auto
  next
    case 3
    have i: "cp div 4096 < 16" using 3 by (simp add: less_mult_imp_div_less)
    have u: "unat (word_of_nat (224 + cp div 4096) :: byte) = 224 + cp div 4096" using i by (intro unat_of_small) simp
    have "accepted 3 cp" using assms(1) 3 by (simp add: accepted_def)
    moreover have "(cp div 4096 * 64 + cp div 64 mod 64) * 64 + cp mod 64 = cp"
      using div_mult2_eq [of cp 64 64] by simp
    ultimately have "validate_char e 3" using 3 i cont [of cp] cont [of "cp div 64"] u validate_char_eq [of e 3]
      by (simp add: e_def utf8_encode_def base_mods decode_tail_def del: of_nat_add)
    moreover have "length e = 3" "bytes_in_char (hd e) = 3" using 3 i u
      by (simp_all add: e_def utf8_encode_def bytes_in_char_ranges Let_def del: of_nat_add)
    ultimately show ?thesis by auto
  next
    case 4
    have i: "cp div 262144 < 8" using max by (simp add: less_mult_imp_div_less)
    have u: "unat (word_of_nat (240 + cp div 262144) :: byte) = 240 + cp div 262144" using i by (intro unat_of_small) simp
    have "accepted 4 cp" using assms(1) 4 by (simp add: accepted_def)
    moreover have "((cp div 262144 * 64 + cp div 4096 mod 64) * 64 + cp div 64 mod 64) * 64 + cp mod 64 = cp"
      using div_mult2_eq [of cp 64 64] div_mult2_eq [of cp 4096 64] by simp
    ultimately have "validate_char e 4" using 4 i cont [of cp] cont [of "cp div 64"] cont [of "cp div 4096"] u validate_char_eq [of e 4]
      by (simp add: e_def utf8_encode_def base_mods decode_tail_def del: of_nat_add)
    moreover have "length e = 4" "bytes_in_char (hd e) = 4" using 4 i u
      by (simp_all add: e_def utf8_encode_def bytes_in_char_ranges Let_def del: of_nat_add)
    ultimately show ?thesis by auto
  qed
qed

text \<open>C40: \<^verbatim>\<open>string_is_utf8\<close> accepts a byte string exactly when it is a concatenation of shortest-form UTF-8
  encodings of Unicode scalar values (no overlong forms, no surrogates, nothing above U+10FFFF).\<close>

theorem string_is_utf8_iff:
  "string_is_utf8 s \<longleftrightarrow> (\<exists>cps. list_all scalar_value cps \<and> s = concat (map utf8_encode cps))"
proof (intro iffI)
  show "string_is_utf8 s \<Longrightarrow> \<exists>cps. list_all scalar_value cps \<and> s = concat (map utf8_encode cps)"
  proof (induction s rule: string_is_utf8.induct)
    case (1 s)
    show ?case
    proof (cases "s = []")
      case True
      then show ?thesis by (intro exI [of _ "[]"]) simp
    next
      case False
      let ?n = "bytes_in_char (hd s)"
      have ok: "?n \<noteq> 0" "?n \<le> length s" "validate_char (take ?n s) ?n" "string_is_utf8 (drop ?n s)"
        using "1.prems" False by (auto simp: string_is_utf8.simps [of s] Let_def split: if_splits)
      then obtain cp where "scalar_value cp" "take ?n s = utf8_encode cp"
        using validated_char_encodes [OF False] by blast
      moreover obtain cps where "list_all scalar_value cps" "drop ?n s = concat (map utf8_encode cps)"
        using "1.IH" False ok by fastforce
      ultimately show ?thesis using append_take_drop_id [of ?n s] by (intro exI [of _ "cp # cps"]) simp
    qed
  qed
next
  assume "\<exists>cps. list_all scalar_value cps \<and> s = concat (map utf8_encode cps)"
  then obtain cps where "list_all scalar_value cps" "s = concat (map utf8_encode cps)" by blast
  then show "string_is_utf8 s"
  proof (induction cps arbitrary: s)
    case Nil
    then show ?case by (simp add: string_is_utf8.simps)
  next
    case (Cons cp cps)
    then show ?case using encoded_char_validated [of cp]
      by (simp add: string_is_utf8.simps [of "utf8_encode cp @ _"] Let_def)
  qed
qed

end
