(* ===== verification/Tor_Parse_Int.thy ===== *)
theory Tor_Parse_Int
  imports Tor_String
begin

text \<open>
  \<^verbatim>\<open>lib/string/parse_int.c\<close>: bounds-checked integer parsing on top of the C library's
  \<^verbatim>\<open>strtol\<close> and \<^verbatim>\<open>strtoul\<close> (64-bit \<^verbatim>\<open>long\<close>; \<^verbatim>\<open>base\<close> is 0 or between 2 and 36), and the decimal
  notation that \<^verbatim>\<open>"%d"\<close> prints.
\<close>

subsection \<open>The C library's conversions\<close>

abbreviation (input) LONG_MAX :: int where "LONG_MAX \<equiv> 9223372036854775807"
abbreviation (input) LONG_MIN :: int where "LONG_MIN \<equiv> - 9223372036854775808"
abbreviation (input) ULONG_MAX :: int where "ULONG_MAX \<equiv> 18446744073709551615"

definition digit_value :: "byte \<Rightarrow> nat option" where
  "digit_value c =
    (if 48 \<le> c \<and> c \<le> 57 then Some (unat c - 48)
     else if 97 \<le> c \<and> c \<le> 122 then Some (unat c - 87)
     else if 65 \<le> c \<and> c \<le> 90 then Some (unat c - 55)
     else None)"

definition is_digit_of :: "nat \<Rightarrow> byte \<Rightarrow> bool" where
  "is_digit_of base c \<longleftrightarrow> (case digit_value c of None \<Rightarrow> False | Some v \<Rightarrow> v < base)"

definition digits_value :: "nat \<Rightarrow> bytes \<Rightarrow> nat" where
  "digits_value base ds = foldl (\<lambda>n c. n * base + the (digit_value c)) 0 ds"

text \<open>White space and an optional sign.\<close>

definition strto_sign :: "bytes \<Rightarrow> bool \<times> bytes" where
  "strto_sign s =
    (case dropWhile TOR_ISSPACE s of
       [] \<Rightarrow> (False, [])
     | c # r \<Rightarrow> if c = 45 then (True, r) else if c = 43 then (False, r) else (False, c # r))"

text \<open>The base and the start of the digits; \<^verbatim>\<open>0x\<close> counts only when a hexadecimal digit follows.\<close>

definition strto_base :: "nat \<Rightarrow> bytes \<Rightarrow> nat \<times> bytes" where
  "strto_base base s =
    (let hex = (case s of z # x # d # _ \<Rightarrow> z = 48 \<and> (x = 120 \<or> x = 88) \<and> is_digit_of 16 d | _ \<Rightarrow> False)
     in if (base = 0 \<or> base = 16) \<and> hex then (16, drop 2 s)
        else if base = 0 then (if s \<noteq> [] \<and> hd s = 48 then 8 else 10, s)
        else (base, s))"

text \<open>The sign, the magnitude of the converted digits and \<^verbatim>\<open>endptr\<close>; \<open>None\<close> when nothing was converted.\<close>

definition strto_scan :: "bytes \<Rightarrow> nat \<Rightarrow> (bool \<times> nat \<times> bytes) option" where
  "strto_scan s base =
    (let (neg, r) = strto_sign s; (b, r) = strto_base base r; ds = takeWhile (is_digit_of b) r
     in if ds = [] then None else Some (neg, digits_value b ds, dropWhile (is_digit_of b) r))"

text \<open>Value, \<^verbatim>\<open>errno == ERANGE\<close> and \<^verbatim>\<open>endptr\<close>.\<close>

definition strtol :: "bytes \<Rightarrow> nat \<Rightarrow> int \<times> bool \<times> bytes" where
  "strtol s base =
    (case strto_scan s base of
       None \<Rightarrow> (0, False, s)
     | Some (neg, n, endp) \<Rightarrow>
         let v = (if neg then - int n else int n)
         in if v > LONG_MAX then (LONG_MAX, True, endp)
            else if v < LONG_MIN then (LONG_MIN, True, endp)
            else (v, False, endp))"

definition strtoul :: "bytes \<Rightarrow> nat \<Rightarrow> int \<times> bool \<times> bytes" where
  "strtoul s base =
    (case strto_scan s base of
       None \<Rightarrow> (0, False, s)
     | Some (neg, n, endp) \<Rightarrow>
         if int n > ULONG_MAX then (ULONG_MAX, True, endp)
         else (if neg then (- int n) mod (ULONG_MAX + 1) else int n, False, endp))"

subsection \<open>Tor's wrappers\<close>

text \<open>
  The result is the returned value, \<^verbatim>\<open>*ok\<close>, and what \<^verbatim>\<open>*next\<close> is set to: \<open>None\<close> when the caller
  passed no \<^verbatim>\<open>next\<close> (\<open>want_next = False\<close>) or when it is left untouched.
\<close>

type_synonym parse_result = "int \<times> bool \<times> bytes option"

definition CHECK_STRTOX_RESULT :: "bytes \<Rightarrow> int \<Rightarrow> int \<Rightarrow> bool \<Rightarrow> int \<times> bool \<times> bytes \<Rightarrow> parse_result" where
  "CHECK_STRTOX_RESULT s mn mx want_next res =
    (let (r, erange, endptr) = res; nxt = (if want_next then Some endptr else None)
     in if erange then (0, False, nxt)
        else if endptr = s then (0, False, nxt)
        else if \<not> want_next \<and> endptr \<noteq> [] then (0, False, nxt)
        else if mx < mn then (0, False, nxt)
        else if r < mn \<or> r > mx then (0, False, nxt)
        else (r, True, nxt))"

definition tor_parse_long :: "bytes \<Rightarrow> int \<Rightarrow> int \<Rightarrow> int \<Rightarrow> bool \<Rightarrow> parse_result" where
  "tor_parse_long s base mn mx want_next =
    (if base < 0 then (0, False, None)
     else CHECK_STRTOX_RESULT s mn mx want_next (strtol s (nat base)))"

definition tor_parse_ulong :: "bytes \<Rightarrow> int \<Rightarrow> int \<Rightarrow> int \<Rightarrow> bool \<Rightarrow> parse_result" where
  "tor_parse_ulong s base mn mx want_next =
    (if base < 0 then (0, False, None)
     else CHECK_STRTOX_RESULT s mn mx want_next (strtoul s (nat base)))"

definition tor_parse_uint64 :: "bytes \<Rightarrow> int \<Rightarrow> int \<Rightarrow> int \<Rightarrow> bool \<Rightarrow> parse_result" where
  "tor_parse_uint64 s base mn mx want_next =
    (if base < 0 then (0, False, None)
     else CHECK_STRTOX_RESULT s mn mx want_next (strtoul s (nat base)))"

text \<open>The digits that \<^verbatim>\<open>printf("%d", n)\<close> writes for a number that is not negative.\<close>

fun decimal :: "nat \<Rightarrow> bytes" where
  "decimal n = (if n < 10 then [48 + word_of_nat n] else decimal (n div 10) @ [48 + word_of_nat (n mod 10)])"

declare decimal.simps [simp del]

subsection \<open>Decimal numbers\<close>

lemma decimal_digit:
  assumes "k < 10"
  shows "digit_value (48 + word_of_nat k) = Some k" "is_digit_of 10 (48 + word_of_nat k)"
    "(48 + word_of_nat k :: byte) \<noteq> 0" "unat (48 + word_of_nat k :: byte) = 48 + k"
proof -
  show u: "unat (48 + word_of_nat k :: byte) = 48 + k" using assms
    by (subst unat_add_noflow) (simp_all add: unat_of_small)
  then show "digit_value (48 + word_of_nat k) = Some k" using assms
    by (simp add: digit_value_def word_le_nat_alt)
  then show "is_digit_of 10 (48 + word_of_nat k)" using assms by (simp add: is_digit_of_def)
  show "(48 + word_of_nat k :: byte) \<noteq> 0" using u by (metis add_is_0 unsigned_0 zero_neq_numeral)
qed

lemma decimal_digits: "\<forall>c \<in> set (decimal n). is_digit_of 10 c \<and> c \<noteq> 0"
  by (induction n rule: decimal.induct) (subst decimal.simps, auto simp: decimal_digit)

lemma decimal_nonempty: "decimal n \<noteq> []"
  by (subst decimal.simps) simp

lemma digits_value_decimal: "digits_value 10 (decimal n) = n"
proof (induction n rule: decimal.induct)
  case (1 n)
  show ?case
  proof (cases "n < 10")
    case True
    then show ?thesis by (simp add: decimal.simps [of n] digits_value_def decimal_digit)
  next
    case False
    then show ?thesis using 1 by (simp add: decimal.simps [of n] digits_value_def decimal_digit)
  qed
qed

lemma digit_ranges: "is_digit_of 10 c \<longleftrightarrow> 48 \<le> unat c \<and> unat c \<le> 57"
proof -
  have "unat c < 10 + 87 \<and> 97 \<le> unat c \<Longrightarrow> unat c - 87 \<ge> 10" "65 \<le> unat c \<Longrightarrow> unat c - 55 \<ge> 10" by linarith+
  then show ?thesis by (auto simp: is_digit_of_def digit_value_def word_le_nat_alt split: if_splits)
qed

lemma digit_not_space_sign:
  assumes "is_digit_of 10 c"
  shows "\<not> TOR_ISSPACE c" "c \<noteq> 45" "c \<noteq> 43"
  using assms unfolding digit_ranges by (auto simp: TOR_ISSPACE_iff)

text \<open>Scanning a decimal number that is followed by something that is no digit.\<close>

lemma strto_scan_decimal:
  assumes "rest = [] \<or> \<not> is_digit_of 10 (hd rest)"
  shows "strto_scan (decimal n @ rest) 10 = Some (False, n, rest)"
proof -
  obtain c s where cs: "decimal n = c # s" using decimal_nonempty [of n] by (cases "decimal n") auto
  have digits: "\<forall>c \<in> set (decimal n). is_digit_of 10 c" using decimal_digits by blast
  then have "is_digit_of 10 c" using cs by simp
  then have sign: "strto_sign (decimal n @ rest) = (False, decimal n @ rest)"
    using digit_not_space_sign [of c] cs by (simp add: strto_sign_def)
  have "takeWhile (is_digit_of 10) (decimal n @ rest) = decimal n"
    "dropWhile (is_digit_of 10) (decimal n @ rest) = rest"
    using digits assms by (cases rest; simp)+
  then show ?thesis
    unfolding strto_scan_def sign using digits_value_decimal decimal_nonempty by (simp add: strto_base_def Let_def)
qed

text \<open>A decimal number that \<^verbatim>\<open>"%d"\<close> printed is read back by \<^verbatim>\<open>tor_parse_long\<close>, \<^verbatim>\<open>tor_parse_ulong\<close> and
  \<^verbatim>\<open>tor_parse_uint64\<close>: the value is returned when it lies in the caller's range and the call
  fails with value 0 when it does not; with \<^verbatim>\<open>next\<close>, the rest of the string is handed back.\<close>

theorem tor_parse_decimal:
  assumes "int n \<le> LONG_MAX" and "rest = [] \<or> \<not> is_digit_of 10 (hd rest)" and "want_next \<or> rest = []"
  shows "let nxt = (if want_next then Some rest else None);
             result = (if mn \<le> int n \<and> int n \<le> mx then (int n, True, nxt) else (0, False, nxt))
         in tor_parse_long (decimal n @ rest) 10 mn mx want_next = result \<and>
            tor_parse_ulong (decimal n @ rest) 10 mn mx want_next = result \<and>
            tor_parse_uint64 (decimal n @ rest) 10 mn mx want_next = result"
proof -
  have "strtol (decimal n @ rest) 10 = (int n, False, rest)" "strtoul (decimal n @ rest) 10 = (int n, False, rest)"
    using assms(1) by (simp_all add: strtol_def strtoul_def strto_scan_decimal [OF assms(2)])
  then show ?thesis using assms(3) decimal_nonempty [of n]
    by (auto simp: tor_parse_long_def tor_parse_ulong_def tor_parse_uint64_def CHECK_STRTOX_RESULT_def Let_def)
qed

theorem tor_parse_decimal_witness:
  "tor_parse_long (lit ''42'') 10 0 100 False = (42, True, None)"
proof -
  have "decimal 42 = lit ''42''" by (simp add: decimal.simps lit_def)
  then show ?thesis using tor_parse_decimal [of 42 "[]" False 0 100] by (simp add: Let_def)
qed

end
