(* ===== verification/Tor_Smartlist.thy ===== *)
theory Tor_Smartlist
  imports Tor_Parse_Int
begin

text \<open>
  \<^verbatim>\<open>lib/smartlist_core/smartlist_core.c\<close> and the list operations of
  \<^verbatim>\<open>lib/container/smartlist.c\<close>: the resizable pointer array that every other component
  uses. An entry of the array is an \<open>'a option\<close>, with \<open>None\<close> for \<^verbatim>\<open>NULL\<close>. The C structure is
  related to the sequence of its used entries by \<open>contents\<close>; the refinement lemmas let the
  other theories use HOL lists for smartlists.
\<close>

subsection \<open>Representation\<close>

record 'a smartlist =
  sl_list :: "'a option list"
  num_used :: nat
  capacity :: nat

definition contents :: "'a smartlist \<Rightarrow> 'a option list" where
  "contents sl = take (num_used sl) (sl_list sl)"

text \<open>The invariant of the C code: sizes agree and unused entries are \<^verbatim>\<open>NULL\<close>.\<close>

definition smartlist_ok :: "'a smartlist \<Rightarrow> bool" where
  "smartlist_ok sl \<longleftrightarrow> length (sl_list sl) = capacity sl \<and> num_used sl \<le> capacity sl \<and>
     0 < capacity sl \<and> capacity sl \<le> INT_MAX \<and> list_all (\<lambda>e. e = None) (drop (num_used sl) (sl_list sl))"

subsection \<open>smartlist\_core.c\<close>

definition smartlist_new :: "'a smartlist" where
  "smartlist_new = \<lparr> sl_list = replicate 16 None, num_used = 0, capacity = 16 \<rparr>"

definition smartlist_clear :: "'a smartlist \<Rightarrow> 'a smartlist" where
  "smartlist_clear sl = sl\<lparr> sl_list := replicate (num_used sl) None @ drop (num_used sl) (sl_list sl), num_used := 0 \<rparr>"

text \<open>\<^verbatim>\<open>while (size > higher) higher *= 2\<close>; with \<open>higher = 0\<close> it would not return.\<close>

function double_until :: "nat \<Rightarrow> nat \<Rightarrow> nat option" where
  "double_until sz higher =
    (if sz > higher then if higher = 0 then None else double_until sz (higher * 2) else Some higher)"
  by pat_completeness auto
termination
  by (relation "measure (\<lambda>(sz, higher). sz - higher)") auto

declare double_until.simps [simp del]

definition smartlist_ensure_capacity :: "'a smartlist \<Rightarrow> nat \<Rightarrow> 'a smartlist option" where
  "smartlist_ensure_capacity sl sz = do {
     tor_assert (sz \<le> INT_MAX);
     if sz > capacity sl
     then do {
       higher \<leftarrow> (if sz > INT_MAX div 2 then Some INT_MAX else double_until sz (capacity sl));
       Some (sl\<lparr> sl_list := sl_list sl @ replicate (higher - capacity sl) None, capacity := higher \<rparr>) }
     else Some sl }"

definition smartlist_grow :: "'a smartlist \<Rightarrow> nat \<Rightarrow> 'a smartlist option" where
  "smartlist_grow sl new_size = do {
     sl \<leftarrow> smartlist_ensure_capacity sl new_size;
     if new_size > num_used sl
     then Some (sl\<lparr> sl_list := take (num_used sl) (sl_list sl) @ replicate (new_size - num_used sl) None @
                      drop new_size (sl_list sl), num_used := new_size \<rparr>)
     else Some sl }"

definition smartlist_add :: "'a smartlist \<Rightarrow> 'a option \<Rightarrow> 'a smartlist option" where
  "smartlist_add sl element = do {
     sl \<leftarrow> smartlist_ensure_capacity sl (num_used sl + 1);
     Some (sl\<lparr> sl_list := (sl_list sl)[num_used sl := element], num_used := num_used sl + 1 \<rparr>) }"

definition smartlist_add_all :: "'a smartlist \<Rightarrow> 'a smartlist \<Rightarrow> 'a smartlist option" where
  "smartlist_add_all s1 s2 = do {
     let new_size = num_used s1 + num_used s2;
     tor_assert (new_size \<ge> num_used s1);
     s1 \<leftarrow> smartlist_ensure_capacity s1 new_size;
     let l = take (num_used s1) (sl_list s1) @ take (num_used s2) (sl_list s2) @ drop new_size (sl_list s1);
     tor_assert (new_size \<le> INT_MAX);
     Some (s1\<lparr> sl_list := l, num_used := new_size \<rparr>) }"

definition smartlist_add_strdup :: "bytes smartlist \<Rightarrow> bytes \<Rightarrow> bytes smartlist option" where
  "smartlist_add_strdup sl s = smartlist_add sl (Some s)"

text \<open>
  The loop shared by \<^verbatim>\<open>smartlist_remove\<close>, \<^verbatim>\<open>smartlist_string_remove\<close> and \<^verbatim>\<open>smartlist_intersect\<close>:
  an entry that is to go is overwritten by the last one, and the same index is processed again.
\<close>

function swap_remove_loop :: "('a option \<Rightarrow> bool) \<Rightarrow> 'a option list \<Rightarrow> nat \<Rightarrow> nat \<Rightarrow> 'a option list \<times> nat" where
  "swap_remove_loop bad l n i =
    (if i < n
     then if bad (l ! i)
          then swap_remove_loop bad (l[i := l ! (n - 1), n - 1 := None]) (n - 1) i
          else swap_remove_loop bad l n (i + 1)
     else (l, n))"
  by pat_completeness auto
termination
  by (relation "measure (\<lambda>(bad, l, n, i). n - i)") auto

declare swap_remove_loop.simps [simp del]

definition swap_remove :: "('a option \<Rightarrow> bool) \<Rightarrow> 'a smartlist \<Rightarrow> 'a smartlist" where
  "swap_remove bad sl =
    (let (l, n) = swap_remove_loop bad (sl_list sl) (num_used sl) 0 in sl\<lparr> sl_list := l, num_used := n \<rparr>)"

definition smartlist_remove :: "'a smartlist \<Rightarrow> 'a option \<Rightarrow> 'a smartlist" where
  "smartlist_remove sl element =
    (if element = None then sl else swap_remove (\<lambda>e. e = element) sl)"

text \<open>\<open>k\<close> counts the iterations left (\<^verbatim>\<open>num_used_orig - j\<close>).\<close>

fun remove_keeporder_loop ::
  "'a option \<Rightarrow> 'a option list \<Rightarrow> nat \<Rightarrow> nat \<Rightarrow> nat \<Rightarrow> nat \<Rightarrow> 'a option list \<times> nat" where
  "remove_keeporder_loop element l n i j 0 = (l, n)"
| "remove_keeporder_loop element l n i j (Suc k) =
    (if l ! j = element then remove_keeporder_loop element l (n - 1) i (j + 1) k
     else remove_keeporder_loop element (l[i := l ! j]) n (i + 1) (j + 1) k)"

definition smartlist_remove_keeporder :: "'a smartlist \<Rightarrow> 'a option \<Rightarrow> 'a smartlist" where
  "smartlist_remove_keeporder sl element =
    (if element = None then sl
     else let orig = num_used sl; (l, n) = remove_keeporder_loop element (sl_list sl) orig 0 0 orig
          in sl\<lparr> sl_list := take n l @ replicate (orig - n) None @ drop orig l, num_used := n \<rparr>)"

definition smartlist_pop_last :: "'a smartlist \<Rightarrow> 'a option \<times> 'a smartlist" where
  "smartlist_pop_last sl =
    (if num_used sl \<noteq> 0
     then let n = num_used sl - 1
          in (sl_list sl ! n, sl\<lparr> sl_list := (sl_list sl)[n := None], num_used := n \<rparr>)
     else (None, sl))"

fun contains_from :: "('a option \<Rightarrow> bool) \<Rightarrow> 'a option list \<Rightarrow> nat \<Rightarrow> bool" where
  "contains_from p l 0 = False"
| "contains_from p l (Suc n) = (case l of [] \<Rightarrow> False | e # l \<Rightarrow> if p e then True else contains_from p l n)"

definition smartlist_contains :: "'a smartlist \<Rightarrow> 'a option \<Rightarrow> bool" where
  "smartlist_contains sl element = contains_from (\<lambda>e. e = element) (sl_list sl) (num_used sl)"

definition smartlist_del :: "'a smartlist \<Rightarrow> int \<Rightarrow> 'a smartlist option" where
  "smartlist_del sl idx = do {
     tor_assert (idx \<ge> 0);
     tor_assert (idx < int (num_used sl));
     let n = num_used sl - 1;
     Some (sl\<lparr> sl_list := (sl_list sl)[nat idx := sl_list sl ! n, n := None], num_used := n \<rparr>) }"

definition smartlist_del_keeporder :: "'a smartlist \<Rightarrow> int \<Rightarrow> 'a smartlist option" where
  "smartlist_del_keeporder sl idx = do {
     tor_assert (idx \<ge> 0);
     tor_assert (idx < int (num_used sl));
     let n = num_used sl - 1;
     let i = nat idx;
     let l = (if i < n then take i (sl_list sl) @ take (n - i) (drop (i + 1) (sl_list sl)) @ drop n (sl_list sl)
              else sl_list sl);
     Some (sl\<lparr> sl_list := l[n := None], num_used := n \<rparr>) }"

definition smartlist_insert :: "'a smartlist \<Rightarrow> int \<Rightarrow> 'a option \<Rightarrow> 'a smartlist option" where
  "smartlist_insert sl idx val = do {
     tor_assert (idx \<ge> 0);
     tor_assert (idx \<le> int (num_used sl));
     if idx = int (num_used sl) then smartlist_add sl val
     else do {
       sl \<leftarrow> smartlist_ensure_capacity sl (num_used sl + 1);
       let i = nat idx;
       let l = (if i < num_used sl
                then take (i + 1) (sl_list sl) @ take (num_used sl - i) (drop i (sl_list sl)) @
                     drop (num_used sl + 1) (sl_list sl)
                else sl_list sl);
       Some (sl\<lparr> sl_list := l[i := val], num_used := num_used sl + 1 \<rparr>) } }"

subsection \<open>smartlist.c: order and membership\<close>

text \<open>\<open>j\<close> starts at \<^verbatim>\<open>num_used - 1\<close>, which is -1 for the empty list: an \<open>int\<close> as in C.\<close>

function reverse_loop :: "'a option list \<Rightarrow> int \<Rightarrow> int \<Rightarrow> 'a option list" where
  "reverse_loop l i j =
    (if i < j then reverse_loop (l[nat i := l ! nat j, nat j := l ! nat i]) (i + 1) (j - 1) else l)"
  by pat_completeness auto
termination
  by (relation "measure (\<lambda>(l, i, j). nat (j - i))") auto

declare reverse_loop.simps [simp del]

definition smartlist_reverse :: "'a smartlist \<Rightarrow> 'a smartlist" where
  "smartlist_reverse sl = sl\<lparr> sl_list := reverse_loop (sl_list sl) 0 (int (num_used sl) - 1) \<rparr>"

text \<open>A string list holds no \<^verbatim>\<open>NULL\<close>; \<open>the\<close> is the dereference.\<close>

definition smartlist_string_remove :: "bytes smartlist \<Rightarrow> bytes \<Rightarrow> bytes smartlist" where
  "smartlist_string_remove sl element = swap_remove (\<lambda>e. strcmp element (the e) = 0) sl"

definition smartlist_contains_string :: "bytes smartlist option \<Rightarrow> bytes \<Rightarrow> bool" where
  "smartlist_contains_string sl element =
    (case sl of None \<Rightarrow> False
     | Some sl \<Rightarrow> contains_from (\<lambda>e. strcmp (the e) element = 0) (sl_list sl) (num_used sl))"

fun pos_from :: "('a option \<Rightarrow> bool) \<Rightarrow> 'a option list \<Rightarrow> nat \<Rightarrow> nat \<Rightarrow> int" where
  "pos_from p l i 0 = -1"
| "pos_from p l i (Suc n) = (if p (l ! i) then int i else pos_from p l (i + 1) n)"

definition smartlist_string_pos :: "bytes smartlist option \<Rightarrow> bytes \<Rightarrow> int" where
  "smartlist_string_pos sl element =
    (case sl of None \<Rightarrow> -1
     | Some sl \<Rightarrow> pos_from (\<lambda>e. strcmp (the e) element = 0) (sl_list sl) 0 (num_used sl))"

definition smartlist_pos :: "'a smartlist option \<Rightarrow> 'a option \<Rightarrow> int" where
  "smartlist_pos sl element =
    (case sl of None \<Rightarrow> -1 | Some sl \<Rightarrow> pos_from (\<lambda>e. e = element) (sl_list sl) 0 (num_used sl))"

definition smartlist_contains_string_case :: "bytes smartlist option \<Rightarrow> bytes \<Rightarrow> bool" where
  "smartlist_contains_string_case sl element =
    (case sl of None \<Rightarrow> False
     | Some sl \<Rightarrow> contains_from (\<lambda>e. strcasecmp (the e) element = 0) (sl_list sl) (num_used sl))"

definition decimal_int :: "int \<Rightarrow> bytes" where
  "decimal_int n = (if n < 0 then 45 # decimal (nat (- n)) else decimal (nat n))"

definition smartlist_contains_int_as_string :: "bytes smartlist option \<Rightarrow> int \<Rightarrow> bool" where
  "smartlist_contains_int_as_string sl num = smartlist_contains_string sl (decimal_int num)"

fun foreach_eq :: "('a option \<Rightarrow> 'a option \<Rightarrow> bool) \<Rightarrow> 'a option list \<Rightarrow> 'a option list \<Rightarrow> bool" where
  "foreach_eq eq (a # l1) (b # l2) = (if \<not> eq a b then False else foreach_eq eq l1 l2)"
| "foreach_eq eq _ _ = True"

definition smartlist_eq_by ::
  "('a option \<Rightarrow> 'a option \<Rightarrow> bool) \<Rightarrow> 'a smartlist option \<Rightarrow> 'a smartlist option \<Rightarrow> bool" where
  "smartlist_eq_by eq sl1 sl2 =
    (case sl1 of
       None \<Rightarrow> sl2 = None
     | Some s1 \<Rightarrow> (case sl2 of
         None \<Rightarrow> False
       | Some s2 \<Rightarrow> if num_used s1 \<noteq> num_used s2 then False else foreach_eq eq (contents s1) (contents s2)))"

definition smartlist_strings_eq :: "bytes smartlist option \<Rightarrow> bytes smartlist option \<Rightarrow> bool" where
  "smartlist_strings_eq = smartlist_eq_by (\<lambda>a b. strcmp (the a) (the b) = 0)"

definition smartlist_ints_eq :: "int smartlist option \<Rightarrow> int smartlist option \<Rightarrow> bool" where
  "smartlist_ints_eq = smartlist_eq_by (\<lambda>a b. the a = the b)"

text \<open>Two distinct lists; the test \<^verbatim>\<open>s1 == s2\<close> of the same structure only saves the work.\<close>

definition smartlist_ptrs_eq :: "'a smartlist option \<Rightarrow> 'a smartlist option \<Rightarrow> bool" where
  "smartlist_ptrs_eq = smartlist_eq_by (\<lambda>a b. a = b)"

definition smartlist_contains_digest :: "bytes smartlist option \<Rightarrow> bytes \<Rightarrow> bool" where
  "smartlist_contains_digest sl element =
    (case sl of None \<Rightarrow> False
     | Some sl \<Rightarrow> contains_from (\<lambda>e. tor_memeq (the e) element DIGEST_LEN \<noteq> 0) (sl_list sl) (num_used sl))"

definition smartlist_overlap :: "'a smartlist \<Rightarrow> 'a smartlist \<Rightarrow> bool" where
  "smartlist_overlap sl1 sl2 = contains_from (\<lambda>e. smartlist_contains sl1 e) (sl_list sl2) (num_used sl2)"

definition smartlist_intersect :: "'a smartlist \<Rightarrow> 'a smartlist \<Rightarrow> 'a smartlist" where
  "smartlist_intersect sl1 sl2 = swap_remove (\<lambda>e. \<not> smartlist_contains sl2 e) sl1"

definition smartlist_subtract :: "'a smartlist \<Rightarrow> 'a smartlist \<Rightarrow> 'a smartlist" where
  "smartlist_subtract sl1 sl2 = foldl smartlist_remove sl1 (contents sl2)"

subsection \<open>The representation refines lists\<close>

lemma double_until_bound:
  assumes "0 < higher"
  shows "\<exists>h. double_until sz higher = Some h \<and> higher \<le> h \<and> sz \<le> h \<and> (higher < sz \<longrightarrow> h < 2 * sz)"
  using assms
proof (induction sz higher rule: double_until.induct)
  case (1 sz higher)
  note unfold = double_until.simps [of sz higher]
  show ?case
  proof (cases "higher < sz")
    case True
    then obtain h where "double_until sz (higher * 2) = Some h" "higher * 2 \<le> h" "sz \<le> h"
      "higher * 2 < sz \<longrightarrow> h < 2 * sz" using 1 by auto
    moreover have "h < 2 * sz" if "sz \<le> higher * 2" using that calculation(1) True
      by (simp add: double_until.simps [of sz "higher * 2"])
    ultimately show ?thesis using True "1.prems" unfold by (cases "higher * 2 < sz") auto
  qed (simp add: unfold)
qed

lemma unused_drop:
  "list_all (\<lambda>e. e = None) (drop n l) \<Longrightarrow> n \<le> m \<Longrightarrow> list_all (\<lambda>e. e = None) (drop m l)"
  by (metis drop_drop in_set_dropD le_add_diff_inverse2 list_all_iff)

lemma smartlist_ensure_capacity_ok:
  assumes "smartlist_ok sl" and "sz \<le> INT_MAX"
  shows "\<exists>sl'. smartlist_ensure_capacity sl sz = Some sl' \<and> smartlist_ok sl' \<and> num_used sl' = num_used sl \<and>
     contents sl' = contents sl \<and> sz \<le> capacity sl'"
proof (cases "sz > capacity sl")
  case False
  then show ?thesis using assms by (simp add: smartlist_ensure_capacity_def)
next
  case True
  have "\<exists>h. (if sz > INT_MAX div 2 then Some INT_MAX else double_until sz (capacity sl)) = Some h \<and>
      sz \<le> h \<and> capacity sl \<le> h \<and> h \<le> INT_MAX"
    using double_until_bound [of "capacity sl" sz] assms True by (auto simp: smartlist_ok_def)
  then show ?thesis using True assms
    by (auto simp: smartlist_ensure_capacity_def smartlist_ok_def contents_def list_all_iff split: if_splits)
qed

lemma smartlist_new_ok: "smartlist_ok smartlist_new" "contents smartlist_new = []"
  by (simp_all add: smartlist_ok_def smartlist_new_def contents_def list_all_iff)

lemma smartlist_clear_ok:
  "smartlist_ok sl \<Longrightarrow> smartlist_ok (smartlist_clear sl) \<and> contents (smartlist_clear sl) = []"
  by (auto simp: smartlist_ok_def smartlist_clear_def contents_def list_all_iff)

lemma length_contents: "smartlist_ok sl \<Longrightarrow> length (contents sl) = num_used sl"
  by (auto simp: smartlist_ok_def contents_def)

text \<open>What a used-prefix rewrite has to show.\<close>

lemma smartlist_ok_contentsI:
  assumes "smartlist_ok sl" and "length l = capacity sl" and "n \<le> capacity sl" and "take n l = xs"
    and "list_all (\<lambda>e. e = None) (drop n l)"
  shows "smartlist_ok (sl\<lparr> sl_list := l, num_used := n \<rparr>) \<and> contents (sl\<lparr> sl_list := l, num_used := n \<rparr>) = xs"
  using assms by (simp add: smartlist_ok_def contents_def)

lemma smartlist_add_ok:
  assumes "smartlist_ok sl" and "num_used sl < INT_MAX"
  shows "\<exists>sl'. smartlist_add sl e = Some sl' \<and> smartlist_ok sl' \<and> contents sl' = contents sl @ [e]"
proof -
  obtain s where s: "smartlist_ensure_capacity sl (num_used sl + 1) = Some s" "smartlist_ok s"
    "num_used s = num_used sl" "contents s = contents sl" "num_used sl + 1 \<le> capacity s"
    using smartlist_ensure_capacity_ok [OF assms(1), of "num_used sl + 1"] assms(2) by auto
  let ?n = "num_used s"
  have n: "?n < length (sl_list s)" using s by (simp add: smartlist_ok_def)
  have "smartlist_ok (s\<lparr> sl_list := (sl_list s)[?n := e], num_used := ?n + 1 \<rparr>) \<and>
      contents (s\<lparr> sl_list := (sl_list s)[?n := e], num_used := ?n + 1 \<rparr>) = contents sl @ [e]"
  proof (rule smartlist_ok_contentsI [OF s(2)])
    show "take (?n + 1) ((sl_list s)[?n := e]) = contents sl @ [e]"
      using n s(4) by (simp add: take_Suc_conv_app_nth contents_def)
    show "list_all (\<lambda>e. e = None) (drop (?n + 1) ((sl_list s)[?n := e]))"
      using s(2) unused_drop [of ?n "sl_list s" "?n + 1"] by (simp add: smartlist_ok_def)
  qed (use s n in \<open>simp_all add: smartlist_ok_def\<close>)
  then show ?thesis using s(1) by (simp add: smartlist_add_def)
qed

lemma smartlist_grow_ok:
  assumes "smartlist_ok sl" and "n \<le> INT_MAX"
  shows "\<exists>sl'. smartlist_grow sl n = Some sl' \<and> smartlist_ok sl' \<and>
    contents sl' = contents sl @ replicate (n - num_used sl) None"
proof -
  obtain s where s: "smartlist_ensure_capacity sl n = Some s" "smartlist_ok s"
    "num_used s = num_used sl" "contents s = contents sl" "n \<le> capacity s"
    using smartlist_ensure_capacity_ok [OF assms] by auto
  show ?thesis
  proof (cases "n > num_used sl")
    case True
    let ?k = "num_used s"
    let ?l = "take ?k (sl_list s) @ replicate (n - ?k) None @ drop n (sl_list s)"
    have k: "length (take ?k (sl_list s)) = ?k" using s(2) by (simp add: smartlist_ok_def)
    have "smartlist_ok (s\<lparr> sl_list := ?l, num_used := n \<rparr>) \<and>
        contents (s\<lparr> sl_list := ?l, num_used := n \<rparr>) = contents s @ replicate (n - ?k) None"
    proof (rule smartlist_ok_contentsI [OF s(2)])
      show "take n ?l = contents s @ replicate (n - ?k) None"
        using k True s(3) by (simp add: contents_def)
      have "drop n ?l = drop n (sl_list s)" using k True s(3) by simp
      then show "list_all (\<lambda>e. e = None) (drop n ?l)"
        using s(2,3) True unused_drop [of ?k "sl_list s" n] by (simp add: smartlist_ok_def)
      show "length ?l = capacity s" using k s(2,3,5) True by (simp add: smartlist_ok_def)
    qed (use s(5) in simp)
    then show ?thesis using s True by (simp add: smartlist_grow_def)
  next
    case False
    then show ?thesis using s by (simp add: smartlist_grow_def)
  qed
qed

lemma smartlist_add_all_ok:
  assumes "smartlist_ok s1" and "smartlist_ok s2" and "num_used s1 + num_used s2 \<le> INT_MAX"
  shows "\<exists>sl. smartlist_add_all s1 s2 = Some sl \<and> smartlist_ok sl \<and> contents sl = contents s1 @ contents s2"
proof -
  let ?n = "num_used s1 + num_used s2"
  obtain s where s: "smartlist_ensure_capacity s1 ?n = Some s" "smartlist_ok s"
    "num_used s = num_used s1" "contents s = contents s1" "?n \<le> capacity s"
    using smartlist_ensure_capacity_ok [OF assms(1,3)] by auto
  let ?l = "take (num_used s) (sl_list s) @ take (num_used s2) (sl_list s2) @ drop ?n (sl_list s)"
  have len: "length (take (num_used s2) (sl_list s2)) = num_used s2" using assms(2) by (simp add: smartlist_ok_def)
  have "smartlist_ok (s\<lparr> sl_list := ?l, num_used := ?n \<rparr>) \<and>
      contents (s\<lparr> sl_list := ?l, num_used := ?n \<rparr>) = contents s1 @ contents s2"
  proof (rule smartlist_ok_contentsI [OF s(2)])
    have k: "length (take (num_used s) (sl_list s)) = num_used s1" using s(2,3) by (simp add: smartlist_ok_def)
    show "take ?n ?l = contents s1 @ contents s2" using s(4) k len by (simp add: contents_def)
    have "drop ?n ?l = drop ?n (sl_list s)" using k len by simp
    then show "list_all (\<lambda>e. e = None) (drop ?n ?l)"
      using s(2,3) unused_drop [of "num_used s" "sl_list s" ?n] by (simp add: smartlist_ok_def)
    show "length ?l = capacity s" using k len s(2,5) by (simp add: smartlist_ok_def)
  qed (use s(5) in simp)
  then show ?thesis using s(1) assms(3) by (simp add: smartlist_add_all_def Let_def)
qed

text \<open>Removal by swapping with the last entry.\<close>

lemma swap_step:
  assumes "i < n" and "n \<le> length l"
  shows "mset (drop i (take (n - 1) (l[i := l ! (n - 1), n - 1 := None]))) + {# l ! i #} = mset (drop i (take n l))"
    and "take i (l[i := l ! (n - 1), n - 1 := None]) = take i l"
proof -
  have t: "take n l = take (n - 1) l @ [l ! (n - 1)]"
    using assms by (metis Suc_diff_1 gr_implies_not0 less_le_trans not_gr_zero take_Suc_conv_app_nth lessI)
  show "take i (l[i := l ! (n - 1), n - 1 := None]) = take i l" using assms by simp
  show "mset (drop i (take (n - 1) (l[i := l ! (n - 1), n - 1 := None]))) + {# l ! i #} = mset (drop i (take n l))"
  proof (cases "i = n - 1")
    case True
    then show ?thesis using t assms by simp
  next
    case False
    then have i: "i < n - 1" using assms by simp
    have "take (n - 1) (l[i := l ! (n - 1), n - 1 := None]) = (take (n - 1) l)[i := l ! (n - 1)]"
      by (simp add: take_update_swap list_update_beyond)
    moreover have "drop i ((take (n - 1) l)[i := l ! (n - 1)]) = l ! (n - 1) # drop (Suc i) (take (n - 1) l)"
      using i assms by (simp add: drop_update_swap Cons_nth_drop_Suc [symmetric])
    moreover have "drop i (take n l) = l ! i # drop (Suc i) (take (n - 1) l) @ [l ! (n - 1)]"
      unfolding t using i assms by (simp add: Cons_nth_drop_Suc [symmetric])
    ultimately show ?thesis by simp
  qed
qed

lemma swap_remove_loop_spec:
  fixes bad :: "'a option \<Rightarrow> bool"
  assumes "i \<le> n" and "n \<le> length l" and "list_all (\<lambda>e. e = None) (drop n l)"
  defines "r \<equiv> swap_remove_loop bad l n i"
  shows "length (fst r) = length l \<and> snd r \<le> n \<and>
    mset (take (snd r) (fst r)) = mset (take i l) + filter_mset (\<lambda>e. \<not> bad e) (mset (drop i (take n l))) \<and>
    list_all (\<lambda>e. e = None) (drop (snd r) (fst r))"
  using assms(1-3) unfolding r_def
proof (induction bad l n i rule: swap_remove_loop.induct)
  case (1 bad l n i)
  note unfold = swap_remove_loop.simps [of bad l n i]
  show ?case
  proof (cases "i < n")
    case False
    then show ?thesis using "1.prems" unfold by simp
  next
    case lt: True
    show ?thesis
    proof (cases "bad (l ! i)")
      case True
      let ?l = "l[i := l ! (n - 1), n - 1 := None]"
      have "drop (n - 1) ?l = None # drop n l"
        using lt "1.prems" by (simp add: drop_update_swap Cons_nth_drop_Suc [symmetric])
      then have "list_all (\<lambda>e. e = None) (drop (n - 1) ?l)" using "1.prems"(3) by simp
      moreover have "filter_mset (\<lambda>e. \<not> bad e) (mset (drop i (take n l))) =
          filter_mset (\<lambda>e. \<not> bad e) (mset (drop i (take (n - 1) ?l)))"
        using swap_step(1) [OF lt "1.prems"(2)] True by (metis filter_empty_mset filter_mset_add_mset filter_union_mset add.right_neutral)
      moreover have "i \<le> n - 1" "n - 1 \<le> length ?l" "n - 1 \<le> n" using lt "1.prems" by simp_all
      ultimately show ?thesis
        using "1.IH"(1) [OF lt True] lt True swap_step(2) [OF lt "1.prems"(2)] unfold by (auto intro: le_trans)
    next
      case False
      have "drop i (take n l) = l ! i # drop (i + 1) (take n l)"
        using lt "1.prems" by (simp add: Cons_nth_drop_Suc [symmetric])
      moreover have "take (i + 1) l = take i l @ [l ! i]"
        using lt "1.prems" by (simp add: take_Suc_conv_app_nth)
      ultimately show ?thesis using "1.IH"(2) [OF lt False] "1.prems" lt False unfold by simp
    qed
  qed
qed

lemma swap_remove_ok:
  assumes "smartlist_ok sl"
  shows "smartlist_ok (swap_remove bad sl) \<and>
    mset (contents (swap_remove bad sl)) = filter_mset (\<lambda>e. \<not> bad e) (mset (contents sl))"
proof -
  obtain l n where ln: "swap_remove_loop bad (sl_list sl) (num_used sl) 0 = (l, n)" by fastforce
  have "length l = capacity sl" "n \<le> num_used sl" "list_all (\<lambda>e. e = None) (drop n l)"
    "mset (take n l) = filter_mset (\<lambda>e. \<not> bad e) (mset (contents sl))"
    using swap_remove_loop_spec [of 0 "num_used sl" "sl_list sl" bad] assms ln
    by (simp_all add: smartlist_ok_def contents_def)
  then show ?thesis using assms ln by (auto simp: swap_remove_def smartlist_ok_def contents_def)
qed

text \<open>Removal that keeps the order.\<close>

lemma remove_keeporder_loop_spec:
  fixes e :: "'a option"
  assumes "i \<le> j" and "j + k \<le> length l" and "n = i + k + d"
  defines "r \<equiv> remove_keeporder_loop e l n i j k"
  defines "kept \<equiv> take i l @ filter (\<lambda>x. x \<noteq> e) (take k (drop j l))"
  shows "length (fst r) = length l \<and> snd r = length kept + d \<and> take (length kept) (fst r) = kept \<and>
    drop (j + k) (fst r) = drop (j + k) l"
  using assms(1-3) unfolding r_def kept_def
proof (induction e l n i j k rule: remove_keeporder_loop.induct)
  case (2 e l n i j k)
  have jl: "j < length l" using "2.prems" by simp
  have tk: "take (Suc k) (drop j l) = l ! j # take k (drop (j + 1) l)"
    using jl by (simp add: Cons_nth_drop_Suc [symmetric])
  show ?case
  proof (cases "l ! j = e")
    case True
    then show ?thesis using "2.IH"(1) [OF True] "2.prems" tk by simp
  next
    case False
    let ?l = "l[i := l ! j]"
    have "take (i + 1) ?l = take i l @ [l ! j]" using "2.prems" jl by (simp add: take_Suc_conv_app_nth)
    moreover have "drop (j + 1) ?l = drop (j + 1) l" "drop (j + 1 + k) ?l = drop (j + 1 + k) l"
      using "2.prems" by simp_all
    ultimately show ?thesis using "2.IH"(2) [OF False] "2.prems" tk False by simp
  qed
qed simp

lemma smartlist_remove_keeporder_ok:
  assumes "smartlist_ok sl" and "e \<noteq> None"
  shows "smartlist_ok (smartlist_remove_keeporder sl e) \<and>
    contents (smartlist_remove_keeporder sl e) = filter (\<lambda>x. x \<noteq> e) (contents sl)"
proof -
  let ?n = "num_used sl" and ?kept = "filter (\<lambda>x. x \<noteq> e) (contents sl)"
  obtain l n where ln: "remove_keeporder_loop e (sl_list sl) ?n 0 0 ?n = (l, n)" by fastforce
  have r: "length l = capacity sl" "n = length ?kept" "take n l = ?kept" "drop ?n l = drop ?n (sl_list sl)"
    using remove_keeporder_loop_spec [of 0 0 ?n "sl_list sl" ?n 0 e] assms(1) ln
    by (simp_all add: smartlist_ok_def contents_def)
  have le: "n \<le> ?n" using r(2) length_filter_le [of _ "contents sl"] length_contents [OF assms(1)] by simp
  let ?l = "take n l @ replicate (?n - n) None @ drop ?n l"
  have lt: "length (take n l) = n" using r(2,3) by simp
  have "smartlist_ok (sl\<lparr> sl_list := ?l, num_used := n \<rparr>) \<and> contents (sl\<lparr> sl_list := ?l, num_used := n \<rparr>) = ?kept"
  proof (rule smartlist_ok_contentsI [OF assms(1)])
    show "take n ?l = ?kept" using lt r(3) by simp
    show "list_all (\<lambda>e. e = None) (drop n ?l)" using lt r(4) assms(1) by (auto simp: smartlist_ok_def list_all_iff)
    show "length ?l = capacity sl" "n \<le> capacity sl" using lt r(1) le assms(1) by (simp_all add: smartlist_ok_def)
  qed
  then show ?thesis using assms(2) ln by (auto simp: smartlist_remove_keeporder_def Let_def)
qed

text \<open>Single entries.\<close>

lemma take_butlast_update:
  "n < length l \<Longrightarrow> i < n \<Longrightarrow> take n (l[i := x, n := None]) = (take n l)[i := x]"
  by (simp add: take_update_swap list_update_beyond)

lemma drop_update_None:
  "n < length l \<Longrightarrow> list_all (\<lambda>e. e = None) (drop (Suc n) l) \<Longrightarrow> list_all (\<lambda>e. e = None) (drop n (l[n := None]))"
  by (simp add: drop_update_swap Cons_nth_drop_Suc [symmetric])

lemma smartlist_pop_last_ok:
  assumes "smartlist_ok sl" and "contents sl = xs @ [x]"
  shows "\<exists>sl'. smartlist_pop_last sl = (x, sl') \<and> smartlist_ok sl' \<and> contents sl' = xs"
proof -
  let ?n = "num_used sl - 1"
  have n: "num_used sl = length xs + 1" "num_used sl \<le> length (sl_list sl)"
    using length_contents [OF assms(1)] assms by (simp_all add: smartlist_ok_def)
  then have x: "sl_list sl ! ?n = x" "take ?n (sl_list sl) = xs"
    using assms(2) unfolding contents_def
    by (metis add_diff_cancel_right' lessI less_add_one nth_append_length nth_take,
        metis append_eq_conv_conj diff_le_self min.absorb1 n(1) add_diff_cancel_right' take_take)
  have "smartlist_ok (sl\<lparr> sl_list := (sl_list sl)[?n := None], num_used := ?n \<rparr>) \<and>
      contents (sl\<lparr> sl_list := (sl_list sl)[?n := None], num_used := ?n \<rparr>) = xs"
  proof (rule smartlist_ok_contentsI [OF assms(1)])
    show "list_all (\<lambda>e. e = None) (drop ?n ((sl_list sl)[?n := None]))"
      using n assms(1) by (intro drop_update_None) (simp_all add: smartlist_ok_def)
  qed (use x n assms(1) in \<open>simp_all add: smartlist_ok_def\<close>)
  then show ?thesis using x n by (simp add: smartlist_pop_last_def Let_def)
qed

lemma smartlist_del_ok:
  assumes "smartlist_ok sl" and "i < num_used sl"
  shows "\<exists>sl'. smartlist_del sl (int i) = Some sl' \<and> smartlist_ok sl' \<and>
    contents sl' = butlast ((contents sl)[i := last (contents sl)])"
proof -
  let ?l = "sl_list sl" and ?n = "num_used sl - 1"
  have n: "?n < length ?l" "i \<le> ?n" "Suc ?n = num_used sl" using assms by (auto simp: smartlist_ok_def)
  have c: "contents sl = take ?n ?l @ [?l ! ?n]" using n(1,3) by (metis contents_def take_Suc_conv_app_nth)
  let ?r = "sl\<lparr> sl_list := ?l[i := ?l ! ?n, ?n := None], num_used := ?n \<rparr>"
  have "smartlist_ok ?r \<and> contents ?r = butlast ((contents sl)[i := last (contents sl)])"
  proof (rule smartlist_ok_contentsI [OF assms(1)])
    show "take ?n (?l[i := ?l ! ?n, ?n := None]) = butlast ((contents sl)[i := last (contents sl)])"
    proof (cases "i = ?n")
      case True
      then show ?thesis using n(1) unfolding c by (simp add: list_update_append)
    next
      case False
      then show ?thesis using n(1,2) unfolding c by (simp add: take_update_swap list_update_append list_update_beyond)
    qed
    show "list_all (\<lambda>e. e = None) (drop ?n (?l[i := ?l ! ?n, ?n := None]))"
      using n assms(1) by (intro drop_update_None) (simp_all add: smartlist_ok_def)
  qed (use n assms(1) in \<open>simp_all add: smartlist_ok_def\<close>)
  then show ?thesis using assms(2) by (simp add: smartlist_del_def Let_def)
qed

lemma smartlist_del_keeporder_ok:
  assumes "smartlist_ok sl" and "i < num_used sl"
  shows "\<exists>sl'. smartlist_del_keeporder sl (int i) = Some sl' \<and> smartlist_ok sl' \<and>
    contents sl' = take i (contents sl) @ drop (Suc i) (contents sl)"
proof -
  let ?l = "sl_list sl" and ?n = "num_used sl - 1"
  have n: "?n < length ?l" "i \<le> ?n" "Suc ?n = num_used sl" using assms by (auto simp: smartlist_ok_def)
  define m where "m = (if i < ?n then take i ?l @ take (?n - i) (drop (i + 1) ?l) @ drop ?n ?l else ?l)"
  have m: "length m = length ?l" "take ?n m = take i (contents sl) @ drop (Suc i) (contents sl)" "drop (Suc ?n) m = drop (Suc ?n) ?l"
    using n by (auto simp: m_def contents_def drop_take min_def not_less)
  let ?r = "sl\<lparr> sl_list := m[?n := None], num_used := ?n \<rparr>"
  have "smartlist_ok ?r \<and> contents ?r = take i (contents sl) @ drop (Suc i) (contents sl)"
  proof (rule smartlist_ok_contentsI [OF assms(1)])
    show "list_all (\<lambda>e. e = None) (drop ?n (m[?n := None]))"
      using n m assms(1) by (intro drop_update_None) (simp_all add: smartlist_ok_def)
  qed (use n m assms(1) in \<open>simp_all add: smartlist_ok_def\<close>)
  moreover have "smartlist_del_keeporder sl (int i) = Some ?r"
    unfolding smartlist_del_keeporder_def m_def using assms(2) by (simp add: Let_def)
  ultimately show ?thesis by blast
qed

lemma smartlist_insert_ok:
  assumes "smartlist_ok sl" and "i \<le> num_used sl" and "num_used sl < INT_MAX"
  shows "\<exists>sl'. smartlist_insert sl (int i) v = Some sl' \<and> smartlist_ok sl' \<and>
    contents sl' = take i (contents sl) @ v # drop i (contents sl)"
proof (cases "i = num_used sl")
  case True
  then show ?thesis using smartlist_add_ok [OF assms(1,3)] length_contents [OF assms(1)]
    by (auto simp: smartlist_insert_def)
next
  case False
  obtain s where s: "smartlist_ensure_capacity sl (num_used sl + 1) = Some s" "smartlist_ok s"
    "num_used s = num_used sl" "contents s = contents sl" "num_used sl + 1 \<le> capacity s"
    using smartlist_ensure_capacity_ok [OF assms(1), of "num_used sl + 1"] assms(3) by auto
  let ?l = "sl_list s" and ?n = "num_used s"
  define m where "m = take (i + 1) ?l @ take (?n - i) (drop i ?l) @ drop (?n + 1) ?l"
  have n: "i < ?n" "?n < length ?l" using False assms(2) s by (auto simp: smartlist_ok_def)
  have len: "length (take i ?l) = i" "length (take (?n - i) (drop i ?l)) = ?n - i" using n by simp_all
  have "m[i := v] = take i ?l @ v # take (?n - i) (drop i ?l) @ drop (?n + 1) ?l"
    using n by (simp add: m_def take_Suc_conv_app_nth list_update_append)
  then have m: "length (m[i := v]) = length ?l" "drop (?n + 1) (m[i := v]) = drop (?n + 1) ?l"
    "take (?n + 1) (m[i := v]) = take i (contents s) @ v # drop i (contents s)"
    using n len Suc_diff_le [of i ?n] by (simp_all add: contents_def drop_take)
  let ?r = "s\<lparr> sl_list := m[i := v], num_used := ?n + 1 \<rparr>"
  have "smartlist_ok ?r \<and> contents ?r = take i (contents s) @ v # drop i (contents s)"
  proof (rule smartlist_ok_contentsI [OF s(2)])
    show "list_all (\<lambda>e. e = None) (drop (?n + 1) (m[i := v]))"
      using m(2) s(2) unused_drop [of ?n ?l "?n + 1"] by (simp add: smartlist_ok_def)
  qed (use n m s(2,5) in \<open>simp_all add: smartlist_ok_def\<close>)
  then show ?thesis using False s assms(2) n by (simp add: smartlist_insert_def Let_def m_def)
qed

lemma reverse_loop_nth:
  assumes "0 \<le> i" and "j < int (length l)"
  shows "length (reverse_loop l i j) = length l \<and>
    (\<forall>k < length l. reverse_loop l i j ! k = (if i \<le> int k \<and> int k \<le> j then l ! nat (i + j - int k) else l ! k))"
  using assms
proof (induction l i j rule: reverse_loop.induct)
  case (1 l i j)
  note unfold = reverse_loop.simps [of l i j]
  show ?case
  proof (cases "i < j")
    case False
    then have "nat (i + j - int k) = k" if "i \<le> int k" "int k \<le> j" for k using that by linarith
    then show ?thesis using False unfold by auto
  next
    case True
    let ?l = "l[nat i := l ! nat j, nat j := l ! nat i]"
    have ij: "nat i < length l" "nat j < length l" "nat i \<noteq> nat j" using True "1.prems" by auto
    have IH: "length (reverse_loop ?l (i + 1) (j - 1)) = length l"
      "\<And>k. k < length l \<Longrightarrow> reverse_loop ?l (i + 1) (j - 1) ! k =
        (if i + 1 \<le> int k \<and> int k \<le> j - 1 then ?l ! nat (i + j - int k) else ?l ! k)"
      using "1.IH" [OF True] "1.prems" by auto
    have "reverse_loop l i j ! k = (if i \<le> int k \<and> int k \<le> j then l ! nat (i + j - int k) else l ! k)"
      if k: "k < length l" for k
    proof -
      consider "int k = i" | "int k = j" | "i + 1 \<le> int k" "int k \<le> j - 1" | "int k < i \<or> j < int k" by linarith
      then show ?thesis
      proof cases
        case 3
        then have "nat (i + j - int k) \<noteq> nat i" "nat (i + j - int k) \<noteq> nat j" using "1.prems" by linarith+
        then show ?thesis using 3 True IH(2) [OF k] unfold by simp
      qed (use True IH(2) [OF k] unfold ij "1.prems" in auto)
    qed
    then show ?thesis using IH(1) True unfold by simp
  qed
qed

lemma smartlist_reverse_ok:
  assumes "smartlist_ok sl"
  shows "smartlist_ok (smartlist_reverse sl) \<and> contents (smartlist_reverse sl) = rev (contents sl)"
proof -
  let ?l = "sl_list sl" and ?n = "num_used sl"
  let ?r = "reverse_loop ?l 0 (int ?n - 1)"
  have n: "?n \<le> length ?l" using assms by (simp add: smartlist_ok_def)
  then have r: "length ?r = length ?l"
    "\<And>k. k < length ?l \<Longrightarrow> ?r ! k = (if int k \<le> int ?n - 1 then ?l ! nat (int ?n - 1 - int k) else ?l ! k)"
    using reverse_loop_nth [of 0 "int ?n - 1" ?l] by auto
  have "drop ?n ?r = drop ?n ?l" using r by (intro nth_equalityI) auto
  moreover have "take ?n ?r = rev (take ?n ?l)"
  proof (rule nth_equalityI)
    fix k assume "k < length (take ?n ?r)"
    then have "k < ?n" "k < length ?l" using r(1) by simp_all
    moreover then have "nat (int ?n - 1 - int k) = ?n - Suc k" by linarith
    ultimately show "take ?n ?r ! k = rev (take ?n ?l) ! k" using r(2) [of k] n by (simp add: rev_nth)
  qed (use r(1) n in simp)
  ultimately show ?thesis using assms r(1) by (simp add: smartlist_reverse_def smartlist_ok_def contents_def)
qed

text \<open>Membership and position.\<close>

lemma contains_from_iff: "contains_from p l n \<longleftrightarrow> (\<exists>e \<in> set (take n l). p e)"
  by (induction p l n rule: contains_from.induct) (auto split: list.splits)

lemma smartlist_contains_iff: "smartlist_contains sl e \<longleftrightarrow> e \<in> set (contents sl)"
  by (auto simp: smartlist_contains_def contains_from_iff contents_def)

lemma strncmp_by_id_0: "strncmp_by id s1 s2 n = 0 \<longleftrightarrow> take n s1 = take n s2" if "is_c_str s1" "is_c_str s2" for s1 s2
  using that
proof (induction "id :: byte \<Rightarrow> byte" s1 s2 n rule: strncmp_by.induct)
  case (5 a s1 b s2 n)
  then show ?case by (auto simp: is_c_str_Cons simp flip: word_uint_eq_iff)
qed (auto simp: is_c_str_Cons uint_0_iff)

lemma strcmp_eq_0: "is_c_str s1 \<Longrightarrow> is_c_str s2 \<Longrightarrow> strcmp s1 s2 = 0 \<longleftrightarrow> s1 = s2"
  by (simp add: strcmp_def strncmp_def strncmp_by_id_0)

subsection \<open>The list interface\<close>

text \<open>
  What the code that builds lists relies on: an empty list, an append that succeeds while
  fewer than \<open>cap\<close> entries are used, and iteration over the entries in order.
\<close>

locale append_list =
  fixes invar :: "'s \<Rightarrow> bool" and entries :: "'s \<Rightarrow> 'e list" and emp :: 's
    and app :: "'s \<Rightarrow> 'e \<Rightarrow> 's option" and cap :: nat
  assumes emp_invar: "invar emp" and emp_entries: "entries emp = []"
    and app_entries: "invar s \<Longrightarrow> length (entries s) < cap \<Longrightarrow>
      \<exists>s'. app s e = Some s' \<and> invar s' \<and> entries s' = entries s @ [e]"
begin

primrec app_list :: "'s \<Rightarrow> 'e list \<Rightarrow> 's option" where
  "app_list s [] = Some s"
| "app_list s (e # es) = Option.bind (app s e) (\<lambda>s. app_list s es)"

lemma app_list_entries:
  "invar s \<Longrightarrow> length (entries s) + length es \<le> cap \<Longrightarrow>
   \<exists>s'. app_list s es = Some s' \<and> invar s' \<and> entries s' = entries s @ es"
proof (induction es arbitrary: s)
  case (Cons e es)
  obtain s1 where "app s e = Some s1" "invar s1" "entries s1 = entries s @ [e]"
    using app_entries [of s e] Cons.prems by auto
  then show ?case using Cons.IH [of s1] Cons.prems by simp
qed simp

lemma app_list_emp: "length es \<le> cap \<Longrightarrow> \<exists>s. app_list emp es = Some s \<and> invar s \<and> entries s = es"
  using app_list_entries [OF emp_invar] emp_entries by simp

end

interpretation smartlist: append_list smartlist_ok contents smartlist_new smartlist_add INT_MAX
proof unfold_locales
  show "smartlist_ok smartlist_new" "contents smartlist_new = []" by (rule smartlist_new_ok)+
  show "\<exists>s'. smartlist_add s e = Some s' \<and> smartlist_ok s' \<and> contents s' = contents s @ [e]"
    if "smartlist_ok s" "length (contents s) < INT_MAX" for s :: "'a smartlist" and e
    using that smartlist_add_ok [of s e] length_contents [of s] by simp
qed

text \<open>Every list, up to INT_MAX entries long, is built by adding its entries to a new smartlist;
  the array is resized without losing an entry, and none of the additions aborts.\<close>

theorem smartlist_adds_build:
  assumes "length es \<le> INT_MAX"
  shows "\<exists>sl. foldl (\<lambda>sl e. Option.bind sl (\<lambda>sl. smartlist_add sl e)) (Some smartlist_new) es = Some sl \<and>
    smartlist_ok sl \<and> contents sl = es"
proof -
  have "foldl (\<lambda>sl e. Option.bind sl (\<lambda>sl. smartlist_add sl e)) r es = Option.bind r (\<lambda>s. smartlist.app_list s es)" for r
    by (induction es arbitrary: r) (simp_all add: Option.bind_assoc)
  then show ?thesis using smartlist.app_list_emp [OF assms] by simp
qed

theorem smartlist_adds_build_witness:
  "\<exists>sl. foldl (\<lambda>sl e. Option.bind sl (\<lambda>sl. smartlist_add sl e)) (Some smartlist_new) (replicate 20 (Some True)) = Some sl \<and>
    smartlist_ok sl \<and> contents sl = replicate 20 (Some True)"
  by (rule smartlist_adds_build) simp

text \<open>The positional operations of the array implement the list operations: deletion (by swapping in
  the last entry, or by moving the rest down), insertion at an index, reversal and popping
  the last entry, each keeping the invariant of the representation.\<close>

theorem smartlist_positional_refine:
  assumes "smartlist_ok sl" and "i < num_used sl" and "num_used sl < INT_MAX"
  shows "(\<exists>sl'. smartlist_del sl (int i) = Some sl' \<and> smartlist_ok sl' \<and>
            contents sl' = butlast ((contents sl)[i := last (contents sl)])) \<and>
    (\<exists>sl'. smartlist_del_keeporder sl (int i) = Some sl' \<and> smartlist_ok sl' \<and>
            contents sl' = take i (contents sl) @ drop (Suc i) (contents sl)) \<and>
    (\<exists>sl'. smartlist_insert sl (int i) v = Some sl' \<and> smartlist_ok sl' \<and>
            contents sl' = take i (contents sl) @ v # drop i (contents sl)) \<and>
    (\<exists>sl'. smartlist_pop_last sl = (last (contents sl), sl') \<and> smartlist_ok sl' \<and> contents sl' = butlast (contents sl)) \<and>
    smartlist_ok (smartlist_reverse sl) \<and> contents (smartlist_reverse sl) = rev (contents sl)"
proof -
  have "contents sl \<noteq> []" using length_contents [OF assms(1)] assms(2) by auto
  then have "contents sl = butlast (contents sl) @ [last (contents sl)]" by simp
  then show ?thesis
    using smartlist_del_ok [OF assms(1,2)] smartlist_del_keeporder_ok [OF assms(1,2)]
      smartlist_insert_ok [OF assms(1) less_imp_le [OF assms(2)] assms(3)] smartlist_reverse_ok [OF assms(1)]
      smartlist_pop_last_ok [OF assms(1)] by blast
qed

theorem smartlist_positional_refine_witness:
  "\<exists>sl'. smartlist_del_keeporder \<lparr> sl_list = [Some 1, Some 2, Some (3 :: int), None], num_used = 3, capacity = 4 \<rparr> (int 1) =
     Some sl' \<and> smartlist_ok sl' \<and> contents sl' = [Some 1, Some 3]"
  using smartlist_positional_refine
    [of "\<lparr> sl_list = [Some 1, Some 2, Some (3 :: int), None], num_used = 3, capacity = 4 \<rparr>" 1]
  by (simp add: smartlist_ok_def contents_def numeral_3_eq_3)

text \<open>The removing operations keep exactly the right entries: \<^verbatim>\<open>smartlist_remove\<close>,
  \<^verbatim>\<open>smartlist_intersect\<close> and \<^verbatim>\<open>smartlist_string_remove\<close> as multisets (they swap in entries from
  the end), \<^verbatim>\<open>smartlist_remove_keeporder\<close> as lists; all keep the invariant.\<close>

theorem smartlist_removals_correct:
  assumes "smartlist_ok sl" and "smartlist_ok strs" and "\<forall>e \<in> set (contents strs). e \<noteq> None \<and> is_c_str (the e)"
    and "is_c_str s"
  shows "smartlist_ok (smartlist_remove sl (Some x)) \<and>
    mset (contents (smartlist_remove sl (Some x))) = filter_mset (\<lambda>e. e \<noteq> Some x) (mset (contents sl)) \<and>
    smartlist_ok (smartlist_remove_keeporder sl (Some x)) \<and>
    contents (smartlist_remove_keeporder sl (Some x)) = filter (\<lambda>e. e \<noteq> Some x) (contents sl) \<and>
    smartlist_ok (smartlist_intersect sl sl2) \<and>
    mset (contents (smartlist_intersect sl sl2)) = filter_mset (\<lambda>e. e \<in> set (contents sl2)) (mset (contents sl)) \<and>
    smartlist_ok (smartlist_string_remove strs s) \<and>
    mset (contents (smartlist_string_remove strs s)) = filter_mset (\<lambda>e. e \<noteq> Some s) (mset (contents strs))"
proof -
  have "strcmp s (the e) = 0 \<longleftrightarrow> e = Some s" if "e \<in># mset (contents strs)" for e
    using that assms(3,4) by (cases e) (auto simp: strcmp_eq_0)
  then have str: "filter_mset (\<lambda>e. strcmp s (the e) \<noteq> 0) (mset (contents strs)) =
      filter_mset (\<lambda>e. e \<noteq> Some s) (mset (contents strs))"
    by (intro filter_mset_cong) auto
  show ?thesis
    using swap_remove_ok [OF assms(1)] swap_remove_ok [OF assms(2)] smartlist_remove_keeporder_ok [OF assms(1)] str
    by (simp add: smartlist_remove_def smartlist_intersect_def smartlist_string_remove_def smartlist_contains_iff)
qed

theorem smartlist_removals_correct_witness:
  "contents (smartlist_remove_keeporder \<lparr> sl_list = [Some 1, Some 2, Some (1 :: int), None], num_used = 3, capacity = 4 \<rparr> (Some 1)) =
     [Some 2]"
proof -
  let ?sl = "\<lparr> sl_list = [Some 1, Some 2, Some (1 :: int), None], num_used = 3, capacity = 4 \<rparr>"
  have "smartlist_ok ?sl" "contents ?sl = [Some 1, Some 2, Some 1]"
    by (simp_all add: smartlist_ok_def contents_def numeral_3_eq_3)
  moreover have "\<forall>e \<in> set (contents smartlist_new). e \<noteq> None \<and> is_c_str (the e)" "is_c_str []"
    by (simp_all add: smartlist_new_ok is_c_str_Nil)
  ultimately show ?thesis using smartlist_removals_correct [of ?sl smartlist_new "[]" 1] smartlist_new_ok(1) [where ?'a = bytes]
    by simp
qed

end
