(* ===== verification/Tor_Smartlist_Ops.thy ===== *)
theory Tor_Smartlist_Ops
  imports Tor_Smartlist
begin

text \<open>
  The searching, joining, splitting and deduplicating operations of
  \<^verbatim>\<open>lib/container/smartlist.c\<close> and \<^verbatim>\<open>lib/smartlist_core/smartlist_split.c\<close>, on the sequence of
  the used entries of a smartlist (its \<open>contents\<close>, by the refinement of \<open>Tor_Smartlist\<close>).
  A comparison callback is a function argument.
\<close>

subsection \<open>Joining and splitting strings\<close>

text \<open>\<^verbatim>\<open>*dst++ = c\<close> for each byte of \<open>s\<close>; a write past the end of the buffer is lost.\<close>

fun write_bytes :: "bytes \<times> nat \<Rightarrow> bytes \<Rightarrow> bytes \<times> nat" where
  "write_bytes (buf, dst) [] = (buf, dst)"
| "write_bytes (buf, dst) (c # s) = write_bytes (buf[dst := c], dst + 1) s"

fun join_size :: "bytes list \<Rightarrow> nat \<Rightarrow> nat" where
  "join_size [] join_len = 0"
| "join_size (s # rest) join_len =
    length s + (if rest \<noteq> [] then join_len else 0) + join_size rest join_len"

fun join_write :: "bytes list \<Rightarrow> bytes \<Rightarrow> bytes \<times> nat \<Rightarrow> bytes \<times> nat" where
  "join_write [] join out = out"
| "join_write (s # rest) join out =
    (let out = write_bytes out s; out = (if rest \<noteq> [] then write_bytes out join else out)
     in join_write rest join out)"

text \<open>The \<^verbatim>\<open>malloc\<close>ed buffer (with its NUL) and \<^verbatim>\<open>*len_out\<close>; \<open>fresh\<close> is its initial content.\<close>

definition smartlist_join_strings2 :: "(nat \<Rightarrow> bytes) \<Rightarrow> bytes list \<Rightarrow> bytes \<Rightarrow> bool \<Rightarrow> bytes \<times> nat" where
  "smartlist_join_strings2 fresh sl join terminate =
    (let n = (if terminate then length join else 0) + join_size sl (length join);
         out = join_write sl join (fresh (n + 1), 0);
         (buf, dst) = (if terminate then write_bytes out join else out)
     in (buf[dst := 0], dst))"

definition smartlist_join_strings :: "(nat \<Rightarrow> bytes) \<Rightarrow> bytes list \<Rightarrow> bytes \<Rightarrow> bool \<Rightarrow> bytes \<times> nat" where
  "smartlist_join_strings fresh sl join terminate = smartlist_join_strings2 fresh sl join terminate"

text \<open>The offset of the first occurrence of \<open>sep\<close>, as \<^verbatim>\<open>strstr\<close> finds it.\<close>

fun strstr :: "bytes \<Rightarrow> bytes \<Rightarrow> nat option" where
  "strstr [] sep = (if sep = [] then Some 0 else None)"
| "strstr (c # s) sep = (if take (length sep) (c # s) = sep then Some 0 else map_option Suc (strstr s sep))"

record split_flags =
  SKIP_SPACE :: bool
  IGNORE_BLANK :: bool
  STRIP_SPACE :: bool

definition split_end :: "bytes \<Rightarrow> bytes option \<Rightarrow> int \<Rightarrow> nat \<Rightarrow> nat" where
  "split_end cp sep mx n =
    (if mx > 0 \<and> int n = mx - 1 then length cp
     else case sep of
       Some sp \<Rightarrow> (case strstr cp sp of None \<Rightarrow> length cp | Some k \<Rightarrow> k)
     | None \<Rightarrow> length (takeWhile (\<lambda>c. c \<noteq> 9 \<and> c \<noteq> 32) cp))"

definition split_next :: "bytes \<Rightarrow> nat \<Rightarrow> bytes option \<Rightarrow> bytes option" where
  "split_next cp e sep =
    (if e \<ge> length cp then None
     else case sep of
       Some sp \<Rightarrow> Some (drop (e + length sp) cp)
     | None \<Rightarrow> Some (dropWhile (\<lambda>c. c = 9 \<or> c = 32) (drop (e + 1) cp)))"

definition split_piece :: "bytes \<Rightarrow> nat \<Rightarrow> split_flags \<Rightarrow> bytes" where
  "split_piece cp e flags =
    (if SKIP_SPACE flags then rev (dropWhile TOR_ISSPACE (rev (take e cp))) else take e cp)"

function split_loop :: "bytes \<Rightarrow> bytes option \<Rightarrow> split_flags \<Rightarrow> int \<Rightarrow> nat \<Rightarrow> bytes list option" where
  "split_loop str sep flags mx n =
    (if sep = Some [] then None
     else let cp = (if SKIP_SPACE flags then dropWhile TOR_ISSPACE str else str);
              e = split_end cp sep mx n;
              piece = split_piece cp e flags;
              keep = (piece \<noteq> [] \<or> \<not> IGNORE_BLANK flags);
              out = (if keep then [if STRIP_SPACE flags then filter (\<lambda>c. c \<noteq> 32) piece else piece] else [])
          in case split_next cp e sep of
               None \<Rightarrow> Some out
             | Some nxt \<Rightarrow> map_option ((@) out) (split_loop nxt sep flags mx (if keep then n + 1 else n)))"
  by pat_completeness auto
termination
proof (relation "measure (\<lambda>(str, sep, flags, mx, n). length str)", simp, goal_cases)
  case (1 str sep flags mx n cp e piece keep out nxt)
  have "length cp \<le> length str" using 1(2) by (simp add: length_dropWhile_le)
  moreover have "length nxt < length cp"
  proof (cases sep)
    case None
    then have "length nxt \<le> length (drop (e + 1) cp)" "e < length cp"
      using 1(7) length_dropWhile_le [of _ "drop (e + 1) cp"] by (auto simp: split_next_def split: if_splits)
    then show ?thesis by simp
  next
    case (Some sp)
    then show ?thesis using 1(1,7) by (cases sp) (auto simp: split_next_def split: if_splits)
  qed
  ultimately show ?case by simp
qed

declare split_loop.simps [simp del]

text \<open>The strings appended to \<^verbatim>\<open>sl\<close>; no caller passes an empty separator, for which the loop
  would not end (\<open>None\<close>).\<close>

definition smartlist_split_string :: "bytes \<Rightarrow> bytes option \<Rightarrow> split_flags \<Rightarrow> int \<Rightarrow> bytes list option" where
  "smartlist_split_string str sep flags mx = split_loop str sep flags mx 0"

subsection \<open>Sorting, counting, searching\<close>

text \<open>\<^verbatim>\<open>qsort\<close> belongs to the C library and is a parameter: \<open>qsort cmp l\<close> is the sorted list.\<close>

definition smartlist_sort :: "(('a \<Rightarrow> 'a \<Rightarrow> int) \<Rightarrow> 'a list \<Rightarrow> 'a list) \<Rightarrow> ('a \<Rightarrow> 'a \<Rightarrow> int) \<Rightarrow> 'a list \<Rightarrow> 'a list" where
  "smartlist_sort qsort cmp l = (if length l = 0 then l else qsort cmp l)"

fun most_frequent_loop :: "('a \<Rightarrow> 'a \<Rightarrow> int) \<Rightarrow> 'a list \<Rightarrow> 'a option \<Rightarrow> nat \<Rightarrow> 'a option \<Rightarrow> nat \<Rightarrow> 'a option \<times> nat" where
  "most_frequent_loop cmp [] cur cnt most most_cnt =
    (if cur \<noteq> None \<and> cnt \<ge> most_cnt then (cur, cnt) else (most, most_cnt))"
| "most_frequent_loop cmp (item # l) cur cnt most most_cnt =
    (case cur of
       Some c \<Rightarrow>
         if cmp c item = 0 then most_frequent_loop cmp l cur (cnt + 1) most most_cnt
         else if cnt \<ge> most_cnt then most_frequent_loop cmp l (Some item) 1 cur cnt
         else most_frequent_loop cmp l (Some item) 1 most most_cnt
     | None \<Rightarrow> most_frequent_loop cmp l (Some item) 1 most most_cnt)"

definition smartlist_get_most_frequent :: "('a \<Rightarrow> 'a \<Rightarrow> int) \<Rightarrow> 'a list \<Rightarrow> 'a option \<times> nat" where
  "smartlist_get_most_frequent cmp sl = (if length sl = 0 then (None, 0) else most_frequent_loop cmp sl None 0 None 0)"

function uniq_loop :: "('a \<Rightarrow> 'a \<Rightarrow> int) \<Rightarrow> 'a list \<Rightarrow> nat \<Rightarrow> 'a list" where
  "uniq_loop cmp l i =
    (if i < length l
     then if cmp (l ! (i - 1)) (l ! i) = 0 then uniq_loop cmp (take i l @ drop (Suc i) l) i
          else uniq_loop cmp l (i + 1)
     else l)"
  by pat_completeness auto
termination
  by (relation "measure (\<lambda>(cmp, l, i). length l - i)") auto

declare uniq_loop.simps [simp del]

definition smartlist_uniq :: "('a \<Rightarrow> 'a \<Rightarrow> int) \<Rightarrow> 'a list \<Rightarrow> 'a list" where
  "smartlist_uniq cmp l = uniq_loop cmp l 1"

text \<open>The loop of \<^verbatim>\<open>smartlist_bsearch_idx\<close>: \<open>Inl\<close> for the early returns, \<open>Inr\<close> for \<open>lo\<close> and \<open>hi\<close> at its end.\<close>

function bsearch_loop :: "'a list \<Rightarrow> ('a \<Rightarrow> int) \<Rightarrow> int \<Rightarrow> int \<Rightarrow> ((int \<times> bool) + (int \<times> int)) option" where
  "bsearch_loop sl cmp lo hi =
    (if lo \<le> hi
     then let diff = hi - lo; mid = lo + diff div 2; c = cmp (sl ! nat mid)
          in if c = 0 then Some (Inl (mid, True))
             else if c > 0 then do { tor_assert (mid < int (length sl)); bsearch_loop sl cmp (mid + 1) hi }
             else do {
               tor_assert (c < 0);
               if mid > 0 then bsearch_loop sl cmp lo (mid - 1)
               else do { tor_assert (mid = lo); tor_assert (mid = 0); Some (Inl (0, False)) } }
     else Some (Inr (lo, hi)))"
  by pat_completeness auto
termination
  by (relation "measure (\<lambda>(sl, cmp, lo, hi). nat (hi - lo + 1))") (auto simp: tor_assert_def)

declare bsearch_loop.simps [simp del]

definition smartlist_bsearch_idx :: "'a list \<Rightarrow> ('a \<Rightarrow> int) \<Rightarrow> (int \<times> bool) option" where
  "smartlist_bsearch_idx sl cmp =
    (let len = int (length sl)
     in if len = 0 then Some (0, False)
        else do {
          tor_assert (len > 0);
          r \<leftarrow> bsearch_loop sl cmp 0 (len - 1);
          case r of
            Inl res \<Rightarrow> Some res
          | Inr (lo, hi) \<Rightarrow> do {
              tor_assert (lo = hi + 1);
              tor_assert (lo \<ge> 0);
              tor_assert (lo \<le> len);
              tor_assert (hi \<ge> 0);
              tor_assert (hi \<le> len);
              (if lo < len then tor_assert (cmp (sl ! nat lo) < 0) else tor_assert (cmp (sl ! nat (len - 1)) > 0));
              Some (lo, False) } })"

definition smartlist_bsearch :: "'a list \<Rightarrow> ('a \<Rightarrow> int) \<Rightarrow> 'a option option" where
  "smartlist_bsearch sl cmp = do {
     (idx, found) \<leftarrow> smartlist_bsearch_idx sl cmp;
     Some (if found then Some (sl ! nat idx) else None) }"

definition smartlist_get_most_frequent_string :: "bytes list \<Rightarrow> bytes option \<times> nat" where
  "smartlist_get_most_frequent_string sl = smartlist_get_most_frequent strcmp sl"

definition smartlist_uniq_strings :: "bytes list \<Rightarrow> bytes list" where
  "smartlist_uniq_strings sl = smartlist_uniq strcmp sl"

definition smartlist_sort_strings :: "((bytes \<Rightarrow> bytes \<Rightarrow> int) \<Rightarrow> bytes list \<Rightarrow> bytes list) \<Rightarrow> bytes list \<Rightarrow> bytes list" where
  "smartlist_sort_strings qsort sl = smartlist_sort qsort strcmp sl"

definition compare_digests :: "bytes \<Rightarrow> bytes \<Rightarrow> int" where
  "compare_digests a b = sint (tor_memcmp a b DIGEST_LEN)"

definition compare_digests256 :: "bytes \<Rightarrow> bytes \<Rightarrow> int" where
  "compare_digests256 a b = sint (tor_memcmp a b DIGEST256_LEN)"

definition smartlist_uniq_digests :: "bytes list \<Rightarrow> bytes list" where
  "smartlist_uniq_digests sl = smartlist_uniq compare_digests sl"

definition smartlist_uniq_digests256 :: "bytes list \<Rightarrow> bytes list" where
  "smartlist_uniq_digests256 sl = smartlist_uniq compare_digests256 sl"

definition smartlist_get_most_frequent_digest256 :: "bytes list \<Rightarrow> bytes option" where
  "smartlist_get_most_frequent_digest256 sl = fst (smartlist_get_most_frequent compare_digests256 sl)"

subsection \<open>Joined text\<close>

fun join_text :: "bytes list \<Rightarrow> bytes \<Rightarrow> bytes" where
  "join_text [] join = []"
| "join_text (s # rest) join = s @ (if rest \<noteq> [] then join else []) @ join_text rest join"

lemma join_size_text: "join_size sl (length join) = length (join_text sl join)"
  by (induction sl) auto

lemma write_bytes_eq:
  "dst + length s \<le> length buf \<Longrightarrow> write_bytes (buf, dst) s = (take dst buf @ s @ drop (dst + length s) buf, dst + length s)"
proof (induction s arbitrary: buf dst)
  case (Cons c s)
  then have "take (Suc dst) (buf[dst := c]) = take dst buf @ [c]" by (simp add: take_Suc_conv_app_nth)
  then show ?case using Cons by simp
qed simp

lemma write_bytes_prefix:
  assumes "length out + length s \<le> length out + length rest"
  shows "write_bytes (out @ rest, length out) s = (out @ s @ drop (length s) rest, length (out @ s))"
  using assms by (simp add: write_bytes_eq)

lemma join_write_eq:
  assumes "length (join_text sl join) \<le> length rest"
  shows "join_write sl join (out @ rest, length out) =
    (out @ join_text sl join @ drop (length (join_text sl join)) rest, length (out @ join_text sl join))"
  using assms
proof (induction sl arbitrary: out rest)
  case (Cons s sl)
  let ?j = "if sl \<noteq> [] then join else []"
  have 1: "write_bytes (out @ rest, length out) s = (out @ s @ drop (length s) rest, length (out @ s))"
    using Cons.prems by (intro write_bytes_prefix) simp
  have 2: "write_bytes ((out @ s) @ drop (length s) rest, length (out @ s)) ?j =
      ((out @ s) @ ?j @ drop (length ?j) (drop (length s) rest), length ((out @ s) @ ?j))"
    using Cons.prems by (intro write_bytes_prefix) simp
  have "join_write (s # sl) join (out @ rest, length out) =
      join_write sl join ((out @ s @ ?j) @ drop (length s + length ?j) rest, length (out @ s @ ?j))"
    using 1 2 by (cases "sl = []") (simp_all add: Let_def add.commute)
  then show ?case using Cons.IH [of "drop (length s + length ?j) rest" "out @ s @ ?j"] Cons.prems
    by (auto simp: Let_def add.assoc add.commute add.left_commute)
qed simp

lemma join_strings_eq:
  assumes "\<And>n. length (fresh n) = n"
  shows "smartlist_join_strings fresh sl join terminate =
    (join_text sl join @ (if terminate then join else []) @ [0], length (join_text sl join @ (if terminate then join else [])))"
proof -
  let ?t = "join_text sl join" and ?j = "if terminate then join else []"
  let ?n = "length ?t + length ?j"
  have n: "(if terminate then length join else 0) + join_size sl (length join) = ?n" by (simp add: join_size_text)
  have 1: "join_write sl join (fresh (?n + 1), 0) = (?t @ drop (length ?t) (fresh (?n + 1)), length ?t)"
    using join_write_eq [of sl join "fresh (?n + 1)" "[]"] assms [of "?n + 1"] by simp
  have "write_bytes (?t @ drop (length ?t) (fresh (?n + 1)), length ?t) ?j =
      (?t @ ?j @ drop (length ?j) (drop (length ?t) (fresh (?n + 1))), length (?t @ ?j))"
    using assms [of "?n + 1"] by (intro write_bytes_prefix) simp
  then have 2: "(if terminate then write_bytes (?t @ drop (length ?t) (fresh (?n + 1)), length ?t) join
        else (?t @ drop (length ?t) (fresh (?n + 1)), length ?t)) = (?t @ ?j @ drop ?n (fresh (?n + 1)), ?n)"
    by (cases terminate) (simp_all add: add.commute)
  obtain z where "drop ?n (fresh (?n + 1)) = [z]"
    using assms [of "?n + 1"] by (metis length_drop add_diff_cancel_left' length_0_conv length_Suc_conv One_nat_def)
  then have 3: "(?t @ ?j @ drop ?n (fresh (?n + 1)))[?n := 0] = ?t @ ?j @ [0]"
    by (metis append_assoc length_append list_update_length)
  show ?thesis unfolding smartlist_join_strings_def smartlist_join_strings2_def Let_def n 1 2 using 3 by simp
qed

text \<open>\<^verbatim>\<open>smartlist_join_strings\<close> computes the size of the result exactly: the buffer it allocates holds
  the strings separated by \<open>join\<close>, the optional terminator, and the final NUL, with no byte
  left over and none written outside.\<close>

theorem smartlist_join_strings_text:
  assumes "\<And>n. length (fresh n) = n"
  shows "smartlist_join_strings fresh sl join terminate =
    (join_text sl join @ (if terminate then join else []) @ [0], length (join_text sl join @ (if terminate then join else [])))"
  using assms by (rule join_strings_eq)

theorem smartlist_join_strings_text_witness:
  "smartlist_join_strings (\<lambda>n. replicate n 7) [lit ''ab'', lit ''c''] (lit '','') True = (lit ''ab,c,'' @ [0], 5)"
  using smartlist_join_strings_text [of "\<lambda>n. replicate n 7" "[lit ''ab'', lit ''c'']" "lit '',''" True]
  by (simp add: lit_def)

subsection \<open>Splitting undoes joining\<close>

lemma strstr_char_None: "c \<notin> set s \<Longrightarrow> strstr s [c] = None"
  by (induction s) auto

lemma strstr_char: "c \<notin> set s \<Longrightarrow> strstr (s @ c # rest) [c] = Some (length s)"
  by (induction s) auto

abbreviation no_split_flags :: split_flags where
  "no_split_flags \<equiv> \<lparr> SKIP_SPACE = False, IGNORE_BLANK = False, STRIP_SPACE = False \<rparr>"

lemma split_loop_join:
  assumes "strs \<noteq> []" and "\<forall>s \<in> set strs. c \<notin> set s"
  shows "split_loop (join_text strs [c]) (Some [c]) no_split_flags 0 n = Some strs"
  using assms
proof (induction strs arbitrary: n)
  case (Cons s strs)
  show ?case
  proof (cases "strs = []")
    case True
    then show ?thesis using Cons.prems
      by (simp add: split_loop.simps [of s] split_end_def split_piece_def split_next_def strstr_char_None Let_def)
  next
    case False
    then have "split_loop (join_text strs [c]) (Some [c]) no_split_flags 0 (n + 1) = Some strs"
      using Cons by simp
    then show ?thesis using Cons.prems False
      by (simp add: split_loop.simps [of "s @ c # _"] split_end_def split_piece_def split_next_def strstr_char Let_def)
  qed
qed simp

text \<open>Splitting the joined text on its one-byte separator gives the strings back, in order, for every
  non-empty list of strings that do not contain the separator; empty strings are kept.\<close>

theorem split_join_roundtrip:
  assumes "strs \<noteq> []" and "\<forall>s \<in> set strs. c \<notin> set s" and "\<And>n. length (fresh n) = n" and "\<forall>s \<in> set strs. is_c_str s" and "c \<noteq> 0"
  shows "smartlist_split_string (c_str (fst (smartlist_join_strings fresh strs [c] False))) (Some [c]) no_split_flags 0 =
    Some strs"
proof -
  have "is_c_str (join_text strs [c])" using assms(4,5)
    by (induction strs) (auto simp: c_string_simps)
  then show ?thesis using split_loop_join [OF assms(1,2)] join_strings_eq [OF assms(3)]
    by (simp add: smartlist_split_string_def c_str_append_NUL)
qed

theorem split_join_roundtrip_witness:
  "smartlist_split_string (c_str (fst (smartlist_join_strings (\<lambda>n. replicate n 7) [lit ''ab'', [], lit ''c''] [44] False)))
     (Some [44]) no_split_flags 0 = Some [lit ''ab'', [], lit ''c'']"
  by (rule split_join_roundtrip) (simp_all add: lit_def is_c_str_def)

subsection \<open>Binary search\<close>

text \<open>What a sorted list means for a search: entries below the key, then equal ones, then entries above it.\<close>

definition search_sorted :: "('a \<Rightarrow> int) \<Rightarrow> 'a list \<Rightarrow> bool" where
  "search_sorted cmp sl \<longleftrightarrow> (\<forall>j < length sl. \<forall>i < j.
     (0 < cmp (sl ! j) \<longrightarrow> 0 < cmp (sl ! i)) \<and> (cmp (sl ! i) < 0 \<longrightarrow> cmp (sl ! j) < 0))"

lemma search_sorted_below: "search_sorted cmp sl \<Longrightarrow> j < length sl \<Longrightarrow> 0 < cmp (sl ! j) \<Longrightarrow> i \<le> j \<Longrightarrow> 0 < cmp (sl ! i)"
  unfolding search_sorted_def using le_neq_implies_less by blast

lemma search_sorted_above: "search_sorted cmp sl \<Longrightarrow> j < length sl \<Longrightarrow> cmp (sl ! i) < 0 \<Longrightarrow> i \<le> j \<Longrightarrow> cmp (sl ! j) < 0"
  unfolding search_sorted_def using le_neq_implies_less by blast

definition bracketed :: "('a \<Rightarrow> int) \<Rightarrow> 'a list \<Rightarrow> int \<Rightarrow> int \<Rightarrow> bool" where
  "bracketed cmp sl lo hi \<longleftrightarrow> 0 \<le> lo \<and> 0 \<le> hi \<and> hi < int (length sl) \<and> lo \<le> hi + 1 \<and>
     (\<forall>i < length sl. (int i < lo \<longrightarrow> 0 < cmp (sl ! i)) \<and> (hi < int i \<longrightarrow> cmp (sl ! i) < 0))"

definition search_result :: "('a \<Rightarrow> int) \<Rightarrow> 'a list \<Rightarrow> int \<Rightarrow> bool \<Rightarrow> bool" where
  "search_result cmp sl idx found \<longleftrightarrow> 0 \<le> idx \<and>
     (if found then idx < int (length sl) \<and> cmp (sl ! nat idx) = 0
      else idx \<le> int (length sl) \<and>
           (\<forall>i < length sl. if int i < idx then 0 < cmp (sl ! i) else cmp (sl ! i) < 0))"

lemma bsearch_loop_result:
  assumes "search_sorted cmp sl" and "bracketed cmp sl lo hi"
  shows "case bsearch_loop sl cmp lo hi of
      None \<Rightarrow> False
    | Some (Inl (idx, found)) \<Rightarrow> search_result cmp sl idx found
    | Some (Inr (lo', hi')) \<Rightarrow> lo' = hi' + 1 \<and> bracketed cmp sl lo' hi'"
  using assms
proof (induction sl cmp lo hi rule: bsearch_loop.induct)
  case (1 sl cmp lo hi)
  note unfold = bsearch_loop.simps [of sl cmp lo hi]
  show ?case
  proof (cases "lo \<le> hi")
    case False
    then show ?thesis using "1.prems" unfold by (simp add: bracketed_def)
  next
    case le: True
    define mid where "mid = lo + (hi - lo) div 2"
    have mid: "lo \<le> mid" "mid \<le> hi" "0 \<le> mid" "mid < int (length sl)" "nat mid < length sl"
      using le "1.prems"(2) by (auto simp: mid_def bracketed_def)
    let ?c = "cmp (sl ! nat mid)"
    consider "?c = 0" | "?c > 0" | "?c < 0" by linarith
    then show ?thesis
    proof cases
      case 1
      then show ?thesis using le mid unfold by (simp add: Let_def mid_def [symmetric] search_result_def)
    next
      case 2
      have "bracketed cmp sl (mid + 1) hi"
        using "1.prems" mid 2 search_sorted_below [OF "1.prems"(1) mid(5) 2] by (auto simp: bracketed_def)
      then show ?thesis
        using "1.IH"(1) [OF le refl mid_def [symmetric, THEN sym] refl] 2 le mid "1.prems"(1) unfold
        by (simp add: Let_def mid_def [symmetric])
    next
      case 3
      have above: "cmp (sl ! i) < 0" if "i < length sl" "mid \<le> int i" for i
        using search_sorted_above [OF "1.prems"(1) that(1) 3] that(2) by simp
      show ?thesis
      proof (cases "mid > 0")
        case True
        have "bracketed cmp sl lo (mid - 1)" using "1.prems"(2) mid True above by (auto simp: bracketed_def)
        then show ?thesis
          using "1.IH"(2) [OF le refl mid_def [symmetric, THEN sym] refl] 3 le mid "1.prems"(1) unfold True
          by (simp add: Let_def mid_def [symmetric])
      next
        case False
        then have "search_result cmp sl 0 False" using above mid by (auto simp: search_result_def)
        then show ?thesis using 3 le mid False "1.prems"(2) unfold
          by (simp add: Let_def mid_def [symmetric] bracketed_def)
      qed
    qed
  qed
qed

text \<open>On a list that is sorted for the comparison, \<^verbatim>\<open>smartlist_bsearch_idx\<close> ends without tripping one of
  its assertions and returns a matching index, or else the index of the first entry above
  the key; \<^verbatim>\<open>smartlist_bsearch\<close> returns the matching entry, if there is one.\<close>

theorem smartlist_bsearch_idx_correct:
  assumes "search_sorted cmp sl"
  shows "\<exists>idx found. smartlist_bsearch_idx sl cmp = Some (idx, found) \<and> search_result cmp sl idx found \<and>
    smartlist_bsearch sl cmp = Some (if found then Some (sl ! nat idx) else None)"
proof -
  have "\<exists>idx found. smartlist_bsearch_idx sl cmp = Some (idx, found) \<and> search_result cmp sl idx found"
  proof (cases "sl = []")
    case True
    then have "smartlist_bsearch_idx sl cmp = Some (0, False)" "search_result cmp sl 0 False"
      by (simp_all add: smartlist_bsearch_idx_def search_result_def)
    then show ?thesis by blast
  next
    case False
    let ?r = "bsearch_loop sl cmp 0 (int (length sl) - 1)"
    have "bracketed cmp sl 0 (int (length sl) - 1)" using False by (auto simp: bracketed_def Suc_leI)
    note r = bsearch_loop_result [OF assms this]
    then obtain v where v: "?r = Some v" by (cases ?r) auto
    show ?thesis
    proof (cases v)
      case (Inl res)
      obtain idx found where "res = (idx, found)" by (cases res)
      then have "smartlist_bsearch_idx sl cmp = Some (idx, found)" "search_result cmp sl idx found"
        using Inl r v False by (simp_all add: smartlist_bsearch_idx_def)
      then show ?thesis by blast
    next
      case (Inr w)
      obtain lo hi where w: "w = (lo, hi)" by (cases w)
      have lh: "lo = hi + 1" "bracketed cmp sl lo hi" using r v Inr w by auto
      have hi: "0 \<le> hi" "hi < int (length sl)"
        and cmp: "\<And>i. i < length sl \<Longrightarrow> (int i < lo \<longrightarrow> 0 < cmp (sl ! i)) \<and> (hi < int i \<longrightarrow> cmp (sl ! i) < 0)"
        using lh(2) by (simp_all add: bracketed_def)
      have "lo < int (length sl) \<Longrightarrow> cmp (sl ! nat lo) < 0" using cmp [of "nat lo"] lh(1) hi by simp
      moreover have "\<not> lo < int (length sl) \<Longrightarrow> 0 < cmp (sl ! (length sl - 1))"
        using cmp [of "length sl - 1"] lh(1) hi False by simp
      ultimately have "smartlist_bsearch_idx sl cmp = Some (lo, False)" using v Inr w False lh(1) hi
        by (cases "lo < int (length sl)") (simp_all add: smartlist_bsearch_idx_def nat_diff_distrib Let_def)
      moreover have "search_result cmp sl lo False" using cmp lh(1) hi by (simp add: search_result_def)
      ultimately show ?thesis by blast
    qed
  qed
  then obtain idx found where "smartlist_bsearch_idx sl cmp = Some (idx, found)" "search_result cmp sl idx found" by blast
  then show ?thesis by (intro exI [of _ idx] exI [of _ found]) (simp add: smartlist_bsearch_def)
qed

theorem smartlist_bsearch_idx_correct_witness:
  "\<exists>idx found. smartlist_bsearch_idx [2, 4, 6] (\<lambda>x. 5 - x) = Some (idx, found) \<and>
     search_result (\<lambda>x. 5 - x) [2, 4, 6] idx found \<and>
     smartlist_bsearch [2, 4, 6] (\<lambda>x. 5 - x) = Some (if found then Some ([2, 4, 6] ! nat idx) else None)"
  by (rule smartlist_bsearch_idx_correct) (auto simp: search_sorted_def less_Suc_eq numeral_3_eq_3)

subsection \<open>Duplicates and frequencies\<close>

lemma remdups_adj_short: "length xs \<le> 1 \<Longrightarrow> remdups_adj xs = xs"
  by (cases xs rule: remdups_adj.cases) auto

lemma distinct_remdups_adj_sorted: "sorted xs \<Longrightarrow> distinct (remdups_adj xs)"
  by (induction xs rule: remdups_adj.induct) (auto simp: order_less_imp_not_eq antisym)

lemma sorted_le_last: "sorted p \<Longrightarrow> y \<in> set p \<Longrightarrow> y \<le> last p"
  by (induction p) auto

lemma uniq_loop_remdups:
  assumes "\<And>a b. a \<in> set l \<Longrightarrow> b \<in> set l \<Longrightarrow> cmp a b = 0 \<longleftrightarrow> a = b" and "0 < i"
  shows "uniq_loop cmp l i = take (i - 1) l @ remdups_adj (drop (i - 1) l)"
  using assms
proof (induction cmp l i rule: uniq_loop.induct)
  case (1 cmp l i)
  note unfold = uniq_loop.simps [of cmp l i]
  show ?case
  proof (cases "i < length l")
    case False
    then have "length (drop (i - 1) l) \<le> 1" by simp
    then have "remdups_adj (drop (i - 1) l) = drop (i - 1) l" by (rule remdups_adj_short)
    then show ?thesis using False unfold by simp
  next
    case True
    have d: "drop (i - 1) l = l ! (i - 1) # l ! i # drop (Suc i) l"
      using True "1.prems"(2) by (metis Cons_nth_drop_Suc Suc_pred' Suc_lessD)
    have eq: "cmp (l ! (i - 1)) (l ! i) = 0 \<longleftrightarrow> l ! (i - 1) = l ! i"
      using "1.prems" True by simp
    show ?thesis
    proof (cases "cmp (l ! (i - 1)) (l ! i) = 0")
      case dup: True
      let ?l = "take i l @ drop (Suc i) l"
      have sub: "set ?l \<subseteq> set l" using set_take_subset set_drop_subset by fastforce
      have "uniq_loop cmp ?l i = take (i - 1) ?l @ remdups_adj (drop (i - 1) ?l)"
        using "1.IH"(1) [OF True dup] "1.prems" sub by blast
      moreover have "take (i - 1) ?l = take (i - 1) l" using True by simp
      moreover have "drop (i - 1) ?l = l ! (i - 1) # drop (Suc i) l"
      proof -
        have "drop (i - 1) (take i l) = [l ! (i - 1)]"
          using True "1.prems"(2) by (metis Suc_pred' append_take_drop_id diff_less less_trans
              same_append_eq take_Suc_conv_app_nth take_take min.absorb1 diff_le_self zero_less_one)
        then show ?thesis using True by simp
      qed
      ultimately show ?thesis using True dup eq d unfold by simp
    next
      case diff: False
      have "take i l = take (i - 1) l @ [l ! (i - 1)]"
        using True "1.prems"(2) by (metis Suc_pred' Suc_lessD take_Suc_conv_app_nth)
      moreover have "drop i l = l ! i # drop (Suc i) l" using True by (simp add: Cons_nth_drop_Suc)
      ultimately show ?thesis
        using "1.IH"(2) [OF True diff] "1.prems" True diff eq d unfold by simp
    qed
  qed
qed

text \<open>The most frequent entry of \<open>p\<close> other than \<open>c\<close>, the last one among equals.\<close>

definition best_other :: "'a :: linorder list \<Rightarrow> 'a \<Rightarrow> 'a option \<Rightarrow> nat \<Rightarrow> bool" where
  "best_other p c most mc \<longleftrightarrow>
    (\<forall>y \<in> set p. y \<noteq> c \<longrightarrow> count_list p y \<le> mc \<and> (count_list p y = mc \<longrightarrow> (\<exists>m. most = Some m \<and> y \<le> m))) \<and>
    (case most of None \<Rightarrow> mc = 0 | Some m \<Rightarrow> m \<in> set p \<and> m \<noteq> c \<and> count_list p m = mc)"

definition most_frequent_in :: "'a :: linorder list \<Rightarrow> 'a option \<times> nat \<Rightarrow> bool" where
  "most_frequent_in l r \<longleftrightarrow> (\<exists>x. fst r = Some x \<and> x \<in> set l \<and> snd r = count_list l x \<and>
     (\<forall>y \<in> set l. count_list l y \<le> snd r \<and> (count_list l y = snd r \<longrightarrow> y \<le> x)))"

lemma most_frequent_loop_spec:
  assumes "\<And>a b. a \<in> set (p @ l) \<Longrightarrow> b \<in> set (p @ l) \<Longrightarrow> cmp a b = 0 \<longleftrightarrow> a = b"
    and "sorted (p @ l)" and "p \<noteq> []" and "c = last p" and "cnt = count_list p c" and "best_other p c most mc"
  shows "most_frequent_in (p @ l) (most_frequent_loop cmp l (Some c) cnt most mc)"
  using assms
proof (induction l arbitrary: p c cnt most mc)
  case Nil
  have c: "c \<in> set p" "\<And>y. y \<in> set p \<Longrightarrow> y \<le> c"
    using Nil.prems(2-4) sorted_le_last [of p] by auto
  show ?case
  proof (cases "cnt \<ge> mc")
    case True
    then show ?thesis using c Nil.prems(5,6) unfolding most_frequent_in_def best_other_def
      by (auto intro: le_trans)
  next
    case False
    then obtain m where "most = Some m" using Nil.prems(6) by (cases most) (auto simp: best_other_def)
    then show ?thesis using False Nil.prems(5,6) unfolding most_frequent_in_def best_other_def
      by (auto simp: nat_less_le)
  qed
next
  case (Cons item l)
  have top: "\<And>y. y \<in> set p \<Longrightarrow> y \<le> c" "c \<in> set p" "\<And>y. y \<in> set p \<Longrightarrow> y \<le> item"
    using Cons.prems(2-4) sorted_le_last [of p] by (auto simp: sorted_append)
  have eq: "cmp c item = 0 \<longleftrightarrow> c = item" using Cons.prems(1) top(2) by simp
  let ?p = "p @ [item]"
  have pl: "?p @ l = p @ item # l" by simp
  show ?case
  proof (cases "c = item")
    case True
    have "best_other ?p c most mc" using Cons.prems(6) True by (auto simp: best_other_def split: option.splits)
    then show ?thesis using Cons.IH [of ?p c "cnt + 1" most mc] Cons.prems(1,2,5) True eq unfolding pl by simp
  next
    case False
    have new: "item \<notin> set p" using top(1) [of item] top(3) [OF top(2)] False by auto
    then have c0: "count_list p item = 0" by (simp add: count_list_0_iff)
    show ?thesis
    proof (cases "cnt \<ge> mc")
      case ge: True
      have "best_other ?p item (Some c) cnt"
        using Cons.prems(5,6) top ge False new c0 unfolding best_other_def
        by (auto intro: le_trans)
      then show ?thesis using Cons.IH [of ?p item 1 "Some c" cnt] Cons.prems(1,2) False ge eq c0 unfolding pl by simp
    next
      case lt: False
      have "best_other ?p item most mc"
        using Cons.prems(5,6) lt False new c0 top(2) unfolding best_other_def by (auto split: option.splits)
      then show ?thesis using Cons.IH [of ?p item 1 most mc] Cons.prems(1,2) False lt eq c0 unfolding pl by simp
    qed
  qed
qed

text \<open>On a sorted list, with a comparison that is zero exactly on equal entries,
  \<^verbatim>\<open>smartlist_get_most_frequent\<close> returns an entry of greatest multiplicity, the last one in the
  order among those, with its multiplicity, and \<^verbatim>\<open>smartlist_uniq\<close> leaves each entry exactly once,
  in order.\<close>

theorem smartlist_frequency_uniq_correct:
  fixes l :: "'a :: linorder list"
  assumes "\<And>a b. a \<in> set l \<Longrightarrow> b \<in> set l \<Longrightarrow> cmp a b = 0 \<longleftrightarrow> a = b" and "sorted l" and "l \<noteq> []"
  shows "most_frequent_in l (smartlist_get_most_frequent cmp l) \<and>
    sorted (smartlist_uniq cmp l) \<and> distinct (smartlist_uniq cmp l) \<and> set (smartlist_uniq cmp l) = set l"
proof -
  obtain a r where l: "l = a # r" using assms(3) by (cases l) auto
  have "most_frequent_in ([a] @ r) (most_frequent_loop cmp r (Some a) 1 None 0)"
    using assms l by (intro most_frequent_loop_spec) (auto simp: best_other_def)
  then have "most_frequent_in l (smartlist_get_most_frequent cmp l)"
    using l by (simp add: smartlist_get_most_frequent_def)
  moreover have "smartlist_uniq cmp l = remdups_adj l"
    using uniq_loop_remdups [of l cmp 1] assms(1) by (simp add: smartlist_uniq_def)
  ultimately show ?thesis using assms(2) by (simp add: sorted_remdups_adj distinct_remdups_adj_sorted)
qed

theorem smartlist_frequency_uniq_correct_witness:
  "most_frequent_in [1, 2, 2, 3 :: int] (smartlist_get_most_frequent (\<lambda>a b. a - b) [1, 2, 2, 3]) \<and>
   distinct (smartlist_uniq (\<lambda>a b. a - b) [1, 2, 2, 3 :: int])"
  using smartlist_frequency_uniq_correct [of "[1, 2, 2, 3 :: int]" "\<lambda>a b. a - b"] by simp

end
