(* ===== verification/Tor_Tokenizer.thy ===== *)
theory Tor_Tokenizer
  imports Tor_Smartlist_Ops Tor_Base64
begin

text \<open>
  \<^verbatim>\<open>feature/dirparse/parsecommon.c\<close>: the tokenizer of directory documents, and the token table of
  router descriptors (\<^verbatim>\<open>feature/dirparse/routerparse.c\<close>), which contains Dittor's
  \<^verbatim>\<open>dittor-proof\<close> rule.

  A position \<^verbatim>\<open>*s\<close> in a document that ends at \<^verbatim>\<open>eos\<close> is the list of the bytes from it to \<^verbatim>\<open>eos\<close>.
  A token of type \<^verbatim>\<open>ERR_\<close> is the left result of \<open>get_next_token\<close>, with a constructor for each message.
  RSA keys belong to the cryptographic library: their operations are the record \<open>pk_ops\<close>.
\<close>

subsection \<open>Keywords, rules and tokens\<close>

text \<open>A \<^verbatim>\<open>directory_keyword\<close> is its number in the enumeration of \<^verbatim>\<open>parsecommon.h\<close>.\<close>

type_synonym directory_keyword = nat

abbreviation (input) K_ACCEPT :: directory_keyword where "K_ACCEPT \<equiv> 0"
abbreviation (input) K_ACCEPT6 :: directory_keyword where "K_ACCEPT6 \<equiv> 1"
abbreviation (input) K_REJECT :: directory_keyword where "K_REJECT \<equiv> 4"
abbreviation (input) K_REJECT6 :: directory_keyword where "K_REJECT6 \<equiv> 5"
abbreviation (input) K_ROUTER :: directory_keyword where "K_ROUTER \<equiv> 6"
abbreviation (input) K_SIGNING_KEY :: directory_keyword where "K_SIGNING_KEY \<equiv> 8"
abbreviation (input) K_ONION_KEY :: directory_keyword where "K_ONION_KEY \<equiv> 9"
abbreviation (input) K_ONION_KEY_NTOR :: directory_keyword where "K_ONION_KEY_NTOR \<equiv> 10"
abbreviation (input) K_ROUTER_SIGNATURE :: directory_keyword where "K_ROUTER_SIGNATURE \<equiv> 11"
abbreviation (input) K_PUBLISHED :: directory_keyword where "K_PUBLISHED \<equiv> 12"
abbreviation (input) K_PLATFORM :: directory_keyword where "K_PLATFORM \<equiv> 15"
abbreviation (input) K_PROTO :: directory_keyword where "K_PROTO \<equiv> 16"
abbreviation (input) K_OPT :: directory_keyword where "K_OPT \<equiv> 17"
abbreviation (input) K_BANDWIDTH :: directory_keyword where "K_BANDWIDTH \<equiv> 18"
abbreviation (input) K_CONTACT :: directory_keyword where "K_CONTACT \<equiv> 19"
abbreviation (input) K_UPTIME :: directory_keyword where "K_UPTIME \<equiv> 21"
abbreviation (input) K_FAMILY :: directory_keyword where "K_FAMILY \<equiv> 23"
abbreviation (input) K_FAMILY_CERT :: directory_keyword where "K_FAMILY_CERT \<equiv> 24"
abbreviation (input) K_FINGERPRINT :: directory_keyword where "K_FINGERPRINT \<equiv> 26"
abbreviation (input) K_HIBERNATING :: directory_keyword where "K_HIBERNATING \<equiv> 27"
abbreviation (input) K_READ_HISTORY :: directory_keyword where "K_READ_HISTORY \<equiv> 28"
abbreviation (input) K_WRITE_HISTORY :: directory_keyword where "K_WRITE_HISTORY \<equiv> 29"
abbreviation (input) K_OR_ADDRESS :: directory_keyword where "K_OR_ADDRESS \<equiv> 39"
abbreviation (input) K_EXTRA_INFO_DIGEST :: directory_keyword where "K_EXTRA_INFO_DIGEST \<equiv> 50"
abbreviation (input) K_CACHES_EXTRA_INFO :: directory_keyword where "K_CACHES_EXTRA_INFO \<equiv> 51"
abbreviation (input) K_HIDDEN_SERVICE_DIR :: directory_keyword where "K_HIDDEN_SERVICE_DIR \<equiv> 52"
abbreviation (input) K_ALLOW_SINGLE_HOP_EXITS :: directory_keyword where "K_ALLOW_SINGLE_HOP_EXITS \<equiv> 53"
abbreviation (input) K_IPV6_POLICY :: directory_keyword where "K_IPV6_POLICY \<equiv> 54"
abbreviation (input) K_ROUTER_SIG_ED25519 :: directory_keyword where "K_ROUTER_SIG_ED25519 \<equiv> 55"
abbreviation (input) K_IDENTITY_ED25519 :: directory_keyword where "K_IDENTITY_ED25519 \<equiv> 56"
abbreviation (input) K_MASTER_KEY_ED25519 :: directory_keyword where "K_MASTER_KEY_ED25519 \<equiv> 57"
abbreviation (input) K_ONION_KEY_CROSSCERT :: directory_keyword where "K_ONION_KEY_CROSSCERT \<equiv> 58"
abbreviation (input) K_NTOR_ONION_KEY_CROSSCERT :: directory_keyword where "K_NTOR_ONION_KEY_CROSSCERT \<equiv> 59"
abbreviation (input) K_DIR_TUNNELLED :: directory_keyword where "K_DIR_TUNNELLED \<equiv> 91"
abbreviation (input) A_PURPOSE :: directory_keyword where "A_PURPOSE \<equiv> 114"
abbreviation (input) A_UNKNOWN :: directory_keyword where "A_UNKNOWN \<equiv> 116"
abbreviation (input) K_OPT_DITTOR_PROOF :: directory_keyword where "K_OPT_DITTOR_PROOF \<equiv> 155"
abbreviation (input) ERR_tok :: directory_keyword where "ERR_tok \<equiv> 156"
abbreviation (input) EOF_tok :: directory_keyword where "EOF_tok \<equiv> 157"
abbreviation (input) NIL_tok :: directory_keyword where "NIL_tok \<equiv> 158"

datatype obj_syntax = NO_OBJ | NEED_OBJ | OPT_KEY_1024 | NEED_KEY_1024 | NEED_KEY | OBJ_OK

record token_rule =
  rule_t :: bytes
  rule_v :: directory_keyword
  min_args :: nat
  max_args :: nat
  concat_args :: bool
  rule_os :: obj_syntax
  min_cnt :: nat
  max_cnt :: nat
  at_start :: bool
  at_end :: bool
  is_annotation :: bool

text \<open>The argument multiplicities and rule macros of \<^verbatim>\<open>parsecommon.h\<close>.\<close>

type_synonym arg_spec = "nat \<times> nat \<times> bool"

definition ARGS :: arg_spec where "ARGS = (0, INT_MAX, False)"
definition NO_ARGS :: arg_spec where "NO_ARGS = (0, 0, False)"
definition CONCAT_ARGS :: arg_spec where "CONCAT_ARGS = (1, 1, True)"
definition GE :: "nat \<Rightarrow> arg_spec" where "GE n = (n, INT_MAX, False)"
definition EQ :: "nat \<Rightarrow> arg_spec" where "EQ n = (n, n, False)"

fun mk_rule :: "string \<Rightarrow> directory_keyword \<Rightarrow> arg_spec \<Rightarrow> obj_syntax \<Rightarrow> nat \<Rightarrow> nat \<Rightarrow> bool \<Rightarrow> bool \<Rightarrow> bool \<Rightarrow> token_rule" where
  "mk_rule s t (mn, mx, cc) os mnc mxc st en ann =
    \<lparr> rule_t = lit s, rule_v = t, min_args = mn, max_args = mx, concat_args = cc, rule_os = os,
      min_cnt = mnc, max_cnt = mxc, at_start = st, at_end = en, is_annotation = ann \<rparr>"

definition T0N :: "string \<Rightarrow> directory_keyword \<Rightarrow> arg_spec \<Rightarrow> obj_syntax \<Rightarrow> token_rule" where
  "T0N s t a os = mk_rule s t a os 0 INT_MAX False False False"
definition T1 :: "string \<Rightarrow> directory_keyword \<Rightarrow> arg_spec \<Rightarrow> obj_syntax \<Rightarrow> token_rule" where
  "T1 s t a os = mk_rule s t a os 1 1 False False False"
definition T1_START :: "string \<Rightarrow> directory_keyword \<Rightarrow> arg_spec \<Rightarrow> obj_syntax \<Rightarrow> token_rule" where
  "T1_START s t a os = mk_rule s t a os 1 1 True False False"
definition T1_END :: "string \<Rightarrow> directory_keyword \<Rightarrow> arg_spec \<Rightarrow> obj_syntax \<Rightarrow> token_rule" where
  "T1_END s t a os = mk_rule s t a os 1 1 False True False"
definition T01 :: "string \<Rightarrow> directory_keyword \<Rightarrow> arg_spec \<Rightarrow> obj_syntax \<Rightarrow> token_rule" where
  "T01 s t a os = mk_rule s t a os 0 1 False False False"
definition A01 :: "string \<Rightarrow> directory_keyword \<Rightarrow> arg_spec \<Rightarrow> obj_syntax \<Rightarrow> token_rule" where
  "A01 s t a os = mk_rule s t a os 0 1 False False True"

definition routerdesc_token_table :: "token_rule list" where
  "routerdesc_token_table = [
    T0N ''reject'' K_REJECT ARGS NO_OBJ,
    T0N ''accept'' K_ACCEPT ARGS NO_OBJ,
    T0N ''reject6'' K_REJECT6 ARGS NO_OBJ,
    T0N ''accept6'' K_ACCEPT6 ARGS NO_OBJ,
    T1_START ''router'' K_ROUTER (GE 5) NO_OBJ,
    T01 ''ipv6-policy'' K_IPV6_POLICY CONCAT_ARGS NO_OBJ,
    T1 ''signing-key'' K_SIGNING_KEY NO_ARGS NEED_KEY_1024,
    T01 ''onion-key'' K_ONION_KEY NO_ARGS NEED_KEY_1024,
    T1 ''ntor-onion-key'' K_ONION_KEY_NTOR (GE 1) NO_OBJ,
    T1_END ''router-signature'' K_ROUTER_SIGNATURE NO_ARGS NEED_OBJ,
    T1 ''published'' K_PUBLISHED CONCAT_ARGS NO_OBJ,
    T01 ''uptime'' K_UPTIME (GE 1) NO_OBJ,
    T01 ''fingerprint'' K_FINGERPRINT CONCAT_ARGS NO_OBJ,
    T01 ''hibernating'' K_HIBERNATING (GE 1) NO_OBJ,
    T01 ''platform'' K_PLATFORM CONCAT_ARGS NO_OBJ,
    T1 ''proto'' K_PROTO CONCAT_ARGS NO_OBJ,
    T01 ''contact'' K_CONTACT CONCAT_ARGS NO_OBJ,
    T01 ''read-history'' K_READ_HISTORY ARGS NO_OBJ,
    T01 ''write-history'' K_WRITE_HISTORY ARGS NO_OBJ,
    T01 ''extra-info-digest'' K_EXTRA_INFO_DIGEST (GE 1) NO_OBJ,
    T01 ''hidden-service-dir'' K_HIDDEN_SERVICE_DIR NO_ARGS NO_OBJ,
    T1 ''identity-ed25519'' K_IDENTITY_ED25519 NO_ARGS NEED_OBJ,
    T1 ''master-key-ed25519'' K_MASTER_KEY_ED25519 (GE 1) NO_OBJ,
    T1 ''router-sig-ed25519'' K_ROUTER_SIG_ED25519 (GE 1) NO_OBJ,
    T01 ''onion-key-crosscert'' K_ONION_KEY_CROSSCERT NO_ARGS NEED_OBJ,
    T1 ''ntor-onion-key-crosscert'' K_NTOR_ONION_KEY_CROSSCERT (EQ 1) NEED_OBJ,
    T01 ''allow-single-hop-exits'' K_ALLOW_SINGLE_HOP_EXITS NO_ARGS NO_OBJ,
    T01 ''family'' K_FAMILY ARGS NO_OBJ,
    T0N ''family-cert'' K_FAMILY_CERT ARGS NEED_OBJ,
    T01 ''caches-extra-info'' K_CACHES_EXTRA_INFO NO_ARGS NO_OBJ,
    T0N ''or-address'' K_OR_ADDRESS (GE 1) NO_OBJ,
    T0N ''opt'' K_OPT CONCAT_ARGS OBJ_OK,
    T1 ''bandwidth'' K_BANDWIDTH (GE 3) NO_OBJ,
    A01 ''@purpose'' A_PURPOSE (GE 1) NO_OBJ,
    T01 ''tunnelled-dir-server'' K_DIR_TUNNELLED NO_ARGS NO_OBJ,
    T01 ''dittor-proof'' K_OPT_DITTOR_PROOF (GE 8) NO_OBJ
  ]"

record 'k directory_token =
  tp :: directory_keyword
  args :: "bytes list"
  object_type :: "bytes option"
  object_body :: "bytes option"
  tok_key :: "'k option"

record 'k pk_ops =
  asn1_decode :: "bytes \<Rightarrow> 'k option"
  num_bits :: "'k \<Rightarrow> nat"
  is_private :: "'k \<Rightarrow> bool"

datatype token_error =
    Line_Too_Long | Unexpected_EOF | Far_Too_Many_Args bytes | Too_Few_Args bytes | Too_Many_Args bytes
  | Bad_Begin_Line | Missing_End_Line | Mismatched_End_Tag bytes | Object_Too_Big | Bad_Base64
  | Unexpected_Public_Key | Unparseable_Public_Key
  | Unexpected_Object bytes | Unexpected_Key_For bytes | Missing_Object bytes | Wrong_Key_Size bytes nat
  | Missing_Public_Key bytes | Private_Key_Given bytes

subsection \<open>Arguments and objects\<close>

lemma eat_whitespace_length: "length (eat_whitespace s) \<le> length s"
proof (induction s rule: eat_whitespace.induct)
  case (2 c s)
  then show ?case using length_dropWhile_le [of "\<lambda>c. c \<noteq> 10" s] by auto
qed simp

lemma find_whitespace_length: "length (find_whitespace s) \<le> length s"
  by (simp add: find_whitespace_def length_dropWhile_le)

text \<open>
  \<open>cp\<close> is the rest of the copied line, \<open>acc\<close> the arguments so far. The byte at which an argument
  ends (white space or \<^verbatim>\<open>#\<close>) is overwritten by its NUL.
\<close>

function token_arguments_loop :: "bytes \<Rightarrow> bytes list \<Rightarrow> bytes list option" where
  "token_arguments_loop cp acc =
    (if cp = [] then Some acc
     else if length acc = 512 then None
     else let e = find_whitespace cp; acc = acc @ [take (length cp - length e) cp]
          in if e = [] then Some acc else token_arguments_loop (eat_whitespace (tl e)) acc)"
  by pat_completeness auto
termination
proof (relation "measure (\<lambda>(cp, acc). length cp)", simp, goal_cases)
  case (1 cp acc e acc')
  then have "length (tl e) < length e" by simp
  then have "length (eat_whitespace (tl e)) < length e" using eat_whitespace_length [of "tl e"] by linarith
  then show ?case using 1(3) find_whitespace_length [of cp] by simp
qed

declare token_arguments_loop.simps [simp del]

definition get_token_arguments :: "bytes \<Rightarrow> bytes list option" where
  "get_token_arguments line = token_arguments_loop (c_str line) []"

definition token_check_object ::
  "'k pk_ops \<Rightarrow> bytes \<Rightarrow> 'k directory_token \<Rightarrow> obj_syntax \<Rightarrow> token_error + 'k directory_token" where
  "token_check_object ops kwd tok o_syn =
    (let need_key = (case tok_key tok of
              None \<Rightarrow> Inl (Missing_Public_Key kwd)
            | Some k \<Rightarrow> if is_private ops k then Inl (Private_Key_Given kwd) else Inr tok);
         need_key_1024 = (case tok_key tok of
              Some k \<Rightarrow> if num_bits ops k \<noteq> 128 * 8 then Inl (Wrong_Key_Size kwd (num_bits ops k)) else need_key
            | None \<Rightarrow> need_key)
     in case o_syn of
       NO_OBJ \<Rightarrow> if object_body tok \<noteq> None then Inl (Unexpected_Object kwd)
                 else if tok_key tok \<noteq> None then Inl (Unexpected_Key_For kwd) else Inr tok
     | NEED_OBJ \<Rightarrow> if object_body tok = None then Inl (Missing_Object kwd) else Inr tok
     | OPT_KEY_1024 \<Rightarrow> if object_body tok \<noteq> None \<and> tok_key tok = None then Inl (Unexpected_Object kwd)
                       else if tok_key tok = None then Inr tok else need_key_1024
     | NEED_KEY_1024 \<Rightarrow> need_key_1024
     | NEED_KEY \<Rightarrow> need_key
     | OBJ_OK \<Rightarrow> Inr tok)"

definition mem_eq_token :: "bytes \<Rightarrow> bytes \<Rightarrow> bool" where
  "mem_eq_token mem token \<longleftrightarrow> length mem = length token \<and> mem = token"

abbreviation (input) MAX_UNPARSED_OBJECT_SIZE :: nat where "MAX_UNPARSED_OBJECT_SIZE \<equiv> 128 * 1024"
abbreviation (input) MAX_LINE_LENGTH :: nat where "MAX_LINE_LENGTH \<equiv> 128 * 1024"

definition find_rule :: "token_rule list \<Rightarrow> bytes \<Rightarrow> token_rule option" where
  "find_rule table word = find (\<lambda>r. mem_eq_token word (rule_t r)) table"

text \<open>
  The keyword line: \<open>line\<close> runs from \<^verbatim>\<open>*s\<close> (after an \<^verbatim>\<open>opt\<close>) to \<^verbatim>\<open>eol\<close>, \<open>word\<close> to \<^verbatim>\<open>next\<close>. The result
  is the token, the keyword for messages and the object syntax.
\<close>

definition token_line ::
  "token_rule list \<Rightarrow> bytes \<Rightarrow> bytes \<Rightarrow> token_error + 'k directory_token \<times> bytes \<times> obj_syntax" where
  "token_line table line word =
    (let tok = \<lparr> tp = ERR_tok, args = [], object_type = None, object_body = None, tok_key = None \<rparr>
     in case find_rule table word of
       None \<Rightarrow>
         Inr (tok\<lparr> tp := if line \<noteq> [] \<and> hd line = 64 then A_UNKNOWN else K_OPT, args := [c_str line] \<rparr>, [], OBJ_OK)
     | Some r \<Rightarrow>
         let rest = eat_whitespace_eos_no_nl (drop (length word) line)
         in case (if concat_args r then Some [c_str rest] else get_token_arguments rest) of
           None \<Rightarrow> Inl (Far_Too_Many_Args (rule_t r))
         | Some as \<Rightarrow>
             if length as < min_args r then Inl (Too_Few_Args (rule_t r))
             else if length as > max_args r then Inl (Too_Many_Args (rule_t r))
             else Inr (tok\<lparr> tp := rule_v r, args := as \<rparr>, rule_t r, rule_os r))"

text \<open>The public key of an object of type \<^verbatim>\<open>RSA PUBLIC KEY\<close>.\<close>

definition token_key :: "'k pk_ops \<Rightarrow> 'k directory_token \<Rightarrow> obj_syntax \<Rightarrow> bytes \<Rightarrow> token_error + 'k directory_token" where
  "token_key ops tok o_syn body =
    (if object_type tok = Some (lit ''RSA PUBLIC KEY'')
     then if o_syn \<notin> {OPT_KEY_1024, NEED_KEY, NEED_KEY_1024, OBJ_OK} then Inl Unexpected_Public_Key
          else (case asn1_decode ops body of
              None \<Rightarrow> Inl Unparseable_Public_Key
            | Some key \<Rightarrow> Inr (tok\<lparr> tok_key := Some key \<rparr>))
     else Inr tok)"

text \<open>The object body, which starts at \<open>s\<close>, its end line, and the position after it.\<close>

definition token_object_body ::
  "'k pk_ops \<Rightarrow> bytes \<Rightarrow> bytes \<Rightarrow> 'k directory_token \<Rightarrow> obj_syntax \<Rightarrow> token_error + 'k directory_token \<times> bytes" where
  "token_object_body ops otype s tok o_syn =
    (case tor_memstr s (lit ''-----END '') of
       Some (Some k) \<Rightarrow>
         let tail = drop k s; e = length (takeWhile (\<lambda>c. c \<noteq> 10) tail)
         in if e \<noteq> 9 + length otype + 5 \<or> \<not> mem_eq_token (take (length otype) (drop 9 tail)) otype \<or>
               \<not> mem_eq_token (drop (e - 5) (take e tail)) (lit ''-----'')
            then Inl (Mismatched_End_Tag otype)
            else if k > MAX_UNPARSED_OBJECT_SIZE then Inl Object_Too_Big
            else (case Option.bind (base64_decode_maxsize k) (\<lambda>maxsize. base64_decode (replicate maxsize 0) (take k s)) of
               None \<Rightarrow> Inl Bad_Base64
             | Some (r, buf) \<Rightarrow>
                 (case token_key ops (tok\<lparr> object_type := Some otype, object_body := Some (take r buf) \<rparr>) o_syn (take r buf) of
                    Inl err \<Rightarrow> Inl err
                  | Inr tok \<Rightarrow> Inr (tok, drop e tail)))
     | _ \<Rightarrow> Inl Missing_End_Line)"

text \<open>The object after the keyword line, if there is one, and the position after it.\<close>

definition token_object ::
  "'k pk_ops \<Rightarrow> bytes \<Rightarrow> 'k directory_token \<Rightarrow> obj_syntax \<Rightarrow> token_error + 'k directory_token \<times> bytes" where
  "token_object ops s tok o_syn =
    (let n = length (takeWhile (\<lambda>c. c \<noteq> 10) s)
     in if n = length s \<or> n < 11 \<or> strcmpstart (c_str s) (lit ''-----BEGIN '') \<noteq> 0 then Inr (tok, s)
        else if n \<le> 16 \<or> 0 \<in> set (take (n - 16) (drop 11 s)) \<or>
                \<not> mem_eq_token (drop (n - 5) (take n s)) (lit ''-----'') \<or> n > MAX_UNPARSED_OBJECT_SIZE
        then Inl Bad_Begin_Line
        else token_object_body ops (take (n - 16) (drop 11 s)) (drop (n + 1) s) tok o_syn)"

definition get_next_token ::
  "'k pk_ops \<Rightarrow> token_rule list \<Rightarrow> bytes \<Rightarrow> token_error + 'k directory_token \<times> bytes" where
  "get_next_token ops table s =
    (let s = eat_whitespace_eos s;
         line = takeWhile (\<lambda>c. c \<noteq> 10) s; after = drop (length line) s
     in if length line > MAX_LINE_LENGTH then Inl Line_Too_Long
        else
          let next = find_whitespace_eos line; word = take (length line - length next) line;
              is_opt = mem_eq_token word (lit ''opt'');
              line = (if is_opt then eat_whitespace_eos_no_nl next else line);
              word = (if is_opt then take (length line - length (find_whitespace_eos line)) line else word)
          in if \<not> is_opt \<and> s = [] then Inl Unexpected_EOF
             else (case token_line table line word of
                 Inl err \<Rightarrow> Inl err
               | Inr (tok, kwd, o_syn) \<Rightarrow>
                   (case token_object ops (eat_whitespace_eos after) tok o_syn of
                      Inl err \<Rightarrow> Inl err
                    | Inr (tok, rest) \<Rightarrow>
                        (case token_check_object ops kwd tok o_syn of Inl err \<Rightarrow> Inl err | Inr tok \<Rightarrow> Inr (tok, rest)))))"

subsection \<open>Progress\<close>

lemma eat_whitespace_eos_length: "length (eat_whitespace_eos s) \<le> length s"
proof (induction s rule: eat_whitespace_eos.induct)
  case (2 c s)
  then show ?case using length_dropWhile_le [of "\<lambda>c. c \<noteq> 0 \<and> c \<noteq> 10" s] by auto
qed simp

lemma eat_whitespace_eos_hd: "eat_whitespace_eos s = c # r \<Longrightarrow> c \<notin> {32, 9, 10, 13, 35}"
  by (induction s rule: eat_whitespace_eos.induct) (auto split: if_splits)

lemma token_object_body_length:
  "token_object_body ops otype s tok o_syn = Inr (tok', rest) \<Longrightarrow> length rest \<le> length s"
  unfolding token_object_body_def Let_def
  by (simp split: option.splits if_splits sum.splits prod.splits) auto

lemma token_object_length:
  assumes "token_object ops s tok o_syn = Inr (tok', rest)"
  shows "length rest \<le> length s"
proof (cases "rest = s")
  case False
  then obtain k otype where "token_object_body ops otype (drop k s) tok o_syn = Inr (tok', rest)"
    using assms unfolding token_object_def Let_def by (simp split: if_splits)
  then show ?thesis using token_object_body_length [of ops otype "drop k s"] by fastforce
qed simp

text \<open>Every token consumes at least one byte, so that tokenizing a document ends.\<close>

lemma get_next_token_progress:
  assumes "get_next_token ops table s = Inr (tok, rest)"
  shows "length rest < length s"
proof -
  let ?s = "eat_whitespace_eos s"
  let ?line = "takeWhile (\<lambda>c. c \<noteq> 10) ?s"
  obtain t tok' o_syn where rest: "token_object ops (eat_whitespace_eos (drop (length ?line) ?s)) tok' o_syn = Inr (t, rest)"
    using assms by (auto simp: get_next_token_def Let_def split: if_splits sum.splits prod.splits)
  have ne: "?s \<noteq> []"
  proof
    assume "?s = []"
    then have "get_next_token ops table s = Inl Unexpected_EOF"
      by (simp add: get_next_token_def find_whitespace_eos_def mem_eq_token_def lit_def)
    then show False using assms by simp
  qed
  have "?line \<noteq> []" using ne eat_whitespace_eos_hd [of s] by (cases ?s) auto
  then have "length (drop (length ?line) ?s) < length ?s" using ne by (cases ?s) auto
  moreover have "length rest \<le> length (drop (length ?line) ?s)"
    using rest token_object_length eat_whitespace_eos_length le_trans by blast
  ultimately show ?thesis using eat_whitespace_eos_length [of s] by linarith
qed

subsection \<open>tokenize\_string\<close>

datatype tokenize_error =
    Internal_NUL | Token_Error token_error | Only_Annotations | Annotations_Mixed | Unexpected_Annotations
  | No_Annotations_Allowed | Missing_Element bytes | Too_Many_Elements bytes | First_Item_Is_Not bytes | Last_Item_Is_Not bytes

record ts_flags =
  TS_ANNOTATIONS_OK :: bool
  TS_NOCHECK :: bool
  TS_NO_NEW_ANNOTATIONS :: bool

text \<open>The reading loop; \<open>seen_eof\<close> says that the last token was \<^verbatim>\<open>EOF_\<close>.\<close>

function tokenize_loop ::
  "'k pk_ops \<Rightarrow> token_rule list \<Rightarrow> bytes \<Rightarrow> bool \<Rightarrow> 'k directory_token list \<Rightarrow> token_error + 'k directory_token list" where
  "tokenize_loop ops table s seen_eof out =
    (if s \<noteq> [] \<and> \<not> seen_eof
     then case get_next_token ops table s of
            Inl err \<Rightarrow> Inl err
          | Inr (tok, rest) \<Rightarrow> tokenize_loop ops table (eat_whitespace_eos rest) (tp tok = EOF_tok) (out @ [tok])
     else Inr out)"
  by pat_completeness auto
termination
proof (relation "measure (\<lambda>(ops, table, s, seen_eof, out). length s)", simp, goal_cases)
  case (1 ops table s seen_eof out r tok rest)
  then have "length rest < length s" using get_next_token_progress by metis
  then show ?case using eat_whitespace_eos_length [of rest] by simp
qed

declare tokenize_loop.simps [simp del]

definition is_annotation_tp :: "directory_keyword \<Rightarrow> bool" where
  "is_annotation_tp v \<longleftrightarrow> \<not> (v < A_PURPOSE \<or> v > A_UNKNOWN)"

definition count_tp :: "'k directory_token list \<Rightarrow> directory_keyword \<Rightarrow> nat" where
  "count_tp out v = length (filter (\<lambda>t. tp t = v) out)"

text \<open>The annotation checks; the result is \<^verbatim>\<open>first_nonannotation\<close>.\<close>

definition check_annotations ::
  "'k directory_token list \<Rightarrow> nat \<Rightarrow> ts_flags \<Rightarrow> tokenize_error + nat" where
  "check_annotations out prev_len flags =
    (if TS_ANNOTATIONS_OK flags
     then let first = length (takeWhile (\<lambda>t. is_annotation_tp (tp t)) out)
          in if first = length out then Inl Only_Annotations
             else if list_ex (\<lambda>t. is_annotation_tp (tp t)) (drop first out) then Inl Annotations_Mixed
             else if TS_NO_NEW_ANNOTATIONS flags \<and> first \<noteq> prev_len then Inl Unexpected_Annotations
             else Inr first
     else if list_ex (\<lambda>t. is_annotation_tp (tp t)) out then Inl No_Annotations_Allowed
     else Inr 0)"

fun check_rules :: "'k directory_token list \<Rightarrow> nat \<Rightarrow> token_rule list \<Rightarrow> tokenize_error + 'k directory_token list" where
  "check_rules out first [] = Inr out"
| "check_rules out first (r # table) =
    (if count_tp out (rule_v r) < min_cnt r then Inl (Missing_Element (rule_t r))
     else if count_tp out (rule_v r) > max_cnt r then Inl (Too_Many_Elements (rule_t r))
     else if at_start r \<and> (length out < 1 \<or> tp (out ! first) \<noteq> rule_v r) then Inl (First_Item_Is_Not (rule_t r))
     else if at_end r \<and> (length out < 1 \<or> tp (last out) \<noteq> rule_v r) then Inl (Last_Item_Is_Not (rule_t r))
     else check_rules out first table)"

text \<open>
  \<open>bounded\<close> says that the caller passed \<^verbatim>\<open>end\<close>; without it the document is the C string at \<open>start\<close>.
  The counts start from the tokens already in \<open>out\<close>.
\<close>

definition tokenize_string ::
  "'k pk_ops \<Rightarrow> bytes \<Rightarrow> bool \<Rightarrow> 'k directory_token list \<Rightarrow> token_rule list \<Rightarrow> ts_flags \<Rightarrow>
   tokenize_error + 'k directory_token list" where
  "tokenize_string ops start bounded out table flags =
    (if bounded \<and> 0 \<in> set start then Inl Internal_NUL
     else case tokenize_loop ops table (c_str start) False out of
       Inl err \<Rightarrow> Inl (Token_Error err)
     | Inr all \<Rightarrow>
         if TS_NOCHECK flags then Inr all
         else case check_annotations all (length out) flags of
           Inl err \<Rightarrow> Inl err
         | Inr first \<Rightarrow> check_rules all first table)"

fun find_opt_by_keyword :: "'k directory_token list \<Rightarrow> directory_keyword \<Rightarrow> 'k directory_token option" where
  "find_opt_by_keyword [] keyword = None"
| "find_opt_by_keyword (t # s) keyword = (if tp t = keyword then Some t else find_opt_by_keyword s keyword)"

definition find_by_keyword :: "'k directory_token list \<Rightarrow> directory_keyword \<Rightarrow> 'k directory_token option" where
  "find_by_keyword s keyword = do {
     let tok = find_opt_by_keyword s keyword;
     tor_assert (tok \<noteq> None);
     tok }"

definition find_all_by_keyword :: "'k directory_token list \<Rightarrow> directory_keyword \<Rightarrow> 'k directory_token list option" where
  "find_all_by_keyword s k = (let out = filter (\<lambda>t. tp t = k) s in if out = [] then None else Some out)"

subsection \<open>Tokens conform to their rules\<close>

definition object_conforms :: "'k pk_ops \<Rightarrow> obj_syntax \<Rightarrow> 'k directory_token \<Rightarrow> bool" where
  "object_conforms ops o_syn tok =
    (case o_syn of
       NO_OBJ \<Rightarrow> object_body tok = None \<and> tok_key tok = None
     | NEED_OBJ \<Rightarrow> object_body tok \<noteq> None
     | OPT_KEY_1024 \<Rightarrow> (case tok_key tok of None \<Rightarrow> object_body tok = None | Some k \<Rightarrow> num_bits ops k = 1024 \<and> \<not> is_private ops k)
     | NEED_KEY_1024 \<Rightarrow> (\<exists>k. tok_key tok = Some k \<and> num_bits ops k = 1024 \<and> \<not> is_private ops k)
     | NEED_KEY \<Rightarrow> (\<exists>k. tok_key tok = Some k \<and> \<not> is_private ops k)
     | OBJ_OK \<Rightarrow> True)"

definition rule_conforms :: "'k pk_ops \<Rightarrow> token_rule \<Rightarrow> 'k directory_token \<Rightarrow> bool" where
  "rule_conforms ops r tok \<longleftrightarrow> tp tok = rule_v r \<and> min_args r \<le> length (args tok) \<and> length (args tok) \<le> max_args r \<and>
     object_conforms ops (rule_os r) tok"

definition token_conforms :: "'k pk_ops \<Rightarrow> token_rule list \<Rightarrow> 'k directory_token \<Rightarrow> bool" where
  "token_conforms ops table tok \<longleftrightarrow>
    (\<exists>r \<in> set table. rule_conforms ops r tok) \<or> (tp tok \<in> {K_OPT, A_UNKNOWN} \<and> length (args tok) = 1)"

lemma token_check_object_conforms:
  "token_check_object ops kwd tok o_syn = Inr tok' \<Longrightarrow> tok' = tok \<and> object_conforms ops o_syn tok"
  by (auto simp: token_check_object_def object_conforms_def Let_def split: obj_syntax.splits option.splits if_splits)

lemma token_key_fields:
  "token_key ops tok o_syn body = Inr tok' \<Longrightarrow> tp tok' = tp tok \<and> args tok' = args tok"
  by (auto simp: token_key_def split: if_splits option.splits)

lemma token_object_body_fields:
  "token_object_body ops otype s tok o_syn = Inr (tok', rest) \<Longrightarrow> tp tok' = tp tok \<and> args tok' = args tok"
  unfolding token_object_body_def Let_def
  by (simp split: option.splits if_splits sum.splits prod.splits) (auto dest!: token_key_fields)

lemma token_object_fields:
  "token_object ops s tok o_syn = Inr (tok', rest) \<Longrightarrow> tp tok' = tp tok \<and> args tok' = args tok"
  unfolding token_object_def Let_def by (simp split: if_splits) (auto dest!: token_object_body_fields)

lemma find_rule_Some: "find_rule table word = Some r \<Longrightarrow> r \<in> set table \<and> word = rule_t r"
  by (auto simp: find_rule_def find_Some_iff mem_eq_token_def)

lemma token_line_fields:
  assumes "token_line table line word = Inr (tok, kwd, o_syn)"
  shows "(\<exists>r \<in> set table. tp tok = rule_v r \<and> o_syn = rule_os r \<and> min_args r \<le> length (args tok) \<and>
            length (args tok) \<le> max_args r) \<or>
    (o_syn = OBJ_OK \<and> tp tok \<in> {K_OPT, A_UNKNOWN} \<and> length (args tok) = 1)"
proof (cases "find_rule table word")
  case None
  then show ?thesis using assms by (auto simp: token_line_def)
next
  case (Some r)
  then show ?thesis using assms find_rule_Some [OF Some]
    by (auto simp: token_line_def Let_def not_less split: if_splits option.splits)
qed

lemma get_next_token_steps:
  assumes "get_next_token ops table s = Inr (tok, rest)"
  obtains line word t kwd o_syn after where "token_line table line word = Inr (t, kwd, o_syn)"
    and "token_object ops after t o_syn = Inr (tok, rest)" and "object_conforms ops o_syn tok"
  using assms unfolding get_next_token_def Let_def
  by (simp split: if_splits sum.splits prod.splits) (auto dest!: token_check_object_conforms)

lemma get_next_token_conforms:
  assumes "get_next_token ops table s = Inr (tok, rest)"
  shows "token_conforms ops table tok"
proof -
  obtain line word t kwd o_syn after where l: "token_line table line word = Inr (t, kwd, o_syn)"
    and o: "token_object ops after t o_syn = Inr (tok, rest)" and c: "object_conforms ops o_syn tok"
    using get_next_token_steps [OF assms] by blast
  have "tp tok = tp t" "args tok = args t" using token_object_fields [OF o] by simp_all
  then show ?thesis using token_line_fields [OF l] c by (auto simp: token_conforms_def rule_conforms_def)
qed

lemma tokenize_loop_conforms:
  "tokenize_loop ops table s eof out = Inr all \<Longrightarrow>
   \<exists>new. all = out @ new \<and> (\<forall>t \<in> set new. token_conforms ops table t)"
proof (induction ops table s eof out rule: tokenize_loop.induct)
  case (1 ops table s eof out)
  note unfold = tokenize_loop.simps [of ops table s eof out]
  show ?case
  proof (cases "s \<noteq> [] \<and> \<not> eof")
    case False
    then show ?thesis using "1.prems" unfold by auto
  next
    case True
    then obtain tok rest where tok: "get_next_token ops table s = Inr (tok, rest)"
      using "1.prems" unfold by (auto split: sum.splits)
    then obtain new where "all = (out @ [tok]) @ new" "\<forall>t \<in> set new. token_conforms ops table t"
      using "1.IH" [OF True tok refl] "1.prems" True unfold by auto
    then show ?thesis using get_next_token_conforms [OF tok] by (intro exI [of _ "tok # new"]) auto
  qed
qed

lemma check_rules_Inr:
  "check_rules out first table = Inr out' \<Longrightarrow>
   out' = out \<and> (\<forall>r \<in> set table. min_cnt r \<le> count_tp out (rule_v r) \<and> count_tp out (rule_v r) \<le> max_cnt r \<and>
     (at_start r \<longrightarrow> out \<noteq> [] \<and> tp (out ! first) = rule_v r) \<and> (at_end r \<longrightarrow> out \<noteq> [] \<and> tp (last out) = rule_v r))"
  by (induction table) (auto split: if_splits simp: not_less Suc_le_eq)

text \<open>The tokens before position \<open>first\<close> are annotations, none of the others is.\<close>

definition annotations_end :: "'k directory_token list \<Rightarrow> nat \<Rightarrow> bool" where
  "annotations_end toks first \<longleftrightarrow> first \<le> length toks \<and> (\<forall>t \<in> set (take first toks). is_annotation_tp (tp t)) \<and>
    (\<forall>t \<in> set (drop first toks). \<not> is_annotation_tp (tp t))"

text \<open>What the flags promise about annotations when \<open>n\<close> tokens were there before the call.\<close>

definition annotations_conform :: "'k directory_token list \<Rightarrow> nat \<Rightarrow> nat \<Rightarrow> ts_flags \<Rightarrow> bool" where
  "annotations_conform toks first n flags \<longleftrightarrow> annotations_end toks first \<and>
    (if TS_ANNOTATIONS_OK flags then first < length toks \<and> (TS_NO_NEW_ANNOTATIONS flags \<longrightarrow> first = n) else first = 0)"

definition rules_conform :: "token_rule list \<Rightarrow> 'k directory_token list \<Rightarrow> nat \<Rightarrow> bool" where
  "rules_conform table toks first \<longleftrightarrow> (\<forall>r \<in> set table. min_cnt r \<le> count_tp toks (rule_v r) \<and> count_tp toks (rule_v r) \<le> max_cnt r \<and>
     (at_start r \<longrightarrow> toks \<noteq> [] \<and> tp (toks ! first) = rule_v r) \<and> (at_end r \<longrightarrow> toks \<noteq> [] \<and> tp (last toks) = rule_v r))"

lemma check_annotations_Inr:
  assumes "check_annotations toks n flags = Inr first"
  shows "annotations_conform toks first n flags"
proof (cases "TS_ANNOTATIONS_OK flags")
  case True
  let ?anns = "takeWhile (\<lambda>t. is_annotation_tp (tp t)) toks"
  have f: "first = length ?anns" "first \<noteq> length toks" "\<not> list_ex (\<lambda>t. is_annotation_tp (tp t)) (drop first toks)"
      "TS_NO_NEW_ANNOTATIONS flags \<longrightarrow> first = n"
    using assms True by (simp_all add: check_annotations_def Let_def split: if_splits)
  have le: "first \<le> length toks" unfolding f(1) by (rule length_takeWhile_le)
  have "take first toks = ?anns" unfolding f(1) by (rule takeWhile_eq_take [symmetric])
  then have "\<forall>t \<in> set (take first toks). is_annotation_tp (tp t)" by (auto dest: set_takeWhileD)
  then show ?thesis using True f(2-4) le by (simp add: annotations_conform_def annotations_end_def list_ex_iff)
next
  case False
  then show ?thesis using assms by (auto simp: check_annotations_def annotations_conform_def annotations_end_def list_ex_iff split: if_splits)
qed

text \<open>C19: When \<^verbatim>\<open>tokenize_string\<close> accepts, for any flags and any tokens \<open>out\<close> that are there before: the tokens are \<open>out\<close> and new ones
  behind it; every new token obeys the rule of its keyword (argument count, object and key syntax) or is an unrecognized
  line; a document given with its end contains no NUL; and unless the flag \<^verbatim>\<open>TS_NOCHECK\<close> turned the checks off, there is a number of
  annotations such that these come first, none if \<^verbatim>\<open>TS_ANNOTATIONS_OK\<close> is not given, no new ones if \<^verbatim>\<open>TS_NO_NEW_ANNOTATIONS\<close> is
  given with it, and every rule of the table has its multiplicity and its position right behind the annotations or at the end.\<close>

theorem tokenize_string_conforms:
  assumes "tokenize_string ops start bounded out table flags = Inr toks"
  shows "(bounded \<longrightarrow> 0 \<notin> set start) \<and> (\<exists>new. toks = out @ new \<and> (\<forall>t \<in> set new. token_conforms ops table t)) \<and>
    (TS_NOCHECK flags \<or> (\<exists>first. annotations_conform toks first (length out) flags \<and> rules_conform table toks first))"
proof -
  obtain all where all: "tokenize_loop ops table (c_str start) False out = Inr all" "bounded \<longrightarrow> 0 \<notin> set start"
    and checks: "if TS_NOCHECK flags then toks = all
      else \<exists>first. check_annotations all (length out) flags = Inr first \<and> check_rules all first table = Inr toks"
    using assms by (auto simp: tokenize_string_def split: if_splits sum.splits)
  have rules: "toks = all \<and> rules_conform table toks first" if "check_rules all first table = Inr toks" for first
    using check_rules_Inr [OF that] by (auto simp: rules_conform_def)
  have "toks = all" using checks rules by (auto split: if_splits)
  then have "TS_NOCHECK flags \<or> (\<exists>first. annotations_conform toks first (length out) flags \<and> rules_conform table toks first)"
    using checks rules check_annotations_Inr by (cases "TS_NOCHECK flags") (simp, simp, blast)
  then show ?thesis using all(2) tokenize_loop_conforms [OF all(1)] \<open>toks = all\<close> by blast
qed

subsection \<open>Reading back a keyword line\<close>

text \<open>A word that the tokenizer keeps whole: no NUL, white space or comment sign.\<close>

definition plain_word :: "bytes \<Rightarrow> bool" where
  "plain_word w \<longleftrightarrow> w \<noteq> [] \<and> set w \<inter> {0, 9, 10, 13, 32, 35} = {}"

definition keyword_line :: "bytes \<Rightarrow> bytes list \<Rightarrow> bytes" where
  "keyword_line kw as = kw @ concat (map (\<lambda>a. 32 # a) as)"

lemma plain_word_hd: "plain_word w \<Longrightarrow> \<exists>c r. w = c # r \<and> c \<notin> {0, 9, 10, 13, 32, 35}"
  by (cases w) (auto simp: plain_word_def)

lemma find_whitespace_word: "plain_word w \<Longrightarrow> find_whitespace w = []"
  unfolding find_whitespace_def plain_word_def by (induction w) auto

lemma find_whitespace_word_space: "plain_word w \<Longrightarrow> find_whitespace (w @ 32 # r) = 32 # r"
  unfolding find_whitespace_def plain_word_def by (subst dropWhile_append2) auto

lemma find_whitespace_eos_word: "plain_word w \<Longrightarrow> r = [] \<or> hd r = 32 \<Longrightarrow> find_whitespace_eos (w @ r) = r"
  unfolding find_whitespace_eos_def plain_word_def by (subst dropWhile_append2) (auto, cases r, auto)

lemma eat_whitespace_word: "plain_word w \<Longrightarrow> eat_whitespace (w @ r) = w @ r"
  using plain_word_hd by fastforce

lemma eat_whitespace_eos_word: "plain_word w \<Longrightarrow> eat_whitespace_eos (w @ r) = w @ r"
  using plain_word_hd by fastforce

lemma token_arguments_loop_words:
  assumes "list_all plain_word (a # as)" and "length acc + length (a # as) \<le> 512"
  shows "token_arguments_loop (keyword_line a as) acc = Some (acc @ a # as)"
  using assms
proof (induction as arbitrary: a acc)
  case Nil
  then have "a \<noteq> []" by (simp add: plain_word_def)
  then show ?case using Nil
    by (simp add: token_arguments_loop.simps [of a] keyword_line_def find_whitespace_word)
next
  case (Cons b as)
  let ?r = "b @ concat (map (\<lambda>a. 32 # a) as)"
  have kl: "keyword_line a (b # as) = a @ 32 # ?r" "keyword_line b as = ?r" by (simp_all add: keyword_line_def)
  have "find_whitespace (a @ 32 # ?r) = 32 # ?r" "eat_whitespace ?r = ?r"
    using Cons.prems find_whitespace_word_space eat_whitespace_word by simp_all
  moreover have "token_arguments_loop ?r (acc @ [a]) = Some ((acc @ [a]) @ b # as)"
    using Cons.IH [of b "acc @ [a]"] Cons.prems kl(2) by simp
  ultimately show ?case using Cons.prems unfolding kl by (simp add: token_arguments_loop.simps [of "a @ 32 # ?r"] Let_def)
qed

lemma words_chars: "list_all plain_word as \<Longrightarrow> set (concat (map (\<lambda>a. 32 # a) as)) \<inter> {0, 10} = {}"
  by (induction as) (auto simp: plain_word_def)

lemma keyword_line_arguments:
  assumes "list_all plain_word as" and "length as \<le> 512"
  shows "get_token_arguments (eat_whitespace_eos_no_nl (concat (map (\<lambda>a. 32 # a) as))) = Some as"
proof (cases as)
  case Nil
  then show ?thesis by (simp add: get_token_arguments_def eat_whitespace_eos_no_nl_def c_str_def token_arguments_loop.simps)
next
  case (Cons a r)
  have "eat_whitespace_eos_no_nl (concat (map (\<lambda>a. 32 # a) as)) = keyword_line a r"
    using plain_word_hd [of a] assms(1) Cons by (auto simp: eat_whitespace_eos_no_nl_def keyword_line_def)
  moreover have "is_c_str (keyword_line a r)"
    using words_chars [of r] assms(1) Cons by (auto simp: is_c_str_def keyword_line_def plain_word_def)
  ultimately show ?thesis using token_arguments_loop_words [of a r "[]"] assms Cons
    by (simp add: get_token_arguments_def c_str_id)
qed

text \<open>The text after the line holds no object: its next line is no begin line.\<close>

definition no_object_next :: "bytes \<Rightarrow> bool" where
  "no_object_next rest \<longleftrightarrow> strcmpstart (c_str (eat_whitespace_eos rest)) (lit ''-----BEGIN '') \<noteq> 0"

lemma get_next_token_line:
  fixes ops :: "'k pk_ops"
  assumes "plain_word kw" and "kw \<noteq> lit ''opt''" and "list_all plain_word as" and "length as \<le> 512"
    and "find_rule table kw = Some r" and "\<not> concat_args r" and "rule_os r = NO_OBJ"
    and "min_args r \<le> length as" and "length as \<le> max_args r"
    and "length (keyword_line kw as) \<le> MAX_LINE_LENGTH" and "no_object_next rest"
  shows "get_next_token ops table (keyword_line kw as @ 10 # rest) =
    Inr (\<lparr> tp = rule_v r, args = as, object_type = None, object_body = None, tok_key = None \<rparr>, eat_whitespace_eos rest)"
proof -
  let ?w = "concat (map (\<lambda>a. 32 # a) as)" and ?line = "keyword_line kw as"
  let ?tok = "\<lparr> tp = rule_v r, args = as, object_type = None, object_body = None, tok_key = None :: 'k option \<rparr>"
  have eat: "eat_whitespace_eos (?line @ 10 # rest) = ?line @ 10 # rest"
    using eat_whitespace_eos_word [OF assms(1)] by (simp add: keyword_line_def)
  have line: "takeWhile (\<lambda>c. c \<noteq> 10) (?line @ 10 # rest) = ?line"
  proof -
    have "10 \<notin> set ?line" using words_chars [OF assms(3)] assms(1) unfolding keyword_line_def plain_word_def set_append by blast
    then show ?thesis by (subst takeWhile_append2) auto
  qed
  have nxt: "find_whitespace_eos ?line = ?w"
    using find_whitespace_eos_word [OF assms(1), of ?w] by (cases as) (simp_all add: keyword_line_def)
  then have word: "take (length ?line - length (find_whitespace_eos ?line)) ?line = kw" by (simp add: keyword_line_def)
  have tl: "token_line table ?line kw = Inr (?tok, rule_t r, NO_OBJ)"
    using assms(5-9) keyword_line_arguments [OF assms(3,4)]
    by (simp add: token_line_def Let_def keyword_line_def)
  have "token_object ops (eat_whitespace_eos rest) ?tok NO_OBJ = Inr (?tok, eat_whitespace_eos rest)"
    using assms(11) by (simp add: token_object_def no_object_next_def Let_def)
  then show ?thesis using assms(2,10) tl line eat word
    by (simp add: get_next_token_def Let_def mem_eq_token_def token_check_object_def keyword_line_def [of kw as, symmetric])
qed

text \<open>C20: A line that a keyword and its arguments were written to (single spaces, words free of white space,
  \<^verbatim>\<open>#\<close> and NUL) is read back as a token with exactly that keyword and those arguments, and the
  tokenizer continues after it, whatever the rule table, as long as the rule admits the
  number of arguments and no object follows.\<close>

theorem get_next_token_roundtrip:
  assumes "plain_word kw" and "kw \<noteq> lit ''opt''" and "list_all plain_word as" and "length as \<le> 512"
    and "find_rule table kw = Some r" and "\<not> concat_args r" and "rule_os r = NO_OBJ"
    and "min_args r \<le> length as" and "length as \<le> max_args r"
    and "length (keyword_line kw as) \<le> MAX_LINE_LENGTH" and "no_object_next rest"
  shows "get_next_token ops table (keyword_line kw as @ 10 # rest) =
    Inr (\<lparr> tp = rule_v r, args = as, object_type = None, object_body = None, tok_key = None \<rparr>, eat_whitespace_eos rest)"
  by (rule get_next_token_line [OF assms])

text \<open>A small table and a set of key operations for the witnesses.\<close>

definition demo_table :: "token_rule list" where
  "demo_table = [T1 ''proof'' 7 (GE 2) NO_OBJ]"

definition demo_ops :: "unit pk_ops" where
  "demo_ops = \<lparr> asn1_decode = (\<lambda>_. None), num_bits = (\<lambda>_. 0), is_private = (\<lambda>_. False) \<rparr>"

theorem get_next_token_roundtrip_witness:
  "get_next_token demo_ops demo_table (keyword_line (lit ''proof'') [lit ''a'', lit ''bc''] @ 10 # []) =
    Inr (\<lparr> tp = 7, args = [lit ''a'', lit ''bc''], object_type = None, object_body = None, tok_key = None \<rparr>, [])"
  using get_next_token_roundtrip [of "lit ''proof''" "[lit ''a'', lit ''bc'']" demo_table "T1 ''proof'' 7 (GE 2) NO_OBJ" "[]" demo_ops]
  by (simp add: plain_word_def lit_def demo_table_def find_rule_def mem_eq_token_def T1_def GE_def keyword_line_def
      no_object_next_def c_str_def strcmpstart_def strncmp_def)

theorem tokenize_string_conforms_witness:
  "\<exists>toks first. tokenize_string demo_ops (keyword_line (lit ''proof'') [lit ''a'', lit ''bc''] @ [10]) True [] demo_table
      \<lparr> TS_ANNOTATIONS_OK = True, TS_NOCHECK = False, TS_NO_NEW_ANNOTATIONS = True \<rparr> = Inr toks \<and>
    (\<forall>t \<in> set toks. token_conforms demo_ops demo_table t) \<and> annotations_end toks first \<and> first = 0 \<and> rules_conform demo_table toks first"
proof -
  let ?toks = "[\<lparr> tp = 7, args = [lit ''a'', lit ''bc''], object_type = None, object_body = None, tok_key = None :: unit option \<rparr>]"
  let ?flags = "\<lparr> TS_ANNOTATIONS_OK = True, TS_NOCHECK = False, TS_NO_NEW_ANNOTATIONS = True \<rparr>"
  let ?doc = "keyword_line (lit ''proof'') [lit ''a'', lit ''bc''] @ [10]"
  have "get_next_token demo_ops demo_table ?doc = Inr (hd ?toks, [])"
    using get_next_token_line [of "lit ''proof''" "[lit ''a'', lit ''bc'']" demo_table "T1 ''proof'' 7 (GE 2) NO_OBJ" "[]" demo_ops]
    by (simp add: plain_word_def lit_def demo_table_def find_rule_def mem_eq_token_def T1_def GE_def keyword_line_def
      no_object_next_def c_str_def strcmpstart_def strncmp_def)
  moreover have "c_str ?doc = ?doc" "0 \<notin> set ?doc" "?doc \<noteq> []" by (simp_all add: c_str_def keyword_line_def lit_def)
  ultimately have t: "tokenize_string demo_ops ?doc True [] demo_table ?flags = Inr ?toks"
    by (simp add: tokenize_string_def tokenize_loop.simps check_annotations_def is_annotation_tp_def demo_table_def
        count_tp_def T1_def GE_def)
  from tokenize_string_conforms [OF t] obtain first where
    "\<forall>t \<in> set ?toks. token_conforms demo_ops demo_table t" "annotations_conform ?toks first 0 ?flags" "rules_conform demo_table ?toks first" by auto
  then show ?thesis using t by (intro exI [of _ ?toks] exI [of _ first]) (auto simp: annotations_conform_def)
qed

end
