(* ===== verification/Dittor_Gate.thy ===== *)
theory Dittor_Gate
  imports Tor_Tokenizer
begin

text \<open>
  Dittor's additions to Tor: the proof gate in \<^verbatim>\<open>router_parse_entry_from_string\<close>
  (\<^verbatim>\<open>feature/dirparse/routerparse.c\<close>), the loopback client \<^verbatim>\<open>dittorProxy\<close>
  (\<^verbatim>\<open>feature/dirparse/dittor_proxy.c\<close>) and the injection of the proof line into the relay's own
  descriptor (\<^verbatim>\<open>feature/relay/router.c\<close>).

  The sockets and the verification backend behind port 8081 are not part of the C program: they
  are the record \<open>dittor_net\<close>, an argument of every definition that talks to them.
\<close>

subsection \<open>The loopback client\<close>

text \<open>
  \<open>net_reply m\<close> is what \<^verbatim>\<open>read\<close> returns after \<open>m\<close> was sent: \<open>None\<close> for an error, \<open>Some []\<close> when the
  peer closed the connection, otherwise the bytes received.
\<close>

record dittor_net =
  net_socket :: bool
  net_inet_pton :: bool
  net_connect :: "nat \<Rightarrow> bool"
  net_reply :: "bytes \<Rightarrow> bytes option"

definition strcspn :: "bytes \<Rightarrow> bytes \<Rightarrow> nat" where
  "strcspn s reject = length (takeWhile (\<lambda>c. c \<notin> set reject) (c_str s))"

definition CRLF :: bytes where
  "CRLF = [13, 10]"

definition dittorProxy :: "dittor_net \<Rightarrow> nat \<Rightarrow> bytes \<Rightarrow> bytes option" where
  "dittorProxy net port message =
    (if \<not> net_socket net then None
     else if \<not> net_inet_pton net then None
     else if \<not> net_connect net port then None
     else case net_reply net (c_str message) of
       None \<Rightarrow> None
     | Some received \<Rightarrow>
         let received = take 2047 received
         in if length received > 0
            then let buffer = zero_padded 2048 received; buffer = buffer[strcspn buffer CRLF := 0]
                 in Some (c_str buffer)
            else None)"

subsection \<open>The gate\<close>

definition dittor_context :: bytes where
  "dittor_context = lit ''TorRelayConsensus2026''"

definition VALID :: bytes where
  "VALID = lit ''VALID''"

definition ADDED :: bytes where
  "ADDED = lit ''Added to Tor relay consensus directory.''"

text \<open>The text that \<^verbatim>\<open>snprintf\<close> formats, and what fits the buffer of 16384 bytes with its NUL.\<close>

definition validation_text :: "bytes list \<Rightarrow> bytes \<Rightarrow> bytes \<Rightarrow> bytes" where
  "validation_text as node_id_hex family_ids_str =
     lit ''VALIDATE '' @ join_text (take 8 as @ [node_id_hex, family_ids_str]) (lit ''|'') @ [10]"

definition validation_payload :: "bytes list \<Rightarrow> bytes \<Rightarrow> bytes \<Rightarrow> bytes" where
  "validation_payload as node_id_hex family_ids_str = take (16384 - 1) (validation_text as node_id_hex family_ids_str)"

definition family_ids_str :: "(nat \<Rightarrow> bytes) \<Rightarrow> bytes list option \<Rightarrow> bytes" where
  "family_ids_str fresh family_ids =
    (case family_ids of
       Some fids \<Rightarrow> if length fids > 0 then c_str (fst (smartlist_join_strings fresh fids (lit '','') False)) else lit ''-''
     | None \<Rightarrow> lit ''-'')"

datatype gate_result = Gate_Accept | Gate_Reject

text \<open>What the gate does with the answer of \<^verbatim>\<open>dittorProxy\<close>; the answer is stripped in its own buffer.\<close>

definition judge_response :: "bytes option \<Rightarrow> gate_result" where
  "judge_response verification_response =
    (case verification_response of
       Some r \<Rightarrow>
         let stripped = c_str (tor_strstrip (r @ [0]) (lit [CHR 0x0D, CHR 0x0A, CHR '' '']))
         in if strcmp stripped VALID = 0 \<or> strcmp stripped ADDED = 0 then Gate_Accept else Gate_Reject
     | None \<Rightarrow> Gate_Accept)"

definition dittor_gate ::
  "dittor_net \<Rightarrow> (nat \<Rightarrow> bytes) \<Rightarrow> 'k directory_token list \<Rightarrow> bytes \<Rightarrow> bytes list option \<Rightarrow> gate_result option" where
  "dittor_gate net fresh tokens identity_digest family_ids =
    (case find_opt_by_keyword tokens K_OPT_DITTOR_PROOF of
       Some tok \<Rightarrow>
         if length (args tok) \<ge> 8 \<and> strcmp (args tok ! 0) dittor_context = 0
         then do {
           node_id_hex \<leftarrow> base16_encode (HEX_DIGEST_LEN + 1) (take DIGEST_LEN identity_digest);
           let payload = validation_payload (args tok) (c_str node_id_hex) (family_ids_str fresh family_ids);
           Some (judge_response (dittorProxy net 8081 payload)) }
         else Some Gate_Reject
     | None \<Rightarrow> Some Gate_Reject)"

subsection \<open>Injection into the own descriptor\<close>

text \<open>\<^verbatim>\<open>fgets\<close> into a buffer of \<open>sz\<close> bytes: a line with its newline, or its first \<open>sz - 1\<close> bytes; \<open>None\<close> at the end of the file.\<close>

definition fgets :: "nat \<Rightarrow> bytes \<Rightarrow> bytes option" where
  "fgets sz file =
    (if file = [] then None
     else Some (take (sz - 1) (takeWhile (\<lambda>c. c \<noteq> 10) file @ take 1 (dropWhile (\<lambda>c. c \<noteq> 10) file))))"

text \<open>\<^verbatim>\<open>strncat\<close> appends at most \<open>n\<close> bytes of \<open>src\<close>.\<close>

definition strncat :: "bytes \<Rightarrow> bytes \<Rightarrow> nat \<Rightarrow> bytes" where
  "strncat dst src n = dst @ take n src"

text \<open>The chunk added to the descriptor, if any; \<open>proof_file\<close> is the content of \<^verbatim>\<open>dittor_proof.txt\<close>.\<close>

definition dittor_injection :: "bytes option \<Rightarrow> bytes option" where
  "dittor_injection proof_file =
    (case proof_file of
       None \<Rightarrow> None
     | Some file \<Rightarrow>
         (case fgets 16384 file of
            None \<Rightarrow> None
          | Some line \<Rightarrow>
              let proof_buf = c_str line; len = length proof_buf
              in Some (if len > 0 \<and> last proof_buf \<noteq> 10 then strncat proof_buf [10] (16384 - len - 1) else proof_buf)))"

subsection \<open>The verdict\<close>

lemma dittor_literals:
  "is_c_str dittor_context" "is_c_str VALID" "is_c_str ADDED"
  by (simp_all add: dittor_context_def VALID_def ADDED_def lit_def is_c_str_def)

lemma dittorProxy_c_str: "dittorProxy net port m = Some r \<Longrightarrow> is_c_str r"
  by (auto simp: dittorProxy_def Let_def is_c_str_c_str split: if_splits option.splits)

text \<open>The bytes that stay of an answer: \<^verbatim>\<open>tor_strstrip\<close> deletes every CR, LF and space, not only the outer ones.\<close>

definition squeeze :: "bytes \<Rightarrow> bytes" where
  "squeeze r = filter (\<lambda>c. c \<notin> {13, 10, 32}) r"

lemma squeeze_not_ADDED: "squeeze r \<noteq> ADDED"
proof
  assume "squeeze r = ADDED"
  moreover have "32 \<notin> set (squeeze r)" by (simp add: squeeze_def)
  moreover have "32 \<in> set ADDED" by (simp add: ADDED_def lit_def)
  ultimately show False by simp
qed

lemma judge_response_eq:
  assumes "\<And>r. resp = Some r \<Longrightarrow> is_c_str r"
  shows "judge_response resp = (if resp = None \<or> squeeze (the resp) = VALID then Gate_Accept else Gate_Reject)"
proof (cases resp)
  case None
  then show ?thesis by (simp add: judge_response_def)
next
  case (Some r)
  have "c_str (tor_strstrip (r @ [0]) (lit [CHR 0x0D, CHR 0x0A, CHR '' ''])) = squeeze r"
    using assms [OF Some] tor_strstrip_eq [of "r @ [0]" "lit [CHR 0x0D, CHR 0x0A, CHR '' '']"]
    by (simp add: c_str_append_NUL squeeze_def) (simp add: lit_def)
  moreover have "is_c_str (squeeze r)" using assms [OF Some] unfolding squeeze_def by (rule is_c_str_filter)
  ultimately show ?thesis using Some squeeze_not_ADDED [of r] dittor_literals
    by (simp add: judge_response_def Let_def strcmp_eq_0)
qed

definition node_hex :: "bytes \<Rightarrow> bytes" where
  "node_hex identity_digest = concat (map hex2 identity_digest)"

lemma dittor_gate_eq:
  assumes "length identity_digest = DIGEST_LEN" and "\<forall>t \<in> set tokens. list_all is_c_str (args t)"
  shows "dittor_gate net fresh tokens identity_digest fids = Some
    (case find_opt_by_keyword tokens K_OPT_DITTOR_PROOF of
       None \<Rightarrow> Gate_Reject
     | Some tok \<Rightarrow>
         if 8 \<le> length (args tok) \<and> args tok ! 0 = dittor_context
         then judge_response (dittorProxy net 8081 (validation_payload (args tok) (node_hex identity_digest) (family_ids_str fresh fids)))
         else Gate_Reject)"
proof (cases "find_opt_by_keyword tokens K_OPT_DITTOR_PROOF")
  case None
  then show ?thesis by (simp add: dittor_gate_def)
next
  case (Some tok)
  have tok: "tok \<in> set tokens" using Some by (induction tokens) (auto split: if_splits)
  have "list_all is_c_str (args tok)" using assms(2) tok by blast
  then have "8 \<le> length (args tok) \<Longrightarrow> is_c_str (args tok ! 0)" by (cases "args tok") auto
  moreover have "base16_encode (HEX_DIGEST_LEN + 1) identity_digest = Some (zero_padded 41 (node_hex identity_digest))"
    using assms(1) base16_encode_eq [of identity_digest 41] by (simp add: node_hex_def)
  moreover have "c_str (zero_padded 41 (node_hex identity_digest)) = node_hex identity_digest"
    using assms(1) unfolding node_hex_def
    by (intro c_str_zero_padded) (simp_all add: is_c_str_hex length_concat_hex2)
  ultimately show ?thesis using Some assms(1) dittor_literals(1)
    by (auto simp: dittor_gate_def strcmp_eq_0)
qed

subsection \<open>Arguments are C strings\<close>

lemma token_arguments_loop_c_str:
  "token_arguments_loop cp acc = Some as \<Longrightarrow> is_c_str cp \<Longrightarrow> list_all is_c_str acc \<Longrightarrow> list_all is_c_str as"
proof (induction cp acc rule: token_arguments_loop.induct)
  case (1 cp acc)
  let ?e = "find_whitespace cp" and ?a = "take (length cp - length (find_whitespace cp)) cp"
  have a: "is_c_str ?a" using "1.prems"(2) by (rule is_c_str_take)
  have sub: "set (eat_whitespace s) \<subseteq> set s" for s
    by (induction s rule: eat_whitespace.induct) (auto dest: set_dropWhileD)
  have "set ?e \<subseteq> set cp" by (auto simp: find_whitespace_def dest: set_dropWhileD)
  then have e: "is_c_str (eat_whitespace (tl ?e))"
    using sub [of "tl ?e"] "1.prems"(2) list.set_sel(2) [of ?e] unfolding is_c_str_def by (cases ?e) auto
  show ?case using "1.prems" "1.IH" [OF _ _ refl refl] a e
    by (auto simp: token_arguments_loop.simps [of cp acc] Let_def split: if_splits)
qed

lemma token_line_c_str:
  assumes "token_line table line word = Inr (tok, kwd, o_syn)"
  shows "list_all is_c_str (args tok)"
proof (cases "find_rule table word")
  case None
  then show ?thesis using assms by (auto simp: token_line_def is_c_str_c_str)
next
  case (Some r)
  let ?rest = "eat_whitespace_eos_no_nl (drop (length word) line)"
  have "get_token_arguments ?rest = Some as \<Longrightarrow> list_all is_c_str as" for as
    unfolding get_token_arguments_def by (erule token_arguments_loop_c_str) (simp_all add: is_c_str_c_str)
  then show ?thesis using Some assms
    by (auto simp: token_line_def Let_def is_c_str_c_str split: if_splits option.splits)
qed

lemma get_next_token_c_str:
  assumes "get_next_token ops table s = Inr (tok, rest)"
  shows "list_all is_c_str (args tok)"
proof -
  obtain line word t kwd o_syn after where l: "token_line table line word = Inr (t, kwd, o_syn)"
    and o: "token_object ops after t o_syn = Inr (tok, rest)"
    by (rule get_next_token_steps [OF assms])
  have "args tok = args t" using token_object_fields [OF o] by (rule conjunct2)
  then show ?thesis using token_line_c_str [OF l] by (simp only:)
qed

lemma tokenize_loop_c_str:
  "tokenize_loop ops table s eof out = Inr all \<Longrightarrow> \<forall>t \<in> set out. list_all is_c_str (args t) \<Longrightarrow>
   \<forall>t \<in> set all. list_all is_c_str (args t)"
proof (induction ops table s eof out rule: tokenize_loop.induct)
  case (1 ops table s eof out)
  note unfold = tokenize_loop.simps [of ops table s eof out]
  show ?case
  proof (cases "s \<noteq> [] \<and> \<not> eof")
    case False
    then show ?thesis using "1.prems" unfold by auto
  next
    case True
    then obtain tok rest where tok: "get_next_token ops table s = Inr (tok, rest)"
      using "1.prems"(1) unfold by (auto split: sum.splits)
    have "\<forall>t \<in> set (out @ [tok]). list_all is_c_str (args t)"
      using "1.prems"(2) get_next_token_c_str [OF tok] by simp
    moreover have "tokenize_loop ops table (eat_whitespace_eos rest) (tp tok = EOF_tok) (out @ [tok]) = Inr all"
      using "1.prems"(1) True tok unfold by simp
    ultimately show ?thesis by (rule "1.IH" [OF True tok refl, rotated])
  qed
qed

text \<open>A rule table whose only rule for the proof keyword is Dittor's: the one of router descriptors is.\<close>

definition dittor_rule :: token_rule where
  "dittor_rule = T01 ''dittor-proof'' K_OPT_DITTOR_PROOF (GE 8) NO_OBJ"

definition has_dittor_rule :: "token_rule list \<Rightarrow> bool" where
  "has_dittor_rule table \<longleftrightarrow> filter (\<lambda>r. rule_v r = K_OPT_DITTOR_PROOF) table = [dittor_rule]"

lemma has_dittor_ruleD:
  assumes "has_dittor_rule table"
  shows "r \<in> set table \<Longrightarrow> rule_v r = K_OPT_DITTOR_PROOF \<Longrightarrow> r = dittor_rule" and "dittor_rule \<in> set table"
proof -
  have "set (filter (\<lambda>r. rule_v r = K_OPT_DITTOR_PROOF) table) = {dittor_rule}"
    using assms by (simp add: has_dittor_rule_def)
  then show "r \<in> set table \<Longrightarrow> rule_v r = K_OPT_DITTOR_PROOF \<Longrightarrow> r = dittor_rule" "dittor_rule \<in> set table" by auto
qed

lemma routerdesc_has_dittor_rule: "has_dittor_rule routerdesc_token_table"
  by (simp add: has_dittor_rule_def dittor_rule_def routerdesc_token_table_def T0N_def T1_def T01_def T1_START_def T1_END_def A01_def GE_def EQ_def
      ARGS_def NO_ARGS_def CONCAT_ARGS_def)

lemma find_opt_filter: "find_opt_by_keyword s k = (case filter (\<lambda>t. tp t = k) s of [] \<Rightarrow> None | t # _ \<Rightarrow> Some t)"
  by (induction s) auto

text \<open>What the tokenizer guarantees of the proof token of a descriptor.\<close>

lemma dittor_proof_token:
  assumes "tokenize_string ops s bounded [] table flags = Inr toks" and "\<not> TS_NOCHECK flags" and "has_dittor_rule table"
  shows "find_opt_by_keyword toks K_OPT_DITTOR_PROOF = Some tok \<longleftrightarrow> filter (\<lambda>t. tp t = K_OPT_DITTOR_PROOF) toks = [tok]"
    and "t \<in> set toks \<Longrightarrow> tp t = K_OPT_DITTOR_PROOF \<Longrightarrow> 8 \<le> length (args t) \<and> object_body t = None \<and> tok_key t = None"
    and "t \<in> set toks \<Longrightarrow> list_all is_c_str (args t)"
proof -
  obtain all first where all: "tokenize_loop ops table (c_str s) False [] = Inr all"
    and rules: "check_rules all first table = Inr toks"
    using assms(1,2) by (auto simp: tokenize_string_def split: if_splits sum.splits)
  have eq: "toks = all" using check_rules_Inr [OF rules] by blast
  have "count_tp toks K_OPT_DITTOR_PROOF \<le> 1"
    using check_rules_Inr [OF rules] has_dittor_ruleD(2) [OF assms(3)] eq by (auto simp: dittor_rule_def T01_def GE_def)
  then show "find_opt_by_keyword toks K_OPT_DITTOR_PROOF = Some tok \<longleftrightarrow> filter (\<lambda>t. tp t = K_OPT_DITTOR_PROOF) toks = [tok]"
    by (auto simp: count_tp_def find_opt_filter split: list.splits)
  show "list_all is_c_str (args t)" if "t \<in> set toks" using that tokenize_loop_c_str [OF all] eq by simp
  show "8 \<le> length (args t) \<and> object_body t = None \<and> tok_key t = None"
    if t: "t \<in> set toks" and tp: "tp t = K_OPT_DITTOR_PROOF"
  proof -
    have "token_conforms ops table t" using t tokenize_loop_conforms [OF all] eq by auto
    then obtain r where "r \<in> set table" "rule_conforms ops r t"
      using tp by (auto simp: token_conforms_def)
    then show ?thesis using has_dittor_ruleD(1) [OF assms(3), of r] tp
      by (auto simp: rule_conforms_def object_conforms_def dittor_rule_def T01_def GE_def)
  qed
qed

text \<open>C1: The gate on a descriptor that the tokenizer accepted never aborts, and it accepts exactly
  when the descriptor holds one \<^verbatim>\<open>dittor-proof\<close> line whose first argument is the context and
  either the backend gave no answer or its answer without CR, LF and spaces is \<^verbatim>\<open>VALID\<close>. The
  message sent holds the eight arguments, the identity digest in hex and the family ids. The rule table
  is any whose only rule for the proof keyword is Dittor's, which the table of router descriptors is.\<close>

theorem dittor_gate_accepts_iff:
  assumes "tokenize_string ops s bounded [] table flags = Inr toks" and "\<not> TS_NOCHECK flags"
    and "has_dittor_rule table" and "length identity_digest = DIGEST_LEN"
  shows "has_dittor_rule routerdesc_token_table \<and> dittor_gate net fresh toks identity_digest fids \<noteq> None \<and>
    (dittor_gate net fresh toks identity_digest fids = Some Gate_Accept \<longleftrightarrow>
      (\<exists>tok. filter (\<lambda>t. tp t = K_OPT_DITTOR_PROOF) toks = [tok] \<and> 8 \<le> length (args tok) \<and> object_body tok = None \<and>
         args tok ! 0 = dittor_context \<and>
         (case dittorProxy net 8081 (validation_payload (args tok) (node_hex identity_digest) (family_ids_str fresh fids)) of
            None \<Rightarrow> True | Some r \<Rightarrow> squeeze r = VALID)))"
proof -
  have args: "\<forall>t \<in> set toks. list_all is_c_str (args t)"
    using dittor_proof_token(3) [OF assms(1-3)] by simp
  note gate = dittor_gate_eq [OF assms(4) args, where net = net and fresh = fresh and fids = fids]
  show ?thesis
  proof (cases "find_opt_by_keyword toks K_OPT_DITTOR_PROOF")
    case None
    then have "filter (\<lambda>t. tp t = K_OPT_DITTOR_PROOF) toks = []" by (simp add: find_opt_filter split: list.splits)
    then show ?thesis using gate None routerdesc_has_dittor_rule by simp
  next
    case (Some tok)
    then have f: "filter (\<lambda>t. tp t = K_OPT_DITTOR_PROOF) toks = [tok]" using dittor_proof_token(1) [OF assms(1-3)] by blast
    then have "tok \<in> set (filter (\<lambda>t. tp t = K_OPT_DITTOR_PROOF) toks)" by simp
    then have "tok \<in> set toks" "tp tok = K_OPT_DITTOR_PROOF" by simp_all
    then have "8 \<le> length (args tok) \<and> object_body tok = None" using dittor_proof_token(2) [OF assms(1-3)] by blast
    then show ?thesis using gate Some f routerdesc_has_dittor_rule judge_response_eq [OF dittorProxy_c_str] by (auto split: option.splits)
  qed
qed

subsection \<open>The message to the backend\<close>

lemma is_c_str_join_text: "is_c_str (join_text strs sep) \<longleftrightarrow> list_all is_c_str strs \<and> (length strs > 1 \<longrightarrow> is_c_str sep)"
  by (induction strs) (auto simp: c_string_simps)

lemma set_join_text: "set (join_text strs sep) \<subseteq> \<Union> (set ` set strs) \<union> set sep"
  by (induction strs) auto

lemma set_join_text_sup: "s \<in> set strs \<Longrightarrow> set s \<subseteq> set (join_text strs sep)"
  by (induction strs rule: induct_list012) auto

lemma join_text_split: "\<exists>parts. parts \<noteq> [] \<and> join_text parts [c] = s \<and> (\<forall>p \<in> set parts. c \<notin> set p)"
proof (induction s)
  case Nil
  then show ?case by (intro exI [of _ "[[]]"]) simp
next
  case (Cons a s)
  then obtain p ps where s: "join_text (p # ps) [c] = s" "\<forall>q \<in> set (p # ps). c \<notin> set q" by (metis neq_Nil_conv)
  show ?case
  proof (cases "a = c")
    case True
    then show ?thesis using s by (intro exI [of _ "[] # p # ps"]) simp
  next
    case False
    then show ?thesis using s by (intro exI [of _ "(a # p) # ps"]) (cases ps, auto)
  qed
qed

lemma count_join_text: "strs \<noteq> [] \<Longrightarrow> Suc (count_list (join_text strs [c]) c) = length strs + sum_list (map (\<lambda>f. count_list f c) strs)"
  by (induction strs rule: induct_list012) auto

text \<open>C17: A validation message that fits the buffer of 16384 bytes arrives whole, whatever the C strings in its fields are: it is the command
  word, a body and one newline. The body is a single line exactly if no field holds a newline, as is the case for the words of a line. Nothing is
  escaped: splitting the body at \<^verbatim>\<open>|\<close> gives ten parts and one more for every \<^verbatim>\<open>|\<close> inside of a field. So it gives back the eight arguments
  of the proof, the node id and the family ids exactly if no field holds a \<^verbatim>\<open>|\<close>, and exactly then there are ten parts, the
  number that the backend asks for.\<close>

theorem validation_payload_roundtrip:
  assumes "length as \<ge> 8" and "\<forall>f \<in> set (take 8 as @ [node_id, fam]). is_c_str f" and "length (validation_text as node_id fam) < 16384"
  shows "\<exists>body parts. c_str (validation_payload as node_id fam) = lit ''VALIDATE '' @ body @ [10] \<and>
    (10 \<notin> set body \<longleftrightarrow> (\<forall>f \<in> set (take 8 as @ [node_id, fam]). 10 \<notin> set f)) \<and>
    smartlist_split_string body (Some [124]) no_split_flags 0 = Some parts \<and>
    length parts = 10 + sum_list (map (\<lambda>f. count_list f 124) (take 8 as @ [node_id, fam])) \<and>
    (parts = take 8 as @ [node_id, fam] \<longleftrightarrow> (\<forall>f \<in> set (take 8 as @ [node_id, fam]). 124 \<notin> set f)) \<and>
    (length parts = 10 \<longleftrightarrow> parts = take 8 as @ [node_id, fam])"
proof -
  let ?fs = "take 8 as @ [node_id, fam]"
  define body where "body = join_text ?fs [124]"
  have c: "is_c_str body" using assms(2) by (auto simp: body_def is_c_str_join_text list_all_iff c_string_simps)
  then have "is_c_str (lit ''VALIDATE '' @ body @ [10])" by (simp add: c_string_simps lit_def)
  moreover have "validation_payload as node_id fam = lit ''VALIDATE '' @ body @ [10]"
    using assms(3) by (simp add: validation_payload_def validation_text_def body_def lit_def)
  ultimately have payload: "c_str (validation_payload as node_id fam) = lit ''VALIDATE '' @ body @ [10]" by (simp only: c_str_id)
  have nl: "10 \<notin> set body \<longleftrightarrow> (\<forall>f \<in> set ?fs. 10 \<notin> set f)"
    using set_join_text [of ?fs "[124]"] set_join_text_sup [of _ ?fs "[124]"] unfolding body_def by auto
  obtain parts where p: "parts \<noteq> []" "join_text parts [124] = body" "\<forall>q \<in> set parts. 124 \<notin> set q"
    using join_text_split [of 124 body] by blast
  have split: "smartlist_split_string body (Some [124]) no_split_flags 0 = Some parts"
    using split_loop_join [of parts 124 0] p c by (simp add: smartlist_split_string_def)
  have "map (\<lambda>q. count_list q 124) parts = map (\<lambda>q. 0) parts" using p(3) by (intro map_cong) (auto simp: count_list_0_iff)
  then have len: "length parts = 10 + sum_list (map (\<lambda>f. count_list f 124) ?fs)"
    using count_join_text [OF p(1), of 124] count_join_text [of ?fs 124] p(2) assms(1) by (simp add: body_def)
  have bars: "sum_list (map (\<lambda>f. count_list f 124) ?fs) = 0 \<longleftrightarrow> (\<forall>f \<in> set ?fs. 124 \<notin> set f)"
    by (simp only: sum_list_eq_0_iff) (auto simp: count_list_0_iff)
  have fields: "parts = ?fs \<longleftrightarrow> (\<forall>f \<in> set ?fs. 124 \<notin> set f)"
  proof
    assume "\<forall>f \<in> set ?fs. 124 \<notin> set f"
    then have "smartlist_split_string body (Some [124]) no_split_flags 0 = Some ?fs"
      using split_loop_join [of ?fs 124 0] c by (simp add: smartlist_split_string_def body_def)
    then show "parts = ?fs" using split by simp
  qed (use p(3) in blast)
  have "length parts = 10 \<longleftrightarrow> sum_list (map (\<lambda>f. count_list f 124) ?fs) = 0" using len by linarith
  then have "length parts = 10 \<longleftrightarrow> parts = ?fs" unfolding bars fields .
  then show ?thesis using payload nl split len fields by blast
qed

theorem validation_payload_roundtrip_witness:
  "(\<exists>body. c_str (validation_payload [lit ''a'', lit ''b'', lit ''c'', lit ''d'', lit ''e'', lit ''f'', lit ''g'', lit ''h''] (lit ''CD'') (lit ''-'')) = lit ''VALIDATE '' @ body @ [10] \<and>
    10 \<notin> set body \<and>
    smartlist_split_string body (Some [124]) no_split_flags 0 = Some (take 8 [lit ''a'', lit ''b'', lit ''c'', lit ''d'', lit ''e'', lit ''f'', lit ''g'', lit ''h''] @ [lit ''CD'', lit ''-''])) \<and>
   (\<exists>body parts. c_str (validation_payload [lit ''a|b'', lit ''b'', lit ''c'', lit ''d'', lit ''e'', lit ''f'', lit ''g'', lit ''h''] (lit ''CD'') (lit ''-'')) = lit ''VALIDATE '' @ body @ [10] \<and>
    smartlist_split_string body (Some [124]) no_split_flags 0 = Some parts \<and> length parts = 11)"
proof
  let ?as = "[lit ''a'', lit ''b'', lit ''c'', lit ''d'', lit ''e'', lit ''f'', lit ''g'', lit ''h'']"
    and ?bs = "[lit ''a|b'', lit ''b'', lit ''c'', lit ''d'', lit ''e'', lit ''f'', lit ''g'', lit ''h'']"
  have as: "length (validation_text ?as (lit ''CD'') (lit ''-'')) < 16384" "\<forall>f \<in> set (take 8 ?as @ [lit ''CD'', lit ''-'']). is_c_str f"
    and bs: "length (validation_text ?bs (lit ''CD'') (lit ''-'')) < 16384" "\<forall>f \<in> set (take 8 ?bs @ [lit ''CD'', lit ''-'']). is_c_str f"
    by (simp_all add: validation_text_def lit_def is_c_str_def)
  have plain: "\<forall>f \<in> set (take 8 ?as @ [lit ''CD'', lit ''-'']). 124 \<notin> set f" "\<forall>f \<in> set (take 8 ?as @ [lit ''CD'', lit ''-'']). 10 \<notin> set f"
    by (simp_all add: lit_def)
  from validation_payload_roundtrip [OF _ as(2,1)] plain
  show "\<exists>body. c_str (validation_payload ?as (lit ''CD'') (lit ''-'')) = lit ''VALIDATE '' @ body @ [10] \<and> 10 \<notin> set body \<and>
      smartlist_split_string body (Some [124]) no_split_flags 0 = Some (take 8 ?as @ [lit ''CD'', lit ''-''])" by force
  have "sum_list (map (\<lambda>f. count_list f 124) (take 8 ?bs @ [lit ''CD'', lit ''-''])) = 1" by (simp add: lit_def)
  with validation_payload_roundtrip [OF _ bs(2,1)]
  show "\<exists>body parts. c_str (validation_payload ?bs (lit ''CD'') (lit ''-'')) = lit ''VALIDATE '' @ body @ [10] \<and>
      smartlist_split_string body (Some [124]) no_split_flags 0 = Some parts \<and> length parts = 11" by force
qed

subsection \<open>Paths around the gate\<close>

lemma c_str_take_notin: "c \<notin> set t \<Longrightarrow> c \<notin> set (c_str (take k t))"
  by (auto simp: c_str_def dest: set_takeWhileD in_set_takeD)

text \<open>Accepting without an answer, for tokens with C string arguments.\<close>

lemma dittor_gate_no_answer:
  assumes "length identity_digest = DIGEST_LEN" and "\<forall>t \<in> set tokens. list_all is_c_str (args t)"
    and "find_opt_by_keyword tokens K_OPT_DITTOR_PROOF = Some tok" and "8 \<le> length (args tok)" and "args tok ! 0 = dittor_context"
    and "dittorProxy net 8081 (validation_payload (args tok) (node_hex identity_digest) (family_ids_str fresh fids)) = None"
  shows "dittor_gate net fresh tokens identity_digest fids = Some Gate_Accept"
  using dittor_gate_eq [OF assms(1,2), of net fresh fids] assms(3-6) by (simp add: judge_response_def)

text \<open>C18: A backend that accepts a descriptor with the sentence \<^verbatim>\<open>Added to Tor relay consensus directory.\<close>
  is misread: the gate deletes the spaces of the answer before it compares, so it rejects every
  descriptor to which that sentence is the answer, although it compares with that sentence.\<close>

theorem dittor_gate_rejects_added:
  assumes "length identity_digest = DIGEST_LEN" and "\<forall>t \<in> set toks. list_all is_c_str (args t)" and "net_socket net" and "net_inet_pton net" and "net_connect net 8081"
    and "\<And>m. net_reply net m = Some (ADDED @ [10])"
  shows "dittor_gate net fresh toks identity_digest fids = Some Gate_Reject"
proof -
  have proxy: "dittorProxy net 8081 m = Some ADDED" for m
  proof -
    let ?b = "zero_padded 2048 (ADDED @ [10])"
    have "c_str ?b = ADDED @ [10]" by (rule c_str_zero_padded) (simp_all add: dittor_literals c_string_simps, simp add: ADDED_def lit_def)
    moreover have "set ADDED \<inter> {13, 10} = {}" by (simp add: ADDED_def lit_def)
    ultimately have "strcspn ?b CRLF = length ADDED"
      by (simp add: strcspn_def CRLF_def) (subst takeWhile_append2, auto)
    then have "?b[strcspn ?b CRLF := 0] = ADDED @ 0 # replicate (2048 - length (ADDED @ [10])) 0"
      by (simp add: zero_padded_def list_update_append)
    moreover have "length (ADDED @ [10]) \<le> 2047" by (simp add: ADDED_def lit_def)
    ultimately show ?thesis using assms(3-6) dittor_literals(3)
      by (simp add: dittorProxy_def Let_def c_str_append_NUL)
  qed
  have "judge_response (Some ADDED) = Gate_Reject"
    using judge_response_eq [of "Some ADDED"] dittor_literals(3) by (simp add: squeeze_def ADDED_def VALID_def lit_def)
  then show ?thesis using dittor_gate_eq [OF assms(1,2), of net fresh fids] proxy by (simp split: option.splits)
qed

text \<open>A validation text of 16384 bytes or more is cut by \<^verbatim>\<open>snprintf\<close> and sent without its newline. To a
  backend that answers lines only, that is no request: it sends nothing back before the connection
  ends, and the gate then accepts the descriptor, whatever its proof is.\<close>

theorem dittor_gate_overlong_accepted:
  assumes "length identity_digest = DIGEST_LEN" and "\<forall>t \<in> set toks. list_all is_c_str (args t)"
    and "find_opt_by_keyword toks K_OPT_DITTOR_PROOF = Some tok"
    and "8 \<le> length (args tok)" and "args tok ! 0 = dittor_context" and "\<forall>a \<in> set (take 8 (args tok)). 10 \<notin> set a" and "10 \<notin> set (family_ids_str fresh fids)"
    and "length (validation_text (args tok) (node_hex identity_digest) (family_ids_str fresh fids)) \<ge> 16384"
    and lines_only: "\<And>m. 10 \<notin> set m \<Longrightarrow> net_reply net m \<in> {None, Some []}"
  shows "dittor_gate net fresh toks identity_digest fids = Some Gate_Accept"
proof -
  let ?fs = "take 8 (args tok) @ [node_hex identity_digest, family_ids_str fresh fids]"
  let ?m = "validation_payload (args tok) (node_hex identity_digest) (family_ids_str fresh fids)"
  have hex: "10 \<notin> set (node_hex identity_digest)"
    using hex_text_chars [of 10 identity_digest] by (auto simp: node_hex_def)
  have "10 \<notin> set (join_text ?fs (lit ''|''))"
    using set_join_text [of ?fs "lit ''|''"] assms(6,7) hex by (auto simp: lit_def)
  then have no: "10 \<notin> set (lit ''VALIDATE '' @ join_text ?fs (lit ''|''))" by (simp add: lit_def)
  have m: "?m = take 16383 (lit ''VALIDATE '' @ join_text ?fs (lit ''|''))"
    using assms(8) by (simp add: validation_payload_def validation_text_def)
  have "10 \<notin> set (c_str ?m)" unfolding m using no by (rule c_str_take_notin)
  then have "dittorProxy net 8081 ?m = None" using lines_only [of "c_str ?m"] by (auto simp: dittorProxy_def Let_def)
  then show ?thesis by (rule dittor_gate_no_answer [OF assms(1-5)])
qed

subsection \<open>The injected line\<close>

lemma dittor_injection_eq:
  assumes "is_c_str line" and "10 \<notin> set line" and "line \<noteq> []" and "rest = [] \<or> hd rest = 10"
  shows "dittor_injection (Some (line @ rest)) = Some (if length line \<le> 16382 then line @ [10] else take 16383 line)"
proof -
  have tw: "takeWhile (\<lambda>c. c \<noteq> 10) (line @ rest) = line" using assms(2,4)
    by (subst takeWhile_append2) (auto, cases rest, auto)
  have dw: "dropWhile (\<lambda>c. c \<noteq> 10) (line @ rest) = rest" using assms(2,4)
    by (subst dropWhile_append2) (auto, cases rest, auto)
  have f: "fgets 16384 (line @ rest) = Some (take 16383 (line @ take 1 rest))"
    using assms(3) by (simp add: fgets_def tw dw)
  have "take 1 rest = [] \<or> take 1 rest = [10]" using assms(4) by (cases rest) auto
  moreover have "is_c_str (take 16383 (line @ take 1 rest))"
    using assms(1) calculation by (intro is_c_str_take) (auto simp: c_string_simps)
  moreover have "last l \<noteq> 10" if "l \<noteq> []" "set l \<subseteq> set line" for l
    using that assms(2) last_in_set [of l] by (metis subsetD)
  then have "last line \<noteq> 10" "last (take 16383 line) \<noteq> 10" using assms(3) set_take_subset [of 16383 line] by simp_all
  ultimately show ?thesis using assms(1,3) f
    by (auto simp: dittor_injection_def c_str_id Let_def strncat_def)
qed

text \<open>The first line of the proof file enters the descriptor with exactly one newline when it is at
  most 16382 bytes long, whether or not the file has one; of a longer line the first 16383 bytes
  enter, without a newline, so that the next chunk of the descriptor continues the proof line.\<close>

theorem dittor_injection_line:
  assumes "is_c_str line" and "10 \<notin> set line" and "line \<noteq> []" and "rest = [] \<or> hd rest = 10"
  shows "dittor_injection (Some (line @ rest)) = Some (if length line \<le> 16382 then line @ [10] else take 16383 line)"
  using assms by (rule dittor_injection_eq)

theorem dittor_injection_line_witness:
  "dittor_injection (Some (lit ''dittor-proof x'' @ [])) =
     Some (if length (lit ''dittor-proof x'') \<le> 16382 then lit ''dittor-proof x'' @ [10] else take 16383 (lit ''dittor-proof x''))"
  by (rule dittor_injection_line) (simp_all add: lit_def is_c_str_def)

lemma keyword_line_chars: "plain_word kw \<Longrightarrow> list_all plain_word as \<Longrightarrow> set (keyword_line kw as) \<inter> {0, 10} = {}"
  using words_chars [of as] unfolding keyword_line_def plain_word_def by auto

lemma plain_word_c_str: "plain_word w \<Longrightarrow> is_c_str w"
  by (auto simp: plain_word_def is_c_str_def)

lemma find_dittor_rule: "find_rule routerdesc_token_table (lit ''dittor-proof'') = Some dittor_rule"
  by (simp add: find_rule_def mem_eq_token_def routerdesc_token_table_def dittor_rule_def T0N_def T1_def T01_def T1_START_def
      T1_END_def A01_def GE_def EQ_def ARGS_def NO_ARGS_def CONCAT_ARGS_def lit_def)

text \<open>C2: From the relay's proof file to the backend: a file with a \<^verbatim>\<open>dittor-proof\<close> line of at least eight
  plain words is injected as that line, the tokenizer reads it back as the proof token with exactly
  those words, and the gate of the directory that parses the descriptor decides by the backend's
  answer to those words, the relay's identity and its family ids.\<close>

theorem injected_proof_reaches_backend:
  fixes ops :: "'k pk_ops"
  assumes "list_all plain_word as" and "8 \<le> length as" and "length as \<le> 512" and "as ! 0 = dittor_context"
    and "length (keyword_line (lit ''dittor-proof'') as) \<le> 16382" and "nl = [] \<or> hd nl = 10" and "no_object_next rest"
    and "length identity_digest = DIGEST_LEN" and "\<forall>t \<in> set pre. tp t \<noteq> K_OPT_DITTOR_PROOF"
    and "\<forall>t \<in> set (pre @ post). list_all is_c_str (args t)"
  shows "\<exists>chunk tok. dittor_injection (Some (keyword_line (lit ''dittor-proof'') as @ nl)) = Some chunk \<and>
    get_next_token ops routerdesc_token_table (chunk @ rest) = Inr (tok, eat_whitespace_eos rest) \<and>
    dittor_gate net fresh (pre @ tok # post) identity_digest fids =
      Some (judge_response (dittorProxy net 8081 (validation_payload as (node_hex identity_digest) (family_ids_str fresh fids))))"
proof (intro exI conjI)
  let ?l = "keyword_line (lit ''dittor-proof'') as"
  let ?tok = "\<lparr> tp = K_OPT_DITTOR_PROOF, args = as, object_type = None, object_body = None, tok_key = None :: 'k option \<rparr>"
  have kw: "plain_word (lit ''dittor-proof'')" "lit ''dittor-proof'' \<noteq> lit ''opt''" by (simp_all add: plain_word_def lit_def)
  have "is_c_str ?l" "10 \<notin> set ?l" "?l \<noteq> []"
    using keyword_line_chars [OF kw(1) assms(1)] by (auto simp: is_c_str_def) (simp add: keyword_line_def lit_def)
  then show "dittor_injection (Some (?l @ nl)) = Some (?l @ [10])"
    using dittor_injection_eq [of ?l nl] assms(5,6) by simp
  have "length ?l \<le> MAX_LINE_LENGTH" using assms(5) by simp
  moreover have r: "\<not> concat_args dittor_rule" "rule_os dittor_rule = NO_OBJ" "min_args dittor_rule \<le> length as"
    "length as \<le> max_args dittor_rule" "rule_v dittor_rule = K_OPT_DITTOR_PROOF"
    using assms(2,3) by (simp_all add: dittor_rule_def T01_def GE_def)
  ultimately show "get_next_token ops routerdesc_token_table ((?l @ [10]) @ rest) = Inr (?tok, eat_whitespace_eos rest)"
    using get_next_token_line [OF kw assms(1,3) find_dittor_rule r(1-4) _ assms(7)] by simp
  have "\<forall>t \<in> set (pre @ ?tok # post). list_all is_c_str (args t)"
    using assms(1,10) plain_word_c_str by (auto simp: list_all_iff)
  moreover have "find_opt_by_keyword (pre @ ?tok # post) K_OPT_DITTOR_PROOF = Some ?tok"
    using assms(9) by (induction pre) auto
  ultimately show "dittor_gate net fresh (pre @ ?tok # post) identity_digest fids =
      Some (judge_response (dittorProxy net 8081 (validation_payload as (node_hex identity_digest) (family_ids_str fresh fids))))"
    using dittor_gate_eq [OF assms(8), of "pre @ ?tok # post" net fresh fids] assms(2,4) by simp
qed

subsection \<open>Witnesses\<close>

text \<open>
  A backend that knows one proof, one that answers with the sentence, and one that reads lines; a proof
  token and a table with Dittor's rule only.
\<close>

definition demo_proof :: "bytes list" where
  "demo_proof = [dittor_context, lit ''pk'', lit ''nym'', lit ''zkp'', lit ''g1x'', lit ''cred'', lit ''c'', lit ''r'']"

definition demo_net :: "(bytes \<Rightarrow> bytes option) \<Rightarrow> dittor_net" where
  "demo_net reply = \<lparr> net_socket = True, net_inet_pton = True, net_connect = (\<lambda>port. port = 8081), net_reply = reply \<rparr>"

definition demo_token :: "bytes list \<Rightarrow> unit directory_token" where
  "demo_token as = \<lparr> tp = K_OPT_DITTOR_PROOF, args = as, object_type = None, object_body = None, tok_key = None \<rparr>"

lemma demo_proof_words:
  "list_all plain_word demo_proof" "length demo_proof = 8" "demo_proof ! 0 = dittor_context"
  "length (keyword_line (lit ''dittor-proof'') demo_proof) \<le> 16382"
  by (simp_all add: demo_proof_def plain_word_def dittor_context_def lit_def keyword_line_def)

theorem injected_proof_reaches_backend_witness:
  "\<exists>chunk tok. dittor_injection (Some (keyword_line (lit ''dittor-proof'') demo_proof @ [])) = Some chunk \<and>
    get_next_token demo_ops routerdesc_token_table (chunk @ []) = Inr (tok, eat_whitespace_eos []) \<and>
    dittor_gate (demo_net (\<lambda>_. None)) (\<lambda>n. replicate n 7) ([] @ tok # []) (replicate 20 1) None =
      Some (judge_response (dittorProxy (demo_net (\<lambda>_. None)) 8081
        (validation_payload demo_proof (node_hex (replicate 20 1)) (family_ids_str (\<lambda>n. replicate n 7) None))))"
  using demo_proof_words
  by (intro injected_proof_reaches_backend) (simp_all add: no_object_next_def c_str_def strcmpstart_def strncmp_def lit_def)

theorem dittor_gate_rejects_added_witness:
  "dittor_gate (demo_net (\<lambda>_. Some (ADDED @ [10]))) (\<lambda>n. replicate n 7) [demo_token demo_proof] (replicate 20 1) None =
    Some Gate_Reject"
  by (rule dittor_gate_rejects_added)
    (use demo_proof_words(1) plain_word_c_str in \<open>auto simp: demo_net_def demo_token_def list_all_iff\<close>)

theorem dittor_gate_overlong_accepted_witness:
  "dittor_gate (demo_net (\<lambda>m. if 10 \<in> set m then Some (lit ''INVALID'') else Some [])) (\<lambda>n. replicate n 7)
     [demo_token demo_proof] (replicate 20 1) (Some [replicate 16384 65]) = Some Gate_Accept"
proof (rule dittor_gate_overlong_accepted)
  let ?f = "family_ids_str (\<lambda>n. replicate n 7) (Some [replicate 16384 65])"
  have f: "?f = replicate 16384 65"
    using join_strings_eq [of "\<lambda>n. replicate n 7" "[replicate 16384 65]" "lit '',''" False]
    by (simp add: family_ids_str_def c_str_append_NUL is_c_str_def)
  show "10 \<notin> set ?f" unfolding f by simp
  have "length (join_text (xs @ [h, f]) s) \<ge> length f" for xs h f s by (induction xs) auto
  from this [of "replicate 16384 65" "take 8 (args (demo_token demo_proof))" "node_hex (replicate 20 1)" "lit ''|''"]
  show "16384 \<le> length (validation_text (args (demo_token demo_proof)) (node_hex (replicate 20 1)) ?f)"
    unfolding f validation_text_def length_append length_replicate by linarith
qed (use demo_proof_words plain_word_c_str in \<open>auto simp: demo_net_def demo_token_def list_all_iff plain_word_def\<close>)

theorem dittor_gate_accepts_iff_witness:
  "\<exists>s toks. tokenize_string demo_ops s True [] [dittor_rule]
      \<lparr> TS_ANNOTATIONS_OK = False, TS_NOCHECK = False, TS_NO_NEW_ANNOTATIONS = False \<rparr> = Inr toks \<and>
    has_dittor_rule routerdesc_token_table \<and>
    dittor_gate (demo_net (\<lambda>_. None)) (\<lambda>n. replicate n 7) toks (replicate 20 1) None = Some Gate_Accept"
proof (intro exI conjI)
  let ?flags = "\<lparr> TS_ANNOTATIONS_OK = False, TS_NOCHECK = False, TS_NO_NEW_ANNOTATIONS = False \<rparr>"
  let ?doc = "keyword_line (lit ''dittor-proof'') demo_proof @ [10]"
  have kw: "plain_word (lit ''dittor-proof'')" "lit ''dittor-proof'' \<noteq> lit ''opt''" by (simp_all add: plain_word_def lit_def)
  have r: "find_rule [dittor_rule] (lit ''dittor-proof'') = Some dittor_rule"
    by (simp add: find_rule_def mem_eq_token_def dittor_rule_def T01_def GE_def)
  have "no_object_next []" by (simp add: no_object_next_def c_str_def strcmpstart_def strncmp_def lit_def)
  then have "get_next_token demo_ops [dittor_rule] ?doc = Inr (demo_token demo_proof, [])"
    using get_next_token_line [OF kw demo_proof_words(1) _ r, of "[]" demo_ops] demo_proof_words
    by (simp add: dittor_rule_def T01_def GE_def demo_token_def)
  moreover have doc: "c_str ?doc = ?doc" "0 \<notin> set ?doc" "?doc \<noteq> []"
    using keyword_line_chars [OF kw(1) demo_proof_words(1)] by (auto simp: c_str_id is_c_str_def)
  ultimately show tok: "tokenize_string demo_ops ?doc True [] [dittor_rule] ?flags = Inr [demo_token demo_proof]"
    by (simp add: tokenize_string_def tokenize_loop.simps check_annotations_def is_annotation_tp_def
        count_tp_def dittor_rule_def T01_def GE_def demo_token_def)
  have "has_dittor_rule [dittor_rule]" by (simp add: has_dittor_rule_def dittor_rule_def T01_def GE_def)
  note gate = dittor_gate_accepts_iff [OF tok _ this, of "replicate 20 1" "demo_net (\<lambda>_. None)" "\<lambda>n. replicate n 7" None]
  show "has_dittor_rule routerdesc_token_table" using gate by simp
  show "dittor_gate (demo_net (\<lambda>_. None)) (\<lambda>n. replicate n 7) [demo_token demo_proof] (replicate 20 1) None = Some Gate_Accept"
    using gate demo_proof_words(2,3) by (simp add: demo_token_def dittorProxy_def demo_net_def)
qed

end
