(* ===== verification/Tor_Pqueue.thy ===== *)
theory Tor_Pqueue
  imports Tor_Prelude
begin

text \<open>
  The heap-based priority queue of \<^verbatim>\<open>lib/container/smartlist.c\<close>. The queue is the list of the used
  entries of its smartlist, together with the \<^verbatim>\<open>int\<close> field at \<^verbatim>\<open>idx_field_offset\<close> of every item,
  in which the queue keeps the item's position (\<open>pq_idx\<close>). Items are pointers, so two entries with
  the same value are the same item.
\<close>

record 'a pqueue =
  pq_list :: "'a list"
  pq_idx :: "'a \<Rightarrow> int"

subsection \<open>Operations\<close>

definition MAX_PARENT_IDX :: nat where
  "MAX_PARENT_IDX = (INT_MAX - 2) div 2"

definition IDX_MAY_HAVE_CHILDREN :: "nat \<Rightarrow> bool" where
  "IDX_MAY_HAVE_CHILDREN i \<longleftrightarrow> i \<le> MAX_PARENT_IDX"

definition LEFT_CHILD :: "nat \<Rightarrow> nat" where
  "LEFT_CHILD i = 2 * i + 1"

definition PARENT :: "nat \<Rightarrow> nat" where
  "PARENT i = (i - 1) div 2"

definition UPDATE_IDX :: "nat \<Rightarrow> 'a pqueue \<Rightarrow> 'a pqueue" where
  "UPDATE_IDX i sl = sl\<lparr> pq_idx := (pq_idx sl)(pq_list sl ! i := int i) \<rparr>"

text \<open>Exchange of two entries, after which both index fields are set.\<close>

definition swap_entries :: "nat \<Rightarrow> nat \<Rightarrow> 'a pqueue \<Rightarrow> 'a pqueue" where
  "swap_entries i j sl =
    (let l = pq_list sl; tmp = l ! i
     in UPDATE_IDX j (UPDATE_IDX i (sl\<lparr> pq_list := l[i := l ! j, j := tmp] \<rparr>)))"

lemma length_swap_entries [simp]: "length (pq_list (swap_entries i j sl)) = length (pq_list sl)"
  by (simp add: swap_entries_def UPDATE_IDX_def Let_def)

text \<open>\<open>best_idx\<close>: the position of the smallest of an entry and its children.\<close>

definition best_idx :: "('a \<Rightarrow> 'a \<Rightarrow> int) \<Rightarrow> 'a list \<Rightarrow> nat \<Rightarrow> nat" where
  "best_idx compare l idx =
    (let left_idx = LEFT_CHILD idx;
         best = (if compare (l ! idx) (l ! left_idx) < 0 then idx else left_idx)
     in if left_idx + 1 < length l \<and> compare (l ! (left_idx + 1)) (l ! best) < 0 then left_idx + 1 else best)"

lemma best_idx_cases:
  "best_idx compare l idx = idx \<or> best_idx compare l idx = LEFT_CHILD idx \<or>
   best_idx compare l idx = LEFT_CHILD idx + 1 \<and> LEFT_CHILD idx + 1 < length l"
  by (auto simp: best_idx_def Let_def)

function smartlist_heapify :: "('a \<Rightarrow> 'a \<Rightarrow> int) \<Rightarrow> 'a pqueue \<Rightarrow> nat \<Rightarrow> 'a pqueue" where
  "smartlist_heapify compare sl idx =
    (if \<not> IDX_MAY_HAVE_CHILDREN idx then sl
     else if LEFT_CHILD idx \<ge> length (pq_list sl) then sl
     else let best = best_idx compare (pq_list sl) idx
          in if best = idx then sl else smartlist_heapify compare (swap_entries idx best sl) best)"
  by pat_completeness auto
termination
proof (relation "measure (\<lambda>(compare, sl, idx). length (pq_list sl) - idx)", simp, goal_cases)
  case (1 compare sl idx best)
  then show ?case using best_idx_cases [of compare "pq_list sl" idx] by (auto simp: LEFT_CHILD_def)
qed

declare smartlist_heapify.simps [simp del]

text \<open>The loop of \<^verbatim>\<open>smartlist_pqueue_add\<close>.\<close>

function sift_up :: "('a \<Rightarrow> 'a \<Rightarrow> int) \<Rightarrow> 'a pqueue \<Rightarrow> nat \<Rightarrow> 'a pqueue" where
  "sift_up compare sl idx =
    (if idx = 0 then sl
     else let parent = PARENT idx
          in if compare (pq_list sl ! idx) (pq_list sl ! parent) < 0
             then sift_up compare (swap_entries parent idx sl) parent else sl)"
  by pat_completeness auto
termination
  by (relation "measure (\<lambda>(compare, sl, idx). idx)") (auto simp: PARENT_def)

declare sift_up.simps [simp del]

definition smartlist_pqueue_add :: "('a \<Rightarrow> 'a \<Rightarrow> int) \<Rightarrow> 'a pqueue \<Rightarrow> 'a \<Rightarrow> 'a pqueue" where
  "smartlist_pqueue_add compare sl item =
    (let sl = sl\<lparr> pq_list := pq_list sl @ [item] \<rparr>; n = length (pq_list sl)
     in sift_up compare (UPDATE_IDX (n - 1) sl) (n - 1))"

definition smartlist_pqueue_pop :: "('a \<Rightarrow> 'a \<Rightarrow> int) \<Rightarrow> 'a pqueue \<Rightarrow> ('a \<times> 'a pqueue) option" where
  "smartlist_pqueue_pop compare sl = do {
     tor_assert (length (pq_list sl) \<noteq> 0);
     let top = pq_list sl ! 0;
     let n = length (pq_list sl) - 1;
     let lst = pq_list sl ! n;
     let sl = sl\<lparr> pq_list := take n (pq_list sl), pq_idx := (pq_idx sl)(top := -1) \<rparr>;
     Some (top, if n \<noteq> 0
                then smartlist_heapify compare (UPDATE_IDX 0 (sl\<lparr> pq_list := (pq_list sl)[0 := lst] \<rparr>)) 0
                else sl) }"

text \<open>An index at or past \<^verbatim>\<open>num_used\<close> leads to a \<^verbatim>\<open>NULL\<close> entry, which is not the item.\<close>

definition smartlist_pqueue_remove :: "('a \<Rightarrow> 'a \<Rightarrow> int) \<Rightarrow> 'a pqueue \<Rightarrow> 'a \<Rightarrow> 'a pqueue option" where
  "smartlist_pqueue_remove compare sl item = do {
     tor_assert (pq_idx sl item \<ge> 0);
     let idx = nat (pq_idx sl item);
     tor_assert (idx < length (pq_list sl) \<and> pq_list sl ! idx = item);
     let n = length (pq_list sl) - 1;
     let lst = pq_list sl ! n;
     let sl = sl\<lparr> pq_list := take n (pq_list sl), pq_idx := (pq_idx sl)(item := -1) \<rparr>;
     Some (if idx = n then sl
           else smartlist_heapify compare (UPDATE_IDX idx (sl\<lparr> pq_list := (pq_list sl)[idx := lst] \<rparr>)) idx) }"

text \<open>The loop runs from the last entry down; the order of the assertions does not matter to the result.\<close>

definition smartlist_pqueue_assert_ok :: "('a \<Rightarrow> 'a \<Rightarrow> int) \<Rightarrow> 'a pqueue \<Rightarrow> unit option" where
  "smartlist_pqueue_assert_ok compare sl =
    foldr (\<lambda>i rest. do { rest;
       (if i > 0 then tor_assert (compare (pq_list sl ! PARENT i) (pq_list sl ! i) \<le> 0) else Some ());
       tor_assert (pq_idx sl (pq_list sl ! i) = int i) }) [0..<length (pq_list sl)] (Some ())"

subsection \<open>The interface\<close>

locale priority_queue =
  fixes invar :: "'q \<Rightarrow> bool" and elems :: "'q \<Rightarrow> 'a multiset" and insert_q :: "'q \<Rightarrow> 'a \<Rightarrow> 'q"
    and pop_q :: "'q \<Rightarrow> ('a \<times> 'q) option" and key :: "'a \<Rightarrow> 'k :: linorder" and cap :: nat
  assumes insert_q: "invar q \<Longrightarrow> x \<notin># elems q \<Longrightarrow> size (elems q) < cap \<Longrightarrow>
      invar (insert_q q x) \<and> elems (insert_q q x) = add_mset x (elems q)"
    and pop_q: "invar q \<Longrightarrow> elems q \<noteq> {#} \<Longrightarrow>
      \<exists>x q'. pop_q q = Some (x, q') \<and> invar q' \<and> elems q = add_mset x (elems q') \<and> (\<forall>y. y \<in># elems q \<longrightarrow> key x \<le> key y)"
begin

primrec drain :: "nat \<Rightarrow> 'q \<Rightarrow> ('a list \<times> 'q) option" where
  "drain 0 q = Some ([], q)"
| "drain (Suc n) q = do { (x, q) \<leftarrow> pop_q q; (xs, q) \<leftarrow> drain n q; Some (x # xs, q) }"

lemma drain_sorts:
  "invar q \<Longrightarrow> size (elems q) = n \<Longrightarrow>
   \<exists>xs q'. drain n q = Some (xs, q') \<and> invar q' \<and> mset xs = elems q \<and> sorted (map key xs)"
proof (induction n arbitrary: q)
  case (Suc n)
  then have "elems q \<noteq> {#}" by auto
  then obtain x q1 where x: "pop_q q = Some (x, q1)" "invar q1" "elems q = add_mset x (elems q1)"
    "\<forall>y. y \<in># elems q \<longrightarrow> key x \<le> key y"
    using pop_q [OF Suc.prems(1)] by blast
  then obtain xs q' where "drain n q1 = Some (xs, q')" "invar q'" "mset xs = elems q1" "sorted (map key xs)"
    using Suc.IH [of q1] Suc.prems(2) by auto
  moreover have "\<forall>y \<in> set xs. key x \<le> key y"
    using x(3,4) calculation(3) by (metis insert_noteq_member insertCI set_mset_add_mset_insert set_mset_mset)
  ultimately show ?case using x by auto
qed simp

lemma insert_all:
  "invar q \<Longrightarrow> distinct xs \<Longrightarrow> (\<forall>x. x \<in> set xs \<longrightarrow> x \<notin># elems q) \<Longrightarrow> size (elems q) + length xs \<le> cap \<Longrightarrow>
   invar (foldl insert_q q xs) \<and> elems (foldl insert_q q xs) = elems q + mset xs"
proof (induction xs arbitrary: q)
  case (Cons x xs)
  then have "invar (insert_q q x)" "elems (insert_q q x) = add_mset x (elems q)" using insert_q [of q x] by auto
  then show ?case using Cons.IH [of "insert_q q x"] Cons.prems by auto
qed simp

end

subsection \<open>Index fields\<close>

definition idx_ok :: "'a pqueue \<Rightarrow> bool" where
  "idx_ok sl \<longleftrightarrow> (\<forall>i < length (pq_list sl). pq_idx sl (pq_list sl ! i) = int i)"

lemma idx_ok_distinct: "idx_ok sl \<Longrightarrow> distinct (pq_list sl)"
  unfolding idx_ok_def distinct_conv_nth by (metis of_nat_eq_iff)

text \<open>What an internal rearrangement keeps: the items, the agreement of the index fields, and the fields of all other items.\<close>

definition rearranged :: "'a pqueue \<Rightarrow> 'a pqueue \<Rightarrow> bool" where
  "rearranged sl sl' \<longleftrightarrow> mset (pq_list sl') = mset (pq_list sl) \<and> (idx_ok sl \<longrightarrow> idx_ok sl') \<and>
     (\<forall>x. x \<notin> set (pq_list sl) \<longrightarrow> pq_idx sl' x = pq_idx sl x)"

lemma rearranged_refl: "rearranged sl sl"
  by (simp add: rearranged_def)

lemma rearranged_trans: "rearranged a b \<Longrightarrow> rearranged b c \<Longrightarrow> rearranged a c"
  unfolding rearranged_def by (metis set_mset_mset)

lemma rearranged_length: "rearranged a b \<Longrightarrow> length (pq_list b) = length (pq_list a)"
  unfolding rearranged_def by (metis size_mset)

lemma pq_list_swap: "pq_list (swap_entries i j sl) = (pq_list sl)[i := pq_list sl ! j, j := pq_list sl ! i]"
  by (simp add: swap_entries_def UPDATE_IDX_def Let_def)

lemma swap_entries_rearranged:
  assumes "i < length (pq_list sl)" and "j < length (pq_list sl)"
  shows "rearranged sl (swap_entries i j sl)"
proof -
  let ?l = "pq_list sl" and ?s = "swap_entries i j sl"
  have idx: "pq_idx ?s = (pq_idx sl)(?l ! j := int i, ?l ! i := int j)" if "i \<noteq> j"
    using assms that by (simp add: swap_entries_def UPDATE_IDX_def Let_def)
  have inj: "idx_ok sl \<Longrightarrow> k < length ?l \<Longrightarrow> m < length ?l \<Longrightarrow> ?l ! k = ?l ! m \<longleftrightarrow> k = m" for k m
    by (simp add: idx_ok_distinct nth_eq_iff_index_eq)
  have "idx_ok ?s" if ok: "idx_ok sl"
  proof (cases "i = j")
    case True
    then show ?thesis using ok assms inj by (auto simp: idx_ok_def swap_entries_def UPDATE_IDX_def Let_def)
  next
    case False
    then show ?thesis using ok assms idx inj by (auto simp: idx_ok_def pq_list_swap nth_list_update)
  qed
  moreover have "pq_idx ?s x = pq_idx sl x" if "x \<notin> set ?l" for x
    using that assms nth_mem by (fastforce simp: swap_entries_def UPDATE_IDX_def Let_def nth_list_update)
  moreover have "mset (pq_list ?s) = mset ?l" using assms by (simp add: pq_list_swap mset_swap)
  ultimately show ?thesis by (simp add: rearranged_def)
qed

lemma best_idx_less:
  "LEFT_CHILD idx < length l \<Longrightarrow> best_idx compare l idx < length l"
  using best_idx_cases [of compare l idx] by (auto simp: LEFT_CHILD_def)

lemma best_idx_child:
  assumes "best_idx compare l idx \<noteq> idx" and "LEFT_CHILD idx < length l"
  shows "best_idx compare l idx < length l" and "0 < best_idx compare l idx"
    and "PARENT (best_idx compare l idx) = idx" and "idx < best_idx compare l idx"
proof -
  obtain b where b: "b = best_idx compare l idx" by simp
  have "b = LEFT_CHILD idx \<or> b = LEFT_CHILD idx + 1" using assms(1) best_idx_cases [of compare l idx] b by auto
  then have "0 < b" "PARENT b = idx" "idx < b" by (auto simp: LEFT_CHILD_def PARENT_def)
  then show "best_idx compare l idx < length l" "0 < best_idx compare l idx"
    "PARENT (best_idx compare l idx) = idx" "idx < best_idx compare l idx"
    using best_idx_less [OF assms(2)] b by simp_all
qed

lemma heapify_rearranged: "rearranged sl (smartlist_heapify compare sl idx)"
proof (induction compare sl idx rule: smartlist_heapify.induct)
  case (1 compare sl idx)
  let ?b = "best_idx compare (pq_list sl) idx"
  show ?case
  proof (cases "IDX_MAY_HAVE_CHILDREN idx \<and> LEFT_CHILD idx < length (pq_list sl) \<and> ?b \<noteq> idx")
    case True
    then have "rearranged sl (swap_entries idx ?b sl)"
      using best_idx_less by (intro swap_entries_rearranged) (auto simp: LEFT_CHILD_def)
    then show ?thesis using True 1 rearranged_trans
      by (subst smartlist_heapify.simps) (auto simp: Let_def not_le)
  qed (auto simp: smartlist_heapify.simps [of compare sl idx] Let_def rearranged_refl)
qed

lemma sift_up_rearranged: "idx < length (pq_list sl) \<Longrightarrow> rearranged sl (sift_up compare sl idx)"
proof (induction compare sl idx rule: sift_up.induct)
  case (1 compare sl idx)
  show ?case
  proof (cases "idx \<noteq> 0 \<and> compare (pq_list sl ! idx) (pq_list sl ! PARENT idx) < 0")
    case True
    have p: "PARENT idx < length (pq_list sl)" using "1.prems" by (simp add: PARENT_def)
    then have "rearranged sl (swap_entries (PARENT idx) idx sl)" using "1.prems" by (intro swap_entries_rearranged)
    then show ?thesis using True 1 p rearranged_trans by (subst sift_up.simps) (auto simp: Let_def)
  qed (auto simp: sift_up.simps [of compare sl idx] Let_def rearranged_refl)
qed

subsection \<open>The heap property\<close>

lemma PARENT_iff: "0 < i \<Longrightarrow> PARENT i = k \<longleftrightarrow> i = LEFT_CHILD k \<or> i = LEFT_CHILD k + 1"
  unfolding PARENT_def LEFT_CHILD_def by linarith

lemma PARENT_less: "0 < i \<Longrightarrow> PARENT i < i"
  by (simp add: PARENT_def)

definition heap_except :: "('a \<Rightarrow> 'k :: linorder) \<Rightarrow> 'a list \<Rightarrow> (nat \<Rightarrow> bool) \<Rightarrow> bool" where
  "heap_except key l bad \<longleftrightarrow> (\<forall>i. 0 < i \<and> i < length l \<and> \<not> bad i \<longrightarrow> key (l ! PARENT i) \<le> key (l ! i))"

abbreviation is_heap :: "('a \<Rightarrow> 'k :: linorder) \<Rightarrow> 'a list \<Rightarrow> bool" where
  "is_heap key l \<equiv> heap_except key l (\<lambda>_. False)"

text \<open>The children of \<open>idx\<close> are not below its parent.\<close>

definition grandchildren_ok :: "('a \<Rightarrow> 'k :: linorder) \<Rightarrow> 'a list \<Rightarrow> nat \<Rightarrow> bool" where
  "grandchildren_ok key l idx \<longleftrightarrow> (\<forall>i. 0 < i \<and> i < length l \<and> PARENT i = idx \<and> 0 < idx \<longrightarrow> key (l ! PARENT idx) \<le> key (l ! i))"

text \<open>The one violation a sift-down starts from: \<open>idx\<close> may be above its children.\<close>

definition down_ok :: "('a \<Rightarrow> 'k :: linorder) \<Rightarrow> 'a list \<Rightarrow> nat \<Rightarrow> bool" where
  "down_ok key l idx \<longleftrightarrow> heap_except key l (\<lambda>i. PARENT i = idx) \<and> grandchildren_ok key l idx"

text \<open>The one violation a sift-up starts from: \<open>idx\<close> may be below its parent.\<close>

definition up_ok :: "('a \<Rightarrow> 'k :: linorder) \<Rightarrow> 'a list \<Rightarrow> nat \<Rightarrow> bool" where
  "up_ok key l idx \<longleftrightarrow> heap_except key l (\<lambda>i. i = idx) \<and> grandchildren_ok key l idx"

lemma is_heap_root:
  "is_heap key l \<Longrightarrow> i < length l \<Longrightarrow> key (l ! 0) \<le> key (l ! i)"
proof (induction i rule: less_induct)
  case (less i)
  show ?case
  proof (cases "i = 0")
    case False
    then have "key (l ! PARENT i) \<le> key (l ! i)" using less.prems by (simp add: heap_except_def)
    moreover have "key (l ! 0) \<le> key (l ! PARENT i)" using less False PARENT_less [of i] by simp
    ultimately show ?thesis by simp
  qed simp
qed

lemma down_swap:
  assumes "down_ok key l idx" and "b < length l" and "0 < b" and "PARENT b = idx" and "key (l ! b) \<le> key (l ! idx)"
    and "\<And>c. 0 < c \<Longrightarrow> c < length l \<Longrightarrow> PARENT c = idx \<Longrightarrow> key (l ! b) \<le> key (l ! c)"
  shows "down_ok key (l[idx := l ! b, b := l ! idx]) b"
proof -
  let ?l = "l[idx := l ! b, b := l ! idx]"
  have ib: "idx < b" using PARENT_less [OF assms(3)] assms(4) by simp
  have nth: "?l ! i = (if i = b then l ! idx else if i = idx then l ! b else l ! i)" if "i < length l" for i
    using that assms(2) ib by (simp add: nth_list_update)
  have 1: "heap_except key l (\<lambda>i. PARENT i = idx)" and 2: "grandchildren_ok key l idx"
    using assms(1) by (simp_all add: down_ok_def)
  have "key (?l ! PARENT i) \<le> key (?l ! i)" if i: "0 < i" "i < length l" "PARENT i \<noteq> b" for i
  proof -
    have p: "PARENT i < i" by (rule PARENT_less [OF i(1)])
    consider "i = b" | "i \<noteq> b" "PARENT i = idx" | "i = idx" | "i \<noteq> b" "i \<noteq> idx" "PARENT i \<noteq> idx" by blast
    then show ?thesis
    proof cases
      case 3
      then show ?thesis using nth [of i] nth [of "PARENT i"] i p ib 2 assms(2-4) by (simp add: grandchildren_ok_def)
    next
      case 4
      then show ?thesis using nth [of i] nth [of "PARENT i"] i p 1 by (simp add: heap_except_def)
    qed (use nth [of i] nth [of "PARENT i"] i p assms(4-6) ib in auto)
  qed
  moreover have "key (?l ! PARENT b) \<le> key (?l ! i)" if i: "0 < i" "i < length l" "PARENT i = b" for i
  proof -
    have "b < i" using PARENT_less [OF i(1)] i(3) by simp
    then have "?l ! i = l ! i" "?l ! PARENT b = l ! b" using nth i ib assms(4) by simp_all
    then show ?thesis using 1 i ib by (auto simp: heap_except_def)
  qed
  ultimately show ?thesis by (auto simp: down_ok_def heap_except_def grandchildren_ok_def)
qed

lemma up_swap:
  assumes "up_ok key l idx" and "idx < length l" and "0 < idx" and "key (l ! idx) \<le> key (l ! PARENT idx)"
  shows "up_ok key (l[PARENT idx := l ! idx, idx := l ! PARENT idx]) (PARENT idx)"
proof -
  define p where "p = PARENT idx"
  let ?l = "l[p := l ! idx, idx := l ! p]"
  have pi: "p < idx" using PARENT_less [OF assms(3)] by (simp add: p_def)
  have nth: "?l ! i = (if i = idx then l ! p else if i = p then l ! idx else l ! i)" if "i < length l" for i
    using that assms(2) pi by (simp add: nth_list_update)
  have 1: "heap_except key l (\<lambda>i. i = idx)" and 2: "grandchildren_ok key l idx"
    using assms(1) by (simp_all add: up_ok_def)
  have le: "key (l ! idx) \<le> key (l ! p)" using assms(4) by (simp add: p_def)
  have "key (?l ! PARENT i) \<le> key (?l ! i)" if i: "0 < i" "i < length l" "i \<noteq> p" for i
  proof -
    have pa: "PARENT i < i" by (rule PARENT_less [OF i(1)])
    have h: "i \<noteq> idx \<Longrightarrow> key (l ! PARENT i) \<le> key (l ! i)" using 1 i by (simp add: heap_except_def)
    consider "i = idx" | "i \<noteq> idx" "PARENT i = idx" | "i \<noteq> idx" "PARENT i = p" | "i \<noteq> idx" "PARENT i \<noteq> idx" "PARENT i \<noteq> p" by blast
    then show ?thesis
    proof cases
      case 1
      then show ?thesis using nth [of i] nth [of p] i pi le by (simp add: p_def [symmetric])
    next
      case 2
      then show ?thesis using nth [of i] nth [of "PARENT i"] i pa \<open>grandchildren_ok key l idx\<close> assms(3)
        by (simp add: grandchildren_ok_def p_def)
    next
      case 3
      then show ?thesis using nth [of i] nth [of "PARENT i"] i pa h le pi by simp
    next
      case 4
      then show ?thesis using nth [of i] nth [of "PARENT i"] i pa h by simp
    qed
  qed
  moreover have "key (?l ! PARENT p) \<le> key (?l ! i)" if i: "0 < i" "i < length l" "PARENT i = p" "0 < p" for i
  proof -
    have pp: "PARENT p < p" by (rule PARENT_less [OF i(4)])
    have "p < length l" using pi assms(2) by simp
    then have k: "key (l ! PARENT p) \<le> key (l ! p)" using 1 i(4) pi by (simp add: heap_except_def)
    have "i \<noteq> idx \<Longrightarrow> key (l ! p) \<le> key (l ! i)" using 1 i by (auto simp: heap_except_def)
    then show ?thesis using nth [of i] nth [of "PARENT p"] i pi pp k PARENT_less [OF i(1)] assms(2) by auto
  qed
  ultimately show ?thesis by (auto simp: up_ok_def heap_except_def grandchildren_ok_def p_def [symmetric])
qed

subsection \<open>The operations keep the heap property\<close>

text \<open>A comparison function that orders the items by a key.\<close>

locale item_order =
  fixes compare :: "'a \<Rightarrow> 'a \<Rightarrow> int" and key :: "'a \<Rightarrow> 'k :: linorder"
  assumes compare_less: "compare a b < 0 \<longleftrightarrow> key a < key b" and compare_le: "compare a b \<le> 0 \<longleftrightarrow> key a \<le> key b"
begin

definition pq_ok :: "'a pqueue \<Rightarrow> bool" where
  "pq_ok sl \<longleftrightarrow> idx_ok sl \<and> is_heap key (pq_list sl) \<and> length (pq_list sl) \<le> INT_MAX"

lemma best_idx_min:
  assumes "LEFT_CHILD idx < length l"
  shows "key (l ! best_idx compare l idx) \<le> key (l ! idx)"
    and "0 < c \<Longrightarrow> c < length l \<Longrightarrow> PARENT c = idx \<Longrightarrow> key (l ! best_idx compare l idx) \<le> key (l ! c)"
  using assms by (auto simp: best_idx_def Let_def compare_less PARENT_iff not_less)

lemma heapify_heap:
  "down_ok key (pq_list sl) idx \<Longrightarrow> length (pq_list sl) \<le> INT_MAX \<Longrightarrow> is_heap key (pq_list (smartlist_heapify compare sl idx))"
proof (induction "length (pq_list sl) - idx" arbitrary: sl idx rule: less_induct)
  case less
  let ?l = "pq_list sl" and ?b = "best_idx compare (pq_list sl) idx"
  note unfold = smartlist_heapify.simps [of compare sl idx]
  show ?case
  proof (cases "LEFT_CHILD idx < length ?l")
    case False
    have "PARENT i \<noteq> idx" if "0 < i" "i < length ?l" for i using False that by (auto simp: PARENT_iff)
    then have "is_heap key ?l" using less.prems(1) unfolding down_ok_def heap_except_def by blast
    then show ?thesis using False by (simp add: unfold Let_def)
  next
    case left: True
    then have may: "IDX_MAY_HAVE_CHILDREN idx"
      using less.prems(2) by (simp add: IDX_MAY_HAVE_CHILDREN_def MAX_PARENT_IDX_def LEFT_CHILD_def)
    show ?thesis
    proof (cases "?b = idx")
      case True
      then have "is_heap key ?l" using less.prems(1) best_idx_min(2) [OF left] unfolding down_ok_def heap_except_def by metis
      then show ?thesis using left may True by (simp add: unfold Let_def)
    next
      case False
      have b: "?b < length ?l" "0 < ?b" "PARENT ?b = idx" "idx < ?b"
        using False left by (rule best_idx_child)+
      have "down_ok key (pq_list (swap_entries idx ?b sl)) ?b" unfolding pq_list_swap
        by (rule down_swap [OF less.prems(1) b(1-3) best_idx_min(1) [OF left]]) (rule best_idx_min(2) [OF left])
      then have "is_heap key (pq_list (smartlist_heapify compare (swap_entries idx ?b sl) ?b))"
        using less.prems(2) b(1,4) by (intro less.hyps) simp_all
      then show ?thesis using left may False by (simp add: unfold Let_def)
    qed
  qed
qed

lemma sift_up_heap:
  "up_ok key (pq_list sl) idx \<Longrightarrow> idx < length (pq_list sl) \<Longrightarrow> is_heap key (pq_list (sift_up compare sl idx))"
proof (induction idx arbitrary: sl rule: less_induct)
  case (less idx)
  let ?l = "pq_list sl" and ?p = "PARENT idx"
  note unfold = sift_up.simps [of compare sl idx]
  consider "idx = 0" | "0 < idx" "key (?l ! idx) < key (?l ! ?p)" | "0 < idx" "key (?l ! ?p) \<le> key (?l ! idx)" by fastforce
  then show ?case
  proof cases
    case 1
    then show ?thesis using less.prems by (simp add: sift_up.simps [of compare sl 0] up_ok_def heap_except_def)
  next
    case 2
    then have "up_ok key (pq_list (swap_entries ?p idx sl)) ?p"
      using up_swap [OF less.prems] by (simp add: pq_list_swap)
    then show ?thesis using 2 less.IH [of ?p "swap_entries ?p idx sl"] less.prems(2) PARENT_less [of idx]
      by (simp add: unfold compare_less Let_def)
  qed (use less.prems in \<open>auto simp: unfold compare_less Let_def up_ok_def heap_except_def\<close>)
qed

lemma add_ok:
  assumes "pq_ok sl" and "item \<notin> set (pq_list sl)" and "length (pq_list sl) < INT_MAX"
  shows "pq_ok (smartlist_pqueue_add compare sl item)"
    and "mset (pq_list (smartlist_pqueue_add compare sl item)) = add_mset item (mset (pq_list sl))"
    and "x \<noteq> item \<Longrightarrow> x \<notin> set (pq_list sl) \<Longrightarrow> pq_idx (smartlist_pqueue_add compare sl item) x = pq_idx sl x"
proof -
  let ?n = "length (pq_list sl)"
  let ?s = "UPDATE_IDX ?n (sl\<lparr> pq_list := pq_list sl @ [item] \<rparr>)"
  have l: "pq_list ?s = pq_list sl @ [item]" "pq_idx ?s = (pq_idx sl)(item := int ?n)" by (simp_all add: UPDATE_IDX_def)
  have add: "smartlist_pqueue_add compare sl item = sift_up compare ?s ?n" by (simp add: smartlist_pqueue_add_def Let_def)
  have re: "rearranged ?s (sift_up compare ?s ?n)" by (rule sift_up_rearranged) (simp add: l)
  have "idx_ok ?s" using assms(1,2) unfolding pq_ok_def idx_ok_def l
    by (auto simp: nth_append less_Suc_eq)
  then have "idx_ok (sift_up compare ?s ?n)" using re by (simp add: rearranged_def)
  moreover have "up_ok key (pq_list ?s) ?n"
  proof -
    have pl: "PARENT i < ?n" if "0 < i" "i < Suc ?n" for i using PARENT_less [OF that(1)] that(2) by simp
    have "key ((pq_list sl @ [item]) ! PARENT i) \<le> key ((pq_list sl @ [item]) ! i)" if "0 < i" "i < Suc ?n" "i \<noteq> ?n" for i
      using that pl [of i] assms(1) by (simp add: nth_append pq_ok_def heap_except_def)
    moreover have "PARENT i \<noteq> ?n" if "0 < i" "i < Suc ?n" for i using pl [OF that] by simp
    ultimately show ?thesis unfolding up_ok_def heap_except_def grandchildren_ok_def l by auto
  qed
  then have "is_heap key (pq_list (sift_up compare ?s ?n))" by (rule sift_up_heap) (simp add: l)
  ultimately show "pq_ok (smartlist_pqueue_add compare sl item)"
    using rearranged_length [OF re] assms(3) by (simp add: pq_ok_def add l)
  show "mset (pq_list (smartlist_pqueue_add compare sl item)) = add_mset item (mset (pq_list sl))"
    using re by (simp add: add rearranged_def l)
  show "x \<noteq> item \<Longrightarrow> x \<notin> set (pq_list sl) \<Longrightarrow> pq_idx (smartlist_pqueue_add compare sl item) x = pq_idx sl x"
    using re by (simp add: add rearranged_def l)
qed

end

text \<open>
  Taking an entry out by moving the last one into its place, shared by popping and removing:
  \<open>vacate idx sl\<close> is the queue from which the sift-down starts.
\<close>

definition vacate :: "nat \<Rightarrow> 'a pqueue \<Rightarrow> 'a pqueue" where
  "vacate idx sl =
    (let n = length (pq_list sl) - 1;
         sl' = sl\<lparr> pq_list := take n (pq_list sl), pq_idx := (pq_idx sl)(pq_list sl ! idx := -1) \<rparr>
     in if idx = n then sl' else UPDATE_IDX idx (sl'\<lparr> pq_list := (take n (pq_list sl))[idx := pq_list sl ! n] \<rparr>))"

lemma vacate_entries:
  assumes "idx_ok sl" and "idx < length (pq_list sl)"
  shows "idx_ok (vacate idx sl)" and "add_mset (pq_list sl ! idx) (mset (pq_list (vacate idx sl))) = mset (pq_list sl)"
    and "pq_idx (vacate idx sl) (pq_list sl ! idx) = -1"
    and "length (pq_list (vacate idx sl)) = length (pq_list sl) - 1"
    and "i < length (pq_list sl) - 1 \<Longrightarrow> pq_list (vacate idx sl) ! i = (if i = idx then last (pq_list sl) else pq_list sl ! i)"
proof -
  obtain xs z where l: "pq_list sl = xs @ [z]" using assms(2) by (cases "pq_list sl" rule: rev_exhaust) auto
  then have d: "distinct (xs @ [z])" using idx_ok_distinct [OF assms(1)] by simp
  have ix: "i < Suc (length xs) \<Longrightarrow> pq_idx sl ((xs @ [z]) ! i) = int i" for i using assms(1) by (simp add: idx_ok_def l)
  have inj: "i < length xs \<Longrightarrow> j < length xs \<Longrightarrow> xs ! i = xs ! j \<longleftrightarrow> i = j" for i j using d by (simp add: nth_eq_iff_index_eq)
  have z: "i < length xs \<Longrightarrow> xs ! i \<noteq> z" for i using d by auto
  have ixs: "i < length xs \<Longrightarrow> pq_idx sl (xs ! i) = int i" for i using ix [of i] by (simp add: nth_append)
  have le: "idx = length xs \<or> idx < length xs" using assms(2) l by auto
  show "idx_ok (vacate idx sl)" "pq_idx (vacate idx sl) (pq_list sl ! idx) = -1"
    "length (pq_list (vacate idx sl)) = length (pq_list sl) - 1"
    "i < length (pq_list sl) - 1 \<Longrightarrow> pq_list (vacate idx sl) ! i = (if i = idx then last (pq_list sl) else pq_list sl ! i)"
    using le ixs inj z by (auto simp: vacate_def idx_ok_def UPDATE_IDX_def Let_def l nth_append nth_list_update)
  show "add_mset (pq_list sl ! idx) (mset (pq_list (vacate idx sl))) = mset (pq_list sl)"
    using le by (auto simp: vacate_def UPDATE_IDX_def Let_def l nth_append mset_update)
qed

lemma pop_vacate:
  assumes "pq_list sl \<noteq> []"
  shows "smartlist_pqueue_pop compare sl =
    Some (pq_list sl ! 0, if length (pq_list sl) = 1 then vacate 0 sl else smartlist_heapify compare (vacate 0 sl) 0)"
  using assms by (cases "pq_list sl") (auto simp: smartlist_pqueue_pop_def vacate_def Let_def)

lemma remove_vacate:
  assumes "idx_ok sl" and "idx < length (pq_list sl)"
  shows "smartlist_pqueue_remove compare sl (pq_list sl ! idx) =
    Some (if idx = length (pq_list sl) - 1 then vacate idx sl else smartlist_heapify compare (vacate idx sl) idx)"
  using assms by (simp add: smartlist_pqueue_remove_def vacate_def Let_def idx_ok_def)

context item_order
begin

text \<open>Which entry may be put in place of \<open>idx\<close>: one that is not below the parent of \<open>idx\<close>.\<close>

lemma vacate_down_ok:
  assumes "pq_ok sl" and "idx < length (pq_list sl) - 1" and "0 < idx \<Longrightarrow> key (pq_list sl ! PARENT idx) \<le> key (last (pq_list sl))"
  shows "down_ok key (pq_list (vacate idx sl)) idx"
proof -
  let ?n = "length (pq_list sl) - 1" and ?v = "pq_list (vacate idx sl)" and ?l = "pq_list sl"
  have ok: "idx_ok sl" "idx < length ?l" and heap: "is_heap key ?l" using assms(1,2) by (simp_all add: pq_ok_def)
  note v = vacate_entries(4,5) [OF ok]
  have h: "key (?l ! PARENT i) \<le> key (?l ! i)" if "0 < i" "i < ?n" for i
    using heap that by (simp add: heap_except_def)
  have "key (?v ! PARENT i) \<le> key (?v ! i)" if "0 < i" "i < ?n" "PARENT i \<noteq> idx" for i
    using that v(2) [of i] v(2) [of "PARENT i"] h [of i] PARENT_less [of i] assms(3) by auto
  moreover have "key (?v ! PARENT idx) \<le> key (?v ! i)" if i: "0 < i" "i < ?n" "PARENT i = idx" "0 < idx" for i
  proof -
    have "PARENT idx < idx" "idx < i" using PARENT_less i by auto
    then have "?v ! PARENT idx = ?l ! PARENT idx" "?v ! i = ?l ! i" using v(2) [of "PARENT idx"] v(2) [of i] i(2) by auto
    moreover have "key (?l ! PARENT idx) \<le> key (?l ! idx)" "key (?l ! idx) \<le> key (?l ! i)"
      using h [of idx] h [of i] i assms(2) by auto
    ultimately show ?thesis by simp
  qed
  ultimately show ?thesis unfolding down_ok_def heap_except_def grandchildren_ok_def v(1) by auto
qed

lemma vacated_heapified:
  assumes "pq_ok sl" and "idx < length (pq_list sl) - 1" and "0 < idx \<Longrightarrow> key (pq_list sl ! PARENT idx) \<le> key (last (pq_list sl))"
  shows "pq_ok (smartlist_heapify compare (vacate idx sl) idx)"
proof -
  have ok: "idx_ok sl" "idx < length (pq_list sl)" "length (pq_list sl) \<le> INT_MAX" using assms(1,2) by (simp_all add: pq_ok_def)
  have re: "rearranged (vacate idx sl) (smartlist_heapify compare (vacate idx sl) idx)" by (rule heapify_rearranged)
  then have "idx_ok (smartlist_heapify compare (vacate idx sl) idx)"
    using vacate_entries(1) [OF ok(1,2)] by (simp add: rearranged_def)
  moreover have "is_heap key (pq_list (smartlist_heapify compare (vacate idx sl) idx))"
    using vacate_down_ok [OF assms] ok(3) vacate_entries(4) [OF ok(1,2)] by (intro heapify_heap) simp_all
  ultimately show ?thesis using rearranged_length [OF re] ok(3) vacate_entries(4) [OF ok(1,2)] by (simp add: pq_ok_def)
qed

text \<open>An entry below all its children stays where it is, also when it is below its parent: \<^verbatim>\<open>smartlist_heapify\<close> only moves down.\<close>

lemma heapify_stays:
  assumes "\<And>c. 0 < c \<Longrightarrow> c < length (pq_list sl) \<Longrightarrow> PARENT c = idx \<Longrightarrow> key (pq_list sl ! idx) < key (pq_list sl ! c)"
  shows "smartlist_heapify compare sl idx = sl"
proof -
  have "best_idx compare (pq_list sl) idx = idx" if left: "LEFT_CHILD idx < length (pq_list sl)"
  proof (rule ccontr)
    assume "best_idx compare (pq_list sl) idx \<noteq> idx"
    from assms [OF best_idx_child(2,1,3) [OF this left]] show False using best_idx_min(1) [OF left] by simp
  qed
  then show ?thesis by (subst smartlist_heapify.simps) (simp add: Let_def not_le)
qed

lemma vacated_not_heap:
  assumes "pq_ok sl" and "0 < idx" and "idx < length (pq_list sl) - 1" and "key (last (pq_list sl)) < key (pq_list sl ! PARENT idx)"
  shows "\<not> is_heap key (pq_list (smartlist_heapify compare (vacate idx sl) idx))"
proof -
  let ?v = "vacate idx sl" and ?l = "pq_list sl"
  have ok: "idx_ok sl" "idx < length ?l" using assms(1,3) by (simp_all add: pq_ok_def)
  note v = vacate_entries(4,5) [OF ok]
  have heap: "key (?l ! PARENT i) \<le> key (?l ! i)" if "0 < i" "i < length ?l - 1" for i
    using assms(1) that by (simp add: pq_ok_def heap_except_def)
  have "key (pq_list ?v ! idx) < key (pq_list ?v ! c)" if c: "0 < c" "c < length (pq_list ?v)" "PARENT c = idx" for c
  proof -
    have "pq_list ?v ! c = ?l ! c" using c v PARENT_less [of c] by simp
    moreover have "key (?l ! PARENT idx) \<le> key (?l ! idx)" "key (?l ! idx) \<le> key (?l ! c)"
      using heap [of idx] heap [of c] c v(1) assms(2,3) by auto
    ultimately show ?thesis using v(2) [of idx] assms(3,4) by auto
  qed
  then have "smartlist_heapify compare ?v idx = ?v" by (rule heapify_stays)
  moreover have "key (pq_list ?v ! idx) < key (pq_list ?v ! PARENT idx)"
    using v(2) [of idx] v(2) [of "PARENT idx"] PARENT_less [of idx] assms(2-4) by auto
  ultimately show ?thesis using v(1) assms(2,3) by (auto simp: heap_except_def not_le)
qed

lemma vacate_last:
  assumes "pq_ok sl" and "idx = length (pq_list sl) - 1" and "pq_list sl \<noteq> []"
  shows "pq_ok (vacate idx sl)"
proof -
  have ok: "idx_ok sl" "idx < length (pq_list sl)" using assms by (simp_all add: pq_ok_def)
  note v = vacate_entries [OF ok]
  have "key (pq_list (vacate idx sl) ! PARENT i) \<le> key (pq_list (vacate idx sl) ! i)"
    if "0 < i" "i < length (pq_list sl) - 1" for i
    using that v(5) [of i] v(5) [of "PARENT i"] PARENT_less [of i] assms(1,2) by (auto simp: pq_ok_def heap_except_def)
  then show ?thesis using v(1,4) assms(1) by (auto simp: pq_ok_def heap_except_def)
qed

lemma pop_ok:
  assumes "pq_ok sl" and "pq_list sl \<noteq> []"
  shows "\<exists>x sl'. smartlist_pqueue_pop compare sl = Some (x, sl') \<and> pq_ok sl' \<and>
    mset (pq_list sl) = add_mset x (mset (pq_list sl')) \<and> (\<forall>y. y \<in># mset (pq_list sl) \<longrightarrow> key x \<le> key y) \<and> pq_idx sl' x = -1"
proof -
  let ?x = "pq_list sl ! 0" and ?v = "vacate 0 sl"
  have ok: "idx_ok sl" "0 < length (pq_list sl)" using assms by (simp_all add: pq_ok_def)
  note v = vacate_entries [OF ok]
  have re: "rearranged ?v (smartlist_heapify compare ?v 0)" by (rule heapify_rearranged)
  have "count (mset (pq_list sl)) ?x \<le> 1" using idx_ok_distinct [OF ok(1)] by (simp add: distinct_count_atmost_1)
  then have x: "?x \<notin> set (pq_list ?v)" using v(2) [symmetric] by simp
  have min: "\<forall>y. y \<in># mset (pq_list sl) \<longrightarrow> key ?x \<le> key y"
    using assms(1) is_heap_root [of key "pq_list sl"] by (auto simp: pq_ok_def in_set_conv_nth)
  show ?thesis
  proof (cases "length (pq_list sl) = 1")
    case True
    then show ?thesis using pop_vacate [OF assms(2)] v min vacate_last [OF assms(1) _ assms(2)] by auto
  next
    case False
    then have "0 < length (pq_list sl) - 1" using ok(2) by arith
    then have "pq_ok (smartlist_heapify compare ?v 0)" by (intro vacated_heapified [OF assms(1)]) simp_all
    then show ?thesis using False pop_vacate [OF assms(2)] v(2,3) re x min by (auto simp: rearranged_def)
  qed
qed

end

sublocale item_order \<subseteq> pq: priority_queue pq_ok "\<lambda>sl. mset (pq_list sl)" "smartlist_pqueue_add compare"
  "smartlist_pqueue_pop compare" key INT_MAX
proof unfold_locales
  show "pq_ok (smartlist_pqueue_add compare q x) \<and> mset (pq_list (smartlist_pqueue_add compare q x)) = add_mset x (mset (pq_list q))"
    if "pq_ok q" "x \<notin># mset (pq_list q)" "size (mset (pq_list q)) < INT_MAX" for q x
    using that add_ok [of q x] by simp
  show "\<exists>x q'. smartlist_pqueue_pop compare q = Some (x, q') \<and> pq_ok q' \<and>
      mset (pq_list q) = add_mset x (mset (pq_list q')) \<and> (\<forall>y. y \<in># mset (pq_list q) \<longrightarrow> key x \<le> key y)"
    if "pq_ok q" "mset (pq_list q) \<noteq> {#}" for q
    using that pop_ok [of q] by auto
qed

subsection \<open>Properties\<close>

lemma assert_ok_iff:
  assumes "\<And>a b. compare a b \<le> 0 \<longleftrightarrow> key a \<le> key b"
  shows "smartlist_pqueue_assert_ok compare sl = Some () \<longleftrightarrow> idx_ok sl \<and> is_heap key (pq_list sl)"
proof -
  let ?l = "pq_list sl"
  let ?P = "\<lambda>i. (0 < i \<longrightarrow> key (?l ! PARENT i) \<le> key (?l ! i)) \<and> pq_idx sl (?l ! i) = int i"
  have "foldr (\<lambda>i rest. do { rest;
       (if i > 0 then tor_assert (compare (?l ! PARENT i) (?l ! i) \<le> 0) else Some ());
       tor_assert (pq_idx sl (?l ! i) = int i) }) is (Some ()) = Some () \<longleftrightarrow> (\<forall>i \<in> set is. ?P i)" for "is"
    by (induction "is") (auto simp: assms bind_eq_Some_conv tor_assert_def split: if_splits)
  then show ?thesis by (auto simp: smartlist_pqueue_assert_ok_def idx_ok_def heap_except_def)
qed

text \<open>C5: Adding and popping never abort on a queue that passes \<^verbatim>\<open>smartlist_pqueue_assert_ok\<close> (popping: not on an
  empty one) and leave a queue that passes it: the heap order and every item's index field are
  right. Adding adds the one item; popping takes out an item that no other one precedes.\<close>

theorem pqueue_add_pop_ok:
  fixes key :: "'a \<Rightarrow> 'k :: linorder"
  assumes "\<And>a b. compare a b < 0 \<longleftrightarrow> key a < key b" and "\<And>a b. compare a b \<le> 0 \<longleftrightarrow> key a \<le> key b"
    and "smartlist_pqueue_assert_ok compare sl = Some ()" and "length (pq_list sl) < INT_MAX" and "item \<notin> set (pq_list sl)"
  shows "smartlist_pqueue_assert_ok compare (smartlist_pqueue_add compare sl item) = Some () \<and>
    mset (pq_list (smartlist_pqueue_add compare sl item)) = add_mset item (mset (pq_list sl)) \<and>
    (pq_list sl \<noteq> [] \<longrightarrow> (\<exists>top sl'. smartlist_pqueue_pop compare sl = Some (top, sl') \<and>
       smartlist_pqueue_assert_ok compare sl' = Some () \<and> mset (pq_list sl) = add_mset top (mset (pq_list sl')) \<and>
       (\<forall>y. y \<in> set (pq_list sl) \<longrightarrow> key top \<le> key y) \<and> pq_idx sl' top = -1))"
proof -
  have io: "item_order compare key" using assms(1,2) by unfold_locales
  note iff = assert_ok_iff [of compare key, OF assms(2)]
  have ok: "item_order.pq_ok key sl" using assms(3,4) iff by (simp add: item_order.pq_ok_def [OF io])
  show ?thesis using item_order.add_ok [OF io ok assms(5,4)] item_order.pop_ok [OF io ok]
    by (auto simp: iff item_order.pq_ok_def [OF io])
qed

text \<open>Popping \<open>n\<close> times.\<close>

primrec pqueue_drain :: "('a \<Rightarrow> 'a \<Rightarrow> int) \<Rightarrow> nat \<Rightarrow> 'a pqueue \<Rightarrow> ('a list \<times> 'a pqueue) option" where
  "pqueue_drain compare 0 sl = Some ([], sl)"
| "pqueue_drain compare (Suc n) sl =
    do { (x, sl) \<leftarrow> smartlist_pqueue_pop compare sl; (xs, sl) \<leftarrow> pqueue_drain compare n sl; Some (x # xs, sl) }"

context item_order
begin

lemma pqueue_drain_eq: "pqueue_drain compare n sl = pq.drain n sl"
  by (induction n arbitrary: sl) (simp_all split: prod.splits)

lemma add_drain:
  assumes "distinct xs" and "length xs \<le> INT_MAX" and "pq_list sl = []"
  shows "\<exists>ys sl'. pqueue_drain compare (length xs) (foldl (smartlist_pqueue_add compare) sl xs) = Some (ys, sl') \<and>
    mset ys = mset xs \<and> sorted (map key ys)"
proof -
  have "pq_ok sl" using assms(3) by (simp add: pq_ok_def idx_ok_def heap_except_def)
  then have "pq_ok (foldl (smartlist_pqueue_add compare) sl xs)"
    "mset (pq_list (foldl (smartlist_pqueue_add compare) sl xs)) = mset xs"
    using pq.insert_all [of sl xs] assms by simp_all
  then show ?thesis using pq.drain_sorts [of "foldl (smartlist_pqueue_add compare) sl xs"] by (auto simp: pqueue_drain_eq)
qed

end

text \<open>Items added to an empty queue in any order come out in ascending order, each exactly once.\<close>

theorem pqueue_sorts:
  fixes key :: "'a \<Rightarrow> 'k :: linorder"
  assumes "\<And>a b. compare a b < 0 \<longleftrightarrow> key a < key b" and "\<And>a b. compare a b \<le> 0 \<longleftrightarrow> key a \<le> key b"
    and "distinct xs" and "length xs \<le> INT_MAX"
  shows "\<exists>ys sl'. pqueue_drain compare (length xs) (foldl (smartlist_pqueue_add compare) \<lparr> pq_list = [], pq_idx = idx \<rparr> xs) =
      Some (ys, sl') \<and> mset ys = mset xs \<and> sorted (map key ys)"
proof -
  have "item_order compare key" using assms(1,2) by unfold_locales
  then show ?thesis using assms(3,4) by (intro item_order.add_drain) simp_all
qed

text \<open>C25: Removing an item that the queue holds never aborts: exactly that item goes, its index field is
  reset, and the other index fields agree with the positions again. But the entry that takes its place is only moved down,
  so that the queue passes \<^verbatim>\<open>smartlist_pqueue_assert_ok\<close> afterwards exactly if the item was the first or the last entry or
  the last entry is not below the parent of the vacated position: in every other case the heap is broken.\<close>

theorem pqueue_remove_heap_iff:
  fixes key :: "'a \<Rightarrow> 'k :: linorder"
  assumes "\<And>a b. compare a b < 0 \<longleftrightarrow> key a < key b" and "\<And>a b. compare a b \<le> 0 \<longleftrightarrow> key a \<le> key b"
    and "smartlist_pqueue_assert_ok compare sl = Some ()" and "length (pq_list sl) \<le> INT_MAX" and "idx < length (pq_list sl)"
  shows "\<exists>sl'. smartlist_pqueue_remove compare sl (pq_list sl ! idx) = Some sl' \<and>
    add_mset (pq_list sl ! idx) (mset (pq_list sl')) = mset (pq_list sl) \<and> pq_idx sl' (pq_list sl ! idx) = -1 \<and> idx_ok sl' \<and>
    (smartlist_pqueue_assert_ok compare sl' = Some () \<longleftrightarrow>
     idx = 0 \<or> idx = length (pq_list sl) - 1 \<or> key (pq_list sl ! PARENT idx) \<le> key (last (pq_list sl)))"
proof -
  have io: "item_order compare key" using assms(1,2) by unfold_locales
  note iff = assert_ok_iff [of compare key, OF assms(2)] and pq_ok_def = item_order.pq_ok_def [OF io]
  have ok: "item_order.pq_ok key sl" and i: "idx_ok sl" using assms(3,4) iff by (simp_all add: pq_ok_def)
  let ?v = "vacate idx sl" and ?h = "smartlist_heapify compare (vacate idx sl) idx"
  note v = vacate_entries [OF i assms(5)]
  have re: "rearranged ?v ?h" by (rule heapify_rearranged)
  have "count (mset (pq_list sl)) (pq_list sl ! idx) \<le> 1" using idx_ok_distinct [OF i] by (simp add: distinct_count_atmost_1)
  then have out: "pq_list sl ! idx \<notin> set (pq_list ?v)" using v(2) [symmetric] by simp
  show ?thesis
  proof (cases "idx = length (pq_list sl) - 1")
    case True
    then have "item_order.pq_ok key ?v" using assms(5) by (intro item_order.vacate_last [OF io ok]) auto
    then show ?thesis using True remove_vacate [OF i assms(5)] v by (simp add: iff pq_ok_def)
  next
    case False
    then have l: "idx < length (pq_list sl) - 1" using assms(5) by simp
    show ?thesis
    proof (cases "idx = 0 \<or> key (pq_list sl ! PARENT idx) \<le> key (last (pq_list sl))")
      case True
      then have "item_order.pq_ok key ?h" using l by (intro item_order.vacated_heapified [OF io ok]) auto
      then show ?thesis using True False remove_vacate [OF i assms(5)] v(1-3) re out by (auto simp: iff pq_ok_def rearranged_def)
    next
      case broken: False
      then have "\<not> is_heap key (pq_list ?h)" using l by (intro item_order.vacated_not_heap [OF io ok]) auto
      then show ?thesis using broken False remove_vacate [OF i assms(5)] v(1-3) re out by (auto simp: iff pq_ok_def rearranged_def)
    qed
  qed
qed

subsection \<open>The queue of the DNS cache\<close>

text \<open>\<^verbatim>\<open>feature/relay/dns.c\<close> queues its cached answers by expiry; \<open>cr_address\<close> stands for the rest of the structure.\<close>

record cached_resolve =
  cr_address :: bytes
  expire :: int

definition compare_cached_resolves_by_expiry :: "cached_resolve \<Rightarrow> cached_resolve \<Rightarrow> int" where
  "compare_cached_resolves_by_expiry a b =
    (if expire a < expire b then -1 else if expire a = expire b then 0 else 1)"

interpretation dns: item_order compare_cached_resolves_by_expiry expire
  by unfold_locales (auto simp: compare_cached_resolves_by_expiry_def)

definition demo_resolve :: "int \<Rightarrow> cached_resolve" where
  "demo_resolve t = \<lparr> cr_address = [], expire = t \<rparr>"

definition demo_queue :: "cached_resolve pqueue" where
  "demo_queue = \<lparr> pq_list = map demo_resolve [1, 10, 2, 11, 12, 3, 4],
     pq_idx = (\<lambda>_. -1)(demo_resolve 1 := 0, demo_resolve 10 := 1, demo_resolve 2 := 2, demo_resolve 11 := 3,
       demo_resolve 12 := 4, demo_resolve 3 := 5, demo_resolve 4 := 6) \<rparr>"

lemma demo_queue_list: "pq_list demo_queue = map demo_resolve [1, 10, 2, 11, 12, 3, 4]"
  by (simp add: demo_queue_def)

lemma demo_queue_ok: "smartlist_pqueue_assert_ok compare_cached_resolves_by_expiry demo_queue = Some ()"
  by (simp add: smartlist_pqueue_assert_ok_def demo_queue_def demo_resolve_def compare_cached_resolves_by_expiry_def PARENT_def upt_rec)

theorem pqueue_add_pop_ok_witness:
  "smartlist_pqueue_assert_ok compare_cached_resolves_by_expiry
     (smartlist_pqueue_add compare_cached_resolves_by_expiry demo_queue (demo_resolve 5)) = Some ()"
proof -
  have "length (pq_list demo_queue) < INT_MAX" "demo_resolve 5 \<notin> set (pq_list demo_queue)"
    by (simp_all add: demo_queue_list demo_resolve_def)
  then show ?thesis
    using pqueue_add_pop_ok [of compare_cached_resolves_by_expiry expire demo_queue "demo_resolve 5",
        OF dns.compare_less dns.compare_le demo_queue_ok] by simp
qed

theorem pqueue_sorts_witness:
  "\<exists>ys sl'. pqueue_drain compare_cached_resolves_by_expiry (length (map demo_resolve [3, 1, 2]))
     (foldl (smartlist_pqueue_add compare_cached_resolves_by_expiry) \<lparr> pq_list = [], pq_idx = (\<lambda>_. -1) \<rparr> (map demo_resolve [3, 1, 2])) =
      Some (ys, sl') \<and> mset ys = mset (map demo_resolve [3, 1, 2]) \<and> sorted (map expire ys)"
  by (rule pqueue_sorts [OF dns.compare_less dns.compare_le]) (simp_all add: demo_resolve_def)

text \<open>Of the queue with the expiry times 1, 10, 2, 11, 12, 3, 4 the entry 2 can be removed; without 11 it is no heap.\<close>

theorem pqueue_remove_heap_iff_witness:
  "(\<exists>sl'. smartlist_pqueue_remove compare_cached_resolves_by_expiry demo_queue (demo_resolve 2) = Some sl' \<and>
      smartlist_pqueue_assert_ok compare_cached_resolves_by_expiry sl' = Some ()) \<and>
   (\<exists>sl'. smartlist_pqueue_remove compare_cached_resolves_by_expiry demo_queue (demo_resolve 11) = Some sl' \<and> idx_ok sl' \<and>
      smartlist_pqueue_assert_ok compare_cached_resolves_by_expiry sl' \<noteq> Some ())"
proof -
  have l: "length (pq_list demo_queue) = 7" "pq_list demo_queue ! 2 = demo_resolve 2" "pq_list demo_queue ! PARENT 2 = demo_resolve 1"
    "pq_list demo_queue ! 3 = demo_resolve 11" "pq_list demo_queue ! PARENT 3 = demo_resolve 10" "last (pq_list demo_queue) = demo_resolve 4"
    by (simp_all add: demo_queue_list PARENT_def)
  note remove = pqueue_remove_heap_iff [of compare_cached_resolves_by_expiry expire demo_queue, OF dns.compare_less dns.compare_le demo_queue_ok]
  show ?thesis using remove [of 2] remove [of 3] l by (auto simp: demo_resolve_def)
qed

end
