(* ===== verification/Tor_Token_Bucket.thy ===== *)
theory Tor_Token_Bucket
  imports Tor_Prelude
begin

text \<open>
  \<^verbatim>\<open>lib/evloop/token_bucket.c\<close>: the token buckets that limit the rate of connections. Values are integers,
  with the conversions of C between \<^verbatim>\<open>int32_t\<close>, \<^verbatim>\<open>uint32_t\<close> and \<^verbatim>\<open>size_t\<close> written out where the code
  converts. Refilling with a rate of 0 divides by zero: \<open>None\<close>.
\<close>

subsection \<open>Conversions\<close>

definition to_int32 :: "int \<Rightarrow> int" where
  "to_int32 x = (x + 2 ^ 31) mod 2 ^ 32 - 2 ^ 31"

definition to_uint32 :: "int \<Rightarrow> int" where
  "to_uint32 x = x mod 2 ^ 32"

definition to_size_t :: "int \<Rightarrow> int" where
  "to_size_t x = x mod 2 ^ 64"

abbreviation (input) INT32_MAX :: int where "INT32_MAX \<equiv> 2147483647"
abbreviation (input) INT32_MIN :: int where "INT32_MIN \<equiv> -2147483648"

lemma to_int32_id: "INT32_MIN \<le> x \<Longrightarrow> x \<le> INT32_MAX \<Longrightarrow> to_int32 x = x"
  by (simp add: to_int32_def)

lemma to_int32_bounds: "INT32_MIN \<le> to_int32 x" "to_int32 x \<le> INT32_MAX"
  by (simp_all add: to_int32_def)

lemma to_int32_uint32: "to_int32 (to_uint32 x) = to_int32 x"
  by (simp add: to_int32_def to_uint32_def mod_add_left_eq)

lemma to_uint32_id: "0 \<le> x \<Longrightarrow> x < 2 ^ 32 \<Longrightarrow> to_uint32 x = x"
  by (simp add: to_uint32_def)

subsection \<open>Raw buckets\<close>

record token_bucket_cfg =
  rate :: int
  burst :: int

record token_bucket_raw =
  bucket :: int

definition TOKEN_BUCKET_MAX_BURST :: int where
  "TOKEN_BUCKET_MAX_BURST = INT32_MAX"

definition token_bucket_cfg_init :: "int \<Rightarrow> int \<Rightarrow> token_bucket_cfg" where
  "token_bucket_cfg_init rate' burst' =
    (let burst' = (if burst' > TOKEN_BUCKET_MAX_BURST then TOKEN_BUCKET_MAX_BURST else burst')
     in \<lparr> rate = rate', burst = to_int32 burst' \<rparr>)"

definition token_bucket_raw_reset :: "token_bucket_cfg \<Rightarrow> token_bucket_raw" where
  "token_bucket_raw_reset cfg = \<lparr> bucket = burst cfg \<rparr>"

definition token_bucket_raw_adjust :: "token_bucket_raw \<Rightarrow> token_bucket_cfg \<Rightarrow> token_bucket_raw" where
  "token_bucket_raw_adjust b cfg = b\<lparr> bucket := min (bucket b) (burst cfg) \<rparr>"

definition token_bucket_raw_refill_steps ::
  "token_bucket_raw \<Rightarrow> token_bucket_cfg \<Rightarrow> int \<Rightarrow> (bool \<times> token_bucket_raw) option" where
  "token_bucket_raw_refill_steps b cfg elapsed =
    (let was_empty = (bucket b \<le> 0);
         gap = to_size_t (to_size_t (burst cfg) - to_size_t (bucket b))
     in if rate cfg = 0 then None
        else let b = (if elapsed > gap div rate cfg then b\<lparr> bucket := burst cfg \<rparr>
                      else b\<lparr> bucket := to_int32 (to_uint32 (to_uint32 (bucket b) + to_uint32 (rate cfg * elapsed))) \<rparr>)
             in Some (was_empty \<and> bucket b > 0, b))"

definition token_bucket_raw_dec :: "token_bucket_raw \<Rightarrow> int \<Rightarrow> bool \<times> token_bucket_raw" where
  "token_bucket_raw_dec b n =
    (if n < 0 then (False, b)
     else (bucket b > 0 \<and> n \<ge> bucket b, b\<lparr> bucket := to_int32 (bucket b - n) \<rparr>))"

definition token_bucket_raw_get :: "token_bucket_raw \<Rightarrow> int" where
  "token_bucket_raw_get b = (if bucket b \<ge> 0 then bucket b else 0)"

subsection \<open>Read-write buckets\<close>

definition TICKS_PER_STEP :: int where
  "TICKS_PER_STEP = 16"

definition STAMP_TICKS_PER_SECOND :: int where
  "STAMP_TICKS_PER_SECOND = 953"

definition monotime_coarse_stamp_units_to_approx_msec :: "int \<Rightarrow> int" where
  "monotime_coarse_stamp_units_to_approx_msec units = (units * 1000) mod 2 ^ 64 div STAMP_TICKS_PER_SECOND"

definition rate_per_sec_to_rate_per_step :: "int \<Rightarrow> int" where
  "rate_per_sec_to_rate_per_step r =
    (let units = (r * TICKS_PER_STEP) mod 2 ^ 64;
         val = to_uint32 (monotime_coarse_stamp_units_to_approx_msec units div 1000)
     in if val \<noteq> 0 then val else 1)"

record token_bucket_rw =
  rw_cfg :: token_bucket_cfg
  read_bucket :: token_bucket_raw
  write_bucket :: token_bucket_raw
  rw_last_refilled :: int

definition token_bucket_rw_adjust :: "token_bucket_rw \<Rightarrow> int \<Rightarrow> int \<Rightarrow> token_bucket_rw" where
  "token_bucket_rw_adjust b r bu =
    (let cfg = token_bucket_cfg_init (rate_per_sec_to_rate_per_step r) bu
     in b\<lparr> rw_cfg := cfg, read_bucket := token_bucket_raw_adjust (read_bucket b) cfg,
          write_bucket := token_bucket_raw_adjust (write_bucket b) cfg \<rparr>)"

definition token_bucket_rw_reset :: "token_bucket_rw \<Rightarrow> int \<Rightarrow> token_bucket_rw" where
  "token_bucket_rw_reset b now =
    b\<lparr> read_bucket := token_bucket_raw_reset (rw_cfg b), write_bucket := token_bucket_raw_reset (rw_cfg b),
       rw_last_refilled := now \<rparr>"

definition token_bucket_rw_init :: "int \<Rightarrow> int \<Rightarrow> int \<Rightarrow> token_bucket_rw" where
  "token_bucket_rw_init r bu now =
    (let zero = \<lparr> rw_cfg = \<lparr> rate = 0, burst = 0 \<rparr>, read_bucket = \<lparr> bucket = 0 \<rparr>, write_bucket = \<lparr> bucket = 0 \<rparr>, rw_last_refilled = 0 \<rparr>
     in token_bucket_rw_reset (token_bucket_rw_adjust zero r bu) now)"

text \<open>The flags are the pair of \<^verbatim>\<open>TB_READ\<close> and \<^verbatim>\<open>TB_WRITE\<close>.\<close>

definition token_bucket_rw_refill :: "token_bucket_rw \<Rightarrow> int \<Rightarrow> ((bool \<times> bool) \<times> token_bucket_rw) option" where
  "token_bucket_rw_refill b now =
    (let elapsed_ticks = to_uint32 (now - rw_last_refilled b)
     in if elapsed_ticks \<le> int UINT32_MAX div 4
        then let elapsed_steps = elapsed_ticks div TICKS_PER_STEP
             in if elapsed_steps = 0 then Some ((False, False), b)
                else do {
                  (rd, rb) \<leftarrow> token_bucket_raw_refill_steps (read_bucket b) (rw_cfg b) elapsed_steps;
                  (wr, wb) \<leftarrow> token_bucket_raw_refill_steps (write_bucket b) (rw_cfg b) elapsed_steps;
                  Some ((rd, wr), b\<lparr> read_bucket := rb, write_bucket := wb, rw_last_refilled := now \<rparr>) }
        else Some ((False, False), b\<lparr> rw_last_refilled := now \<rparr>))"

definition token_bucket_rw_dec_read :: "token_bucket_rw \<Rightarrow> int \<Rightarrow> bool \<times> token_bucket_rw" where
  "token_bucket_rw_dec_read b n = (let (e, rb) = token_bucket_raw_dec (read_bucket b) n in (e, b\<lparr> read_bucket := rb \<rparr>))"

definition token_bucket_rw_dec_write :: "token_bucket_rw \<Rightarrow> int \<Rightarrow> bool \<times> token_bucket_rw" where
  "token_bucket_rw_dec_write b n = (let (e, wb) = token_bucket_raw_dec (write_bucket b) n in (e, b\<lparr> write_bucket := wb \<rparr>))"

definition token_bucket_rw_dec :: "token_bucket_rw \<Rightarrow> int \<Rightarrow> int \<Rightarrow> (bool \<times> bool) \<times> token_bucket_rw" where
  "token_bucket_rw_dec b n_read n_written =
    (let (rd, b) = token_bucket_rw_dec_read b n_read; (wr, b) = token_bucket_rw_dec_write b n_written in ((rd, wr), b))"

subsection \<open>Counters\<close>

record token_bucket_ctr =
  ctr_cfg :: token_bucket_cfg
  counter :: token_bucket_raw
  ctr_last_refilled :: int

definition token_bucket_ctr_adjust :: "token_bucket_ctr \<Rightarrow> int \<Rightarrow> int \<Rightarrow> token_bucket_ctr" where
  "token_bucket_ctr_adjust b r bu =
    (let cfg = token_bucket_cfg_init r bu in b\<lparr> ctr_cfg := cfg, counter := token_bucket_raw_adjust (counter b) cfg \<rparr>)"

definition token_bucket_ctr_reset :: "token_bucket_ctr \<Rightarrow> int \<Rightarrow> token_bucket_ctr" where
  "token_bucket_ctr_reset b now = b\<lparr> counter := token_bucket_raw_reset (ctr_cfg b), ctr_last_refilled := now \<rparr>"

definition token_bucket_ctr_init :: "int \<Rightarrow> int \<Rightarrow> int \<Rightarrow> token_bucket_ctr" where
  "token_bucket_ctr_init r bu now =
    token_bucket_ctr_reset (token_bucket_ctr_adjust
      \<lparr> ctr_cfg = \<lparr> rate = 0, burst = 0 \<rparr>, counter = \<lparr> bucket = 0 \<rparr>, ctr_last_refilled = 0 \<rparr> r bu) now"

definition token_bucket_ctr_refill :: "token_bucket_ctr \<Rightarrow> int \<Rightarrow> token_bucket_ctr option" where
  "token_bucket_ctr_refill b now =
    (let elapsed_sec = to_uint32 (now - ctr_last_refilled b)
     in if elapsed_sec \<le> int UINT32_MAX div 4
        then do {
          (_, c) \<leftarrow> token_bucket_raw_refill_steps (counter b) (ctr_cfg b) elapsed_sec;
          Some (b\<lparr> counter := c, ctr_last_refilled := now \<rparr>) }
        else Some (b\<lparr> ctr_last_refilled := now \<rparr>))"

definition token_bucket_ctr_dec :: "token_bucket_ctr \<Rightarrow> int \<Rightarrow> bool \<times> token_bucket_ctr" where
  "token_bucket_ctr_dec b n = (let (e, c) = token_bucket_raw_dec (counter b) n in (e, b\<lparr> counter := c \<rparr>))"

subsection \<open>A raw bucket counts exactly\<close>

definition cfg_ok :: "token_bucket_cfg \<Rightarrow> bool" where
  "cfg_ok cfg \<longleftrightarrow> 0 < rate cfg \<and> rate cfg < 2 ^ 32 \<and> 0 \<le> burst cfg \<and> burst cfg \<le> INT32_MAX"

definition raw_ok :: "token_bucket_cfg \<Rightarrow> token_bucket_raw \<Rightarrow> bool" where
  "raw_ok cfg b \<longleftrightarrow> INT32_MIN \<le> bucket b \<and> bucket b \<le> burst cfg"

lemma cfg_init_ok: "0 < r \<Longrightarrow> r < 2 ^ 32 \<Longrightarrow> 0 \<le> bu \<Longrightarrow> cfg_ok (token_bucket_cfg_init r bu)"
  by (simp add: cfg_ok_def token_bucket_cfg_init_def TOKEN_BUCKET_MAX_BURST_def Let_def to_int32_id)

lemma le_div_iff: "0 < r \<Longrightarrow> c \<le> g div r \<longleftrightarrow> r * c \<le> g" for c g r :: int
proof
  assume r: "0 < r" and "c \<le> g div r"
  then have "r * c \<le> r * (g div r)" by simp
  also have "\<dots> \<le> g" using r by (metis mult_div_mod_eq le_add_same_cancel1 pos_mod_sign)
  finally show "r * c \<le> g" .
next
  assume "0 < r" and "r * c \<le> g"
  then show "c \<le> g div r" using zdiv_mono1 [of "r * c" g r] by simp
qed

text \<open>A refill adds \<^verbatim>\<open>rate * elapsed\<close> tokens up to the burst; no conversion or product of it overflows.\<close>

lemma refill_steps_eq:
  assumes "cfg_ok cfg" and "raw_ok cfg b" and "0 \<le> elapsed"
  shows "token_bucket_raw_refill_steps b cfg elapsed =
    (let level = min (burst cfg) (bucket b + rate cfg * elapsed) in Some (bucket b \<le> 0 \<and> 0 < level, b\<lparr> bucket := level \<rparr>))"
proof -
  let ?gap = "burst cfg - bucket b"
  have b: "0 \<le> ?gap" "?gap < 2 ^ 32" and r: "0 < rate cfg" using assms(1,2) by (auto simp: cfg_ok_def raw_ok_def)
  have gap: "to_size_t (to_size_t (burst cfg) - to_size_t (bucket b)) = ?gap"
    using b unfolding to_size_t_def by (simp only: mod_diff_eq) simp
  have iff: "elapsed > ?gap div rate cfg \<longleftrightarrow> bucket b + rate cfg * elapsed > burst cfg"
    using le_div_iff [OF r, of elapsed ?gap] by auto
  have "to_int32 (to_uint32 (to_uint32 (bucket b) + to_uint32 (rate cfg * elapsed))) = bucket b + rate cfg * elapsed"
    if "bucket b + rate cfg * elapsed \<le> burst cfg"
  proof -
    have "to_uint32 (to_uint32 (bucket b) + to_uint32 (rate cfg * elapsed)) = to_uint32 (bucket b + rate cfg * elapsed)"
      by (simp add: to_uint32_def mod_add_eq)
    moreover have "0 \<le> rate cfg * elapsed" using r assms(3) by simp
    ultimately show ?thesis using that assms(1,2) by (simp add: to_int32_uint32 to_int32_id cfg_ok_def raw_ok_def)
  qed
  then show ?thesis using r by (auto simp: token_bucket_raw_refill_steps_def gap iff Let_def min_def)
qed

lemma refill_steps_ok:
  assumes "cfg_ok cfg" and "raw_ok cfg b" and "0 \<le> elapsed"
  shows "\<exists>e b'. token_bucket_raw_refill_steps b cfg elapsed = Some (e, b') \<and> raw_ok cfg b' \<and>
    bucket b' = min (burst cfg) (bucket b + rate cfg * elapsed)"
proof -
  have "0 \<le> rate cfg * elapsed" using assms by (simp add: cfg_ok_def)
  then have "INT32_MIN \<le> bucket b + rate cfg * elapsed" using assms(2) by (simp add: raw_ok_def)
  then show ?thesis using assms(1) refill_steps_eq [OF assms] by (auto simp: Let_def raw_ok_def cfg_ok_def)
qed

lemma raw_dec_eq:
  "0 \<le> n \<Longrightarrow> INT32_MIN \<le> bucket b - n \<Longrightarrow> bucket b \<le> INT32_MAX \<Longrightarrow>
   token_bucket_raw_dec b n = (0 < bucket b \<and> bucket b \<le> n, b\<lparr> bucket := bucket b - n \<rparr>)"
  by (simp add: token_bucket_raw_dec_def to_int32_id)

text \<open>With a configuration in range, a refill of a raw bucket computes in 32 and 64 bit arithmetic exactly
  the integer \<open>min burst (bucket + rate * elapsed)\<close> and reports whether the bucket stopped being
  empty; a decrement is exact precisely as long as the result fits 32 bits, and past it wraps around.\<close>

theorem token_bucket_raw_exact:
  assumes "cfg_ok cfg" and "raw_ok cfg b" and "0 \<le> elapsed" and "0 \<le> n"
  shows "token_bucket_raw_refill_steps b cfg elapsed =
      Some (bucket b \<le> 0 \<and> 0 < min (burst cfg) (bucket b + rate cfg * elapsed),
            b\<lparr> bucket := min (burst cfg) (bucket b + rate cfg * elapsed) \<rparr>) \<and>
    (bucket (snd (token_bucket_raw_dec b n)) = bucket b - n \<longleftrightarrow> INT32_MIN \<le> bucket b - n) \<and>
    (fst (token_bucket_raw_dec b n) \<longleftrightarrow> 0 < bucket b \<and> bucket b \<le> n)"
proof -
  have "bucket b \<le> INT32_MAX" using assms(1,2) by (simp add: cfg_ok_def raw_ok_def)
  then have "bucket (snd (token_bucket_raw_dec b n)) = bucket b - n \<longleftrightarrow> INT32_MIN \<le> bucket b - n"
    using assms(4) to_int32_id [of "bucket b - n"] to_int32_bounds(1) [of "bucket b - n"]
    by (auto simp: token_bucket_raw_dec_def)
  then show ?thesis using refill_steps_eq [OF assms(1-3)] assms(4) by (simp add: Let_def token_bucket_raw_dec_def)
qed

theorem token_bucket_raw_exact_witness:
  "token_bucket_raw_refill_steps \<lparr> bucket = -5 \<rparr> \<lparr> rate = 4, burst = 10 \<rparr> 3 = Some (True, \<lparr> bucket = 7 \<rparr>)"
  using token_bucket_raw_exact [of "\<lparr> rate = 4, burst = 10 \<rparr>" "\<lparr> bucket = -5 \<rparr>" 3 0] by (simp add: cfg_ok_def raw_ok_def)

subsection \<open>Reachable read-write buckets\<close>

inductive rw_reachable :: "token_bucket_rw \<Rightarrow> bool" where
  init: "0 \<le> r \<Longrightarrow> r < 2 ^ 32 \<Longrightarrow> 0 \<le> bu \<Longrightarrow> bu < 2 ^ 32 \<Longrightarrow> rw_reachable (token_bucket_rw_init r bu now)"
| adjust: "rw_reachable b \<Longrightarrow> 0 \<le> r \<Longrightarrow> r < 2 ^ 32 \<Longrightarrow> 0 \<le> bu \<Longrightarrow> bu < 2 ^ 32 \<Longrightarrow> rw_reachable (token_bucket_rw_adjust b r bu)"
| reset: "rw_reachable b \<Longrightarrow> rw_reachable (token_bucket_rw_reset b now)"
| refill: "rw_reachable b \<Longrightarrow> token_bucket_rw_refill b now = Some (flags, b') \<Longrightarrow> rw_reachable b'"
| dec: "rw_reachable b \<Longrightarrow> INT32_MIN \<le> bucket (read_bucket b) - n_read \<Longrightarrow>
    INT32_MIN \<le> bucket (write_bucket b) - n_written \<Longrightarrow> rw_reachable (snd (token_bucket_rw_dec b n_read n_written))"

inductive_cases rw_reachableE: "rw_reachable b"

definition rw_ok :: "token_bucket_rw \<Rightarrow> bool" where
  "rw_ok b \<longleftrightarrow> cfg_ok (rw_cfg b) \<and> raw_ok (rw_cfg b) (read_bucket b) \<and> raw_ok (rw_cfg b) (write_bucket b)"

lemma rate_per_step_bounds:
  assumes "0 \<le> r" and "r < 2 ^ 32"
  shows "0 < rate_per_sec_to_rate_per_step r \<and> rate_per_sec_to_rate_per_step r < 2 ^ 32"
proof -
  have "0 \<le> to_uint32 x \<and> to_uint32 x < 2 ^ 32" for x by (simp add: to_uint32_def)
  then show ?thesis
    by (auto simp: rate_per_sec_to_rate_per_step_def Let_def order.strict_iff_order)
qed

lemma raw_adjust_ok: "cfg_ok cfg \<Longrightarrow> INT32_MIN \<le> bucket b \<Longrightarrow> raw_ok cfg (token_bucket_raw_adjust b cfg)"
  by (simp add: raw_ok_def cfg_ok_def token_bucket_raw_adjust_def)

lemma raw_reset_ok: "cfg_ok cfg \<Longrightarrow> raw_ok cfg (token_bucket_raw_reset cfg)"
  by (simp add: raw_ok_def cfg_ok_def token_bucket_raw_reset_def)

lemma raw_dec_ok:
  assumes "cfg_ok cfg" and "raw_ok cfg b" and "INT32_MIN \<le> bucket b - n"
  shows "raw_ok cfg (snd (token_bucket_raw_dec b n))"
proof (cases "n < 0")
  case False
  then show ?thesis using assms raw_dec_eq [of n b] by (simp add: raw_ok_def cfg_ok_def)
qed (use assms in \<open>simp add: token_bucket_raw_dec_def\<close>)

lemmas rw_ops_defs = token_bucket_rw_adjust_def token_bucket_rw_reset_def token_bucket_rw_init_def token_bucket_rw_dec_def
  token_bucket_rw_dec_read_def token_bucket_rw_dec_write_def

lemma rw_refill_total:
  assumes "rw_ok b"
  shows "\<exists>flags b'. token_bucket_rw_refill b now = Some (flags, b') \<and> rw_ok b' \<and> rw_cfg b' = rw_cfg b"
proof -
  let ?steps = "to_uint32 (now - rw_last_refilled b) div TICKS_PER_STEP"
  have "0 \<le> ?steps" by (simp add: to_uint32_def TICKS_PER_STEP_def)
  moreover have ok: "cfg_ok (rw_cfg b)" "raw_ok (rw_cfg b) (read_bucket b)" "raw_ok (rw_cfg b) (write_bucket b)"
    using assms by (simp_all add: rw_ok_def)
  ultimately obtain e rb e' wb where
    "token_bucket_raw_refill_steps (read_bucket b) (rw_cfg b) ?steps = Some (e, rb)" "raw_ok (rw_cfg b) rb"
    "token_bucket_raw_refill_steps (write_bucket b) (rw_cfg b) ?steps = Some (e', wb)" "raw_ok (rw_cfg b) wb"
    using refill_steps_ok by meson
  then show ?thesis using ok by (auto simp: token_bucket_rw_refill_def Let_def rw_ok_def)
qed

lemma rw_reachable_ok: "rw_reachable b \<Longrightarrow> rw_ok b"
proof (induction rule: rw_reachable.induct)
  case (init r bu now)
  then show ?case using cfg_init_ok [of "rate_per_sec_to_rate_per_step r" bu] rate_per_step_bounds [of r]
    by (simp add: rw_ops_defs Let_def rw_ok_def raw_reset_ok)
next
  case (adjust b r bu)
  then show ?case using cfg_init_ok [of "rate_per_sec_to_rate_per_step r" bu] rate_per_step_bounds [of r]
    by (simp add: rw_ops_defs Let_def rw_ok_def raw_adjust_ok raw_ok_def [of "rw_cfg b"])
next
  case (reset b now)
  then show ?case by (simp add: rw_ops_defs rw_ok_def raw_reset_ok)
next
  case (refill b now flags b')
  then show ?case using rw_refill_total [of b now] by auto
next
  case (dec b n_read n_written)
  then show ?case using raw_dec_ok [of "rw_cfg b" "read_bucket b" n_read] raw_dec_ok [of "rw_cfg b" "write_bucket b" n_written]
    by (auto simp: rw_ops_defs rw_ok_def split: prod.splits)
qed

text \<open>C39: In every state that initialising, reconfiguring, resetting, refilling and decrementing can reach (as long
  as no decrement takes a bucket below the smallest 32 bit integer), neither bucket holds more than the
  burst, the rate per step is positive, and so no refill divides by zero, at any time stamp.\<close>

theorem token_bucket_rw_invariant:
  assumes "rw_reachable b"
  shows "0 < rate (rw_cfg b) \<and> burst (rw_cfg b) \<le> INT32_MAX \<and>
    INT32_MIN \<le> bucket (read_bucket b) \<and> bucket (read_bucket b) \<le> burst (rw_cfg b) \<and>
    INT32_MIN \<le> bucket (write_bucket b) \<and> bucket (write_bucket b) \<le> burst (rw_cfg b) \<and>
    token_bucket_rw_refill b now \<noteq> None"
  using rw_reachable_ok [OF assms] rw_refill_total [OF rw_reachable_ok [OF assms], of now]
  by (auto simp: rw_ok_def cfg_ok_def raw_ok_def)

theorem token_bucket_rw_invariant_witness:
  "token_bucket_rw_refill (snd (token_bucket_rw_dec (token_bucket_rw_init 1000000 5000 7) 6000 2)) 4294967295 \<noteq> None"
proof -
  have "rw_reachable (snd (token_bucket_rw_dec (token_bucket_rw_init 1000000 5000 7) 6000 2))"
    by (rule rw_reachable.dec, rule rw_reachable.init)
      (simp_all add: Let_def rw_ops_defs token_bucket_raw_reset_def token_bucket_cfg_init_def TOKEN_BUCKET_MAX_BURST_def to_int32_id)
  from token_bucket_rw_invariant [OF this, of 4294967295] show ?thesis by simp
qed

subsection \<open>The rate limit\<close>

text \<open>A history of a bucket: steps of time, and tokens taken by a caller that takes no more than the bucket shows.\<close>

datatype tb_event = Elapse int | Take int

fun tb_run :: "token_bucket_cfg \<Rightarrow> token_bucket_raw \<Rightarrow> tb_event list \<Rightarrow> token_bucket_raw option" where
  "tb_run cfg b [] = Some b"
| "tb_run cfg b (Elapse e # evs) =
    (if 0 \<le> e then Option.bind (token_bucket_raw_refill_steps b cfg e) (\<lambda>(_, b). tb_run cfg b evs) else None)"
| "tb_run cfg b (Take n # evs) =
    (if 0 \<le> n \<and> n \<le> token_bucket_raw_get b then tb_run cfg (snd (token_bucket_raw_dec b n)) evs else None)"

fun taken :: "tb_event list \<Rightarrow> int" where
  "taken [] = 0" | "taken (Elapse e # evs) = taken evs" | "taken (Take n # evs) = n + taken evs"

fun elapsed_steps :: "tb_event list \<Rightarrow> int" where
  "elapsed_steps [] = 0" | "elapsed_steps (Elapse e # evs) = e + elapsed_steps evs" | "elapsed_steps (Take n # evs) = elapsed_steps evs"

lemma tb_run_budget:
  "cfg_ok cfg \<Longrightarrow> raw_ok cfg b \<Longrightarrow> 0 \<le> bucket b \<Longrightarrow> tb_run cfg b evs = Some b' \<Longrightarrow>
   0 \<le> bucket b' \<and> taken evs + bucket b' \<le> bucket b + rate cfg * elapsed_steps evs"
proof (induction cfg b evs rule: tb_run.induct)
  case (2 cfg b e evs)
  then have e: "0 \<le> e" by (simp split: if_splits)
  have le: "0 \<le> rate cfg * e" using e "2.prems"(1) by (simp add: cfg_ok_def)
  obtain f c where c: "token_bucket_raw_refill_steps b cfg e = Some (f, c)" "raw_ok cfg c"
    "bucket c = min (burst cfg) (bucket b + rate cfg * e)"
    using refill_steps_ok [OF "2.prems"(1,2) e] by blast
  moreover have "0 \<le> bucket c" using c(3) le "2.prems"(1,3) by (simp add: cfg_ok_def)
  ultimately have "0 \<le> bucket b' \<and> taken evs + bucket b' \<le> bucket c + rate cfg * elapsed_steps evs"
    using "2.IH" [OF e c(1) refl] "2.prems" e by simp
  moreover have "bucket c \<le> bucket b + rate cfg * e" using c(3) by simp
  ultimately show ?case by (simp add: algebra_simps)
next
  case (3 cfg b n evs)
  then have n: "0 \<le> n" "n \<le> bucket b" by (auto simp: token_bucket_raw_get_def split: if_splits)
  then have "token_bucket_raw_dec b n = (0 < bucket b \<and> bucket b \<le> n, b\<lparr> bucket := bucket b - n \<rparr>)"
    using "3.prems"(1,2) by (intro raw_dec_eq) (auto simp: raw_ok_def cfg_ok_def)
  then show ?case using 3 n by (auto simp: raw_ok_def split: if_splits)
qed simp

text \<open>C6: A caller that starts with a full bucket and never takes more than the bucket shows has, after any
  history of refills and decrements, taken at most the burst plus the rate times the elapsed steps.\<close>

theorem token_bucket_rate_limit:
  assumes "0 < r" and "r < 2 ^ 32" and "0 \<le> bu"
    and "tb_run (token_bucket_cfg_init r bu) (token_bucket_raw_reset (token_bucket_cfg_init r bu)) evs = Some b"
  shows "taken evs \<le> min bu TOKEN_BUCKET_MAX_BURST + r * elapsed_steps evs"
proof -
  let ?cfg = "token_bucket_cfg_init r bu"
  have ok: "cfg_ok ?cfg" by (rule cfg_init_ok [OF assms(1-3)])
  have "0 \<le> bucket (token_bucket_raw_reset ?cfg)" using ok by (simp add: token_bucket_raw_reset_def cfg_ok_def)
  from tb_run_budget [OF ok raw_reset_ok [OF ok] this assms(4)]
  have "taken evs \<le> burst ?cfg + rate ?cfg * elapsed_steps evs" by (simp add: token_bucket_raw_reset_def)
  moreover have "burst ?cfg = min bu TOKEN_BUCKET_MAX_BURST" "rate ?cfg = r"
    using assms(3) by (auto simp: token_bucket_cfg_init_def TOKEN_BUCKET_MAX_BURST_def Let_def to_int32_id)
  ultimately show ?thesis by simp
qed

theorem token_bucket_rate_limit_witness:
  "taken [Take 8, Elapse 3, Take 5] \<le> min 10 TOKEN_BUCKET_MAX_BURST + 2 * elapsed_steps [Take 8, Elapse 3, Take 5]"
  by (rule token_bucket_rate_limit [of 2 10 _ "\<lparr> bucket = 3 \<rparr>"])
    (simp_all add: token_bucket_cfg_init_def TOKEN_BUCKET_MAX_BURST_def to_int32_def token_bucket_raw_reset_def token_bucket_raw_get_def
      token_bucket_raw_dec_def token_bucket_raw_refill_steps_def to_size_t_def to_uint32_def)

end
