(* ===== verification/Tor_Consdiff_Changes.thy ===== *)
theory Tor_Consdiff_Changes
  imports Tor_Prelude
begin

text \<open>
  The first half of \<^verbatim>\<open>feature/dircommon/consdiff.c\<close>: which lines two documents share. Slices of line
  lists, the table of longest common subsequence lengths, and the divide-and-conquer search
  \<^verbatim>\<open>calc_changes\<close>, which records its result in two bit arrays (\<^verbatim>\<open>lib/container/bitarray.h\<close>).
  A \<^verbatim>\<open>cdline_t\<close> is the byte list of its \<^verbatim>\<open>len\<close> bytes.
\<close>

subsection \<open>Bit arrays\<close>

type_synonym bitarray = "32 word list"

abbreviation (input) BITARRAY_SHIFT :: nat where "BITARRAY_SHIFT \<equiv> 5"
abbreviation (input) BITARRAY_MASK :: nat where "BITARRAY_MASK \<equiv> 31"

definition bitarray_init_zero :: "nat \<Rightarrow> bitarray" where
  "bitarray_init_zero n_bits = replicate (drop_bit BITARRAY_SHIFT (n_bits + BITARRAY_MASK)) 0"

text \<open>Growing the array keeps the old words and appends zero words (the \<^verbatim>\<open>memset\<close> after the reallocation).\<close>

definition bitarray_expand :: "bitarray \<Rightarrow> nat \<Rightarrow> nat \<Rightarrow> bitarray" where
  "bitarray_expand ba n_bits_old n_bits_new =
    (let sz_old = drop_bit BITARRAY_SHIFT (n_bits_old + BITARRAY_MASK); sz_new = drop_bit BITARRAY_SHIFT (n_bits_new + BITARRAY_MASK)
     in if sz_new \<le> sz_old then ba else take sz_old ba @ replicate (sz_new - sz_old) 0)"

definition bitarray_set :: "bitarray \<Rightarrow> nat \<Rightarrow> bitarray" where
  "bitarray_set b i = b[drop_bit BITARRAY_SHIFT i := b ! drop_bit BITARRAY_SHIFT i OR push_bit (i AND BITARRAY_MASK) 1]"

definition bitarray_clear :: "bitarray \<Rightarrow> nat \<Rightarrow> bitarray" where
  "bitarray_clear b i = b[drop_bit BITARRAY_SHIFT i := b ! drop_bit BITARRAY_SHIFT i AND NOT (push_bit (i AND BITARRAY_MASK) 1)]"

definition bitarray_is_set :: "bitarray \<Rightarrow> nat \<Rightarrow> bool" where
  "bitarray_is_set b i \<longleftrightarrow> b ! drop_bit BITARRAY_SHIFT i AND push_bit (i AND BITARRAY_MASK) 1 \<noteq> 0"

text \<open>What a client of bit arrays relies on.\<close>

locale bit_array =
  fixes room :: "'b \<Rightarrow> nat" and init :: "nat \<Rightarrow> 'b" and set_bit_at :: "'b \<Rightarrow> nat \<Rightarrow> 'b" and bit_at :: "'b \<Rightarrow> nat \<Rightarrow> bool"
  assumes room_init: "n \<le> room (init n)" and room_set: "room (set_bit_at b i) = room b"
    and init_clear: "i < room (init n) \<Longrightarrow> \<not> bit_at (init n) i"
    and set_get: "i < room b \<Longrightarrow> j < room b \<Longrightarrow> bit_at (set_bit_at b i) j \<longleftrightarrow> i = j \<or> bit_at b j"
begin

lemma fold_set:
  assumes "list_all (\<lambda>i. i < room b) is"
  shows "room (fold (\<lambda>i b. if skip i then b else set_bit_at b i) is b) = room b"
    and "j < room b \<Longrightarrow> bit_at (fold (\<lambda>i b. if skip i then b else set_bit_at b i) is b) j \<longleftrightarrow>
      bit_at b j \<or> j \<in> set is \<and> \<not> skip j"
  using assms
proof (induction "is" arbitrary: b)
  case (Cons i "is")
  case 1
  show ?case using Cons.IH(1) [of "if skip i then b else set_bit_at b i"] 1 by (simp add: room_set)
next
  case (Cons i "is")
  case 2
  show ?case using Cons.IH(2) [of "if skip i then b else set_bit_at b i"] 2 by (auto simp: room_set set_get)
qed simp_all

end

lemma word32_bit_mask: "k < 32 \<Longrightarrow> (w AND push_bit k 1 :: 32 word) \<noteq> 0 \<longleftrightarrow> bit w k"
proof -
  assume k: "k < 32"
  have "bit (w AND push_bit k 1) i \<longleftrightarrow> i = k \<and> bit w k" for i
    using k by (auto simp: bit_simps)
  moreover have "x = 0 \<longleftrightarrow> (\<forall>i. \<not> bit x i)" for x :: "32 word" by (auto intro: bit_word_eqI)
  ultimately show ?thesis by blast
qed

lemma and_31: "(i :: nat) AND 31 = i mod 32"
  using take_bit_eq_mask [of 5 i] by (simp add: take_bit_eq_mod mask_eq_exp_minus_1)

lemma is_set_bit: "bitarray_is_set b i \<longleftrightarrow> bit (b ! (i div 32)) (i mod 32)"
  using word32_bit_mask [of "i mod 32" "b ! (i div 32)"] by (simp add: bitarray_is_set_def and_31 drop_bit_eq_div)

interpretation bits: bit_array "\<lambda>b. 32 * length b" bitarray_init_zero bitarray_set bitarray_is_set
proof
  show "n \<le> 32 * length (bitarray_init_zero n)" for n by (simp add: bitarray_init_zero_def drop_bit_eq_div)
  show "32 * length (bitarray_set b i) = 32 * length b" for b i by (simp add: bitarray_set_def)
  show "\<not> bitarray_is_set (bitarray_init_zero n) i" if "i < 32 * length (bitarray_init_zero n)" for i n
    using that by (simp add: is_set_bit bitarray_init_zero_def less_mult_imp_div_less)
  show "bitarray_is_set (bitarray_set b i) j \<longleftrightarrow> i = j \<or> bitarray_is_set b j"
    if "i < 32 * length b" "j < 32 * length b" for b i j
  proof -
    have "i = j \<longleftrightarrow> i div 32 = j div 32 \<and> i mod 32 = j mod 32" by (metis div_mult_mod_eq)
    then show ?thesis using that
      by (auto simp: is_set_bit bitarray_set_def and_31 nth_list_update bit_simps drop_bit_eq_div)
  qed
qed

lemma bitarray_clear_get:
  "i < 32 * length b \<Longrightarrow> j < 32 * length b \<Longrightarrow> bitarray_is_set (bitarray_clear b i) j \<longleftrightarrow> i \<noteq> j \<and> bitarray_is_set b j"
proof -
  assume "i < 32 * length b" "j < 32 * length b"
  then have "i div 32 < length b" "j div 32 < length b" by (simp_all add: less_mult_imp_div_less mult.commute)
  moreover have "i = j \<longleftrightarrow> i div 32 = j div 32 \<and> i mod 32 = j mod 32" by (metis mod_mult_div_eq)
  ultimately show ?thesis
    by (auto simp: is_set_bit bitarray_clear_def and_31 nth_list_update bit_simps drop_bit_eq_div)
qed

lemma bitarray_expand_get:
  assumes "length ba = (n_old + 31) div 32" and "i < n_new"
  shows "n_new \<le> 32 * length (bitarray_expand ba n_old n_new)"
    and "bitarray_is_set (bitarray_expand ba n_old n_new) i \<longleftrightarrow> i div 32 < length ba \<and> bitarray_is_set ba i"
proof -
  have "n_new \<le> 32 * ((n_new + 31) div 32)" "i div 32 < (n_new + 31) div 32" using assms(2) by linarith+
  moreover from this have "\<not> i div 32 < length ba \<Longrightarrow> i div 32 - length ba < (n_new + 31) div 32 - length ba"
    by (simp add: diff_less_mono)
  ultimately show "n_new \<le> 32 * length (bitarray_expand ba n_old n_new)"
    and "bitarray_is_set (bitarray_expand ba n_old n_new) i \<longleftrightarrow> i div 32 < length ba \<and> bitarray_is_set ba i"
    using assms(1) by (auto simp: bitarray_expand_def Let_def drop_bit_eq_div is_set_bit nth_append)
qed


subsection \<open>Lines and slices\<close>

type_synonym cdline = bytes

definition lines_eq :: "cdline \<Rightarrow> cdline \<Rightarrow> bool" where
  "lines_eq a b \<longleftrightarrow> length a = length b \<and> a = b"

lemma lines_eq_eq [simp]: "lines_eq a b \<longleftrightarrow> a = b"
  by (auto simp: lines_eq_def)

definition line_str_eq :: "cdline \<Rightarrow> bytes \<Rightarrow> bool" where
  "line_str_eq a b \<longleftrightarrow> lines_eq a b"

definition line_starts_with_str :: "cdline \<Rightarrow> bytes \<Rightarrow> bool" where
  "line_starts_with_str a b \<longleftrightarrow> length a \<ge> length b \<and> take (length b) a = b"

record smartlist_slice =
  slice_list :: "cdline list"
  slice_offset :: nat
  slice_len :: nat

definition smartlist_slice :: "cdline list \<Rightarrow> int \<Rightarrow> int \<Rightarrow> smartlist_slice option" where
  "smartlist_slice l start end' = do {
     let list_len = int (length l);
     tor_assert (start \<ge> 0);
     tor_assert (start \<le> list_len);
     let end' = (if end' = -1 then list_len else end');
     tor_assert (start \<le> end');
     Some \<lparr> slice_list = l, slice_offset = nat start, slice_len = nat (end' - start) \<rparr> }"

text \<open>The line that the navigation of \<^verbatim>\<open>lcs_lengths\<close> reaches after \<open>i\<close> steps in a direction.\<close>

definition slice_at :: "smartlist_slice \<Rightarrow> int \<Rightarrow> nat \<Rightarrow> cdline" where
  "slice_at s direction i =
    slice_list s ! (if direction = -1 then slice_offset s + (slice_len s - 1) - i else slice_offset s + i)"

definition lcs_inner :: "cdline \<Rightarrow> smartlist_slice \<Rightarrow> int \<Rightarrow> nat list \<Rightarrow> nat list" where
  "lcs_inner line1 sl2 direction prev =
    fold (\<lambda>j result. result[j + 1 := (if lines_eq line1 (slice_at sl2 direction j) then prev ! j + 1
                                      else max (result ! j) (prev ! (j + 1)))]) [0..<slice_len sl2] prev"

definition lcs_lengths :: "smartlist_slice \<Rightarrow> smartlist_slice \<Rightarrow> int \<Rightarrow> nat list option" where
  "lcs_lengths sl1 sl2 direction = do {
     tor_assert (direction = 1 \<or> direction = -1);
     Some (fold (\<lambda>i result. lcs_inner (slice_at sl1 direction i) sl2 direction result) [0..<slice_len sl1]
       (replicate (slice_len sl2 + 1) 0)) }"

text \<open>The two loops of \<^verbatim>\<open>trim_slices\<close>; the indices of the second one are those of the last lines.\<close>

function trim_front :: "smartlist_slice \<Rightarrow> smartlist_slice \<Rightarrow> smartlist_slice \<times> smartlist_slice" where
  "trim_front s1 s2 =
    (if slice_len s1 > 0 \<and> slice_len s2 > 0 \<and>
        lines_eq (slice_list s1 ! slice_offset s1) (slice_list s2 ! slice_offset s2)
     then trim_front (s1\<lparr> slice_offset := slice_offset s1 + 1, slice_len := slice_len s1 - 1 \<rparr>)
            (s2\<lparr> slice_offset := slice_offset s2 + 1, slice_len := slice_len s2 - 1 \<rparr>)
     else (s1, s2))"
  by pat_completeness auto
termination
  by (relation "measure (\<lambda>(s1, s2). slice_len s1)") auto

function trim_back :: "smartlist_slice \<Rightarrow> smartlist_slice \<Rightarrow> smartlist_slice \<times> smartlist_slice" where
  "trim_back s1 s2 =
    (if slice_len s1 > 0 \<and> slice_len s2 > 0 \<and>
        lines_eq (slice_list s1 ! (slice_offset s1 + slice_len s1 - 1)) (slice_list s2 ! (slice_offset s2 + slice_len s2 - 1))
     then trim_back (s1\<lparr> slice_len := slice_len s1 - 1 \<rparr>) (s2\<lparr> slice_len := slice_len s2 - 1 \<rparr>)
     else (s1, s2))"
  by pat_completeness auto
termination
  by (relation "measure (\<lambda>(s1, s2). slice_len s1)") auto

declare trim_front.simps [simp del] trim_back.simps [simp del]

definition trim_slices :: "smartlist_slice \<Rightarrow> smartlist_slice \<Rightarrow> smartlist_slice \<times> smartlist_slice" where
  "trim_slices s1 s2 = (let (s1, s2) = trim_front s1 s2 in trim_back s1 s2)"

text \<open>\<open>None\<close> stands for the result \<open>-1\<close>.\<close>

definition smartlist_slice_string_pos :: "smartlist_slice \<Rightarrow> cdline \<Rightarrow> nat option" where
  "smartlist_slice_string_pos s line =
    find (\<lambda>i. lines_eq (slice_list s ! i) line) [slice_offset s..<slice_offset s + slice_len s]"

definition set_changed ::
  "bitarray \<Rightarrow> bitarray \<Rightarrow> smartlist_slice \<Rightarrow> smartlist_slice \<Rightarrow> (bitarray \<times> bitarray) option" where
  "set_changed changed1 changed2 sl1 sl2 = do {
     tor_assert (slice_len sl1 = 0 \<or> slice_len sl1 = 1);
     let toskip = (if slice_len sl1 = 1
                   then smartlist_slice_string_pos sl2 (slice_list sl1 ! slice_offset sl1) else None);
     let changed1 = (if slice_len sl1 = 1 \<and> toskip = None then bitarray_set changed1 (slice_offset sl1) else changed1);
     Some (changed1, fold (\<lambda>i b. if toskip = Some i then b else bitarray_set b i)
       [slice_offset sl2..<slice_offset sl2 + slice_len sl2] changed2) }"

definition optimal_column_to_split :: "smartlist_slice \<Rightarrow> smartlist_slice \<Rightarrow> smartlist_slice \<Rightarrow> nat option" where
  "optimal_column_to_split top1 bot1 sl2 = do {
     lens_top \<leftarrow> lcs_lengths top1 sl2 1;
     lens_bot \<leftarrow> lcs_lengths bot1 sl2 (-1);
     Some (fst (fold (\<lambda>i (column, max_sum).
         let total1 = int (lens_top ! i + lens_bot ! (slice_len sl2 - i))
         in if total1 > max_sum then (i, total1) else (column, max_sum)) [0..<slice_len sl2 + 1] (0, -1))) }"

lemma smartlist_slice_eq:
  "a \<le> b \<Longrightarrow> a \<le> length l \<Longrightarrow>
   smartlist_slice l (int a) (int b) = Some \<lparr> slice_list = l, slice_offset = a, slice_len = b - a \<rparr>"
  by (simp add: smartlist_slice_def Let_def nat_diff_distrib)

lemma smartlist_slice_len:
  "smartlist_slice l a b = Some s \<Longrightarrow> 0 \<le> b \<Longrightarrow> int (slice_len s) = b - a"
  by (auto simp: smartlist_slice_def Let_def)

lemma trim_front_len: "slice_len (fst (trim_front s1 s2)) \<le> slice_len s1"
proof (induction s1 s2 rule: trim_front.induct)
  case (1 s1 s2)
  then show ?case by (subst trim_front.simps) auto
qed

lemma trim_back_len: "slice_len (fst (trim_back s1 s2)) \<le> slice_len s1"
proof (induction s1 s2 rule: trim_back.induct)
  case (1 s1 s2)
  then show ?case by (subst trim_back.simps) auto
qed

lemma trim_slices_len: "trim_slices s1 s2 = (t1, t2) \<Longrightarrow> slice_len t1 \<le> slice_len s1"
  using trim_back_len [of "fst (trim_front s1 s2)" "snd (trim_front s1 s2)"] trim_front_len [of s1 s2]
  by (simp add: trim_slices_def split: prod.splits)

function calc_changes ::
  "smartlist_slice \<Rightarrow> smartlist_slice \<Rightarrow> bitarray \<Rightarrow> bitarray \<Rightarrow> (bitarray \<times> bitarray) option" where
  "calc_changes s1 s2 changed1 changed2 =
    (let (sl1, sl2) = trim_slices s1 s2
     in if slice_len sl1 \<le> 1 then set_changed changed1 changed2 sl1 sl2
        else if slice_len sl2 \<le> 1 then map_option prod.swap (set_changed changed2 changed1 sl2 sl1)
        else do {
          let mid = slice_len sl1 div 2;
          top1 \<leftarrow> smartlist_slice (slice_list sl1) (int (slice_offset sl1)) (int (slice_offset sl1 + mid));
          bot1 \<leftarrow> smartlist_slice (slice_list sl1) (int (slice_offset sl1 + mid)) (int (slice_offset sl1 + slice_len sl1));
          mid2 \<leftarrow> optimal_column_to_split top1 bot1 sl2;
          left \<leftarrow> smartlist_slice (slice_list sl2) (int (slice_offset sl2)) (int (slice_offset sl2 + mid2));
          right \<leftarrow> smartlist_slice (slice_list sl2) (int (slice_offset sl2 + mid2)) (int (slice_offset sl2 + slice_len sl2));
          (changed1, changed2) \<leftarrow> calc_changes top1 left changed1 changed2;
          calc_changes bot1 right changed1 changed2 })"
  by pat_completeness auto
termination
proof (relation "measure (\<lambda>(s1, s2, c1, c2). slice_len s1)", simp, goal_cases)
  case (1 s1 s2 c1 c2 p sl1 sl2 mid top1 bot1 mid2 left right)
  then show ?case using trim_slices_len [of s1 s2 sl1 sl2] by (fastforce dest!: smartlist_slice_len)
next
  case (2 s1 s2 c1 c2 p sl1 sl2 mid top1 bot1 mid2 left right)
  then show ?case using trim_slices_len [of s1 s2 sl1 sl2] by (fastforce dest!: smartlist_slice_len)
qed

declare calc_changes.simps [simp del]

subsection \<open>The unchanged lines of both documents agree\<close>

text \<open>The lines from \<open>a\<close> to before \<open>b\<close> that are not marked as changed.\<close>

definition kept :: "cdline list \<Rightarrow> bitarray \<Rightarrow> nat \<Rightarrow> nat \<Rightarrow> cdline list" where
  "kept l c a b = map (\<lambda>i. l ! i) (filter (\<lambda>i. \<not> bitarray_is_set c i) [a..<b])"

lemma kept_append: "a \<le> m \<Longrightarrow> m \<le> b \<Longrightarrow> kept l c a b = kept l c a m @ kept l c m b"
  using upt_add_eq_append [of a m "b - m"] by (simp add: kept_def)

lemma kept_cong: "(\<And>i. a \<le> i \<Longrightarrow> i < b \<Longrightarrow> bitarray_is_set c i = bitarray_is_set c' i) \<Longrightarrow> kept l c a b = kept l c' a b"
  unfolding kept_def by (intro arg_cong [where f = "map _"] filter_cong) auto

lemma kept_single: "\<not> bitarray_is_set c a \<Longrightarrow> kept l c a (Suc a) = [l ! a]"
  by (simp add: kept_def)

lemma kept_empty [simp]: "kept l c a a = []"
  by (simp add: kept_def)

lemma kept_all_changed: "(\<And>i. a \<le> i \<Longrightarrow> i < b \<Longrightarrow> bitarray_is_set c i) \<Longrightarrow> kept l c a b = []"
  by (simp add: kept_def filter_empty_conv)

text \<open>\<open>fresh c l a b\<close>: the range lies in the list and in the bit array, and no bit of it is set.\<close>

definition fresh_range :: "bitarray \<Rightarrow> cdline list \<Rightarrow> nat \<Rightarrow> nat \<Rightarrow> bool" where
  "fresh_range c l a b \<longleftrightarrow> a \<le> b \<and> b \<le> length l \<and> length l \<le> 32 * length c \<and> (\<forall>i. a \<le> i \<and> i < b \<longrightarrow> \<not> bitarray_is_set c i)"

text \<open>\<open>only_in c c' l a b\<close>: \<open>c'\<close> differs from \<open>c\<close> in the range at most.\<close>

definition only_in :: "bitarray \<Rightarrow> bitarray \<Rightarrow> cdline list \<Rightarrow> nat \<Rightarrow> nat \<Rightarrow> bool" where
  "only_in c c' l a b \<longleftrightarrow> length c' = length c \<and>
     (\<forall>i < length l. \<not> (a \<le> i \<and> i < b) \<longrightarrow> bitarray_is_set c' i = bitarray_is_set c i)"

lemma only_in_refl: "only_in c c l a b"
  by (simp add: only_in_def)

lemma only_in_mono: "only_in c c' l a b \<Longrightarrow> a' \<le> a \<Longrightarrow> b \<le> b' \<Longrightarrow> only_in c c' l a' b'"
  by (auto simp: only_in_def)

lemma only_in_trans: "only_in c c' l a b \<Longrightarrow> only_in c' c'' l a b \<Longrightarrow> only_in c c'' l a b"
  by (auto simp: only_in_def)

lemma only_in_kept: "only_in c c' l a b \<Longrightarrow> y \<le> a \<or> b \<le> x \<Longrightarrow> y \<le> length l \<Longrightarrow> kept l c' x y = kept l c x y"
  by (rule kept_cong) (auto simp: only_in_def)

lemma only_in_fresh: "only_in c c' l a b \<Longrightarrow> y \<le> a \<or> b \<le> x \<Longrightarrow> fresh_range c l x y \<Longrightarrow> fresh_range c' l x y"
  by (auto simp: only_in_def fresh_range_def)

lemma fresh_sub: "fresh_range c l a b \<Longrightarrow> a \<le> x \<Longrightarrow> x \<le> y \<Longrightarrow> y \<le> b \<Longrightarrow> fresh_range c l x y"
  by (auto simp: fresh_range_def)

lemma fresh_kept: "fresh_range c l a b \<Longrightarrow> kept l c a b = map (\<lambda>i. l ! i) [a..<b]"
  by (simp add: kept_def fresh_range_def)

text \<open>The contract of one step of the search, on the ranges \<open>[a1, b1)\<close> and \<open>[a2, b2)\<close>.\<close>

definition marks :: "cdline list \<Rightarrow> cdline list \<Rightarrow> nat \<Rightarrow> nat \<Rightarrow> nat \<Rightarrow> nat \<Rightarrow> bitarray \<times> bitarray \<Rightarrow> bitarray \<times> bitarray \<Rightarrow> bool" where
  "marks l1 l2 a1 b1 a2 b2 c c' \<longleftrightarrow> only_in (fst c) (fst c') l1 a1 b1 \<and> only_in (snd c) (snd c') l2 a2 b2 \<and>
     kept l1 (fst c') a1 b1 = kept l2 (snd c') a2 b2"

lemma marks_swap: "marks l2 l1 a2 b2 a1 b1 (prod.swap c) (prod.swap c') \<longleftrightarrow> marks l1 l2 a1 b1 a2 b2 c c'"
  by (auto simp: marks_def)

lemma fold_mark:
  assumes "fresh_range c l a b"
  shows "only_in c (fold (\<lambda>i b. if skip = Some i then b else bitarray_set b i) [a..<b] c) l a b"
    and "a \<le> i \<Longrightarrow> i < b \<Longrightarrow> bitarray_is_set (fold (\<lambda>i b. if skip = Some i then b else bitarray_set b i) [a..<b] c) i \<longleftrightarrow> skip \<noteq> Some i"
proof -
  have r: "list_all (\<lambda>i. i < 32 * length c) [a..<b]" using assms by (auto simp: fresh_range_def list_all_iff)
  note f = bits.fold_set [OF r, where skip = "\<lambda>i. skip = Some i"]
  show "only_in c (fold (\<lambda>i b. if skip = Some i then b else bitarray_set b i) [a..<b] c) l a b"
    using f assms by (auto simp: only_in_def fresh_range_def)
  show "bitarray_is_set (fold (\<lambda>i b. if skip = Some i then b else bitarray_set b i) [a..<b] c) i \<longleftrightarrow> skip \<noteq> Some i"
    if "a \<le> i" "i < b"
    using f(2) [of i] that assms by (auto simp: fresh_range_def)
qed

lemma set_changed_marks:
  assumes "fresh_range c1 l1 a1 b1" and "fresh_range c2 l2 a2 b2" and "b1 - a1 \<le> 1"
  shows "\<exists>c'. set_changed c1 c2 \<lparr> slice_list = l1, slice_offset = a1, slice_len = b1 - a1 \<rparr>
      \<lparr> slice_list = l2, slice_offset = a2, slice_len = b2 - a2 \<rparr> = Some c' \<and> marks l1 l2 a1 b1 a2 b2 (c1, c2) c'"
proof -
  define skip where "skip = (if b1 - a1 = 1 then find (\<lambda>i. l2 ! i = l1 ! a1) [a2..<b2] else None)"
  define d1 where "d1 = (if b1 - a1 = 1 \<and> skip = None then bitarray_set c1 a1 else c1)"
  define d2 where "d2 = fold (\<lambda>i b. if skip = Some i then b else bitarray_set b i) [a2..<b2] c2"
  have ab: "a1 \<le> b1" "a2 \<le> b2" "b1 \<le> 32 * length c1" "length l1 \<le> 32 * length c1" using assms(1,2) by (auto simp: fresh_range_def)
  have run: "set_changed c1 c2 \<lparr> slice_list = l1, slice_offset = a1, slice_len = b1 - a1 \<rparr>
      \<lparr> slice_list = l2, slice_offset = a2, slice_len = b2 - a2 \<rparr> = Some (d1, d2)"
    using assms(3) ab by (auto simp: set_changed_def smartlist_slice_string_pos_def skip_def d1_def d2_def Let_def le_Suc_eq)
  note m2 = fold_mark [OF assms(2), where skip = skip, folded d2_def]
  have "only_in c1 d1 l1 a1 b1"
    using ab bits.set_get [of a1 c1] bits.room_set [of c1 a1] by (auto simp: only_in_def d1_def)
  moreover have "kept l1 d1 a1 b1 = kept l2 d2 a2 b2"
  proof (cases skip)
    case None
    then have "kept l2 d2 a2 b2 = []" using m2(2) by (intro kept_all_changed) simp
    moreover have "bitarray_is_set d1 i" if "a1 \<le> i" "i < b1" for i
    proof -
      have "i = a1" "b1 - a1 = 1" using that assms(3) by linarith+
      then show ?thesis using that ab None bits.set_get [of a1 c1 a1] by (simp add: d1_def)
    qed
    then have "kept l1 d1 a1 b1 = []" by (rule kept_all_changed)
    ultimately show ?thesis by simp
  next
    case (Some k)
    then have k: "b1 = Suc a1" "a2 \<le> k" "k < b2" "l2 ! k = l1 ! a1"
      using ab by (auto simp: skip_def find_Some_iff split: if_splits)
    have "kept l2 d2 a2 b2 = kept l2 d2 a2 k @ kept l2 d2 k (Suc k) @ kept l2 d2 (Suc k) b2"
      using k kept_append [of a2 k b2 l2 d2] kept_append [of k "Suc k" b2 l2 d2] by simp
    also have "\<dots> = [l2 ! k]"
    proof -
      have "kept l2 d2 a2 k = []" "kept l2 d2 (Suc k) b2 = []" using k Some m2(2) by (intro kept_all_changed; simp)+
      then show ?thesis using k Some m2(2) by (simp add: kept_single)
    qed
    also have "\<dots> = kept l1 d1 a1 b1"
      using k Some assms(1) by (simp add: d1_def kept_single fresh_range_def)
    finally show ?thesis by simp
  qed
  ultimately show ?thesis using run m2(1) by (auto simp: marks_def)
qed

definition mk_slice :: "cdline list \<Rightarrow> nat \<Rightarrow> nat \<Rightarrow> smartlist_slice" where
  "mk_slice l a b = \<lparr> slice_list = l, slice_offset = a, slice_len = b - a \<rparr>"

lemma mk_slice_sel [simp]:
  "slice_list (mk_slice l a b) = l" "slice_offset (mk_slice l a b) = a" "slice_len (mk_slice l a b) = b - a"
  by (simp_all add: mk_slice_def)

lemma trim_front_mk:
  assumes "a1 \<le> b1" and "a2 \<le> b2"
  shows "\<exists>k. trim_front (mk_slice l1 a1 b1) (mk_slice l2 a2 b2) = (mk_slice l1 (a1 + k) b1, mk_slice l2 (a2 + k) b2) \<and>
    a1 + k \<le> b1 \<and> a2 + k \<le> b2 \<and> (\<forall>i < k. l1 ! (a1 + i) = l2 ! (a2 + i))"
  using assms
proof (induction "b1 - a1" arbitrary: a1 a2 rule: less_induct)
  case less
  show ?case
  proof (cases "a1 < b1 \<and> a2 < b2 \<and> l1 ! a1 = l2 ! a2")
    case True
    then obtain k where k: "trim_front (mk_slice l1 (Suc a1) b1) (mk_slice l2 (Suc a2) b2) =
        (mk_slice l1 (Suc a1 + k) b1, mk_slice l2 (Suc a2 + k) b2)" "Suc a1 + k \<le> b1" "Suc a2 + k \<le> b2"
        "\<forall>i < k. l1 ! (Suc a1 + i) = l2 ! (Suc a2 + i)"
      using less(1) [of "Suc a1" "Suc a2"] by (meson True Suc_leI diff_less_mono2 lessI)
    have "\<forall>i < Suc k. l1 ! (a1 + i) = l2 ! (a2 + i)" using k(4) True by (auto simp: less_Suc_eq_0_disj)
    moreover have "trim_front (mk_slice l1 a1 b1) (mk_slice l2 a2 b2) =
        trim_front (mk_slice l1 (Suc a1) b1) (mk_slice l2 (Suc a2) b2)"
      using True by (subst trim_front.simps) (simp add: mk_slice_def)
    ultimately show ?thesis using k by (intro exI [of _ "Suc k"]) simp
  next
    case False
    then have "trim_front (mk_slice l1 a1 b1) (mk_slice l2 a2 b2) = (mk_slice l1 a1 b1, mk_slice l2 a2 b2)"
      by (subst trim_front.simps) auto
    then show ?thesis using less.prems by (intro exI [of _ 0]) simp
  qed
qed

lemma trim_back_mk:
  assumes "a1 \<le> b1" and "a2 \<le> b2"
  shows "\<exists>k. trim_back (mk_slice l1 a1 b1) (mk_slice l2 a2 b2) = (mk_slice l1 a1 (b1 - k), mk_slice l2 a2 (b2 - k)) \<and>
    k \<le> b1 - a1 \<and> k \<le> b2 - a2 \<and> (\<forall>i < k. l1 ! (b1 - k + i) = l2 ! (b2 - k + i))"
  using assms
proof (induction "b1 - a1" arbitrary: b1 b2 rule: less_induct)
  case less
  show ?case
  proof (cases "a1 < b1 \<and> a2 < b2 \<and> l1 ! (b1 - 1) = l2 ! (b2 - 1)")
    case True
    then have pre: "b1 - 1 - a1 < b1 - a1" "a1 \<le> b1 - 1" "a2 \<le> b2 - 1" by linarith+
    then obtain k where k: "trim_back (mk_slice l1 a1 (b1 - 1)) (mk_slice l2 a2 (b2 - 1)) =
        (mk_slice l1 a1 (b1 - 1 - k), mk_slice l2 a2 (b2 - 1 - k))" "k \<le> b1 - 1 - a1" "k \<le> b2 - 1 - a2"
        "\<forall>i < k. l1 ! (b1 - 1 - k + i) = l2 ! (b2 - 1 - k + i)"
      using less(1) [OF pre] by blast
    have "l1 ! (b1 - Suc k + i) = l2 ! (b2 - Suc k + i)" if "i < Suc k" for i
    proof (cases "i = k")
      case i: True
      have "b1 - Suc k + i = b1 - 1" "b2 - Suc k + i = b2 - 1" using k(2,3) True i by linarith+
      then show ?thesis using True by simp
    next
      case False
      then show ?thesis using k(4) that by simp
    qed
    moreover have "trim_back (mk_slice l1 a1 b1) (mk_slice l2 a2 b2) = trim_back (mk_slice l1 a1 (b1 - 1)) (mk_slice l2 a2 (b2 - 1))"
      using True by (subst trim_back.simps) (simp add: mk_slice_def)
    moreover have "Suc k \<le> b1 - a1" "Suc k \<le> b2 - a2" using k(2,3) True by linarith+
    ultimately show ?thesis using k(1) by (intro exI [of _ "Suc k"]) simp
  next
    case False
    then have "trim_back (mk_slice l1 a1 b1) (mk_slice l2 a2 b2) = (mk_slice l1 a1 b1, mk_slice l2 a2 b2)"
      by (subst trim_back.simps) auto
    then show ?thesis using less.prems by (intro exI [of _ 0]) simp
  qed
qed

lemma map_nth_shift: "(\<And>i. i < k \<Longrightarrow> l1 ! (a1 + i) = l2 ! (a2 + i)) \<Longrightarrow> map (\<lambda>i. l1 ! i) [a1..<a1 + k] = map (\<lambda>i. l2 ! i) [a2..<a2 + k]"
  by (rule nth_equalityI) simp_all

lemma marks_extend:
  assumes "fresh_range c1 l1 a1 b1" and "fresh_range c2 l2 a2 b2"
    and "marks l1 l2 (a1 + k) (b1 - m) (a2 + k) (b2 - m) (c1, c2) c'"
    and "a1 + k \<le> b1 - m" and "a2 + k \<le> b2 - m" and "m \<le> b1" and "m \<le> b2"
    and "\<And>i. i < k \<Longrightarrow> l1 ! (a1 + i) = l2 ! (a2 + i)" and "\<And>i. i < m \<Longrightarrow> l1 ! (b1 - m + i) = l2 ! (b2 - m + i)"
  shows "marks l1 l2 a1 b1 a2 b2 (c1, c2) c'"
proof -
  have o: "only_in c1 (fst c') l1 (a1 + k) (b1 - m)" "only_in c2 (snd c') l2 (a2 + k) (b2 - m)"
    and mid: "kept l1 (fst c') (a1 + k) (b1 - m) = kept l2 (snd c') (a2 + k) (b2 - m)"
    using assms(3) by (simp_all add: marks_def)
  have split: "kept l c a b = kept l c a (a + k) @ kept l c (a + k) (b - m) @ kept l c (b - m) b" if "a + k \<le> b - m" for l c a b
    using that kept_append [of a "a + k" b l c] kept_append [of "a + k" "b - m" b l c] by simp
  have len: "b1 \<le> length l1" "b2 \<le> length l2" using assms(1,2) by (auto simp: fresh_range_def)
  have f: "fresh_range c1 l1 a1 (a1 + k)" "fresh_range c1 l1 (b1 - m) b1" "fresh_range c2 l2 a2 (a2 + k)" "fresh_range c2 l2 (b2 - m) b2"
    using assms(4,5) by (auto intro: fresh_sub [OF assms(1)] fresh_sub [OF assms(2)])
  have "kept l1 (fst c') a1 (a1 + k) = kept l1 c1 a1 (a1 + k)" "kept l1 (fst c') (b1 - m) b1 = kept l1 c1 (b1 - m) b1"
    "kept l2 (snd c') a2 (a2 + k) = kept l2 c2 a2 (a2 + k)" "kept l2 (snd c') (b2 - m) b2 = kept l2 c2 (b2 - m) b2"
    using o len assms(4,5) by (auto intro!: only_in_kept)
  then have "kept l1 (fst c') a1 (a1 + k) = kept l2 (snd c') a2 (a2 + k)" "kept l1 (fst c') (b1 - m) b1 = kept l2 (snd c') (b2 - m) b2"
    using f [THEN fresh_kept] map_nth_shift [of k l1 a1 l2 a2] map_nth_shift [of m l1 "b1 - m" l2 "b2 - m"] assms(6-9) by auto
  then have "kept l1 (fst c') a1 b1 = kept l2 (snd c') a2 b2" using split [OF assms(4)] split [OF assms(5)] mid by simp
  then show ?thesis using o by (auto simp: marks_def intro: only_in_mono)
qed

lemma marks_compose:
  assumes "marks l1 l2 a1 m1 a2 m2 c c'" and "marks l1 l2 m1 b1 m2 b2 c' c''"
    and "a1 \<le> m1" and "m1 \<le> b1" and "a2 \<le> m2" and "m2 \<le> b2" and "b1 \<le> length l1" and "b2 \<le> length l2"
  shows "marks l1 l2 a1 b1 a2 b2 c c''"
proof -
  have "kept l1 (fst c'') a1 m1 = kept l1 (fst c') a1 m1" "kept l2 (snd c'') a2 m2 = kept l2 (snd c') a2 m2"
    using only_in_kept [of "fst c'" "fst c''" l1 m1 b1 m1 a1] only_in_kept [of "snd c'" "snd c''" l2 m2 b2 m2 a2] assms
    by (simp_all add: marks_def)
  moreover have "only_in (fst c) (fst c'') l1 a1 b1" "only_in (snd c) (snd c'') l2 a2 b2"
    using assms by (auto simp: marks_def only_in_def)
  ultimately show ?thesis using assms kept_append [of a1 m1 b1 l1 "fst c''"] kept_append [of a2 m2 b2 l2 "snd c''"]
    by (simp add: marks_def)
qed

lemma fold_argmax_bound:
  "\<forall>i \<in> set is. i \<le> n \<Longrightarrow> fst cm \<le> n \<Longrightarrow>
   fst (fold (\<lambda>i (column, max_sum). let v = f i in if v > max_sum then (i, v) else (column, max_sum)) is cm) \<le> n"
  for f :: "nat \<Rightarrow> int"
  by (induction "is" arbitrary: cm) (auto simp: Let_def split: prod.splits)

lemma optimal_column_bound: "\<exists>m \<le> slice_len s. optimal_column_to_split t b s = Some m"
proof -
  obtain lt lb where l: "lcs_lengths t s 1 = Some lt" "lcs_lengths b s (-1) = Some lb" by (simp add: lcs_lengths_def)
  then show ?thesis
    using fold_argmax_bound [of "[0..<slice_len s + 1]" "slice_len s" "(0, -1)" "\<lambda>i. int (lt ! i + lb ! (slice_len s - i))"]
    by (auto simp: optimal_column_to_split_def)
qed

lemma trim_slices_mk:
  assumes "a1 \<le> b1" and "a2 \<le> b2"
  shows "\<exists>k m. trim_slices (mk_slice l1 a1 b1) (mk_slice l2 a2 b2) = (mk_slice l1 (a1 + k) (b1 - m), mk_slice l2 (a2 + k) (b2 - m)) \<and>
    a1 + k \<le> b1 - m \<and> a2 + k \<le> b2 - m \<and> m \<le> b1 \<and> m \<le> b2 \<and>
    (\<forall>i < k. l1 ! (a1 + i) = l2 ! (a2 + i)) \<and> (\<forall>i < m. l1 ! (b1 - m + i) = l2 ! (b2 - m + i))"
proof -
  obtain k where k: "trim_front (mk_slice l1 a1 b1) (mk_slice l2 a2 b2) = (mk_slice l1 (a1 + k) b1, mk_slice l2 (a2 + k) b2)"
    "a1 + k \<le> b1" "a2 + k \<le> b2" "\<forall>i < k. l1 ! (a1 + i) = l2 ! (a2 + i)"
    using trim_front_mk [OF assms] by blast
  obtain m where "trim_back (mk_slice l1 (a1 + k) b1) (mk_slice l2 (a2 + k) b2) = (mk_slice l1 (a1 + k) (b1 - m), mk_slice l2 (a2 + k) (b2 - m))"
    "m \<le> b1 - (a1 + k)" "m \<le> b2 - (a2 + k)" "\<forall>i < m. l1 ! (b1 - m + i) = l2 ! (b2 - m + i)"
    using trim_back_mk [OF k(2,3)] by blast
  then show ?thesis using k by (intro exI [of _ k] exI [of _ m]) (auto simp: trim_slices_def)
qed

lemma calc_changes_marks:
  "fresh_range c1 l1 a1 b1 \<Longrightarrow> fresh_range c2 l2 a2 b2 \<Longrightarrow>
   \<exists>c'. calc_changes (mk_slice l1 a1 b1) (mk_slice l2 a2 b2) c1 c2 = Some c' \<and> marks l1 l2 a1 b1 a2 b2 (c1, c2) c'"
proof (induction "b1 - a1" arbitrary: a1 b1 a2 b2 c1 c2 rule: less_induct)
  case less
  have le: "a1 \<le> b1" "a2 \<le> b2" "b1 \<le> length l1" "b2 \<le> length l2" using less.prems by (auto simp: fresh_range_def)
  obtain k m where tr: "trim_slices (mk_slice l1 a1 b1) (mk_slice l2 a2 b2) = (mk_slice l1 (a1 + k) (b1 - m), mk_slice l2 (a2 + k) (b2 - m))"
    and km: "a1 + k \<le> b1 - m" "a2 + k \<le> b2 - m" "m \<le> b1" "m \<le> b2"
    and eq: "\<And>i. i < k \<Longrightarrow> l1 ! (a1 + i) = l2 ! (a2 + i)" "\<And>i. i < m \<Longrightarrow> l1 ! (b1 - m + i) = l2 ! (b2 - m + i)"
    using trim_slices_mk [OF le(1,2), of l1 l2] by blast
  define p1 q1 p2 q2 where pq: "p1 = a1 + k" "q1 = b1 - m" "p2 = a2 + k" "q2 = b2 - m"
  have fr: "fresh_range c1 l1 p1 q1" "fresh_range c2 l2 p2 q2"
    using km less.prems by (auto simp: pq fresh_range_def)
  note unfold = calc_changes.simps [of "mk_slice l1 a1 b1" "mk_slice l2 a2 b2" c1 c2] and tr' = tr [folded pq]
  have "\<exists>c'. calc_changes (mk_slice l1 a1 b1) (mk_slice l2 a2 b2) c1 c2 = Some c' \<and> marks l1 l2 p1 q1 p2 q2 (c1, c2) c'"
  proof (cases "q1 - p1 \<le> 1 \<or> q2 - p2 \<le> 1")
    case True
    then show ?thesis using set_changed_marks [OF fr] set_changed_marks [OF fr(2,1)] marks_swap [of l2 l1 p2 q2 p1 q1 "(c1, c2)"]
      unfolding unfold tr' by (auto simp: mk_slice_def)
  next
    case False
    define mid where "mid = (q1 - p1) div 2"
    have mid: "p1 + mid \<le> q1" "mid < b1 - a1" "q1 - (p1 + mid) < b1 - a1" using False km by (auto simp: mid_def pq)
    let ?top = "mk_slice l1 p1 (p1 + mid)" and ?bot = "mk_slice l1 (p1 + mid) q1"
    obtain m2 where m2: "m2 \<le> q2 - p2" "optimal_column_to_split ?top ?bot (mk_slice l2 p2 q2) = Some m2"
      using optimal_column_bound [of "mk_slice l2 p2 q2" ?top ?bot] by auto
    let ?left = "mk_slice l2 p2 (p2 + m2)" and ?right = "mk_slice l2 (p2 + m2) q2"
    have m2': "p2 + m2 \<le> q2" using m2(1) km by (simp add: pq)
    have sub: "fresh_range c1 l1 p1 (p1 + mid)" "fresh_range c2 l2 p2 (p2 + m2)"
      "fresh_range c1 l1 (p1 + mid) q1" "fresh_range c2 l2 (p2 + m2) q2"
      using fresh_sub [OF fr(1)] fresh_sub [OF fr(2)] mid(1) m2' by simp_all
    obtain c' where c': "calc_changes ?top ?left c1 c2 = Some c'" "marks l1 l2 p1 (p1 + mid) p2 (p2 + m2) (c1, c2) c'"
      using less.hyps [OF _ sub(1,2)] mid(2) by auto
    have "fresh_range (fst c') l1 (p1 + mid) q1" "fresh_range (snd c') l2 (p2 + m2) q2"
      using only_in_fresh [OF _ _ sub(3)] only_in_fresh [OF _ _ sub(4)] c'(2) by (auto simp: marks_def)
    from less.hyps [OF _ this] mid(3) obtain c'' where c'': "calc_changes ?bot ?right (fst c') (snd c') = Some c''"
      "marks l1 l2 (p1 + mid) q1 (p2 + m2) q2 c' c''"
      by auto
    have "marks l1 l2 p1 q1 p2 q2 (c1, c2) c''"
      by (rule marks_compose [OF c'(2) c''(2)]) (use mid m2' le in \<open>auto simp: pq\<close>)
    moreover have "smartlist_slice l1 (int p1) (int (p1 + mid)) = Some ?top" "smartlist_slice l1 (int (p1 + mid)) (int (p1 + (q1 - p1))) = Some ?bot"
      "smartlist_slice l2 (int p2) (int (p2 + m2)) = Some ?left" "smartlist_slice l2 (int (p2 + m2)) (int (p2 + (q2 - p2))) = Some ?right"
      using mid(1) m2' le by (simp_all add: smartlist_slice_eq mk_slice_def pq del: of_nat_add)
    then have "calc_changes (mk_slice l1 a1 b1) (mk_slice l2 a2 b2) c1 c2 = Some c''"
      using False m2(2) c'(1) c''(1) unfolding unfold tr' by (simp add: mid_def [symmetric] case_prod_beta del: of_nat_add)
    ultimately show ?thesis by blast
  qed
  then show ?case using marks_extend [OF less.prems _ km eq] unfolding pq by blast
qed

lemma fresh_init: "a \<le> b \<Longrightarrow> b \<le> length l \<Longrightarrow> fresh_range (bitarray_init_zero (length l)) l a b"
  using bits.room_init [of "length l"] bits.init_clear [of _ "length l"] by (auto simp: fresh_range_def)

text \<open>The search for changes never aborts on any two documents, and the lines it leaves unmarked are the same
  sequence of lines in both: what it calls unchanged is a common subsequence of the documents.\<close>

theorem calc_changes_common_subsequence:
  "\<exists>c1 c2. calc_changes (mk_slice l1 0 (length l1)) (mk_slice l2 0 (length l2))
      (bitarray_init_zero (length l1)) (bitarray_init_zero (length l2)) = Some (c1, c2) \<and>
    kept l1 c1 0 (length l1) = kept l2 c2 0 (length l2)"
  using calc_changes_marks [of "bitarray_init_zero (length l1)" l1 0 "length l1" "bitarray_init_zero (length l2)" l2 0 "length l2"]
    fresh_init by (auto simp: marks_def)

end
