(* ===== verification/Tor_Consdiff.thy ===== *)
theory Tor_Consdiff
  imports Tor_Consdiff_Changes Tor_Smartlist_Ops Tor_Binascii
begin

text \<open>
  The second half of \<^verbatim>\<open>feature/dircommon/consdiff.c\<close>: the ed scripts. \<^verbatim>\<open>gen_ed_diff\<close> walks both consensuses
  router by router, has the changes of each pair of chunks computed and writes an ed script from
  the last line to the first; \<^verbatim>\<open>apply_ed_diff\<close> runs such a script; the functions around them add
  and check the header with the digests. A returned NULL is the left of a sum, with the reason.
\<close>

subsection \<open>Router lines\<close>

definition NOT_VALID_BASE64 :: nat where
  "NOT_VALID_BASE64 = 255"

definition base64_compare_table :: "nat list" where
  "base64_compare_table =
    (let X = NOT_VALID_BASE64
     in replicate 43 X @ [62] @ replicate 3 X @ [63] @ [52..<62] @ replicate 7 X @ [0..<26] @ replicate 6 X @ [26..<52] @ replicate 133 X)"

definition get_id_hash :: "cdline \<Rightarrow> bytes option" where
  "get_id_hash line =
    (if length line < 2 then None
     else case dropWhile (\<lambda>c. c \<noteq> 32) (drop 2 line) of
       [] \<Rightarrow> None
     | _ # hash \<Rightarrow>
         let h = takeWhile (\<lambda>c. base64_compare_table ! unat c \<noteq> NOT_VALID_BASE64) hash
         in if h = [] then None else Some h)"

definition is_valid_router_entry :: "cdline \<Rightarrow> bool" where
  "is_valid_router_entry line \<longleftrightarrow> \<not> (length line < 2 \<or> take 2 line \<noteq> lit ''r '') \<and> get_id_hash line \<noteq> None"

fun next_router_loop :: "cdline list \<Rightarrow> nat \<Rightarrow> nat" where
  "next_router_loop [] cur = cur"
| "next_router_loop (line # rest) cur = (if is_valid_router_entry line then cur else next_router_loop rest (cur + 1))"

definition next_router :: "cdline list \<Rightarrow> int \<Rightarrow> int option" where
  "next_router cons cur = do {
     tor_assert (cur \<ge> -1 \<and> cur < int (length cons));
     Some (int (next_router_loop (drop (nat (cur + 1)) cons) (nat (cur + 1)))) }"

text \<open>The loop of \<^verbatim>\<open>base64cmp\<close>; the hashes of \<^verbatim>\<open>get_id_hash\<close> are not empty, so both have a first byte.\<close>

fun base64cmp_loop :: "bytes \<Rightarrow> bytes \<Rightarrow> int" where
  "base64cmp_loop (x # a) (y # b) =
    (let av = base64_compare_table ! unat x; bv = base64_compare_table ! unat y
     in if av = NOT_VALID_BASE64 then (if bv = NOT_VALID_BASE64 then 0 else -1)
        else if bv = NOT_VALID_BASE64 then 1
        else if av < bv then -1
        else if av > bv then 1
        else if a = [] then (if b = [] then 0 else -1)
        else if b = [] then 1
        else base64cmp_loop a b)"
| "base64cmp_loop _ _ = 0"

definition base64cmp :: "bytes option \<Rightarrow> bytes option \<Rightarrow> int" where
  "base64cmp hash1 hash2 =
    (case (hash1, hash2) of
       (None, None) \<Rightarrow> 0
     | (None, Some _) \<Rightarrow> -1
     | (Some _, None) \<Rightarrow> 1
     | (Some a, Some b) \<Rightarrow> base64cmp_loop a b)"

record router_id_iterator =
  last_hash :: "bytes option"
  iter_hash :: "bytes option"

definition ROUTER_ID_ITERATOR_INIT :: router_id_iterator where
  "ROUTER_ID_ITERATOR_INIT = \<lparr> last_hash = None, iter_hash = None \<rparr>"

text \<open>Why no diff is generated; \<open>Assertion\<close> stands for a failed \<^verbatim>\<open>tor_assert\<close>.\<close>

datatype gen_error = Assertion | Routers_Not_Sorted | Too_Few_Common_Routers | Line_Is_Dot

definition find_next_router_line :: "cdline list \<Rightarrow> int \<Rightarrow> router_id_iterator \<Rightarrow> gen_error + int \<times> router_id_iterator" where
  "find_next_router_line cons idx iter =
    (case next_router cons idx of
       None \<Rightarrow> Inl Assertion
     | Some idx \<Rightarrow>
         if idx < int (length cons)
         then let iter = iter\<lparr> last_hash := iter_hash iter \<rparr>
              in case get_id_hash (cons ! nat idx) of
                None \<Rightarrow> Inl Routers_Not_Sorted
              | Some h \<Rightarrow> if base64cmp (Some h) (last_hash iter) \<le> 0 then Inl Routers_Not_Sorted
                          else Inr (idx, iter\<lparr> iter_hash := Some h \<rparr>)
         else Inr (idx, iter))"

lemma next_router_loop_bounds: "cur \<le> next_router_loop l cur \<and> next_router_loop l cur \<le> cur + length l"
proof (induction l cur rule: next_router_loop.induct)
  case (2 line rest cur)
  then show ?case by (cases "is_valid_router_entry line") auto
qed simp

lemma find_next_router_line_advances:
  assumes "find_next_router_line cons idx iter = Inr (idx', iter')"
  shows "idx < idx' \<and> idx' \<le> int (length cons) \<and> 0 \<le> idx'"
proof -
  have r: "next_router cons idx = Some idx'"
    using assms by (auto simp: find_next_router_line_def Let_def split: option.splits if_splits)
  then have "idx \<ge> -1" "idx < int (length cons)" by (auto simp: next_router_def)
  then show ?thesis using r next_router_loop_bounds [of "nat (idx + 1)" "drop (nat (idx + 1)) cons"]
    by (auto simp: next_router_def)
qed

subsection \<open>Generating an ed script\<close>

definition START_OF_SIGNATURES_SECTION :: bytes where
  "START_OF_SIGNATURES_SECTION = lit ''directory-signature ''"

text \<open>The consensus without its signatures, and the command that deletes them.\<close>

definition preprocess_consensus :: "cdline list \<Rightarrow> cdline list \<times> cdline option" where
  "preprocess_consensus cons =
    (let dirsig_idx = length (takeWhile (\<lambda>line. \<not> line_starts_with_str line START_OF_SIGNATURES_SECTION) cons)
     in if dirsig_idx < length cons
        then (take dirsig_idx cons, Some (decimal (dirsig_idx + 1) @ lit '',$d''))
        else (cons, None))"

text \<open>The inner loop, which advances the lower position until both are at the same router.\<close>

function sync_routers ::
  "cdline list \<Rightarrow> cdline list \<Rightarrow> int \<Rightarrow> router_id_iterator \<Rightarrow> int \<Rightarrow> router_id_iterator \<Rightarrow>
   gen_error + int \<times> router_id_iterator \<times> int \<times> router_id_iterator" where
  "sync_routers cons1 cons2 i1 iter1 i2 iter2 =
    (let cmp = base64cmp (iter_hash iter1) (iter_hash iter2); len1 = int (length cons1); len2 = int (length cons2)
     in if cmp = 0 then Inr (i1, iter1, i2, iter2)
        else if i1 < len1 \<and> cmp < 0
        then (case find_next_router_line cons1 i1 iter1 of
                Inl e \<Rightarrow> Inl e
              | Inr (i1', iter1') \<Rightarrow>
                  if i1' = len1 then Inr (i1', iter1', len2, iter2) else sync_routers cons1 cons2 i1' iter1' i2 iter2)
        else if i2 < len2 \<and> cmp > 0
        then (case find_next_router_line cons2 i2 iter2 of
                Inl e \<Rightarrow> Inl e
              | Inr (i2', iter2') \<Rightarrow>
                  if i2' = len2 then Inr (len1, iter1, i2', iter2') else sync_routers cons1 cons2 i1 iter1 i2' iter2')
        else Inr (len1, iter1, len2, iter2))"
  by pat_completeness auto
termination
  by (relation "measure (\<lambda>(c1, c2, i1, _, i2, _). nat (int (length c1) - i1) + nat (int (length c2) - i2))")
    (auto dest!: find_next_router_line_advances)

declare sync_routers.simps [simp del]

text \<open>One round of the outer loop: both positions go to their next router line and are then synchronised.\<close>

definition advance_routers ::
  "cdline list \<Rightarrow> cdline list \<Rightarrow> int \<Rightarrow> router_id_iterator \<Rightarrow> int \<Rightarrow> router_id_iterator \<Rightarrow>
   gen_error + int \<times> router_id_iterator \<times> int \<times> router_id_iterator" where
  "advance_routers cons1 cons2 i1 iter1 i2 iter2 =
    (case (if i1 < int (length cons1) then find_next_router_line cons1 i1 iter1 else Inr (i1, iter1)) of
       Inl e \<Rightarrow> Inl e
     | Inr (i1, iter1) \<Rightarrow>
         (case (if i2 < int (length cons2) then find_next_router_line cons2 i2 iter2 else Inr (i2, iter2)) of
            Inl e \<Rightarrow> Inl e
          | Inr (i2, iter2) \<Rightarrow>
              if i1 < int (length cons1) \<or> i2 < int (length cons2) then sync_routers cons1 cons2 i1 iter1 i2 iter2
              else Inr (i1, iter1, i2, iter2)))"

lemma sync_routers_bounds:
  "sync_routers cons1 cons2 i1 iter1 i2 iter2 = Inr (j1, it1, j2, it2) \<Longrightarrow>
   min i1 (int (length cons1)) \<le> j1 \<and> min i2 (int (length cons2)) \<le> j2 \<and>
   (i1 \<le> int (length cons1) \<and> i2 \<le> int (length cons2) \<longrightarrow> j1 \<le> int (length cons1) \<and> j2 \<le> int (length cons2))"
proof (induction cons1 cons2 i1 iter1 i2 iter2 rule: sync_routers.induct)
  case (1 cons1 cons2 i1 iter1 i2 iter2)
  note unfold = sync_routers.simps [of cons1 cons2 i1 iter1 i2 iter2]
  define cmp where "cmp = base64cmp (iter_hash iter1) (iter_hash iter2)"
  consider "cmp = 0" | "i1 < int (length cons1)" "cmp < 0" | "i2 < int (length cons2)" "cmp > 0" "\<not> (i1 < int (length cons1) \<and> cmp < 0)"
    | "cmp \<noteq> 0" "\<not> (i1 < int (length cons1) \<and> cmp < 0)" "\<not> (i2 < int (length cons2) \<and> cmp > 0)" by linarith
  then show ?case
  proof cases
    case 2
    then obtain i1' iter1' where n: "find_next_router_line cons1 i1 iter1 = Inr (i1', iter1')"
      using "1.prems"(1) unfold by (auto simp: cmp_def Let_def split: sum.splits)
    note adv = find_next_router_line_advances [OF n]
    show ?thesis
    proof (cases "i1' = int (length cons1)")
      case True
      then show ?thesis using 2 n adv "1.prems" unfold by (auto simp: cmp_def Let_def)
    next
      case False
      then have "sync_routers cons1 cons2 i1' iter1' i2 iter2 = Inr (j1, it1, j2, it2)"
        using 2 n "1.prems"(1) unfold by (simp add: cmp_def Let_def)
      then show ?thesis using "1.IH"(1) [OF refl refl refl _ _ n refl] 2 False adv "1.prems" by (auto simp: cmp_def)
    qed
  next
    case 3
    then obtain i2' iter2' where n: "find_next_router_line cons2 i2 iter2 = Inr (i2', iter2')"
      using "1.prems"(1) unfold by (auto simp: cmp_def Let_def split: sum.splits if_splits)
    note adv = find_next_router_line_advances [OF n]
    show ?thesis
    proof (cases "i2' = int (length cons2)")
      case True
      then show ?thesis using 3 n adv "1.prems" unfold by (auto simp: cmp_def Let_def)
    next
      case False
      then have "sync_routers cons1 cons2 i1 iter1 i2' iter2' = Inr (j1, it1, j2, it2)"
        using 3 n "1.prems"(1) unfold by (simp add: cmp_def Let_def)
      then show ?thesis using "1.IH"(2) [OF refl refl refl _ _ _ n refl] 3 False adv "1.prems" by (auto simp: cmp_def)
    qed
  qed (use "1.prems" unfold in \<open>auto simp: cmp_def Let_def\<close>)
qed

lemma advance_routers_bounds:
  assumes "advance_routers cons1 cons2 i1 iter1 i2 iter2 = Inr (j1, it1, j2, it2)"
  shows "min i1 (int (length cons1)) \<le> j1" "min i2 (int (length cons2)) \<le> j2" "0 \<le> j1" "0 \<le> j2"
    "i1 < int (length cons1) \<Longrightarrow> i1 < j1" "i2 < int (length cons2) \<Longrightarrow> i2 < j2"
    "i1 \<le> int (length cons1) \<Longrightarrow> i2 \<le> int (length cons2) \<Longrightarrow> j1 \<le> int (length cons1) \<and> j2 \<le> int (length cons2)"
proof -
  obtain k1 n1 where k1: "(if i1 < int (length cons1) then find_next_router_line cons1 i1 iter1 else Inr (i1, iter1)) = Inr (k1, n1)"
    using assms(1) by (auto simp: advance_routers_def split: sum.splits)
  obtain k2 n2 where k2: "(if i2 < int (length cons2) then find_next_router_line cons2 i2 iter2 else Inr (i2, iter2)) = Inr (k2, n2)"
    using assms(1) k1 by (auto simp: advance_routers_def split: sum.splits)
  have b1: "i1 \<le> k1" "i1 \<le> int (length cons1) \<Longrightarrow> k1 \<le> int (length cons1)" "0 \<le> min k1 (int (length cons1))"
    "i1 < int (length cons1) \<Longrightarrow> i1 < k1 \<and> k1 \<le> int (length cons1)"
    using k1 by (auto dest!: find_next_router_line_advances split: if_splits)
  have b2: "i2 \<le> k2" "i2 \<le> int (length cons2) \<Longrightarrow> k2 \<le> int (length cons2)" "0 \<le> min k2 (int (length cons2))"
    "i2 < int (length cons2) \<Longrightarrow> i2 < k2 \<and> k2 \<le> int (length cons2)"
    using k2 by (auto dest!: find_next_router_line_advances split: if_splits)
  have s: "min k1 (int (length cons1)) \<le> j1 \<and> min k2 (int (length cons2)) \<le> j2 \<and>
      (k1 \<le> int (length cons1) \<and> k2 \<le> int (length cons2) \<longrightarrow> j1 \<le> int (length cons1) \<and> j2 \<le> int (length cons2))"
    using assms(1) sync_routers_bounds [of cons1 cons2 k1 n1 k2 n2 j1 it1 j2 it2]
    by (auto simp: advance_routers_def k1 k2 split: if_splits)
  show "min i1 (int (length cons1)) \<le> j1" "min i2 (int (length cons2)) \<le> j2" "0 \<le> j1" "0 \<le> j2"
    "i1 < int (length cons1) \<Longrightarrow> i1 < j1" "i2 < int (length cons2) \<Longrightarrow> i2 < j2"
    "i1 \<le> int (length cons1) \<Longrightarrow> i2 \<le> int (length cons2) \<Longrightarrow> j1 \<le> int (length cons1) \<and> j2 \<le> int (length cons2)"
    using s b1 b2 by auto
qed

abbreviation (input) MAX_LINE_COUNT :: int where "MAX_LINE_COUNT \<equiv> 10000"

text \<open>The loop over the routers.\<close>

function change_loop ::
  "cdline list \<Rightarrow> cdline list \<Rightarrow> int \<Rightarrow> router_id_iterator \<Rightarrow> int \<Rightarrow> router_id_iterator \<Rightarrow> int \<Rightarrow> int \<Rightarrow>
   bitarray \<Rightarrow> bitarray \<Rightarrow> gen_error + bitarray \<times> bitarray" where
  "change_loop cons1 cons2 i1 iter1 i2 iter2 start1 start2 changed1 changed2 =
    (if i1 < int (length cons1) \<or> i2 < int (length cons2)
     then case advance_routers cons1 cons2 i1 iter1 i2 iter2 of
            Inl e \<Rightarrow> Inl e
          | Inr (j1, iter1, j2, iter2) \<Rightarrow>
              if j1 - start1 > MAX_LINE_COUNT \<or> j2 - start2 > MAX_LINE_COUNT then Inl Too_Few_Common_Routers
              else (case do {
                      cons1_sl \<leftarrow> smartlist_slice cons1 start1 j1;
                      cons2_sl \<leftarrow> smartlist_slice cons2 start2 j2;
                      calc_changes cons1_sl cons2_sl changed1 changed2 } of
                   None \<Rightarrow> Inl Assertion
                 | Some (changed1, changed2) \<Rightarrow> change_loop cons1 cons2 j1 iter1 j2 iter2 j1 j2 changed1 changed2)
     else Inr (changed1, changed2))"
  by pat_completeness auto
termination
proof (relation "measure (\<lambda>(c1, c2, i1, _, i2, _). nat (int (length c1) - i1) + nat (int (length c2) - i2))", simp, goal_cases)
  case (1 cons1 cons2 i1 iter1 i2 iter2 start1 start2 changed1 changed2 x j1 y it1 z j2 it2 w changed1' changed2')
  then show ?case using advance_routers_bounds [of cons1 cons2 i1 iter1 i2 iter2 j1 it1 j2 it2] by auto
qed

declare change_loop.simps [simp del]

text \<open>\<^verbatim>\<open>while (i >= 0 && bitarray_is_set(changed, i)) i--\<close>, on \<open>i + 1\<close>.\<close>

fun skip_changed :: "bitarray \<Rightarrow> nat \<Rightarrow> nat" where
  "skip_changed changed 0 = 0"
| "skip_changed changed (Suc i) = (if bitarray_is_set changed i then skip_changed changed i else Suc i)"

lemma skip_changed_le: "skip_changed c n \<le> n"
  by (induction n) auto

text \<open>The command line for \<open>added\<close> lines and \<open>deleted\<close> lines from \<open>start1x\<close>.\<close>

definition ed_command :: "nat \<Rightarrow> nat \<Rightarrow> nat \<Rightarrow> cdline" where
  "ed_command start1x deleted added =
    (if added = 0
     then if deleted = 1 then decimal (start1x + 1) @ lit ''d''
          else decimal (start1x + 1) @ lit '','' @ decimal (start1x + deleted) @ lit ''d''
     else if deleted = 0 then decimal start1x @ lit ''a''
     else if deleted = 1 then decimal (start1x + 1) @ lit ''c''
     else decimal (start1x + 1) @ lit '','' @ decimal (start1x + deleted) @ lit ''c'')"

text \<open>The navigation in reverse order; \<open>n1\<close> and \<open>n2\<close> are \<^verbatim>\<open>i1 + 1\<close> and \<^verbatim>\<open>i2 + 1\<close>.\<close>

function emit_loop :: "bitarray \<Rightarrow> bitarray \<Rightarrow> cdline list \<Rightarrow> nat \<Rightarrow> nat \<Rightarrow> cdline list \<Rightarrow> gen_error + cdline list" where
  "emit_loop changed1 changed2 cons2 n1 n2 result =
    (if n1 = 0 \<and> n2 = 0 then Inr result
     else if \<not> (n1 > 0 \<and> bitarray_is_set changed1 (n1 - 1)) \<and> \<not> (n2 > 0 \<and> bitarray_is_set changed2 (n2 - 1))
     then emit_loop changed1 changed2 cons2 (n1 - 1) (n2 - 1) result
     else let m1 = skip_changed changed1 n1; m2 = skip_changed changed2 n2;
              added = n2 - m2; deleted = n1 - m1; result = result @ [ed_command m1 deleted added]
          in if added = 0 then emit_loop changed1 changed2 cons2 m1 m2 result
             else let lines = map (\<lambda>i. cons2 ! i) [m2..<n2]
                  in if list_ex (\<lambda>line. line_str_eq line (lit ''.'')) lines then Inl Line_Is_Dot
                     else emit_loop changed1 changed2 cons2 m1 m2 (result @ lines @ [lit ''.'']))"
  by pat_completeness auto

lemma skip_changed_less:
  "n > 0 \<Longrightarrow> bitarray_is_set c (n - 1) \<Longrightarrow> skip_changed c n < n"
  using skip_changed_le [of c "n - 1"] by (cases n) auto

termination emit_loop
proof (relation "measure (\<lambda>(c1, c2, l, n1, n2, r). n1 + n2)", simp, goal_cases)
  case (1 c1 c2 l n1 n2 r)
  then show ?case by auto
next
  case (2 c1 c2 l n1 n2 r m1 m2 added deleted r')
  then show ?case using skip_changed_le [of c1 n1] skip_changed_le [of c2 n2] skip_changed_less [of n1 c1] skip_changed_less [of n2 c2]
    by auto
next
  case (3 c1 c2 l n1 n2 r m1 m2 added deleted r' ls)
  then show ?case using skip_changed_le [of c1 n1] skip_changed_le [of c2 n2] skip_changed_less [of n1 c1] skip_changed_less [of n2 c2]
    by auto
qed

declare emit_loop.simps [simp del]

definition gen_ed_diff :: "cdline list \<Rightarrow> cdline list \<Rightarrow> gen_error + cdline list" where
  "gen_ed_diff cons1_orig cons2 =
    (let (cons1, remove_trailer) = preprocess_consensus cons1_orig;
         result = (case remove_trailer of None \<Rightarrow> [] | Some line \<Rightarrow> [line])
     in case change_loop cons1 cons2 (-1) ROUTER_ID_ITERATOR_INIT (-1) ROUTER_ID_ITERATOR_INIT 0 0
            (bitarray_init_zero (length cons1)) (bitarray_init_zero (length cons2)) of
          Inl e \<Rightarrow> Inl e
        | Inr (changed1, changed2) \<Rightarrow> emit_loop changed1 changed2 cons2 (length cons1) (length cons2) result)"

subsection \<open>Applying an ed script\<close>

datatype apply_error =
    Command_Too_Long | Missing_Line_Number | Missing_Range_End | Invalid_Range | Not_Reverse_Sorted | No_Command
  | Command_Longer_Than_Char | Unrecognised_Command | Dollar_Without_Delete | Add_After_Range | No_Final_Dot | Zero_Lines

definition get_linenum :: "bytes \<Rightarrow> (int \<times> bytes) option" where
  "get_linenum s =
    (if s = [] \<or> \<not> TOR_ISDIGIT (hd s) then None
     else case tor_parse_long s 10 0 2147483647 True of
       (num, ok, nxt) \<Rightarrow> (case nxt of Some rest \<Rightarrow> if ok then Some (num, rest) else None | None \<Rightarrow> None))"

text \<open>A command line: its start, end and action. \<open>j\<close> is the number of base lines not yet handled.\<close>

definition parse_range :: "nat \<Rightarrow> bytes \<Rightarrow> apply_error + int \<times> int \<times> bool \<times> bool \<times> bytes" where
  "parse_range len1 diff_line =
    (case get_linenum diff_line of
       None \<Rightarrow> Inl Missing_Line_Number
     | Some (start, ptr) \<Rightarrow>
         if ptr \<noteq> [] \<and> hd ptr = 44
         then let ptr = tl ptr
              in if ptr \<noteq> [] \<and> hd ptr = 36
                 then if int len1 \<le> start then Inl Invalid_Range else Inr (start, int len1, True, True, tl ptr)
                 else (case get_linenum ptr of
                     None \<Rightarrow> Inl Missing_Range_End
                   | Some (end', ptr) \<Rightarrow> if end' \<le> start then Inl Invalid_Range else Inr (start, end', True, False, ptr))
         else Inr (start, start, False, False, ptr))"

definition parse_command :: "nat \<Rightarrow> int \<Rightarrow> cdline \<Rightarrow> apply_error + int \<times> int \<times> byte" where
  "parse_command len1 j diff_cdline =
    (if length diff_cdline > 128 - 1 then Inl Command_Too_Long
     else case parse_range len1 (c_str diff_cdline) of
       Inl e \<Rightarrow> Inl e
     | Inr (start, end', had_range, end_was_eof, ptr) \<Rightarrow>
         if end' > j then Inl Not_Reverse_Sorted
         else if ptr = [] then Inl No_Command
         else if tl ptr \<noteq> [] then Inl Command_Longer_Than_Char
         else let action = hd ptr
              in if action \<notin> {97, 99, 100} then Inl Unrecognised_Command
                 else if end_was_eof \<and> action \<noteq> 100 then Inl Dollar_Without_Delete
                 else if had_range \<and> action = 97 then Inl Add_After_Range
                 else Inr (start, end', action))"

text \<open>The loop over the script; the base lines from \<open>j\<close> down to \<open>end' + 1\<close> are copied before each command.\<close>

function apply_loop :: "cdline list \<Rightarrow> cdline list \<Rightarrow> int \<Rightarrow> cdline list \<Rightarrow> apply_error + int \<times> cdline list" where
  "apply_loop cons1 [] j cons2 = Inr (j, cons2)"
| "apply_loop cons1 (line # diff) j cons2 =
    (case parse_command (length cons1) j line of
       Inl e \<Rightarrow> Inl e
     | Inr (start, end', action) \<Rightarrow>
         let cons2 = cons2 @ rev (drop (nat end') (take (nat j) cons1));
             j = (if j > end' then end' else j);
             j = (if action = 99 \<or> action = 100 then min (j - 1) (start - 1) else j)
         in if action = 97 \<or> action = 99
            then let added = takeWhile (\<lambda>l. \<not> line_str_eq l (lit ''.'')) diff
                 in if diff = [] then Inl Zero_Lines
                    else if length added = length diff then Inl No_Final_Dot
                    else if added = [] then Inl Zero_Lines
                    else apply_loop cons1 (drop (length added + 1) diff) j (cons2 @ rev added)
            else apply_loop cons1 diff j cons2)"
  by pat_completeness auto
termination
  by (relation "measure (\<lambda>(c, d, j, out). length d)") auto

declare apply_loop.simps(2) [simp del]

definition apply_ed_diff :: "cdline list \<Rightarrow> cdline list \<Rightarrow> nat \<Rightarrow> apply_error + cdline list" where
  "apply_ed_diff cons1 diff diff_starting_line =
    (case apply_loop cons1 (drop diff_starting_line diff) (int (length cons1)) [] of
       Inl e \<Rightarrow> Inl e
     | Inr (j, cons2) \<Rightarrow> Inr (rev (cons2 @ rev (take (nat j) cons1))))"

subsection \<open>The chunks cover both consensuses\<close>

lemma smartlist_slice_mk:
  "0 \<le> a \<Longrightarrow> a \<le> b \<Longrightarrow> b \<le> int (length l) \<Longrightarrow> smartlist_slice l a b = Some (mk_slice l (nat a) (nat b))"
  by (simp add: smartlist_slice_def mk_slice_def Let_def nat_diff_distrib)

text \<open>One round of the loop, from positions within the documents.\<close>

lemma change_loop_round:
  assumes "advance_routers cons1 cons2 i1 iter1 i2 iter2 = Inr (j1, it1, j2, it2)"
    and "i1 \<le> int (length cons1)" "i2 \<le> int (length cons2)" "start1 = max 0 i1" "start2 = max 0 i2"
    and "fresh_range c1 cons1 (nat start1) (length cons1)" "fresh_range c2 cons2 (nat start2) (length cons2)"
  shows "\<exists>e1 e2. do { cons1_sl \<leftarrow> smartlist_slice cons1 start1 j1; cons2_sl \<leftarrow> smartlist_slice cons2 start2 j2;
        calc_changes cons1_sl cons2_sl c1 c2 } = Some (e1, e2) \<and>
      marks cons1 cons2 (nat start1) (nat j1) (nat start2) (nat j2) (c1, c2) (e1, e2) \<and>
      fresh_range e1 cons1 (nat j1) (length cons1) \<and> fresh_range e2 cons2 (nat j2) (length cons2)"
    and "0 \<le> start1 \<and> start1 \<le> j1 \<and> j1 \<le> int (length cons1)" and "0 \<le> start2 \<and> start2 \<le> j2 \<and> j2 \<le> int (length cons2)"
proof -
  note b = advance_routers_bounds [OF assms(1)]
  show s1: "0 \<le> start1 \<and> start1 \<le> j1 \<and> j1 \<le> int (length cons1)" and s2: "0 \<le> start2 \<and> start2 \<le> j2 \<and> j2 \<le> int (length cons2)"
    using b assms(2-5) by auto
  have f: "fresh_range c1 cons1 (nat start1) (nat j1)" "fresh_range c2 cons2 (nat start2) (nat j2)"
    "fresh_range c1 cons1 (nat j1) (length cons1)" "fresh_range c2 cons2 (nat j2) (length cons2)"
    using fresh_sub [OF assms(6)] fresh_sub [OF assms(7)] s1 s2 by (simp_all add: nat_mono nat_le_iff)
  obtain e1 e2 where e: "calc_changes (mk_slice cons1 (nat start1) (nat j1)) (mk_slice cons2 (nat start2) (nat j2)) c1 c2 = Some (e1, e2)"
    "marks cons1 cons2 (nat start1) (nat j1) (nat start2) (nat j2) (c1, c2) (e1, e2)"
    using calc_changes_marks [OF f(1,2)] by auto
  moreover have "fresh_range e1 cons1 (nat j1) (length cons1)" "fresh_range e2 cons2 (nat j2) (length cons2)"
    using only_in_fresh [OF _ _ f(3)] only_in_fresh [OF _ _ f(4)] e(2) by (auto simp: marks_def)
  ultimately show "\<exists>e1 e2. do { cons1_sl \<leftarrow> smartlist_slice cons1 start1 j1; cons2_sl \<leftarrow> smartlist_slice cons2 start2 j2;
        calc_changes cons1_sl cons2_sl c1 c2 } = Some (e1, e2) \<and>
      marks cons1 cons2 (nat start1) (nat j1) (nat start2) (nat j2) (c1, c2) (e1, e2) \<and>
      fresh_range e1 cons1 (nat j1) (length cons1) \<and> fresh_range e2 cons2 (nat j2) (length cons2)"
    using s1 s2 by (auto simp: smartlist_slice_mk)
qed

lemma change_loop_marks:
  assumes "change_loop cons1 cons2 i1 iter1 i2 iter2 start1 start2 c1 c2 = Inr (d1, d2)"
    and "i1 \<le> int (length cons1)" "i2 \<le> int (length cons2)" "start1 = max 0 i1" "start2 = max 0 i2"
    and "fresh_range c1 cons1 (nat start1) (length cons1)" "fresh_range c2 cons2 (nat start2) (length cons2)"
  shows "marks cons1 cons2 (nat start1) (length cons1) (nat start2) (length cons2) (c1, c2) (d1, d2)"
  using assms
proof (induction cons1 cons2 i1 iter1 i2 iter2 start1 start2 c1 c2 rule: change_loop.induct)
  case (1 cons1 cons2 i1 iter1 i2 iter2 start1 start2 c1 c2)
  note unfold = change_loop.simps [of cons1 cons2 i1 iter1 i2 iter2 start1 start2 c1 c2]
  show ?case
  proof (cases "i1 < int (length cons1) \<or> i2 < int (length cons2)")
    case False
    then have "i1 = int (length cons1)" "i2 = int (length cons2)" using "1.prems" by auto
    then show ?thesis using "1.prems" unfold by (simp add: marks_def only_in_refl)
  next
    case True
    then obtain j1 it1 j2 it2 where adv: "advance_routers cons1 cons2 i1 iter1 i2 iter2 = Inr (j1, it1, j2, it2)"
      and few: "\<not> (j1 - start1 > MAX_LINE_COUNT \<or> j2 - start2 > MAX_LINE_COUNT)"
      using "1.prems"(1) unfold by (auto split: sum.splits if_splits)
    note round = change_loop_round [OF adv "1.prems"(2-7)]
    obtain e1 e2 where run: "do { cons1_sl \<leftarrow> smartlist_slice cons1 start1 j1; cons2_sl \<leftarrow> smartlist_slice cons2 start2 j2;
        calc_changes cons1_sl cons2_sl c1 c2 } = Some (e1, e2)"
      and m: "marks cons1 cons2 (nat start1) (nat j1) (nat start2) (nat j2) (c1, c2) (e1, e2)"
      and f: "fresh_range e1 cons1 (nat j1) (length cons1)" "fresh_range e2 cons2 (nat j2) (length cons2)"
      using round(1) by blast
    have "change_loop cons1 cons2 j1 it1 j2 it2 j1 j2 e1 e2 = Inr (d1, d2)"
      using "1.prems"(1) True adv few run unfold by simp
    then have "marks cons1 cons2 (nat j1) (length cons1) (nat j2) (length cons2) (e1, e2) (d1, d2)"
      using "1.IH" [OF True adv refl refl refl few run refl] round(2,3) f by (simp add: max_def)
    from marks_compose [OF m this] show ?thesis using round(2,3) by (simp add: nat_mono nat_le_iff)
  qed
qed

subsection \<open>Commands are read back\<close>

lemma digit_TOR_ISDIGIT: "is_digit_of 10 c \<longrightarrow> TOR_ISDIGIT c"
  by (simp add: digit_ranges TOR_ISDIGIT_iff)

lemma get_linenum_decimal:
  assumes "n \<le> 2147483647" and "rest = [] \<or> \<not> is_digit_of 10 (hd rest)"
  shows "get_linenum (decimal n @ rest) = Some (int n, rest)"
proof -
  obtain c s where d: "decimal n = c # s" using decimal_nonempty [of n] by (cases "decimal n") auto
  have "TOR_ISDIGIT c" using decimal_digits [of n] d digit_TOR_ISDIGIT by simp
  moreover have "strtol (decimal n @ rest) 10 = (int n, False, rest)"
    using assms(1) by (simp add: strtol_def strto_scan_decimal [OF assms(2)])
  ultimately show ?thesis using assms(1) d
    by (simp add: get_linenum_def tor_parse_long_def CHECK_STRTOX_RESULT_def Let_def)
qed

lemma length_decimal: "n < 10 ^ Suc k \<Longrightarrow> length (decimal n) \<le> Suc k"
proof (induction k arbitrary: n)
  case 0
  then show ?case by (simp add: decimal.simps)
next
  case (Suc k)
  then show ?case by (cases "n < 10") (auto simp: decimal.simps [of n])
qed

lemma length_decimal_int32: "n \<le> 2147483647 \<Longrightarrow> length (decimal n) \<le> 10"
  using length_decimal [of n 9] by simp

lemma decimal_c_str: "is_c_str (decimal n)"
  using decimal_digits [of n] by (auto simp: is_c_str_def)

lemma not_digits: "\<not> is_digit_of 10 44" "\<not> is_digit_of 10 97" "\<not> is_digit_of 10 99" "\<not> is_digit_of 10 100"
  by code_simp+

text \<open>A command with one line number, with a range, and with a range to the end.\<close>

lemma parse_command_single:
  assumes "n \<le> 2147483647" and "int n \<le> j" and "action \<in> {97, 99, 100}"
  shows "parse_command len1 j (decimal n @ [action]) = Inr (int n, int n, action)"
proof -
  have "c_str (decimal n @ [action]) = decimal n @ [action]"
    using assms(3) decimal_c_str by (intro c_str_id) (auto simp: c_string_simps)
  moreover have "get_linenum (decimal n @ [action]) = Some (int n, [action])"
    using assms(1,3) not_digits by (intro get_linenum_decimal) auto
  ultimately show ?thesis using assms length_decimal_int32 [OF assms(1)]
    by (auto simp: parse_command_def parse_range_def)
qed

lemma parse_command_range:
  assumes "n < m" and "m \<le> 2147483647" and "int m \<le> j" and "action \<in> {99, 100}"
  shows "parse_command len1 j (decimal n @ 44 # decimal m @ [action]) = Inr (int n, int m, action)"
proof -
  have "c_str (decimal n @ 44 # decimal m @ [action]) = decimal n @ 44 # decimal m @ [action]"
    using assms(4) decimal_c_str by (intro c_str_id) (auto simp: c_string_simps)
  moreover have "get_linenum (decimal n @ 44 # decimal m @ [action]) = Some (int n, 44 # decimal m @ [action])"
    "get_linenum (decimal m @ [action]) = Some (int m, [action])"
    using assms not_digits by (auto intro!: get_linenum_decimal)
  moreover obtain c s where cs: "decimal m = c # s" using decimal_nonempty [of m] by (cases "decimal m") auto
  moreover have "c \<noteq> 36" using decimal_digits [of m] cs by (auto simp: digit_ranges)
  ultimately show ?thesis using assms length_decimal_int32 [of n] length_decimal_int32 [of m]
    by (auto simp: parse_command_def parse_range_def Let_def)
qed

lemma parse_command_trailer:
  assumes "n < len1" and "len1 \<le> 2147483647"
  shows "parse_command len1 (int len1) (decimal n @ lit '',$d'') = Inr (int n, int len1, 100)"
proof -
  have "c_str (decimal n @ [44, 36, 100]) = decimal n @ [44, 36, 100]"
    using decimal_c_str by (intro c_str_id) (auto simp: c_string_simps)
  moreover have "get_linenum (decimal n @ [44, 36, 100]) = Some (int n, [44, 36, 100])"
    using assms not_digits by (intro get_linenum_decimal) auto
  ultimately show ?thesis using assms length_decimal_int32 [of n]
    by (auto simp: parse_command_def parse_range_def Let_def lit_def)
qed

lemma parse_ed_command:
  assumes "m1 + deleted \<le> 2147483647" and "int (m1 + deleted) \<le> j" and "0 < deleted \<or> 0 < added"
  shows "parse_command len1 j (ed_command m1 deleted added) =
    Inr (if deleted = 0 then int m1 else int m1 + 1, int (m1 + deleted), if added = 0 then 100 else if deleted = 0 then 97 else 99)"
proof -
  have "deleted = 0 \<or> deleted = 1 \<or> 1 < deleted" by linarith
  then show ?thesis using assms parse_command_single [of "m1 + 1" j _ len1] parse_command_single [of m1 j 97 len1]
      parse_command_range [of "m1 + 1" "m1 + deleted" j _ len1]
    by (auto simp: ed_command_def lit_def)
qed

text \<open>What the script does at one command that the generator wrote.\<close>

lemma apply_loop_delete:
  assumes "parse_command (length cons1) j line = Inr (start, end', 100)" and "start \<le> end'" and "end' \<le> j"
  shows "apply_loop cons1 (line # diff) j out = apply_loop cons1 diff (start - 1) (out @ rev (drop (nat end') (take (nat j) cons1)))"
  using assms(2,3) unfolding apply_loop.simps(2) assms(1) by (cases "end' = j") (simp_all add: Let_def min_absorb2)

lemma takeWhile_dot:
  "lit ''.'' \<notin> set lines \<Longrightarrow> takeWhile (\<lambda>l. \<not> line_str_eq l (lit ''.'')) (lines @ lit ''.'' # rest) = lines"
  by (subst takeWhile_append2) (auto simp: line_str_eq_def)

lemma apply_loop_lines:
  assumes "parse_command (length cons1) j line = Inr (start, end', action)" and "start \<le> end'" and "end' \<le> j"
    and "action = 97 \<or> action = 99" and "lines \<noteq> []" and "lit ''.'' \<notin> set lines"
  shows "apply_loop cons1 (line # lines @ lit ''.'' # rest) j out =
    apply_loop cons1 rest (if action = 97 then end' else start - 1) (out @ rev (drop (nat end') (take (nat j) cons1)) @ rev lines)"
  using assms(2-5) unfolding apply_loop.simps(2) assms(1)
  by (cases "end' = j") (auto simp: Let_def min_absorb2 takeWhile_dot [OF assms(6)])

lemma apply_loop_command:
  assumes "n1 \<le> j" and "j \<le> length cons1" and "length cons1 \<le> 2147483647" and "m1 \<le> n1" and "m1 < n1 \<or> lines \<noteq> []"
    and "lit ''.'' \<notin> set lines"
  shows "apply_loop cons1 (ed_command m1 (n1 - m1) (length lines) # (if lines = [] then [] else lines @ [lit ''.'']) @ rest) (int j) out =
    apply_loop cons1 rest (int m1) (out @ rev (drop n1 (take j cons1)) @ rev lines)"
proof -
  have pc: "parse_command (length cons1) (int j) (ed_command m1 (n1 - m1) (length lines)) =
      Inr (if n1 - m1 = 0 then int m1 else int m1 + 1, int n1, if lines = [] then 100 else if n1 - m1 = 0 then 97 else 99)"
    using parse_ed_command [of m1 "n1 - m1" "int j" "length lines" "length cons1"] assms by auto
  show ?thesis
  proof (cases "lines = []")
    case True
    then have "parse_command (length cons1) (int j) (ed_command m1 (n1 - m1) (length lines)) = Inr (int m1 + 1, int n1, 100)"
      using pc assms(5) by simp
    from apply_loop_delete [OF this] show ?thesis using True assms(1,4,5) by simp
  next
    case False
    then have pc': "parse_command (length cons1) (int j) (ed_command m1 (n1 - m1) (length lines)) =
        Inr (if n1 - m1 = 0 then int m1 else int m1 + 1, int n1, if n1 - m1 = 0 then 97 else 99)"
      using pc by simp
    show ?thesis using apply_loop_lines [OF pc' _ _ _ False assms(6), of rest out] assms(1,4) False by (auto split: if_splits)
  qed
qed

subsection \<open>The generated script rebuilds the target\<close>

lemma kept_Suc:
  "kept l c 0 (Suc n) = kept l c 0 n @ (if bitarray_is_set c n then [] else [l ! n])"
  by (simp add: kept_def)

lemma kept_skip: "kept l c 0 (skip_changed c n) = kept l c 0 n"
  by (induction n) (auto simp: kept_Suc)

definition run_script :: "cdline list \<Rightarrow> cdline list \<Rightarrow> nat \<Rightarrow> cdline list \<Rightarrow> apply_error + cdline list" where
  "run_script cons1 script j out = map_sum id (\<lambda>(j, o'). take (nat j) cons1 @ rev o') (apply_loop cons1 script (int j) out)"

lemma drop_take_Suc: "k < j \<Longrightarrow> j \<le> length l \<Longrightarrow> drop k (take j l) = l ! k # drop (Suc k) (take j l)"
  by (simp add: Cons_nth_drop_Suc [symmetric])

lemma emit_loop_script:
  assumes "emit_loop c1 c2 cons2 n1 n2 result = Inr diff" and "kept cons1 c1 0 n1 = kept cons2 c2 0 n2"
    and "n1 \<le> length cons1" and "n2 \<le> length cons2" and "length cons1 \<le> 2147483647"
  shows "\<exists>script. diff = result @ script \<and>
    (\<forall>j out. n1 \<le> j \<longrightarrow> j \<le> length cons1 \<longrightarrow>
       run_script cons1 script j out = Inr (take n2 cons2 @ drop n1 (take j cons1) @ rev out))"
  using assms
proof (induction c1 c2 cons2 n1 n2 result rule: emit_loop.induct)
  case (1 c1 c2 cons2 n1 n2 result)
  note unfold = emit_loop.simps [of c1 c2 cons2 n1 n2 result]
  consider "n1 = 0" "n2 = 0"
    | "\<not> (n1 = 0 \<and> n2 = 0)" "\<not> (n1 > 0 \<and> bitarray_is_set c1 (n1 - 1)) \<and> \<not> (n2 > 0 \<and> bitarray_is_set c2 (n2 - 1))"
    | "\<not> (n1 = 0 \<and> n2 = 0)" "\<not> (\<not> (n1 > 0 \<and> bitarray_is_set c1 (n1 - 1)) \<and> \<not> (n2 > 0 \<and> bitarray_is_set c2 (n2 - 1)))" by blast
  then show ?case
  proof cases
    case 1
    then show ?thesis using "1.prems"(1) unfold by (intro exI [of _ "[]"]) (simp add: run_script_def)
  next
    case 2
    obtain k1 k2 where k: "n1 = Suc k1" "n2 = Suc k2"
      using 2 "1.prems"(2) by (cases n1; cases n2) (auto simp: kept_Suc)
    then have eq: "kept cons1 c1 0 k1 = kept cons2 c2 0 k2" "cons1 ! k1 = cons2 ! k2"
      using 2 "1.prems"(2) by (auto simp: kept_Suc)
    obtain script where "diff = result @ script" and run: "\<And>j out. k1 \<le> j \<Longrightarrow> j \<le> length cons1 \<Longrightarrow>
        run_script cons1 script j out = Inr (take k2 cons2 @ drop k1 (take j cons1) @ rev out)"
      using "1.IH"(1) [OF 2] "1.prems" eq k 2 unfold by auto
    then show ?thesis using eq(2) k "1.prems"(3,4)
      by (intro exI [of _ script]) (auto simp: take_Suc_conv_app_nth drop_take_Suc)
  next
    case 3
    define m1 m2 where m: "m1 = skip_changed c1 n1" "m2 = skip_changed c2 n2"
    define lines where "lines = map (\<lambda>i. cons2 ! i) [m2..<n2]"
    have le: "m1 \<le> n1" "m2 \<le> n2" "m1 < n1 \<or> m2 < n2"
      using 3 skip_changed_le skip_changed_less by (auto simp: m)
    let ?chunk = "ed_command m1 (n1 - m1) (length lines) # (if lines = [] then [] else lines @ [lit ''.''])"
    have dot: "lit ''.'' \<notin> set lines" and rec: "emit_loop c1 c2 cons2 m1 m2 (result @ ?chunk) = Inr diff"
      using "1.prems"(1) 3 le unfold
      by (auto simp: m [symmetric] lines_def Let_def line_str_eq_def list_ex_iff split: if_splits)
    have kept: "kept cons1 c1 0 m1 = kept cons2 c2 0 m2" using "1.prems"(2) by (simp add: m kept_skip)
    have "\<exists>script. diff = (result @ ?chunk) @ script \<and> (\<forall>j out. m1 \<le> j \<longrightarrow> j \<le> length cons1 \<longrightarrow>
       run_script cons1 script j out = Inr (take m2 cons2 @ drop m1 (take j cons1) @ rev out))"
    proof (cases "lines = []")
      case True
      then have "n2 - m2 = 0" by (auto simp: lines_def)
      then show ?thesis using "1.IH"(2) [OF 3 refl refl refl refl refl, folded m] rec True kept "1.prems"(3-5) le by auto
    next
      case False
      then have "n2 - m2 \<noteq> 0" "length lines = n2 - m2" by (simp_all add: lines_def)
      moreover have "\<not> list_ex (\<lambda>line. line_str_eq line (lit ''.'')) lines" using dot by (simp add: list_ex_iff line_str_eq_def)
      ultimately show ?thesis
        using "1.IH"(3) [OF 3 refl refl refl refl refl _ refl, folded m, folded lines_def] rec False kept "1.prems"(3-5) le by auto
    qed
    then obtain script where script: "diff = (result @ ?chunk) @ script" and run: "\<And>j out. m1 \<le> j \<Longrightarrow> j \<le> length cons1 \<Longrightarrow>
        run_script cons1 script j out = Inr (take m2 cons2 @ drop m1 (take j cons1) @ rev out)" by blast
    have lines: "take m2 cons2 @ lines = take n2 cons2"
      using le(2) "1.prems"(4) by (intro nth_equalityI) (auto simp: lines_def nth_append)
    have "run_script cons1 (?chunk @ script) j out = Inr (take n2 cons2 @ drop n1 (take j cons1) @ rev out)"
      if "n1 \<le> j" "j \<le> length cons1" for j out
    proof -
      have "run_script cons1 (?chunk @ script) j out = run_script cons1 script m1 (out @ rev (drop n1 (take j cons1)) @ rev lines)"
        unfolding run_script_def using apply_loop_command [of n1 j cons1 m1 lines script out] that le "1.prems"(5) dot
        by (auto simp: lines_def)
      then show ?thesis using run [of m1] le "1.prems"(3) lines by (simp flip: append_assoc)
    qed
    then show ?thesis using script by (intro exI [of _ "?chunk @ script"]) simp
  qed
qed

lemma kept_take: "n \<le> k \<Longrightarrow> kept (take k l) c 0 n = kept l c 0 n"
  by (auto simp: kept_def)

lemma marks_init:
  assumes "change_loop l1 l2 (-1) it1 (-1) it2 0 0 (bitarray_init_zero (length l1)) (bitarray_init_zero (length l2)) = Inr (c1, c2)"
  shows "kept l1 c1 0 (length l1) = kept l2 c2 0 (length l2)"
  using change_loop_marks [OF assms] fresh_init by (auto simp: marks_def)

text \<open>The one base consensus for which the generated script is not accepted: its signatures are its last line alone.\<close>

definition lone_signature_line :: "cdline list \<Rightarrow> bool" where
  "lone_signature_line cons \<longleftrightarrow>
    length (takeWhile (\<lambda>line. \<not> line_starts_with_str line START_OF_SIGNATURES_SECTION) cons) + 1 = length cons"

lemma gen_ed_diff_run:
  assumes "gen_ed_diff cons1 cons2 = Inr diff" and "length cons1 \<le> 2147483647" and "\<not> lone_signature_line cons1"
  shows "apply_ed_diff cons1 diff 0 = Inr cons2"
proof -
  let ?k = "length (takeWhile (\<lambda>line. \<not> line_starts_with_str line START_OF_SIGNATURES_SECTION) cons1)"
  have k: "?k \<le> length cons1" by (rule length_takeWhile_le)
  obtain base trailer where pre: "preprocess_consensus cons1 = (base, trailer)" by fastforce
  then have base: "base = take ?k cons1"
    and tr: "trailer = (if ?k < length cons1 then Some (decimal (?k + 1) @ lit '',$d'') else None)"
    by (auto simp: preprocess_consensus_def Let_def split: if_splits)
  have len: "length base = ?k" using base k by simp
  obtain c1 c2 where loop: "change_loop base cons2 (-1) ROUTER_ID_ITERATOR_INIT (-1) ROUTER_ID_ITERATOR_INIT 0 0
      (bitarray_init_zero (length base)) (bitarray_init_zero (length cons2)) = Inr (c1, c2)"
    and emit: "emit_loop c1 c2 cons2 (length base) (length cons2) (case trailer of None \<Rightarrow> [] | Some line \<Rightarrow> [line]) = Inr diff"
    using assms(1) by (auto simp: gen_ed_diff_def pre split: sum.splits)
  have "kept cons1 c1 0 ?k = kept cons2 c2 0 (length cons2)"
    using marks_init [OF loop] kept_take [of ?k ?k cons1 c1] by (simp add: len) (simp add: base)
  from emit_loop_script [OF emit [unfolded len] this] obtain script where
    script: "diff = (case trailer of None \<Rightarrow> [] | Some line \<Rightarrow> [line]) @ script"
    and run: "\<And>j out. ?k \<le> j \<Longrightarrow> j \<le> length cons1 \<Longrightarrow>
      run_script cons1 script j out = Inr (take (length cons2) cons2 @ drop ?k (take j cons1) @ rev out)"
    using k assms(2) by auto
  have res: "apply_ed_diff cons1 d 0 = run_script cons1 d (length cons1) []" for d
    by (simp add: apply_ed_diff_def run_script_def split: sum.splits)
  show ?thesis
  proof (cases "?k < length cons1")
    case False
    then show ?thesis using script tr run [of "length cons1" "[]"] k res by simp
  next
    case True
    then have lt: "?k + 1 < length cons1" using assms(3) by (simp add: lone_signature_line_def)
    have "apply_loop cons1 diff (int (length cons1)) [] = apply_loop cons1 script (int ?k) []"
      using apply_loop_delete [OF parse_command_trailer [OF lt assms(2)], of script "[]"] script tr True lt by simp
    then have "run_script cons1 diff (length cons1) [] = run_script cons1 script ?k []" by (simp add: run_script_def)
    then show ?thesis using run [of ?k "[]"] k res by simp
  qed
qed

text \<open>C4: An ed script that \<^verbatim>\<open>gen_ed_diff\<close> writes for two consensuses is accepted by \<^verbatim>\<open>apply_ed_diff\<close> and turns the
  first into the second, line for line, whatever they contain, unless the signature section of
  the base consensus is its last line alone.\<close>

theorem gen_ed_diff_correct:
  assumes "gen_ed_diff cons1 cons2 = Inr diff" and "length cons1 \<le> 2147483647" and "\<not> lone_signature_line cons1"
  shows "apply_ed_diff cons1 diff 0 = Inr cons2"
  using assms by (rule gen_ed_diff_run)

lemma demo_gen: "gen_ed_diff [lit ''a'', lit ''b''] [lit ''a'', lit ''c''] = Inr [lit ''2c'', lit ''c'', lit ''.'']"
  by code_simp

theorem gen_ed_diff_correct_witness:
  "apply_ed_diff [lit ''a'', lit ''b''] [lit ''2c'', lit ''c'', lit ''.''] 0 = Inr [lit ''a'', lit ''c'']"
  by (rule gen_ed_diff_correct [OF demo_gen])
    (simp_all add: lone_signature_line_def line_starts_with_str_def START_OF_SIGNATURES_SECTION_def lit_def)

subsection \<open>Generation never aborts\<close>

lemma find_next_router_line_no_abort:
  "-1 \<le> i \<Longrightarrow> i < int (length cons) \<Longrightarrow> find_next_router_line cons i iter \<noteq> Inl Assertion"
  by (auto simp: find_next_router_line_def next_router_def Let_def split: option.splits)

lemma sync_routers_no_abort:
  "-1 \<le> i1 \<Longrightarrow> -1 \<le> i2 \<Longrightarrow> sync_routers cons1 cons2 i1 iter1 i2 iter2 \<noteq> Inl Assertion"
proof (induction cons1 cons2 i1 iter1 i2 iter2 rule: sync_routers.induct)
  case (1 cons1 cons2 i1 iter1 i2 iter2)
  define cmp where "cmp = base64cmp (iter_hash iter1) (iter_hash iter2)"
  have r1: "sync_routers cons1 cons2 i1' iter1' i2 iter2 \<noteq> Inl Assertion"
    if n: "find_next_router_line cons1 i1 iter1 = Inr (i1', iter1')" and c: "i1 < int (length cons1)" "cmp < 0" "i1' \<noteq> int (length cons1)"
    for i1' iter1'
    using "1.IH"(1) [OF refl refl refl _ _ n refl] c find_next_router_line_advances [OF n] "1.prems"(2) by (simp add: cmp_def)
  have r2: "sync_routers cons1 cons2 i1 iter1 i2' iter2' \<noteq> Inl Assertion"
    if n: "find_next_router_line cons2 i2 iter2 = Inr (i2', iter2')" and c: "i2 < int (length cons2)" "cmp > 0" "i2' \<noteq> int (length cons2)"
    for i2' iter2'
    using "1.IH"(2) [OF refl refl refl _ _ _ n refl] c find_next_router_line_advances [OF n] "1.prems"(1) by (simp add: cmp_def)
  show ?case
    using r1 r2 find_next_router_line_no_abort [OF "1.prems"(1), of cons1 iter1] find_next_router_line_no_abort [OF "1.prems"(2), of cons2 iter2]
    by (subst sync_routers.simps) (auto simp: cmp_def Let_def split: sum.splits)
qed

lemma advance_routers_no_abort:
  assumes "-1 \<le> i1" and "-1 \<le> i2"
  shows "advance_routers cons1 cons2 i1 iter1 i2 iter2 \<noteq> Inl Assertion"
proof -
  have "find_next_router_line c i it \<noteq> Inl Assertion" if "-1 \<le> i" "i < int (length c)" for c i it
    using find_next_router_line_no_abort that by blast
  moreover have "-1 \<le> k" if "find_next_router_line c i it = Inr (k, it')" for c i it k it'
    using find_next_router_line_advances [OF that] by simp
  ultimately show ?thesis using assms sync_routers_no_abort
    by (auto simp: advance_routers_def split: sum.splits if_splits)
qed

lemma change_loop_no_abort:
  assumes "i1 \<le> int (length cons1)" "i2 \<le> int (length cons2)" "start1 = max 0 i1" "start2 = max 0 i2"
    and "fresh_range c1 cons1 (nat start1) (length cons1)" "fresh_range c2 cons2 (nat start2) (length cons2)"
    and "-1 \<le> i1" and "-1 \<le> i2"
  shows "change_loop cons1 cons2 i1 iter1 i2 iter2 start1 start2 c1 c2 \<noteq> Inl Assertion"
  using assms
proof (induction cons1 cons2 i1 iter1 i2 iter2 start1 start2 c1 c2 rule: change_loop.induct)
  case (1 cons1 cons2 i1 iter1 i2 iter2 start1 start2 c1 c2)
  note unfold = change_loop.simps [of cons1 cons2 i1 iter1 i2 iter2 start1 start2 c1 c2]
  show ?case
  proof (cases "advance_routers cons1 cons2 i1 iter1 i2 iter2")
    case (Inl e)
    then show ?thesis using advance_routers_no_abort [OF "1.prems"(7,8)] unfold by auto
  next
    case (Inr r)
    obtain j1 it1 j2 it2 where r: "r = (j1, it1, j2, it2)" by (cases r)
    note adv = Inr [unfolded r]
    note round = change_loop_round [OF adv "1.prems"(1-6)]
    obtain e1 e2 where run: "do { cons1_sl \<leftarrow> smartlist_slice cons1 start1 j1; cons2_sl \<leftarrow> smartlist_slice cons2 start2 j2;
        calc_changes cons1_sl cons2_sl c1 c2 } = Some (e1, e2)"
      and f: "fresh_range e1 cons1 (nat j1) (length cons1)" "fresh_range e2 cons2 (nat j2) (length cons2)"
      using round(1) by blast
    have "change_loop cons1 cons2 j1 it1 j2 it2 j1 j2 e1 e2 \<noteq> Inl Assertion"
      if "i1 < int (length cons1) \<or> i2 < int (length cons2)" "\<not> (j1 - start1 > MAX_LINE_COUNT \<or> j2 - start2 > MAX_LINE_COUNT)"
      using "1.IH" [OF that(1) adv refl refl refl that(2) run refl] round(2,3) f by (simp add: max_def)
    then show ?thesis using unfold adv run by auto
  qed
qed

lemma emit_loop_no_abort: "emit_loop c1 c2 cons2 n1 n2 result \<noteq> Inl Assertion"
proof (induction c1 c2 cons2 n1 n2 result rule: emit_loop.induct)
  case (1 c1 c2 cons2 n1 n2 result)
  then show ?case by (subst emit_loop.simps) (auto simp: Let_def)
qed

text \<open>C22: Generating a diff never fails an assertion, for any two line lists: every slice lies in its list, every
  position in its consensus. The loops over the routers, the slices and the changed lines all end.\<close>

theorem gen_ed_diff_no_abort: "gen_ed_diff cons1 cons2 \<noteq> Inl Assertion"
proof -
  obtain base trailer where pre: "preprocess_consensus cons1 = (base, trailer)" by fastforce
  have "change_loop base cons2 (-1) ROUTER_ID_ITERATOR_INIT (-1) ROUTER_ID_ITERATOR_INIT 0 0
      (bitarray_init_zero (length base)) (bitarray_init_zero (length cons2)) \<noteq> Inl Assertion"
    using fresh_init by (intro change_loop_no_abort) simp_all
  then show ?thesis using emit_loop_no_abort by (auto simp: gen_ed_diff_def pre split: sum.splits)
qed

end
