(* ===== verification/Tor_Consdiff_Doc.thy ===== *)
theory Tor_Consdiff_Doc
  imports Tor_Consdiff
begin

text \<open>
  The consensus diff documents of \<^verbatim>\<open>feature/dircommon/consdiff.c\<close>: an ed script under a header with the
  SHA3-256 digests of both consensuses. The digests come from the cryptographic library and from
  the consensus parser: they are the record \<open>digest_ops\<close>, whose functions fail with \<open>None\<close>.
\<close>

record digest_ops =
  compute_digest :: "bytes \<Rightarrow> bytes option"
  compute_digest_as_signed :: "bytes \<Rightarrow> bytes option"

definition ns_diff_version :: bytes where
  "ns_diff_version = lit ''network-status-diff-version 1''"

definition hash_token :: bytes where
  "hash_token = lit ''hash''"

definition consensus_digest_eq :: "bytes \<Rightarrow> bytes \<Rightarrow> bool" where
  "consensus_digest_eq d1 d2 \<longleftrightarrow> take DIGEST256_LEN d1 = take DIGEST256_LEN d2"

subsection \<open>Diffs as lists of lines\<close>

datatype diff_error = Generation gen_error | Test_Apply_Failed | Test_Mismatch

definition digest_hex :: "bytes \<Rightarrow> bytes option" where
  "digest_hex digest = map_option c_str (base16_encode (HEX_DIGEST256_LEN + 1) (take DIGEST256_LEN digest))"

definition consdiff_gen_diff :: "cdline list \<Rightarrow> cdline list \<Rightarrow> bytes \<Rightarrow> bytes \<Rightarrow> diff_error + cdline list" where
  "consdiff_gen_diff cons1 cons2 digests1 digests2 =
    (case gen_ed_diff cons1 cons2 of
       Inl e \<Rightarrow> Inl (Generation e)
     | Inr ed_diff \<Rightarrow>
         (case apply_ed_diff cons1 ed_diff 0 of
            Inl _ \<Rightarrow> Inl Test_Apply_Failed
          | Inr ed_cons2 \<Rightarrow>
              if length cons2 = length ed_cons2 \<and> list_all (\<lambda>(line1, line2). lines_eq line1 line2) (zip cons2 ed_cons2)
              then (case (digest_hex digests1, digest_hex digests2) of
                     (Some h1, Some h2) \<Rightarrow> Inr ([ns_diff_version, hash_token @ [32] @ h1 @ [32] @ h2] @ ed_diff)
                   | _ \<Rightarrow> Inl (Generation Assertion))
              else Inl Test_Mismatch))"

definition consdiff_get_digests :: "cdline list \<Rightarrow> (bytes \<times> bytes) option" where
  "consdiff_get_digests diff =
    (if length diff < 2 then None
     else if \<not> line_str_eq (diff ! 0) ns_diff_version then None
     else case smartlist_split_string (c_str (diff ! 1)) (Some [32]) no_split_flags 4 of
       None \<Rightarrow> None
     | Some hash_words \<Rightarrow>
         if length hash_words \<noteq> 3 \<or> strcmp (hash_words ! 0) hash_token \<noteq> 0 then None
         else if length (hash_words ! 1) \<noteq> HEX_DIGEST256_LEN \<or> length (hash_words ! 2) \<noteq> HEX_DIGEST256_LEN then None
         else let (r1, cons1_hash) = base16_decode (replicate DIGEST256_LEN 0) (hash_words ! 1);
                  (r2, cons2_hash) = base16_decode (replicate DIGEST256_LEN 0) (hash_words ! 2)
              in if r1 \<noteq> int DIGEST256_LEN \<or> r2 \<noteq> int DIGEST256_LEN then None else Some (cons1_hash, cons2_hash))"

definition consensus_join_lines :: "cdline list \<Rightarrow> bytes" where
  "consensus_join_lines inp = concat (map (\<lambda>cdline. cdline @ [10]) inp)"

definition consdiff_apply_diff :: "digest_ops \<Rightarrow> cdline list \<Rightarrow> cdline list \<Rightarrow> bytes \<Rightarrow> bytes option" where
  "consdiff_apply_diff ops cons1 diff digests1 = do {
     (e_cons1_hash, e_cons2_hash) \<leftarrow> consdiff_get_digests diff;
     if \<not> consensus_digest_eq digests1 e_cons1_hash then None
     else case apply_ed_diff cons1 diff 2 of
       Inl _ \<Rightarrow> None
     | Inr cons2 \<Rightarrow> do {
         let cons2_str = consensus_join_lines cons2;
         cons2_digests \<leftarrow> compute_digest ops (c_str cons2_str);
         if \<not> consensus_digest_eq cons2_digests e_cons2_hash then None else Some cons2_str } }"

subsection \<open>Diffs as documents\<close>

abbreviation (input) CONSENSUS_LINE_MAX_LEN :: nat where "CONSENSUS_LINE_MAX_LEN \<equiv> 1048576"

function consensus_split_lines :: "bytes \<Rightarrow> cdline list option" where
  "consensus_split_lines s =
    (if s = [] then Some []
     else let line = takeWhile (\<lambda>c. c \<noteq> 10) s
          in if length line = length s then None
             else if length line > CONSENSUS_LINE_MAX_LEN then None
             else map_option ((#) line) (consensus_split_lines (drop (length line + 1) s)))"
  by pat_completeness auto
termination
  by (relation "measure length") auto

declare consensus_split_lines.simps [simp del]

definition consensus_diff_generate :: "digest_ops \<Rightarrow> bytes \<Rightarrow> bytes \<Rightarrow> bytes option" where
  "consensus_diff_generate ops cons1 cons2 = do {
     d1 \<leftarrow> compute_digest_as_signed ops cons1;
     d2 \<leftarrow> compute_digest ops cons2;
     lines1 \<leftarrow> consensus_split_lines cons1;
     lines2 \<leftarrow> consensus_split_lines cons2;
     case consdiff_gen_diff lines1 lines2 d1 d2 of
       Inl _ \<Rightarrow> None
     | Inr result_lines \<Rightarrow> Some (consensus_join_lines result_lines) }"

definition consensus_diff_apply :: "digest_ops \<Rightarrow> bytes \<Rightarrow> bytes \<Rightarrow> bytes option" where
  "consensus_diff_apply ops consensus diff = do {
     d1 \<leftarrow> compute_digest_as_signed ops consensus;
     lines1 \<leftarrow> consensus_split_lines consensus;
     lines2 \<leftarrow> consensus_split_lines diff;
     consdiff_apply_diff ops lines1 lines2 d1 }"

definition looks_like_a_consensus_diff :: "bytes \<Rightarrow> bool" where
  "looks_like_a_consensus_diff document \<longleftrightarrow>
     length document \<ge> length ns_diff_version \<and> take (length ns_diff_version) document = ns_diff_version"

subsection \<open>Lines\<close>

definition plain_line :: "cdline \<Rightarrow> bool" where
  "plain_line l \<longleftrightarrow> 10 \<notin> set l \<and> length l \<le> CONSENSUS_LINE_MAX_LEN"

lemma split_join_lines: "list_all plain_line ls \<Longrightarrow> consensus_split_lines (consensus_join_lines ls) = Some ls"
proof (induction ls)
  case Nil
  then show ?case by (simp add: consensus_split_lines.simps consensus_join_lines_def)
next
  case (Cons l ls)
  have "takeWhile (\<lambda>c. c \<noteq> 10) (l @ 10 # consensus_join_lines ls) = l"
    using Cons.prems by (subst takeWhile_append2) (auto simp: plain_line_def)
  moreover have "consensus_join_lines (l # ls) = l @ 10 # consensus_join_lines ls" by (simp add: consensus_join_lines_def)
  ultimately show ?case using Cons
    by (subst consensus_split_lines.simps) (simp add: plain_line_def Let_def)
qed

lemma join_split_lines: "consensus_split_lines s = Some ls \<Longrightarrow> consensus_join_lines ls = s \<and> list_all plain_line ls"
proof (induction s arbitrary: ls rule: consensus_split_lines.induct)
  case (1 s)
  note unfold = consensus_split_lines.simps [of s]
  show ?case
  proof (cases "s = []")
    case True
    then show ?thesis using "1.prems" unfold by (simp add: consensus_join_lines_def)
  next
    case False
    let ?line = "takeWhile (\<lambda>c. c \<noteq> 10) s"
    obtain rest where rest: "consensus_split_lines (drop (length ?line + 1) s) = Some rest" "ls = ?line # rest"
      and c: "length ?line \<noteq> length s" "\<not> length ?line > CONSENSUS_LINE_MAX_LEN"
      using "1.prems" False unfold by (auto simp: Let_def split: if_splits)
    have IH: "consensus_join_lines rest = drop (length ?line + 1) s" "list_all plain_line rest"
      using "1.IH" [OF False refl c rest(1)] by simp_all
    have "dropWhile (\<lambda>c. c \<noteq> 10) s \<noteq> []" using c(1) by (metis append.right_neutral takeWhile_dropWhile_id)
    then have "s = ?line @ 10 # tl (dropWhile (\<lambda>c. c \<noteq> 10) s)"
      using hd_dropWhile [of "\<lambda>c. c \<noteq> 10" s] by (metis list.collapse takeWhile_dropWhile_id)
    moreover have "drop (length ?line + 1) s = tl (dropWhile (\<lambda>c. c \<noteq> 10) s)"
      by (simp add: dropWhile_eq_drop drop_Suc tl_drop)
    moreover have "plain_line ?line" using c(2) by (auto simp: plain_line_def dest: set_takeWhileD)
    ultimately show ?thesis using IH rest(2) by (simp add: consensus_join_lines_def)
  qed
qed

lemma plain_decimal: "n \<le> 2147483647 \<Longrightarrow> 10 \<notin> set (decimal n) \<and> length (decimal n) \<le> 10"
  using decimal_digits [of n] length_decimal_int32 [of n] by (auto simp: digit_ranges)

lemma plain_ed_command: "m1 + deleted < 2147483647 \<Longrightarrow> plain_line (ed_command m1 deleted added)"
  using plain_decimal [of "m1 + 1"] plain_decimal [of "m1 + deleted"] plain_decimal [of m1]
  by (auto simp: ed_command_def plain_line_def lit_def)

lemma emit_loop_plain:
  "emit_loop c1 c2 cons2 n1 n2 result = Inr diff \<Longrightarrow> list_all plain_line result \<Longrightarrow> list_all plain_line cons2 \<Longrightarrow>
   n1 < 2147483647 \<Longrightarrow> n2 \<le> length cons2 \<Longrightarrow> list_all plain_line diff"
proof (induction c1 c2 cons2 n1 n2 result rule: emit_loop.induct)
  case (1 c1 c2 cons2 n1 n2 result)
  note unfold = emit_loop.simps [of c1 c2 cons2 n1 n2 result]
  define m1 m2 where m: "m1 = skip_changed c1 n1" "m2 = skip_changed c2 n2"
  have le: "m1 \<le> n1" "m2 \<le> n2" using skip_changed_le by (simp_all add: m)
  have cmd: "plain_line (ed_command m1 (n1 - m1) k)" for k using le "1.prems"(4) by (intro plain_ed_command) simp
  have lines: "list_all plain_line (map (\<lambda>i. cons2 ! i) [m2..<n2])" using "1.prems"(3,5) by (auto simp: list_all_length)
  have dot: "plain_line (lit ''.'')" by (simp add: plain_line_def lit_def)
  show ?case
  proof (cases "n1 = 0 \<and> n2 = 0")
    case True
    then show ?thesis using "1.prems" unfold by simp
  next
    case ne: False
    show ?thesis
    proof (cases "\<not> (n1 > 0 \<and> bitarray_is_set c1 (n1 - 1)) \<and> \<not> (n2 > 0 \<and> bitarray_is_set c2 (n2 - 1))")
      case True
      then show ?thesis using "1.IH"(1) [OF ne True] "1.prems" ne unfold by auto
    next
      case False
      note IH = "1.IH"(2) [OF ne False refl refl refl refl refl, folded m] "1.IH"(3) [OF ne False refl refl refl refl refl _ refl, folded m]
      show ?thesis
      proof (cases "n2 - m2 = 0")
        case True
        then have "emit_loop c1 c2 cons2 m1 m2 (result @ [ed_command m1 (n1 - m1) (n2 - m2)]) = Inr diff"
          using "1.prems"(1) ne False unfold by (auto simp: m [symmetric] Let_def)
        then show ?thesis using IH(1) True "1.prems" cmd le by simp
      next
        case added: False
        then have nd: "\<not> list_ex (\<lambda>line. line_str_eq line (lit ''.'')) (map (\<lambda>i. cons2 ! i) [m2..<n2])"
          and "emit_loop c1 c2 cons2 m1 m2 ((result @ [ed_command m1 (n1 - m1) (n2 - m2)]) @ map (\<lambda>i. cons2 ! i) [m2..<n2] @ [lit ''.'']) = Inr diff"
          using "1.prems"(1) ne False unfold by (auto simp: m [symmetric] Let_def split: if_splits)
        then show ?thesis using IH(2) [OF added nd] "1.prems" cmd dot lines le by simp
      qed
    qed
  qed
qed

lemma gen_ed_diff_plain:
  assumes "gen_ed_diff cons1 cons2 = Inr diff" and "list_all plain_line cons2" and "length cons1 < 2147483647"
  shows "list_all plain_line diff"
proof -
  obtain base trailer where pre: "preprocess_consensus cons1 = (base, trailer)" by fastforce
  have b: "length base < 2147483647" and tr: "list_all plain_line (case trailer of None \<Rightarrow> [] | Some line \<Rightarrow> [line])"
    using pre assms(3) plain_decimal [of "Suc (length (takeWhile (\<lambda>line. \<not> line_starts_with_str line START_OF_SIGNATURES_SECTION) cons1))"]
    by (auto simp: preprocess_consensus_def Let_def plain_line_def lit_def split: if_splits)
  obtain c1 c2 where "emit_loop c1 c2 cons2 (length base) (length cons2) (case trailer of None \<Rightarrow> [] | Some line \<Rightarrow> [line]) = Inr diff"
    using assms(1) by (auto simp: gen_ed_diff_def pre split: sum.splits)
  from emit_loop_plain [OF this tr assms(2) b] show ?thesis by simp
qed

subsection \<open>The header\<close>

lemma split_loop_join_max:
  assumes "strs \<noteq> []" and "\<forall>s \<in> set strs. c \<notin> set s" and "int (n + length strs) \<le> mx"
  shows "split_loop (join_text strs [c]) (Some [c]) no_split_flags mx n = Some strs"
  using assms
proof (induction strs arbitrary: n)
  case (Cons s strs)
  show ?case
  proof (cases "strs = []")
    case True
    then show ?thesis using Cons.prems
      by (simp add: split_loop.simps [of s] split_end_def split_piece_def split_next_def strstr_char_None Let_def)
  next
    case False
    then have "split_loop (join_text strs [c]) (Some [c]) no_split_flags mx (n + 1) = Some strs"
      using Cons by simp
    moreover have "int n \<noteq> mx - 1" using Cons.prems(3) False by (cases strs) auto
    ultimately show ?thesis using Cons.prems False
      by (simp add: split_loop.simps [of "s @ c # _"] split_end_def split_piece_def split_next_def strstr_char Let_def)
  qed
qed simp

lemma digest_hex_eq: "length d = DIGEST256_LEN \<Longrightarrow> digest_hex d = Some (concat (map hex2 d))"
  using base16_encode_eq [of d 65] c_str_zero_padded [OF is_c_str_hex, of d 65] by (simp add: digest_hex_def)

lemma get_digests_header:
  assumes "length d1 = DIGEST256_LEN" and "length d2 = DIGEST256_LEN"
  shows "consdiff_get_digests (ns_diff_version # (hash_token @ [32] @ concat (map hex2 d1) @ [32] @ concat (map hex2 d2)) # rest) = Some (d1, d2)"
proof -
  let ?h1 = "concat (map hex2 d1)" and ?h2 = "concat (map hex2 d2)"
  have no: "32 \<notin> set ?h1" "32 \<notin> set ?h2" using hex_text_chars [of 32 d1] hex_text_chars [of 32 d2] by auto
  have ht: "is_c_str hash_token" "32 \<notin> set hash_token" by (simp_all add: hash_token_def lit_def is_c_str_def)
  have "c_str (hash_token @ 32 # ?h1 @ 32 # ?h2) = hash_token @ 32 # ?h1 @ 32 # ?h2"
    using ht(1) is_c_str_hex by (intro c_str_id) (simp add: c_string_simps)
  moreover have "split_loop (hash_token @ 32 # ?h1 @ 32 # ?h2) (Some [32]) no_split_flags 4 0 = Some [hash_token, ?h1, ?h2]"
    using split_loop_join_max [of "[hash_token, ?h1, ?h2]" 32 0 4] no ht(2) by simp
  moreover have "base16_decode (replicate DIGEST256_LEN 0) ?h1 = (32, d1)" "base16_decode (replicate DIGEST256_LEN 0) ?h2 = (32, d2)"
    using assms base16_decode_eq [of d1 "replicate DIGEST256_LEN 0"] base16_decode_eq [of d2 "replicate DIGEST256_LEN 0"]
    by (simp_all add: zero_padded_def)
  ultimately show ?thesis using assms ht(1)
    by (simp add: consdiff_get_digests_def smartlist_split_string_def line_str_eq_def strcmp_eq_0)
qed

subsection \<open>Applying a generated diff\<close>

lemma gen_diff_lines:
  assumes "consdiff_gen_diff cons1 cons2 d1 d2 = Inr result" and "length d1 = DIGEST256_LEN" and "length d2 = DIGEST256_LEN"
  shows "\<exists>ed. result = [ns_diff_version, hash_token @ [32] @ concat (map hex2 d1) @ [32] @ concat (map hex2 d2)] @ ed \<and>
    gen_ed_diff cons1 cons2 = Inr ed \<and> apply_ed_diff cons1 ed 0 = Inr cons2"
proof -
  have eq: "length a = length b \<Longrightarrow> list_all (\<lambda>(x, y). lines_eq x y) (zip a b) \<Longrightarrow> b = a" for a b :: "cdline list"
    by (auto simp: list_all_length intro!: nth_equalityI)
  show ?thesis using assms(1) eq
    by (auto simp: consdiff_gen_diff_def digest_hex_eq [OF assms(2)] digest_hex_eq [OF assms(3)] split: sum.splits if_splits)
qed

lemma generateE:
  assumes "consensus_diff_generate ops cons1 cons2 = Some diff"
  obtains d1 d2 lines1 lines2 result where "compute_digest_as_signed ops cons1 = Some d1" and "compute_digest ops cons2 = Some d2"
    and "consensus_split_lines cons1 = Some lines1" and "consensus_split_lines cons2 = Some lines2"
    and "consdiff_gen_diff lines1 lines2 d1 d2 = Inr result" and "diff = consensus_join_lines result"
proof -
  obtain d1 d2 lines1 lines2 where "compute_digest_as_signed ops cons1 = Some d1" "compute_digest ops cons2 = Some d2"
    "consensus_split_lines cons1 = Some lines1" "consensus_split_lines cons2 = Some lines2"
    "(case consdiff_gen_diff lines1 lines2 d1 d2 of Inl _ \<Rightarrow> None | Inr result_lines \<Rightarrow> Some (consensus_join_lines result_lines)) = Some diff"
    using assms by (auto simp: consensus_diff_generate_def bind_eq_Some_conv)
  then show ?thesis using that by (cases "consdiff_gen_diff lines1 lines2 d1 d2") auto
qed

lemma generate_apply:
  assumes "consensus_diff_generate ops cons1 cons2 = Some diff"
    and "\<And>s d. compute_digest ops s = Some d \<Longrightarrow> length d = DIGEST256_LEN"
    and "\<And>s d. compute_digest_as_signed ops s = Some d \<Longrightarrow> length d = DIGEST256_LEN"
    and "is_c_str cons2" and "length cons1 < 2147483647"
  shows "consensus_diff_apply ops cons1 diff = Some cons2"
proof -
  obtain d1 d2 lines1 lines2 result where d: "compute_digest_as_signed ops cons1 = Some d1" "compute_digest ops cons2 = Some d2"
    and l: "consensus_split_lines cons1 = Some lines1" "consensus_split_lines cons2 = Some lines2"
    and gen: "consdiff_gen_diff lines1 lines2 d1 d2 = Inr result" and diff: "diff = consensus_join_lines result"
    by (rule generateE [OF assms(1)])
  have len: "length d1 = DIGEST256_LEN" "length d2 = DIGEST256_LEN" using assms(2,3) d by blast+
  let ?head = "[ns_diff_version, hash_token @ [32] @ concat (map hex2 d1) @ [32] @ concat (map hex2 d2)]"
  obtain ed where ed: "result = ?head @ ed" "gen_ed_diff lines1 lines2 = Inr ed" "apply_ed_diff lines1 ed 0 = Inr lines2"
    using gen_diff_lines [OF gen len] by blast
  note j1 = join_split_lines [OF l(1)] and j2 = join_split_lines [OF l(2)]
  have "length lines1 \<le> length (consensus_join_lines lines1)" by (induction lines1) (simp_all add: consensus_join_lines_def)
  then have "list_all plain_line ed" using gen_ed_diff_plain [OF ed(2)] j1 j2 assms(5) by simp
  moreover have "list_all plain_line ?head"
    using hex_text_chars [of 10 d1] hex_text_chars [of 10 d2] len by (auto simp: plain_line_def ns_diff_version_def hash_token_def lit_def)
  ultimately have split: "consensus_split_lines diff = Some result" unfolding diff ed(1) by (intro split_join_lines) simp
  have "apply_ed_diff lines1 result 2 = Inr lines2" using ed(3) by (simp add: ed(1) apply_ed_diff_def)
  moreover have "consdiff_get_digests result = Some (d1, d2)" using get_digests_header [OF len, of ed] by (simp add: ed(1))
  moreover have "c_str cons2 = cons2" using assms(4) by (rule c_str_id)
  ultimately show ?thesis using d l split j2
    by (simp add: consensus_diff_apply_def consdiff_apply_diff_def consensus_digest_eq_def)
qed

text \<open>C3: A consensus diff that was generated for two consensus documents applies to the first and gives the second
  back, byte for byte: the header's digests are read back and match, every line survives, and
  the script rebuilds the target. The digest functions return 32 bytes, and the target has no NUL.\<close>

theorem consensus_diff_roundtrip:
  assumes "consensus_diff_generate ops cons1 cons2 = Some diff"
    and "\<And>s d. compute_digest ops s = Some d \<Longrightarrow> length d = DIGEST256_LEN"
    and "\<And>s d. compute_digest_as_signed ops s = Some d \<Longrightarrow> length d = DIGEST256_LEN"
    and "is_c_str cons2" and "length cons1 < 2147483647"
  shows "consensus_diff_apply ops cons1 diff = Some cons2"
  by (rule generate_apply [OF assms(1-5)])

lemma gen_diff_complete:
  assumes "gen_ed_diff cons1 cons2 = Inr ed" and "length cons1 \<le> 2147483647" and "\<not> lone_signature_line cons1"
    and "length d1 = DIGEST256_LEN" and "length d2 = DIGEST256_LEN"
  shows "consdiff_gen_diff cons1 cons2 d1 d2 =
    Inr ([ns_diff_version, hash_token @ [32] @ concat (map hex2 d1) @ [32] @ concat (map hex2 d2)] @ ed)"
  using gen_ed_diff_run [OF assms(1-3)] assms(1) digest_hex_eq [OF assms(4)] digest_hex_eq [OF assms(5)]
  by (auto simp: consdiff_gen_diff_def list_all_length)

text \<open>C23: Whenever a script could be generated, its test inside \<^verbatim>\<open>consdiff_gen_diff\<close> succeeds and the diff is returned,
  with its header: the branches that the code calls impossible are, unless the signature section of
  the base consensus is its last line alone.\<close>

theorem consdiff_gen_diff_complete:
  assumes "gen_ed_diff cons1 cons2 = Inr ed" and "length cons1 \<le> 2147483647" and "\<not> lone_signature_line cons1"
    and "length d1 = DIGEST256_LEN" and "length d2 = DIGEST256_LEN"
  shows "\<exists>header. consdiff_gen_diff cons1 cons2 d1 d2 = Inr (header @ ed) \<and> length header = 2 \<and>
    consdiff_get_digests (header @ ed) = Some (d1, d2)"
  using gen_diff_complete [OF assms] get_digests_header [OF assms(4,5), of ed] by auto

text \<open>C24: A base consensus whose signature section is one line at its end: the script starts with a command
  \<^verbatim>\<open>n,$d\<close> where \<^verbatim>\<open>n\<close> is the last line, \<^verbatim>\<open>apply_ed_diff\<close> refuses it as an invalid range, and no diff from
  such a consensus is ever produced, whatever the target.\<close>

theorem consdiff_lone_signature_refused:
  assumes "gen_ed_diff cons1 cons2 = Inr ed" and "length cons1 \<le> 2147483647" and "lone_signature_line cons1"
  shows "apply_ed_diff cons1 ed 0 = Inl Invalid_Range \<and> consdiff_gen_diff cons1 cons2 d1 d2 = Inl Test_Apply_Failed"
proof -
  let ?k = "length (takeWhile (\<lambda>line. \<not> line_starts_with_str line START_OF_SIGNATURES_SECTION) cons1)"
  have k: "?k + 1 = length cons1" using assms(3) by (simp add: lone_signature_line_def)
  then have pre: "preprocess_consensus cons1 = (take ?k cons1, Some (decimal (?k + 1) @ lit '',$d''))"
    by (simp add: preprocess_consensus_def Let_def)
  obtain c1 c2 where loop: "change_loop (take ?k cons1) cons2 (-1) ROUTER_ID_ITERATOR_INIT (-1) ROUTER_ID_ITERATOR_INIT 0 0
      (bitarray_init_zero (length (take ?k cons1))) (bitarray_init_zero (length cons2)) = Inr (c1, c2)"
    and emit: "emit_loop c1 c2 cons2 (length (take ?k cons1)) (length cons2) [decimal (?k + 1) @ lit '',$d''] = Inr ed"
    using assms(1) by (auto simp: gen_ed_diff_def pre split: sum.splits)
  have kept: "kept (take ?k cons1) c1 0 (length (take ?k cons1)) = kept cons2 c2 0 (length cons2)" by (rule marks_init [OF loop])
  have "length (take ?k cons1) \<le> 2147483647" using k assms(2) by simp
  then obtain script where ed: "ed = [decimal (?k + 1) @ lit '',$d''] @ script"
    using emit_loop_script [OF emit kept order_refl order_refl] by blast
  have "c_str (decimal (?k + 1) @ [44, 36, 100]) = decimal (?k + 1) @ [44, 36, 100]"
    using decimal_c_str by (intro c_str_id) (auto simp: c_string_simps)
  moreover have "get_linenum (decimal (?k + 1) @ [44, 36, 100]) = Some (int (?k + 1), [44, 36, 100])"
    using assms(2) k not_digits by (intro get_linenum_decimal) auto
  ultimately have "parse_command (length cons1) (int (length cons1)) (decimal (?k + 1) @ lit '',$d'') = Inl Invalid_Range"
    using k plain_decimal [of "?k + 1"] assms(2) by (simp add: parse_command_def parse_range_def Let_def lit_def)
  then have "apply_ed_diff cons1 ed 0 = Inl Invalid_Range" by (simp add: apply_ed_diff_def ed apply_loop.simps(2))
  then show ?thesis using assms(1) by (simp add: consdiff_gen_diff_def)
qed

text \<open>C21: A diff is applied only to the consensus it was made for, and its result is only returned when it has the
  digest that the header announces: from the two digests in the header, the first is that of the
  base consensus as signed and the second that of the returned document.\<close>

theorem consensus_diff_apply_checked:
  assumes "consensus_diff_apply ops consensus diff = Some s"
  shows "\<exists>lines2 e1 e2 d1 d2. consensus_split_lines diff = Some lines2 \<and> consdiff_get_digests lines2 = Some (e1, e2) \<and>
    compute_digest_as_signed ops consensus = Some d1 \<and> take DIGEST256_LEN d1 = take DIGEST256_LEN e1 \<and>
    compute_digest ops (c_str s) = Some d2 \<and> take DIGEST256_LEN d2 = take DIGEST256_LEN e2"
proof -
  obtain d1 lines1 lines2 where l: "compute_digest_as_signed ops consensus = Some d1" "consensus_split_lines diff = Some lines2"
    and a: "consdiff_apply_diff ops lines1 lines2 d1 = Some s"
    using assms by (auto simp: consensus_diff_apply_def bind_eq_Some_conv)
  then show ?thesis
    by (auto simp: consdiff_apply_diff_def bind_eq_Some_conv consensus_digest_eq_def Let_def split: if_splits sum.splits)
qed

subsection \<open>Witnesses\<close>

definition demo_digests :: digest_ops where
  "demo_digests = \<lparr> compute_digest = (\<lambda>_. Some (replicate 32 1)), compute_digest_as_signed = (\<lambda>_. Some (replicate 32 2)) \<rparr>"

lemma demo_lines: "list_all plain_line [lit ''a'', lit ''b'']" "list_all plain_line [lit ''a'', lit ''c'']"
  "\<not> lone_signature_line [lit ''a'', lit ''b'']"
  by (simp_all add: plain_line_def lit_def lone_signature_line_def line_starts_with_str_def START_OF_SIGNATURES_SECTION_def)

lemma demo_generate:
  "\<exists>diff. consensus_diff_generate demo_digests (consensus_join_lines [lit ''a'', lit ''b'']) (consensus_join_lines [lit ''a'', lit ''c'']) = Some diff"
  using gen_diff_complete [OF demo_gen _ demo_lines(3), of "replicate 32 2" "replicate 32 1"] demo_lines(1,2) [THEN split_join_lines]
  by (simp add: consensus_diff_generate_def demo_digests_def)

theorem consensus_diff_roundtrip_witness:
  "\<exists>diff. consensus_diff_generate demo_digests (consensus_join_lines [lit ''a'', lit ''b'']) (consensus_join_lines [lit ''a'', lit ''c'']) = Some diff \<and>
    consensus_diff_apply demo_digests (consensus_join_lines [lit ''a'', lit ''b'']) diff = Some (consensus_join_lines [lit ''a'', lit ''c''])"
proof -
  obtain diff where d: "consensus_diff_generate demo_digests (consensus_join_lines [lit ''a'', lit ''b'']) (consensus_join_lines [lit ''a'', lit ''c'']) = Some diff"
    using demo_generate by blast
  from consensus_diff_roundtrip [OF d] show ?thesis using d
    by (auto simp: demo_digests_def consensus_join_lines_def lit_def is_c_str_def)
qed

theorem consdiff_gen_diff_complete_witness:
  "\<exists>header. consdiff_gen_diff [lit ''a'', lit ''b''] [lit ''a'', lit ''c''] (replicate 32 2) (replicate 32 1) =
      Inr (header @ [lit ''2c'', lit ''c'', lit ''.'']) \<and> length header = 2 \<and>
    consdiff_get_digests (header @ [lit ''2c'', lit ''c'', lit ''.'']) = Some (replicate 32 2, replicate 32 1)"
  by (rule consdiff_gen_diff_complete [OF demo_gen _ demo_lines(3)]) simp_all

lemma demo_lone: "gen_ed_diff [lit ''a'', lit ''directory-signature x''] [lit ''a''] = Inr [lit ''2,$d'']"
  by code_simp

theorem consdiff_lone_signature_refused_witness:
  "consdiff_gen_diff [lit ''a'', lit ''directory-signature x''] [lit ''a''] (replicate 32 2) (replicate 32 1) = Inl Test_Apply_Failed"
  using consdiff_lone_signature_refused [OF demo_lone, of "replicate 32 2" "replicate 32 1"]
  by (simp add: lone_signature_line_def line_starts_with_str_def START_OF_SIGNATURES_SECTION_def lit_def)

theorem consensus_diff_apply_checked_witness:
  "\<exists>diff lines2 e1 e2. consensus_diff_apply demo_digests (consensus_join_lines [lit ''a'', lit ''b'']) diff =
       Some (consensus_join_lines [lit ''a'', lit ''c'']) \<and>
     consensus_split_lines diff = Some lines2 \<and> consdiff_get_digests lines2 = Some (e1, e2) \<and>
     take DIGEST256_LEN (replicate 32 2) = take DIGEST256_LEN e1"
proof -
  obtain diff where d: "consensus_diff_generate demo_digests (consensus_join_lines [lit ''a'', lit ''b'']) (consensus_join_lines [lit ''a'', lit ''c'']) = Some diff"
    using demo_generate by blast
  have a: "consensus_diff_apply demo_digests (consensus_join_lines [lit ''a'', lit ''b'']) diff = Some (consensus_join_lines [lit ''a'', lit ''c''])"
    using generate_apply [OF d] by (auto simp: demo_digests_def consensus_join_lines_def lit_def is_c_str_def)
  obtain lines2 e1 e2 where "consensus_split_lines diff = Some lines2" "consdiff_get_digests lines2 = Some (e1, e2)"
    "take DIGEST256_LEN (replicate 32 2) = take DIGEST256_LEN e1"
    using consensus_diff_apply_checked [OF a] by (auto simp: demo_digests_def)
  then show ?thesis using a by blast
qed

end
