(* ===== verification/Tor_Buffers.thy ===== *)
theory Tor_Buffers
  imports Tor_String "HOL-Library.Monad_Syntax" "HOL-Library.Sublist"
begin

text \<open>
  \<^verbatim>\<open>lib/buf/buffers.c\<close>: byte queues stored as a list of memory chunks.  A chunk owns a block of
  memory; its data is the segment of length \<^verbatim>\<open>datalen\<close> at the pointer \<^verbatim>\<open>data\<close>, kept here as an
  offset into the block.  The linked list from \<^verbatim>\<open>head\<close> to \<^verbatim>\<open>tail\<close> is the list \<open>chunks\<close>, so that
  \<^verbatim>\<open>head\<close> is its first and \<^verbatim>\<open>tail\<close> its last element and both are \<^verbatim>\<open>NULL\<close> when it is empty.  The
  static counter \<^verbatim>\<open>total_bytes_allocated_in_chunks\<close> is an argument and a result (\<open>tot\<close>) of the
  operations that allocate or release chunks.

  \<open>None\<close> means that an assertion failed or that memory outside of a block was written: the
  theorems show that neither happens.  What \<^verbatim>\<open>malloc\<close> leaves in a new block and the time stamps
  of the monotonic clock are the parameter \<open>buf_env\<close>, arbitrary functions of the counter.
\<close>

section \<open>Chunks\<close>

record chunk =
  chunk_mem :: bytes
  chunk_data :: nat
  chunk_datalen :: nat
  inserted_time :: "32 word"

record buf =
  magic :: "32 word"
  buf_len :: nat
  default_chunk_size :: nat
  chunks :: "chunk list"

record buf_env =
  env_mem :: "nat \<Rightarrow> nat \<Rightarrow> byte"
  env_stamp :: "nat \<Rightarrow> 32 word"

definition CHUNK_HEADER_LEN :: nat where "CHUNK_HEADER_LEN = 44"
definition SENTINEL_LEN :: nat where "SENTINEL_LEN = 4"
definition CHUNK_OVERHEAD :: nat where "CHUNK_OVERHEAD = CHUNK_HEADER_LEN + SENTINEL_LEN"
definition CHUNK_ALLOC_SIZE :: "nat \<Rightarrow> nat" where "CHUNK_ALLOC_SIZE len = CHUNK_OVERHEAD + len"
definition CHUNK_SIZE_WITH_ALLOC :: "nat \<Rightarrow> nat" where "CHUNK_SIZE_WITH_ALLOC len = len - CHUNK_OVERHEAD"
definition MIN_CHUNK_ALLOC :: nat where "MIN_CHUNK_ALLOC = 256"
definition MAX_CHUNK_ALLOC :: nat where "MAX_CHUNK_ALLOC = 65536"
definition BUF_MAX_LEN :: nat where "BUF_MAX_LEN = INT_MAX - 1"
definition BUFFER_MAGIC :: "32 word" where "BUFFER_MAGIC = 0xB0FFF312"

lemmas chunk_consts = CHUNK_HEADER_LEN_def SENTINEL_LEN_def CHUNK_OVERHEAD_def CHUNK_ALLOC_SIZE_def
  CHUNK_SIZE_WITH_ALLOC_def MIN_CHUNK_ALLOC_def MAX_CHUNK_ALLOC_def BUF_MAX_LEN_def

definition memlen :: "chunk \<Rightarrow> nat" where
  "memlen c = length (chunk_mem c)"

text \<open>The bytes that a chunk stores.\<close>

definition chunk_bytes :: "chunk \<Rightarrow> bytes" where
  "chunk_bytes c = take (chunk_datalen c) (drop (chunk_data c) (chunk_mem c))"

definition CHUNK_REMAINING_CAPACITY :: "chunk \<Rightarrow> nat" where
  "CHUNK_REMAINING_CAPACITY c = memlen c - (chunk_data c + chunk_datalen c)"

text \<open>\<^verbatim>\<open>memcpy(CHUNK_WRITE_PTR(chunk), s, n)\<close> with the update of \<^verbatim>\<open>datalen\<close> that follows it everywhere.\<close>

definition chunk_write :: "chunk \<Rightarrow> bytes \<Rightarrow> chunk option" where
  "chunk_write c s =
    (let p = chunk_data c + chunk_datalen c
     in if p + length s \<le> memlen c
        then Some (c\<lparr> chunk_mem := take p (chunk_mem c) @ s @ drop (p + length s) (chunk_mem c),
                      chunk_datalen := chunk_datalen c + length s \<rparr>)
        else None)"

definition chunk_repack :: "chunk \<Rightarrow> chunk" where
  "chunk_repack c =
    (let c = (if chunk_datalen c \<noteq> 0 \<and> chunk_data c \<noteq> 0
              then c\<lparr> chunk_mem := chunk_bytes c @ drop (chunk_datalen c) (chunk_mem c) \<rparr> else c)
     in c\<lparr> chunk_data := 0 \<rparr>)"

definition buf_chunk_free_unchecked :: "nat \<Rightarrow> chunk \<Rightarrow> nat option" where
  "buf_chunk_free_unchecked tot c = do {
     tor_assert (tot \<ge> CHUNK_ALLOC_SIZE (memlen c));
     Some (tot - CHUNK_ALLOC_SIZE (memlen c)) }"

text \<open>The sentinel is written behind the usable memory, which must lie inside of the block.\<close>

definition chunk_new_with_alloc_size :: "buf_env \<Rightarrow> nat \<Rightarrow> nat \<Rightarrow> (nat \<times> chunk) option" where
  "chunk_new_with_alloc_size env tot alloc = do {
     tor_assert (alloc \<ge> CHUNK_OVERHEAD);
     Some (tot + alloc, \<lparr> chunk_mem = map (env_mem env tot) [0..<CHUNK_SIZE_WITH_ALLOC alloc],
       chunk_data = 0, chunk_datalen = 0, inserted_time = 0 \<rparr>) }"

definition chunk_grow :: "buf_env \<Rightarrow> nat \<Rightarrow> chunk \<Rightarrow> nat \<Rightarrow> (nat \<times> chunk) option" where
  "chunk_grow env tot c sz = do {
     tor_assert (sz > memlen c);
     Some (tot + (CHUNK_ALLOC_SIZE sz - CHUNK_ALLOC_SIZE (memlen c)),
       c\<lparr> chunk_mem := chunk_mem c @ map (env_mem env tot) [memlen c..<sz] \<rparr>) }"

function preferred_loop :: "nat \<Rightarrow> nat \<Rightarrow> nat" where
  "preferred_loop target sz =
    (if 0 < sz \<and> CHUNK_SIZE_WITH_ALLOC sz < target then preferred_loop target (push_bit 1 sz) else sz)"
  by auto
termination
  by (relation "measure (\<lambda>(target, sz). target + CHUNK_OVERHEAD - sz)")
    (auto simp: CHUNK_SIZE_WITH_ALLOC_def push_bit_eq_mult)

declare preferred_loop.simps [simp del]

definition buf_preferred_chunk_size :: "nat \<Rightarrow> nat option" where
  "buf_preferred_chunk_size target = do {
     tor_assert (target \<le> SIZE_T_CEILING - CHUNK_OVERHEAD);
     Some (if CHUNK_ALLOC_SIZE target \<ge> MAX_CHUNK_ALLOC then CHUNK_ALLOC_SIZE target
           else preferred_loop target MIN_CHUNK_ALLOC) }"

section \<open>Operations on buffers\<close>

text \<open>
  Pulling up: the loop moves the data of the following chunks into the first one until it holds
  \<open>n\<close> bytes.  After the second branch the loop condition is false.
\<close>

fun pullup_loop :: "nat \<Rightarrow> nat \<Rightarrow> chunk \<Rightarrow> chunk list \<Rightarrow> (nat \<times> chunk list) option" where
  "pullup_loop tot n dest [] = (if chunk_datalen dest < n then None else Some (tot, [dest]))"
| "pullup_loop tot n dest (src # rest) =
    (if chunk_datalen dest < n
     then let k = n - chunk_datalen dest
          in if k \<ge> chunk_datalen src
             then do {
               dest \<leftarrow> chunk_write dest (chunk_bytes src);
               tot \<leftarrow> buf_chunk_free_unchecked tot src;
               pullup_loop tot n dest rest }
             else do {
               dest \<leftarrow> chunk_write dest (take k (chunk_bytes src));
               let src = src\<lparr> chunk_data := chunk_data src + k, chunk_datalen := chunk_datalen src - k \<rparr>;
               tor_assert (chunk_datalen dest = n);
               Some (tot, dest # src # rest) }
     else Some (tot, dest # src # rest))"

text \<open>Room for \<open>capacity\<close> bytes in the first chunk: by moving its data to the front, or by growing it.\<close>

definition pullup_room :: "buf_env \<Rightarrow> nat \<Rightarrow> chunk \<Rightarrow> nat \<Rightarrow> (nat \<times> chunk) option" where
  "pullup_room env tot head_chunk capacity =
    (if memlen head_chunk \<ge> capacity
     then do {
       let needed = capacity - chunk_datalen head_chunk;
       let c = (if CHUNK_REMAINING_CAPACITY head_chunk < needed then chunk_repack head_chunk else head_chunk);
       tor_assert (CHUNK_REMAINING_CAPACITY c \<ge> needed);
       Some (tot, c) }
     else do {
       pref \<leftarrow> buf_preferred_chunk_size capacity;
       (tot, newhead) \<leftarrow> chunk_grow env tot (chunk_repack head_chunk) (CHUNK_SIZE_WITH_ALLOC pref);
       tor_assert (memlen newhead \<ge> capacity);
       Some (tot, newhead) })"

text \<open>The result has the bytes at \<^verbatim>\<open>*head_out\<close>, \<^verbatim>\<open>*len_out\<close> of them; \<open>None\<close> for \<^verbatim>\<open>NULL\<close>.\<close>

definition buf_pullup :: "buf_env \<Rightarrow> nat \<Rightarrow> buf \<Rightarrow> nat \<Rightarrow> (nat \<times> buf \<times> bytes option) option" where
  "buf_pullup env tot b n =
    (case chunks b of
       [] \<Rightarrow> Some (tot, b, None)
     | head_chunk # rest \<Rightarrow>
         let n = (if buf_len b < n then buf_len b else n)
         in if chunk_datalen head_chunk \<ge> n then Some (tot, b, Some (chunk_bytes head_chunk))
            else do {
              (tot, dest) \<leftarrow> pullup_room env tot head_chunk n;
              (tot, cs) \<leftarrow> pullup_loop tot n dest rest;
              Some (tot, b\<lparr> chunks := cs \<rparr>, Some (chunk_bytes (hd cs))) })"

fun drain_loop :: "nat \<Rightarrow> nat \<Rightarrow> nat \<Rightarrow> chunk list \<Rightarrow> (nat \<times> nat \<times> chunk list) option" where
  "drain_loop tot len n [] = (if n = 0 then Some (tot, len, []) else None)"
| "drain_loop tot len n (c # cs) =
    (if n = 0 then Some (tot, len, c # cs)
     else if chunk_datalen c > n
     then Some (tot, len - n, c\<lparr> chunk_datalen := chunk_datalen c - n, chunk_data := chunk_data c + n \<rparr> # cs)
     else do {
       tot \<leftarrow> buf_chunk_free_unchecked tot c;
       drain_loop tot (len - chunk_datalen c) (n - chunk_datalen c) cs })"

definition buf_drain :: "nat \<Rightarrow> buf \<Rightarrow> nat \<Rightarrow> (nat \<times> buf) option" where
  "buf_drain tot b n = do {
     tor_assert (buf_len b \<ge> n);
     (tot, len, cs) \<leftarrow> drain_loop tot (buf_len b) n (chunks b);
     Some (tot, b\<lparr> buf_len := len, chunks := cs \<rparr>) }"

definition buf_new :: buf where
  "buf_new = \<lparr> magic = BUFFER_MAGIC, buf_len = 0, default_chunk_size = 4096, chunks = [] \<rparr>"

definition buf_new_with_capacity :: "nat \<Rightarrow> buf option" where
  "buf_new_with_capacity sz = do {
     pref \<leftarrow> buf_preferred_chunk_size sz;
     Some (buf_new\<lparr> default_chunk_size := pref \<rparr>) }"

fun free_chunks :: "nat \<Rightarrow> chunk list \<Rightarrow> nat option" where
  "free_chunks tot [] = Some tot"
| "free_chunks tot (c # cs) = do { tot \<leftarrow> buf_chunk_free_unchecked tot c; free_chunks tot cs }"

definition buf_clear :: "nat \<Rightarrow> buf \<Rightarrow> (nat \<times> buf) option" where
  "buf_clear tot b = do {
     tot \<leftarrow> free_chunks tot (chunks b);
     Some (tot, b\<lparr> buf_len := 0, chunks := [] \<rparr>) }"

definition buf_datalen :: "buf \<Rightarrow> nat" where
  "buf_datalen b = buf_len b"

definition buf_allocation :: "buf \<Rightarrow> nat" where
  "buf_allocation b = sum_list (map (\<lambda>c. CHUNK_ALLOC_SIZE (memlen c)) (chunks b))"

definition buf_slack :: "buf \<Rightarrow> nat" where
  "buf_slack b = (if chunks b = [] then 0 else CHUNK_REMAINING_CAPACITY (last (chunks b)))"

text \<open>\<^verbatim>\<open>buf_free_\<close> releases the chunks, then the structure itself: only the counter is left.\<close>

definition buf_free :: "nat \<Rightarrow> buf option \<Rightarrow> nat option" where
  "buf_free tot b = (case b of None \<Rightarrow> Some tot | Some b \<Rightarrow> do { (tot, _) \<leftarrow> buf_clear tot b; Some tot })"

definition chunk_copy :: "nat \<Rightarrow> chunk \<Rightarrow> nat \<times> chunk" where
  "chunk_copy tot c = (tot + CHUNK_ALLOC_SIZE (memlen c), c)"

fun copy_chunks :: "nat \<Rightarrow> chunk list \<Rightarrow> nat \<times> chunk list" where
  "copy_chunks tot [] = (tot, [])"
| "copy_chunks tot (c # cs) = (let (tot, c) = chunk_copy tot c; (tot, cs) = copy_chunks tot cs in (tot, c # cs))"

definition buf_copy :: "nat \<Rightarrow> buf \<Rightarrow> nat \<times> buf" where
  "buf_copy tot b =
    (let (tot, cs) = copy_chunks tot (chunks b)
     in (tot, buf_new\<lparr> default_chunk_size := default_chunk_size b, chunks := cs, buf_len := buf_len b \<rparr>))"

definition buf_set_to_copy :: "nat \<Rightarrow> buf option \<Rightarrow> buf \<Rightarrow> (nat \<times> buf) option" where
  "buf_set_to_copy tot output input = do { tot \<leftarrow> buf_free tot output; Some (buf_copy tot input) }"

definition buf_add_chunk_with_capacity :: "buf_env \<Rightarrow> nat \<Rightarrow> buf \<Rightarrow> nat \<Rightarrow> bool \<Rightarrow> (nat \<times> buf) option" where
  "buf_add_chunk_with_capacity env tot b capacity capped = do {
     (tot', c) \<leftarrow>
       (if CHUNK_ALLOC_SIZE capacity < default_chunk_size b then chunk_new_with_alloc_size env tot (default_chunk_size b)
        else if capped \<and> CHUNK_ALLOC_SIZE capacity > MAX_CHUNK_ALLOC then chunk_new_with_alloc_size env tot MAX_CHUNK_ALLOC
        else do { pref \<leftarrow> buf_preferred_chunk_size capacity; chunk_new_with_alloc_size env tot pref });
     Some (tot', b\<lparr> chunks := chunks b @ [c\<lparr> inserted_time := env_stamp env tot \<rparr>] \<rparr>) }"

definition buf_get_oldest_chunk_timestamp :: "buf \<Rightarrow> 32 word \<Rightarrow> 32 word" where
  "buf_get_oldest_chunk_timestamp b now = (case chunks b of [] \<Rightarrow> 0 | c # _ \<Rightarrow> now - inserted_time c)"

definition buf_get_total_allocation :: "nat \<Rightarrow> nat" where
  "buf_get_total_allocation tot = tot"

text \<open>Subtraction of \<^verbatim>\<open>size_t\<close> values.\<close>

definition size_sub :: "nat \<Rightarrow> nat \<Rightarrow> nat" where
  "size_sub a b = (if b \<le> a then a - b else a + 18446744073709551616 - b)"

partial_function (option) buf_add_loop :: "buf_env \<Rightarrow> nat \<Rightarrow> buf \<Rightarrow> bytes \<Rightarrow> (nat \<times> buf) option" where
  "buf_add_loop env tot b s =
    (if s = [] then Some (tot, b)
     else Option.bind
       (if chunks b = [] \<or> CHUNK_REMAINING_CAPACITY (last (chunks b)) = 0
        then buf_add_chunk_with_capacity env tot b (length s) True else Some (tot, b))
       (\<lambda>(tot, b).
          let t = last (chunks b);
              copy = (if CHUNK_REMAINING_CAPACITY t > length s then length s else CHUNK_REMAINING_CAPACITY t)
          in Option.bind (chunk_write t (take copy s))
               (\<lambda>t. buf_add_loop env tot (b\<lparr> buf_len := buf_len b + copy, chunks := butlast (chunks b) @ [t] \<rparr>) (drop copy s))))"

text \<open>The new length, or \<open>-1\<close> when a check marked as a bug fires.\<close>

definition buf_add :: "buf_env \<Rightarrow> nat \<Rightarrow> buf \<Rightarrow> bytes \<Rightarrow> (nat \<times> buf \<times> int) option" where
  "buf_add env tot b s =
    (if s = [] then Some (tot, b, int (buf_len b))
     else if buf_len b > BUF_MAX_LEN then Some (tot, b, -1)
     else if buf_len b > size_sub BUF_MAX_LEN (length s) then Some (tot, b, -1)
     else do {
       (tot, b) \<leftarrow> buf_add_loop env tot b s;
       tor_assert (buf_len b \<le> BUF_MAX_LEN);
       Some (tot, b, int (buf_len b)) })"

definition buf_add_string :: "buf_env \<Rightarrow> nat \<Rightarrow> buf \<Rightarrow> bytes \<Rightarrow> (nat \<times> buf \<times> int) option" where
  "buf_add_string env tot b s = buf_add env tot b (c_str s)"

fun peek_loop :: "nat \<Rightarrow> chunk list \<Rightarrow> bytes option" where
  "peek_loop n [] = (if n = 0 then Some [] else None)"
| "peek_loop n (c # cs) =
    (if n = 0 then Some []
     else let copy = (if chunk_datalen c < n then chunk_datalen c else n)
          in map_option (\<lambda>r. take copy (drop (chunk_data c) (chunk_mem c)) @ r) (peek_loop (n - copy) cs))"

definition buf_peek :: "buf \<Rightarrow> nat \<Rightarrow> bytes option" where
  "buf_peek b n = do { tor_assert (n \<le> buf_len b); peek_loop n (chunks b) }"

text \<open>The contents with the terminating NUL, and \<^verbatim>\<open>*sz_out\<close>.\<close>

definition buf_extract :: "buf \<Rightarrow> (bytes \<times> nat) option" where
  "buf_extract b = do { r \<leftarrow> buf_peek b (buf_datalen b); Some (r @ [0], buf_datalen b) }"

definition buf_get_bytes :: "nat \<Rightarrow> buf \<Rightarrow> nat \<Rightarrow> (nat \<times> buf \<times> bytes \<times> int) option" where
  "buf_get_bytes tot b n = do {
     string \<leftarrow> buf_peek b n;
     (tot, b) \<leftarrow> buf_drain tot b n;
     tor_assert (buf_len b \<le> BUF_MAX_LEN);
     Some (tot, b, string, int (buf_len b)) }"

function move_loop :: "buf_env \<Rightarrow> nat \<Rightarrow> buf \<Rightarrow> buf \<Rightarrow> nat \<Rightarrow> (nat \<times> buf \<times> buf) option" where
  "move_loop env tot buf_out buf_in len =
    (if len = 0 then Some (tot, buf_out, buf_in)
     else let n = (if len > 4096 then 4096 else len)
          in case buf_get_bytes tot buf_in n of
               None \<Rightarrow> None
             | Some (tot, buf_in, b, _) \<Rightarrow>
                 (case buf_add env tot buf_out b of
                    None \<Rightarrow> None
                  | Some (tot, buf_out, _) \<Rightarrow> move_loop env tot buf_out buf_in (len - n)))"
  by auto
termination
  by (relation "measure (\<lambda>(_, _, _, _, len). len)") auto

declare move_loop.simps [simp del]

text \<open>The counter, both buffers, the new \<^verbatim>\<open>*buf_flushlen\<close> and the returned number.\<close>

definition buf_move_to_buf :: "buf_env \<Rightarrow> nat \<Rightarrow> buf \<Rightarrow> buf \<Rightarrow> nat \<Rightarrow> (nat \<times> buf \<times> buf \<times> nat \<times> int) option" where
  "buf_move_to_buf env tot buf_out buf_in flushlen =
    (if buf_len buf_out > BUF_MAX_LEN \<or> flushlen > BUF_MAX_LEN then Some (tot, buf_out, buf_in, flushlen, -1)
     else if buf_len buf_out > size_sub BUF_MAX_LEN flushlen then Some (tot, buf_out, buf_in, flushlen, -1)
     else do {
       let len = (if flushlen > buf_len buf_in then buf_len buf_in else flushlen);
       tor_assert (len \<le> BUF_MAX_LEN);
       (tot, buf_out, buf_in) \<leftarrow> move_loop env tot buf_out buf_in len;
       Some (tot, buf_out, buf_in, flushlen - len, int len) })"

definition buf_move_all :: "buf \<Rightarrow> buf option \<Rightarrow> buf \<times> buf option \<times> nat" where
  "buf_move_all buf_out buf_in =
    (case buf_in of
       None \<Rightarrow> (buf_out, None, 0)
     | Some bi \<Rightarrow>
         if buf_datalen bi = 0 then (buf_out, buf_in, 0)
         else if buf_len buf_out > BUF_MAX_LEN \<or> buf_len bi > BUF_MAX_LEN then (buf_out, buf_in, 0)
         else if buf_len buf_out > size_sub BUF_MAX_LEN (buf_len bi) then (buf_out, buf_in, 0)
         else (buf_out\<lparr> chunks := chunks buf_out @ chunks bi, buf_len := buf_len buf_out + buf_len bi \<rparr>,
               Some (bi\<lparr> chunks := [], buf_len := 0 \<rparr>), buf_len bi))"

text \<open>\<^verbatim>\<open>buf_assert_ok\<close>, as the conjunction of its assertions.\<close>

definition buf_assert_ok :: "buf \<Rightarrow> bool" where
  "buf_assert_ok b \<longleftrightarrow> magic b = BUFFER_MAGIC \<and>
    (if chunks b = [] then buf_len b = 0
     else list_all (\<lambda>c. chunk_datalen c \<le> memlen c \<and> chunk_datalen c \<le> BUF_MAX_LEN \<and> chunk_data c \<le> memlen c \<and>
            chunk_data c + chunk_datalen c \<le> memlen c) (chunks b) \<and>
          buf_len b = sum_list (map chunk_datalen (chunks b)))"

section \<open>The contents of a buffer and its invariant\<close>

definition chunk_ok :: "chunk \<Rightarrow> bool" where
  "chunk_ok c \<longleftrightarrow> chunk_data c + chunk_datalen c \<le> memlen c"

definition contents :: "buf \<Rightarrow> bytes" where
  "contents b = concat (map chunk_bytes (chunks b))"

definition chunks_alloc :: "chunk list \<Rightarrow> nat" where
  "chunks_alloc cs = sum_list (map (\<lambda>c. CHUNK_ALLOC_SIZE (memlen c)) cs)"

text \<open>What \<^verbatim>\<open>buf_assert_ok\<close> checks, with the limit on the length.\<close>

definition buf_ok :: "buf \<Rightarrow> bool" where
  "buf_ok b \<longleftrightarrow> buf_assert_ok b \<and> buf_len b \<le> BUF_MAX_LEN"

named_theorems chunk_simps

lemma chunks_alloc_simps [chunk_simps]:
  "chunks_alloc [] = 0" "chunks_alloc (c # cs) = CHUNK_ALLOC_SIZE (memlen c) + chunks_alloc cs"
  "chunks_alloc (cs @ ds) = chunks_alloc cs + chunks_alloc ds"
  by (simp_all add: chunks_alloc_def)

lemma buf_allocation_alloc: "buf_allocation b = chunks_alloc (chunks b)"
  by (simp add: buf_allocation_def chunks_alloc_def)

lemma length_chunk_bytes [chunk_simps]: "chunk_ok c \<Longrightarrow> length (chunk_bytes c) = chunk_datalen c"
  by (simp add: chunk_ok_def chunk_bytes_def memlen_def)

lemma length_concat_chunks:
  "list_all chunk_ok cs \<Longrightarrow> length (concat (map chunk_bytes cs)) = sum_list (map chunk_datalen cs)"
  by (induction cs) (simp_all add: chunk_simps)

lemma buf_ok_iff:
  "buf_ok b \<longleftrightarrow> magic b = BUFFER_MAGIC \<and> list_all chunk_ok (chunks b) \<and>
     buf_len b = sum_list (map chunk_datalen (chunks b)) \<and> buf_len b \<le> BUF_MAX_LEN"
proof (cases "chunks b = []")
  case False
  have "list_all (\<lambda>c. chunk_datalen c \<le> memlen c \<and> chunk_datalen c \<le> BUF_MAX_LEN \<and> chunk_data c \<le> memlen c \<and>
      chunk_data c + chunk_datalen c \<le> memlen c) cs \<longleftrightarrow> list_all chunk_ok cs"
    if "sum_list (map chunk_datalen cs) \<le> BUF_MAX_LEN" for cs
    using that by (induction cs) (auto simp: chunk_ok_def)
  then show ?thesis using False by (auto simp: buf_ok_def buf_assert_ok_def)
qed (auto simp: buf_ok_def buf_assert_ok_def)

lemma length_buf_contents: "buf_ok b \<Longrightarrow> length (contents b) = buf_len b"
  by (simp add: buf_ok_iff contents_def length_concat_chunks)

subsection \<open>Chunks\<close>

lemma chunk_write_ok:
  assumes "chunk_ok c" and "length s \<le> CHUNK_REMAINING_CAPACITY c"
  obtains c' where "chunk_write c s = Some c'" and "chunk_ok c'" and "chunk_bytes c' = chunk_bytes c @ s"
    and "memlen c' = memlen c" and "chunk_datalen c' = chunk_datalen c + length s" and "chunk_data c' = chunk_data c"
proof -
  let ?p = "chunk_data c + chunk_datalen c"
  let ?c = "c\<lparr> chunk_mem := take ?p (chunk_mem c) @ s @ drop (?p + length s) (chunk_mem c),
    chunk_datalen := chunk_datalen c + length s \<rparr>"
  have le: "?p + length s \<le> length (chunk_mem c)"
    using assms by (simp add: chunk_ok_def CHUNK_REMAINING_CAPACITY_def memlen_def)
  have w: "chunk_write c s = Some ?c" using le by (simp add: chunk_write_def Let_def memlen_def)
  have len: "memlen ?c = memlen c" using le by (simp add: memlen_def)
  have "chunk_bytes ?c = chunk_bytes c @ s"
    using le by (simp add: chunk_bytes_def drop_take)
  with w len le that [of ?c] show thesis by (simp add: chunk_ok_def memlen_def)
qed

lemma chunk_repack_ok:
  assumes "chunk_ok c"
  shows "chunk_ok (chunk_repack c)" "chunk_bytes (chunk_repack c) = chunk_bytes c" "memlen (chunk_repack c) = memlen c"
    "chunk_datalen (chunk_repack c) = chunk_datalen c" "chunk_data (chunk_repack c) = 0"
  using assms length_chunk_bytes [OF assms]
  by (auto simp: chunk_repack_def Let_def chunk_ok_def memlen_def chunk_bytes_def)

lemma chunk_grow_ok:
  assumes "chunk_ok c" and "memlen c < sz"
  obtains c' where "chunk_grow env tot c sz = Some (tot + (sz - memlen c), c')" and "chunk_ok c'"
    and "chunk_bytes c' = chunk_bytes c" and "memlen c' = sz" and "chunk_datalen c' = chunk_datalen c" and "chunk_data c' = chunk_data c"
proof (rule that)
  let ?c = "c\<lparr> chunk_mem := chunk_mem c @ map (env_mem env tot) [memlen c..<sz] \<rparr>"
  show "chunk_grow env tot c sz = Some (tot + (sz - memlen c), ?c)" using assms(2)
    by (simp add: chunk_grow_def CHUNK_ALLOC_SIZE_def)
  show "memlen ?c = sz" using assms(2) by (simp add: memlen_def)
  then show "chunk_ok ?c" using assms by (simp add: chunk_ok_def)
  show "chunk_bytes ?c = chunk_bytes c" using assms by (simp add: chunk_bytes_def chunk_ok_def memlen_def)
qed simp_all

lemma preferred_loop_ge: "0 < sz \<Longrightarrow> CHUNK_OVERHEAD \<le> sz \<Longrightarrow> CHUNK_OVERHEAD + target \<le> preferred_loop target sz"
proof (induction target sz rule: preferred_loop.induct)
  case (1 target sz)
  then show ?case
    by (subst preferred_loop.simps) (auto simp: push_bit_eq_mult CHUNK_SIZE_WITH_ALLOC_def not_less)
qed

lemma buf_preferred_chunk_size_ok:
  assumes "target \<le> SIZE_T_CEILING - CHUNK_OVERHEAD"
  obtains pref where "buf_preferred_chunk_size target = Some pref" and "CHUNK_OVERHEAD + target \<le> pref"
  using assms preferred_loop_ge [of MIN_CHUNK_ALLOC target] that
  by (cases "CHUNK_ALLOC_SIZE target \<ge> MAX_CHUNK_ALLOC")
    (simp_all add: buf_preferred_chunk_size_def CHUNK_ALLOC_SIZE_def, simp add: chunk_consts)

lemma chunk_free_ok [chunk_simps]:
  "CHUNK_ALLOC_SIZE (memlen c) \<le> tot \<Longrightarrow> buf_chunk_free_unchecked tot c = Some (tot - CHUNK_ALLOC_SIZE (memlen c))"
  by (simp add: buf_chunk_free_unchecked_def)

section \<open>Correctness of the operations\<close>

text \<open>No chunk is empty.  Every operation of this file keeps it; only a read that returns nothing adds an empty chunk.\<close>

definition dense :: "chunk list \<Rightarrow> bool" where
  "dense cs \<longleftrightarrow> list_all (\<lambda>c. 0 < chunk_datalen c) cs"

abbreviation chunks_bytes :: "chunk list \<Rightarrow> bytes" where
  "chunks_bytes cs \<equiv> concat (map chunk_bytes cs)"

text \<open>
  One state of a buffer follows another when it has the given contents, is well formed, stays
  dense, and the counter has changed by the change of the allocation.
\<close>

definition becomes :: "nat \<Rightarrow> buf \<Rightarrow> nat \<Rightarrow> buf \<Rightarrow> bytes \<Rightarrow> bool" where
  "becomes tot b tot' b' s \<longleftrightarrow> buf_ok b' \<and> contents b' = s \<and> tot' + buf_allocation b = tot + buf_allocation b' \<and>
     (dense (chunks b) \<longrightarrow> dense (chunks b')) \<and> default_chunk_size b' = default_chunk_size b"

lemma becomes_allocation: "becomes tot b tot' b' s \<Longrightarrow> buf_allocation b + extra \<le> tot \<Longrightarrow> buf_allocation b' + extra \<le> tot'"
  by (simp add: becomes_def)

lemma becomes_len: "becomes tot b tot' b' s \<Longrightarrow> buf_len b' = length s"
  by (auto simp: becomes_def length_buf_contents)

lemma becomes_trans: "becomes tot b tot' b' s \<Longrightarrow> becomes tot' b' tot'' b'' s' \<Longrightarrow> becomes tot b tot'' b'' s'"
  by (auto simp: becomes_def)

subsection \<open>Draining and peeking\<close>

lemma drain_loop_ok:
  assumes "list_all chunk_ok cs" and "n \<le> sum_list (map chunk_datalen cs)" and "chunks_alloc cs \<le> tot"
  shows "\<exists>tot' cs'. drain_loop tot (sum_list (map chunk_datalen cs)) n cs = Some (tot', sum_list (map chunk_datalen cs'), cs') \<and>
    list_all chunk_ok cs' \<and> chunks_bytes cs' = drop n (chunks_bytes cs) \<and>
    tot' + chunks_alloc cs = tot + chunks_alloc cs' \<and> (dense cs \<longrightarrow> dense cs')"
  using assms
proof (induction cs arbitrary: n tot)
  case (Cons c cs)
  have c: "chunk_ok c" "length (chunk_bytes c) = chunk_datalen c" using Cons.prems by (simp_all add: chunk_simps)
  consider "n = 0" | "0 < n" "n < chunk_datalen c" | "0 < n" "chunk_datalen c \<le> n" by linarith
  then show ?case
  proof cases
    case 2
    let ?c = "c\<lparr> chunk_datalen := chunk_datalen c - n, chunk_data := chunk_data c + n \<rparr>"
    have "chunk_bytes ?c = drop n (chunk_bytes c)" by (simp add: chunk_bytes_def drop_take add.commute)
    moreover have "chunk_ok ?c" "memlen ?c = memlen c" using c 2 by (simp_all add: chunk_ok_def memlen_def)
    ultimately show ?thesis using 2 c Cons.prems by (simp add: chunk_simps dense_def)
  next
    case 3
    have le: "n - chunk_datalen c \<le> sum_list (map chunk_datalen cs)" "chunks_alloc cs \<le> tot - CHUNK_ALLOC_SIZE (memlen c)"
      "CHUNK_ALLOC_SIZE (memlen c) \<le> tot"
      using Cons.prems by (simp_all add: chunk_simps)
    obtain tot' cs' where "drain_loop (tot - CHUNK_ALLOC_SIZE (memlen c)) (sum_list (map chunk_datalen cs)) (n - chunk_datalen c) cs =
        Some (tot', sum_list (map chunk_datalen cs'), cs')"
      and "list_all chunk_ok cs'" "chunks_bytes cs' = drop (n - chunk_datalen c) (chunks_bytes cs)"
        "tot' + chunks_alloc cs = tot - CHUNK_ALLOC_SIZE (memlen c) + chunks_alloc cs'" "dense cs \<longrightarrow> dense cs'"
      using Cons.IH [OF _ le(1,2)] Cons.prems(1) by auto
    then show ?thesis using 3 c le(3) by (auto simp: chunk_simps dense_def)
  qed (use Cons.prems in simp)
qed simp

lemma buf_drain_ok:
  assumes "buf_ok b" and "n \<le> length (contents b)" and "buf_allocation b \<le> tot"
  obtains tot' b' where "buf_drain tot b n = Some (tot', b')" and "becomes tot b tot' b' (drop n (contents b))"
proof -
  have n: "n \<le> sum_list (map chunk_datalen (chunks b))" "buf_len b = sum_list (map chunk_datalen (chunks b))"
    using assms(1,2) length_buf_contents [OF assms(1)] by (simp_all add: buf_ok_iff)
  obtain tot' cs' where r: "drain_loop tot (buf_len b) n (chunks b) = Some (tot', sum_list (map chunk_datalen cs'), cs')"
    and ok: "list_all chunk_ok cs'" "chunks_bytes cs' = drop n (chunks_bytes (chunks b))"
      "tot' + chunks_alloc (chunks b) = tot + chunks_alloc cs'" "dense (chunks b) \<longrightarrow> dense cs'"
    using drain_loop_ok [of "chunks b" n tot] assms n by (auto simp: buf_ok_iff buf_allocation_alloc)
  let ?b = "b\<lparr> buf_len := sum_list (map chunk_datalen cs'), chunks := cs' \<rparr>"
  have "sum_list (map chunk_datalen cs') \<le> BUF_MAX_LEN"
    using arg_cong [OF ok(2), of length] ok(1) assms(1) by (auto simp: length_concat_chunks buf_ok_iff)
  then have "becomes tot b tot' ?b (drop n (contents b))"
    using ok assms(1) by (simp add: becomes_def buf_ok_iff contents_def buf_allocation_alloc)
  moreover have "buf_drain tot b n = Some (tot', ?b)" using r n by (simp add: buf_drain_def)
  ultimately show thesis by (rule that [rotated])
qed

lemma peek_loop_ok:
  "list_all chunk_ok cs \<Longrightarrow> n \<le> sum_list (map chunk_datalen cs) \<Longrightarrow> peek_loop n cs = Some (take n (chunks_bytes cs))"
proof (induction cs arbitrary: n)
  case (Cons c cs)
  then show ?case using length_chunk_bytes [of c] by (auto simp: Let_def simp flip: chunk_bytes_def) (simp add: chunk_bytes_def min_def)
qed simp

lemma buf_peek_ok:
  assumes "buf_ok b" and "n \<le> length (contents b)"
  shows "buf_peek b n = Some (take n (contents b))"
  using assms length_buf_contents [OF assms(1)] peek_loop_ok [of "chunks b" n]
  by (simp add: buf_peek_def buf_ok_iff contents_def)

lemma buf_get_bytes_ok:
  assumes "buf_ok b" and "n \<le> length (contents b)" and "buf_allocation b \<le> tot"
  obtains tot' b' where "buf_get_bytes tot b n = Some (tot', b', take n (contents b), int (length (contents b) - n))"
    and "becomes tot b tot' b' (drop n (contents b))"
proof -
  obtain tot' b' where d: "buf_drain tot b n = Some (tot', b')" and be: "becomes tot b tot' b' (drop n (contents b))"
    using buf_drain_ok [OF assms] by blast
  have "buf_len b' = length (contents b) - n" "buf_len b' \<le> BUF_MAX_LEN"
    using becomes_len [OF be] be by (simp_all add: becomes_def buf_ok_def)
  with d be show thesis using that by (simp add: buf_get_bytes_def buf_peek_ok [OF assms(1,2)])
qed

lemma buf_extract_ok: "buf_ok b \<Longrightarrow> buf_extract b = Some (contents b @ [0], length (contents b))"
  using buf_peek_ok [of b "buf_len b"] length_buf_contents [of b] by (simp add: buf_extract_def buf_datalen_def)

subsection \<open>Appending\<close>

lemma add_chunk_ok:
  assumes "buf_ok b" and "0 < capacity" and "capacity \<le> SIZE_T_CEILING - CHUNK_OVERHEAD"
  obtains tot' c where "buf_add_chunk_with_capacity env tot b capacity capped = Some (tot', b\<lparr> chunks := chunks b @ [c] \<rparr>)"
    and "tot' = tot + CHUNK_ALLOC_SIZE (memlen c)" and "chunk_data c = 0" and "chunk_datalen c = 0" and "0 < memlen c"
    and "\<not> capped \<Longrightarrow> capacity \<le> memlen c" and "\<And>i. i < memlen c \<Longrightarrow> chunk_mem c ! i = env_mem env tot i"
proof -
  have new: "\<exists>c. chunk_new_with_alloc_size env tot a = Some (tot + CHUNK_ALLOC_SIZE (memlen c), c) \<and> chunk_data c = 0 \<and>
      chunk_datalen c = 0 \<and> memlen c = a - CHUNK_OVERHEAD \<and> (\<forall>i < memlen c. chunk_mem c ! i = env_mem env tot i)" if "CHUNK_OVERHEAD \<le> a" for a
    using that by (simp add: chunk_new_with_alloc_size_def memlen_def CHUNK_ALLOC_SIZE_def CHUNK_SIZE_WITH_ALLOC_def)
  obtain pref where pref: "buf_preferred_chunk_size capacity = Some pref" "CHUNK_OVERHEAD + capacity \<le> pref"
    using buf_preferred_chunk_size_ok [OF assms(3)] by blast
  let ?a = "if CHUNK_ALLOC_SIZE capacity < default_chunk_size b then default_chunk_size b
    else if capped \<and> CHUNK_ALLOC_SIZE capacity > MAX_CHUNK_ALLOC then MAX_CHUNK_ALLOC else pref"
  have a: "CHUNK_OVERHEAD < ?a" "\<not> capped \<Longrightarrow> CHUNK_OVERHEAD + capacity \<le> ?a"
    using pref(2) assms(2) by (auto simp: chunk_consts)
  obtain c where c: "chunk_new_with_alloc_size env tot ?a = Some (tot + CHUNK_ALLOC_SIZE (memlen c), c)"
    "chunk_data c = 0" "chunk_datalen c = 0" "memlen c = ?a - CHUNK_OVERHEAD" "\<forall>i < memlen c. chunk_mem c ! i = env_mem env tot i"
    using new [OF less_imp_le [OF a(1)]] by blast
  have "buf_add_chunk_with_capacity env tot b capacity capped =
      Some (tot + CHUNK_ALLOC_SIZE (memlen c), b\<lparr> chunks := chunks b @ [c\<lparr> inserted_time := env_stamp env tot \<rparr>] \<rparr>)"
    using c(1) pref(1) by (auto simp: buf_add_chunk_with_capacity_def split: if_splits)
  moreover have "0 < memlen c" "\<not> capped \<Longrightarrow> capacity \<le> memlen c" unfolding c(4) using a by linarith+
  ultimately show thesis using c(2,3,5) by (rule_tac that) (assumption, simp_all add: memlen_def)
qed

text \<open>Replacing the last chunk by one with more data.\<close>

lemma becomes_write:
  assumes "buf_ok b" and "chunks b = cs @ [t]" and "chunk_ok t'" and "chunk_bytes t' = chunk_bytes t @ s" and "memlen t' = memlen t"
    and "chunk_datalen t' = chunk_datalen t + length s" and "buf_len b + length s \<le> BUF_MAX_LEN"
  shows "becomes tot b tot (b\<lparr> buf_len := buf_len b + length s, chunks := cs @ [t'] \<rparr>) (contents b @ s)"
  using assms by (simp add: becomes_def buf_ok_iff contents_def buf_allocation_alloc chunk_simps dense_def)

lemma becomes_add_chunk:
  assumes "buf_ok b" and "chunk_data c = 0" and "chunk_datalen c = 0"
  shows "buf_ok (b\<lparr> chunks := chunks b @ [c] \<rparr>)" "contents (b\<lparr> chunks := chunks b @ [c] \<rparr>) = contents b"
    "buf_allocation (b\<lparr> chunks := chunks b @ [c] \<rparr>) = buf_allocation b + CHUNK_ALLOC_SIZE (memlen c)"
  using assms by (simp_all add: buf_ok_iff contents_def buf_allocation_alloc chunk_simps chunk_ok_def chunk_bytes_def)

lemma buf_add_loop_ok:
  assumes "buf_ok b" and "length (contents b) + length s \<le> BUF_MAX_LEN"
  shows "\<exists>tot' b'. buf_add_loop env tot b s = Some (tot', b') \<and> becomes tot b tot' b' (contents b @ s)"
  using assms
proof (induction "length s" arbitrary: s b tot rule: less_induct)
  case less
  show ?case
  proof (cases "s = []")
    case True
    then show ?thesis using less.prems by (subst buf_add_loop.simps) (simp add: becomes_def)
  next
    case False
    have cap: "0 < length s" "length s \<le> SIZE_T_CEILING - CHUNK_OVERHEAD"
      using False less.prems by (auto simp: chunk_consts)
    define need where "need \<longleftrightarrow> chunks b = [] \<or> CHUNK_REMAINING_CAPACITY (last (chunks b)) = 0"
    obtain tot1 b1 where step: "(if need then buf_add_chunk_with_capacity env tot b (length s) True else Some (tot, b)) = Some (tot1, b1)"
      and b1: "buf_ok b1" "contents b1 = contents b" "tot1 + buf_allocation b = tot + buf_allocation b1"
        "default_chunk_size b1 = default_chunk_size b" "chunks b1 \<noteq> []" "CHUNK_REMAINING_CAPACITY (last (chunks b1)) > 0"
        "dense (chunks b) \<longrightarrow> dense (butlast (chunks b1))"
    proof (cases need)
      case True
      obtain tot1 c where c: "buf_add_chunk_with_capacity env tot b (length s) True = Some (tot1, b\<lparr> chunks := chunks b @ [c] \<rparr>)"
        "tot1 = tot + CHUNK_ALLOC_SIZE (memlen c)" "chunk_data c = 0" "chunk_datalen c = 0" "0 < memlen c"
        using add_chunk_ok [OF less.prems(1) cap, of env tot True] by blast
      show ?thesis
        using that [of tot1 "b\<lparr> chunks := chunks b @ [c] \<rparr>"] True c becomes_add_chunk [OF less.prems(1) c(3,4)]
        by (simp add: CHUNK_REMAINING_CAPACITY_def)
    next
      case False
      then show ?thesis using that [of tot b] less.prems(1)
        by (simp add: need_def dense_def list_all_iff in_set_butlastD)
    qed
    obtain cs t where ct: "chunks b1 = cs @ [t]" using b1(5) by (metis append_butlast_last_id)
    define copy where "copy = (if CHUNK_REMAINING_CAPACITY t > length s then length s else CHUNK_REMAINING_CAPACITY t)"
    have t: "chunk_ok t" using b1(1) ct by (simp add: buf_ok_iff)
    have copy: "0 < copy" "copy \<le> length s" "length (take copy s) \<le> CHUNK_REMAINING_CAPACITY t"
      using b1(6) ct cap by (simp_all add: copy_def)
    obtain t' where w: "chunk_write t (take copy s) = Some t'" and t': "chunk_ok t'" "chunk_bytes t' = chunk_bytes t @ take copy s"
      "memlen t' = memlen t" "chunk_datalen t' = chunk_datalen t + length (take copy s)"
      using chunk_write_ok [OF t copy(3)] by metis
    let ?b = "b1\<lparr> buf_len := buf_len b1 + copy, chunks := cs @ [t'] \<rparr>"
    have len: "buf_len b1 + length (take copy s) \<le> BUF_MAX_LEN"
      using less.prems(2) length_buf_contents [OF b1(1)] b1(2) by simp
    have be: "buf_ok ?b" "contents ?b = contents b @ take copy s" "buf_allocation ?b = buf_allocation b1" "default_chunk_size ?b = default_chunk_size b"
      using becomes_write [OF b1(1) ct t' len] copy(2) b1 by (simp_all add: becomes_def)
    have d: "dense (chunks b) \<longrightarrow> dense (chunks ?b)" using b1(7) ct t'(4) copy by (simp add: dense_def)
    obtain tot' b' where r: "buf_add_loop env tot1 ?b (drop copy s) = Some (tot', b')"
      and be': "becomes tot1 ?b tot' b' (contents ?b @ drop copy s)"
      using less.hyps [of "drop copy s" ?b tot1] be(1,2) copy less.prems(2) cap by auto
    have "buf_add_loop env tot b s = Some (tot', b')"
      using step w r False ct by (subst buf_add_loop.simps) (auto simp: need_def copy_def Let_def split: if_splits)
    moreover have "becomes tot b tot' b' (contents b @ s)"
      using be' be d b1(3) by (auto simp: becomes_def)
    ultimately show ?thesis by blast
  qed
qed

lemma buf_add_ok:
  assumes "buf_ok b" and "length (contents b) + length s \<le> BUF_MAX_LEN"
  obtains tot' b' where "buf_add env tot b s = Some (tot', b', int (length (contents b) + length s))"
    and "becomes tot b tot' b' (contents b @ s)"
proof (cases "s = []")
  case True
  then show ?thesis using that [of tot b] assms length_buf_contents [OF assms(1)] by (simp add: buf_add_def becomes_def)
next
  case False
  obtain tot' b' where r: "buf_add_loop env tot b s = Some (tot', b')" and be: "becomes tot b tot' b' (contents b @ s)"
    using buf_add_loop_ok [OF assms] by blast
  have "buf_len b' = length (contents b) + length s" using becomes_len [OF be] by simp
  moreover have "\<not> buf_len b > BUF_MAX_LEN" "\<not> buf_len b > size_sub BUF_MAX_LEN (length s)"
    using assms length_buf_contents [OF assms(1)] by (auto simp: size_sub_def)
  ultimately have "buf_add env tot b s = Some (tot', b', int (length (contents b) + length s))"
    using r assms(2) False by (simp add: buf_add_def)
  then show ?thesis using be by (rule that)
qed

text \<open>The check before the loop refuses what does not fit.\<close>

lemma buf_add_full:
  assumes "buf_ok b" and "length (contents b) + length s > BUF_MAX_LEN" and "length s \<le> BUF_MAX_LEN"
  shows "buf_add env tot b s = Some (tot, b, -1)"
  using assms length_buf_contents [OF assms(1)] by (auto simp: buf_add_def size_sub_def buf_ok_def)

subsection \<open>Pulling up\<close>

lemma pullup_loop_ok:
  assumes "chunk_ok dest" and "list_all chunk_ok rest" and "n \<le> sum_list (map chunk_datalen (dest # rest))"
    and "n \<le> chunk_datalen dest + CHUNK_REMAINING_CAPACITY dest" and "chunks_alloc (dest # rest) \<le> tot"
  shows "\<exists>tot' d' rest'. pullup_loop tot n dest rest = Some (tot', d' # rest') \<and> list_all chunk_ok (d' # rest') \<and>
    chunks_bytes (d' # rest') = chunks_bytes (dest # rest) \<and> n \<le> chunk_datalen d' \<and>
    tot' + chunks_alloc (dest # rest) = tot + chunks_alloc (d' # rest') \<and>
    (dense rest \<and> (0 < chunk_datalen dest \<or> 0 < n) \<longrightarrow> dense (d' # rest'))"
  using assms
proof (induction rest arbitrary: dest tot)
  case (Cons src rest)
  define k where "k = n - chunk_datalen dest"
  have src: "chunk_ok src" "length (chunk_bytes src) = chunk_datalen src" using Cons.prems by (simp_all add: chunk_simps)
  consider "n \<le> chunk_datalen dest" | "chunk_datalen dest < n" "chunk_datalen src \<le> k" | "chunk_datalen dest < n" "k < chunk_datalen src"
    by linarith
  then show ?case
  proof cases
    case 1
    then show ?thesis using Cons.prems by (simp add: dense_def) linarith
  next
    case 2
    then have "length (chunk_bytes src) \<le> CHUNK_REMAINING_CAPACITY dest" using src Cons.prems(4) by (simp add: k_def)
    then obtain d where w: "chunk_write dest (chunk_bytes src) = Some d" and d: "chunk_ok d" "chunk_bytes d = chunk_bytes dest @ chunk_bytes src"
      "memlen d = memlen dest" "chunk_datalen d = chunk_datalen dest + chunk_datalen src" "chunk_data d = chunk_data dest"
      using chunk_write_ok [OF Cons.prems(1)] src(2) by metis
    have le: "CHUNK_ALLOC_SIZE (memlen src) \<le> tot" "chunks_alloc (d # rest) \<le> tot - CHUNK_ALLOC_SIZE (memlen src)"
      using Cons.prems(5) d(3) by (simp_all add: chunk_simps)
    have cap: "n \<le> chunk_datalen d + CHUNK_REMAINING_CAPACITY d" "n \<le> sum_list (map chunk_datalen (d # rest))"
      using Cons.prems(3,4) 2 d by (simp_all add: CHUNK_REMAINING_CAPACITY_def)
    obtain tot' d' rest' where r: "pullup_loop (tot - CHUNK_ALLOC_SIZE (memlen src)) n d rest = Some (tot', d' # rest')"
      and ok: "list_all chunk_ok (d' # rest')" "chunks_bytes (d' # rest') = chunks_bytes (d # rest)" "n \<le> chunk_datalen d'"
        "tot' + chunks_alloc (d # rest) = tot - CHUNK_ALLOC_SIZE (memlen src) + chunks_alloc (d' # rest')"
        "dense rest \<and> (0 < chunk_datalen d \<or> 0 < n) \<longrightarrow> dense (d' # rest')"
      using Cons.IH [OF d(1) _ cap(2,1) le(2)] Cons.prems(2) by auto
    show ?thesis using 2 w r ok le d by (auto simp: k_def chunk_simps Let_def dense_def)
  next
    case 3
    have t: "length (take k (chunk_bytes src)) = k" using 3 src by simp
    then obtain d where w: "chunk_write dest (take k (chunk_bytes src)) = Some d"
      and d: "chunk_ok d" "chunk_bytes d = chunk_bytes dest @ take k (chunk_bytes src)" "memlen d = memlen dest" "chunk_datalen d = n"
      using chunk_write_ok [OF Cons.prems(1), of "take k (chunk_bytes src)"] Cons.prems(4) 3 by (force simp: k_def)
    let ?src = "src\<lparr> chunk_data := chunk_data src + k, chunk_datalen := chunk_datalen src - k \<rparr>"
    have "chunk_bytes ?src = drop k (chunk_bytes src)" by (simp add: chunk_bytes_def drop_take add.commute)
    moreover have "chunk_ok ?src" "memlen ?src = memlen src" using src(1) 3 by (simp_all add: chunk_ok_def memlen_def)
    moreover have "chunk_bytes src = take k (chunk_bytes src) @ drop k (chunk_bytes src)" by simp
    ultimately show ?thesis using 3 w d Cons.prems by (auto simp: k_def chunk_simps Let_def dense_def)
  qed
qed (auto simp: dense_def)

lemma pullup_room_ok:
  assumes "chunk_ok c" and "chunk_datalen c \<le> n" and "n \<le> BUF_MAX_LEN"
  obtains tot' d where "pullup_room env tot c n = Some (tot', d)" and "chunk_ok d" and "chunk_bytes d = chunk_bytes c"
    and "chunk_datalen d = chunk_datalen c" and "n \<le> chunk_datalen d + CHUNK_REMAINING_CAPACITY d"
    and "tot' + memlen c = tot + memlen d" and "memlen c \<le> memlen d"
proof (cases "n \<le> memlen c")
  case True
  let ?d = "if CHUNK_REMAINING_CAPACITY c < n - chunk_datalen c then chunk_repack c else c"
  have "n \<le> chunk_datalen ?d + CHUNK_REMAINING_CAPACITY ?d"
    using chunk_repack_ok [OF assms(1)] True assms(2) by (auto simp: CHUNK_REMAINING_CAPACITY_def)
  moreover from this have "pullup_room env tot c n = Some (tot, ?d)"
    using True chunk_repack_ok [OF assms(1)] by (auto simp: pullup_room_def Let_def)
  ultimately show ?thesis using chunk_repack_ok [OF assms(1)] assms(1) that [of tot ?d] by auto
next
  case False
  have "n \<le> SIZE_T_CEILING - CHUNK_OVERHEAD" using assms(3) by (simp add: chunk_consts)
  then obtain pref where pref: "buf_preferred_chunk_size n = Some pref" "CHUNK_OVERHEAD + n \<le> pref"
    using buf_preferred_chunk_size_ok by blast
  have sz: "n \<le> CHUNK_SIZE_WITH_ALLOC pref" using pref(2) by (simp add: CHUNK_SIZE_WITH_ALLOC_def)
  note repack = chunk_repack_ok [OF assms(1)]
  have "memlen (chunk_repack c) < CHUNK_SIZE_WITH_ALLOC pref" using sz False repack(3) by simp
  then obtain d where d: "chunk_grow env tot (chunk_repack c) (CHUNK_SIZE_WITH_ALLOC pref) =
        Some (tot + (CHUNK_SIZE_WITH_ALLOC pref - memlen (chunk_repack c)), d)" "chunk_ok d"
      "chunk_bytes d = chunk_bytes c" "memlen d = CHUNK_SIZE_WITH_ALLOC pref" "chunk_datalen d = chunk_datalen c" "chunk_data d = 0"
    using chunk_grow_ok [OF repack(1), of "CHUNK_SIZE_WITH_ALLOC pref" env tot] repack by metis
  have "pullup_room env tot c n = Some (tot + (CHUNK_SIZE_WITH_ALLOC pref - memlen c), d)"
    using False pref(1) d sz repack(3) by (simp add: pullup_room_def)
  then show ?thesis
    by (rule that) (use d sz False in \<open>simp_all add: CHUNK_REMAINING_CAPACITY_def\<close>)
qed

lemma buf_pullup_ok:
  assumes "buf_ok b" and "buf_allocation b \<le> tot"
  obtains tot' b' out where "buf_pullup env tot b n = Some (tot', b', out)" and "becomes tot b tot' b' (contents b)"
    and "chunks b = [] \<longleftrightarrow> out = None"
    and "\<And>h. out = Some h \<Longrightarrow> prefix h (contents b) \<and> min n (length (contents b)) \<le> length h"
proof (cases "chunks b")
  case Nil
  then show ?thesis using that [of tot b None] assms by (simp add: buf_pullup_def becomes_def)
next
  case (Cons c rest)
  have ok: "chunk_ok c" "list_all chunk_ok rest" "buf_len b = sum_list (map chunk_datalen (c # rest))" "buf_len b \<le> BUF_MAX_LEN"
    using assms(1) Cons by (simp_all add: buf_ok_iff)
  define m where "m = (if buf_len b < n then buf_len b else n)"
  have m: "m = min n (length (contents b))" "m \<le> buf_len b" using length_buf_contents [OF assms(1)] by (auto simp: m_def)
  show ?thesis
  proof (cases "m \<le> chunk_datalen c")
    case True
    show ?thesis
    proof (rule that)
      show "buf_pullup env tot b n = Some (tot, b, Some (chunk_bytes c))" using Cons True by (simp add: buf_pullup_def Let_def m_def)
      show "becomes tot b tot b (contents b)" using assms(1) by (simp add: becomes_def)
      show "prefix h (contents b) \<and> min n (length (contents b)) \<le> length h" if "Some (chunk_bytes c) = Some h" for h
        using that True Cons ok(1) m by (auto simp: contents_def chunk_simps)
    qed (simp add: Cons)
  next
    case False
    have le: "chunk_datalen c \<le> m" "m \<le> BUF_MAX_LEN" using False m(2) ok(4) by linarith+
    obtain tot1 d where room: "pullup_room env tot c m = Some (tot1, d)"
      and d: "chunk_ok d" "chunk_bytes d = chunk_bytes c" "chunk_datalen d = chunk_datalen c" "m \<le> chunk_datalen d + CHUNK_REMAINING_CAPACITY d"
        "tot1 + memlen c = tot + memlen d" "memlen c \<le> memlen d"
      by (rule pullup_room_ok [OF ok(1) le])
    have "m \<le> sum_list (map chunk_datalen (d # rest))" "chunks_alloc (d # rest) \<le> tot1"
      using m(2) ok(3) d assms(2) Cons by (simp_all add: buf_allocation_alloc chunk_simps CHUNK_ALLOC_SIZE_def)
    then obtain tot' d' rest' where r: "pullup_loop tot1 m d rest = Some (tot', d' # rest')" and l: "list_all chunk_ok (d' # rest')"
      "chunks_bytes (d' # rest') = chunks_bytes (d # rest)" "m \<le> chunk_datalen d'"
      "tot' + chunks_alloc (d # rest) = tot1 + chunks_alloc (d' # rest')" "dense rest \<and> (0 < chunk_datalen d \<or> 0 < m) \<longrightarrow> dense (d' # rest')"
      using pullup_loop_ok [OF d(1) ok(2) _ d(4)] by blast
    let ?b = "b\<lparr> chunks := d' # rest' \<rparr>"
    have bytes: "chunks_bytes (d' # rest') = contents b" using l(2) d(2) Cons by (simp add: contents_def)
    show ?thesis
    proof (rule that)
      show "buf_pullup env tot b n = Some (tot', ?b, Some (chunk_bytes d'))"
        using Cons False room r by (simp add: buf_pullup_def Let_def m_def)
      have "buf_len b = sum_list (map chunk_datalen (d' # rest'))"
        using arg_cong [OF bytes, of length] length_concat_chunks [OF l(1)] length_buf_contents [OF assms(1)] by simp
      then have "buf_ok ?b" using assms(1) l(1) by (simp add: buf_ok_iff)
      moreover have "tot' + buf_allocation b = tot + buf_allocation ?b"
        using l(4) d(5) Cons by (simp add: buf_allocation_alloc chunk_simps CHUNK_ALLOC_SIZE_def)
      moreover have "dense (chunks b) \<longrightarrow> dense (chunks ?b)" using l(5) d(3) Cons by (simp add: dense_def)
      ultimately show "becomes tot b tot' ?b (contents b)" using bytes by (simp add: becomes_def contents_def)
      show "prefix h (contents b) \<and> min n (length (contents b)) \<le> length h" if "Some (chunk_bytes d') = Some h" for h
      proof -
        have "prefix (chunk_bytes d') (chunks_bytes (d' # rest'))" by simp
        moreover have "length (chunk_bytes d') = chunk_datalen d'" using l(1) by (simp add: chunk_simps)
        ultimately show ?thesis using that l(3) m(1) unfolding bytes by simp
      qed
    qed (simp add: Cons)
  qed
qed

section \<open>The contract of a byte queue\<close>

text \<open>
  What the clients of a buffer rely on: appending and taking bytes are total within the limit, act
  on the contents as on a list, and charge the shared allocation counter with the change of the
  queue's own allocation only.
\<close>

locale byte_queue =
  fixes ok :: "'b \<Rightarrow> bool" and alloc :: "'b \<Rightarrow> nat" and content :: "'b \<Rightarrow> bytes" and limit :: nat
    and add :: "nat \<Rightarrow> 'b \<Rightarrow> bytes \<Rightarrow> (nat \<times> 'b \<times> int) option"
    and get :: "nat \<Rightarrow> 'b \<Rightarrow> nat \<Rightarrow> (nat \<times> 'b \<times> bytes \<times> int) option"
  assumes add_law: "ok b \<Longrightarrow> length (content b) + length s \<le> limit \<Longrightarrow>
      \<exists>t' b'. add t b s = Some (t', b', int (length (content b) + length s)) \<and> ok b' \<and> content b' = content b @ s \<and>
        t' + alloc b = t + alloc b'"
    and get_law: "ok b \<Longrightarrow> n \<le> length (content b) \<Longrightarrow> alloc b \<le> t \<Longrightarrow>
      \<exists>t' b'. get t b n = Some (t', b', take n (content b), int (length (content b) - n)) \<and> ok b' \<and>
        content b' = drop n (content b) \<and> t' + alloc b = t + alloc b'"
begin

lemma transfer:
  assumes "ok bo" and "ok bi" and "n \<le> length (content bi)" and "length (content bo) + n \<le> limit" and "alloc bo + alloc bi \<le> t"
  obtains t1 bi' r1 t2 bo' r2 where "get t bi n = Some (t1, bi', take n (content bi), r1)"
    and "add t1 bo (take n (content bi)) = Some (t2, bo', r2)" and "ok bi'" and "ok bo'"
    and "content bi' = drop n (content bi)" and "content bo' = content bo @ take n (content bi)"
    and "t2 + (alloc bo + alloc bi) = t + (alloc bo' + alloc bi')"
proof -
  obtain t1 bi' where g: "get t bi n = Some (t1, bi', take n (content bi), int (length (content bi) - n))" "ok bi'"
    "content bi' = drop n (content bi)" "t1 + alloc bi = t + alloc bi'"
    using get_law [OF assms(2,3)] assms(5) by (metis add_leE)
  moreover have "length (content bo) + length (take n (content bi)) \<le> limit" using assms(3,4) by simp
  then obtain t2 bo' where "add t1 bo (take n (content bi)) = Some (t2, bo', int (length (content bo) + length (take n (content bi))))"
    "ok bo'" "content bo' = content bo @ take n (content bi)" "t2 + alloc bo = t1 + alloc bo'"
    using add_law [OF assms(1)] by blast
  ultimately show thesis using that by simp
qed

text \<open>A queue returns what was put in: bytes that were appended come out behind the old contents, unchanged and in order.\<close>

lemma add_get:
  assumes "ok b" and "length (content b) + length s \<le> limit" and "alloc b \<le> t"
  obtains t1 b1 r1 t2 b2 r2 where "add t b s = Some (t1, b1, r1)" and "get t1 b1 (length (content b) + length s) = Some (t2, b2, content b @ s, r2)"
    and "content b2 = []"
proof -
  obtain t1 b1 where 1: "add t b s = Some (t1, b1, int (length (content b) + length s))" "ok b1" "content b1 = content b @ s"
    "t1 + alloc b = t + alloc b1"
    using add_law [OF assms(1,2)] by blast
  moreover have "alloc b1 \<le> t1" using 1(4) assms(3) by linarith
  then obtain t2 b2 where "get t1 b1 (length (content b) + length s) = Some (t2, b2, content b @ s, int (length (content b1) - (length (content b) + length s)))"
    "content b2 = []"
    using get_law [OF 1(2), of "length (content b) + length s" t1] 1(3) by auto
  ultimately show thesis using that by blast
qed

end

interpretation bufq: byte_queue buf_ok buf_allocation contents BUF_MAX_LEN "buf_add env" buf_get_bytes for env
proof
  show "\<exists>t' b'. buf_add env t b s = Some (t', b', int (length (contents b) + length s)) \<and> buf_ok b' \<and>
      contents b' = contents b @ s \<and> t' + buf_allocation b = t + buf_allocation b'"
    if "buf_ok b" "length (contents b) + length s \<le> BUF_MAX_LEN" for b s t
    using buf_add_ok [OF that, of env t] by (metis becomes_def)
  show "\<exists>t' b'. buf_get_bytes t b n = Some (t', b', take n (contents b), int (length (contents b) - n)) \<and> buf_ok b' \<and>
      contents b' = drop n (contents b) \<and> t' + buf_allocation b = t + buf_allocation b'"
    if "buf_ok b" "n \<le> length (contents b)" "buf_allocation b \<le> t" for b n t
    using buf_get_bytes_ok [OF that] by (metis becomes_def)
qed

subsection \<open>Moving, copying and clearing\<close>

lemma move_loop_ok:
  assumes "buf_ok bo" and "buf_ok bi" and "len \<le> length (contents bi)" and "length (contents bo) + len \<le> BUF_MAX_LEN"
    and "buf_allocation bo + buf_allocation bi \<le> tot"
  shows "\<exists>tot' bo' bi'. move_loop env tot bo bi len = Some (tot', bo', bi') \<and> buf_ok bo' \<and> buf_ok bi' \<and>
    contents bo' = contents bo @ take len (contents bi) \<and> contents bi' = drop len (contents bi) \<and>
    tot' + (buf_allocation bo + buf_allocation bi) = tot + (buf_allocation bo' + buf_allocation bi')"
  using assms
proof (induction len arbitrary: tot bo bi rule: less_induct)
  case (less len)
  show ?case
  proof (cases "len = 0")
    case True
    then show ?thesis using less.prems by (subst move_loop.simps) simp
  next
    case False
    define n where "n = (if len > 4096 then 4096 else len)"
    have n: "0 < n" "n \<le> len" using False by (auto simp: n_def)
    have le: "n \<le> length (contents bi)" "length (contents bo) + n \<le> BUF_MAX_LEN" using n less.prems by linarith+
    obtain t1 bi1 r1 t2 bo1 r2 where g: "buf_get_bytes tot bi n = Some (t1, bi1, take n (contents bi), r1)"
      and a: "buf_add env t1 bo (take n (contents bi)) = Some (t2, bo1, r2)" and ok: "buf_ok bi1" "buf_ok bo1"
      and c: "contents bi1 = drop n (contents bi)" "contents bo1 = contents bo @ take n (contents bi)"
      and t: "t2 + (buf_allocation bo + buf_allocation bi) = tot + (buf_allocation bo1 + buf_allocation bi1)"
      by (rule bufq.transfer [OF less.prems(1,2) le less.prems(5), where env = env])
    have "len - n < len" "len - n \<le> length (contents bi1)" "length (contents bo1) + (len - n) \<le> BUF_MAX_LEN"
      "buf_allocation bo1 + buf_allocation bi1 \<le> t2"
      using n less.prems(3-5) c t le(1) by auto
    then obtain tot' bo' bi' where r: "move_loop env t2 bo1 bi1 (len - n) = Some (tot', bo', bi')" and ok': "buf_ok bo'" "buf_ok bi'"
      and c': "contents bo' = contents bo1 @ take (len - n) (contents bi1)" "contents bi' = drop (len - n) (contents bi1)"
      and t': "tot' + (buf_allocation bo1 + buf_allocation bi1) = t2 + (buf_allocation bo' + buf_allocation bi')"
      using less.IH [OF _ ok(2,1)] by blast
    have "move_loop env tot bo bi len = Some (tot', bo', bi')"
      using False g a r by (subst move_loop.simps) (simp add: n_def)
    moreover have "take len (contents bi) = take n (contents bi) @ take (len - n) (drop n (contents bi))"
      using n(2) by (metis le_add_diff_inverse take_add)
    ultimately show ?thesis using ok' c' c t t' n(2) by auto
  qed
qed

lemma buf_move_to_buf_ok:
  assumes "buf_ok bo" and "buf_ok bi" and "length (contents bo) + flushlen \<le> BUF_MAX_LEN" and "buf_allocation bo + buf_allocation bi \<le> tot"
  obtains tot' bo' bi' where "buf_move_to_buf env tot bo bi flushlen =
      Some (tot', bo', bi', flushlen - length (contents bi), int (min flushlen (length (contents bi))))"
    and "buf_ok bo'" and "buf_ok bi'" and "contents bo' = contents bo @ take flushlen (contents bi)" and "contents bi' = drop flushlen (contents bi)"
    and "tot' + (buf_allocation bo + buf_allocation bi) = tot + (buf_allocation bo' + buf_allocation bi')"
proof -
  define len where "len = (if flushlen > buf_len bi then buf_len bi else flushlen)"
  have len: "len = min flushlen (length (contents bi))" using length_buf_contents [OF assms(2)] by (auto simp: len_def)
  have le: "len \<le> length (contents bi)" "length (contents bo) + len \<le> BUF_MAX_LEN" using len assms(3) by linarith+
  obtain tot' bo' bi' where r: "move_loop env tot bo bi len = Some (tot', bo', bi')" and ok: "buf_ok bo'" "buf_ok bi'"
    "contents bo' = contents bo @ take len (contents bi)" "contents bi' = drop len (contents bi)"
    "tot' + (buf_allocation bo + buf_allocation bi) = tot + (buf_allocation bo' + buf_allocation bi')"
    using move_loop_ok [OF assms(1,2) le assms(4)] by blast
  have guards: "\<not> buf_len bo > BUF_MAX_LEN" "\<not> flushlen > BUF_MAX_LEN" "\<not> buf_len bo > size_sub BUF_MAX_LEN flushlen"
    using assms(3) length_buf_contents [OF assms(1)] by (auto simp: size_sub_def)
  have "buf_move_to_buf env tot bo bi flushlen = Some (tot', bo', bi', flushlen - len, int len)"
    using guards r le by (simp add: buf_move_to_buf_def flip: len_def)
  moreover have "flushlen - len = flushlen - length (contents bi)" "take len (contents bi) = take flushlen (contents bi)"
    "drop len (contents bi) = drop flushlen (contents bi)" using len by (auto simp: min_def)
  ultimately show thesis using ok len that by metis
qed

lemma buf_move_all_ok:
  assumes "buf_ok bo" and "buf_ok bi" and "length (contents bo) + length (contents bi) \<le> BUF_MAX_LEN"
  obtains bo' bi' where "buf_move_all bo (Some bi) = (bo', Some bi', length (contents bi))" and "buf_ok bo'" and "buf_ok bi'"
    and "contents bo' = contents bo @ contents bi" and "contents bi' = []"
    and "buf_allocation bo' + buf_allocation bi' = buf_allocation bo + buf_allocation bi"
    and "dense (chunks bo) \<Longrightarrow> dense (chunks bi) \<Longrightarrow> dense (chunks bo')"
proof (cases "buf_len bi = 0")
  case True
  then show ?thesis using that [of bo bi] assms length_buf_contents [OF assms(2)] by (simp add: buf_move_all_def buf_datalen_def)
next
  case False
  let ?bo = "bo\<lparr> chunks := chunks bo @ chunks bi, buf_len := buf_len bo + buf_len bi \<rparr>" and ?bi = "bi\<lparr> chunks := [], buf_len := 0 \<rparr>"
  note len = length_buf_contents [OF assms(1)] length_buf_contents [OF assms(2)]
  have "\<not> buf_len bo > BUF_MAX_LEN" "\<not> buf_len bi > BUF_MAX_LEN" "\<not> buf_len bo > size_sub BUF_MAX_LEN (buf_len bi)"
    using assms(3) len by (auto simp: size_sub_def)
  then have "buf_move_all bo (Some bi) = (?bo, Some ?bi, length (contents bi))" using False len by (simp add: buf_move_all_def buf_datalen_def)
  then show ?thesis
    by (rule that)
      (use assms len in \<open>simp_all add: buf_ok_iff contents_def buf_allocation_alloc chunk_simps dense_def\<close>)
qed

lemma free_chunks_ok: "chunks_alloc cs \<le> tot \<Longrightarrow> free_chunks tot cs = Some (tot - chunks_alloc cs)"
  by (induction cs arbitrary: tot) (simp_all add: chunk_simps)

lemma buf_clear_ok:
  assumes "buf_ok b" and "buf_allocation b \<le> tot"
  shows "buf_clear tot b = Some (tot - buf_allocation b, b\<lparr> buf_len := 0, chunks := [] \<rparr>)"
    and "becomes tot b (tot - buf_allocation b) (b\<lparr> buf_len := 0, chunks := [] \<rparr>) []"
  using assms by (simp_all add: buf_clear_def free_chunks_ok becomes_def buf_ok_iff contents_def buf_allocation_alloc chunk_simps dense_def)

lemma copy_chunks_eq: "copy_chunks tot cs = (tot + chunks_alloc cs, cs)"
  by (induction cs arbitrary: tot) (simp_all add: chunk_simps chunk_copy_def)

lemma buf_copy_ok:
  assumes "buf_ok b"
  shows "fst (buf_copy tot b) = tot + buf_allocation b" and "buf_ok (snd (buf_copy tot b))"
    and "contents (snd (buf_copy tot b)) = contents b" and "buf_allocation (snd (buf_copy tot b)) = buf_allocation b"
  using assms by (simp_all add: buf_copy_def copy_chunks_eq buf_new_def buf_ok_iff contents_def buf_allocation_alloc)

section \<open>Runs of operations\<close>

text \<open>
  A client applies a sequence of operations to one buffer.  The abstract queue is a byte list; its
  operations are undefined where the code's precondition fails (taking more than there is, growing
  past the limit).
\<close>

datatype buf_op = Op_add bytes | Op_get nat | Op_drain nat | Op_peek nat | Op_pullup nat | Op_clear

fun buf_exec :: "buf_env \<Rightarrow> nat \<Rightarrow> buf \<Rightarrow> buf_op \<Rightarrow> (nat \<times> buf \<times> bytes) option" where
  "buf_exec env tot b (Op_add s) = map_option (\<lambda>(tot, b, _). (tot, b, [])) (buf_add env tot b s)"
| "buf_exec env tot b (Op_get n) = map_option (\<lambda>(tot, b, s, _). (tot, b, s)) (buf_get_bytes tot b n)"
| "buf_exec env tot b (Op_drain n) = map_option (\<lambda>(tot, b). (tot, b, [])) (buf_drain tot b n)"
| "buf_exec env tot b (Op_peek n) = map_option (\<lambda>s. (tot, b, s)) (buf_peek b n)"
| "buf_exec env tot b (Op_pullup n) =
    map_option (\<lambda>(tot, b, h). (tot, b, case h of None \<Rightarrow> [] | Some s \<Rightarrow> take n s)) (buf_pullup env tot b n)"
| "buf_exec env tot b Op_clear = map_option (\<lambda>(tot, b). (tot, b, [])) (buf_clear tot b)"

fun queue_exec :: "bytes \<Rightarrow> buf_op \<Rightarrow> (bytes \<times> bytes) option" where
  "queue_exec q (Op_add s) = (if length q + length s \<le> BUF_MAX_LEN then Some (q @ s, []) else None)"
| "queue_exec q (Op_get n) = (if n \<le> length q then Some (drop n q, take n q) else None)"
| "queue_exec q (Op_drain n) = (if n \<le> length q then Some (drop n q, []) else None)"
| "queue_exec q (Op_peek n) = (if n \<le> length q then Some (q, take n q) else None)"
| "queue_exec q (Op_pullup n) = Some (q, take n q)"
| "queue_exec q Op_clear = Some ([], [])"

fun buf_run :: "buf_env \<Rightarrow> nat \<Rightarrow> buf \<Rightarrow> buf_op list \<Rightarrow> (nat \<times> buf \<times> bytes list) option" where
  "buf_run env tot b [] = Some (tot, b, [])"
| "buf_run env tot b (p # ps) = do {
     (tot, b, r) \<leftarrow> buf_exec env tot b p; (tot, b, rs) \<leftarrow> buf_run env tot b ps; Some (tot, b, r # rs) }"

fun queue_run :: "bytes \<Rightarrow> buf_op list \<Rightarrow> (bytes \<times> bytes list) option" where
  "queue_run q [] = Some (q, [])"
| "queue_run q (p # ps) = do { (q, r) \<leftarrow> queue_exec q p; (q, rs) \<leftarrow> queue_run q ps; Some (q, r # rs) }"

lemma take_prefix_min: "prefix h q \<Longrightarrow> min n (length q) \<le> length h \<Longrightarrow> take n h = take n q"
  by (auto simp: prefix_def min_def split: if_splits)

lemma buf_exec_refines:
  assumes "buf_ok b" and "buf_allocation b \<le> tot" and "queue_exec (contents b) p = Some (q, r)"
  obtains tot' b' where "buf_exec env tot b p = Some (tot', b', r)" and "becomes tot b tot' b' q"
proof (cases p)
  case (Op_add s)
  then have le: "length (contents b) + length s \<le> BUF_MAX_LEN" and eq: "q = contents b @ s" "r = []"
    using assms(3) by (simp_all split: if_splits)
  show ?thesis by (rule buf_add_ok [OF assms(1) le, of env tot], rule that) (simp_all add: Op_add eq)
next
  case (Op_get n)
  then have le: "n \<le> length (contents b)" and eq: "q = drop n (contents b)" "r = take n (contents b)"
    using assms(3) by (simp_all split: if_splits)
  show ?thesis by (rule buf_get_bytes_ok [OF assms(1) le assms(2)], rule that) (simp_all add: Op_get eq)
next
  case (Op_drain n)
  then have le: "n \<le> length (contents b)" and eq: "q = drop n (contents b)" "r = []"
    using assms(3) by (simp_all split: if_splits)
  show ?thesis by (rule buf_drain_ok [OF assms(1) le assms(2)], rule that) (simp_all add: Op_drain eq)
next
  case (Op_peek n)
  then show ?thesis using buf_peek_ok [OF assms(1), of n] assms(1,3) that [of tot b] by (auto simp: becomes_def split: if_splits)
next
  case (Op_pullup n)
  obtain tot' b' out where p: "buf_pullup env tot b n = Some (tot', b', out)" "becomes tot b tot' b' (contents b)"
    "chunks b = [] \<longleftrightarrow> out = None" "\<And>h. out = Some h \<Longrightarrow> prefix h (contents b) \<and> min n (length (contents b)) \<le> length h"
    using buf_pullup_ok [OF assms(1,2)] by blast
  have "(case out of None \<Rightarrow> [] | Some s \<Rightarrow> take n s) = take n (contents b)"
    using p(3,4) take_prefix_min by (auto simp: contents_def split: option.splits)
  then show ?thesis using p(1,2) assms(3) Op_pullup that by auto
next
  case Op_clear
  then show ?thesis using buf_clear_ok [OF assms(1,2)] assms(3) that by auto
qed

lemma buf_run_refines:
  assumes "buf_ok b" and "buf_allocation b \<le> tot" and "queue_run (contents b) ps = Some (q, rs)"
  shows "\<exists>tot' b'. buf_run env tot b ps = Some (tot', b', rs) \<and> becomes tot b tot' b' q"
  using assms
proof (induction ps arbitrary: b tot rs)
  case (Cons p ps)
  obtain q1 r rs' where 1: "queue_exec (contents b) p = Some (q1, r)" "queue_run q1 ps = Some (q, rs')" "rs = r # rs'"
    using Cons.prems(3) by (auto simp: bind_eq_Some_conv)
  obtain tot1 b1 where e: "buf_exec env tot b p = Some (tot1, b1, r)" and be: "becomes tot b tot1 b1 q1"
    using buf_exec_refines [OF Cons.prems(1,2) 1(1)] by blast
  have "buf_ok b1" "contents b1 = q1" "buf_allocation b1 \<le> tot1"
    using be becomes_allocation [OF be, of 0] Cons.prems(2) by (simp_all add: becomes_def)
  then obtain tot' b' where "buf_run env tot1 b1 ps = Some (tot', b', rs')" "becomes tot1 b1 tot' b' q"
    using Cons.IH 1(2) by blast
  then show ?case using e 1(3) becomes_trans [OF be] by auto
qed (simp add: becomes_def)

lemma buf_new_ok: "buf_ok buf_new" "contents buf_new = []" "buf_allocation buf_new = 0" "dense (chunks buf_new)"
  by (simp_all add: buf_new_def buf_ok_iff contents_def buf_allocation_def dense_def)

section \<open>Properties\<close>

text \<open>C13: A buffer is a byte queue: every sequence of appends, reads, drains, peeks, pull-ups and clears that is
  defined on a list of bytes runs on a new buffer without a failed assertion and without writing outside of a
  block, returns the same bytes, and ends in a buffer that passes \<^verbatim>\<open>buf_assert_ok\<close>, holds the
  queue's contents, has no empty chunk, and accounts exactly for the memory it has allocated.\<close>

theorem buf_refines_queue:
  assumes "queue_run [] ps = Some (q, rs)"
  shows "\<exists>tot' b. buf_run env tot buf_new ps = Some (tot', b, rs) \<and> buf_assert_ok b \<and> dense (chunks b) \<and>
    contents b = q \<and> buf_len b = length q \<and> tot' = tot + buf_allocation b"
proof -
  obtain tot' b where r: "buf_run env tot buf_new ps = Some (tot', b, rs)" and be: "becomes tot buf_new tot' b q"
    using buf_run_refines [OF buf_new_ok(1), of tot ps q rs env] assms buf_new_ok by auto
  show ?thesis using r becomes_len [OF be] be buf_new_ok(3,4) by (auto simp: becomes_def buf_ok_def)
qed

definition demo_env :: buf_env where
  "demo_env = \<lparr> env_mem = (\<lambda>_ i. 99), env_stamp = (\<lambda>_. 7) \<rparr>"

theorem buf_refines_queue_witness:
  "\<exists>tot' b. buf_run demo_env 5 buf_new [Op_add [1, 2, 3], Op_get 2, Op_add [4], Op_pullup 9] = Some (tot', b, [[], [1, 2], [], [3, 4]]) \<and>
    buf_assert_ok b \<and> dense (chunks b) \<and> contents b = [3, 4] \<and> buf_len b = length [3 :: byte, 4] \<and> tot' = 5 + buf_allocation b"
  by (rule buf_refines_queue) (simp add: BUF_MAX_LEN_def)

text \<open>C26: Moving data between buffers loses, duplicates and reorders nothing: \<^verbatim>\<open>buf_move_to_buf\<close> takes as
  much as asked for (or all there is) from the front of one buffer to the end of the other, reports the number
  and reduces \<^verbatim>\<open>*buf_flushlen\<close> by it; \<^verbatim>\<open>buf_move_all\<close> splices all of it.  Both keep the buffers
  well formed and the allocation counter exact.\<close>

theorem buf_moves_correct:
  assumes "buf_ok bo" and "buf_ok bi" and "length (contents bo) + flushlen \<le> BUF_MAX_LEN"
    and "length (contents bo) + length (contents bi) \<le> BUF_MAX_LEN" and "buf_allocation bo + buf_allocation bi \<le> tot"
  shows "(\<exists>tot' bo' bi'. buf_move_to_buf env tot bo bi flushlen =
        Some (tot', bo', bi', flushlen - length (contents bi), int (min flushlen (length (contents bi)))) \<and>
      buf_assert_ok bo' \<and> buf_assert_ok bi' \<and> contents bo' = contents bo @ take flushlen (contents bi) \<and>
      contents bi' = drop flushlen (contents bi) \<and>
      tot' + (buf_allocation bo + buf_allocation bi) = tot + (buf_allocation bo' + buf_allocation bi')) \<and>
    (\<exists>bo' bi'. buf_move_all bo (Some bi) = (bo', Some bi', length (contents bi)) \<and> buf_assert_ok bo' \<and> buf_assert_ok bi' \<and>
      contents bo' = contents bo @ contents bi \<and> contents bi' = [] \<and>
      buf_allocation bo' + buf_allocation bi' = buf_allocation bo + buf_allocation bi)"
  by (rule conjI; rule buf_move_to_buf_ok [OF assms(1-3,5)] buf_move_all_ok [OF assms(1,2,4)]) (auto simp: buf_ok_def)

definition demo_chunk :: "bytes \<Rightarrow> chunk" where
  "demo_chunk s = \<lparr> chunk_mem = s, chunk_data = 0, chunk_datalen = length s, inserted_time = 0 \<rparr>"

definition demo_buf :: "bytes list \<Rightarrow> buf" where
  "demo_buf ss = buf_new\<lparr> buf_len := length (concat ss), chunks := map demo_chunk ss \<rparr>"

lemma demo_buf_ok:
  "length (concat ss) \<le> BUF_MAX_LEN \<Longrightarrow> buf_ok (demo_buf ss)" "contents (demo_buf ss) = concat ss"
  "dense (chunks (demo_buf ss)) \<longleftrightarrow> [] \<notin> set ss" "buf_allocation (demo_buf ss) = 48 * length ss + length (concat ss)"
proof -
  have "list_all chunk_ok (map demo_chunk ss)" "map chunk_datalen (map demo_chunk ss) = map length ss"
    "map chunk_bytes (map demo_chunk ss) = ss"
    by (induction ss) (simp_all add: demo_chunk_def chunk_ok_def memlen_def chunk_bytes_def)
  then show "length (concat ss) \<le> BUF_MAX_LEN \<Longrightarrow> buf_ok (demo_buf ss)" "contents (demo_buf ss) = concat ss"
    by (simp_all add: demo_buf_def buf_new_def buf_ok_iff contents_def length_concat comp_def cong: map_cong)
  show "dense (chunks (demo_buf ss)) \<longleftrightarrow> [] \<notin> set ss"
    by (auto simp: demo_buf_def dense_def list_all_iff demo_chunk_def)
  show "buf_allocation (demo_buf ss) = 48 * length ss + length (concat ss)"
    by (induction ss) (simp_all add: demo_buf_def buf_allocation_def demo_chunk_def memlen_def chunk_consts)
qed

theorem buf_moves_correct_witness:
  "(\<exists>tot' bo' bi'. buf_move_to_buf demo_env 1000 (demo_buf [[1], [2]]) (demo_buf [[3, 4], [5]]) 2 =
        Some (tot', bo', bi', 2 - length (contents (demo_buf [[3, 4], [5]])), int (min 2 (length (contents (demo_buf [[3, 4], [5]]))))) \<and>
      buf_assert_ok bo' \<and> buf_assert_ok bi' \<and>
      contents bo' = contents (demo_buf [[1], [2]]) @ take 2 (contents (demo_buf [[3, 4], [5]])) \<and>
      contents bi' = drop 2 (contents (demo_buf [[3, 4], [5]])) \<and>
      tot' + (buf_allocation (demo_buf [[1], [2]]) + buf_allocation (demo_buf [[3, 4], [5]])) =
        1000 + (buf_allocation bo' + buf_allocation bi')) \<and>
    (\<exists>bo' bi'. buf_move_all (demo_buf [[1], [2]]) (Some (demo_buf [[3, 4], [5]])) =
        (bo', Some bi', length (contents (demo_buf [[3, 4], [5]]))) \<and> buf_assert_ok bo' \<and> buf_assert_ok bi' \<and>
      contents bo' = contents (demo_buf [[1], [2]]) @ contents (demo_buf [[3, 4], [5]]) \<and> contents bi' = [] \<and>
      buf_allocation bo' + buf_allocation bi' = buf_allocation (demo_buf [[1], [2]]) + buf_allocation (demo_buf [[3, 4], [5]]))"
  by (rule buf_moves_correct) (simp_all add: demo_buf_ok BUF_MAX_LEN_def)

end
