(* ===== verification/Tor_Buffers_Search.thy ===== *)
theory Tor_Buffers_Search
  imports Tor_Buffers
begin

text \<open>
  The searches of \<^verbatim>\<open>lib/buf/buffers.c\<close>: positions in a buffer, \<^verbatim>\<open>buf_find_string_offset\<close>,
  \<^verbatim>\<open>buf_peek_startswith\<close> and \<^verbatim>\<open>buf_get_line\<close>.  The chunk pointer of a position is the list that starts
  with that chunk, so that \<^verbatim>\<open>chunk->next\<close> is its tail.
\<close>

record buf_pos =
  pos_chunk :: "chunk list"
  pos_pos :: nat
  pos_chunk_pos :: nat

definition buf_pos_init :: "buf \<Rightarrow> buf_pos" where
  "buf_pos_init b = \<lparr> pos_chunk = chunks b, pos_pos = 0, pos_chunk_pos = 0 \<rparr>"

fun find_char_loop :: "byte \<Rightarrow> chunk list \<Rightarrow> nat \<Rightarrow> nat \<Rightarrow> buf_pos option option" where
  "find_char_loop ch [] pos chunk_pos = Some None"
| "find_char_loop ch (c # cs) pos chunk_pos =
    (case memchr (take (chunk_datalen c - pos) (drop (chunk_data c + pos) (chunk_mem c))) ch of
       Some i \<Rightarrow> do {
         tor_assert (pos + i \<le> BUF_MAX_LEN);
         Some (Some \<lparr> pos_chunk = c # cs, pos_pos = pos + i, pos_chunk_pos = chunk_pos \<rparr>) }
     | None \<Rightarrow> find_char_loop ch cs 0 (chunk_pos + chunk_datalen c))"

text \<open>\<open>Some None\<close> is the result \<open>-1\<close>; otherwise the position that is found.\<close>

definition buf_find_pos_of_char :: "byte \<Rightarrow> buf_pos \<Rightarrow> buf_pos option option" where
  "buf_find_pos_of_char ch out = do {
     tor_assert (case pos_chunk out of
         [] \<Rightarrow> True
       | c # _ \<Rightarrow> if chunk_datalen c \<noteq> 0 then pos_pos out < chunk_datalen c else pos_pos out = 0);
     find_char_loop ch (pos_chunk out) (pos_pos out) (pos_chunk_pos out) }"

text \<open>The position and whether there was a next character.\<close>

definition buf_pos_inc :: "buf_pos \<Rightarrow> (buf_pos \<times> bool) option" where
  "buf_pos_inc p = do {
     tor_assert (pos_pos p < BUF_MAX_LEN);
     let p = p\<lparr> pos_pos := pos_pos p + 1 \<rparr>;
     case pos_chunk p of
       [] \<Rightarrow> None
     | c # nxt \<Rightarrow>
         Some (if pos_pos p = chunk_datalen c
               then if nxt = [] then (p, False)
                    else (\<lparr> pos_chunk = nxt, pos_pos = 0, pos_chunk_pos = pos_chunk_pos p + chunk_datalen c \<rparr>, True)
               else (p, True)) }"

text \<open>\<^verbatim>\<open>p.chunk->data[p.pos]\<close>: a byte of the block, or of the sentinel behind it.\<close>

definition chunk_read :: "chunk \<Rightarrow> nat \<Rightarrow> byte option" where
  "chunk_read c i =
    (let m = chunk_mem c @ replicate SENTINEL_LEN 0
     in if chunk_data c + i < length m then Some (m ! (chunk_data c + i)) else None)"

fun matches_loop :: "buf_pos \<Rightarrow> bytes \<Rightarrow> bool option" where
  "matches_loop p [] = Some True"
| "matches_loop p (x # s) =
    (case pos_chunk p of
       [] \<Rightarrow> None
     | c # _ \<Rightarrow> do {
         ch \<leftarrow> chunk_read c (pos_pos p);
         if ch \<noteq> x then Some False
         else if s = [] then Some True
         else do { (p, has_next) \<leftarrow> buf_pos_inc p; if has_next then matches_loop p s else Some False } })"

text \<open>The \<open>n\<close> characters at \<open>s\<close> are the list \<open>s\<close>.\<close>

definition buf_matches_at_pos :: "buf_pos \<Rightarrow> bytes \<Rightarrow> bool option" where
  "buf_matches_at_pos pos s = matches_loop pos s"

partial_function (option) find_string_loop :: "bytes \<Rightarrow> buf_pos \<Rightarrow> nat option option" where
  "find_string_loop s pos =
    Option.bind (buf_find_pos_of_char (case s of [] \<Rightarrow> 0 | c # _ \<Rightarrow> c) pos)
      (\<lambda>r. case r of
             None \<Rightarrow> Some None
           | Some pos \<Rightarrow>
               Option.bind (buf_matches_at_pos pos s)
                 (\<lambda>m. if m
                      then Option.bind (tor_assert (pos_chunk_pos pos + pos_pos pos \<le> BUF_MAX_LEN))
                             (\<lambda>_. Some (Some (pos_chunk_pos pos + pos_pos pos)))
                      else Option.bind (buf_pos_inc pos)
                             (\<lambda>r. case r of (pos, has_next) \<Rightarrow> if has_next then find_string_loop s pos else Some None)))"

definition buf_find_string_offset :: "buf \<Rightarrow> bytes \<Rightarrow> nat option option" where
  "buf_find_string_offset b s = find_string_loop s (buf_pos_init b)"

definition buf_peek_startswith :: "buf \<Rightarrow> bytes \<Rightarrow> bool option" where
  "buf_peek_startswith b cmd =
    (let clen = length (c_str cmd)
     in if clen = 0 then Some True
        else if clen > 16 then Some False
        else if buf_len b < clen then Some False
        else map_option (\<lambda>tmp. tmp = c_str cmd) (buf_peek b clen))"

fun find_offset_loop :: "byte \<Rightarrow> chunk list \<Rightarrow> nat \<Rightarrow> nat option" where
  "find_offset_loop ch [] offset = None"
| "find_offset_loop ch (c # cs) offset =
    (case memchr (chunk_bytes c) ch of
       Some i \<Rightarrow> Some (offset + i)
     | None \<Rightarrow> find_offset_loop ch cs (offset + chunk_datalen c))"

definition buf_find_offset_of_char :: "buf \<Rightarrow> byte \<Rightarrow> nat option option" where
  "buf_find_offset_of_char b ch = do { tor_assert (buf_len b \<le> BUF_MAX_LEN); Some (find_offset_loop ch (chunks b) 0) }"

text \<open>
  The counter, the buffer, the bytes written to \<^verbatim>\<open>data_out\<close> (if any), the new \<^verbatim>\<open>*data_len\<close> and the
  returned number.
\<close>

definition buf_get_line :: "nat \<Rightarrow> buf \<Rightarrow> nat \<Rightarrow> (nat \<times> buf \<times> bytes \<times> nat \<times> int) option" where
  "buf_get_line tot b data_len =
    (if chunks b = [] then Some (tot, b, [], data_len, 0)
     else do {
       off \<leftarrow> buf_find_offset_of_char b 10;
       case off of
         None \<Rightarrow> Some (tot, b, [], data_len, 0)
       | Some sz \<Rightarrow>
           if sz + 2 > data_len then Some (tot, b, [], sz + 2, -1)
           else do {
             (tot, b, data, _) \<leftarrow> buf_get_bytes tot b (sz + 1);
             Some (tot, b, data @ [0], sz + 1, 1) } })"

section \<open>Searching finds the first occurrence\<close>

text \<open>The bytes from a position on and its absolute offset.\<close>

definition pos_rest :: "buf_pos \<Rightarrow> bytes" where
  "pos_rest p = drop (pos_pos p) (chunks_bytes (pos_chunk p))"

definition pos_abs :: "buf_pos \<Rightarrow> nat" where
  "pos_abs p = pos_chunk_pos p + pos_pos p"

definition pos_ok :: "buf_pos \<Rightarrow> bool" where
  "pos_ok p \<longleftrightarrow> list_all chunk_ok (pos_chunk p) \<and> dense (pos_chunk p) \<and>
     (case pos_chunk p of [] \<Rightarrow> pos_pos p = 0 | c # _ \<Rightarrow> pos_pos p < chunk_datalen c)"

text \<open>A position inside of a buffer.\<close>

definition pos_in :: "buf \<Rightarrow> buf_pos \<Rightarrow> bool" where
  "pos_in b p \<longleftrightarrow> pos_ok p \<and> drop (pos_abs p) (contents b) = pos_rest p \<and> pos_abs p + length (pos_rest p) = length (contents b)"

lemma chunk_bytes_drop: "take (chunk_datalen c - k) (drop (chunk_data c + k) (chunk_mem c)) = drop k (chunk_bytes c)"
  by (simp add: chunk_bytes_def drop_take add.commute)

lemma find_char_loop_ok:
  assumes "list_all chunk_ok cs" and "dense cs" and "case cs of [] \<Rightarrow> k = 0 | c # _ \<Rightarrow> k < chunk_datalen c"
    and "length (chunks_bytes cs) \<le> BUF_MAX_LEN"
  shows "(case memchr (drop k (chunks_bytes cs)) ch of
      None \<Rightarrow> find_char_loop ch cs k cp = Some None
    | Some i \<Rightarrow> \<exists>p. find_char_loop ch cs k cp = Some (Some p) \<and> pos_ok p \<and> pos_abs p = cp + k + i \<and>
        pos_rest p = drop i (drop k (chunks_bytes cs)))"
  using assms
proof (induction cs arbitrary: k cp)
  case (Cons c cs)
  have c: "chunk_ok c" "length (chunk_bytes c) = chunk_datalen c" "k < chunk_datalen c" "list_all chunk_ok cs" "dense cs"
    using Cons.prems by (simp_all add: chunk_simps dense_def)
  let ?d = "drop k (chunk_bytes c)"
  have split: "drop k (chunks_bytes (c # cs)) = ?d @ chunks_bytes cs" using c by simp
  show ?case
  proof (cases "memchr ?d ch")
    case None
    have "find_char_loop ch (c # cs) k cp = find_char_loop ch cs 0 (cp + chunk_datalen c)"
      using None by (simp add: chunk_bytes_drop)
    moreover have "case cs of [] \<Rightarrow> 0 = 0 | d # _ \<Rightarrow> 0 < chunk_datalen d" using c(5) by (auto simp: dense_def split: list.splits)
    moreover have "length (chunks_bytes cs) \<le> BUF_MAX_LEN" using Cons.prems(4) by simp
    moreover have "memchr (?d @ chunks_bytes cs) ch = map_option ((+) (length ?d)) (memchr (chunks_bytes cs) ch)"
      using None by (simp add: memchr_None memchr_append)
    ultimately show ?thesis
      unfolding split using Cons.IH [OF c(4,5), of 0 "cp + chunk_datalen c"] c(2,3)
      by (auto split: option.splits simp: ac_simps)
  next
    case (Some i)
    let ?p = "\<lparr> pos_chunk = c # cs, pos_pos = k + i, pos_chunk_pos = cp \<rparr>"
    have i: "i < length ?d" "?d ! i = ch" "ch \<notin> set (take i ?d)" using Some by (simp_all add: memchr_Some)
    then have "k + i \<le> BUF_MAX_LEN" using Cons.prems(4) c(2) by simp
    then have "find_char_loop ch (c # cs) k cp = Some (Some ?p)" using Some by (simp add: chunk_bytes_drop)
    moreover have "memchr (?d @ chunks_bytes cs) ch = Some i" using i by (simp add: memchr_Some nth_append)
    moreover have "pos_ok ?p" using Cons.prems i(1) c(2) by (simp add: pos_ok_def)
    moreover have "pos_rest ?p = drop i (?d @ chunks_bytes cs)" using i(1) by (simp add: pos_rest_def add.commute)
    ultimately show ?thesis unfolding split by (simp add: pos_abs_def)
  qed
qed simp

lemma buf_find_pos_of_char_ok:
  assumes "pos_in b p" and "buf_ok b"
  shows "(case memchr (pos_rest p) ch of
      None \<Rightarrow> buf_find_pos_of_char ch p = Some None
    | Some i \<Rightarrow> \<exists>p'. buf_find_pos_of_char ch p = Some (Some p') \<and> pos_in b p' \<and> pos_abs p' = pos_abs p + i)"
proof -
  have p: "pos_ok p" "drop (pos_abs p) (contents b) = pos_rest p" "pos_abs p + length (pos_rest p) = length (contents b)"
    using assms(1) by (simp_all add: pos_in_def)
  have "length (contents b) \<le> BUF_MAX_LEN" using assms(2) length_buf_contents [OF assms(2)] by (simp add: buf_ok_def)
  moreover have "pos_pos p \<le> length (chunks_bytes (pos_chunk p))"
    using p(1) by (cases "pos_chunk p") (auto simp: pos_ok_def chunk_simps)
  ultimately have "length (chunks_bytes (pos_chunk p)) \<le> BUF_MAX_LEN"
    using p(3) by (simp add: pos_rest_def pos_abs_def)
  then have loop: "case memchr (pos_rest p) ch of
      None \<Rightarrow> find_char_loop ch (pos_chunk p) (pos_pos p) (pos_chunk_pos p) = Some None
    | Some i \<Rightarrow> \<exists>p'. find_char_loop ch (pos_chunk p) (pos_pos p) (pos_chunk_pos p) = Some (Some p') \<and> pos_ok p' \<and>
        pos_abs p' = pos_chunk_pos p + pos_pos p + i \<and> pos_rest p' = drop i (pos_rest p)"
    using find_char_loop_ok [of "pos_chunk p" "pos_pos p" ch "pos_chunk_pos p"] p(1)
    unfolding pos_rest_def [of p] by (simp add: pos_ok_def)
  have "buf_find_pos_of_char ch p = find_char_loop ch (pos_chunk p) (pos_pos p) (pos_chunk_pos p)"
    using p(1) by (auto simp: buf_find_pos_of_char_def pos_ok_def split: list.splits)
  moreover have "drop (pos_abs p + i) (contents b) = drop i (pos_rest p)" for i
    using p(2) by (metis add.commute drop_drop)
  moreover have "i < length (pos_rest p)" if "memchr (pos_rest p) ch = Some i" for i using that by (simp add: memchr_Some)
  ultimately show ?thesis using loop p(3) by (auto simp: pos_in_def pos_abs_def [of p, symmetric] split: option.splits)
qed

lemma buf_pos_inc_ok:
  assumes "pos_in b p" and "buf_ok b" and "pos_rest p = x # r"
  obtains p' where "buf_pos_inc p = Some (p', r \<noteq> [])" and "r \<noteq> [] \<Longrightarrow> pos_in b p' \<and> pos_abs p' = pos_abs p + 1 \<and> pos_rest p' = r"
proof -
  obtain c cs where ch: "pos_chunk p = c # cs" using assms(1,3) by (cases "pos_chunk p") (auto simp: pos_rest_def)
  have p: "chunk_ok c" "length (chunk_bytes c) = chunk_datalen c" "list_all chunk_ok cs" "dense (c # cs)" "pos_pos p < chunk_datalen c"
    "drop (pos_abs p) (contents b) = pos_rest p" "pos_abs p + length (pos_rest p) = length (contents b)"
    using assms(1) ch by (simp_all add: pos_in_def pos_ok_def chunk_simps)
  have rest: "x # r = drop (pos_pos p) (chunk_bytes c) @ chunks_bytes cs" using assms(3) ch p(2,5) by (simp add: pos_rest_def)
  then have r: "r = drop (pos_pos p + 1) (chunk_bytes c) @ chunks_bytes cs"
    using p(2,5) by (metis Suc_eq_plus1 append_Cons Cons_nth_drop_Suc list.inject)
  have lt: "pos_pos p < BUF_MAX_LEN"
    using p(5-7) assms(2) length_buf_contents [OF assms(2)] assms(3) by (simp add: buf_ok_def pos_abs_def)
  have next_drop: "drop (pos_abs p + 1) (contents b) = r" "pos_abs p + 1 + length r = length (contents b)"
    using p(6,7) assms(3) by (simp_all add: drop_Suc flip: tl_drop)
  have cs: "chunks_bytes cs = [] \<longleftrightarrow> cs = []"
  proof (cases cs)
    case (Cons a l)
    then have "chunk_bytes a \<noteq> []" using p(3,4) length_chunk_bytes [of a] by (auto simp: dense_def)
    then show ?thesis using Cons by simp
  qed simp
  let ?e = "pos_pos p + 1 = chunk_datalen c"
  let ?p = "if ?e \<and> cs \<noteq> [] then \<lparr> pos_chunk = cs, pos_pos = 0, pos_chunk_pos = pos_chunk_pos p + chunk_datalen c \<rparr>
    else p\<lparr> pos_pos := pos_pos p + 1 \<rparr>"
  have "r \<noteq> [] \<longleftrightarrow> \<not> (?e \<and> cs = [])" using r cs p(2,5) by auto
  then have "buf_pos_inc p = Some (?p, r \<noteq> [])" using lt ch by (auto simp: buf_pos_inc_def Let_def)
  moreover have "pos_in b ?p \<and> pos_abs ?p = pos_abs p + 1 \<and> pos_rest ?p = r" if "r \<noteq> []"
  proof -
    have "pos_abs ?p = pos_abs p + 1" by (simp add: pos_abs_def)
    moreover have "pos_rest ?p = r" using r ch p(2,5) by (auto simp: pos_rest_def)
    moreover have "pos_ok ?p" using p ch that \<open>r \<noteq> [] \<longleftrightarrow> _\<close> by (auto simp: pos_ok_def dense_def split: list.splits)
    ultimately show ?thesis using next_drop by (simp add: pos_in_def)
  qed
  ultimately show thesis by (rule that)
qed

lemma chunk_read_ok:
  assumes "pos_in b p" and "pos_rest p = x # r"
  obtains c cs where "pos_chunk p = c # cs" and "chunk_read c (pos_pos p) = Some x"
proof -
  obtain c cs where ch: "pos_chunk p = c # cs" using assms by (cases "pos_chunk p") (auto simp: pos_rest_def)
  have c: "chunk_ok c" "pos_pos p < chunk_datalen c" using assms(1) ch by (simp_all add: pos_in_def pos_ok_def)
  have "x = chunk_bytes c ! pos_pos p"
    using assms(2) ch c length_chunk_bytes [OF c(1)] by (simp add: pos_rest_def) (metis Cons_nth_drop_Suc append_Cons list.inject)
  also have "\<dots> = chunk_mem c ! (chunk_data c + pos_pos p)" using c by (simp add: chunk_bytes_def chunk_ok_def memlen_def)
  finally have "chunk_read c (pos_pos p) = Some x"
    using c by (simp add: chunk_read_def chunk_ok_def memlen_def nth_append)
  with ch show thesis by (rule that)
qed

lemma matches_loop_ok:
  assumes "pos_in b p" and "buf_ok b" and "pos_rest p \<noteq> []"
  shows "matches_loop p s = Some (take (length s) (pos_rest p) = s)"
  using assms
proof (induction s arbitrary: p)
  case (Cons x s)
  obtain y r where r: "pos_rest p = y # r" using Cons.prems(3) by (cases "pos_rest p") auto
  obtain c cs where c: "pos_chunk p = c # cs" "chunk_read c (pos_pos p) = Some y" by (rule chunk_read_ok [OF Cons.prems(1) r])
  obtain p' where p': "buf_pos_inc p = Some (p', r \<noteq> [])" "r \<noteq> [] \<Longrightarrow> pos_in b p' \<and> pos_abs p' = pos_abs p + 1 \<and> pos_rest p' = r"
    using buf_pos_inc_ok [OF Cons.prems(1,2) r] by metis
  show ?case using c p' r Cons.IH [of p'] Cons.prems(2) by auto
qed simp

text \<open>The first occurrence behind a position, and that there is none.\<close>

definition first_from :: "bytes \<Rightarrow> bytes \<Rightarrow> nat \<Rightarrow> nat option \<Rightarrow> bool" where
  "first_from needle h k r \<longleftrightarrow> (case r of
       None \<Rightarrow> \<forall>i \<ge> k. \<not> occurs_at needle h i
     | Some q \<Rightarrow> k \<le> q \<and> occurs_at needle h q \<and> (\<forall>i. k \<le> i \<and> i < q \<longrightarrow> \<not> occurs_at needle h i))"

lemma first_from_unique: "first_from needle h k r \<Longrightarrow> first_from needle h k r' \<Longrightarrow> r = r'"
  unfolding first_from_def by (cases r; cases r') (auto, meson nat_neq_iff)

lemma first_from_skip: "first_from needle h j r \<Longrightarrow> k \<le> j \<Longrightarrow> (\<And>i. k \<le> i \<Longrightarrow> i < j \<Longrightarrow> \<not> occurs_at needle h i) \<Longrightarrow> first_from needle h k r"
  unfolding first_from_def by (cases r) (auto, (metis not_le)+)

lemma find_string_loop_ok:
  assumes "pos_in b p" and "buf_ok b" and "s \<noteq> []"
  shows "\<exists>r. find_string_loop s p = Some r \<and> first_from s (contents b) (pos_abs p) r"
  using assms
proof (induction "length (pos_rest p)" arbitrary: p rule: less_induct)
  case less
  obtain x s' where s: "s = x # s'" using less.prems(3) by (cases s) auto
  have p: "drop (pos_abs p) (contents b) = pos_rest p" "pos_abs p + length (pos_rest p) = length (contents b)"
    using less.prems(1) by (simp_all add: pos_in_def)
  have nth: "contents b ! (pos_abs p + j) = pos_rest p ! j" if "j < length (pos_rest p)" for j
    using p that by (metis nth_drop le_add1)
  note find = buf_find_pos_of_char_ok [OF less.prems(1,2), of x]
  have no: "\<not> occurs_at s (contents b) i" if "pos_abs p \<le> i" and "i < length (contents b) \<Longrightarrow> pos_rest p ! (i - pos_abs p) \<noteq> x" for i
  proof
    assume "occurs_at s (contents b) i"
    then have "contents b ! i = x" "i < length (contents b)" using occurs_at_hd [of s "contents b" i] s by (auto simp: occurs_at_def)
    moreover from this have "i - pos_abs p < length (pos_rest p)" using that(1) p(2) by linarith
    ultimately show False using that nth [of "i - pos_abs p"] by simp
  qed
  show ?case
  proof (cases "memchr (pos_rest p) x")
    case None
    then have "find_string_loop s p = Some None" using find s by (subst find_string_loop.simps) simp
    moreover have "\<forall>i \<ge> pos_abs p. \<not> occurs_at s (contents b) i"
      using no None p(2) by (auto simp: memchr_None) (metis add_diff_inverse_nat leD nat_add_left_cancel_less nth_mem)
    ultimately show ?thesis by (simp add: first_from_def)
  next
    case (Some i)
    then obtain q where f: "buf_find_pos_of_char x p = Some (Some q)" and q: "pos_in b q" "pos_abs q = pos_abs p + i" using find by auto
    have i: "i < length (pos_rest p)" "pos_rest p ! i = x" "x \<notin> set (take i (pos_rest p))" using Some by (simp_all add: memchr_Some)
    have q2: "drop (pos_abs q) (contents b) = pos_rest q" "pos_abs q + length (pos_rest q) = length (contents b)"
      using q(1) by (simp_all add: pos_in_def)
    then have qr: "pos_rest q \<noteq> []" "length (pos_rest q) \<le> length (pos_rest p)" using i(1) q(2) p(2) by auto
    then obtain y r where yr: "pos_rest q = y # r" by (cases "pos_rest q") auto
    have before: "\<not> occurs_at s (contents b) j" if "pos_abs p \<le> j" "j < pos_abs q" for j
      using no [of j] that i q(2) by (auto simp: in_set_conv_nth)
    have m: "buf_matches_at_pos q s = Some (take (length s) (pos_rest q) = s)"
      unfolding buf_matches_at_pos_def by (rule matches_loop_ok [OF q(1) less.prems(2) qr(1)])
    have at_q: "take (length s) (pos_rest q) = s \<longleftrightarrow> occurs_at s (contents b) (pos_abs q)"
      using q2 by (auto simp: occurs_at_def) (metis length_take min.cobounded1 nat_add_left_cancel_le)
    obtain q' where inc: "buf_pos_inc q = Some (q', r \<noteq> [])" "r \<noteq> [] \<Longrightarrow> pos_in b q' \<and> pos_abs q' = pos_abs q + 1 \<and> pos_rest q' = r"
      using buf_pos_inc_ok [OF q(1) less.prems(2) yr] by metis
    have unfold: "find_string_loop s p =
      (if take (length s) (pos_rest q) = s then do { tor_assert (pos_abs q \<le> BUF_MAX_LEN); Some (Some (pos_abs q)) }
       else if r \<noteq> [] then find_string_loop s q' else Some None)"
      using f m inc(1) s by (subst find_string_loop.simps) (simp add: pos_abs_def)
    show ?thesis
    proof (cases "take (length s) (pos_rest q) = s")
      case True
      have "pos_abs q \<le> BUF_MAX_LEN" using q2(2) less.prems(2) length_buf_contents [OF less.prems(2)] by (simp add: buf_ok_def)
      then show ?thesis using True at_q before unfold q(2) by (auto simp: first_from_def)
    next
      case False
      have after: "\<not> occurs_at s (contents b) j" if "pos_abs p \<le> j" "j < pos_abs q + 1" for j
        using that before False at_q by (cases "j = pos_abs q") auto
      show ?thesis
      proof (cases "r = []")
        case True
        then have "\<not> occurs_at s (contents b) j" if "pos_abs p \<le> j" for j
          using after [OF that] q2(2) yr s by (auto simp: occurs_at_def)
        then show ?thesis using False True unfold by (simp add: first_from_def)
      next
        case r: False
        then obtain res where "find_string_loop s q' = Some res" "first_from s (contents b) (pos_abs q') res"
          using less.hyps [of q'] inc(2) less.prems(2,3) yr qr(2) by auto
        moreover have "first_from s (contents b) (pos_abs p) res"
          by (rule first_from_skip [OF calculation(2)]) (use inc(2) [OF r] q(2) after in auto)
        ultimately show ?thesis using False r unfold by auto
      qed
    qed
  qed
qed

lemma pos_in_init: "buf_ok b \<Longrightarrow> dense (chunks b) \<Longrightarrow> pos_in b (buf_pos_init b)"
  by (auto simp: pos_in_def pos_ok_def buf_pos_init_def pos_rest_def pos_abs_def contents_def buf_ok_iff dense_def split: list.splits)

lemma tor_memmem_first_from:
  assumes "needle \<noteq> []"
  shows "\<exists>r. tor_memmem haystack needle = Some r \<and> first_from needle haystack 0 r"
proof (cases "length needle > length haystack")
  case True
  then show ?thesis using assms by (auto simp: tor_memmem_def occurs_at_def first_from_def)
next
  case False
  then show ?thesis
    using assms tor_memmem_loop_first [of needle "length haystack - length needle" haystack 0]
    by (auto simp: tor_memmem_def first_from_def split: option.splits)
qed

lemma find_offset_loop_eq:
  "list_all chunk_ok cs \<Longrightarrow> find_offset_loop ch cs offset = map_option ((+) offset) (memchr (chunks_bytes cs) ch)"
proof (induction cs arbitrary: offset)
  case (Cons c cs)
  show ?case
  proof (cases "memchr (chunk_bytes c) ch")
    case None
    then have "ch \<notin> set (chunk_bytes c)" by (simp add: memchr_None)
    then show ?thesis using Cons None
      by (auto simp: memchr_append chunk_simps option.map_comp comp_def intro!: option.map_cong)
  next
    case (Some i)
    then have "memchr (chunk_bytes c @ chunks_bytes cs) ch = Some i" by (simp add: memchr_Some nth_append)
    then show ?thesis using Some by simp
  qed
qed simp

lemma buf_get_line_ok:
  assumes "buf_ok b" and "buf_allocation b \<le> tot"
  shows "10 \<notin> set (contents b) \<Longrightarrow> buf_get_line tot b data_len = Some (tot, b, [], data_len, 0)"
    and "contents b = line @ 10 # rest \<Longrightarrow> 10 \<notin> set line \<Longrightarrow> data_len < length line + 2 \<Longrightarrow>
      buf_get_line tot b data_len = Some (tot, b, [], length line + 2, -1)"
    and "contents b = line @ 10 # rest \<Longrightarrow> 10 \<notin> set line \<Longrightarrow> length line + 2 \<le> data_len \<Longrightarrow>
      \<exists>tot' b'. buf_get_line tot b data_len = Some (tot', b', line @ [10, 0], length line + 1, 1) \<and> becomes tot b tot' b' rest"
proof -
  have off: "buf_find_offset_of_char b 10 = Some (memchr (contents b) 10)"
    using assms(1) find_offset_loop_eq [of "chunks b" 10 0]
    by (cases "memchr (chunks_bytes (chunks b)) 10") (simp_all add: buf_find_offset_of_char_def buf_ok_iff contents_def)
  show "10 \<notin> set (contents b) \<Longrightarrow> buf_get_line tot b data_len = Some (tot, b, [], data_len, 0)"
    using off by (simp add: buf_get_line_def memchr_None [THEN iffD2])
  assume c: "contents b = line @ 10 # rest" and l: "10 \<notin> set line"
  have ne: "chunks b \<noteq> []" using c by (auto simp: contents_def)
  note found = off [unfolded c memchr_split [OF l]]
  show "buf_get_line tot b data_len = Some (tot, b, [], length line + 2, -1)" if "data_len < length line + 2"
    using that found ne by (simp add: buf_get_line_def)
  show "\<exists>tot' b'. buf_get_line tot b data_len = Some (tot', b', line @ [10, 0], length line + 1, 1) \<and> becomes tot b tot' b' rest"
    if "length line + 2 \<le> data_len"
  proof -
    have le: "length line + 1 \<le> length (contents b)" using c by simp
    obtain tot' b' where "buf_get_bytes tot b (length line + 1) =
        Some (tot', b', take (length line + 1) (contents b), int (length (contents b) - (length line + 1)))"
      "becomes tot b tot' b' (drop (length line + 1) (contents b))"
      by (rule buf_get_bytes_ok [OF assms(1) le assms(2)])
    then show ?thesis using that found ne c by (simp add: buf_get_line_def)
  qed
qed

lemma buf_peek_startswith_ok:
  assumes "buf_ok b" and "length (c_str cmd) \<le> 16"
  shows "buf_peek_startswith b cmd = Some (prefix (c_str cmd) (contents b))"
proof (cases "length (c_str cmd) \<le> buf_len b")
  case True
  then have "buf_peek b (length (c_str cmd)) = Some (take (length (c_str cmd)) (contents b))"
    using buf_peek_ok [OF assms(1)] length_buf_contents [OF assms(1)] by simp
  then show ?thesis using True assms(2) by (auto simp: buf_peek_startswith_def Let_def prefix_def) (metis append_take_drop_id)
next
  case False
  then show ?thesis using assms(2) length_buf_contents [OF assms(1)] prefix_length_le [of "c_str cmd" "contents b"]
    by (auto simp: buf_peek_startswith_def Let_def)
qed

section \<open>Properties\<close>

text \<open>C27: Searching a buffer is the same as searching its contents as one string: in a well-formed buffer with
  no empty chunk, \<^verbatim>\<open>buf_find_string_offset\<close> always returns, and returns exactly what \<^verbatim>\<open>tor_memmem\<close>
  returns on the concatenated data, across chunk boundaries.\<close>

theorem buf_find_string_offset_memmem:
  assumes "buf_ok b" and "dense (chunks b)" and "s \<noteq> []"
  shows "buf_find_string_offset b s = tor_memmem (contents b) s"
proof -
  obtain r where "find_string_loop s (buf_pos_init b) = Some r" "first_from s (contents b) 0 r"
    using find_string_loop_ok [OF pos_in_init [OF assms(1,2)] assms(1,3)] by (auto simp: buf_pos_init_def pos_abs_def)
  moreover obtain r' where "tor_memmem (contents b) s = Some r'" "first_from s (contents b) 0 r'"
    using tor_memmem_first_from [OF assms(3)] by blast
  ultimately show ?thesis using first_from_unique by (auto simp: buf_find_string_offset_def)
qed

theorem buf_find_string_offset_memmem_witness:
  "buf_find_string_offset (demo_buf [[1, 13], [10, 13, 10, 2]]) [13, 10, 13, 10] =
     tor_memmem (contents (demo_buf [[1, 13], [10, 13, 10, 2]])) [13, 10, 13, 10]"
  by (rule buf_find_string_offset_memmem) (simp_all add: demo_buf_ok BUF_MAX_LEN_def)

text \<open>Reading a line: without a line feed the buffer is unchanged and \<open>0\<close> is returned; a line that
  does not fit (with its line feed and the NUL) is left in place and reported with \<open>-1\<close> and the room it
  needs; otherwise exactly the line is removed from the front and returned, NUL-terminated.\<close>

theorem buf_get_line_correct:
  assumes "buf_ok b" and "buf_allocation b \<le> tot"
  shows "(10 \<notin> set (contents b) \<longrightarrow> buf_get_line tot b data_len = Some (tot, b, [], data_len, 0)) \<and>
    (\<forall>line rest. contents b = line @ 10 # rest \<and> 10 \<notin> set line \<longrightarrow>
      (if data_len < length line + 2 then buf_get_line tot b data_len = Some (tot, b, [], length line + 2, -1)
       else \<exists>tot' b'. buf_get_line tot b data_len = Some (tot', b', line @ [10, 0], length line + 1, 1) \<and>
         buf_assert_ok b' \<and> contents b' = rest))"
proof (intro conjI impI allI)
  fix line rest
  assume l: "contents b = line @ 10 # rest \<and> 10 \<notin> set line"
  show "if data_len < length line + 2 then buf_get_line tot b data_len = Some (tot, b, [], length line + 2, -1)
    else \<exists>tot' b'. buf_get_line tot b data_len = Some (tot', b', line @ [10, 0], length line + 1, 1) \<and> buf_assert_ok b' \<and> contents b' = rest"
    using buf_get_line_ok(2,3) [OF assms, of line rest data_len] l
    by (cases "data_len < length line + 2") (auto simp: becomes_def buf_ok_def)
qed (rule buf_get_line_ok(1) [OF assms])

theorem buf_get_line_correct_witness:
  "\<exists>tot' b'. buf_get_line 200 (demo_buf [[65], [66, 10, 67]]) 4 = Some (tot', b', [65, 66, 10, 0], 3, 1) \<and>
    buf_assert_ok b' \<and> contents b' = [67]"
proof -
  have ok: "buf_ok (demo_buf [[65], [66, 10, 67]])" "buf_allocation (demo_buf [[65], [66, 10, 67]]) \<le> 200"
    "contents (demo_buf [[65], [66, 10, 67]]) = [65, 66] @ 10 # [67]"
    by (simp_all add: demo_buf_ok BUF_MAX_LEN_def)
  have "10 \<notin> set [65, 66 :: byte]" by simp
  with buf_get_line_correct [OF ok(1,2), of 4] ok(3)
  have "if (4 :: nat) < length [65, 66 :: byte] + 2 then buf_get_line 200 (demo_buf [[65], [66, 10, 67]]) 4 = Some (200, demo_buf [[65], [66, 10, 67]], [], length [65, 66 :: byte] + 2, -1)
      else \<exists>tot' b'. buf_get_line 200 (demo_buf [[65], [66, 10, 67]]) 4 = Some (tot', b', [65, 66] @ [10, 0], length [65, 66 :: byte] + 1, 1) \<and>
        buf_assert_ok b' \<and> contents b' = [67]"
    by blast
  then show ?thesis by (simp add: numeral_3_eq_3)
qed

end
