(* ===== verification/Tor_Buffers_Net.thy ===== *)
theory Tor_Buffers_Net
  imports Tor_Buffers_Search
begin

text \<open>
  \<^verbatim>\<open>lib/net/buffers_net.c\<close>: reading from a file descriptor into a buffer and writing from a buffer to
  one.  The descriptor and the system calls are parameters: \<open>recv\<close> stands for \<^verbatim>\<open>tor_socket_recv\<close> or
  \<^verbatim>\<open>read\<close>, \<open>send\<close> for \<^verbatim>\<open>tor_socket_send\<close> or \<^verbatim>\<open>write\<close>, both acting on a state of the other end.
\<close>

datatype recv_result = Recv_data bytes | Recv_eof | Recv_again | Recv_error int
datatype send_result = Sent nat | Send_again | Send_error int

text \<open>What the system calls promise: a successful read returns between one byte and as many as asked for, the next
  ones of the incoming stream; a successful write takes some of the bytes it is given and appends them to the
  outgoing stream; nothing else touches the streams.\<close>

definition recv_ok :: "('s \<Rightarrow> nat \<Rightarrow> recv_result \<times> 's) \<Rightarrow> ('s \<Rightarrow> bytes) \<Rightarrow> bool" where
  "recv_ok recv stream \<longleftrightarrow> (\<forall>s n. case recv s n of
      (Recv_data d, s') \<Rightarrow> d \<noteq> [] \<and> length d \<le> n \<and> stream s = d @ stream s'
    | (_, s') \<Rightarrow> stream s' = stream s)"

definition send_ok :: "('s \<Rightarrow> bytes \<Rightarrow> send_result \<times> 's) \<Rightarrow> ('s \<Rightarrow> bytes) \<Rightarrow> bool" where
  "send_ok send sink \<longleftrightarrow> (\<forall>s d. case send s d of
      (Sent n, s') \<Rightarrow> n \<le> length d \<and> sink s' = sink s @ take n d
    | (_, s') \<Rightarrow> sink s' = sink s)"

definition MIN_READ_LEN :: nat where "MIN_READ_LEN = 8"

text \<open>The results that go through pointers: \<^verbatim>\<open>*reached_eof\<close> and \<^verbatim>\<open>*error\<close>.\<close>

record read_flags =
  reached_eof :: bool
  socket_error :: "int option"

text \<open>\<^verbatim>\<open>read_to_chunk\<close> on the last chunk of the buffer: the new buffer, the returned number, the flags and the descriptor.\<close>

definition read_to_chunk ::
  "('s \<Rightarrow> nat \<Rightarrow> recv_result \<times> 's) \<Rightarrow> 's \<Rightarrow> buf \<Rightarrow> nat \<Rightarrow> read_flags \<Rightarrow> (buf \<times> int \<times> read_flags \<times> 's) option" where
  "read_to_chunk recv fd b at_most flags =
    (let t = last (chunks b);
         at_most = (if at_most > CHUNK_REMAINING_CAPACITY t then CHUNK_REMAINING_CAPACITY t else at_most)
     in case recv fd at_most of
          (Recv_error e, fd) \<Rightarrow> Some (b, -1, flags\<lparr> socket_error := Some e \<rparr>, fd)
        | (Recv_again, fd) \<Rightarrow> Some (b, 0, flags, fd)
        | (Recv_eof, fd) \<Rightarrow> Some (b, 0, flags\<lparr> reached_eof := True \<rparr>, fd)
        | (Recv_data d, fd) \<Rightarrow> do {
            t \<leftarrow> chunk_write t d;
            tor_assert (length d \<le> BUF_MAX_LEN);
            Some (b\<lparr> buf_len := buf_len b + length d, chunks := butlast (chunks b) @ [t] \<rparr>, int (length d), flags, fd) })"

text \<open>The chunk to read into and how much of it: the counter, the buffer and \<^verbatim>\<open>readlen\<close>.\<close>

definition read_room :: "buf_env \<Rightarrow> nat \<Rightarrow> buf \<Rightarrow> nat \<Rightarrow> nat \<Rightarrow> (nat \<times> buf \<times> nat) option" where
  "read_room env tot b at_most readlen =
    (if chunks b = [] \<or> CHUNK_REMAINING_CAPACITY (last (chunks b)) < MIN_READ_LEN
     then do {
       (tot, b) \<leftarrow> buf_add_chunk_with_capacity env tot b at_most True;
       Some (tot, b, if readlen > memlen (last (chunks b)) then memlen (last (chunks b)) else readlen) }
     else let cap = CHUNK_REMAINING_CAPACITY (last (chunks b)) in Some (tot, b, if cap < readlen then cap else readlen))"

partial_function (option) read_loop ::
  "buf_env \<Rightarrow> ('s \<Rightarrow> nat \<Rightarrow> recv_result \<times> 's) \<Rightarrow> 's \<Rightarrow> nat \<Rightarrow> buf \<Rightarrow> nat \<Rightarrow> nat \<Rightarrow> read_flags \<Rightarrow>
   (nat \<times> buf \<times> int \<times> read_flags \<times> 's) option" where
  "read_loop env recv fd tot b at_most total_read flags =
    (if at_most > total_read
     then Option.bind (read_room env tot b at_most (at_most - total_read))
       (\<lambda>(tot, b, readlen). Option.bind (read_to_chunk recv fd b readlen flags)
          (\<lambda>(b, r, flags, fd).
             if r < 0 then Some (tot, b, r, flags, fd)
             else Option.bind (tor_assert (total_read + nat r \<le> BUF_MAX_LEN))
               (\<lambda>_. if nat r < readlen then Some (tot, b, int (total_read + nat r), flags, fd)
                    else read_loop env recv fd tot b at_most (total_read + nat r) flags)))
     else Some (tot, b, int total_read, flags, fd))"

definition buf_read_from_fd ::
  "buf_env \<Rightarrow> ('s \<Rightarrow> nat \<Rightarrow> recv_result \<times> 's) \<Rightarrow> 's \<Rightarrow> nat \<Rightarrow> buf \<Rightarrow> nat \<Rightarrow> read_flags \<Rightarrow>
   (nat \<times> buf \<times> int \<times> read_flags \<times> 's) option" where
  "buf_read_from_fd env recv fd tot b at_most flags =
    (if buf_len b > BUF_MAX_LEN then Some (tot, b, -1, flags, fd)
     else if buf_len b > size_sub BUF_MAX_LEN at_most then Some (tot, b, -1, flags, fd)
     else read_loop env recv fd tot b at_most 0 flags)"

definition flush_chunk ::
  "('s \<Rightarrow> bytes \<Rightarrow> send_result \<times> 's) \<Rightarrow> 's \<Rightarrow> nat \<Rightarrow> buf \<Rightarrow> chunk \<Rightarrow> nat \<Rightarrow> (nat \<times> buf \<times> int \<times> 's) option" where
  "flush_chunk send fd tot b c sz =
    (let sz = (if sz > chunk_datalen c then chunk_datalen c else sz)
     in case send fd (take sz (drop (chunk_data c) (chunk_mem c))) of
          (Send_error e, fd) \<Rightarrow> Some (tot, b, -1, fd)
        | (Send_again, fd) \<Rightarrow> Some (tot, b, 0, fd)
        | (Sent n, fd) \<Rightarrow> do {
            (tot, b) \<leftarrow> buf_drain tot b n;
            tor_assert (n \<le> BUF_MAX_LEN);
            Some (tot, b, int n, fd) })"

function flush_loop ::
  "('s \<Rightarrow> bytes \<Rightarrow> send_result \<times> 's) \<Rightarrow> 's \<Rightarrow> nat \<Rightarrow> buf \<Rightarrow> nat \<Rightarrow> nat \<Rightarrow> (nat \<times> buf \<times> int \<times> 's) option" where
  "flush_loop send fd tot b sz flushed =
    (if sz = 0 then if flushed \<le> BUF_MAX_LEN then Some (tot, b, int flushed, fd) else None
     else case chunks b of
       [] \<Rightarrow> None
     | c # _ \<Rightarrow>
         let flushlen0 = (if chunk_datalen c \<ge> sz then sz else chunk_datalen c)
         in case flush_chunk send fd tot b c flushlen0 of
              None \<Rightarrow> None
            | Some (tot, b, r, fd) \<Rightarrow>
                if r < 0 then Some (tot, b, r, fd)
                else if r = 0 \<or> nat r < flushlen0
                then if flushed + nat r \<le> BUF_MAX_LEN then Some (tot, b, int (flushed + nat r), fd) else None
                else flush_loop send fd tot b (sz - nat r) (flushed + nat r))"
  by pat_completeness auto
termination
  by (relation "measure (\<lambda>(_, _, _, _, sz, _). sz)") auto

declare flush_loop.simps [simp del]

definition buf_flush_to_fd ::
  "('s \<Rightarrow> bytes \<Rightarrow> send_result \<times> 's) \<Rightarrow> 's \<Rightarrow> nat \<Rightarrow> buf \<Rightarrow> nat \<Rightarrow> (nat \<times> buf \<times> int \<times> 's) option" where
  "buf_flush_to_fd send fd tot b sz =
    (let sz = (if sz > buf_len b then buf_len b else sz) in flush_loop send fd tot b sz 0)"

text \<open>The socket and pipe variants differ in the system call only.\<close>

definition buf_flush_to_socket ::
  "('s \<Rightarrow> bytes \<Rightarrow> send_result \<times> 's) \<Rightarrow> nat \<Rightarrow> buf \<Rightarrow> 's \<Rightarrow> nat \<Rightarrow> (nat \<times> buf \<times> int \<times> 's) option" where
  "buf_flush_to_socket send tot b s sz = buf_flush_to_fd send s tot b sz"

definition buf_read_from_socket ::
  "buf_env \<Rightarrow> ('s \<Rightarrow> nat \<Rightarrow> recv_result \<times> 's) \<Rightarrow> nat \<Rightarrow> buf \<Rightarrow> 's \<Rightarrow> nat \<Rightarrow> read_flags \<Rightarrow>
   (nat \<times> buf \<times> int \<times> read_flags \<times> 's) option" where
  "buf_read_from_socket env recv tot b s at_most flags = buf_read_from_fd env recv s tot b at_most flags"

definition buf_flush_to_pipe ::
  "('s \<Rightarrow> bytes \<Rightarrow> send_result \<times> 's) \<Rightarrow> nat \<Rightarrow> buf \<Rightarrow> 's \<Rightarrow> nat \<Rightarrow> (nat \<times> buf \<times> int \<times> 's) option" where
  "buf_flush_to_pipe send tot b fd sz = buf_flush_to_fd send fd tot b sz"

definition buf_read_from_pipe ::
  "buf_env \<Rightarrow> ('s \<Rightarrow> nat \<Rightarrow> recv_result \<times> 's) \<Rightarrow> nat \<Rightarrow> buf \<Rightarrow> 's \<Rightarrow> nat \<Rightarrow> read_flags \<Rightarrow>
   (nat \<times> buf \<times> int \<times> read_flags \<times> 's) option" where
  "buf_read_from_pipe env recv tot b fd at_most flags = buf_read_from_fd env recv fd tot b at_most flags"

section \<open>Flushing\<close>

lemma flush_chunk_ok:
  assumes "send_ok send sink" and "buf_ok b" and "buf_allocation b \<le> tot" and "chunks b = c # cs" and "n \<le> chunk_datalen c"
  obtains tot' b' r fd' where "flush_chunk send fd tot b c n = Some (tot', b', r, fd')" and "r \<le> int n" and "r = -1 \<or> 0 \<le> r"
    and "becomes tot b tot' b' (drop (nat r) (contents b))" and "sink fd' = sink fd @ take (nat r) (contents b)"
proof -
  let ?d = "take n (drop (chunk_data c) (chunk_mem c))"
  have c: "chunk_ok c" "length (chunk_bytes c) = chunk_datalen c" using assms(2,4) by (simp_all add: buf_ok_iff chunk_simps)
  have d: "?d = take n (contents b)" "length ?d = n" "n \<le> length (contents b)"
    using assms(4,5) c by (auto simp: contents_def chunk_bytes_def min_def chunk_ok_def memlen_def)
  have self: "becomes tot b tot b (contents b)" using assms(2) by (simp add: becomes_def)
  have s: "case send fd ?d of (Sent k, s') \<Rightarrow> k \<le> length ?d \<and> sink s' = sink fd @ take k ?d | (_, s') \<Rightarrow> sink s' = sink fd"
    using assms(1) by (simp add: send_ok_def)
  obtain res fd' where res: "send fd ?d = (res, fd')" by fastforce
  show thesis
  proof (cases res)
    case (Sent k)
    then have k: "k \<le> n" "sink fd' = sink fd @ take k ?d" using s res d(2) by simp_all
    obtain tot' b' where dr: "buf_drain tot b k = Some (tot', b')" "becomes tot b tot' b' (drop k (contents b))"
      using buf_drain_ok [OF assms(2) _ assms(3), of k] k(1) d(3) by (metis le_trans)
    have "k \<le> BUF_MAX_LEN" using k(1) d(3) length_buf_contents [OF assms(2)] assms(2) by (simp add: buf_ok_def)
    then have "flush_chunk send fd tot b c n = Some (tot', b', int k, fd')"
      using assms(5) Sent dr(1) res by (simp add: flush_chunk_def)
    then show thesis by (rule that) (use k d(1) dr(2) in simp_all)
  next
    case Send_again
    have "flush_chunk send fd tot b c n = Some (tot, b, 0, fd')" using assms(5) Send_again res by (simp add: flush_chunk_def)
    then show thesis by (rule that) (use s res Send_again self in simp_all)
  next
    case (Send_error e)
    have "flush_chunk send fd tot b c n = Some (tot, b, -1, fd')" using assms(5) Send_error res by (simp add: flush_chunk_def)
    then show thesis by (rule that) (use s res Send_error self in simp_all)
  qed
qed

lemma flush_loop_ok:
  assumes "send_ok send sink" and "buf_ok b" and "buf_allocation b \<le> tot" and "sz \<le> length (contents b)" and "flushed + sz \<le> BUF_MAX_LEN"
  shows "\<exists>tot' b' r fd' k. flush_loop send fd tot b sz flushed = Some (tot', b', r, fd') \<and> k \<le> sz \<and> (r = -1 \<or> r = int (flushed + k)) \<and>
    becomes tot b tot' b' (drop k (contents b)) \<and> sink fd' = sink fd @ take k (contents b)"
  using assms(2-)
proof (induction sz arbitrary: fd tot b flushed rule: less_induct)
  case (less sz)
  show ?case
  proof (cases "sz = 0")
    case True
    then show ?thesis using less.prems by (subst flush_loop.simps) (auto simp: becomes_def)
  next
    case False
    then obtain c cs where ch: "chunks b = c # cs" using less.prems(1,3) by (cases "chunks b") (auto simp: contents_def)
    define m where "m = (if chunk_datalen c \<ge> sz then sz else chunk_datalen c)"
    have m: "m \<le> chunk_datalen c" "m \<le> sz" by (auto simp: m_def)
    obtain tot1 b1 r fd1 where f: "flush_chunk send fd tot b c m = Some (tot1, b1, r, fd1)" and r: "r \<le> int m" "r = -1 \<or> 0 \<le> r"
      and be: "becomes tot b tot1 b1 (drop (nat r) (contents b))" and sink1: "sink fd1 = sink fd @ take (nat r) (contents b)"
      by (rule flush_chunk_ok [OF assms(1) less.prems(1,2) ch m(1)])
    have unfold: "flush_loop send fd tot b sz flushed =
      (if r < 0 then Some (tot1, b1, r, fd1)
       else if r = 0 \<or> nat r < m then if flushed + nat r \<le> BUF_MAX_LEN then Some (tot1, b1, int (flushed + nat r), fd1) else None
       else flush_loop send fd1 tot1 b1 (sz - nat r) (flushed + nat r))"
      using False ch f by (subst flush_loop.simps) (simp add: m_def Let_def)
    have b1: "buf_ok b1" "contents b1 = drop (nat r) (contents b)" "buf_allocation b1 \<le> tot1"
      using be becomes_allocation [OF be, of 0] less.prems(2) by (simp_all add: becomes_def)
    consider "r < 0" | "0 \<le> r" "r = 0 \<or> nat r < m" | "0 < r" "nat r = m" using r by linarith
    then show ?thesis
    proof cases
      case 1
      then show ?thesis using unfold r be sink1 by (intro exI [of _ "0 :: nat"] exI) auto
    next
      case 2
      then show ?thesis using unfold be sink1 m(2) less.prems(4) r(1)
        by (intro exI [of _ tot1] exI [of _ b1] exI [of _ "int (flushed + nat r)"] exI [of _ fd1] exI [of _ "nat r"]) auto
    next
      case 3
      have "sz - nat r < sz" "sz - nat r \<le> length (contents b1)" "flushed + nat r + (sz - nat r) \<le> BUF_MAX_LEN"
        using 3 m(2) less.prems(3,4) b1(2) by auto
      then obtain tot' b' r' fd' k where ih: "flush_loop send fd1 tot1 b1 (sz - nat r) (flushed + nat r) = Some (tot', b', r', fd')"
        "k \<le> sz - nat r" "r' = -1 \<or> r' = int (flushed + nat r + k)" "becomes tot1 b1 tot' b' (drop k (contents b1))"
        "sink fd' = sink fd1 @ take k (contents b1)"
        using less.IH [OF _ b1(1,3)] by blast
      moreover have "take (nat r + k) (contents b) = take (nat r) (contents b) @ take k (contents b1)" by (simp add: take_add b1(2))
      ultimately show ?thesis using 3 unfold sink1 becomes_trans [OF be ih(4)] m(2)
        by (intro exI [of _ "nat r + k"] exI [of _ tot'] exI [of _ b'] exI [of _ r'] exI [of _ fd']) (auto simp: b1(2) add.commute)
    qed
  qed
qed

section \<open>Reading\<close>

lemma read_room_ok:
  assumes "buf_ok b" and "0 < readlen" and "readlen \<le> at_most" and "at_most \<le> BUF_MAX_LEN"
  obtains tot' b' n where "read_room env tot b at_most readlen = Some (tot', b', n)" and "buf_ok b'" and "contents b' = contents b"
    and "tot' + buf_allocation b = tot + buf_allocation b'" and "chunks b' \<noteq> []" and "0 < n" and "n \<le> readlen"
    and "n \<le> CHUNK_REMAINING_CAPACITY (last (chunks b'))"
proof (cases "chunks b = [] \<or> CHUNK_REMAINING_CAPACITY (last (chunks b)) < MIN_READ_LEN")
  case True
  have cap: "0 < at_most" "at_most \<le> SIZE_T_CEILING - CHUNK_OVERHEAD" using assms(2-4) by (simp_all add: chunk_consts)
  obtain tot' c where c: "buf_add_chunk_with_capacity env tot b at_most True = Some (tot', b\<lparr> chunks := chunks b @ [c] \<rparr>)"
    "tot' = tot + CHUNK_ALLOC_SIZE (memlen c)" "chunk_data c = 0" "chunk_datalen c = 0" "0 < memlen c"
    using add_chunk_ok [OF assms(1) cap, of env tot True] by blast
  have "read_room env tot b at_most readlen = Some (tot', b\<lparr> chunks := chunks b @ [c] \<rparr>, min readlen (memlen c))"
    using True c(1) by (auto simp: read_room_def min_def)
  then show ?thesis
    by (rule that)
      (use becomes_add_chunk [OF assms(1) c(3,4)] c(2-5) assms(2) in \<open>simp_all add: CHUNK_REMAINING_CAPACITY_def\<close>)
next
  case False
  then have "read_room env tot b at_most readlen = Some (tot, b, min readlen (CHUNK_REMAINING_CAPACITY (last (chunks b))))"
    by (auto simp: read_room_def Let_def min_def)
  then show ?thesis by (rule that) (use False assms(1,2) in \<open>simp_all add: MIN_READ_LEN_def\<close>)
qed

lemma read_to_chunk_ok:
  assumes "recv_ok recv stream" and "buf_ok b" and "chunks b \<noteq> []" and "n \<le> CHUNK_REMAINING_CAPACITY (last (chunks b))"
    and "length (contents b) + n \<le> BUF_MAX_LEN"
  obtains b' r flags' fd' d where "read_to_chunk recv fd b n flags = Some (b', r, flags', fd')" and "buf_ok b'"
    and "contents b' = contents b @ d" and "stream fd = d @ stream fd'" and "buf_allocation b' = buf_allocation b"
    and "r = -1 \<and> d = [] \<or> r = int (length d)" and "length d \<le> n"
proof -
  obtain cs t where ct: "chunks b = cs @ [t]" using assms(3) by (metis append_butlast_last_id)
  have t: "chunk_ok t" using assms(2) ct by (simp add: buf_ok_iff)
  have law: "case recv fd n of (Recv_data d, s') \<Rightarrow> d \<noteq> [] \<and> length d \<le> n \<and> stream fd = d @ stream s' | (_, s') \<Rightarrow> stream s' = stream fd"
    using assms(1) by (simp add: recv_ok_def)
  obtain res fd' where res: "recv fd n = (res, fd')" by fastforce
  have n: "(if n > CHUNK_REMAINING_CAPACITY t then CHUNK_REMAINING_CAPACITY t else n) = n" using assms(4) ct by simp
  show thesis
  proof (cases res)
    case (Recv_data d)
    then have d: "length d \<le> n" "stream fd = d @ stream fd'" using law res by simp_all
    have "length d \<le> CHUNK_REMAINING_CAPACITY t" using d(1) assms(4) ct by simp
    then obtain t' where w: "chunk_write t d = Some t'" and t': "chunk_ok t'" "chunk_bytes t' = chunk_bytes t @ d"
      "memlen t' = memlen t" "chunk_datalen t' = chunk_datalen t + length d"
      using chunk_write_ok [OF t] by metis
    let ?b = "b\<lparr> buf_len := buf_len b + length d, chunks := cs @ [t'] \<rparr>"
    have len: "buf_len b + length d \<le> BUF_MAX_LEN" using d(1) assms(5) length_buf_contents [OF assms(2)] by simp
    have "becomes 0 b 0 ?b (contents b @ d)" by (rule becomes_write [OF assms(2) ct t' len])
    then have be: "buf_ok ?b" "contents ?b = contents b @ d" "buf_allocation ?b = buf_allocation b" by (simp_all add: becomes_def)
    have "read_to_chunk recv fd b n flags = Some (?b, int (length d), flags, fd')"
      using res Recv_data w len ct n by (simp add: read_to_chunk_def Let_def)
    then show thesis by (rule that) (use be d in simp_all)
  next
    case Recv_eof
    have "read_to_chunk recv fd b n flags = Some (b, 0, flags\<lparr> reached_eof := True \<rparr>, fd')" using res Recv_eof ct n by (simp add: read_to_chunk_def Let_def)
    then show thesis by (rule that [where d = "[]"]) (use law res Recv_eof assms(2) in simp_all)
  next
    case Recv_again
    have "read_to_chunk recv fd b n flags = Some (b, 0, flags, fd')" using res Recv_again ct n by (simp add: read_to_chunk_def Let_def)
    then show thesis by (rule that [where d = "[]"]) (use law res Recv_again assms(2) in simp_all)
  next
    case (Recv_error e)
    have "read_to_chunk recv fd b n flags = Some (b, -1, flags\<lparr> socket_error := Some e \<rparr>, fd')" using res Recv_error ct n by (simp add: read_to_chunk_def Let_def)
    then show thesis by (rule that [where d = "[]"]) (use law res Recv_error assms(2) in simp_all)
  qed
qed

lemma read_loop_ok:
  assumes "recv_ok recv stream" and "buf_ok b" and "total_read \<le> at_most" and "length (contents b) + (at_most - total_read) \<le> BUF_MAX_LEN"
    and "at_most \<le> BUF_MAX_LEN"
  shows "\<exists>tot' b' r flags' fd' d. read_loop env recv fd tot b at_most total_read flags = Some (tot', b', r, flags', fd') \<and> buf_ok b' \<and>
    contents b' = contents b @ d \<and> stream fd = d @ stream fd' \<and> length d \<le> at_most - total_read \<and>
    (r = -1 \<or> r = int (total_read + length d)) \<and> tot' + buf_allocation b = tot + buf_allocation b'"
  using assms(2-)
proof (induction "at_most - total_read" arbitrary: fd tot b total_read flags rule: less_induct)
  case less
  show ?case
  proof (cases "total_read < at_most")
    case False
    then show ?thesis using less.prems by (subst read_loop.simps) (intro exI [of _ "[] :: bytes"] exI, auto)
  next
    case True
    have rl: "0 < at_most - total_read" "at_most - total_read \<le> at_most" using True by simp_all
    obtain tot1 b1 n where room: "read_room env tot b at_most (at_most - total_read) = Some (tot1, b1, n)" and b1: "buf_ok b1"
      "contents b1 = contents b" "tot1 + buf_allocation b = tot + buf_allocation b1" "chunks b1 \<noteq> []" "0 < n" "n \<le> at_most - total_read"
      "n \<le> CHUNK_REMAINING_CAPACITY (last (chunks b1))"
      by (rule read_room_ok [OF less.prems(1) rl less.prems(4)])
    have "length (contents b1) + n \<le> BUF_MAX_LEN" using b1(2,6) less.prems(3) by simp
    then obtain b2 r flags2 fd2 d where rd: "read_to_chunk recv fd b1 n flags = Some (b2, r, flags2, fd2)" and b2: "buf_ok b2"
      "contents b2 = contents b1 @ d" "stream fd = d @ stream fd2" "buf_allocation b2 = buf_allocation b1"
      "r = -1 \<and> d = [] \<or> r = int (length d)" "length d \<le> n"
      by (rule read_to_chunk_ok [OF assms(1) b1(1,4,7)])
    have "total_read + length d \<le> BUF_MAX_LEN" using b2(6) b1(6) less.prems(4) True by linarith
    then have unfold: "read_loop env recv fd tot b at_most total_read flags =
      (if r < 0 then Some (tot1, b2, r, flags2, fd2)
       else if length d < n then Some (tot1, b2, int (total_read + length d), flags2, fd2)
       else read_loop env recv fd2 tot1 b2 at_most (total_read + length d) flags2)"
      using True room rd b2(5) by (subst read_loop.simps) auto
    show ?thesis
    proof (cases "r < 0 \<or> length d < n")
      case True
      then show ?thesis using unfold b1 b2
        by (intro exI [of _ tot1] exI [of _ b2] exI [of _ "if r < 0 then r else int (total_read + length d)"] exI [of _ flags2] exI [of _ fd2] exI [of _ d]) auto
    next
      case False
      then have d: "length d = n" "\<not> r < 0" using b2(6) by auto
      have le: "at_most - (total_read + n) < at_most - total_read" "total_read + n \<le> at_most"
        "length (contents b2) + (at_most - (total_read + n)) \<le> BUF_MAX_LEN"
        using b1(2,5,6) b2(2) d(1) less.prems(2,3) by auto
      obtain tot' b' r' flags' fd' d' where ih: "read_loop env recv fd2 tot1 b2 at_most (total_read + n) flags2 = Some (tot', b', r', flags', fd')"
        "buf_ok b'" "contents b' = contents b2 @ d'" "stream fd2 = d' @ stream fd'" "length d' \<le> at_most - (total_read + n)"
        "r' = -1 \<or> r' = int (total_read + n + length d')" "tot' + buf_allocation b2 = tot1 + buf_allocation b'"
        using less.hyps [OF le(1) b2(1) le(2,3) less.prems(4), of fd2 tot1 flags2] by blast
      have "read_loop env recv fd tot b at_most total_read flags = Some (tot', b', r', flags', fd')"
        using unfold d ih(1) by simp
      moreover have "contents b' = contents b @ d @ d'" "stream fd = (d @ d') @ stream fd'" "length (d @ d') \<le> at_most - total_read"
        "r' = -1 \<or> r' = int (total_read + length (d @ d'))" "tot' + buf_allocation b = tot + buf_allocation b'"
        using ih b1(2,3,6) b2(2-4) d(1) by auto
      ultimately show ?thesis using ih(2) by blast
    qed
  qed
qed

section \<open>Properties\<close>

text \<open>C16: Network input and output neither lose, duplicate nor reorder bytes: after \<^verbatim>\<open>buf_read_from_fd\<close> the buffer
  followed by what the peer still has to deliver is what it was before, at most \<^verbatim>\<open>at_most\<close> bytes were taken and
  the returned number is their count (or \<open>-1\<close> for an error of the descriptor); after \<^verbatim>\<open>buf_flush_to_fd\<close>
  what was sent followed by the buffer is what it was before.  No assertion fails, no block is overrun, however
  the system calls split the data.\<close>

theorem buf_net_preserves_stream:
  assumes "recv_ok recv stream" and "send_ok send sink" and "buf_ok b" and "buf_allocation b \<le> tot"
    and "length (contents b) + at_most \<le> BUF_MAX_LEN"
  shows "(\<exists>tot' b' r flags' fd' d. buf_read_from_fd env recv fd tot b at_most flags = Some (tot', b', r, flags', fd') \<and> buf_assert_ok b' \<and>
      contents b' = contents b @ d \<and> stream fd = d @ stream fd' \<and> length d \<le> at_most \<and> (r = -1 \<or> r = int (length d)) \<and>
      tot' + buf_allocation b = tot + buf_allocation b') \<and>
    (\<exists>tot' b' r fd' k. buf_flush_to_fd send fd tot b sz = Some (tot', b', r, fd') \<and> buf_assert_ok b' \<and> k \<le> min sz (length (contents b)) \<and>
      contents b' = drop k (contents b) \<and> sink fd' = sink fd @ take k (contents b) \<and> (r = -1 \<or> r = int k) \<and>
      tot' + buf_allocation b = tot + buf_allocation b')"
proof
  note len = length_buf_contents [OF assms(3)]
  have guards: "\<not> buf_len b > BUF_MAX_LEN" "\<not> buf_len b > size_sub BUF_MAX_LEN at_most" "at_most \<le> BUF_MAX_LEN"
    using assms(5) len by (auto simp: size_sub_def)
  have "buf_read_from_fd env recv fd tot b at_most flags = read_loop env recv fd tot b at_most 0 flags"
    using guards by (simp add: buf_read_from_fd_def)
  moreover have "length (contents b) + (at_most - 0) \<le> BUF_MAX_LEN" using assms(5) by simp
  ultimately show "\<exists>tot' b' r flags' fd' d. buf_read_from_fd env recv fd tot b at_most flags = Some (tot', b', r, flags', fd') \<and> buf_assert_ok b' \<and>
      contents b' = contents b @ d \<and> stream fd = d @ stream fd' \<and> length d \<le> at_most \<and> (r = -1 \<or> r = int (length d)) \<and>
      tot' + buf_allocation b = tot + buf_allocation b'"
    using read_loop_ok [OF assms(1,3) le0 _ guards(3), of env fd tot flags] unfolding buf_ok_def by simp blast
  let ?sz = "if sz > buf_len b then buf_len b else sz"
  have "?sz \<le> length (contents b)" "0 + ?sz \<le> BUF_MAX_LEN" using len guards(1) by auto
  then obtain tot' b' r fd' k where "flush_loop send fd tot b ?sz 0 = Some (tot', b', r, fd')" "k \<le> ?sz" "r = -1 \<or> r = int (0 + k)"
    "becomes tot b tot' b' (drop k (contents b))" "sink fd' = sink fd @ take k (contents b)"
    using flush_loop_ok [OF assms(2-4)] by blast
  then show "\<exists>tot' b' r fd' k. buf_flush_to_fd send fd tot b sz = Some (tot', b', r, fd') \<and> buf_assert_ok b' \<and> k \<le> min sz (length (contents b)) \<and>
      contents b' = drop k (contents b) \<and> sink fd' = sink fd @ take k (contents b) \<and> (r = -1 \<or> r = int k) \<and>
      tot' + buf_allocation b = tot + buf_allocation b'"
    using len by (intro exI [of _ tot'] exI [of _ b'] exI [of _ r] exI [of _ fd'] exI [of _ k])
      (auto simp: buf_flush_to_fd_def becomes_def buf_ok_def split: if_splits)
qed

text \<open>A descriptor whose state is the list of bytes that wait to be read, and one that collects what is written, a byte at a time.\<close>

definition demo_recv :: "bytes \<Rightarrow> nat \<Rightarrow> recv_result \<times> bytes" where
  "demo_recv s n = (if s = [] \<or> n = 0 then (Recv_again, s) else (Recv_data (take n s), drop n s))"

definition demo_send :: "bytes \<Rightarrow> bytes \<Rightarrow> send_result \<times> bytes" where
  "demo_send s d = (Sent (min 1 (length d)), s @ take 1 d)"

theorem buf_net_preserves_stream_witness:
  "(\<exists>tot' b' r flags' fd' d. buf_read_from_fd demo_env demo_recv [4, 5] 500 (demo_buf [[1, 2], [3]]) 9 \<lparr> reached_eof = False, socket_error = None \<rparr> =
        Some (tot', b', r, flags', fd') \<and> buf_assert_ok b' \<and>
      contents b' = contents (demo_buf [[1, 2], [3]]) @ d \<and> id [4, 5] = d @ id fd' \<and> length d \<le> 9 \<and> (r = -1 \<or> r = int (length d)) \<and>
      tot' + buf_allocation (demo_buf [[1, 2], [3]]) = 500 + buf_allocation b') \<and>
    (\<exists>tot' b' r fd' k. buf_flush_to_fd demo_send [4, 5] 500 (demo_buf [[1, 2], [3]]) 2 = Some (tot', b', r, fd') \<and> buf_assert_ok b' \<and>
      k \<le> min 2 (length (contents (demo_buf [[1, 2], [3]]))) \<and>
      contents b' = drop k (contents (demo_buf [[1, 2], [3]])) \<and> id fd' = id [4, 5] @ take k (contents (demo_buf [[1, 2], [3]])) \<and>
      (r = -1 \<or> r = int k) \<and> tot' + buf_allocation (demo_buf [[1, 2], [3]]) = 500 + buf_allocation b')"
proof (rule buf_net_preserves_stream)
  show "recv_ok demo_recv id" by (simp add: recv_ok_def demo_recv_def)
  show "send_ok demo_send id" by (simp add: send_ok_def demo_send_def min_def)
qed (simp_all add: demo_buf_ok BUF_MAX_LEN_def)

text \<open>C28: After a read that would block, the search can match bytes that were never received.  When the last
  chunk is (nearly) full, \<^verbatim>\<open>buf_read_from_fd\<close> appends a new chunk before it calls \<^verbatim>\<open>recv\<close>; if nothing
  arrives the empty chunk stays, \<^verbatim>\<open>buf_pos_inc\<close> steps onto it as if it held a byte, and
  \<^verbatim>\<open>buf_find_string_offset\<close> compares the needle with the uninitialised memory of that chunk.\<close>

theorem buf_find_string_offset_stale_match:
  assumes "buf_ok b" and "chunks b = [c]" and "CHUNK_REMAINING_CAPACITY c < MIN_READ_LEN" and "chunk_bytes c = pre @ [x]" and "x \<notin> set pre"
    and "0 < at_most" and "length (contents b) + at_most \<le> BUF_MAX_LEN" and "\<And>n. recv fd n = (Recv_again, fd)" and "env_mem env tot 0 = y"
  shows "\<exists>tot' b'. buf_read_from_fd env recv fd tot b at_most flags = Some (tot', b', 0, flags, fd) \<and> buf_assert_ok b' \<and>
    contents b' = pre @ [x] \<and> buf_find_string_offset b' [x, y] = Some (Some (length pre)) \<and> tor_memmem (contents b') [x, y] = Some None"
proof -
  have guards: "\<not> buf_len b > BUF_MAX_LEN" "\<not> buf_len b > size_sub BUF_MAX_LEN at_most" "at_most \<le> BUF_MAX_LEN"
    "0 < at_most" "at_most \<le> SIZE_T_CEILING - CHUNK_OVERHEAD"
    using assms(6,7) length_buf_contents [OF assms(1)] by (auto simp: size_sub_def chunk_consts)
  obtain tot' d where d: "buf_add_chunk_with_capacity env tot b at_most True = Some (tot', b\<lparr> chunks := chunks b @ [d] \<rparr>)"
    "chunk_data d = 0" "chunk_datalen d = 0" "0 < memlen d" "chunk_mem d ! 0 = env_mem env tot 0"
    using add_chunk_ok [OF assms(1) guards(4,5), of env tot True] by blast
  let ?b = "b\<lparr> chunks := [c, d] \<rparr>"
  have room: "read_room env tot b at_most (at_most - 0) = Some (tot', ?b, min at_most (memlen d))"
    using d(1) assms(2,3) by (auto simp: read_room_def min_def)
  have "read_to_chunk recv fd ?b (min at_most (memlen d)) flags = Some (?b, 0, flags, fd)"
    using assms(8) by (simp add: read_to_chunk_def Let_def)
  then have read: "buf_read_from_fd env recv fd tot b at_most flags = Some (tot', ?b, 0, flags, fd)"
    using guards(1,2,4) room d(4) by (simp add: buf_read_from_fd_def read_loop.simps [of env recv fd tot b])
  have c: "chunk_ok c" "length (chunk_bytes c) = chunk_datalen c" "chunk_datalen c = Suc (length pre)"
    using assms(1,2,4) length_chunk_bytes [of c] by (simp_all add: buf_ok_iff)
  have ok: "buf_ok ?b" "contents ?b = pre @ [x]"
    using becomes_add_chunk [OF assms(1) d(2,3)] assms(2,4) by (simp_all add: contents_def)
  have lt: "length pre < BUF_MAX_LEN" using assms(1,2) c(3) by (simp add: buf_ok_iff)
  have "memchr (take (chunk_datalen c) (drop (chunk_data c) (chunk_mem c))) x = Some (length pre)"
    using assms(4,5) memchr_split [of x pre "[]"] by (simp add: chunk_bytes_def)
  then have find: "buf_find_pos_of_char x (buf_pos_init ?b) = Some (Some \<lparr> pos_chunk = [c, d], pos_pos = length pre, pos_chunk_pos = 0 \<rparr>)"
    using c(3) lt by (simp add: buf_find_pos_of_char_def buf_pos_init_def)
  have "chunk_bytes c ! length pre = chunk_mem c ! (chunk_data c + length pre)" using c by (simp add: chunk_bytes_def chunk_ok_def memlen_def)
  then have "chunk_read c (length pre) = Some x" "chunk_read d 0 = Some y"
    using c assms(4,9) d(2,4,5) by (simp_all add: chunk_read_def Let_def chunk_ok_def memlen_def nth_append)
  then have "buf_matches_at_pos \<lparr> pos_chunk = [c, d], pos_pos = length pre, pos_chunk_pos = 0 \<rparr> [x, y] = Some True"
    using c(3) lt by (simp add: buf_matches_at_pos_def buf_pos_inc_def)
  then have "buf_find_string_offset ?b [x, y] = Some (Some (length pre))"
    using find lt by (simp add: buf_find_string_offset_def find_string_loop.simps [of "[x, y]"])
  moreover have "tor_memmem (contents ?b) [x, y] = Some None"
  proof -
    obtain r where r: "tor_memmem (contents ?b) [x, y] = Some r" "first_from [x, y] (contents ?b) 0 r"
      using tor_memmem_first_from [of "[x, y]" "contents ?b"] by auto
    have "\<not> occurs_at [x, y] (pre @ [x]) q" for q
    proof
      assume o: "occurs_at [x, y] (pre @ [x]) q"
      then have "(pre @ [x]) ! q = x" "q < length pre" using occurs_at_hd [OF o] by (simp_all add: occurs_at_def)
      then show False using assms(5) by (simp add: nth_append) (metis nth_mem)
    qed
    then show ?thesis using r ok(2) by (cases r) (auto simp: first_from_def)
  qed
  ultimately show ?thesis using read ok by (auto simp: buf_ok_def)
qed

theorem buf_find_string_offset_stale_match_witness:
  "\<exists>tot' b'. buf_read_from_fd demo_env (\<lambda>fd _. (Recv_again, fd)) () 0 (demo_buf [[97, 98]]) 100 \<lparr> reached_eof = False, socket_error = None \<rparr> =
      Some (tot', b', 0, \<lparr> reached_eof = False, socket_error = None \<rparr>, ()) \<and> buf_assert_ok b' \<and>
    contents b' = [97] @ [98] \<and> buf_find_string_offset b' [98, 99] = Some (Some (length [97 :: byte])) \<and> tor_memmem (contents b') [98, 99] = Some None"
proof (rule buf_find_string_offset_stale_match)
  show "chunks (demo_buf [[97, 98]]) = [demo_chunk [97, 98]]" by (simp add: demo_buf_def)
  show "CHUNK_REMAINING_CAPACITY (demo_chunk [97, 98]) < MIN_READ_LEN"
    by (simp add: demo_chunk_def CHUNK_REMAINING_CAPACITY_def MIN_READ_LEN_def memlen_def)
  show "chunk_bytes (demo_chunk [97, 98]) = [97] @ [98]" by (simp add: demo_chunk_def chunk_bytes_def)
qed (simp_all add: demo_buf_ok BUF_MAX_LEN_def demo_env_def)

end
