(* ===== verification/Tor_Protover.thy ===== *)
theory Tor_Protover
  imports Tor_Parse_Int Tor_Smartlist Tor_Smartlist_Ops "HOL-Library.List_Lexorder"
begin

text \<open>
  \<^verbatim>\<open>core/or/protover.c\<close>: lists of subprotocol versions (\<^verbatim>\<open>"Link=3-5 Relay=1,3"\<close>).  An entry is a name and a
  64-bit mask of versions; this theory has the parser, the printer, the vote of the directory authorities and the
  check of a consensus list against what this relay supports.

  A pointer into a NUL-terminated string is the rest of the string from there; an end pointer is its distance.
  \<open>None\<close> for the results of the parsers is \<^verbatim>\<open>NULL\<close> or \<open>-1\<close>; in the results of \<open>trailing_zeros\<close>, the shifts and
  the printers it marks behaviour that C leaves undefined, or a failed assertion.
\<close>

section \<open>Model\<close>

datatype protocol_type = PRT_LINK | PRT_LINKAUTH | PRT_RELAY | PRT_DIRCACHE | PRT_HSDIR | PRT_HSINTRO | PRT_HSREND
  | PRT_DESC | PRT_MICRODESC | PRT_CONS | PRT_PADDING | PRT_FLOWCTRL | PRT_CONFLUX

record proto_entry =
  proto_name :: bytes
  bitmask :: "64 word"

definition PROTOCOL_NAMES :: "(protocol_type \<times> bytes) list" where
  "PROTOCOL_NAMES =
    [(PRT_LINK, lit ''Link''), (PRT_LINKAUTH, lit ''LinkAuth''), (PRT_RELAY, lit ''Relay''), (PRT_DIRCACHE, lit ''DirCache''),
     (PRT_HSDIR, lit ''HSDir''), (PRT_HSINTRO, lit ''HSIntro''), (PRT_HSREND, lit ''HSRend''), (PRT_DESC, lit ''Desc''),
     (PRT_MICRODESC, lit ''Microdesc''), (PRT_PADDING, lit ''Padding''), (PRT_CONS, lit ''Cons''), (PRT_FLOWCTRL, lit ''FlowCtrl''),
     (PRT_CONFLUX, lit ''Conflux'')]"

definition MAX_PROTOCOL_NAME_LENGTH :: nat where "MAX_PROTOCOL_NAME_LENGTH = 100"
definition MAX_PROTOCOL_VERSION :: nat where "MAX_PROTOCOL_VERSION = 63"

definition protocol_type_to_str :: "protocol_type \<Rightarrow> bytes" where
  "protocol_type_to_str pr = (case find (\<lambda>e. fst e = pr) PROTOCOL_NAMES of Some e \<Rightarrow> snd e | None \<Rightarrow> lit ''UNKNOWN'')"

text \<open>The character at a pointer.\<close>

definition char_at :: "bytes \<Rightarrow> byte" where
  "char_at s = (case s of [] \<Rightarrow> 0 | c # _ \<Rightarrow> c)"

definition parse_version_range :: "bytes \<Rightarrow> nat \<Rightarrow> (nat \<times> nat) option" where
  "parse_version_range s end_of_range =
    (if \<not> TOR_ISDIGIT (char_at s) then None
     else case tor_parse_ulong s 10 0 (int MAX_PROTOCOL_VERSION) True of
       (low, ok, Some nxt) \<Rightarrow>
         if \<not> ok then None
         else if length s - length nxt > end_of_range then None
         else if length s - length nxt = end_of_range then Some (nat low, nat low)
         else if char_at nxt \<noteq> 45 then None
         else if \<not> TOR_ISDIGIT (char_at (tl nxt)) then None
         else (case tor_parse_ulong (tl nxt) 10 0 (int MAX_PROTOCOL_VERSION) True of
                 (high, ok, Some nxt2) \<Rightarrow>
                   if \<not> ok then None
                   else if length s - length nxt2 \<noteq> end_of_range then None
                   else if low > high then None
                   else Some (nat low, nat high)
               | (_, _, None) \<Rightarrow> None)
     | (_, _, None) \<Rightarrow> None)"

definition is_valid_keyword :: "bytes \<Rightarrow> nat \<Rightarrow> bool" where
  "is_valid_keyword s n = list_all (\<lambda>c. TOR_ISALNUM c \<or> c = 45) (take n s)"

text \<open>Shifts of \<^verbatim>\<open>uint64_t\<close> values; a shift by 64 or more is undefined.\<close>

definition shl64 :: "64 word \<Rightarrow> nat \<Rightarrow> 64 word option" where
  "shl64 w n = (if n < 64 then Some (push_bit n w) else None)"

definition shr64 :: "64 word \<Rightarrow> nat \<Rightarrow> 64 word option" where
  "shr64 w n = (if n < 64 then Some (drop_bit n w) else None)"

definition bitmask_for_range :: "nat \<Rightarrow> nat \<Rightarrow> 64 word option" where
  "bitmask_for_range low high = do {
     m \<leftarrow> shl64 (NOT 0) (63 - high);
     m \<leftarrow> shr64 m (63 - high + low);
     shl64 m low }"

text \<open>A number that starts with a digit: no sign, no white space, no prefix.\<close>

lemma digit_iff: "is_digit_of 10 c \<longleftrightarrow> TOR_ISDIGIT c"
  by (auto simp: digit_ranges TOR_ISDIGIT_iff)

lemma parse_ulong_digits:
  assumes "TOR_ISDIGIT (char_at s)" and "0 \<le> mx" and "mx \<le> ULONG_MAX"
  shows "tor_parse_ulong s 10 0 mx True =
    (let v = int (digits_value 10 (takeWhile TOR_ISDIGIT s)); nxt = dropWhile TOR_ISDIGIT s
     in if v \<le> mx then (v, True, Some nxt) else (0, False, Some nxt))"
proof -
  obtain c r where s: "s = c # r" "TOR_ISDIGIT c" using assms(1) by (cases s) (auto simp: char_at_def TOR_ISDIGIT_iff)
  have d: "is_digit_of 10 = TOR_ISDIGIT" using digit_iff by blast
  have "strto_sign s = (False, s)" using s digit_not_space_sign [of c] by (simp add: strto_sign_def digit_iff)
  then have "strto_scan s 10 = Some (False, digits_value 10 (takeWhile TOR_ISDIGIT s), dropWhile TOR_ISDIGIT s)"
    using s by (simp add: strto_scan_def strto_base_def Let_def d)
  moreover have "dropWhile TOR_ISDIGIT s \<noteq> s" using s length_dropWhile_le [of TOR_ISDIGIT r] by auto
  ultimately show ?thesis using assms(2,3)
    by (simp add: tor_parse_ulong_def strtoul_def CHECK_STRTOX_RESULT_def Let_def)
qed

lemmas parse_version_digits = parse_ulong_digits [where mx = "int MAX_PROTOCOL_VERSION", unfolded MAX_PROTOCOL_VERSION_def, simplified]

lemma length_digits: "length s - length (dropWhile P s) = length (takeWhile P s)"
  by (metis add_diff_cancel_right' length_append takeWhile_dropWhile_id)

lemma parse_version_range_pos: "parse_version_range s n = Some r \<Longrightarrow> 0 < n"
proof -
  assume r: "parse_version_range s n = Some r"
  then have d: "TOR_ISDIGIT (char_at s)" by (auto simp: parse_version_range_def split: if_splits)
  then have "0 < length (takeWhile TOR_ISDIGIT s)" by (cases s) (auto simp: char_at_def TOR_ISDIGIT_iff)
  then show ?thesis using r d
    by (simp add: parse_version_range_def MAX_PROTOCOL_VERSION_def parse_version_digits [OF d] Let_def length_digits split: if_splits) auto
qed

function ranges_loop :: "bytes \<Rightarrow> nat \<Rightarrow> 64 word \<Rightarrow> 64 word option" where
  "ranges_loop s n m =
    (if n = 0 then Some m
     else let comma = (case memchr (take n s) 44 of None \<Rightarrow> n | Some i \<Rightarrow> i)
          in case parse_version_range s comma of
               None \<Rightarrow> None
             | Some (low, high) \<Rightarrow>
                 (case bitmask_for_range low high of
                    None \<Rightarrow> None
                  | Some r \<Rightarrow>
                      let s = drop comma s; n = n - comma
                      in if n > 1 then ranges_loop (tl s) (n - 1) (m OR r) else ranges_loop s n (m OR r)))"
  by pat_completeness auto
termination
  by (relation "measure (\<lambda>(_, n, _). n)") (auto dest!: parse_version_range_pos)

declare ranges_loop.simps [simp del]

definition parse_single_entry :: "bytes \<Rightarrow> nat \<Rightarrow> proto_entry option" where
  "parse_single_entry s end_of_entry =
    (case memchr (take end_of_entry s) 61 of
       None \<Rightarrow> None
     | Some equals \<Rightarrow>
         if equals = 0 then None
         else if equals > MAX_PROTOCOL_NAME_LENGTH then None
         else if \<not> is_valid_keyword s equals then None
         else map_option (\<lambda>m. \<lparr> proto_name = take equals s, bitmask = m \<rparr>)
                (ranges_loop (drop (equals + 1) s) (end_of_entry - (equals + 1)) 0))"

lemma parse_single_entry_pos: "parse_single_entry s n = Some e \<Longrightarrow> 0 < n \<and> s \<noteq> []"
  by (auto simp: parse_single_entry_def split: option.splits if_splits) (auto intro: gr0I)

function parse_protocol_list :: "bytes \<Rightarrow> proto_entry list option" where
  "parse_protocol_list s =
    (if s = [] then Some []
     else let end_of_entry = (case memchr s 32 of None \<Rightarrow> length s | Some i \<Rightarrow> i)
          in case parse_single_entry s end_of_entry of
               None \<Rightarrow> None
             | Some entry \<Rightarrow> map_option (\<lambda>es. entry # es) (parse_protocol_list (dropWhile (\<lambda>c. c = 32) (drop end_of_entry s))))"
  by pat_completeness auto
termination
proof (relation "measure length")
  fix s :: bytes and n e
  assume "parse_single_entry s n = Some e"
  then have "0 < n" "s \<noteq> []" using parse_single_entry_pos by blast+
  then have "length (drop n s) < length s" by (cases s) simp_all
  then show "(dropWhile (\<lambda>c. c = 32) (drop n s), s) \<in> measure length"
    using length_dropWhile_le [of "\<lambda>c. c = 32" "drop n s"] by simp
qed simp

declare parse_protocol_list.simps [simp del]

definition protover_list_is_invalid :: "bytes \<Rightarrow> bool" where
  "protover_list_is_invalid s = (parse_protocol_list s = None)"

definition find_entry_by_name :: "proto_entry list option \<Rightarrow> bytes \<Rightarrow> proto_entry option" where
  "find_entry_by_name protos name =
    (case protos of None \<Rightarrow> None | Some es \<Rightarrow> find (\<lambda>ent. strcmp (proto_name ent) name = 0) es)"

definition protocol_list_contains :: "proto_entry list option \<Rightarrow> protocol_type \<Rightarrow> nat \<Rightarrow> bool" where
  "protocol_list_contains protos pr ver =
    (if protos = None then False
     else if ver > MAX_PROTOCOL_VERSION then False
     else case find_entry_by_name protos (protocol_type_to_str pr) of
            Some ent \<Rightarrow> bitmask ent AND push_bit ver 1 \<noteq> 0
          | None \<Rightarrow> False)"

definition protocol_list_supports_protocol :: "bytes \<Rightarrow> protocol_type \<Rightarrow> nat \<Rightarrow> bool" where
  "protocol_list_supports_protocol l tp version =
    (case parse_protocol_list l of None \<Rightarrow> False | Some protocols \<Rightarrow> protocol_list_contains (Some protocols) tp version)"

definition protocol_list_supports_protocol_or_later :: "bytes \<Rightarrow> protocol_type \<Rightarrow> nat \<Rightarrow> bool option" where
  "protocol_list_supports_protocol_or_later l tp version =
    (case parse_protocol_list l of
       None \<Rightarrow> Some False
     | Some protocols \<Rightarrow> do {
         mask \<leftarrow> bitmask_for_range version 63;
         Some (list_ex (\<lambda>proto. strcasecmp (proto_name proto) (protocol_type_to_str tp) = 0 \<and> bitmask proto AND mask \<noteq> 0) protocols) })"

fun protover_get_supported :: "protocol_type \<Rightarrow> bytes" where
  "protover_get_supported PRT_CONFLUX = lit ''1''"
| "protover_get_supported PRT_CONS = lit ''1-2''"
| "protover_get_supported PRT_DESC = lit ''1-4''"
| "protover_get_supported PRT_DIRCACHE = lit ''2''"
| "protover_get_supported PRT_FLOWCTRL = lit ''1-2''"
| "protover_get_supported PRT_HSDIR = lit ''2''"
| "protover_get_supported PRT_HSINTRO = lit ''4-5''"
| "protover_get_supported PRT_HSREND = lit ''1-2''"
| "protover_get_supported PRT_LINK = lit ''3-5''"
| "protover_get_supported PRT_LINKAUTH = lit ''3''"
| "protover_get_supported PRT_MICRODESC = lit ''1-3''"
| "protover_get_supported PRT_PADDING = lit ''2''"
| "protover_get_supported PRT_RELAY = lit ''2-6''"

definition protover_get_supported_protocols :: bytes where
  "protover_get_supported_protocols =
    lit ''Conflux='' @ protover_get_supported PRT_CONFLUX @ lit '' '' @
    lit ''Cons='' @ protover_get_supported PRT_CONS @ lit '' '' @
    lit ''Desc='' @ protover_get_supported PRT_DESC @ lit '' '' @
    lit ''DirCache='' @ protover_get_supported PRT_DIRCACHE @ lit '' '' @
    lit ''FlowCtrl='' @ protover_get_supported PRT_FLOWCTRL @ lit '' '' @
    lit ''HSDir='' @ protover_get_supported PRT_HSDIR @ lit '' '' @
    lit ''HSIntro='' @ protover_get_supported PRT_HSINTRO @ lit '' '' @
    lit ''HSRend='' @ protover_get_supported PRT_HSREND @ lit '' '' @
    lit ''Link='' @ protover_get_supported PRT_LINK @ lit '' '' @
    lit ''LinkAuth='' @ protover_get_supported PRT_LINKAUTH @ lit '' '' @
    lit ''Microdesc='' @ protover_get_supported PRT_MICRODESC @ lit '' '' @
    lit ''Padding='' @ protover_get_supported PRT_PADDING @ lit '' '' @
    lit ''Relay='' @ protover_get_supported PRT_RELAY"

definition protover_get_recommended_client_protocols :: bytes where
  "protover_get_recommended_client_protocols =
    lit ''Cons=2 Desc=2 DirCache=2 FlowCtrl=1-2 HSDir=2 HSIntro=4 HSRend=2 '' @ lit ''Link=4-5 Microdesc=2 Relay=2-4''"

definition protover_get_recommended_relay_protocols :: bytes where
  "protover_get_recommended_relay_protocols =
    lit ''Cons=2 Desc=2 DirCache=2 FlowCtrl=1-2 HSDir=2 HSIntro=4-5 HSRend=2 '' @ lit ''Link=4-5 LinkAuth=3 Microdesc=2 Relay=2-4''"

definition protover_get_required_client_protocols :: bytes where
  "protover_get_required_client_protocols = lit ''Cons=2 Desc=2 FlowCtrl=1 Link=4 Microdesc=2 Relay=2''"

definition protover_get_required_relay_protocols :: bytes where
  "protover_get_required_relay_protocols =
    lit ''Cons=2 Desc=2 DirCache=2 FlowCtrl=1-2 HSDir=2 HSIntro=4-5 HSRend=2 '' @ lit ''Link=4-5 LinkAuth=3 Microdesc=2 Relay=2-4''"

text \<open>The static \<^verbatim>\<open>supported_protocol_list\<close> is filled on first use: the result is its new value, which is also what is returned.\<close>

definition get_supported_protocol_list :: "proto_entry list option \<Rightarrow> proto_entry list option" where
  "get_supported_protocol_list cache =
    (case cache of None \<Rightarrow> parse_protocol_list protover_get_supported_protocols | Some l \<Rightarrow> Some l)"

definition protover_is_supported_here :: "proto_entry list option \<Rightarrow> protocol_type \<Rightarrow> nat \<Rightarrow> proto_entry list option \<times> bool" where
  "protover_is_supported_here cache pr ver =
    (let ours = get_supported_protocol_list cache in (ours, protocol_list_contains ours pr ver))"

definition protover_free_all :: "proto_entry list option \<Rightarrow> proto_entry list option" where
  "protover_free_all cache = None"

text \<open>\<^verbatim>\<open>__builtin_ctzll\<close>, undefined for 0.\<close>

definition trailing_zeros :: "64 word \<Rightarrow> nat option" where
  "trailing_zeros x = find (\<lambda>i. bit x i) [0..<64]"

lemma trailing_zeros_Some: "trailing_zeros x = Some z \<longleftrightarrow> z < 64 \<and> bit x z \<and> (\<forall>i < z. \<not> bit x i)"
  by (auto simp: trailing_zeros_def find_Some_iff)

lemma trailing_zeros_None: "trailing_zeros x = None \<longleftrightarrow> x = 0"
proof -
  have "trailing_zeros x = None \<longleftrightarrow> (\<forall>i < 64. \<not> bit x i)" by (auto simp: trailing_zeros_def find_None_iff)
  also have "\<dots> \<longleftrightarrow> x = 0" by (auto intro: bit_word_eqI)
  finally show ?thesis .
qed

text \<open>One step of the printing loop: the range that starts at the lowest set bit, and the mask above it.\<close>

lemma drop_bits_less:
  fixes m :: "64 word"
  assumes "trailing_zeros m = Some z" and "trailing_zeros (NOT (drop_bit z m)) = Some k"
  shows "unat (drop_bit k (drop_bit z m)) < unat m"
proof -
  have z: "bit m z" "z < 64" using assms(1) by (simp_all add: trailing_zeros_Some)
  have k: "\<not> bit (drop_bit z m) k" "k < 64" using assms(2) by (simp_all add: trailing_zeros_Some bit_not_iff)
  then have "0 < k" using z by (cases k) (simp_all add: bit_drop_bit_eq)
  have "m \<noteq> 0" using z by auto
  then have "0 < unat m" by (simp add: unat_gt_0)
  have "unat (drop_bit k (drop_bit z m)) = unat m div 2 ^ (k + z)" by (simp add: word_nat_simps drop_bit_drop_bit)
  also have "\<dots> < unat m" using \<open>0 < k\<close> \<open>0 < unat m\<close> one_less_power [of "2 :: nat" "k + z"] by (intro div_less_dividend) auto
  finally show ?thesis .
qed

function encode_loop :: "64 word \<Rightarrow> nat \<Rightarrow> bool \<Rightarrow> bytes list option" where
  "encode_loop m shift first =
    (if m = 0 then Some []
     else case trailing_zeros m of
       None \<Rightarrow> None
     | Some zeros \<Rightarrow>
         let comma = (if first then [] else lit '',''); m = drop_bit zeros m; shift = shift + zeros
         in if m = 0 then Some [comma @ decimal shift @ lit ''-'' @ decimal (shift + 64 - 1)]
            else case trailing_zeros (NOT m) of
                   None \<Rightarrow> None
                 | Some ones \<Rightarrow>
                     let c = (if ones = 1 then comma @ decimal shift else comma @ decimal shift @ lit ''-'' @ decimal (shift + ones - 1))
                     in map_option (\<lambda>cs. c # cs) (encode_loop (drop_bit ones m) (shift + ones) False))"
  by pat_completeness auto
termination
  by (relation "measure (\<lambda>(m, _, _). unat m)") (auto dest: drop_bits_less)

declare encode_loop.simps [simp del]

definition proto_entry_encode_into :: "bytes list \<Rightarrow> proto_entry \<Rightarrow> bytes list option" where
  "proto_entry_encode_into chunks entry =
    map_option (\<lambda>cs. chunks @ [proto_name entry @ lit ''=''] @ cs) (encode_loop (bitmask entry) 0 True)"

fun encode_entries :: "bytes list \<Rightarrow> bytes \<Rightarrow> proto_entry list \<Rightarrow> bytes list option" where
  "encode_entries chunks separator [] = Some chunks"
| "encode_entries chunks separator (ent # sl) = do {
     chunks \<leftarrow> proto_entry_encode_into (chunks @ [separator]) ent;
     encode_entries chunks (lit '' '') sl }"

definition encode_protocol_list :: "(nat \<Rightarrow> bytes) \<Rightarrow> proto_entry list \<Rightarrow> bytes option" where
  "encode_protocol_list fresh sl =
    map_option (\<lambda>chunks. c_str (fst (smartlist_join_strings fresh chunks [] False))) (encode_entries [] [] sl)"

fun collect_names :: "bytes list \<Rightarrow> proto_entry list \<Rightarrow> bytes list" where
  "collect_names names [] = names"
| "collect_names names (ent # es) =
    collect_names (if list_ex (\<lambda>n. strcmp n (proto_name ent) = 0) names then names else names @ [proto_name ent]) es"

fun parse_votes :: "bytes list \<Rightarrow> proto_entry list list \<Rightarrow> bytes list \<Rightarrow> proto_entry list list \<times> bytes list" where
  "parse_votes [] parsed names = (parsed, names)"
| "parse_votes (vote # votes) parsed names =
    (case parse_protocol_list vote of
       None \<Rightarrow> parse_votes votes parsed names
     | Some unexpanded \<Rightarrow> parse_votes votes (parsed @ [unexpanded]) (collect_names names unexpanded))"

text \<open>The \<^verbatim>\<open>uint8_t counts[64]\<close> of one protocol, and the versions that reach the threshold.\<close>

definition count_entry :: "byte list \<Rightarrow> proto_entry \<Rightarrow> byte list" where
  "count_entry counts ent = map (\<lambda>i. if bitmask ent AND push_bit i 1 \<noteq> 0 then counts ! i + 1 else counts ! i) [0..<64]"

definition count_name :: "proto_entry list list \<Rightarrow> bytes \<Rightarrow> byte list" where
  "count_name parsed name =
    foldl (\<lambda>counts vote. case find_entry_by_name (Some vote) name of None \<Rightarrow> counts | Some ent \<Rightarrow> count_entry counts ent)
      (replicate 64 0) parsed"

definition result_bitmask :: "byte list \<Rightarrow> int \<Rightarrow> 64 word" where
  "result_bitmask counts threshold = foldl (\<lambda>m i. if uint (counts ! i) \<ge> threshold then m OR push_bit i 1 else m) 0 [0..<64]"

definition protover_compute_vote ::
  "(nat \<Rightarrow> bytes) \<Rightarrow> ((bytes \<Rightarrow> bytes \<Rightarrow> int) \<Rightarrow> bytes list \<Rightarrow> bytes list) \<Rightarrow> bytes list \<Rightarrow> int \<Rightarrow> bytes option" where
  "protover_compute_vote fresh qsort list_of_proto_strings threshold = do {
     tor_assert (length list_of_proto_strings < 256);
     if length list_of_proto_strings = 0 then Some []
     else let (parsed, names) = parse_votes list_of_proto_strings [] [];
              names = smartlist_sort_strings qsort names;
              entries = map (\<lambda>name. \<lparr> proto_name = name, bitmask = result_bitmask (count_name parsed name) threshold \<rparr>) names
          in encode_protocol_list fresh (filter (\<lambda>ent. bitmask ent \<noteq> 0) entries) }"

definition missing_entry :: "proto_entry list option \<Rightarrow> proto_entry \<Rightarrow> proto_entry option" where
  "missing_entry supported ent =
    (case find_entry_by_name supported (proto_name ent) of
       None \<Rightarrow> if bitmask ent \<noteq> 0 then Some \<lparr> proto_name = proto_name ent, bitmask = bitmask ent \<rparr> else None
     | Some mine \<Rightarrow>
         let missing_mask = bitmask ent AND NOT (bitmask mine)
         in if missing_mask \<noteq> 0 then Some \<lparr> proto_name = proto_name ent, bitmask = missing_mask \<rparr> else None)"

text \<open>The new cache, the returned truth value, and what is stored through \<^verbatim>\<open>missing_out\<close> when that is not \<^verbatim>\<open>NULL\<close>.\<close>

definition protover_all_supported ::
  "(nat \<Rightarrow> bytes) \<Rightarrow> proto_entry list option \<Rightarrow> bytes option \<Rightarrow> bool \<Rightarrow> (proto_entry list option \<times> bool \<times> bytes option) option" where
  "protover_all_supported fresh cache s want_missing =
    (case s of
       None \<Rightarrow> Some (cache, True, None)
     | Some s \<Rightarrow>
         (case parse_protocol_list s of
            None \<Rightarrow> Some (cache, True, None)
          | Some entries \<Rightarrow>
              let supported = get_supported_protocol_list cache;
                  missing = List.map_filter (missing_entry supported) entries
              in if missing \<noteq> [] \<and> want_missing
                 then map_option (\<lambda>m. (supported, False, Some m)) (encode_protocol_list fresh missing)
                 else Some (supported, missing = [], None)))"

section \<open>Masks\<close>

lemma word_bit_mask: "k < LENGTH('a) \<Longrightarrow> (w AND push_bit k 1 :: 'a :: len word) \<noteq> 0 \<longleftrightarrow> bit w k"
proof -
  assume k: "k < LENGTH('a)"
  have "bit (w AND push_bit k 1) i \<longleftrightarrow> i = k \<and> bit w k" for i using k by (auto simp: bit_simps)
  moreover have "x = 0 \<longleftrightarrow> (\<forall>i. \<not> bit x i)" for x :: "'a word" by (auto intro: bit_word_eqI)
  ultimately show ?thesis by blast
qed

lemma word_eq_0_bits: "x = 0 \<longleftrightarrow> (\<forall>i. \<not> bit x i)" for x :: "'a :: len word"
  by (auto intro: bit_word_eqI)

lemma word_not_eq_0_bits: "NOT x = 0 \<longleftrightarrow> (\<forall>i < LENGTH('a). bit x i)" for x :: "'a :: len word"
  by (auto simp: word_eq_0_bits bit_not_iff dest: bit_imp_le_length)

text \<open>The versions of a mask.\<close>

definition versions :: "64 word \<Rightarrow> nat set" where
  "versions m = {i. bit m i}"

lemma versions_less: "i \<in> versions m \<Longrightarrow> i < 64"
  by (auto simp: versions_def dest: bit_imp_le_length)

lemma versions_inject: "versions a = versions b \<longleftrightarrow> a = b"
  by (auto simp: versions_def set_eq_iff intro: bit_word_eqI)

lemma versions_ops:
  "versions 0 = {}" "versions (a OR b) = versions a \<union> versions b" "versions (a AND NOT b) = versions a - versions b"
  by (auto simp: versions_def bit_simps dest: bit_imp_le_length)

lemma versions_bit: "k < 64 \<Longrightarrow> versions (push_bit k 1) = {k}"
  by (auto simp: versions_def bit_simps)

lemma bitmask_for_range_ok:
  assumes "low \<le> high" and "high \<le> 63"
  obtains m where "bitmask_for_range low high = Some m" and "versions m = {low..high}"
proof -
  let ?m = "push_bit low (drop_bit (63 - high + low) (push_bit (63 - high) (NOT 0 :: 64 word)))"
  have "63 - high < 64" "63 - high + low < 64" "low < 64" using assms by linarith+
  then have "bitmask_for_range low high = Some ?m" by (simp add: bitmask_for_range_def shl64_def shr64_def)
  moreover have "versions ?m = {low..high}" using assms by (auto simp: versions_def bit_simps)
  ultimately show thesis by (rule that)
qed

section \<open>Printing and parsing\<close>

text \<open>The text of a range, of a list of ranges, of an entry and of a list of entries.\<close>

definition range_text :: "nat \<times> nat \<Rightarrow> bytes" where
  "range_text r = (if fst r = snd r then decimal (fst r) else decimal (fst r) @ 45 # decimal (snd r))"

fun ranges_text :: "bool \<Rightarrow> (nat \<times> nat) list \<Rightarrow> bytes" where
  "ranges_text first [] = []"
| "ranges_text first (r # rs) = (if first then [] else [44]) @ range_text r @ ranges_text False rs"

definition ranges_ok :: "(nat \<times> nat) list \<Rightarrow> bool" where
  "ranges_ok rs = list_all (\<lambda>(lo, hi). lo \<le> hi \<and> hi \<le> 63) rs"

lemma encode_loop_ok:
  assumes "m = drop_bit shift M" and "NOT M \<noteq> 0"
  shows "\<exists>cs rs. encode_loop m shift first = Some cs \<and> concat cs = ranges_text first rs \<and> ranges_ok rs \<and>
    versions M \<inter> {shift..} = (\<Union>(lo, hi) \<in> set rs. {lo..hi})"
  using assms(1)
proof (induction m shift first rule: encode_loop.induct)
  case (1 m shift first)
  note bits = "1.prems"
  show ?case
  proof (cases "m = 0")
    case True
    have "\<not> bit M i" if "shift \<le> i" for i
      using that True bits by (auto simp: word_eq_0_bits bit_drop_bit_eq dest!: spec [of _ "i - shift"])
    then have "versions M \<inter> {shift..} = {}" by (auto simp: versions_def)
    then show ?thesis using True by (intro exI [of _ "[]"]) (simp add: encode_loop.simps ranges_ok_def)
  next
    case ne: False
    then obtain z where z: "trailing_zeros m = Some z" using trailing_zeros_None by fastforce
    have zb: "z < 64" "bit m z" "\<And>i. i < z \<Longrightarrow> \<not> bit m i" using z by (simp_all add: trailing_zeros_Some)
    let ?m = "drop_bit z m" and ?s = "shift + z"
    have m0: "?m \<noteq> 0" using zb(2) by (auto simp: word_eq_0_bits bit_drop_bit_eq intro: exI [of _ "0 :: nat"])
    have mM: "bit ?m i \<longleftrightarrow> bit M (?s + i)" for i using bits by (simp add: bit_drop_bit_eq ac_simps)
    have "NOT ?m \<noteq> 0"
    proof
      assume "NOT ?m = 0"
      then have all: "bit ?m i" if "i < 64" for i using that by (simp add: word_not_eq_0_bits)
      have "bit M (?s + 63)" using mM [of 63] all by simp
      then have "?s = 0" by (auto dest: bit_imp_le_length)
      then have "bit M i" if "i < 64" for i using mM [of i] all that by simp
      then have "NOT M = 0" by (simp add: word_not_eq_0_bits)
      then show False using assms(2) by simp
    qed
    then obtain k where k: "trailing_zeros (NOT ?m) = Some k" using trailing_zeros_None by fastforce
    have kb: "k < 64" "\<not> bit ?m k" "\<And>i. i < k \<Longrightarrow> bit ?m i" using k by (auto simp: trailing_zeros_Some bit_not_iff)
    have k0: "0 < k" using kb(2) zb(2) by (cases k) (auto simp: bit_drop_bit_eq)
    have hi: "?s + k - 1 \<le> 63" using kb(3) [of "k - 1"] k0 mM [of "k - 1"] by (auto dest: bit_imp_le_length)
    obtain cs rs where ih: "encode_loop (drop_bit k ?m) (?s + k) False = Some cs" "concat cs = ranges_text False rs" "ranges_ok rs"
      "versions M \<inter> {?s + k..} = (\<Union>(lo, hi) \<in> set rs. {lo..hi})"
      using "1.IH" [OF ne z refl refl refl m0 k refl] bits by (auto simp: drop_bit_drop_bit ac_simps)
    let ?r = "(?s, ?s + k - 1)" and ?comma = "if first then [] else lit '',''"
    have "encode_loop m shift first = Some ((?comma @ range_text ?r) # cs)"
      using ne z m0 k k0 ih(1) by (subst encode_loop.simps) (auto simp: Let_def range_text_def lit_def)
    moreover have "concat ((?comma @ range_text ?r) # cs) = ranges_text first (?r # rs)" using ih(2) by (simp add: lit_def)
    moreover have "ranges_ok (?r # rs)" using ih(3) hi k0 by (simp add: ranges_ok_def)
    moreover have "versions M \<inter> {shift..} = {?s..?s + k - 1} \<union> (versions M \<inter> {?s + k..})"
    proof -
      have eqv: "i \<in> versions M \<longleftrightarrow> ?s \<le> i \<and> i < ?s + k \<or> ?s + k \<le> i \<and> i \<in> versions M" if "shift \<le> i" for i
      proof -
        have "\<not> bit M i" if "i < ?s" using zb(3) [of "i - shift"] that \<open>shift \<le> i\<close> bits by (simp add: bit_drop_bit_eq)
        moreover have "bit M i" if "?s \<le> i" "i < ?s + k" using kb(3) [of "i - ?s"] mM [of "i - ?s"] that by simp
        ultimately show ?thesis unfolding versions_def by (cases "i < ?s"; cases "i < ?s + k") auto
      qed
      show ?thesis
      proof (rule set_eqI)
        fix i
        show "i \<in> versions M \<inter> {shift..} \<longleftrightarrow> i \<in> {?s..?s + k - 1} \<union> (versions M \<inter> {?s + k..})"
          using eqv [of i] k0 by (cases "shift \<le> i"; cases "i < ?s + k") auto
      qed
    qed
    ultimately show ?thesis using ih(4) by (intro exI [of _ "(?comma @ range_text ?r) # cs"] exI [of _ "?r # rs"]) simp
  qed
qed

lemma decimal_TOR_ISDIGIT: "\<forall>c \<in> set (decimal n). TOR_ISDIGIT c"
  using decimal_digits digit_iff by blast

lemma TOR_ISDIGIT_chars: "\<not> TOR_ISDIGIT 0" "\<not> TOR_ISDIGIT 44" "\<not> TOR_ISDIGIT 45" "\<not> TOR_ISDIGIT 32" "\<not> TOR_ISDIGIT 61"
  by (simp_all add: TOR_ISDIGIT_iff)

text \<open>What may follow a number or a range.\<close>

definition no_digit :: "bytes \<Rightarrow> bool" where
  "no_digit rest \<longleftrightarrow> \<not> TOR_ISDIGIT (char_at rest)"

lemma takeWhile_decimal:
  assumes "no_digit rest"
  shows "takeWhile TOR_ISDIGIT (decimal n @ rest) = decimal n" "dropWhile TOR_ISDIGIT (decimal n @ rest) = rest"
    "TOR_ISDIGIT (char_at (decimal n @ rest))"
proof -
  show "takeWhile TOR_ISDIGIT (decimal n @ rest) = decimal n" "dropWhile TOR_ISDIGIT (decimal n @ rest) = rest"
    using decimal_TOR_ISDIGIT [of n] assms by (cases rest; simp add: no_digit_def char_at_def)+
  show "TOR_ISDIGIT (char_at (decimal n @ rest))"
    using decimal_TOR_ISDIGIT [of n] decimal_nonempty [of n] by (cases "decimal n") (simp_all add: char_at_def)
qed

lemma parse_decimal_version:
  assumes "n \<le> 63" and "no_digit rest"
  shows "tor_parse_ulong (decimal n @ rest) 10 0 (int MAX_PROTOCOL_VERSION) True = (int n, True, Some rest)"
  using parse_version_digits [OF takeWhile_decimal(3) [OF assms(2), of n]] assms(1) takeWhile_decimal [OF assms(2)]
  by (simp add: MAX_PROTOCOL_VERSION_def digits_value_decimal Let_def)

lemma parse_version_range_text:
  assumes "fst r \<le> snd r" and "snd r \<le> 63" and "no_digit rest"
  shows "parse_version_range (range_text r @ rest) (length (range_text r)) = Some r"
proof (cases "fst r = snd r")
  case True
  have "fst r \<le> 63" using assms by simp
  then show ?thesis using True takeWhile_decimal(3) [OF assms(3)] assms(3)
    by (simp add: parse_version_range_def range_text_def parse_decimal_version prod_eq_iff)
next
  case False
  have le: "fst r \<le> 63" using assms by simp
  have n: "no_digit (45 # decimal (snd r) @ rest)" by (simp add: no_digit_def char_at_def TOR_ISDIGIT_chars)
  show ?thesis
    using False assms takeWhile_decimal(3) [OF n, of "fst r"] takeWhile_decimal(3) [OF assms(3), of "snd r"]
      parse_decimal_version [OF le n] parse_decimal_version [OF assms(2,3)]
    by (simp add: parse_version_range_def range_text_def char_at_def [of "45 # _"])
qed

lemma range_text_chars: "set (range_text r) \<subseteq> {c. TOR_ISDIGIT c} \<union> {45}"
  using decimal_TOR_ISDIGIT by (auto simp: range_text_def)

lemma range_text_no: "44 \<notin> set (range_text r)" "32 \<notin> set (range_text r)" "range_text r \<noteq> []"
  using range_text_chars [of r] TOR_ISDIGIT_chars decimal_nonempty by (auto simp: range_text_def)

definition ends_here :: "bytes \<Rightarrow> bool" where
  "ends_here rest \<longleftrightarrow> rest = [] \<or> hd rest = 32"

lemma ends_here_no_digit: "ends_here rest \<Longrightarrow> no_digit rest"
  by (cases rest) (auto simp: ends_here_def no_digit_def char_at_def TOR_ISDIGIT_chars)

lemma ranges_loop_text:
  assumes "ranges_ok rs" and "ends_here rest"
  shows "\<exists>m'. ranges_loop (ranges_text True rs @ rest) (length (ranges_text True rs)) m = Some m' \<and>
    versions m' = versions m \<union> (\<Union>(lo, hi) \<in> set rs. {lo..hi})"
  using assms(1)
proof (induction rs arbitrary: m)
  case Nil
  show ?case by (subst ranges_loop.simps) simp
next
  case (Cons r rs)
  have r: "fst r \<le> snd r" "snd r \<le> 63" using Cons.prems by (auto simp: ranges_ok_def case_prod_beta)
  obtain b where b: "bitmask_for_range (fst r) (snd r) = Some b" "versions b = {fst r..snd r}" by (rule bitmask_for_range_ok [OF r])
  have parse: "parse_version_range (range_text r @ t) (length (range_text r)) = Some r" if "no_digit t" for t
    by (rule parse_version_range_text [OF r that])
  show ?case
  proof (cases rs)
    case Nil
    have "memchr (range_text r) 44 = None" using range_text_no by (simp add: memchr_None)
    then have "ranges_loop (range_text r @ rest) (length (range_text r)) m = ranges_loop rest 0 (m OR b)"
      using range_text_no(3) [of r] b(1) parse [OF ends_here_no_digit [OF assms(2)]]
      by (subst ranges_loop.simps) (simp add: case_prod_beta Let_def)
    also have "\<dots> = Some (m OR b)" by (subst ranges_loop.simps) simp
    finally show ?thesis using Nil b(2) by (auto simp: versions_ops case_prod_beta)
  next
    case (Cons r' rs')
    let ?t = "ranges_text True rs"
    have txt_eq: "ranges_text True (r # rs) = range_text r @ 44 # ?t" using Cons by simp
    have ne: "?t \<noteq> []" using Cons range_text_no(3) by simp
    have "memchr (range_text r @ 44 # ?t) 44 = Some (length (range_text r))" by (rule memchr_split) (rule range_text_no)
    moreover have "no_digit (44 # ?t @ rest)" by (simp add: no_digit_def char_at_def TOR_ISDIGIT_chars)
    ultimately have "ranges_loop (ranges_text True (r # rs) @ rest) (length (ranges_text True (r # rs))) m =
        ranges_loop (?t @ rest) (length ?t) (m OR b)"
      unfolding txt_eq using b(1) parse ne by (subst ranges_loop.simps) (simp add: case_prod_beta Let_def)
    then show ?thesis using Cons.IH [of "m OR b"] Cons.prems b(2) by (auto simp: versions_ops ranges_ok_def case_prod_beta)
  qed
qed

text \<open>Names that the parser accepts.\<close>

definition name_ok :: "bytes \<Rightarrow> bool" where
  "name_ok n \<longleftrightarrow> n \<noteq> [] \<and> length n \<le> 100 \<and> list_all (\<lambda>c. TOR_ISALNUM c \<or> c = 45) n"

lemma keyword_chars: "TOR_ISALNUM c \<or> c = 45 \<Longrightarrow> c \<noteq> 0 \<and> c \<noteq> 32 \<and> c \<noteq> 61"
proof -
  have "\<not> TOR_ISALNUM 0" "\<not> TOR_ISALNUM 32" "\<not> TOR_ISALNUM 61" by code_simp+
  then show "TOR_ISALNUM c \<or> c = 45 \<Longrightarrow> c \<noteq> 0 \<and> c \<noteq> 32 \<and> c \<noteq> 61" by auto
qed

text \<open>The text of a mask and of an entry.  A mask with all 64 bits set has none: see below.\<close>

definition mask_text :: "64 word \<Rightarrow> bytes" where
  "mask_text m = concat (the (encode_loop m 0 True))"

definition entry_text :: "proto_entry \<Rightarrow> bytes" where
  "entry_text e = proto_name e @ 61 # mask_text (bitmask e)"

fun entries_text :: "proto_entry list \<Rightarrow> bytes" where
  "entries_text [] = []"
| "entries_text (e # es) = entry_text e @ (if es = [] then [] else 32 # entries_text es)"

definition entry_ok :: "proto_entry \<Rightarrow> bool" where
  "entry_ok e \<longleftrightarrow> name_ok (proto_name e) \<and> NOT (bitmask e) \<noteq> 0"

lemma mask_text_ok:
  assumes "NOT m \<noteq> 0"
  shows "encode_loop m 0 True \<noteq> None"
    and "\<exists>rs. mask_text m = ranges_text True rs \<and> ranges_ok rs \<and> versions m = (\<Union>(lo, hi) \<in> set rs. {lo..hi})"
  using encode_loop_ok [of m 0 m True] assms by (auto simp: mask_text_def)

lemma ranges_text_chars: "set (ranges_text first rs) \<subseteq> {c. TOR_ISDIGIT c} \<union> {45, 44}"
proof (induction rs arbitrary: first)
  case (Cons r rs)
  then show ?case using range_text_chars [of r] by auto
qed simp

lemma ranges_loop_mask_text:
  assumes "NOT m \<noteq> 0" and "ends_here rest"
  shows "ranges_loop (mask_text m @ rest) (length (mask_text m)) 0 = Some m"
proof -
  obtain rs where rs: "mask_text m = ranges_text True rs" "ranges_ok rs" "versions m = (\<Union>(lo, hi) \<in> set rs. {lo..hi})"
    using mask_text_ok [OF assms(1)] by blast
  obtain m' where "ranges_loop (mask_text m @ rest) (length (mask_text m)) 0 = Some m'" "versions m' = versions m"
    using ranges_loop_text [OF rs(2) assms(2), of 0] rs(1,3) by (auto simp: versions_ops)
  then show ?thesis by (simp add: versions_inject)
qed

lemma entry_text_chars:
  assumes "entry_ok e"
  shows "32 \<notin> set (entry_text e)" "is_c_str (entry_text e)" "entry_text e \<noteq> []"
proof -
  obtain rs where rs: "mask_text (bitmask e) = ranges_text True rs" using mask_text_ok(2) [of "bitmask e"] assms by (auto simp: entry_ok_def)
  have "c \<noteq> 32 \<and> c \<noteq> 0" if "c \<in> set (entry_text e)" for c
    using that assms keyword_chars [of c] ranges_text_chars [of True rs] TOR_ISDIGIT_chars
    by (auto simp: entry_text_def rs entry_ok_def name_ok_def list_all_iff)
  then show "32 \<notin> set (entry_text e)" "is_c_str (entry_text e)" by (auto simp: is_c_str_def)
qed (simp add: entry_text_def)

lemma parse_single_entry_text:
  assumes "entry_ok e" and "ends_here rest"
  shows "parse_single_entry (entry_text e @ rest) (length (entry_text e)) = Some e"
proof -
  have n: "proto_name e \<noteq> []" "length (proto_name e) \<le> 100" "list_all (\<lambda>c. TOR_ISALNUM c \<or> c = 45) (proto_name e)" "NOT (bitmask e) \<noteq> 0"
    using assms(1) by (simp_all add: entry_ok_def name_ok_def)
  have "61 \<notin> set (proto_name e)" using n(3) keyword_chars by (auto simp: list_all_iff)
  then have "memchr (entry_text e) 61 = Some (length (proto_name e))" by (simp add: entry_text_def memchr_split)
  then show ?thesis using n ranges_loop_mask_text [OF n(4) assms(2)]
    by (simp add: parse_single_entry_def MAX_PROTOCOL_NAME_LENGTH_def is_valid_keyword_def entry_text_def)
qed

lemma parse_entries_text: "list_all entry_ok es \<Longrightarrow> parse_protocol_list (entries_text es) = Some es"
proof (induction es)
  case Nil
  show ?case by (subst parse_protocol_list.simps) simp
next
  case (Cons e es)
  have e: "entry_ok e" and ih: "parse_protocol_list (entries_text es) = Some es" using Cons by simp_all
  define rest where "rest = (if es = [] then [] else 32 # entries_text es)"
  have "ends_here rest" by (simp add: ends_here_def rest_def)
  note parse = parse_single_entry_text [OF e this]
  have "(case memchr (entry_text e @ rest) 32 of None \<Rightarrow> length (entry_text e @ rest) | Some i \<Rightarrow> i) = length (entry_text e)"
    using entry_text_chars(1) [OF e] memchr_None [of "entry_text e" 32] by (auto simp: memchr_split rest_def)
  moreover have "dropWhile (\<lambda>c. c = 32) (drop (length (entry_text e)) (entry_text e @ rest)) = entries_text es"
  proof (cases es)
    case (Cons e' es')
    then have "entry_ok e'" using Cons.prems by simp
    then have "\<exists>c r. entries_text es = c # r \<and> c \<noteq> 32"
      using entry_text_chars(1,3) [of e'] Cons by (cases "entry_text e'") auto
    then show ?thesis using Cons by (auto simp: rest_def)
  qed (simp add: rest_def)
  ultimately have "parse_protocol_list (entry_text e @ rest) = Some (e # es)"
    using parse ih entry_text_chars(3) [OF e] by (subst parse_protocol_list.simps) (simp only: Let_def, simp)
  then show ?case by (simp add: rest_def)
qed

lemma entries_text_c_str: "list_all entry_ok es \<Longrightarrow> is_c_str (entries_text es)"
  by (induction es) (simp_all add: c_string_simps entry_text_chars)

lemma encode_entries_text:
  assumes "list_all entry_ok es"
  shows "\<exists>cs. encode_entries chunks sep es = Some cs \<and> concat cs = concat chunks @ (if es = [] then [] else sep @ entries_text es)"
  using assms
proof (induction es arbitrary: chunks sep)
  case (Cons e es)
  then have "encode_loop (bitmask e) 0 True \<noteq> None" using mask_text_ok(1) by (simp add: entry_ok_def)
  then obtain m where m: "encode_loop (bitmask e) 0 True = Some m" by blast
  let ?c = "(chunks @ [sep]) @ [proto_name e @ lit ''=''] @ m"
  have "concat ?c = concat chunks @ sep @ entry_text e" by (simp add: entry_text_def mask_text_def m lit_def)
  then show ?case using Cons.IH [of ?c "lit '' ''"] Cons.prems m
    by (auto simp: proto_entry_encode_into_def lit_def)
qed simp

lemma join_text_concat: "join_text sl [] = concat sl"
  by (induction sl rule: induct_list012) simp_all

lemma encode_protocol_list_text:
  assumes "\<And>n. length (fresh n) = n" and "list_all entry_ok es"
  shows "encode_protocol_list fresh es = Some (entries_text es)"
proof -
  obtain cs where cs: "encode_entries [] [] es = Some cs" "concat cs = entries_text es"
    using encode_entries_text [OF assms(2), of "[]" "[]"] by auto
  then show ?thesis using entries_text_c_str [OF assms(2)]
    by (simp add: encode_protocol_list_def join_strings_eq [OF assms(1)] join_text_concat c_str_append_NUL)
qed

text \<open>Every entry of a parsed list has a name that the grammar allows.\<close>

lemma parse_single_entry_name: "parse_single_entry s n = Some e \<Longrightarrow> n \<le> length s \<Longrightarrow> name_ok (proto_name e)"
  by (auto simp: parse_single_entry_def name_ok_def MAX_PROTOCOL_NAME_LENGTH_def is_valid_keyword_def memchr_Some
      split: option.splits if_splits)

lemma parse_protocol_list_names: "parse_protocol_list s = Some es \<Longrightarrow> list_all (\<lambda>e. name_ok (proto_name e)) es"
proof (induction s arbitrary: es rule: parse_protocol_list.induct)
  case (1 s)
  show ?case
  proof (cases "s = []")
    case True
    then show ?thesis using "1.prems" by (subst (asm) parse_protocol_list.simps) simp
  next
    case False
    let ?n = "case memchr s 32 of None \<Rightarrow> length s | Some i \<Rightarrow> i"
    have n: "?n \<le> length s" by (auto simp: memchr_Some split: option.splits)
    obtain e es' where e: "parse_single_entry s ?n = Some e" "es = e # es'"
      "parse_protocol_list (dropWhile (\<lambda>c. c = 32) (drop ?n s)) = Some es'"
      using "1.prems" False by (subst (asm) parse_protocol_list.simps) (auto simp: Let_def split: option.splits)
    then show ?thesis using "1.IH" [OF False refl e(1) e(3)] parse_single_entry_name [OF e(1) n] by simp
  qed
qed

section \<open>Votes\<close>

text \<open>A parsed list has version \<open>v\<close> of a protocol when its first entry of that name has it.\<close>

definition has_version :: "proto_entry list \<Rightarrow> bytes \<Rightarrow> nat \<Rightarrow> bool" where
  "has_version es name v \<longleftrightarrow> (case find (\<lambda>e. proto_name e = name) es of None \<Rightarrow> False | Some e \<Rightarrow> v \<in> versions (bitmask e))"

definition vote_lists :: "bytes \<Rightarrow> bytes \<Rightarrow> nat \<Rightarrow> bool" where
  "vote_lists name vote v \<longleftrightarrow> (case parse_protocol_list vote of None \<Rightarrow> False | Some es \<Rightarrow> has_version es name v)"

definition votes_for :: "bytes list \<Rightarrow> bytes \<Rightarrow> nat \<Rightarrow> nat" where
  "votes_for votes name v = length (filter (\<lambda>vote. vote_lists name vote v) votes)"

lemma name_ok_c_str: "name_ok n \<Longrightarrow> is_c_str n"
  using keyword_chars by (auto simp: name_ok_def is_c_str_def list_all_iff)

lemma find_entry_eq:
  assumes "list_all (\<lambda>e. name_ok (proto_name e)) es" and "is_c_str name"
  shows "find_entry_by_name (Some es) name = find (\<lambda>e. proto_name e = name) es"
proof -
  have "find (\<lambda>ent. strcmp (proto_name ent) name = 0) es = find (\<lambda>e. proto_name e = name) es"
    using assms by (intro find_cong) (auto simp: list_all_iff strcmp_eq_0 name_ok_c_str)
  then show ?thesis by (simp add: find_entry_by_name_def)
qed

lemma collect_names_ok:
  assumes "list_all (\<lambda>e. name_ok (proto_name e)) es" and "list_all name_ok names" and "distinct names"
  shows "distinct (collect_names names es) \<and> list_all name_ok (collect_names names es) \<and>
    set (collect_names names es) = set names \<union> proto_name ` set es"
  using assms
proof (induction es arbitrary: names)
  case (Cons e es)
  have "list_ex (\<lambda>n. strcmp n (proto_name e) = 0) names \<longleftrightarrow> proto_name e \<in> set names"
    using Cons.prems by (auto simp: list_ex_iff list_all_iff strcmp_eq_0 name_ok_c_str)
  then show ?case using Cons.IH [of names] Cons.IH [of "names @ [proto_name e]"] Cons.prems by auto
qed simp

lemma parse_votes_ok:
  assumes "list_all name_ok names" and "distinct names"
  shows "\<exists>names'. parse_votes votes parsed names = (parsed @ List.map_filter parse_protocol_list votes, names') \<and>
    distinct names' \<and> list_all name_ok names' \<and>
    set names' = set names \<union> (\<Union>es \<in> set (List.map_filter parse_protocol_list votes). proto_name ` set es)"
  using assms
proof (induction votes arbitrary: parsed names)
  case Nil
  then show ?case by (simp add: map_filter_simps)
next
  case (Cons vote votes)
  show ?case
  proof (cases "parse_protocol_list vote")
    case None
    then show ?thesis using Cons by (simp add: map_filter_simps)
  next
    case (Some es)
    note c = collect_names_ok [OF parse_protocol_list_names [OF Some] Cons.prems]
    then show ?thesis using Cons.IH [of "collect_names names es" "parsed @ [es]"] Some
      by (auto simp: map_filter_simps Un_assoc)
  qed
qed

lemma count_entry_nth:
  "i < 64 \<Longrightarrow> count_entry counts e ! i = (if i \<in> versions (bitmask e) then counts ! i + 1 else counts ! i)" "length (count_entry counts e) = 64"
  by (simp_all add: count_entry_def word_bit_mask versions_def del: push_bit_of_1)

lemma count_fold:
  assumes "list_all (\<lambda>es. list_all (\<lambda>e. name_ok (proto_name e)) es) parsed" and "is_c_str name" and "i < 64"
    and "unat (counts ! i) + length parsed < 256"
  shows "unat (foldl (\<lambda>counts vote. case find_entry_by_name (Some vote) name of None \<Rightarrow> counts | Some ent \<Rightarrow> count_entry counts ent) counts parsed ! i) =
    unat (counts ! i) + length (filter (\<lambda>es. has_version es name i) parsed)"
  using assms(1,4)
proof (induction parsed arbitrary: counts)
  case (Cons es parsed)
  let ?c = "case find_entry_by_name (Some es) name of None \<Rightarrow> counts | Some ent \<Rightarrow> count_entry counts ent"
  have "find_entry_by_name (Some es) name = find (\<lambda>e. proto_name e = name) es" using find_entry_eq assms(2) Cons.prems by simp
  moreover have "unat (counts ! i + 1) = unat (counts ! i) + 1" using Cons.prems(2) by (simp add: unat_word_ariths)
  ultimately have c: "unat (?c ! i) = unat (counts ! i) + (if has_version es name i then 1 else 0)"
    using assms(3) by (auto simp: has_version_def count_entry_nth split: option.splits)
  then show ?case using Cons.IH [of ?c] Cons.prems by auto
qed simp

lemma fold_mask:
  "list_all (\<lambda>i. i < 64) is \<Longrightarrow>
   versions (foldl (\<lambda>m i. if P i then m OR push_bit i 1 else m) m is) = versions m \<union> {i \<in> set is. P i}"
  by (induction "is" arbitrary: m) (auto simp: versions_ops versions_bit simp del: push_bit_of_1)

lemma result_bitmask_versions: "versions (result_bitmask counts threshold) = {i. i < 64 \<and> threshold \<le> uint (counts ! i)}"
  unfolding result_bitmask_def by (subst fold_mask) (auto simp: list_all_iff versions_ops)

lemma votes_for_parsed: "votes_for votes name v = length (filter (\<lambda>es. has_version es name v) (List.map_filter parse_protocol_list votes))"
  by (induction votes) (auto simp: votes_for_def vote_lists_def map_filter_simps split: option.splits)

lemma map_filter_names: "list_all (\<lambda>es. list_all (\<lambda>e. name_ok (proto_name e)) es) (List.map_filter parse_protocol_list votes)"
  by (induction votes) (auto simp: map_filter_simps parse_protocol_list_names split: option.splits)

lemma length_map_filter_le: "length (List.map_filter f xs) \<le> length xs"
  by (induction xs) (auto simp: map_filter_simps split: option.splits)

lemma find_distinct:
  assumes "distinct (map proto_name es)" and "e \<in> set es"
  shows "find (\<lambda>x. proto_name x = proto_name e) es = Some e"
  using assms by (induction es) auto

lemma result_versions:
  assumes "length votes < 256" and "name_ok name"
  shows "versions (result_bitmask (count_name (List.map_filter parse_protocol_list votes) name) threshold) =
    {v. v < 64 \<and> threshold \<le> int (votes_for votes name v)}"
proof -
  let ?p = "List.map_filter parse_protocol_list votes"
  have "unat (count_name ?p name ! i) = votes_for votes name i" if "i < 64" for i
    using count_fold [OF map_filter_names name_ok_c_str [OF assms(2)] that, of "replicate 64 0" votes] assms(1)
      length_map_filter_le [of parse_protocol_list votes] that
    by (simp add: count_name_def votes_for_parsed)
  then have "uint (count_name ?p name ! i) = int (votes_for votes name i)" if "i < 64" for i
    using that by (metis uint_nat)
  then show ?thesis by (auto simp: result_bitmask_versions)
qed

lemma protover_compute_vote_eq:
  assumes "\<And>n. length (fresh n) = n" and "\<And>l. mset (qsort strcmp l) = mset l"
    and "\<And>l. list_all is_c_str l \<Longrightarrow> sorted_wrt (\<lambda>a b. strcmp a b \<le> 0) (qsort strcmp l)"
    and "length votes < 256" and "1 \<le> threshold" and "\<And>name. \<exists>v < 64. int (votes_for votes name v) < threshold"
  shows "\<exists>es. protover_compute_vote fresh qsort votes threshold = Some (entries_text es) \<and> list_all entry_ok es \<and>
    distinct (map proto_name es) \<and> sorted_wrt (\<lambda>a b. strcmp a b \<le> 0) (map proto_name es) \<and>
    (\<forall>name v. has_version es name v \<longleftrightarrow> threshold \<le> int (votes_for votes name v))"
proof (cases "votes = []")
  case True
  then show ?thesis using assms(5) by (intro exI [of _ "[]"]) (simp add: protover_compute_vote_def has_version_def votes_for_def)
next
  case False
  let ?p = "List.map_filter parse_protocol_list votes"
  obtain names where n: "parse_votes votes [] [] = (?p, names)" "distinct names" "list_all name_ok names"
    "set names = (\<Union>es \<in> set ?p. proto_name ` set es)"
    using parse_votes_ok [of "[]" votes "[]"] by auto
  define sorted where "sorted = smartlist_sort_strings qsort names"
  have perm: "mset sorted = mset names" using assms(2) by (simp add: sorted_def smartlist_sort_strings_def smartlist_sort_def)
  then have sn: "set sorted = set names" "distinct sorted" using n(2) by (metis set_mset_mset, metis mset_eq_imp_distinct_iff)
  have srt: "sorted_wrt (\<lambda>a b. strcmp a b \<le> 0) sorted"
    using assms(3) [of names] n(3) by (auto simp: sorted_def smartlist_sort_strings_def smartlist_sort_def list_all_iff name_ok_c_str)
  define mask where "mask name = result_bitmask (count_name ?p name) threshold" for name
  define entry where "entry name = \<lparr> proto_name = name, bitmask = mask name \<rparr>" for name
  define es where "es = filter (\<lambda>e. bitmask e \<noteq> 0) (map entry sorted)"
  have entry_simps [simp]: "proto_name (entry name) = name" "bitmask (entry name) = mask name" for name by (simp_all add: entry_def)
  have vers: "versions (mask name) = {v. v < 64 \<and> threshold \<le> int (votes_for votes name v)}" if "name_ok name" for name
    unfolding mask_def by (rule result_versions [OF assms(4) that])
  have ok: "list_all entry_ok es"
  proof -
    have "NOT (mask name) \<noteq> 0" if "name_ok name" for name
      using assms(6) [of name] vers [OF that] by (auto simp: word_not_eq_0_bits versions_def set_eq_iff)
    then show ?thesis using n(3) sn(1) by (auto simp: es_def entry_ok_def list_all_iff)
  qed
  have names_es: "map proto_name es = filter (\<lambda>name. mask name \<noteq> 0) sorted" by (simp add: es_def filter_map comp_def)
  have ent: "(\<lambda>name. \<lparr> proto_name = name, bitmask = result_bitmask (count_name ?p name) threshold \<rparr>) = entry"
    by (rule ext) (simp add: entry_def mask_def)
  have "protover_compute_vote fresh qsort votes threshold = encode_protocol_list fresh es"
    using False assms(4) n(1) by (simp add: protover_compute_vote_def Let_def ent es_def flip: sorted_def)
  then have "protover_compute_vote fresh qsort votes threshold = Some (entries_text es)"
    using encode_protocol_list_text [OF assms(1) ok] by simp
  moreover have "distinct (map proto_name es)" using sn(2) names_es by simp
  moreover have "sorted_wrt (\<lambda>a b. strcmp a b \<le> 0) (map proto_name es)" using srt names_es by (simp add: sorted_wrt_filter)
  moreover have "has_version es name v \<longleftrightarrow> threshold \<le> int (votes_for votes name v)" for name v
  proof (cases "name \<in> set names")
    case True
    then have nm: "name_ok name" using n(3) by (simp add: list_all_iff)
    have v64: "votes_for votes name v = 0" if "\<not> v < 64"
      using that versions_less by (auto simp: votes_for_def vote_lists_def has_version_def filter_empty_conv split: option.splits)
    show ?thesis
    proof (cases "mask name = 0")
      case m0: True
      then have "find (\<lambda>e. proto_name e = name) es = None" using names_es by (auto simp: find_None_iff es_def)
      moreover have "\<not> (v < 64 \<and> threshold \<le> int (votes_for votes name v))" using vers [OF nm] m0 by (auto simp: versions_ops)
      ultimately show ?thesis using v64 assms(5) by (auto simp: has_version_def)
    next
      case False
      then have "entry name \<in> set es" using True sn(1) by (simp add: es_def)
      then have "find (\<lambda>e. proto_name e = name) es = Some (entry name)"
        using find_distinct [of es "entry name"] \<open>distinct (map proto_name es)\<close> by simp
      then have "has_version es name v \<longleftrightarrow> v < 64 \<and> threshold \<le> int (votes_for votes name v)" by (simp add: has_version_def vers [OF nm])
      then show ?thesis using v64 assms(5) by (cases "v < 64") simp_all
    qed
  next
    case False
    then have "find (\<lambda>e. proto_name e = name) es = None" using sn(1) by (auto simp: find_None_iff es_def)
    moreover have "\<not> has_version fs name v" if "fs \<in> set ?p" for fs
      using False n(4) that by (auto simp: has_version_def find_Some_iff split: option.splits)
    then have "votes_for votes name v = 0" by (simp add: votes_for_parsed filter_empty_conv)
    ultimately show ?thesis using assms(5) by (simp add: has_version_def)
  qed
  ultimately show ?thesis using ok by blast
qed

section \<open>What this relay supports\<close>

definition supported_entries :: "proto_entry list" where
  "supported_entries = map (\<lambda>(n, m). \<lparr> proto_name = n, bitmask = m \<rparr>)
    [(lit ''Conflux'', 0x2), (lit ''Cons'', 0x6), (lit ''Desc'', 0x1e), (lit ''DirCache'', 0x4), (lit ''FlowCtrl'', 0x6), (lit ''HSDir'', 0x4),
     (lit ''HSIntro'', 0x30), (lit ''HSRend'', 0x6), (lit ''Link'', 0x38), (lit ''LinkAuth'', 0x8), (lit ''Microdesc'', 0xe),
     (lit ''Padding'', 0x4), (lit ''Relay'', 0x7c)]"

lemma parse_supported: "parse_protocol_list protover_get_supported_protocols = Some supported_entries"
  by code_simp

text \<open>The static list is either not filled yet or what the parser gives for the supported protocols.\<close>

definition cache_ok :: "proto_entry list option \<Rightarrow> bool" where
  "cache_ok cache \<longleftrightarrow> cache = None \<or> cache = Some supported_entries"

lemma get_supported_eq: "cache_ok cache \<Longrightarrow> get_supported_protocol_list cache = Some supported_entries"
  by (auto simp: cache_ok_def get_supported_protocol_list_def parse_supported)



lemma encode_loop_full: "NOT m = 0 \<Longrightarrow> encode_loop m 0 True = None"
proof -
  assume m: "NOT m = 0"
  then have "bit m 0" by (simp add: word_not_eq_0_bits)
  then have ne: "m \<noteq> 0" by auto
  have "trailing_zeros m = Some 0" using \<open>bit m 0\<close> by (simp add: trailing_zeros_Some)
  moreover have "trailing_zeros (NOT m) = None" using m by (simp add: trailing_zeros_None)
  ultimately show ?thesis using ne by (subst encode_loop.simps) (simp add: Let_def)
qed

lemma encode_entries_None: "encode_entries chunks sep es = None \<longleftrightarrow> list_ex (\<lambda>e. NOT (bitmask e) = 0) es"
proof (induction es arbitrary: chunks sep)
  case (Cons e es)
  show ?case
  proof (cases "NOT (bitmask e) = 0")
    case True
    then show ?thesis by (simp add: proto_entry_encode_into_def encode_loop_full)
  next
    case False
    then obtain m where "encode_loop (bitmask e) 0 True = Some m" using mask_text_ok(1) by blast
    then show ?thesis using Cons.IH False by (simp add: proto_entry_encode_into_def)
  qed
qed simp

section \<open>Properties\<close>

text \<open>C29: Printing a list of protocol entries and parsing the text gives the list back, whatever the masks are
  (short of all 64 versions at once): the printer never leaves a gap or a wrong bound, and the parser
  accepts everything the printer writes.  Conversely every parsed entry has a name of the documented form.\<close>

theorem protover_encode_parse:
  assumes "\<And>n. length (fresh n) = n" and "list_all entry_ok es"
  shows "(\<exists>txt. encode_protocol_list fresh es = Some txt \<and> is_c_str txt \<and> parse_protocol_list txt = Some es) \<and>
    (\<forall>s fs. parse_protocol_list s = Some fs \<longrightarrow> list_all (\<lambda>e. name_ok (proto_name e)) fs)"
  using encode_protocol_list_text [OF assms] parse_entries_text [OF assms(2)] entries_text_c_str [OF assms(2)] parse_protocol_list_names
  by blast

theorem protover_encode_parse_witness:
  "\<exists>txt. encode_protocol_list (\<lambda>n. replicate n 7) [\<lparr> proto_name = lit ''Link'', bitmask = 0x38 \<rparr>, \<lparr> proto_name = lit ''a-b'', bitmask = 0x8000000000000001 \<rparr>] = Some txt \<and>
    is_c_str txt \<and> parse_protocol_list txt = Some [\<lparr> proto_name = lit ''Link'', bitmask = 0x38 \<rparr>, \<lparr> proto_name = lit ''a-b'', bitmask = 0x8000000000000001 \<rparr>]"
proof -
  have "list_all entry_ok [\<lparr> proto_name = lit ''Link'', bitmask = 0x38 \<rparr>, \<lparr> proto_name = lit ''a-b'', bitmask = 0x8000000000000001 \<rparr>]"
    by code_simp
  then show ?thesis
    using protover_encode_parse [of "\<lambda>n. replicate n 7" "[\<lparr> proto_name = lit ''Link'', bitmask = 0x38 \<rparr>, \<lparr> proto_name = lit ''a-b'', bitmask = 0x8000000000000001 \<rparr>]"]
    by simp
qed

text \<open>A parsed list contains version \<open>v\<close> of a protocol when any of its entries of that name has it, and the number of votes
  whose lists do.\<close>

definition lists_version :: "proto_entry list \<Rightarrow> bytes \<Rightarrow> nat \<Rightarrow> bool" where
  "lists_version es name v \<longleftrightarrow> (\<exists>e \<in> set es. proto_name e = name \<and> v \<in> versions (bitmask e))"

definition votes_listing :: "bytes list \<Rightarrow> bytes \<Rightarrow> nat \<Rightarrow> nat" where
  "votes_listing votes name v =
    length (filter (\<lambda>vote. case parse_protocol_list vote of None \<Rightarrow> False | Some es \<Rightarrow> lists_version es name v) votes)"

text \<open>No vote names a protocol twice.\<close>

definition votes_distinct :: "bytes list \<Rightarrow> bool" where
  "votes_distinct votes \<longleftrightarrow> list_all (\<lambda>vote. case parse_protocol_list vote of None \<Rightarrow> True | Some es \<Rightarrow> distinct (map proto_name es)) votes"

lemma has_version_lists: "has_version es name v \<Longrightarrow> lists_version es name v"
  by (auto simp: has_version_def lists_version_def find_Some_iff split: option.splits intro: nth_mem)

lemma has_version_distinct: "distinct (map proto_name es) \<Longrightarrow> has_version es name v \<longleftrightarrow> lists_version es name v"
  using has_version_lists find_distinct [of es] by (auto simp: has_version_def lists_version_def)

lemma votes_for_le: "votes_for votes name v \<le> votes_listing votes name v"
  by (induction votes) (auto simp: votes_for_def votes_listing_def vote_lists_def has_version_lists split: option.splits)

lemma votes_for_distinct: "votes_distinct votes \<Longrightarrow> votes_for votes name v = votes_listing votes name v"
  by (induction votes) (auto simp: votes_for_def votes_listing_def vote_lists_def votes_distinct_def has_version_distinct split: option.splits)

text \<open>C15: The vote on protocol versions, for fewer than 256 votes and a positive threshold such that no protocol reaches the threshold with
  all 64 versions (such an entry cannot be printed): the result exists, is a well-formed list, sorted by name without repetitions. It contains a
  version of a protocol exactly when in at least \<^verbatim>\<open>threshold\<close> of the parseable votes the first entry of that protocol has it (an
  unparseable vote counts for nothing, and the 8-bit counters never wrap). So no version gets in that fewer than
  \<^verbatim>\<open>threshold\<close> votes list; and if no vote names a protocol twice, then exactly the versions get in that at least
  \<^verbatim>\<open>threshold\<close> votes list.\<close>

theorem protover_vote_correct:
  assumes "\<And>n. length (fresh n) = n" and "\<And>l. mset (qsort strcmp l) = mset l"
    and "\<And>l. list_all is_c_str l \<Longrightarrow> sorted_wrt (\<lambda>a b. strcmp a b \<le> 0) (qsort strcmp l)"
    and "length votes < 256" and "1 \<le> threshold" and "\<And>name. \<exists>v < 64. int (votes_for votes name v) < threshold"
  shows "\<exists>txt es. protover_compute_vote fresh qsort votes threshold = Some txt \<and> parse_protocol_list txt = Some es \<and>
    distinct (map proto_name es) \<and> sorted_wrt (\<lambda>a b. strcmp a b \<le> 0) (map proto_name es) \<and>
    (\<forall>name v. lists_version es name v \<longleftrightarrow> threshold \<le> int (votes_for votes name v)) \<and>
    (\<forall>name v. lists_version es name v \<longrightarrow> threshold \<le> int (votes_listing votes name v)) \<and>
    (votes_distinct votes \<longrightarrow> (\<forall>name v. lists_version es name v \<longleftrightarrow> threshold \<le> int (votes_listing votes name v)))"
proof -
  obtain es where es: "protover_compute_vote fresh qsort votes threshold = Some (entries_text es)" "list_all entry_ok es"
    "distinct (map proto_name es)" "sorted_wrt (\<lambda>a b. strcmp a b \<le> 0) (map proto_name es)"
    "\<forall>name v. has_version es name v \<longleftrightarrow> threshold \<le> int (votes_for votes name v)"
    using protover_compute_vote_eq [of fresh qsort votes threshold] assms by blast
  then have first: "lists_version es name v \<longleftrightarrow> threshold \<le> int (votes_for votes name v)" for name v by (simp add: has_version_distinct)
  moreover have "threshold \<le> int (votes_listing votes name v)" if "lists_version es name v" for name v
    using that first votes_for_le [of votes name v] by fastforce
  ultimately show ?thesis using es(1,3,4) parse_entries_text [OF es(2)] votes_for_distinct [of votes] by auto
qed

text \<open>A vote that names a protocol twice: the versions of the second entry are not counted.\<close>

lemma vote_repeated_name: "votes_for [lit ''Foo=1 Foo=2''] (lit ''Foo'') 2 = 0" "votes_listing [lit ''Foo=1 Foo=2''] (lit ''Foo'') 2 = 1"
proof -
  have p: "parse_protocol_list (lit ''Foo=1 Foo=2'') = Some [\<lparr> proto_name = lit ''Foo'', bitmask = 2 \<rparr>, \<lparr> proto_name = lit ''Foo'', bitmask = 4 \<rparr>]"
    by code_simp
  then show "votes_for [lit ''Foo=1 Foo=2''] (lit ''Foo'') 2 = 0" "votes_listing [lit ''Foo=1 Foo=2''] (lit ''Foo'') 2 = 1"
    by (simp_all add: votes_for_def votes_listing_def vote_lists_def has_version_def lists_version_def versions_def)
qed

text \<open>A \<^verbatim>\<open>qsort\<close> for the example: on C strings \<^verbatim>\<open>strcmp\<close> is the lexicographic order of the bytes.\<close>

definition demo_qsort :: "(bytes \<Rightarrow> bytes \<Rightarrow> int) \<Rightarrow> bytes list \<Rightarrow> bytes list" where
  "demo_qsort cmp l = sort_key (map uint) l"

lemma strncmp_lex:
  "is_c_str a \<Longrightarrow> is_c_str b \<Longrightarrow> max (length a) (length b) \<le> n \<Longrightarrow> strncmp_by id a b n \<le> 0 \<longleftrightarrow> map uint a \<le> map uint b"
proof (induction "id :: byte \<Rightarrow> byte" a b n rule: strncmp_by.induct)
  case (4 a s n)
  then have "uint a \<noteq> 0" by (auto simp: c_string_simps unsigned_eq_0_iff)
  then have "uint a > 0" using byte_uint_bounds [of a] by linarith
  then show ?case by simp
next
  case (5 a s b t n)
  then show ?case using word_uint_eqI [of a b] by (auto simp: c_string_simps)
qed simp_all

lemma demo_qsort_ok: "mset (demo_qsort cmp l) = mset l" "list_all is_c_str l \<Longrightarrow> sorted_wrt (\<lambda>a b. strcmp a b \<le> 0) (demo_qsort cmp l)"
proof -
  show "mset (demo_qsort cmp l) = mset l" by (simp add: demo_qsort_def)
  assume l: "list_all is_c_str l"
  have "sorted_wrt (\<lambda>a b. map uint a \<le> map uint b) (demo_qsort cmp l)"
    using sorted_sort_key [of "map uint" l] by (simp add: demo_qsort_def sorted_map)
  then show "sorted_wrt (\<lambda>a b. strcmp a b \<le> 0) (demo_qsort cmp l)"
    using l by (rule_tac sorted_wrt_mono_rel) (auto simp: strcmp_def strncmp_def strncmp_lex list_all_iff demo_qsort_def)
qed

theorem protover_vote_correct_witness:
  "\<exists>txt es. protover_compute_vote (\<lambda>n. replicate n 7) demo_qsort [lit ''Link=1-3'', lit ''Link=2-5 Foo=1'', lit ''!''] 2 = Some txt \<and>
    parse_protocol_list txt = Some es \<and> distinct (map proto_name es) \<and> sorted_wrt (\<lambda>a b. strcmp a b \<le> 0) (map proto_name es) \<and>
    (\<forall>name v. lists_version es name v \<longleftrightarrow> 2 \<le> int (votes_listing [lit ''Link=1-3'', lit ''Link=2-5 Foo=1'', lit ''!''] name v))"
proof -
  let ?votes = "[lit ''Link=1-3'', lit ''Link=2-5 Foo=1'', lit ''!'']"
  have p: "parse_protocol_list (lit ''Link=1-3'') = Some [\<lparr> proto_name = lit ''Link'', bitmask = 0xe \<rparr>]"
    "parse_protocol_list (lit ''!'') = None" by code_simp+
  have "\<not> vote_lists name (lit ''Link=1-3'') 0" "\<not> vote_lists name (lit ''!'') 0" for name
    by (simp_all add: vote_lists_def p has_version_def versions_def)
  then have "votes_for [lit ''Link=1-3'', lit ''Link=2-5 Foo=1'', lit ''!''] name 0 < 2" for name by (simp add: votes_for_def)
  then have full: "\<exists>v < 64. int (votes_for ?votes name v) < 2" for name by (intro exI [of _ "0 :: nat"]) simp
  have "votes_distinct ?votes" by code_simp
  moreover obtain t es where "protover_compute_vote (\<lambda>n. replicate n 7) demo_qsort ?votes 2 = Some t" "parse_protocol_list t = Some es"
    "distinct (map proto_name es)" "sorted_wrt (\<lambda>a b. strcmp a b \<le> 0) (map proto_name es)"
    "votes_distinct ?votes \<longrightarrow> (\<forall>name v. lists_version es name v \<longleftrightarrow> 2 \<le> int (votes_listing ?votes name v))"
    using protover_vote_correct [of "\<lambda>n. replicate n 7" demo_qsort ?votes 2, OF _ demo_qsort_ok _ _ full] by auto
  ultimately show ?thesis by blast
qed



text \<open>The version ranges of the source, one for each protocol.\<close>

fun supported_range :: "protocol_type \<Rightarrow> nat \<times> nat" where
  "supported_range PRT_LINK = (3, 5)" | "supported_range PRT_LINKAUTH = (3, 3)" | "supported_range PRT_RELAY = (2, 6)"
| "supported_range PRT_DIRCACHE = (2, 2)" | "supported_range PRT_HSDIR = (2, 2)" | "supported_range PRT_HSINTRO = (4, 5)"
| "supported_range PRT_HSREND = (1, 2)" | "supported_range PRT_DESC = (1, 4)" | "supported_range PRT_MICRODESC = (1, 3)"
| "supported_range PRT_CONS = (1, 2)" | "supported_range PRT_PADDING = (2, 2)" | "supported_range PRT_FLOWCTRL = (1, 2)"
| "supported_range PRT_CONFLUX = (1, 1)"

lemma supported_range_entry:
  "protover_get_supported pr = range_text (supported_range pr) \<and>
   map_option bitmask (find_entry_by_name (Some supported_entries) (protocol_type_to_str pr)) =
     Some (push_bit (fst (supported_range pr)) (mask (snd (supported_range pr) + 1 - fst (supported_range pr))))"
  by (cases pr; simp only:; code_simp)

lemma supported_range_bounds: "fst (supported_range pr) \<le> snd (supported_range pr) \<and> snd (supported_range pr) \<le> 6"
  by (cases pr) simp_all

text \<open>C31: This relay keeps up with what it asks of the network: it supports every version of the required and the
  recommended lists for clients and for relays, so that it does not stop itself when these lists appear in a
  consensus; and \<^verbatim>\<open>protover_is_supported_here\<close> says yes exactly for the versions of the
  supported list.\<close>

theorem protover_lists_consistent:
  "list_all (\<lambda>s. protover_all_supported fresh None (Some s) True = Some (Some supported_entries, True, None))
     [protover_get_required_client_protocols, protover_get_required_relay_protocols,
      protover_get_recommended_client_protocols, protover_get_recommended_relay_protocols] \<and>
   protover_get_supported pr = range_text (supported_range pr) \<and>
   (snd (protover_is_supported_here None pr v) \<longleftrightarrow> fst (supported_range pr) \<le> v \<and> v \<le> snd (supported_range pr))"
proof (intro conjI)
  have none: "protover_all_supported fresh None (Some s) True = Some (Some supported_entries, True, None)"
    if "parse_protocol_list s = Some es" and "list_all (\<lambda>e. missing_entry (Some supported_entries) e = None) es" for s es
  proof -
    have "List.map_filter (missing_entry (Some supported_entries)) es = []"
      using that(2) by (induction es) (simp_all add: map_filter_simps)
    then show ?thesis using that(1) by (simp add: protover_all_supported_def get_supported_eq cache_ok_def Let_def)
  qed
  have ok: "list_all (\<lambda>s. case parse_protocol_list s of None \<Rightarrow> False | Some es \<Rightarrow> list_all (\<lambda>e. missing_entry (Some supported_entries) e = None) es)
    [protover_get_required_client_protocols, protover_get_required_relay_protocols,
     protover_get_recommended_client_protocols, protover_get_recommended_relay_protocols]"
    by code_simp
  show "list_all (\<lambda>s. protover_all_supported fresh None (Some s) True = Some (Some supported_entries, True, None))
    [protover_get_required_client_protocols, protover_get_required_relay_protocols,
     protover_get_recommended_client_protocols, protover_get_recommended_relay_protocols]"
    by (rule list.pred_mono_strong [OF ok]) (auto intro: none split: option.splits)
  show "protover_get_supported pr = range_text (supported_range pr)" using supported_range_entry by blast
  obtain e where e: "find_entry_by_name (Some supported_entries) (protocol_type_to_str pr) = Some e"
    "bitmask e = push_bit (fst (supported_range pr)) (mask (snd (supported_range pr) + 1 - fst (supported_range pr)))"
    using supported_range_entry [of pr] by auto
  have "bit (bitmask e) v \<longleftrightarrow> fst (supported_range pr) \<le> v \<and> v \<le> snd (supported_range pr)" if "v \<le> 63"
    using that supported_range_bounds [of pr] unfolding e(2) by (auto simp: bit_simps)
  then show "snd (protover_is_supported_here None pr v) \<longleftrightarrow> fst (supported_range pr) \<le> v \<and> v \<le> snd (supported_range pr)"
    using e(1) supported_range_bounds [of pr] word_bit_mask [of v "bitmask e"]
    by (auto simp: protover_is_supported_here_def get_supported_eq cache_ok_def Let_def protocol_list_contains_def MAX_PROTOCOL_VERSION_def
        simp del: push_bit_of_1)
qed

text \<open>The printer runs into undefined behaviour for exactly the entries that have all 64 versions: the test meant
  to catch the full mask looks at \<^verbatim>\<open>!mask\<close> where it needs \<^verbatim>\<open>!~mask\<close>, so that
  \<^verbatim>\<open>__builtin_ctzll\<close> is called with 0.  A consensus that lists \<^verbatim>\<open>Foo=0-63\<close> takes a client there.\<close>

theorem protover_full_mask_undefined:
  "(encode_protocol_list fresh es = None \<longleftrightarrow> list_ex (\<lambda>e. bitmask e = - 1) es) \<and>
   protover_all_supported fresh None (Some (lit ''Foo=0-63'')) True = None"
proof
  have full: "NOT m = 0 \<longleftrightarrow> m = - 1" for m :: "64 word" by (simp add: not_eq_complement) (metis minus_minus)
  show en: "encode_protocol_list fresh es = None \<longleftrightarrow> list_ex (\<lambda>e. bitmask e = - 1) es" for es
    by (simp add: encode_protocol_list_def encode_entries_None full)
  have "parse_protocol_list (lit ''Foo=0-63'') = Some [\<lparr> proto_name = lit ''Foo'', bitmask = - 1 \<rparr>]" by code_simp
  moreover have "missing_entry (Some supported_entries) \<lparr> proto_name = lit ''Foo'', bitmask = - 1 \<rparr> = Some \<lparr> proto_name = lit ''Foo'', bitmask = - 1 \<rparr>"
    by code_simp
  ultimately show "protover_all_supported fresh None (Some (lit ''Foo=0-63'')) True = None"
    using en [of "[\<lparr> proto_name = lit ''Foo'', bitmask = - 1 \<rparr>]"]
    by (simp add: protover_all_supported_def get_supported_eq cache_ok_def map_filter_simps)
qed

end
