(* ===== verification/Tor_Versions.thy ===== *)
theory Tor_Versions
  imports Tor_Parse_Int Tor_Smartlist Tor_Smartlist_Ops Tor_Binascii Tor_Ctime "HOL-Library.Product_Lexorder" "HOL-Library.List_Lexorder"
begin

text \<open>
  \<^verbatim>\<open>core/or/versions.c\<close>: version strings of Tor (\<^verbatim>\<open>"0.4.8.1-alpha (git-0123abcd)"\<close>), their parser,
  their order, and the comparison of this relay's version with a recommended list.  C \<^verbatim>\<open>int\<close> fields are
  integers; the comparison of two fields wraps at 32 bits as in the source.
\<close>

section \<open>Model\<close>

datatype ver_status = VER_PRE | VER_RC | VER_RELEASE

record tor_version =
  ver_major :: int
  ver_minor :: int
  ver_micro :: int
  ver_status :: ver_status
  ver_patchlevel :: int
  ver_status_tag :: bytes
  ver_svn_revision :: int
  ver_git_tag_len :: int
  ver_git_tag :: bytes

definition MAX_STATUS_TAG_LEN :: nat where "MAX_STATUS_TAG_LEN = 32"

definition ver_zero :: tor_version where
  "ver_zero = \<lparr> ver_major = 0, ver_minor = 0, ver_micro = 0, ver_status = VER_RELEASE, ver_patchlevel = 0, ver_status_tag = [],
     ver_svn_revision = 0, ver_git_tag_len = 0, ver_git_tag = replicate DIGEST_LEN 0 \<rparr>"

text \<open>The macros \<^verbatim>\<open>NUMBER\<close> and \<^verbatim>\<open>DOT\<close>.\<close>

definition ver_number :: "bytes \<Rightarrow> (int \<times> bytes) option" where
  "ver_number cp =
    (if cp = [] \<or> hd cp < 48 \<or> hd cp > 57 then None
     else case tor_parse_uint64 cp 10 0 2147483647 True of
       (v, ok, Some eos) \<Rightarrow> if \<not> ok then None else if eos = cp then None else Some (v, eos)
     | (_, _, None) \<Rightarrow> None)"

definition ver_dot :: "bytes \<Rightarrow> bytes option" where
  "ver_dot cp = (case cp of c # r \<Rightarrow> if c = 46 then Some r else None | [] \<Rightarrow> None)"

text \<open>A conversion of a \<^verbatim>\<open>long\<close> to \<^verbatim>\<open>int\<close>.\<close>

definition to_int :: "int \<Rightarrow> int" where
  "to_int v = sint (word_of_int v :: 32 word)"

text \<open>From the label \<^verbatim>\<open>status_tag\<close> on.\<close>

definition ver_tail :: "tor_version \<Rightarrow> bytes \<Rightarrow> tor_version option" where
  "ver_tail out cp =
    (let cp = (if cp \<noteq> [] \<and> (hd cp = 45 \<or> hd cp = 46) then tl cp else cp);
         eos = find_whitespace cp; n = length cp - length eos;
         out = out\<lparr> ver_status_tag := (if n \<ge> MAX_STATUS_TAG_LEN then take (MAX_STATUS_TAG_LEN - 1) cp else take n cp) \<rparr>;
         cp = eat_whitespace eos
     in if strcmpstart cp (lit ''(r'') = 0 then Some (out\<lparr> ver_svn_revision := to_int (fst (strtol (drop 2 cp) 10)) \<rparr>)
        else if strcmpstart cp (lit ''(git-'') = 0
        then case memchr cp 41 of
               None \<Rightarrow> None
             | Some close_paren \<Rightarrow>
                 let hexlen = close_paren - 5
                 in if hexlen > HEX_DIGEST_LEN then None
                    else if hexlen = 0 \<or> hexlen mod 2 = 1 then None
                    else let (r, digest) = base16_decode (replicate (hexlen div 2) 0) (take hexlen (drop 5 cp))
                         in if r \<noteq> int (hexlen div 2) then None
                            else Some (out\<lparr> ver_git_tag := digest @ drop (hexlen div 2) (ver_git_tag out), ver_git_tag_len := int (hexlen div 2) \<rparr>)
        else Some out)"

definition tor_version_parse :: "bytes \<Rightarrow> tor_version option" where
  "tor_version_parse s = do {
     let cp = (if strcasecmpstart s (lit ''Tor '') = 0 then drop 4 s else s);
     (major, cp) \<leftarrow> ver_number cp;
     cp \<leftarrow> ver_dot cp;
     (minor, cp) \<leftarrow> ver_number cp;
     let out = ver_zero\<lparr> ver_major := major, ver_minor := minor \<rparr>;
     if cp = [] then Some out
     else if hd cp = 45 then ver_tail out cp
     else do {
       cp \<leftarrow> ver_dot cp;
       (micro, cp) \<leftarrow> ver_number cp;
       let out = out\<lparr> ver_micro := micro \<rparr>;
       if cp = [] then Some out
       else if hd cp = 45 then ver_tail out cp
       else do {
         (out, cp) \<leftarrow>
           (if hd cp = 46 then Some (out, tl cp)
            else if strncmp cp (lit ''pre'') 3 = 0 then Some (out\<lparr> ver_status := VER_PRE \<rparr>, drop 3 cp)
            else if strncmp cp (lit ''rc'') 2 = 0 then Some (out\<lparr> ver_status := VER_RC \<rparr>, drop 2 cp)
            else None);
         (patchlevel, cp) \<leftarrow> ver_number cp;
         ver_tail (out\<lparr> ver_patchlevel := patchlevel \<rparr>) cp } } }"

fun status_num :: "ver_status \<Rightarrow> int" where
  "status_num VER_PRE = 0" | "status_num VER_RC = 1" | "status_num VER_RELEASE = 2"

text \<open>The macro \<^verbatim>\<open>CMP\<close>: 0 goes on to the next field.\<close>

definition ver_cmp :: "int \<Rightarrow> int \<Rightarrow> int" where
  "ver_cmp a b = (let result = sint ((word_of_int a :: 32 word) - word_of_int b) in if result < 0 then -1 else if result > 0 then 1 else 0)"

definition tor_version_compare :: "tor_version \<Rightarrow> tor_version \<Rightarrow> int" where
  "tor_version_compare a b =
    (if ver_cmp (ver_major a) (ver_major b) \<noteq> 0 then ver_cmp (ver_major a) (ver_major b)
     else if ver_cmp (ver_minor a) (ver_minor b) \<noteq> 0 then ver_cmp (ver_minor a) (ver_minor b)
     else if ver_cmp (ver_micro a) (ver_micro b) \<noteq> 0 then ver_cmp (ver_micro a) (ver_micro b)
     else if ver_cmp (status_num (ver_status a)) (status_num (ver_status b)) \<noteq> 0
     then ver_cmp (status_num (ver_status a)) (status_num (ver_status b))
     else if ver_cmp (ver_patchlevel a) (ver_patchlevel b) \<noteq> 0 then ver_cmp (ver_patchlevel a) (ver_patchlevel b)
     else if strcmp (ver_status_tag a) (ver_status_tag b) \<noteq> 0 then strcmp (ver_status_tag a) (ver_status_tag b)
     else if ver_cmp (ver_svn_revision a) (ver_svn_revision b) \<noteq> 0 then ver_cmp (ver_svn_revision a) (ver_svn_revision b)
     else if ver_cmp (ver_git_tag_len a) (ver_git_tag_len b) \<noteq> 0 then ver_cmp (ver_git_tag_len a) (ver_git_tag_len b)
     else if ver_git_tag_len a \<noteq> 0
     then memcmp_ref (take (nat (ver_git_tag_len a)) (ver_git_tag a)) (take (nat (ver_git_tag_len a)) (ver_git_tag b))
     else 0)"

definition tor_version_same_series :: "tor_version \<Rightarrow> tor_version \<Rightarrow> bool" where
  "tor_version_same_series a b \<longleftrightarrow> ver_major a = ver_major b \<and> ver_minor a = ver_minor b \<and> ver_micro a = ver_micro b"

datatype version_status = VS_RECOMMENDED | VS_OLD | VS_NEW | VS_NEW_IN_SERIES | VS_UNRECOMMENDED | VS_EMPTY | VS_UNKNOWN

record obsolete_state =
  found_newer :: bool
  found_older :: bool
  found_newer_in_series :: bool
  found_any_in_series :: bool

text \<open>The loop over the list; \<open>None\<close> is the jump to \<^verbatim>\<open>done\<close> with \<^verbatim>\<open>VS_RECOMMENDED\<close>.\<close>

fun obsolete_loop :: "tor_version \<Rightarrow> bytes list \<Rightarrow> obsolete_state \<Rightarrow> obsolete_state option" where
  "obsolete_loop mine [] st = Some st"
| "obsolete_loop mine (cp # sl) st =
    (let cp = (if strcmpstart cp (lit ''Tor '') = 0 then drop 4 cp else cp)
     in case tor_version_parse cp of
          None \<Rightarrow> obsolete_loop mine sl st
        | Some other \<Rightarrow>
            let same = tor_version_same_series mine other;
                st = (if same then st\<lparr> found_any_in_series := True \<rparr> else st);
                r = tor_version_compare mine other
            in if r = 0 then None
               else if r < 0
               then obsolete_loop mine sl
                 (let st = st\<lparr> found_newer := True \<rparr> in if same then st\<lparr> found_newer_in_series := True \<rparr> else st)
               else obsolete_loop mine sl (st\<lparr> found_older := True \<rparr>))"

definition tor_version_is_obsolete :: "bytes \<Rightarrow> bytes \<Rightarrow> version_status option" where
  "tor_version_is_obsolete myversion versionlist = do {
     mine \<leftarrow> tor_version_parse myversion;
     version_sl \<leftarrow> smartlist_split_string versionlist (Some (lit '','')) \<lparr> SKIP_SPACE = True, IGNORE_BLANK = False, STRIP_SPACE = False \<rparr> 0;
     Some (if versionlist = [] then VS_EMPTY
           else case obsolete_loop mine version_sl
                  \<lparr> found_newer = False, found_older = False, found_newer_in_series = False, found_any_in_series = False \<rparr> of
                  None \<Rightarrow> VS_RECOMMENDED
                | Some st \<Rightarrow>
                    if found_any_in_series st \<and> \<not> found_newer_in_series st \<and> found_newer st then VS_NEW_IN_SERIES
                    else if found_newer st \<and> \<not> found_older st then VS_OLD
                    else if found_older st \<and> \<not> found_newer st then VS_NEW
                    else VS_UNRECOMMENDED) }"

text \<open>The returned number, with the version when it is 1.\<close>

definition tor_version_parse_platform :: "bytes \<Rightarrow> bool \<Rightarrow> int \<times> tor_version option" where
  "tor_version_parse_platform platform strict =
    (if strcmpstart platform (lit ''Tor '') \<noteq> 0 then (0, None)
     else let start = eat_whitespace (drop 3 platform)
          in if start = [] then (-1, None)
             else let s = find_whitespace start; s2 = eat_whitespace s;
                      s = (if strcmpstart s2 (lit ''(r'') = 0 \<or> strcmpstart s2 (lit ''(git-'') = 0 then find_whitespace s2 else s);
                      n = length start - length s
                  in if n + 1 \<ge> 128 then (-1, None)
                     else case tor_version_parse (take n start) of
                            None \<Rightarrow> (-1, None)
                          | Some v \<Rightarrow>
                              if strict \<and> (ver_major v < 0 \<or> ver_minor v < 0 \<or> ver_micro v < 0 \<or> ver_patchlevel v < 0 \<or> ver_svn_revision v < 0)
                              then (-1, None) else (1, Some v))"

definition tor_version_as_new_as :: "bytes \<Rightarrow> bytes \<Rightarrow> bool" where
  "tor_version_as_new_as platform cutoff =
    (case tor_version_parse cutoff of
       None \<Rightarrow> False
     | Some cutoff_version \<Rightarrow>
         (case tor_version_parse_platform platform False of
            (r, Some router_version) \<Rightarrow> if r = 0 then True else if r < 0 then True else tor_version_compare router_version cutoff_version \<ge> 0
          | (r, None) \<Rightarrow> True))"

definition compare_tor_version_str_ptr :: "bytes \<Rightarrow> bytes \<Rightarrow> int" where
  "compare_tor_version_str_ptr a b =
    (case (tor_version_parse a, tor_version_parse b) of
       (Some va, Some vb) \<Rightarrow> tor_version_compare va vb
     | (Some va, None) \<Rightarrow> -1
     | (None, Some vb) \<Rightarrow> 1
     | (None, None) \<Rightarrow> strcmp a b)"

definition sort_version_list :: "((bytes \<Rightarrow> bytes \<Rightarrow> int) \<Rightarrow> bytes list \<Rightarrow> bytes list) \<Rightarrow> bytes list \<Rightarrow> bool \<Rightarrow> bytes list" where
  "sort_version_list qsort versions remove_duplicates =
    (let versions = smartlist_sort qsort compare_tor_version_str_ptr versions
     in if remove_duplicates then smartlist_uniq compare_tor_version_str_ptr versions else versions)"

section \<open>The order of versions\<close>

text \<open>What the parser guarantees of the numbers (short of the revision, which may be anything).\<close>

definition ver_ok :: "tor_version \<Rightarrow> bool" where
  "ver_ok v \<longleftrightarrow> 0 \<le> ver_major v \<and> ver_major v \<le> int INT_MAX \<and> 0 \<le> ver_minor v \<and> ver_minor v \<le> int INT_MAX \<and>
     0 \<le> ver_micro v \<and> ver_micro v \<le> int INT_MAX \<and> 0 \<le> ver_patchlevel v \<and> ver_patchlevel v \<le> int INT_MAX \<and>
     is_c_str (ver_status_tag v) \<and> length (ver_status_tag v) < MAX_STATUS_TAG_LEN \<and>
     0 \<le> ver_git_tag_len v \<and> ver_git_tag_len v \<le> int DIGEST_LEN \<and> length (ver_git_tag v) = DIGEST_LEN \<and>
     - 2147483648 \<le> ver_svn_revision v \<and> ver_svn_revision v \<le> int INT_MAX"

text \<open>The lexicographic key that the comparison is meant to follow.\<close>

definition ver_key :: "tor_version \<Rightarrow> int \<times> int \<times> int \<times> int \<times> int \<times> bytes \<times> int \<times> int \<times> bytes" where
  "ver_key v = (ver_major v, ver_minor v, ver_micro v, status_num (ver_status v), ver_patchlevel v, ver_status_tag v,
     ver_svn_revision v, ver_git_tag_len v, take (nat (ver_git_tag_len v)) (ver_git_tag v))"

lemma ver_cmp_exact:
  assumes "- 2147483648 \<le> a - b" and "a - b \<le> 2147483647"
  shows "ver_cmp a b = (if a < b then -1 else if b < a then 1 else 0)"
proof -
  have "sint ((word_of_int a :: 32 word) - word_of_int b) = a - b"
    using assms by (simp flip: of_int_diff add: signed_of_int signed_take_bit_int_eq_self)
  then show ?thesis by (simp add: ver_cmp_def Let_def)
qed

lemma strncmp_by_lex:
  "is_c_str a \<Longrightarrow> is_c_str b \<Longrightarrow> max (length a) (length b) \<le> n \<Longrightarrow> strncmp_by id a b n < 0 \<longleftrightarrow> a < b"
proof (induction "id :: byte \<Rightarrow> byte" a b n rule: strncmp_by.induct)
  case (3 b t n)
  then have "uint b \<noteq> 0" by (auto simp: c_string_simps unsigned_eq_0_iff)
  then have "0 < uint b" using byte_uint_bounds [of b] by linarith
  then show ?case by simp
next
  case (4 a s n)
  then show ?case using byte_uint_bounds [of a] by simp
next
  case (5 a s b t n)
  then show ?case by (auto simp: c_string_simps word_less_def)
qed simp_all

lemma strcmp_lex: "is_c_str a \<Longrightarrow> is_c_str b \<Longrightarrow> strcmp a b < 0 \<longleftrightarrow> a < b"
  using strncmp_by_lex by (simp add: strcmp_def strncmp_def)

lemma memcmp_ref_lex: "length a = length b \<Longrightarrow> memcmp_ref a b < 0 \<longleftrightarrow> a < b"
  by (simp add: memcmp_ref_less list_less_def)

lemma ver_cmp_nonneg:
  assumes "0 \<le> a" and "a \<le> int INT_MAX" and "0 \<le> b" and "b \<le> int INT_MAX"
  shows "ver_cmp a b = (if a < b then -1 else if b < a then 1 else 0)"
  using assms by (intro ver_cmp_exact) (auto )

lemma ver_cmp_same [simp]: "ver_cmp a a = 0"
  by (simp add: ver_cmp_def)

lemma strcmp_same: "is_c_str a \<Longrightarrow> strcmp a a = 0"
  by (simp add: strcmp_eq_0)

lemma status_num_bounds: "0 \<le> status_num s \<and> status_num s \<le> int INT_MAX"
  by (cases s) (auto )

lemma status_num_inj: "status_num a = status_num b \<longleftrightarrow> a = b"
  by (cases a; cases b) auto

text \<open>The fields before the revision, and the case in which the difference of the revisions does not fit an \<^verbatim>\<open>int\<close>.\<close>

definition ver_head :: "tor_version \<Rightarrow> int \<times> int \<times> int \<times> ver_status \<times> int \<times> bytes" where
  "ver_head v = (ver_major v, ver_minor v, ver_micro v, ver_status v, ver_patchlevel v, ver_status_tag v)"

definition svn_wraps :: "tor_version \<Rightarrow> tor_version \<Rightarrow> bool" where
  "svn_wraps a b \<longleftrightarrow> ver_head a = ver_head b \<and>
     (ver_svn_revision a - ver_svn_revision b < - 2147483648 \<or> ver_svn_revision a - ver_svn_revision b > int INT_MAX)"

lemma ver_cmp_wrapped:
  assumes "- 2147483648 \<le> a" and "a \<le> int INT_MAX" and "- 2147483648 \<le> b" and "b \<le> int INT_MAX"
    and "a - b < - 2147483648 \<or> a - b > int INT_MAX"
  shows "ver_cmp a b = (if a < b then 1 else -1)"
proof -
  define d where "d = (if a < b then a - b + 4294967296 else a - b - 4294967296)"
  have "(word_of_int a :: 32 word) - word_of_int b = word_of_int (a - b)" by simp
  also have "\<dots> = word_of_int d" by (simp only: word_of_int_eq_iff) (simp add: d_def take_bit_eq_mod)
  finally have w: "(word_of_int a :: 32 word) - word_of_int b = word_of_int d" .
  have "- 2147483648 \<le> d \<and> d < 2147483648" using assms by (auto simp: d_def)
  then have "sint ((word_of_int a :: 32 word) - word_of_int b) = d" by (simp add: w signed_of_int signed_take_bit_int_eq_self)
  then show ?thesis using assms by (simp add: ver_cmp_def d_def)
qed

lemma svn_wraps_reversed:
  assumes "ver_ok a" and "ver_ok b" and "svn_wraps a b"
  shows "(tor_version_compare a b < 0 \<longleftrightarrow> ver_key b < ver_key a) \<and> tor_version_compare a b \<noteq> 0 \<and>
    (tor_version_compare a b > 0 \<longleftrightarrow> ver_key a < ver_key b)"
proof -
  have c: "ver_cmp (ver_svn_revision a) (ver_svn_revision b) = (if ver_svn_revision a < ver_svn_revision b then 1 else -1)"
    using assms by (intro ver_cmp_wrapped) (auto simp: ver_ok_def svn_wraps_def)
  have ne: "ver_svn_revision a \<noteq> ver_svn_revision b" using assms(3) by (auto simp: svn_wraps_def)
  have "tor_version_compare a b = (if ver_svn_revision a < ver_svn_revision b then 1 else -1)"
    using assms strcmp_same by (auto simp: tor_version_compare_def c svn_wraps_def ver_head_def ver_ok_def)
  then show ?thesis using assms(3) ne by (auto simp: ver_key_def svn_wraps_def ver_head_def)
qed

lemma tor_version_compare_lex:
  assumes "ver_ok a" and "ver_ok b" and "\<not> svn_wraps a b"
  shows "(tor_version_compare a b < 0 \<longleftrightarrow> ver_key a < ver_key b) \<and>
    (tor_version_compare a b = 0 \<longleftrightarrow> ver_key a = ver_key b) \<and>
    (tor_version_compare a b > 0 \<longleftrightarrow> ver_key b < ver_key a)"
proof -
  note ok = assms [unfolded ver_ok_def]
  have len: "int DIGEST_LEN \<le> int INT_MAX" by simp
  have cmp: "ver_cmp (ver_major a) (ver_major b) = (if ver_major a < ver_major b then -1 else if ver_major b < ver_major a then 1 else 0)"
    "ver_cmp (ver_minor a) (ver_minor b) = (if ver_minor a < ver_minor b then -1 else if ver_minor b < ver_minor a then 1 else 0)"
    "ver_cmp (ver_micro a) (ver_micro b) = (if ver_micro a < ver_micro b then -1 else if ver_micro b < ver_micro a then 1 else 0)"
    "ver_cmp (status_num (ver_status a)) (status_num (ver_status b)) =
      (if status_num (ver_status a) < status_num (ver_status b) then -1 else if status_num (ver_status b) < status_num (ver_status a) then 1 else 0)"
    "ver_cmp (ver_patchlevel a) (ver_patchlevel b) =
      (if ver_patchlevel a < ver_patchlevel b then -1 else if ver_patchlevel b < ver_patchlevel a then 1 else 0)"
    "ver_cmp (ver_git_tag_len a) (ver_git_tag_len b) =
      (if ver_git_tag_len a < ver_git_tag_len b then -1 else if ver_git_tag_len b < ver_git_tag_len a then 1 else 0)"
    using ok status_num_bounds len by (intro ver_cmp_nonneg; force)+
  have svn: "ver_cmp (ver_svn_revision a) (ver_svn_revision b) =
      (if ver_svn_revision a < ver_svn_revision b then -1 else if ver_svn_revision b < ver_svn_revision a then 1 else 0)" if "ver_head a = ver_head b"
    using that assms(3) by (intro ver_cmp_exact) (auto simp: svn_wraps_def)
  have tag: "strcmp (ver_status_tag a) (ver_status_tag b) < 0 \<longleftrightarrow> ver_status_tag a < ver_status_tag b"
    "strcmp (ver_status_tag a) (ver_status_tag b) = 0 \<longleftrightarrow> ver_status_tag a = ver_status_tag b"
    using ok strcmp_lex strcmp_eq_0 by auto
  define ga where "ga = take (nat (ver_git_tag_len a)) (ver_git_tag a)"
  define gb where "gb = take (nat (ver_git_tag_len b)) (ver_git_tag b)"
  have git: "memcmp_ref ga gb < 0 \<longleftrightarrow> ga < gb" "memcmp_ref ga gb = 0 \<longleftrightarrow> ga = gb" if "ver_git_tag_len a = ver_git_tag_len b"
    using ok that by (simp_all add: ga_def gb_def memcmp_ref_lex memcmp_ref_0)
  have neg: "(i :: int) > 0 \<longleftrightarrow> \<not> i < 0 \<and> i \<noteq> 0" for i by auto
  have "(tor_version_compare a b < 0 \<longleftrightarrow> ver_key a < ver_key b) \<and> (tor_version_compare a b = 0 \<longleftrightarrow> ver_key a = ver_key b)"
  proof (cases "ver_major a = ver_major b \<and> ver_minor a = ver_minor b \<and> ver_micro a = ver_micro b \<and> ver_status a = ver_status b \<and>
      ver_patchlevel a = ver_patchlevel b \<and> ver_status_tag a = ver_status_tag b \<and> ver_svn_revision a = ver_svn_revision b \<and>
      ver_git_tag_len a = ver_git_tag_len b")
    case True
    then have g: "tor_version_compare a b = (if ver_git_tag_len a \<noteq> 0 then memcmp_ref ga gb else 0)"
      using ok by (simp add: tor_version_compare_def strcmp_same ga_def gb_def)
    have "ver_key a < ver_key b \<longleftrightarrow> ga < gb" "ver_key a = ver_key b \<longleftrightarrow> ga = gb"
      using True by (simp_all add: ver_key_def ga_def gb_def)
    then show ?thesis using git True by (auto simp: g ga_def gb_def)
  next
    case other: False
    show ?thesis
    proof (cases "ver_head a = ver_head b")
      case True
      then show ?thesis using other tag svn [OF True]
        by (auto simp: tor_version_compare_def cmp ver_key_def ver_head_def status_num_inj)
    next
      case False
      then show ?thesis using tag by (auto simp: tor_version_compare_def cmp ver_key_def ver_head_def status_num_inj)
    qed
  qed
  then show ?thesis using neg [of "tor_version_compare a b"] by auto
qed

text \<open>What the parser returns.\<close>

lemma ver_number_bounds: "ver_number cp = Some (v, r) \<Longrightarrow> 0 \<le> v \<and> v \<le> int INT_MAX"
  by (auto simp: ver_number_def tor_parse_uint64_def CHECK_STRTOX_RESULT_def Let_def split: if_splits option.splits prod.splits)

lemma is_c_str_subset: "set r \<subseteq> set s \<Longrightarrow> is_c_str s \<Longrightarrow> is_c_str r"
  by (auto simp: is_c_str_def)

lemma set_dropWhile_subset: "set (dropWhile P s) \<subseteq> set s"
  by (auto dest: set_dropWhileD)

lemma strto_sign_subset: "set (snd (strto_sign s)) \<subseteq> set s"
  using set_dropWhile_subset [of TOR_ISSPACE s] by (auto simp: strto_sign_def split: list.splits)

lemma strto_base_subset: "set (snd (strto_base b s)) \<subseteq> set s"
  by (auto simp: strto_base_def Let_def dest: in_set_dropD)

lemma strtoul_subset: "set (snd (snd (strtoul s b))) \<subseteq> set s"
proof -
  have "set r \<subseteq> set s" if "strto_scan s b = Some (neg, n, r)" for neg n r
  proof -
    obtain ng s1 b1 s2 where s: "strto_sign s = (ng, s1)" "strto_base b s1 = (b1, s2)" by fastforce
    then have "set s1 \<subseteq> set s" "set s2 \<subseteq> set s1" using strto_sign_subset [of s] strto_base_subset [of b s1] by auto
    moreover have "r = dropWhile (is_digit_of b1) s2" using that s by (auto simp: strto_scan_def Let_def split: if_splits)
    ultimately show ?thesis using set_dropWhile_subset [of "is_digit_of b1" s2] by blast
  qed
  then show ?thesis by (auto simp: strtoul_def split: option.splits)
qed

lemma ver_number_subset: "ver_number cp = Some (v, r) \<Longrightarrow> set r \<subseteq> set cp"
  using strtoul_subset [of cp 10]
  by (auto simp: ver_number_def tor_parse_uint64_def CHECK_STRTOX_RESULT_def Let_def split: if_splits option.splits prod.splits)

lemma ver_dot_subset: "ver_dot cp = Some r \<Longrightarrow> set r \<subseteq> set cp"
  by (auto simp: ver_dot_def split: list.splits if_splits)

text \<open>A version whose numbers are in range and that has no revision and no git tag yet.\<close>

definition ver_plain :: "tor_version \<Rightarrow> bool" where
  "ver_plain v \<longleftrightarrow> ver_ok v \<and> ver_svn_revision v = 0 \<and> ver_git_tag_len v = 0"

lemma base16_decode_loop_length: "length (snd (base16_decode_loop dest d src)) = length dest"
  by (induction dest d src rule: base16_decode_loop.induct) (auto simp: Let_def)

lemma base16_decode_result_length: "length (snd (base16_decode dest src)) = length dest"
  by (simp add: base16_decode_def base16_decode_loop_length)

lemma to_int_bounds: "- 2147483648 \<le> to_int v \<and> to_int v \<le> int INT_MAX"
  using sint_range_size [of "word_of_int v :: 32 word"] by (simp add: to_int_def word_size)

lemma ver_git_ok:
  assumes "base16_decode (replicate h 0) src = (r, digest)" and "2 * h \<le> HEX_DIGEST_LEN" and "ver_plain out"
  shows "ver_ok (out\<lparr> ver_git_tag := digest @ drop h (ver_git_tag out), ver_git_tag_len := int h \<rparr>)"
proof -
  have "length digest = h" using base16_decode_result_length [of "replicate h 0" src] assms(1) by simp
  then show ?thesis using assms(2,3) by (auto simp: ver_plain_def ver_ok_def)
qed

lemma ver_tail_ok:
  assumes "ver_tail out cp = Some v" and "ver_plain out" and "is_c_str cp"
  shows "ver_ok v"
proof -
  define cp1 where "cp1 = (if cp \<noteq> [] \<and> (hd cp = 45 \<or> hd cp = 46) then tl cp else cp)"
  define eos where "eos = find_whitespace cp1"
  define n where "n = length cp1 - length eos"
  define out1 where "out1 = out\<lparr> ver_status_tag := (if n \<ge> MAX_STATUS_TAG_LEN then take (MAX_STATUS_TAG_LEN - 1) cp1 else take n cp1) \<rparr>"
  have "is_c_str cp1" using assms(3) by (cases cp) (auto simp: cp1_def c_string_simps)
  then have ok1: "ver_plain out1" using assms(2)
    by (auto simp: out1_def ver_plain_def ver_ok_def MAX_STATUS_TAG_LEN_def c_string_simps)
  then have rev: "ver_ok (out1\<lparr> ver_svn_revision := to_int r \<rparr>)" for r
    using to_int_bounds [of r] by (simp add: ver_plain_def ver_ok_def)
  have "ver_ok out1" using ok1 by (simp add: ver_plain_def)
  moreover have "2 * (h div 2) \<le> HEX_DIGEST_LEN" if "h \<le> HEX_DIGEST_LEN" for h using that by simp
  ultimately show ?thesis
    using assms(1) rev ver_git_ok [OF _ _ ok1]
    unfolding ver_tail_def cp1_def [symmetric] Let_def eos_def [symmetric] n_def [symmetric] out1_def [symmetric]
    by (fastforce split: if_splits option.splits prod.splits)
qed

lemma ver_plain_simps [simp]:
  "ver_plain ver_zero"
  "0 \<le> n \<Longrightarrow> n \<le> int INT_MAX \<Longrightarrow> ver_plain v \<Longrightarrow> ver_plain (v\<lparr> ver_major := n \<rparr>)"
  "0 \<le> n \<Longrightarrow> n \<le> int INT_MAX \<Longrightarrow> ver_plain v \<Longrightarrow> ver_plain (v\<lparr> ver_minor := n \<rparr>)"
  "0 \<le> n \<Longrightarrow> n \<le> int INT_MAX \<Longrightarrow> ver_plain v \<Longrightarrow> ver_plain (v\<lparr> ver_micro := n \<rparr>)"
  "0 \<le> n \<Longrightarrow> n \<le> int INT_MAX \<Longrightarrow> ver_plain v \<Longrightarrow> ver_plain (v\<lparr> ver_patchlevel := n \<rparr>)"
  "ver_plain v \<Longrightarrow> ver_plain (v\<lparr> ver_status := s \<rparr>)"
  by (simp_all add: ver_plain_def ver_ok_def ver_zero_def MAX_STATUS_TAG_LEN_def c_string_simps)

lemma ver_plain_ok: "ver_plain v \<Longrightarrow> ver_ok v"
  by (simp add: ver_plain_def)

lemma tor_version_parse_ok:
  assumes "tor_version_parse s = Some v" and "is_c_str s"
  shows "ver_ok v"
proof -
  define cp0 where "cp0 = (if strcasecmpstart s (lit ''Tor '') = 0 then drop 4 s else s)"
  have c0: "is_c_str cp0" using assms(2) by (auto simp: cp0_def is_c_str_def dest: in_set_dropD)
  obtain major cp1 cp2 minor cp3 where
    1: "ver_number cp0 = Some (major, cp1)" "ver_dot cp1 = Some cp2" "ver_number cp2 = Some (minor, cp3)"
    using assms(1) by (auto simp: tor_version_parse_def cp0_def Let_def split: bind_splits prod.splits)
  have c3: "is_c_str cp3" using 1 ver_number_subset ver_dot_subset is_c_str_subset c0 by meson
  define out where "out = ver_zero\<lparr> ver_major := major, ver_minor := minor \<rparr>"
  have out: "ver_plain out" using 1 ver_number_bounds by (simp add: out_def)
  show ?thesis
  proof (cases "cp3 = [] \<or> hd cp3 = 45")
    case True
    then show ?thesis using assms(1) 1 out c3 ver_tail_ok [of out cp3 v]
      by (auto simp: tor_version_parse_def cp0_def [symmetric] Let_def out_def [symmetric] ver_plain_ok split: if_splits)
  next
    case False
    then obtain cp4 micro cp5 where 2: "ver_dot cp3 = Some cp4" "ver_number cp4 = Some (micro, cp5)"
      using assms(1) 1 by (auto simp: tor_version_parse_def cp0_def [symmetric] Let_def split: bind_splits prod.splits)
    have c5: "is_c_str cp5" using 2 ver_number_subset ver_dot_subset is_c_str_subset c3 by meson
    define out2 where "out2 = out\<lparr> ver_micro := micro \<rparr>"
    have out2: "ver_plain out2" using 2 ver_number_bounds out by (simp add: out2_def)
    show ?thesis
    proof (cases "cp5 = [] \<or> hd cp5 = 45")
      case True
      then show ?thesis using assms(1) 1 2 False out2 c5 ver_tail_ok [of out2 cp5 v]
        by (auto simp: tor_version_parse_def cp0_def [symmetric] Let_def out_def [symmetric] out2_def [symmetric] ver_plain_ok split: if_splits)
    next
      case f5: False
      obtain out3 cp6 patch cp7 where 3: "ver_plain out3" "set cp6 \<subseteq> set cp5" "ver_number cp6 = Some (patch, cp7)"
        "ver_tail (out3\<lparr> ver_patchlevel := patch \<rparr>) cp7 = Some v"
      proof -
        show thesis
          using assms(1) 1 2 False f5 out2 that [of out2 "tl cp5"]
            that [of "out2\<lparr> ver_status := VER_PRE \<rparr>" "drop 3 cp5"] that [of "out2\<lparr> ver_status := VER_RC \<rparr>" "drop 2 cp5"]
            set_drop_subset [of 3 cp5] set_drop_subset [of 2 cp5] set_drop_subset [of 1 cp5]
          by (simp add: tor_version_parse_def cp0_def [symmetric] Let_def out_def [symmetric] out2_def [symmetric] drop_Suc
            split: if_splits bind_splits prod.splits)
      qed
      have "is_c_str cp7" using 3 ver_number_subset is_c_str_subset c5 by meson
      then show ?thesis using 3 ver_number_bounds [OF 3(3)] ver_tail_ok by (metis ver_plain_simps(5))
    qed
  qed
qed

text \<open>C32: Any two version strings that parse are compared by the lexicographic order of (major, minor, micro, status, patch level,
  status tag, revision, length of the git tag, git tag), with one exception: if all that comes before the revisions is the same and the
  difference of the revisions does not fit an \<^verbatim>\<open>int\<close>, then the subtraction of the comparison wraps and the answer is the reverse of that
  order. This takes a negative revision, which the parser lets through. All other numbers are bounded by the parser
  and cannot wrap. The comparison is the one that \<^verbatim>\<open>sort_version_list\<close> sorts by.\<close>

theorem tor_version_order:
  assumes "tor_version_parse s = Some a" and "tor_version_parse t = Some b" and "is_c_str s" and "is_c_str t"
  shows "ver_ok a \<and> ver_ok b \<and> compare_tor_version_str_ptr s t = tor_version_compare a b \<and>
    (0 \<le> ver_svn_revision a \<and> 0 \<le> ver_svn_revision b \<longrightarrow> \<not> svn_wraps a b) \<and>
    (if svn_wraps a b
     then (tor_version_compare a b < 0 \<longleftrightarrow> ver_key b < ver_key a) \<and> tor_version_compare a b \<noteq> 0 \<and>
       (tor_version_compare a b > 0 \<longleftrightarrow> ver_key a < ver_key b)
     else (tor_version_compare a b < 0 \<longleftrightarrow> ver_key a < ver_key b) \<and> (tor_version_compare a b = 0 \<longleftrightarrow> ver_key a = ver_key b) \<and>
       (tor_version_compare a b > 0 \<longleftrightarrow> ver_key b < ver_key a))"
proof -
  have ok: "ver_ok a" "ver_ok b" using assms tor_version_parse_ok by blast+
  moreover have "0 \<le> ver_svn_revision a \<and> 0 \<le> ver_svn_revision b \<longrightarrow> \<not> svn_wraps a b" using ok by (auto simp: svn_wraps_def ver_ok_def)
  moreover have "compare_tor_version_str_ptr s t = tor_version_compare a b" using assms by (simp add: compare_tor_version_str_ptr_def)
  ultimately show ?thesis using svn_wraps_reversed [OF ok] tor_version_compare_lex [OF ok] by simp
qed

section \<open>Recommended versions\<close>

text \<open>The versions of the list that parse.\<close>

definition listed_versions :: "bytes list \<Rightarrow> tor_version list" where
  "listed_versions sl = List.map_filter (\<lambda>cp. tor_version_parse (if strcmpstart cp (lit ''Tor '') = 0 then drop 4 cp else cp)) sl"

lemma obsolete_loop_spec:
  "obsolete_loop mine sl st =
    (if \<exists>v \<in> set (listed_versions sl). tor_version_compare mine v = 0 then None
     else Some \<lparr> found_newer = (found_newer st \<or> (\<exists>v \<in> set (listed_versions sl). tor_version_compare mine v < 0)),
       found_older = (found_older st \<or> (\<exists>v \<in> set (listed_versions sl). tor_version_compare mine v > 0)),
       found_newer_in_series = (found_newer_in_series st \<or>
         (\<exists>v \<in> set (listed_versions sl). tor_version_compare mine v < 0 \<and> tor_version_same_series mine v)),
       found_any_in_series = (found_any_in_series st \<or> (\<exists>v \<in> set (listed_versions sl). tor_version_same_series mine v)) \<rparr>)"
proof (induction sl arbitrary: st)
  case Nil
  then show ?case by (simp add: listed_versions_def)
next
  case (Cons cp sl)
  define cp' where "cp' = (if strcmpstart cp (lit ''Tor '') = 0 then drop 4 cp else cp)"
  show ?case
  proof (cases "tor_version_parse cp'")
    case None
    then have "listed_versions (cp # sl) = listed_versions sl" by (simp add: listed_versions_def cp'_def List.map_filter_simps)
    then show ?thesis using None Cons.IH by (simp add: Let_def cp'_def [symmetric])
  next
    case (Some v)
    then have l: "listed_versions (cp # sl) = v # listed_versions sl" by (simp add: listed_versions_def cp'_def List.map_filter_simps)
    then show ?thesis using Some
      by (auto simp: Let_def cp'_def [symmetric] Cons.IH not_less)
  qed
qed

lemma listed_series:
  assumes "\<forall>v \<in> set vs. tor_version_compare mine v \<noteq> 0" and "v \<in> set vs" and "tor_version_same_series mine v"
    and "\<forall>v \<in> set vs. \<not> (tor_version_compare mine v < 0 \<and> tor_version_same_series mine v)"
  shows "tor_version_compare mine v > 0"
  using assms by (metis linorder_neqE)

text \<open>C33: The verdict on our version is a function of how it compares with the listed versions that parse: recommended
  iff it is listed; otherwise old iff some listed version is newer and none is older, new iff some is older and none
  is newer, new in series iff both kinds occur and the series has members, all older; unrecommended in every other case,
  also when nothing in the list parses.  The call stops the process exactly when our own version does not parse.\<close>

theorem tor_version_is_obsolete_correct:
  assumes "smartlist_split_string versionlist (Some (lit '','')) \<lparr> SKIP_SPACE = True, IGNORE_BLANK = False, STRIP_SPACE = False \<rparr> 0 = Some sl"
    and "vs = set (listed_versions sl)"
  shows "tor_version_is_obsolete myversion versionlist =
    (case tor_version_parse myversion of
       None \<Rightarrow> None
     | Some mine \<Rightarrow>
         let listed = (\<exists>v \<in> vs. tor_version_compare mine v = 0);
             newer = (\<exists>v \<in> vs. tor_version_compare mine v < 0);
             older = (\<exists>v \<in> vs. tor_version_compare mine v > 0);
             series = {v \<in> vs. tor_version_same_series mine v}
         in Some (if versionlist = [] then VS_EMPTY
                  else if listed then VS_RECOMMENDED
                  else if newer \<and> \<not> older then VS_OLD
                  else if older \<and> \<not> newer then VS_NEW
                  else if newer \<and> series \<noteq> {} \<and> \<not> (\<exists>v \<in> series. tor_version_compare mine v < 0) then VS_NEW_IN_SERIES
                  else VS_UNRECOMMENDED))"
proof (cases "tor_version_parse myversion")
  case None
  then show ?thesis by (simp add: tor_version_is_obsolete_def)
next
  case (Some mine)
  show ?thesis
  proof (cases "\<exists>v \<in> vs. tor_version_compare mine v = 0")
    case True
    then show ?thesis using Some assms by (simp add: tor_version_is_obsolete_def obsolete_loop_spec)
  next
    case False
    define N where "N \<longleftrightarrow> (\<exists>v \<in> vs. tor_version_compare mine v < 0)"
    define Old where "Old \<longleftrightarrow> (\<exists>v \<in> vs. tor_version_compare mine v > 0)"
    define A where "A \<longleftrightarrow> (\<exists>v \<in> vs. tor_version_same_series mine v)"
    define NS where "NS \<longleftrightarrow> (\<exists>v \<in> vs. tor_version_compare mine v < 0 \<and> tor_version_same_series mine v)"
    have older: "Old" if "A" "\<not> NS"
      using that listed_series [of "listed_versions sl" mine] False assms(2) unfolding A_def NS_def Old_def by blast
    have series: "{v \<in> vs. tor_version_same_series mine v} \<noteq> {} \<longleftrightarrow> A"
      "(\<exists>v \<in> {v \<in> vs. tor_version_same_series mine v}. tor_version_compare mine v < 0) \<longleftrightarrow> NS"
      unfolding A_def NS_def by blast+
    have "obsolete_loop mine sl \<lparr> found_newer = False, found_older = False, found_newer_in_series = False, found_any_in_series = False \<rparr> =
      Some \<lparr> found_newer = N, found_older = Old, found_newer_in_series = NS, found_any_in_series = A \<rparr>"
      using False unfolding obsolete_loop_spec assms(2) [symmetric] N_def Old_def NS_def A_def by simp
    then have "tor_version_is_obsolete myversion versionlist =
      Some (if versionlist = [] then VS_EMPTY else if A \<and> \<not> NS \<and> N then VS_NEW_IN_SERIES else if N \<and> \<not> Old then VS_OLD
        else if Old \<and> \<not> N then VS_NEW else VS_UNRECOMMENDED)"
      using Some assms(1) by (simp add: tor_version_is_obsolete_def)
    then show ?thesis
      using older False unfolding Some option.case Let_def series N_def [symmetric] Old_def [symmetric] by auto
  qed
qed

theorem tor_version_is_obsolete_correct_witness:
  "tor_version_is_obsolete (lit ''0.4.8.2'') (lit ''Tor 0.4.8.1, junk, 0.5.0'') = Some VS_NEW_IN_SERIES"
proof -
  define v1 where "v1 = ver_zero\<lparr> ver_minor := 4, ver_micro := 8, ver_patchlevel := 1 \<rparr>"
  define v2 where "v2 = ver_zero\<lparr> ver_minor := 5 \<rparr>"
  have p: "tor_version_parse (lit ''0.4.8.2'') = Some (ver_zero\<lparr> ver_minor := 4, ver_micro := 8, ver_patchlevel := 2 \<rparr>)" by code_simp
  have s: "smartlist_split_string (lit ''Tor 0.4.8.1, junk, 0.5.0'') (Some (lit '','')) \<lparr> SKIP_SPACE = True, IGNORE_BLANK = False, STRIP_SPACE = False \<rparr> 0 =
    Some [lit ''Tor 0.4.8.1'', lit ''junk'', lit ''0.5.0'']" by code_simp
  have l: "listed_versions [lit ''Tor 0.4.8.1'', lit ''junk'', lit ''0.5.0''] = [v1, v2]" unfolding v1_def v2_def by code_simp
  have c: "tor_version_compare (ver_zero\<lparr> ver_minor := 4, ver_micro := 8, ver_patchlevel := 2 \<rparr>) v1 = 1"
    "tor_version_compare (ver_zero\<lparr> ver_minor := 4, ver_micro := 8, ver_patchlevel := 2 \<rparr>) v2 = -1"
    "tor_version_same_series (ver_zero\<lparr> ver_minor := 4, ver_micro := 8, ver_patchlevel := 2 \<rparr>) v1"
    "\<not> tor_version_same_series (ver_zero\<lparr> ver_minor := 4, ver_micro := 8, ver_patchlevel := 2 \<rparr>) v2"
    unfolding v1_def v2_def by code_simp+
  show ?thesis
    using tor_version_is_obsolete_correct [OF s refl, of "lit ''0.4.8.2''"] unfolding l p option.case Let_def by (auto simp: c lit_def)
qed

section \<open>Printed versions\<close>

definition version_text :: "nat \<Rightarrow> nat \<Rightarrow> nat \<Rightarrow> nat \<Rightarrow> bytes \<Rightarrow> bytes" where
  "version_text a b c d tag = decimal a @ 46 # decimal b @ 46 # decimal c @ 46 # decimal d @ (if tag = [] then [] else 45 # tag)"

lemma decimal_hd: "48 \<le> hd (decimal n) \<and> hd (decimal n) \<le> 57"
proof -
  have "is_digit_of 10 (hd (decimal n))" using decimal_digits [of n] decimal_nonempty [of n] hd_in_set by blast
  then show ?thesis by (simp add: digit_ranges word_le_nat_alt)
qed

lemma ver_number_decimal:
  assumes "int n \<le> int INT_MAX" and "rest = [] \<or> \<not> is_digit_of 10 (hd rest)"
  shows "ver_number (decimal n @ rest) = Some (int n, rest)"
proof -
  have "strtoul (decimal n @ rest) 10 = (int n, False, rest)"
    using assms(1) by (simp add: strtoul_def strto_scan_decimal [OF assms(2)])
  then show ?thesis
    using assms(1) decimal_nonempty [of n] decimal_hd [of n]
    by (simp add: ver_number_def tor_parse_uint64_def CHECK_STRTOX_RESULT_def Let_def not_less)
qed

lemma sep_no_digit: "\<not> is_digit_of 10 46" "\<not> is_digit_of 10 45"
  by (simp_all add: digit_ranges)

lemma digit_tolower:
  assumes "48 \<le> (c :: byte)" and "c \<le> 57"
  shows "TOR_TOLOWER c = c"
proof -
  have "unat c < 65" using assms by (simp add: word_le_nat_alt)
  then show ?thesis by (simp add: TOR_TOLOWER_def TOR_TOLOWER_TABLE_def nth_append)
qed

lemma tolower_T: "TOR_TOLOWER 84 = 116"
  by (simp add: TOR_TOLOWER_def TOR_TOLOWER_TABLE_def nth_append)

lemma not_tor_prefix: "strcasecmpstart (decimal n @ rest) (lit ''Tor '') \<noteq> 0"
proof -
  obtain c s where cs: "decimal n = c # s" using decimal_nonempty [of n] by (cases "decimal n") auto
  then have c: "48 \<le> c" "c \<le> 57" using decimal_hd [of n] by simp_all
  then have "uint c \<noteq> 116" "c \<noteq> 116" by (auto simp: word_le_def)
  then show ?thesis using cs c by (simp add: strcasecmpstart_def strncasecmp_def lit_def digit_tolower tolower_T)
qed

lemma eat_tail: "strcmpstart [] (lit ''(r'') \<noteq> 0" "strcmpstart [] (lit ''(git-'') \<noteq> 0"
  by (simp_all add: strcmpstart_def strncmp_def lit_def)

lemma ver_tail_tag:
  assumes "find_whitespace tag = []" and "length tag < MAX_STATUS_TAG_LEN"
  shows "ver_tail out (if tag = [] then [] else 45 # tag) = Some (out\<lparr> ver_status_tag := tag \<rparr>)"
proof -
  define cp where "cp = (if tag = [] then [] else 45 # tag)"
  have "(if cp \<noteq> [] \<and> (hd cp = 45 \<or> hd cp = 46) then tl cp else cp) = tag" by (simp add: cp_def)
  then show ?thesis using assms eat_tail unfolding cp_def [symmetric] ver_tail_def Let_def by simp
qed

text \<open>A version written as \<^verbatim>\<open>"%d.%d.%d.%d"\<close>, with \<^verbatim>\<open>"-%s"\<close> for a tag that has no white space, is parsed back to its
  numbers and its tag, whatever the numbers up to \<^verbatim>\<open>INT32_MAX\<close>.\<close>

theorem tor_version_parse_text:
  assumes "\<forall>n \<in> {a, b, c, d}. n \<le> INT_MAX" and "find_whitespace tag = []" and "length tag < MAX_STATUS_TAG_LEN"
  shows "tor_version_parse (version_text a b c d tag) =
    Some (ver_zero\<lparr> ver_major := int a, ver_minor := int b, ver_micro := int c, ver_patchlevel := int d, ver_status_tag := tag \<rparr>)"
proof -
  define suffix where "suffix = (if tag = [] then [] else 45 # tag)"
  have "suffix = [] \<or> \<not> is_digit_of 10 (hd suffix)" by (simp add: suffix_def sep_no_digit)
  then have n: "ver_number (decimal d @ suffix) = Some (int d, suffix)"
    "ver_number (decimal c @ 46 # decimal d @ suffix) = Some (int c, 46 # decimal d @ suffix)"
    "ver_number (decimal b @ 46 # decimal c @ 46 # decimal d @ suffix) = Some (int b, 46 # decimal c @ 46 # decimal d @ suffix)"
    "ver_number (version_text a b c d tag) = Some (int a, 46 # decimal b @ 46 # decimal c @ 46 # decimal d @ suffix)"
    using assms(1) unfolding version_text_def suffix_def [symmetric] by (intro ver_number_decimal; simp add: sep_no_digit)+
  show ?thesis
    using n not_tor_prefix [of a] ver_tail_tag [OF assms(2,3), folded suffix_def]
    by (simp add: tor_version_parse_def Let_def version_text_def ver_dot_def)
qed

theorem tor_version_parse_text_witness:
  "tor_version_parse (version_text 0 4 8 2147483647 (lit ''alpha-dev'')) =
    Some (ver_zero\<lparr> ver_major := 0, ver_minor := 4, ver_micro := 8, ver_patchlevel := 2147483647, ver_status_tag := lit ''alpha-dev'' \<rparr>)"
  using tor_version_parse_text [of 0 4 8 2147483647 "lit ''alpha-dev''"]
  by (simp add: lit_def find_whitespace_def MAX_STATUS_TAG_LEN_def)

lemma parse_revision:
  assumes "\<forall>n \<in> {a, b, c, d}. n \<le> INT_MAX"
  shows "tor_version_parse (decimal a @ 46 # decimal b @ 46 # decimal c @ 46 # decimal d @ lit '' (r'' @ x) =
    Some (ver_zero\<lparr> ver_major := int a, ver_minor := int b, ver_micro := int c, ver_patchlevel := int d, ver_svn_revision := to_int (fst (strtol x 10)) \<rparr>)"
proof -
  let ?x = "lit '' (r'' @ x"
  have n: "ver_number (decimal d @ ?x) = Some (int d, ?x)"
    "ver_number (decimal c @ 46 # decimal d @ ?x) = Some (int c, 46 # decimal d @ ?x)"
    "ver_number (decimal b @ 46 # decimal c @ 46 # decimal d @ ?x) = Some (int b, 46 # decimal c @ 46 # decimal d @ ?x)"
    "ver_number (decimal a @ 46 # decimal b @ 46 # decimal c @ 46 # decimal d @ ?x) = Some (int a, 46 # decimal b @ 46 # decimal c @ 46 # decimal d @ ?x)"
    using assms by (intro ver_number_decimal; simp add: sep_no_digit lit_def is_digit_of_def digit_value_def)+
  have "ver_tail out ?x = Some (out\<lparr> ver_status_tag := [], ver_svn_revision := to_int (fst (strtol x 10)) \<rparr>)" for out
    by (simp add: ver_tail_def Let_def lit_def find_whitespace_def strcmpstart_def strncmp_def MAX_STATUS_TAG_LEN_def)
  then show ?thesis using n not_tor_prefix [of a]
    by (simp add: tor_version_parse_def Let_def ver_dot_def ver_zero_def)
qed

text \<open>An ordinary pair, and a pair whose revisions wrap: 2147483647 is taken to be below -1.\<close>

theorem tor_version_order_witness:
  "compare_tor_version_str_ptr (lit ''0.4.8.1-alpha'') (lit ''Tor 0.4.8.10 (r12)'') < 0 \<and>
   ver_key (the (tor_version_parse (lit ''0.4.8.1-alpha''))) < ver_key (the (tor_version_parse (lit ''Tor 0.4.8.10 (r12)''))) \<and>
   compare_tor_version_str_ptr (lit ''0.4.8.1 (r2147483647)'') (lit ''0.4.8.1 (r-1)'') < 0 \<and>
   ver_key (the (tor_version_parse (lit ''0.4.8.1 (r-1)''))) < ver_key (the (tor_version_parse (lit ''0.4.8.1 (r2147483647)'')))"
proof -
  define a where "a = ver_zero\<lparr> ver_minor := 4, ver_micro := 8, ver_patchlevel := 1, ver_status_tag := lit ''alpha'' \<rparr>"
  define b where "b = ver_zero\<lparr> ver_minor := 4, ver_micro := 8, ver_patchlevel := 10, ver_svn_revision := 12 \<rparr>"
  define c where "c = ver_zero\<lparr> ver_minor := 4, ver_micro := 8, ver_patchlevel := 1, ver_svn_revision := 2147483647 \<rparr>"
  define d where "d = ver_zero\<lparr> ver_minor := 4, ver_micro := 8, ver_patchlevel := 1, ver_svn_revision := -1 \<rparr>"
  have p: "tor_version_parse (lit ''0.4.8.1-alpha'') = Some a" "tor_version_parse (lit ''Tor 0.4.8.10 (r12)'') = Some b"
    "is_c_str (lit ''0.4.8.1-alpha'')" "is_c_str (lit ''Tor 0.4.8.10 (r12)'')"
    unfolding a_def b_def by code_simp+
  have s: "lit ''0.4.8.1 (r2147483647)'' = decimal 0 @ 46 # decimal 4 @ 46 # decimal 8 @ 46 # decimal 1 @ lit '' (r'' @ decimal 2147483647 @ [41]"
    "lit ''0.4.8.1 (r-1)'' = decimal 0 @ 46 # decimal 4 @ 46 # decimal 8 @ 46 # decimal 1 @ lit '' (r'' @ lit ''-1)''"
    by (simp_all add: lit_def decimal.simps)
  have "fst (strtol (decimal 2147483647 @ [41]) 10) = 2147483647"
    using strto_scan_decimal [of "[41]" 2147483647] by (simp add: strtol_def is_digit_of_def digit_value_def)
  moreover have "fst (strtol (lit ''-1)'') 10) = -1" by code_simp
  moreover have "to_int 2147483647 = 2147483647" "to_int (-1) = -1" by (simp_all add: to_int_def)
  moreover have "is_c_str (lit ''0.4.8.1 (r2147483647)'')" "is_c_str (lit ''0.4.8.1 (r-1)'')" by (simp_all add: is_c_str_def lit_def)
  ultimately have q: "tor_version_parse (lit ''0.4.8.1 (r2147483647)'') = Some c" "tor_version_parse (lit ''0.4.8.1 (r-1)'') = Some d"
    "is_c_str (lit ''0.4.8.1 (r2147483647)'')" "is_c_str (lit ''0.4.8.1 (r-1)'')"
    using parse_revision [of 0 4 8 1] unfolding s(1,2) by (simp_all add: c_def d_def ver_zero_def)
  have "ver_key a < ver_key b" "\<not> svn_wraps a b" by (simp_all add: a_def b_def ver_key_def ver_zero_def svn_wraps_def ver_head_def)
  moreover have "ver_key d < ver_key c" "svn_wraps c d" by (simp_all add: c_def d_def ver_key_def ver_zero_def svn_wraps_def ver_head_def)
  ultimately show ?thesis using tor_version_order [OF p] tor_version_order [OF q] p(1,2) q(1,2) by simp
qed

end
