(* ===== verification/Tor_Hashtable.thy ===== *)
theory Tor_Hashtable
  imports Tor_Prelude "HOL-Library.Multiset"
begin

unbundle bit_operations_syntax

text \<open>
  \<^verbatim>\<open>ext/ht.h\<close>: the chained hash tables under every map of the program.  The type variable \<open>'e\<close> is the pointer to an
  element; \<open>hashfn\<close> and \<open>eqfn\<close> are the two functions that the macros take.  A chain is the list of its elements, each
  with the hash that the element caches (\<^verbatim>\<open>hte_hash\<close>); a \<^verbatim>\<open>struct type **\<close> is a position (bucket, index in the chain), an
  index equal to the length of the chain being the terminating \<^verbatim>\<open>NULL\<close>.  \<open>None\<close> is undefined behaviour or a failed assertion.
  The load factor is 0.6, as in every use of the macros.  \<^verbatim>\<open>HT_REPLACE\<close> and \<^verbatim>\<open>HT_INSERT\<close> are given an element whose \<^verbatim>\<open>hte_next\<close> is \<^verbatim>\<open>NULL\<close>.
\<close>

section \<open>Model\<close>

record 'e ht_head =
  hth_table :: "('e \<times> nat) list list option"
  hth_table_length :: nat
  hth_n_entries :: nat
  hth_load_limit :: nat
  hth_prime_idx :: int

type_synonym ht_pos = "nat \<times> nat"

definition u32 :: "nat \<Rightarrow> nat" where "u32 n = n mod 2 ^ 32"

definition ht_improve_hash :: "32 word \<Rightarrow> 32 word" where
  "ht_improve_hash h =
    (let h = h + NOT (push_bit 9 h);
         h = h XOR (drop_bit 14 h OR push_bit 18 h);
         h = h + push_bit 4 h
     in h XOR (drop_bit 10 h OR push_bit 22 h))"

definition HT_INIT :: "'e ht_head" where
  "HT_INIT = \<lparr> hth_table = None, hth_table_length = 0, hth_n_entries = 0, hth_load_limit = 0, hth_prime_idx = -1 \<rparr>"

definition HT_EMPTY :: "'e ht_head \<Rightarrow> bool" where "HT_EMPTY head = (hth_n_entries head = 0)"
definition HT_SIZE :: "'e ht_head \<Rightarrow> nat" where "HT_SIZE head = hth_n_entries head"
definition HT_MEM_USAGE :: "nat \<Rightarrow> 'e ht_head \<Rightarrow> nat" where "HT_MEM_USAGE head_size head = head_size + hth_table_length head * 8"

subsection \<open>Chains\<close>

definition ht_bucket_num :: "'e ht_head \<Rightarrow> nat \<Rightarrow> nat" where
  "ht_bucket_num head h = h mod hth_table_length head"

fun chain_find :: "('e \<Rightarrow> 'e \<Rightarrow> bool) \<Rightarrow> 'e \<Rightarrow> ('e \<times> nat) list \<Rightarrow> nat" where
  "chain_find eqfn elm [] = 0"
| "chain_find eqfn elm (p # c) = (if eqfn (fst p) elm then 0 else Suc (chain_find eqfn elm c))"

definition HT_FIND_P :: "('e \<Rightarrow> 'e \<Rightarrow> bool) \<Rightarrow> 'e ht_head \<Rightarrow> 'e \<Rightarrow> nat \<Rightarrow> ht_pos option" where
  "HT_FIND_P eqfn head elm h =
    (case hth_table head of
       None \<Rightarrow> None
     | Some t \<Rightarrow> let b = ht_bucket_num head h in Some (b, chain_find eqfn elm (t ! b)))"

text \<open>\<^verbatim>\<open>*p\<close>, and the removal of the element at \<^verbatim>\<open>p\<close> from its chain.\<close>

definition ht_at :: "('e \<times> nat) list list \<Rightarrow> ht_pos \<Rightarrow> ('e \<times> nat) option" where
  "ht_at t p = (if snd p < length (t ! fst p) then Some (t ! fst p ! snd p) else None)"

definition ht_unlink :: "('e \<times> nat) list list \<Rightarrow> ht_pos \<Rightarrow> ('e \<times> nat) list list" where
  "ht_unlink t p = t[fst p := take (snd p) (t ! fst p) @ drop (Suc (snd p)) (t ! fst p)]"

definition HT_FIND :: "('e \<Rightarrow> nat) \<Rightarrow> ('e \<Rightarrow> 'e \<Rightarrow> bool) \<Rightarrow> 'e ht_head \<Rightarrow> 'e \<Rightarrow> 'e option" where
  "HT_FIND hashfn eqfn head elm =
    (case (HT_FIND_P eqfn head elm (hashfn elm), hth_table head) of
       (Some p, Some t) \<Rightarrow> map_option fst (ht_at t p)
     | _ \<Rightarrow> None)"

subsection \<open>Growing\<close>

definition HT_PRIMES :: "nat list" where
  "HT_PRIMES =
    [53, 97, 193, 389, 769, 1543, 3079, 6151, 12289, 24593, 49157, 98317, 196613, 393241, 786433, 1572869,
     3145739, 6291469, 12582917, 25165843, 50331653, 100663319, 201326611, 402653189]"

text \<open>\<^verbatim>\<open>(unsigned)(0.6 * len)\<close>: a prime other than 5 times 0.6 is at least 0.2 away from the next integer, far more than the
  rounding error of the product.\<close>

definition ht_load :: "nat \<Rightarrow> nat" where "ht_load len = 3 * len div 5"

text \<open>The \<^verbatim>\<open>do\<close> loop; \<open>None\<close> when it reads behind the table of primes.\<close>

function grow_loop :: "nat \<Rightarrow> int \<Rightarrow> (nat \<times> nat \<times> int) option" where
  "grow_loop sz prime_idx =
    (let prime_idx = prime_idx + 1
     in if prime_idx < 0 \<or> prime_idx \<ge> int (length HT_PRIMES) then None
        else let new_len = HT_PRIMES ! nat prime_idx; new_load_limit = ht_load new_len
             in if new_load_limit \<le> sz \<and> prime_idx < int (length HT_PRIMES) then grow_loop sz prime_idx
                else Some (new_len, new_load_limit, prime_idx))"
  by pat_completeness auto
termination
  by (relation "measure (\<lambda>(sz, i). nat (int (length HT_PRIMES) - i))") auto

declare grow_loop.simps [simp del]

definition chain_push :: "nat \<Rightarrow> ('e \<times> nat) list list \<Rightarrow> 'e \<times> nat \<Rightarrow> ('e \<times> nat) list list" where
  "chain_push new_len t e = (let b2 = snd e mod new_len in t[b2 := e # t ! b2])"

definition rehash_fresh :: "nat \<Rightarrow> ('e \<times> nat) list list \<Rightarrow> ('e \<times> nat) list list" where
  "rehash_fresh new_len t = foldl (foldl (chain_push new_len)) (replicate new_len []) t"

text \<open>The fall-back that rehashes in the reallocated table: one bucket, then all of the old ones.\<close>

definition rehash_bucket :: "nat \<Rightarrow> ('e \<times> nat) list list \<Rightarrow> nat \<Rightarrow> ('e \<times> nat) list list" where
  "rehash_bucket new_len t b =
    (let stays = (\<lambda>e. snd e mod new_len = b); c = t ! b
     in foldl (chain_push new_len) (t[b := filter stays c]) (filter (\<lambda>e. \<not> stays e) c))"

definition rehash_in_place :: "nat \<Rightarrow> ('e \<times> nat) list list \<Rightarrow> ('e \<times> nat) list list" where
  "rehash_in_place new_len t =
    foldl (rehash_bucket new_len) (t @ replicate (new_len - length t) []) [0..<length t]"

text \<open>\<open>alloc\<close> says whether the allocation of a new table and the reallocation of the old one succeed.\<close>

definition HT_GROW :: "bool \<times> bool \<Rightarrow> 'e ht_head \<Rightarrow> nat \<Rightarrow> (int \<times> 'e ht_head) option" where
  "HT_GROW alloc head sz =
    (if hth_prime_idx head = int (length HT_PRIMES) - 1 then Some (0, head)
     else if hth_load_limit head > sz then Some (0, head)
     else do {
       (new_len, new_load_limit, prime_idx) \<leftarrow> grow_loop sz (hth_prime_idx head);
       let old = (case hth_table head of None \<Rightarrow> [] | Some t \<Rightarrow> t);
       if fst alloc
       then Some (0, head\<lparr> hth_table := Some (rehash_fresh new_len old), hth_table_length := new_len,
              hth_prime_idx := prime_idx, hth_load_limit := new_load_limit \<rparr>)
       else if \<not> snd alloc then Some (-1, head)
       else Some (0, head\<lparr> hth_table := Some (rehash_in_place new_len old), hth_table_length := new_len,
              hth_prime_idx := prime_idx, hth_load_limit := new_load_limit \<rparr>) })"

definition ht_reserve :: "bool \<times> bool \<Rightarrow> 'e ht_head \<Rightarrow> 'e ht_head option" where
  "ht_reserve alloc head =
    (if hth_table head = None \<or> hth_n_entries head \<ge> hth_load_limit head
     then map_option snd (HT_GROW alloc head (u32 (hth_n_entries head + 1)))
     else Some head)"

subsection \<open>Changes\<close>

definition HT_INSERT :: "('e \<Rightarrow> nat) \<Rightarrow> bool \<times> bool \<Rightarrow> 'e ht_head \<Rightarrow> 'e \<Rightarrow> 'e ht_head option" where
  "HT_INSERT hashfn alloc head elm = do {
     head \<leftarrow> ht_reserve alloc head;
     let head = head\<lparr> hth_n_entries := u32 (hth_n_entries head + 1) \<rparr>;
     t \<leftarrow> hth_table head;
     let h = hashfn elm;
     let b = ht_bucket_num head h;
     Some (head\<lparr> hth_table := Some (t[b := (elm, h) # t ! b]) \<rparr>) }"

definition HT_REPLACE :: "('e \<Rightarrow> nat) \<Rightarrow> ('e \<Rightarrow> 'e \<Rightarrow> bool) \<Rightarrow> bool \<times> bool \<Rightarrow> 'e ht_head \<Rightarrow> 'e \<Rightarrow> ('e option \<times> 'e ht_head) option" where
  "HT_REPLACE hashfn eqfn alloc head elm = do {
     head \<leftarrow> ht_reserve alloc head;
     let h = hashfn elm;
     p \<leftarrow> HT_FIND_P eqfn head elm h;
     t \<leftarrow> hth_table head;
     case ht_at t p of
       Some r \<Rightarrow>
         let head' = head\<lparr> hth_table := Some (t[fst p := (t ! fst p)[snd p := (elm, h)]]) \<rparr>
         in if fst r \<noteq> elm then Some (Some (fst r), head')
            else Some (None, head'\<lparr> hth_n_entries := u32 (hth_n_entries head + 1) \<rparr>)
     | None \<Rightarrow>
         Some (None, head\<lparr> hth_table := Some (t[fst p := t ! fst p @ [(elm, h)]]),
           hth_n_entries := u32 (hth_n_entries head + 1) \<rparr>) }"

definition HT_REMOVE :: "('e \<Rightarrow> nat) \<Rightarrow> ('e \<Rightarrow> 'e \<Rightarrow> bool) \<Rightarrow> 'e ht_head \<Rightarrow> 'e \<Rightarrow> 'e option \<times> 'e ht_head" where
  "HT_REMOVE hashfn eqfn head elm =
    (case (HT_FIND_P eqfn head elm (hashfn elm), hth_table head) of
       (Some p, Some t) \<Rightarrow>
         (case ht_at t p of
            None \<Rightarrow> (None, head)
          | Some r \<Rightarrow> (Some (fst r), head\<lparr> hth_table := Some (ht_unlink t p), hth_n_entries := u32 (hth_n_entries head + 2 ^ 32 - 1) \<rparr>))
     | _ \<Rightarrow> (None, head))"

text \<open>\<^verbatim>\<open>HT_FIND_OR_INSERT_\<close>: \<open>y\<close> changes the element that was found, \<open>n\<close> makes the one to insert (\<^verbatim>\<open>HT_FOI_INSERT_\<close>); the first
  component says what was found.\<close>

definition HT_FIND_OR_INSERT ::
  "('e \<Rightarrow> nat) \<Rightarrow> ('e \<Rightarrow> 'e \<Rightarrow> bool) \<Rightarrow> bool \<times> bool \<Rightarrow> 'e ht_head \<Rightarrow> 'e \<Rightarrow> ('e \<Rightarrow> 'e) \<Rightarrow> 'e \<Rightarrow> ('e option \<times> 'e ht_head) option" where
  "HT_FIND_OR_INSERT hashfn eqfn alloc head elm y n = do {
     head \<leftarrow> ht_reserve alloc head;
     let h = hashfn elm;
     p \<leftarrow> HT_FIND_P eqfn head elm h;
     t \<leftarrow> hth_table head;
     case ht_at t p of
       Some r \<Rightarrow> Some (Some (fst r), head\<lparr> hth_table := Some (t[fst p := (t ! fst p)[snd p := (y (fst r), snd r)]]) \<rparr>)
     | None \<Rightarrow>
         Some (None, head\<lparr> hth_table := Some (t[fst p := t ! fst p @ [(n, h)]]), hth_n_entries := u32 (hth_n_entries head + 1) \<rparr>) }"

fun foreach_chain :: "('e \<Rightarrow> 'd \<Rightarrow> bool \<times> 'd) \<Rightarrow> ('e \<times> nat) list \<Rightarrow> 'd \<Rightarrow> ('e \<times> nat) list \<times> nat \<times> 'd" where
  "foreach_chain fn [] d = ([], 0, d)"
| "foreach_chain fn (p # c) d =
    (let (rmv, d) = fn (fst p) d; (c', k, d) = foreach_chain fn c d
     in if rmv then (c', Suc k, d) else (p # c', k, d))"

fun foreach_table :: "('e \<Rightarrow> 'd \<Rightarrow> bool \<times> 'd) \<Rightarrow> ('e \<times> nat) list list \<Rightarrow> 'd \<Rightarrow> ('e \<times> nat) list list \<times> nat \<times> 'd" where
  "foreach_table fn [] d = ([], 0, d)"
| "foreach_table fn (c # t) d =
    (let (c', k, d) = foreach_chain fn c d; (t', k', d) = foreach_table fn t d in (c' # t', k + k', d))"

definition HT_FOREACH_FN :: "'e ht_head \<Rightarrow> ('e \<Rightarrow> 'd \<Rightarrow> bool \<times> 'd) \<Rightarrow> 'd \<Rightarrow> 'e ht_head \<times> 'd" where
  "HT_FOREACH_FN head fn d =
    (case hth_table head of
       None \<Rightarrow> (head, d)
     | Some t \<Rightarrow>
         let (t', k, d) = foreach_table fn t d
         in (head\<lparr> hth_table := Some t', hth_n_entries := u32 (hth_n_entries head + k * (2 ^ 32 - 1)) \<rparr>, d))"

definition HT_CLEAR :: "'e ht_head \<Rightarrow> 'e ht_head" where
  "HT_CLEAR head = HT_INIT"

subsection \<open>Iteration\<close>

definition next_bucket :: "('e \<times> nat) list list \<Rightarrow> nat \<Rightarrow> nat option" where
  "next_bucket t b = find (\<lambda>i. t ! i \<noteq> []) [b..<length t]"

text \<open>The outer \<open>None\<close> is a failed assertion, the inner one the end of the table.\<close>

definition start_from :: "'e ht_head \<Rightarrow> nat \<Rightarrow> ht_pos option option" where
  "start_from head b =
    (case hth_table head of
       None \<Rightarrow> Some None
     | Some t \<Rightarrow>
         (case next_bucket t b of
            None \<Rightarrow> Some None
          | Some b \<Rightarrow> if b = ht_bucket_num head (snd (hd (t ! b))) then Some (Some (b, 0)) else None))"

definition HT_START :: "'e ht_head \<Rightarrow> ht_pos option option" where
  "HT_START head = start_from head 0"

definition HT_NEXT :: "'e ht_head \<Rightarrow> ht_pos \<Rightarrow> ht_pos option option" where
  "HT_NEXT head p = do {
     t \<leftarrow> hth_table head;
     e \<leftarrow> ht_at t p;
     case ht_at t (fst p, Suc (snd p)) of
       Some e' \<Rightarrow> if ht_bucket_num head (snd e) = ht_bucket_num head (snd e') then Some (Some (fst p, Suc (snd p))) else None
     | None \<Rightarrow> start_from head (ht_bucket_num head (snd e) + 1) }"

definition HT_NEXT_RMV :: "'e ht_head \<Rightarrow> ht_pos \<Rightarrow> (ht_pos option \<times> 'e ht_head) option" where
  "HT_NEXT_RMV head p = do {
     t \<leftarrow> hth_table head;
     e \<leftarrow> ht_at t p;
     let t' = ht_unlink t p;
     let head = head\<lparr> hth_table := Some t', hth_n_entries := u32 (hth_n_entries head + 2 ^ 32 - 1) \<rparr>;
     case ht_at t' p of
       Some _ \<Rightarrow> Some (Some p, head)
     | None \<Rightarrow> Some (map_option (\<lambda>b. (b, 0)) (next_bucket t' (ht_bucket_num head (snd e) + 1)), head) }"

text \<open>The loops over a table (\<^verbatim>\<open>HT_FOREACH\<close>, \<^verbatim>\<open>MAP_FOREACH\<close>, \<^verbatim>\<open>MAP_FOREACH_MODIFY\<close>): the elements met in this order, those for which
  \<open>del\<close> holds removed on the way.\<close>

partial_function (option) ht_visit :: "('e \<Rightarrow> bool) \<Rightarrow> 'e ht_head \<Rightarrow> ht_pos option \<Rightarrow> ('e list \<times> 'e ht_head) option" where
  "ht_visit del head iter =
    (case iter of
       None \<Rightarrow> Some ([], head)
     | Some p \<Rightarrow> do {
         t \<leftarrow> hth_table head;
         e \<leftarrow> ht_at t p;
         r \<leftarrow> (if del (fst e) then HT_NEXT_RMV head p else map_option (\<lambda>q. (q, head)) (HT_NEXT head p));
         s \<leftarrow> ht_visit del (snd r) (fst r);
         Some (fst e # fst s, snd s) })"

subsection \<open>The consistency check\<close>

fun rep_chain :: "('e \<Rightarrow> nat) \<Rightarrow> nat \<Rightarrow> nat \<Rightarrow> ('e \<times> nat) list \<Rightarrow> nat + nat" where
  "rep_chain hashfn len i [] = Inr 0"
| "rep_chain hashfn len i (p # c) =
    (if snd p \<noteq> hashfn (fst p) then Inl (1000 + i)
     else if snd p mod len \<noteq> i then Inl (10000 + i)
     else map_sum id Suc (rep_chain hashfn len i c))"

fun rep_table :: "('e \<Rightarrow> nat) \<Rightarrow> nat \<Rightarrow> nat \<Rightarrow> ('e \<times> nat) list list \<Rightarrow> nat + nat" where
  "rep_table hashfn len i [] = Inr 0"
| "rep_table hashfn len i (c # t) =
    (case rep_chain hashfn len i c of
       Inl err \<Rightarrow> Inl err
     | Inr n \<Rightarrow> map_sum id ((+) n) (rep_table hashfn len (Suc i) t))"

definition HT_REP_IS_BAD :: "('e \<Rightarrow> nat) \<Rightarrow> 'e ht_head \<Rightarrow> nat" where
  "HT_REP_IS_BAD hashfn head =
    (if hth_table_length head = 0
     then if hth_table head = None \<and> hth_n_entries head = 0 \<and> hth_load_limit head = 0 \<and> hth_prime_idx head = -1 then 0 else 1
     else if hth_table head = None \<or> hth_prime_idx head < 0 \<or> hth_load_limit head = 0 then 2
     else if hth_n_entries head > hth_load_limit head then 3
     else if hth_table_length head \<noteq> HT_PRIMES ! nat (hth_prime_idx head) then 4
     else if hth_load_limit head \<noteq> ht_load (hth_table_length head) then 5
     else case rep_table hashfn (hth_table_length head) 0 (the (hth_table head)) of
            Inl err \<Rightarrow> err
          | Inr n \<Rightarrow> if n \<noteq> hth_n_entries head then 6 else 0)"

section \<open>The invariant\<close>

definition ht_elems :: "'e ht_head \<Rightarrow> 'e list" where
  "ht_elems head = (case hth_table head of None \<Rightarrow> [] | Some t \<Rightarrow> map fst (concat t))"

text \<open>Every element is in the bucket of its hash.\<close>

definition chain_ok :: "('e \<Rightarrow> nat) \<Rightarrow> nat \<Rightarrow> nat \<Rightarrow> ('e \<times> nat) list \<Rightarrow> bool" where
  "chain_ok hashfn len b c \<longleftrightarrow> list_all (\<lambda>p. snd p = hashfn (fst p) \<and> snd p mod len = b) c"

definition table_ok :: "('e \<Rightarrow> nat) \<Rightarrow> ('e \<times> nat) list list \<Rightarrow> bool" where
  "table_ok hashfn t \<longleftrightarrow> list_all (\<lambda>b. chain_ok hashfn (length t) b (t ! b)) [0..<length t]"

definition ht_ok :: "('e \<Rightarrow> nat) \<Rightarrow> 'e ht_head \<Rightarrow> bool" where
  "ht_ok hashfn head \<longleftrightarrow>
    (case hth_table head of
       None \<Rightarrow> head = HT_INIT
     | Some t \<Rightarrow> 0 \<le> hth_prime_idx head \<and> hth_prime_idx head < int (length HT_PRIMES) \<and> length t = HT_PRIMES ! nat (hth_prime_idx head) \<and>
         hth_table_length head = length t \<and> hth_load_limit head = ht_load (length t) \<and>
         hth_n_entries head = length (concat t) \<and> hth_n_entries head < 2 ^ 32 \<and>
         (hth_n_entries head \<le> hth_load_limit head \<or> hth_prime_idx head = int (length HT_PRIMES) - 1) \<and>
         table_ok hashfn t)"

lemma table_ok_iff:
  "table_ok hashfn t \<longleftrightarrow> (\<forall>b < length t. \<forall>p \<in> set (t ! b). snd p = hashfn (fst p) \<and> hashfn (fst p) mod length t = b)"
proof -
  have "list_all (\<lambda>p. snd p = hashfn (fst p) \<and> snd p mod n = b) c \<longleftrightarrow> (\<forall>p \<in> set c. snd p = hashfn (fst p) \<and> hashfn (fst p) mod n = b)"
    for n b c by (auto simp: list_all_iff)
  then show ?thesis unfolding table_ok_def chain_ok_def by (simp add: list_all_iff Ball_def)
qed

lemma table_okD: "table_ok hashfn t \<Longrightarrow> b < length t \<Longrightarrow> p \<in> set (t ! b) \<Longrightarrow> snd p = hashfn (fst p) \<and> hashfn (fst p) mod length t = b"
  unfolding table_ok_iff by blast

lemma table_ok_Nil: "table_ok hashfn []"
  by (simp add: table_ok_iff)

lemma table_ok_update:
  assumes "table_ok hashfn t" and "\<forall>p \<in> set c. snd p = hashfn (fst p) \<and> hashfn (fst p) mod length t = b"
  shows "table_ok hashfn (t[b := c])"
  unfolding table_ok_iff
proof (intro allI impI ballI)
  fix b' p assume "b' < length (t[b := c])" and "p \<in> set (t[b := c] ! b')"
  then show "snd p = hashfn (fst p) \<and> hashfn (fst p) mod length (t[b := c]) = b'"
    using assms table_okD [OF assms(1), of b' p] by (cases "b' = b") auto
qed

lemma mset_concat_update:
  "b < length t \<Longrightarrow> mset (concat (t[b := c])) + mset (t ! b) = mset (concat t) + mset c"
proof (induction t arbitrary: b)
  case (Cons a t)
  then show ?case by (cases b) (auto simp: algebra_simps)
qed simp

lemma length_concat_update:
  "b < length t \<Longrightarrow> length (concat (t[b := c])) + length (t ! b) = length (concat t) + length c"
  using mset_concat_update [of b t c] by (metis size_mset size_union)

lemma in_concat_bucket:
  assumes "table_ok hashfn t" and "p \<in> set (concat t)"
  shows "snd p = hashfn (fst p)" and "p \<in> set (t ! (hashfn (fst p) mod length t))" and "hashfn (fst p) mod length t < length t"
proof -
  obtain c where "c \<in> set t" "p \<in> set c" using assms(2) by auto
  then obtain b where b: "b < length t" "p \<in> set (t ! b)" by (auto simp: in_set_conv_nth [of c])
  then show "snd p = hashfn (fst p)" and "p \<in> set (t ! (hashfn (fst p) mod length t))" and "hashfn (fst p) mod length t < length t"
    using table_okD [OF assms(1) b] by auto
qed

section \<open>Growing keeps the elements\<close>

lemma chain_push_length [simp]: "length (chain_push n t e) = length t"
  by (simp add: chain_push_def Let_def)

lemma chain_push_mset:
  assumes "length t = n" and "0 < n"
  shows "mset (concat (chain_push n t e)) = add_mset e (mset (concat t))"
  using mset_concat_update [of "snd e mod n" t "e # t ! (snd e mod n)"] assms
  by (simp add: chain_push_def Let_def)

lemma chain_push_ok: "length t = n \<Longrightarrow> 0 < n \<Longrightarrow> table_ok hashfn t \<Longrightarrow> snd e = hashfn (fst e) \<Longrightarrow> table_ok hashfn (chain_push n t e)"
  unfolding chain_push_def Let_def using table_okD [of hashfn t "hashfn (fst e) mod n"] by (intro table_ok_update) auto

lemma foldl_push:
  "length t = n \<Longrightarrow> 0 < n \<Longrightarrow> table_ok hashfn t \<Longrightarrow> \<forall>e \<in> set c. snd e = hashfn (fst e) \<Longrightarrow>
    length (foldl (chain_push n) t c) = n \<and> table_ok hashfn (foldl (chain_push n) t c) \<and>
    mset (concat (foldl (chain_push n) t c)) = mset c + mset (concat t)"
proof (induction c arbitrary: t)
  case (Cons e c)
  then show ?case using Cons.IH [of "chain_push n t e"] by (simp add: chain_push_ok chain_push_mset)
qed simp

lemma foldl_foldl_push:
  "length t = n \<Longrightarrow> 0 < n \<Longrightarrow> table_ok hashfn t \<Longrightarrow> \<forall>c \<in> set cs. \<forall>e \<in> set c. snd e = hashfn (fst e) \<Longrightarrow>
    length (foldl (foldl (chain_push n)) t cs) = n \<and> table_ok hashfn (foldl (foldl (chain_push n)) t cs) \<and>
    mset (concat (foldl (foldl (chain_push n)) t cs)) = mset (concat cs) + mset (concat t)"
proof (induction cs arbitrary: t)
  case (Cons c cs)
  then show ?case using Cons.IH [of "foldl (chain_push n) t c"] foldl_push [of t n hashfn c] by simp
qed simp

lemma concat_empty: "concat (replicate n []) = []"
  by (induction n) auto

lemma rehash_fresh_ok:
  assumes "0 < n" and "table_ok hashfn t"
  shows "length (rehash_fresh n t) = n" and "table_ok hashfn (rehash_fresh n t)" and "mset (concat (rehash_fresh n t)) = mset (concat t)"
proof -
  have "\<forall>c \<in> set t. \<forall>e \<in> set c. snd e = hashfn (fst e)" using assms(2) by (metis in_set_conv_nth table_okD)
  moreover have "table_ok hashfn (replicate n [])" by (simp add: table_ok_iff)
  ultimately show "length (rehash_fresh n t) = n" "table_ok hashfn (rehash_fresh n t)" "mset (concat (rehash_fresh n t)) = mset (concat t)"
    using foldl_foldl_push [of "replicate n []" n hashfn t] assms(1) by (simp_all add: rehash_fresh_def concat_empty)
qed

text \<open>The in-place variant: in the buckets of \<open>D\<close> every element is where the new length puts it.\<close>

definition partly_ok :: "('e \<Rightarrow> nat) \<Rightarrow> nat set \<Rightarrow> ('e \<times> nat) list list \<Rightarrow> bool" where
  "partly_ok hashfn D t \<longleftrightarrow> (\<forall>b < length t. \<forall>p \<in> set (t ! b). snd p = hashfn (fst p) \<and> (b \<in> D \<longrightarrow> hashfn (fst p) mod length t = b))"

lemma partly_ok_push:
  assumes "partly_ok hashfn D t" and "length t = n" and "0 < n" and "snd e = hashfn (fst e)"
  shows "partly_ok hashfn D (chain_push n t e)"
  using assms by (auto simp: partly_ok_def chain_push_def Let_def nth_list_update)

lemma partly_ok_foldl_push:
  "partly_ok hashfn D t \<Longrightarrow> length t = n \<Longrightarrow> 0 < n \<Longrightarrow> \<forall>e \<in> set c. snd e = hashfn (fst e) \<Longrightarrow>
    partly_ok hashfn D (foldl (chain_push n) t c) \<and> length (foldl (chain_push n) t c) = n \<and>
    mset (concat (foldl (chain_push n) t c)) = mset c + mset (concat t)"
proof (induction c arbitrary: t)
  case (Cons e c)
  then show ?case using Cons.IH [of "chain_push n t e"] by (simp add: partly_ok_push chain_push_mset)
qed simp

lemma partly_ok_filter:
  assumes "partly_ok hashfn D t" and "b < length t"
  shows "partly_ok hashfn (insert b D) (t[b := filter (\<lambda>e. snd e mod length t = b) (t ! b)])"
  unfolding partly_ok_def
proof (intro allI impI ballI)
  let ?t = "t[b := filter (\<lambda>e. snd e mod length t = b) (t ! b)]"
  fix b' p assume b': "b' < length ?t" and p: "p \<in> set (?t ! b')"
  then have "p \<in> set (t ! b')" "b' = b \<Longrightarrow> snd p mod length t = b" using assms(2) by (cases "b' = b"; simp)+
  then show "snd p = hashfn (fst p) \<and> (b' \<in> insert b D \<longrightarrow> hashfn (fst p) mod length ?t = b')"
    using assms(1) b' by (cases "b' = b") (simp_all add: partly_ok_def)
qed

lemma mset_cancel_sum: "c + f = (x :: 'a multiset) \<Longrightarrow> u + x = v + f \<Longrightarrow> c + u = v"
  by (metis add.assoc add.commute add_left_cancel)

lemma rehash_bucket_ok:
  assumes "partly_ok hashfn D t" and "length t = n" and "b < n"
  shows "partly_ok hashfn (insert b D) (rehash_bucket n t b) \<and> length (rehash_bucket n t b) = n \<and>
    mset (concat (rehash_bucket n t b)) = mset (concat t)"
proof -
  define kept where "kept = filter (\<lambda>e. snd e mod n = b) (t ! b)"
  define c where "c = filter (\<lambda>e. snd e mod n \<noteq> b) (t ! b)"
  have b: "b < length t" using assms(2,3) by simp
  have t1: "partly_ok hashfn (insert b D) (t[b := kept])" using partly_ok_filter [OF assms(1) b] assms(2) by (simp add: kept_def)
  have c: "\<forall>e \<in> set c. snd e = hashfn (fst e)" using assms(1) b by (simp add: partly_ok_def c_def)
  have "mset c + mset kept = mset (t ! b)" by (simp add: c_def kept_def add.commute)
  then have sum: "mset c + mset (concat (t[b := kept])) = mset (concat t)"
    by (rule mset_cancel_sum) (rule mset_concat_update [OF b])
  have "rehash_bucket n t b = foldl (chain_push n) (t[b := kept]) c" by (simp add: rehash_bucket_def Let_def kept_def c_def)
  then show ?thesis using partly_ok_foldl_push [OF t1, of n c] c sum assms(2,3) by simp
qed

lemma rehash_buckets_ok:
  "k \<le> n \<Longrightarrow> partly_ok hashfn D t \<Longrightarrow> length t = n \<Longrightarrow>
    partly_ok hashfn (D \<union> {..<k}) (foldl (rehash_bucket n) t [0..<k]) \<and> length (foldl (rehash_bucket n) t [0..<k]) = n \<and>
    mset (concat (foldl (rehash_bucket n) t [0..<k])) = mset (concat t)"
proof (induction k)
  case (Suc k)
  then show ?case using rehash_bucket_ok [of hashfn "D \<union> {..<k}" "foldl (rehash_bucket n) t [0..<k]" n k] by (simp add: lessThan_Suc)
qed simp

lemma rehash_in_place_ok:
  assumes "length t \<le> n" and "table_ok hashfn t"
  shows "length (rehash_in_place n t) = n" and "table_ok hashfn (rehash_in_place n t)" and "mset (concat (rehash_in_place n t)) = mset (concat t)"
proof -
  define t0 where "t0 = t @ replicate (n - length t) []"
  have t0: "length t0 = n" "concat t0 = concat t" using assms(1) by (simp_all add: t0_def concat_empty)
  have nth: "t0 ! b = (if b < length t then t ! b else [])" if "b < n" for b
    using that by (simp add: t0_def nth_append)
  have "partly_ok hashfn {length t..} t0"
    unfolding partly_ok_def
  proof (intro allI impI ballI)
    fix b p assume "b < length t0" "p \<in> set (t0 ! b)"
    then show "snd p = hashfn (fst p) \<and> (b \<in> {length t..} \<longrightarrow> hashfn (fst p) mod length t0 = b)"
      using nth [of b] t0(1) table_okD [OF assms(2), of b p] by (auto split: if_splits)
  qed
  moreover have "rehash_in_place n t = foldl (rehash_bucket n) t0 [0..<length t]" by (simp add: rehash_in_place_def t0_def)
  ultimately have r: "partly_ok hashfn ({length t..} \<union> {..<length t}) (rehash_in_place n t) \<and> length (rehash_in_place n t) = n \<and>
      mset (concat (rehash_in_place n t)) = mset (concat t)"
    using rehash_buckets_ok [OF assms(1) _ t0(1), of hashfn "{length t..}"] t0(2) by simp
  moreover have "{length t..} \<union> {..<length t} = UNIV" by auto
  ultimately have "partly_ok hashfn UNIV (rehash_in_place n t)" by simp
  then show "table_ok hashfn (rehash_in_place n t)" unfolding partly_ok_def table_ok_iff by blast
  show "length (rehash_in_place n t) = n" and "mset (concat (rehash_in_place n t)) = mset (concat t)" using r by blast+
qed

section \<open>Sizes\<close>

lemma primes_positive: "i < length HT_PRIMES \<Longrightarrow> 0 < HT_PRIMES ! i"
  by (auto simp: HT_PRIMES_def less_Suc_eq nth_Cons split: nat.splits)

text \<open>From a full table the next prime is always enough: its load limit exceeds the current one by more than 1.\<close>

lemma primes_step:
  "list_all (\<lambda>i. HT_PRIMES ! i < HT_PRIMES ! Suc i \<and> Suc (ht_load (HT_PRIMES ! i)) < ht_load (HT_PRIMES ! Suc i)) [0..<23]"
  by (simp add: HT_PRIMES_def ht_load_def upt_rec)

lemma primes_length: "length HT_PRIMES = 24"
  by (simp add: HT_PRIMES_def)

lemma grow_loop_next:
  assumes "-1 \<le> i" and "i < 23" and "sz < ht_load (HT_PRIMES ! nat (i + 1))"
  shows "grow_loop sz i = Some (HT_PRIMES ! nat (i + 1), ht_load (HT_PRIMES ! nat (i + 1)), i + 1)"
  using assms by (subst grow_loop.simps) (simp add: Let_def primes_length)

text \<open>Whatever the requested size, the chosen prime is a later one and the limit exceeds the size.\<close>

lemma grow_loop_Some:
  assumes "grow_loop sz i = Some (len, lim, j)" and "-1 \<le> i"
  shows "i < j \<and> j < 24 \<and> len = HT_PRIMES ! nat j \<and> lim = ht_load len \<and> sz < lim"
  using assms
proof (induction sz i rule: grow_loop.induct)
  case (1 sz i)
  note step = 1(2) [unfolded grow_loop.simps [of sz i] Let_def]
  show ?case
  proof (cases "ht_load (HT_PRIMES ! nat (i + 1)) \<le> sz")
    case True
    then have "grow_loop sz (i + 1) = Some (len, lim, j)" "\<not> (i + 1 < 0 \<or> int (length HT_PRIMES) \<le> i + 1)" "i + 1 < int (length HT_PRIMES)"
      using step by (auto split: if_splits)
    then show ?thesis using 1(1) [OF refl _ refl refl] True 1(3) by auto
  next
    case False
    then show ?thesis using step 1(3) by (auto simp: primes_length split: if_splits)
  qed
qed

lemma ht_ok_table:
  assumes "ht_ok hashfn head" and "hth_table head = Some t"
  shows "0 < length t" and "hth_table_length head = length t" and "table_ok hashfn t" and "hth_n_entries head = length (concat t)"
  using assms primes_positive [of "nat (hth_prime_idx head)"] by (auto simp: ht_ok_def primes_length)

lemma ht_ok_idx: "ht_ok hashfn head \<Longrightarrow> -1 \<le> hth_prime_idx head \<and> hth_prime_idx head \<le> 23"
  by (auto simp: ht_ok_def HT_INIT_def primes_length split: option.splits)

lemma primes_mono:
  assumes "i < j" and "j < 24"
  shows "HT_PRIMES ! i < HT_PRIMES ! j"
  using assms
proof (induction j)
  case (Suc j)
  then have "HT_PRIMES ! j < HT_PRIMES ! Suc j" using primes_step by (simp add: list_all_iff)
  then show ?case using Suc by (cases "i = j") auto
qed simp

text \<open>What a growing table has to start from: it is empty, or full and not of the last size.\<close>

lemma grow_next_ok:
  assumes "ht_ok hashfn head" and "hth_table head = None \<or> hth_n_entries head \<ge> hth_load_limit head" and "hth_prime_idx head \<noteq> 23"
  shows "hth_n_entries head + 1 < ht_load (HT_PRIMES ! nat (hth_prime_idx head + 1))"
proof (cases "hth_table head")
  case None
  then show ?thesis using assms(1) by (simp add: ht_ok_def HT_INIT_def HT_PRIMES_def ht_load_def)
next
  case (Some t)
  then have n: "hth_n_entries head = ht_load (HT_PRIMES ! nat (hth_prime_idx head))" and i: "0 \<le> hth_prime_idx head" "hth_prime_idx head < 23"
    using assms by (auto simp: ht_ok_def primes_length)
  have "nat (hth_prime_idx head) < 23" using i by simp
  then have "Suc (ht_load (HT_PRIMES ! nat (hth_prime_idx head))) < ht_load (HT_PRIMES ! Suc (nat (hth_prime_idx head)))"
    using primes_step by (simp add: list_all_iff)
  moreover have "nat (hth_prime_idx head + 1) = Suc (nat (hth_prime_idx head))" using i by simp
  ultimately show ?thesis using n by simp
qed

text \<open>A table of any size grown to any later prime.\<close>

lemma regrown_ok:
  assumes "ht_ok hashfn head" and "hth_prime_idx head < j" and "j < 24" and "hth_n_entries head < ht_load (HT_PRIMES ! nat j)"
    and "old = (case hth_table head of None \<Rightarrow> [] | Some t \<Rightarrow> t)"
    and "new = rehash_fresh (HT_PRIMES ! nat j) old \<or> new = rehash_in_place (HT_PRIMES ! nat j) old"
    and "head' = head\<lparr> hth_table := Some new, hth_table_length := HT_PRIMES ! nat j, hth_prime_idx := j, hth_load_limit := ht_load (HT_PRIMES ! nat j) \<rparr>"
  shows "ht_ok hashfn head' \<and> mset (ht_elems head') = mset (ht_elems head)"
proof -
  let ?n = "HT_PRIMES ! nat j"
  have j0: "0 \<le> j" using ht_ok_idx [OF assms(1)] assms(2) by linarith
  have old: "table_ok hashfn old" "length old \<le> ?n" "hth_n_entries head = length (concat old)" "ht_elems head = map fst (concat old)"
      "hth_n_entries head < 2 ^ 32"
  proof -
    have "length t \<le> ?n" if "hth_table head = Some t" for t
    proof -
      have "nat (hth_prime_idx head) < nat j" using assms(1,2) that j0 by (simp add: ht_ok_def)
      moreover have "nat j < 24" using assms(3) j0 by simp
      ultimately have "HT_PRIMES ! nat (hth_prime_idx head) < ?n" by (rule primes_mono)
      then show ?thesis using assms(1) that by (simp add: ht_ok_def)
    qed
    then show "length old \<le> ?n" using assms(5) by (simp split: option.splits)
    show "table_ok hashfn old" "hth_n_entries head = length (concat old)" "ht_elems head = map fst (concat old)" "hth_n_entries head < 2 ^ 32"
      using assms(1,5) by (auto simp: ht_ok_def HT_INIT_def table_ok_Nil ht_elems_def split: option.splits)
  qed
  have "0 < ?n" using primes_positive assms(3) j0 by (simp add: primes_length)
  then have new: "length new = ?n" "table_ok hashfn new" "mset (concat new) = mset (concat old)"
    using assms(6) rehash_fresh_ok [OF _ old(1), of ?n] rehash_in_place_ok [OF old(2,1)] by auto
  then have "length (concat new) = length (concat old)" by (metis size_mset)
  moreover have "mset (map fst (concat new)) = mset (map fst (concat old))" using new(3) by (metis mset_map)
  ultimately show ?thesis
    using new old assms(3,4) j0 by (simp add: assms(7) ht_ok_def ht_elems_def primes_length)
qed

lemma ht_reserve_ok:
  assumes "ht_ok hashfn head" and "fst alloc \<or> snd alloc" and "hth_n_entries head + 1 < 2 ^ 32"
  obtains head' where "ht_reserve alloc head = Some head'" and "ht_ok hashfn head'" and "mset (ht_elems head') = mset (ht_elems head)"
    and "hth_table head' \<noteq> None" and "hth_n_entries head' = hth_n_entries head"
    and "hth_n_entries head' < hth_load_limit head' \<or> hth_prime_idx head' = 23"
proof (cases "hth_table head = None \<or> hth_n_entries head \<ge> hth_load_limit head")
  case False
  then have "ht_reserve alloc head = Some head" by (auto simp: ht_reserve_def)
  then show ?thesis using that assms(1) False by auto
next
  case True
  have u: "u32 (hth_n_entries head + 1) = hth_n_entries head + 1" using assms(3) by (simp add: u32_def)
  show ?thesis
  proof (cases "hth_prime_idx head = 23")
    case last: True
    then have "hth_table head \<noteq> None" using assms(1) by (cases "hth_table head") (simp_all add: ht_ok_def HT_INIT_def)
    moreover have "ht_reserve alloc head = Some head" using True last by (simp add: ht_reserve_def HT_GROW_def primes_length)
    ultimately show ?thesis using that assms(1) last by auto
  next
    case notlast: False
    define j where "j = hth_prime_idx head + 1"
    define new where "new = (let old = (case hth_table head of None \<Rightarrow> [] | Some t \<Rightarrow> t)
      in if fst alloc then rehash_fresh (HT_PRIMES ! nat j) old else rehash_in_place (HT_PRIMES ! nat j) old)"
    define head' where "head' = head\<lparr> hth_table := Some new, hth_table_length := HT_PRIMES ! nat j, hth_prime_idx := j, hth_load_limit := ht_load (HT_PRIMES ! nat j) \<rparr>"
    have next_ok: "hth_n_entries head + 1 < ht_load (HT_PRIMES ! nat j)" using grow_next_ok [OF assms(1) True notlast] by (simp add: j_def)
    have idx: "-1 \<le> hth_prime_idx head" "hth_prime_idx head < 23" using ht_ok_idx [OF assms(1)] notlast by auto
    have "grow_loop (hth_n_entries head + 1) (hth_prime_idx head) = Some (HT_PRIMES ! nat j, ht_load (HT_PRIMES ! nat j), j)"
      using grow_loop_next [OF idx] next_ok by (simp add: j_def)
    moreover have "hth_load_limit head \<le> hth_n_entries head + 1" using True assms(1) by (auto simp: ht_ok_def HT_INIT_def split: option.splits)
    ultimately have "HT_GROW alloc head (hth_n_entries head + 1) = Some (0, head')"
      using assms(2) idx by (auto simp: HT_GROW_def primes_length head'_def new_def Let_def)
    then have r: "ht_reserve alloc head = Some head'" using True u by (simp add: ht_reserve_def)
    have "ht_ok hashfn head' \<and> mset (ht_elems head') = mset (ht_elems head)"
      using next_ok idx by (intro regrown_ok [OF assms(1) _ _ _ refl _ head'_def]) (auto simp: j_def new_def Let_def)
    then show ?thesis using that [OF r] next_ok by (simp add: head'_def)
  qed
qed

section \<open>A table is a partial map\<close>

text \<open>
  \<open>key\<close> is what \<open>eqfn\<close> compares; \<open>good\<close> restricts the elements to those on which \<open>eqfn\<close> and \<open>hashfn\<close> are defined.
\<close>

definition ht_inv :: "('e \<Rightarrow> nat) \<Rightarrow> ('e \<Rightarrow> 'k) \<Rightarrow> ('e \<Rightarrow> bool) \<Rightarrow> 'e ht_head \<Rightarrow> bool" where
  "ht_inv hashfn key good head \<longleftrightarrow> ht_ok hashfn head \<and> list_all good (ht_elems head) \<and> distinct (map key (ht_elems head))"

definition ht_map :: "('e \<Rightarrow> 'k) \<Rightarrow> 'e ht_head \<Rightarrow> 'k \<Rightarrow> 'e option" where
  "ht_map key head = map_of (map (\<lambda>e. (key e, e)) (ht_elems head))"

text \<open>A changed chain.\<close>

lemma ht_ok_bucket:
  assumes "ht_ok hashfn head" and "hth_table head = Some t" and "b < length t"
    and "\<forall>p \<in> set c. snd p = hashfn (fst p) \<and> hashfn (fst p) mod length t = b"
    and "n = length (concat (t[b := c]))" and "n < 2 ^ 32" and "n \<le> hth_load_limit head \<or> hth_prime_idx head = 23"
  shows "ht_ok hashfn (head\<lparr> hth_table := Some (t[b := c]), hth_n_entries := n \<rparr>)"
  using assms table_ok_update [OF _ assms(4)] by (simp add: ht_ok_def primes_length)

locale hash_elements =
  fixes hashfn :: "'e \<Rightarrow> nat" and eqfn :: "'e \<Rightarrow> 'e \<Rightarrow> bool" and key :: "'e \<Rightarrow> 'k" and good :: "'e \<Rightarrow> bool"
  assumes eqfn_key: "good a \<Longrightarrow> good b \<Longrightarrow> eqfn a b \<longleftrightarrow> key a = key b"
    and hashfn_key: "good a \<Longrightarrow> good b \<Longrightarrow> key a = key b \<Longrightarrow> hashfn a = hashfn b"
begin

abbreviation tinv :: "'e ht_head \<Rightarrow> bool" where "tinv \<equiv> ht_inv hashfn key good"
abbreviation tmap :: "'e ht_head \<Rightarrow> 'k \<Rightarrow> 'e option" where "tmap \<equiv> ht_map key"

lemma ht_map_Some: "tinv head \<Longrightarrow> tmap head k = Some e \<longleftrightarrow> e \<in> set (ht_elems head) \<and> key e = k"
proof -
  assume "tinv head"
  then have "distinct (map fst (map (\<lambda>e. (key e, e)) (ht_elems head)))" by (simp add: ht_inv_def comp_def)
  then show ?thesis unfolding ht_map_def by (subst map_of_eq_Some_iff) auto
qed

lemma ht_map_eqI:
  assumes "tinv head" and "\<And>k e. m k = Some e \<longleftrightarrow> e \<in> set (ht_elems head) \<and> key e = k"
  shows "tmap head = m"
proof
  fix k
  have "tmap head k = Some e \<longleftrightarrow> m k = Some e" for e using ht_map_Some [OF assms(1), of k e] assms(2) [of k e] by simp
  then show "tmap head k = m k" by (metis not_Some_eq)
qed

lemma ht_inv_init: "tinv HT_INIT" "tmap HT_INIT = Map.empty"
  by (simp_all add: ht_inv_def ht_ok_def ht_elems_def ht_map_def HT_INIT_def)

lemma ht_size: "tinv head \<Longrightarrow> HT_SIZE head = card (dom (tmap head))"
proof -
  assume inv: "tinv head"
  have "dom (tmap head) = key ` set (ht_elems head)" using ht_map_Some [OF inv] by (auto simp: dom_def image_iff)
  moreover have "card (key ` set (ht_elems head)) = length (ht_elems head)"
    using inv by (metis ht_inv_def distinct_card length_map set_map)
  moreover have "length (ht_elems head) = hth_n_entries head"
    using inv by (auto simp: ht_inv_def ht_ok_def ht_elems_def HT_INIT_def split: option.splits)
  ultimately show ?thesis by (simp add: HT_SIZE_def)
qed

text \<open>The search in the right chain finds the element with the key, wherever it is in the table.\<close>

lemma chain_find_key:
  assumes "list_all (\<lambda>p. good (fst p)) c" and "good elm"
  shows "chain_find eqfn elm c \<le> length c"
    and "chain_find eqfn elm c = length c \<longleftrightarrow> (\<forall>p \<in> set c. key (fst p) \<noteq> key elm)"
    and "chain_find eqfn elm c < length c \<Longrightarrow> key (fst (c ! chain_find eqfn elm c)) = key elm"
  using assms by (induction c) (auto simp: eqfn_key)

lemma find_p:
  assumes "tinv head" and "hth_table head = Some t" and "good elm"
  shows "\<exists>b i. HT_FIND_P eqfn head elm (hashfn elm) = Some (b, i) \<and> b = hashfn elm mod length t \<and> b < length t \<and> i \<le> length (t ! b) \<and>
    (i < length (t ! b) \<longrightarrow> key (fst (t ! b ! i)) = key elm \<and> tmap head (key elm) = Some (fst (t ! b ! i))) \<and>
    (i = length (t ! b) \<longrightarrow> tmap head (key elm) = None)"
proof -
  define b where "b = hashfn elm mod length t"
  define i where "i = chain_find eqfn elm (t ! b)"
  note ok = ht_ok_table [OF _ assms(2), of hashfn]
  have inv: "ht_ok hashfn head" "list_all good (map fst (concat t))" and el: "ht_elems head = map fst (concat t)"
    using assms(1,2) by (simp_all add: ht_inv_def ht_elems_def)
  have b: "b < length t" using ok(1) [OF inv(1)] by (simp add: b_def)
  then have "t ! b \<in> set t" by simp
  then have good: "list_all (\<lambda>p. good (fst p)) (t ! b)" and sub: "set (t ! b) \<subseteq> set (concat t)" using inv(2) by (auto simp: list_all_iff)
  have "HT_FIND_P eqfn head elm (hashfn elm) = Some (b, i)"
    using assms(2) ok(2) [OF inv(1)] by (simp add: HT_FIND_P_def ht_bucket_num_def b_def i_def Let_def)
  moreover have "tmap head (key elm) = Some (fst (t ! b ! i))" if "i < length (t ! b)"
  proof -
    have "t ! b ! i \<in> set (concat t)" using sub nth_mem [OF that] by blast
    then have "fst (t ! b ! i) \<in> set (ht_elems head)" unfolding el set_map by (rule imageI)
    then show ?thesis using that chain_find_key(3) [OF good assms(3)] by (subst ht_map_Some [OF assms(1)]) (simp add: i_def)
  qed
  moreover have "tmap head (key elm) = None" if "i = length (t ! b)"
  proof (rule ccontr)
    assume "tmap head (key elm) \<noteq> None"
    then obtain e where "e \<in> set (ht_elems head)" "key e = key elm" using ht_map_Some [OF assms(1)] by auto
    then obtain p where p: "p \<in> set (concat t)" "key (fst p) = key elm" "good (fst p)" using inv(2) by (auto simp: el list_all_iff)
    then have "hashfn (fst p) = hashfn elm" using hashfn_key assms(3) by blast
    then have "p \<in> set (t ! b)" using in_concat_bucket(2) [OF ok(3) [OF inv(1)] p(1)] by (simp add: b_def)
    then show False using that chain_find_key(2) [OF good assms(3)] p(2) by (simp add: i_def)
  qed
  ultimately show ?thesis
    using b chain_find_key(1,3) [OF good assms(3)] by (intro exI [of _ b] exI [of _ i]) (simp add: b_def i_def)
qed

lemma ht_find:
  assumes "tinv head" and "good elm"
  shows "HT_FIND hashfn eqfn head elm = tmap head (key elm)"
proof (cases "hth_table head")
  case None
  then show ?thesis by (simp add: HT_FIND_def HT_FIND_P_def ht_map_def ht_elems_def)
next
  case (Some t)
  from find_p [OF assms(1) Some assms(2)] obtain b i where
    "HT_FIND_P eqfn head elm (hashfn elm) = Some (b, i)" "i \<le> length (t ! b)"
    "i < length (t ! b) \<longrightarrow> tmap head (key elm) = Some (fst (t ! b ! i))" "i = length (t ! b) \<longrightarrow> tmap head (key elm) = None" by blast
  then show ?thesis using Some by (cases "i < length (t ! b)") (auto simp: HT_FIND_def ht_at_def)
qed

lemma inv_by_list:
  assumes "ht_ok hashfn head" and "mset (ht_elems head) = mset xs" and "list_all good xs" and "distinct (map key xs)"
  shows "tinv head \<and> tmap head = map_of (map (\<lambda>e. (key e, e)) xs)"
proof
  have "set (ht_elems head) = set xs" using assms(2) by (rule mset_eq_setD)
  moreover have "distinct (map key (ht_elems head))" using assms(2,4) by (metis mset_eq_imp_distinct_iff mset_map)
  ultimately show inv: "tinv head" using assms(1,3) by (simp add: ht_inv_def list_all_iff)
  have "distinct (map fst (map (\<lambda>e. (key e, e)) xs))" using assms(4) by (simp add: comp_def)
  then show "tmap head = map_of (map (\<lambda>e. (key e, e)) xs)"
    using \<open>set (ht_elems head) = set xs\<close> by (intro ht_map_eqI [OF inv]) (auto simp: map_of_eq_Some_iff)
qed

lemma inv_elems:
  assumes "tinv head" and "hth_table head = Some t"
  shows "ht_ok hashfn head" and "ht_elems head = map fst (concat t)" and "list_all good (ht_elems head)" and "distinct (map key (ht_elems head))"
  using assms by (simp_all add: ht_inv_def ht_elems_def)

lemma tmap_list: "tmap head = map_of (map (\<lambda>e. (key e, e)) (ht_elems head))"
  by (simp add: ht_map_def)

lemma inv_add:
  assumes "tinv head" and "hth_table head = Some t" and "good e" and "b = hashfn e mod length t"
    and "mset c = add_mset (e, hashfn e) (mset (t ! b))" and "tmap head (key e) = None"
    and "hth_n_entries head + 1 < 2 ^ 32" and "hth_n_entries head < hth_load_limit head \<or> hth_prime_idx head = 23"
  defines "head' \<equiv> head\<lparr> hth_table := Some (t[b := c]), hth_n_entries := u32 (hth_n_entries head + 1) \<rparr>"
  shows "tinv head' \<and> tmap head' = (tmap head)(key e \<mapsto> e)"
proof -
  note el = inv_elems [OF assms(1,2)]
  note ok = ht_ok_table [OF el(1) assms(2)]
  have b: "b < length t" using ok(1) assms(4) by simp
  have "set c = insert (e, hashfn e) (set (t ! b))" using assms(5) by (metis set_mset_add_mset_insert set_mset_mset)
  then have c: "\<forall>p \<in> set c. snd p = hashfn (fst p) \<and> hashfn (fst p) mod length t = b"
    using table_okD [OF ok(3) b] assms(4) by auto
  have ms: "mset (concat (t[b := c])) = add_mset (e, hashfn e) (mset (concat t))"
    using mset_concat_update [OF b, of c] by (simp add: assms(5))
  then have n: "u32 (hth_n_entries head + 1) = length (concat (t[b := c]))"
    using assms(7) ok(4) by (metis size_mset size_add_mset u32_def mod_less Suc_eq_plus1)
  have "ht_ok hashfn head'"
    unfolding head'_def n using assms(7,8) n by (intro ht_ok_bucket [OF el(1) assms(2) b c refl]) (auto simp: u32_def)
  moreover have "mset (ht_elems head') = mset (e # ht_elems head)"
    using ms by (simp add: head'_def ht_elems_def assms(2) mset_map del: mset_concat)
  moreover have "list_all good (e # ht_elems head)" using assms(3) el(3) by simp
  moreover have "key x \<noteq> key e" if "x \<in> set (ht_elems head)" for x
    using that assms(6) ht_map_Some [OF assms(1), of "key e" x] by auto
  then have "distinct (map key (e # ht_elems head))" using el(4) by force
  ultimately show ?thesis using inv_by_list [of head' "e # ht_elems head"] by (simp add: tmap_list)
qed

lemma elems_at:
  assumes "tinv head" and "hth_table head = Some t" and "b < length t" and "i < length (t ! b)" and "t ! b ! i = (r, h)"
  defines "rest \<equiv> map fst (concat (t[b := take i (t ! b) @ drop (Suc i) (t ! b)]))"
  shows "mset (ht_elems head) = mset (r # rest)" and "list_all good (r # rest)" and "distinct (map key (r # rest))"
    and "tmap head = (map_of (map (\<lambda>e. (key e, e)) rest))(key r \<mapsto> r)" and "map_of (map (\<lambda>e. (key e, e)) rest) (key r) = None"
proof -
  note el = inv_elems [OF assms(1,2)]
  have "mset (t ! b) = add_mset (r, h) (mset (take i (t ! b) @ drop (Suc i) (t ! b)))"
    using assms(4,5) by (metis id_take_nth_drop mset_append mset.simps(2) union_mset_add_mset_right)
  then have "mset (concat t) = add_mset (r, h) (mset (concat (t[b := take i (t ! b) @ drop (Suc i) (t ! b)])))"
    using mset_concat_update [OF assms(3), of "take i (t ! b) @ drop (Suc i) (t ! b)"] by simp
  then show ms: "mset (ht_elems head) = mset (r # rest)" unfolding el(2) rest_def by (metis fst_conv image_mset_add_mset mset.simps(2) mset_map)
  have set: "set (ht_elems head) = set (r # rest)" by (rule mset_eq_setD [OF ms])
  then show "list_all good (r # rest)" using el(3) by (simp add: list_all_iff)
  show d: "distinct (map key (r # rest))" using el(4) ms by (metis mset_eq_imp_distinct_iff mset_map)
  have "distinct (map fst (map (\<lambda>e. (key e, e)) (r # rest)))" using d by (simp add: comp_def)
  then have "map_of (map (\<lambda>e. (key e, e)) (r # rest)) k = Some e \<longleftrightarrow> e \<in> set (ht_elems head) \<and> key e = k" for k e
    unfolding set by (subst map_of_eq_Some_iff) auto
  then have "tmap head = map_of (map (\<lambda>e. (key e, e)) (r # rest))" by (intro ht_map_eqI [OF assms(1)])
  then show "tmap head = (map_of (map (\<lambda>e. (key e, e)) rest))(key r \<mapsto> r)" by simp
  show "map_of (map (\<lambda>e. (key e, e)) rest) (key r) = None" using d by (auto simp: map_of_eq_None_iff)
qed

lemma inv_remove:
  assumes "tinv head" and "hth_table head = Some t" and "b < length t" and "i < length (t ! b)" and "t ! b ! i = (r, h)"
  defines "head' \<equiv> head\<lparr> hth_table := Some (ht_unlink t (b, i)), hth_n_entries := u32 (hth_n_entries head + 2 ^ 32 - 1) \<rparr>"
  shows "tinv head'" and "tmap head' = (tmap head)(key r := None)"
proof -
  note el = inv_elems [OF assms(1,2)]
  note ok = ht_ok_table [OF el(1) assms(2)]
  note at = elems_at [OF assms(1-5)]
  let ?c = "take i (t ! b) @ drop (Suc i) (t ! b)"
  have "set ?c \<subseteq> set (t ! b)" using set_take_subset set_drop_subset by fastforce
  then have c: "\<forall>p \<in> set ?c. snd p = hashfn (fst p) \<and> hashfn (fst p) mod length t = b" using table_okD [OF ok(3) assms(3)] by blast
  have len: "length (concat (t[b := ?c])) + 1 = length (concat t)"
    using length_concat_update [OF assms(3), of ?c] assms(4) by simp
  have lim: "hth_n_entries head < 2 ^ 32" "hth_n_entries head \<le> hth_load_limit head \<or> hth_prime_idx head = 23"
    using el(1) assms(2) by (auto simp: ht_ok_def primes_length)
  have "u32 (hth_n_entries head + 2 ^ 32 - 1) = length (concat (t[b := ?c]))"
  proof -
    have "hth_n_entries head + 2 ^ 32 - 1 = length (concat (t[b := ?c])) + 2 ^ 32" "length (concat (t[b := ?c])) < 2 ^ 32"
      using len ok(4) lim(1) by linarith+
    then show ?thesis by (simp add: u32_def)
  qed
  then have "ht_ok hashfn head'"
    unfolding head'_def ht_unlink_def fst_conv snd_conv using lim len ok(4)
    by (intro ht_ok_bucket [OF el(1) assms(2,3) c]) (auto simp del: length_concat)
  moreover have "ht_elems head' = map fst (concat (t[b := ?c]))" by (simp add: head'_def ht_elems_def ht_unlink_def)
  ultimately have "tinv head' \<and> tmap head' = map_of (map (\<lambda>e. (key e, e)) (map fst (concat (t[b := ?c]))))"
    using at(2,3) by (intro inv_by_list) simp_all
  then show "tinv head'" and "tmap head' = (tmap head)(key r := None)"
    using at(4,5) by (auto simp: fun_upd_idem)
qed

lemma inv_update:
  assumes "tinv head" and "hth_table head = Some t" and "b < length t" and "i < length (t ! b)" and "t ! b ! i = (r, h)"
    and "good e" and "key e = key r"
  defines "head' \<equiv> head\<lparr> hth_table := Some (t[b := (t ! b)[i := (e, h)]]) \<rparr>"
  shows "tinv head'" and "tmap head' = (tmap head)(key e \<mapsto> e)" and "h = hashfn e"
proof -
  note el = inv_elems [OF assms(1,2)]
  note ok = ht_ok_table [OF el(1) assms(2)]
  note at = elems_at [OF assms(1-5)]
  let ?rest = "map fst (concat (t[b := take i (t ! b) @ drop (Suc i) (t ! b)]))"
  let ?c = "(t ! b)[i := (e, h)]"
  have rh: "h = hashfn r" "hashfn r mod length t = b" using table_okD [OF ok(3) assms(3), of "(r, h)"] assms(4,5) by (metis fst_conv nth_mem snd_conv)+
  have "good r" using at(2) by simp
  then show he: "h = hashfn e" using rh(1) hashfn_key assms(6,7) by metis
  have "set ?c \<subseteq> insert (e, h) (set (t ! b))" by (rule set_update_subset_insert)
  moreover have "\<forall>p \<in> set (t ! b). snd p = hashfn (fst p) \<and> hashfn (fst p) mod length t = b" using table_okD [OF ok(3) assms(3)] by blast
  moreover have "snd (e, h) = hashfn (fst (e, h)) \<and> hashfn (fst (e, h)) mod length t = b" using he rh by simp
  ultimately have c: "\<forall>p \<in> set ?c. snd p = hashfn (fst p) \<and> hashfn (fst p) mod length t = b" by blast
  have len: "length (concat (t[b := ?c])) = length (concat t)" using length_concat_update [OF assms(3), of ?c] by simp
  have "ht_ok hashfn (head\<lparr> hth_table := Some (t[b := ?c]), hth_n_entries := hth_n_entries head \<rparr>)"
    using el(1) assms(2) ok(4) len by (intro ht_ok_bucket [OF el(1) assms(2,3) c]) (auto simp: ht_ok_def primes_length)
  then have ok': "ht_ok hashfn head'" by (simp add: head'_def)
  have "mset ?c = add_mset (e, h) (mset (take i (t ! b) @ drop (Suc i) (t ! b)))"
    using assms(4) by (simp add: upd_conv_take_nth_drop)
  then have "mset (concat (t[b := ?c])) = add_mset (e, h) (mset (concat (t[b := take i (t ! b) @ drop (Suc i) (t ! b)])))"
    using mset_concat_update [of b "t[b := take i (t ! b) @ drop (Suc i) (t ! b)]" ?c] assms(3) by simp
  then have "mset (ht_elems head') = mset (e # ?rest)" by (simp add: head'_def ht_elems_def mset_map del: mset_concat)
  then have "tinv head' \<and> tmap head' = map_of (map (\<lambda>e. (key e, e)) (e # ?rest))"
    using at(2,3) assms(6,7) by (intro inv_by_list [OF ok']) simp_all
  then show "tinv head'" and "tmap head' = (tmap head)(key e \<mapsto> e)" using at(4) assms(7) by auto
qed

lemma ht_reserve_inv:
  assumes "tinv head" and "fst alloc \<or> snd alloc" and "hth_n_entries head + 1 < 2 ^ 32"
  obtains head' t where "ht_reserve alloc head = Some head'" and "tinv head'" and "tmap head' = tmap head"
    and "hth_table head' = Some t" and "hth_n_entries head' = hth_n_entries head"
    and "hth_n_entries head' < hth_load_limit head' \<or> hth_prime_idx head' = 23"
proof -
  have ok: "ht_ok hashfn head" using assms(1) by (simp add: ht_inv_def)
  obtain head' where h: "ht_reserve alloc head = Some head'" "ht_ok hashfn head'" "mset (ht_elems head') = mset (ht_elems head)"
    "hth_table head' \<noteq> None" "hth_n_entries head' = hth_n_entries head" "hth_n_entries head' < hth_load_limit head' \<or> hth_prime_idx head' = 23"
    using ht_reserve_ok [OF ok assms(2,3)] by blast
  moreover have "tinv head' \<and> tmap head' = tmap head"
    unfolding tmap_list [of head] using assms(1) h(2,3) by (intro inv_by_list) (simp_all add: ht_inv_def)
  ultimately show ?thesis using that by blast
qed

lemma ht_insert:
  assumes "tinv head" and "good e" and "tmap head (key e) = None" and "fst alloc \<or> snd alloc" and "hth_n_entries head + 1 < 2 ^ 32"
  shows "\<exists>head'. HT_INSERT hashfn alloc head e = Some head' \<and> tinv head' \<and> tmap head' = (tmap head)(key e \<mapsto> e)"
proof -
  obtain h t where r: "ht_reserve alloc head = Some h" "tinv h" "tmap h = tmap head" "hth_table h = Some t"
    "hth_n_entries h = hth_n_entries head" "hth_n_entries h < hth_load_limit h \<or> hth_prime_idx h = 23"
    using ht_reserve_inv [OF assms(1,4,5)] by blast
  have len: "hth_table_length h = length t" using ht_ok_table(2) inv_elems(1) r(2,4) by blast
  let ?b = "hashfn e mod length t"
  have "HT_INSERT hashfn alloc head e =
      Some (h\<lparr> hth_table := Some (t[?b := (e, hashfn e) # t ! ?b]), hth_n_entries := u32 (hth_n_entries h + 1) \<rparr>)"
    using r(1,4) len by (simp add: HT_INSERT_def Let_def ht_bucket_num_def)
  moreover have "mset ((e, hashfn e) # t ! ?b) = add_mset (e, hashfn e) (mset (t ! ?b))" by simp
  ultimately show ?thesis
    using inv_add [OF r(2,4) assms(2) refl, of "(e, hashfn e) # t ! ?b"] r(3,5,6) assms(3,5) by simp
qed

lemma ht_remove:
  assumes "tinv head" and "good e"
  shows "fst (HT_REMOVE hashfn eqfn head e) = tmap head (key e) \<and> tinv (snd (HT_REMOVE hashfn eqfn head e)) \<and>
    tmap (snd (HT_REMOVE hashfn eqfn head e)) = (tmap head)(key e := None)"
proof (cases "hth_table head")
  case None
  then have "tmap head = Map.empty" by (simp add: tmap_list ht_elems_def)
  then show ?thesis using None assms(1) by (simp add: HT_REMOVE_def HT_FIND_P_def)
next
  case (Some t)
  from find_p [OF assms(1) Some assms(2)] obtain b i where p: "HT_FIND_P eqfn head e (hashfn e) = Some (b, i)" "b < length t"
    "i \<le> length (t ! b)" "i < length (t ! b) \<longrightarrow> key (fst (t ! b ! i)) = key e \<and> tmap head (key e) = Some (fst (t ! b ! i))"
    "i = length (t ! b) \<longrightarrow> tmap head (key e) = None" by blast
  show ?thesis
  proof (cases "i < length (t ! b)")
    case True
    obtain r h where rh: "t ! b ! i = (r, h)" by fastforce
    then have "HT_REMOVE hashfn eqfn head e =
        (Some r, head\<lparr> hth_table := Some (ht_unlink t (b, i)), hth_n_entries := u32 (hth_n_entries head + 2 ^ 32 - 1) \<rparr>)"
      using p(1) Some True by (simp add: HT_REMOVE_def ht_at_def)
    then show ?thesis using inv_remove [OF assms(1) Some p(2) True rh] p(4) True rh by simp
  next
    case False
    then have "HT_REMOVE hashfn eqfn head e = (None, head)" "tmap head (key e) = None"
      using p Some by (simp_all add: HT_REMOVE_def ht_at_def)
    then show ?thesis using assms(1) by (simp add: fun_upd_idem)
  qed
qed

lemma ht_find_or_insert:
  assumes "tinv head" and "good e" and "fst alloc \<or> snd alloc" and "hth_n_entries head + 1 < 2 ^ 32"
    and "good n" and "key n = key e" and "\<And>r. good r \<Longrightarrow> good (y r) \<and> key (y r) = key r"
  shows "\<exists>head'. HT_FIND_OR_INSERT hashfn eqfn alloc head e y n = Some (tmap head (key e), head') \<and> tinv head' \<and>
    tmap head' = (tmap head)(key e \<mapsto> (case tmap head (key e) of None \<Rightarrow> n | Some r \<Rightarrow> y r))"
proof -
  obtain h t where r: "ht_reserve alloc head = Some h" "tinv h" "tmap h = tmap head" "hth_table h = Some t"
    "hth_n_entries h = hth_n_entries head" "hth_n_entries h < hth_load_limit h \<or> hth_prime_idx h = 23"
    using ht_reserve_inv [OF assms(1,3,4)] by blast
  from find_p [OF r(2,4) assms(2)] obtain b i where p: "HT_FIND_P eqfn h e (hashfn e) = Some (b, i)" "b = hashfn e mod length t" "b < length t"
    "i \<le> length (t ! b)" "i < length (t ! b) \<longrightarrow> key (fst (t ! b ! i)) = key e \<and> tmap h (key e) = Some (fst (t ! b ! i))"
    "i = length (t ! b) \<longrightarrow> tmap h (key e) = None" by blast
  show ?thesis
  proof (cases "i < length (t ! b)")
    case True
    obtain x hh where x: "t ! b ! i = (x, hh)" by fastforce
    have gx: "good x" using elems_at(2) [OF r(2,4) p(3) True x] by simp
    have kx: "key x = key e" "tmap head (key e) = Some x" using p(5) True x r(3) by simp_all
    have "HT_FIND_OR_INSERT hashfn eqfn alloc head e y n = Some (Some x, h\<lparr> hth_table := Some (t[b := (t ! b)[i := (y x, hh)]]) \<rparr>)"
      using r(1,4) p(1) True x by (simp add: HT_FIND_OR_INSERT_def Let_def ht_at_def)
    then show ?thesis
      using inv_update [OF r(2,4) p(3) True x, of "y x"] assms(7) [OF gx] kx r(3) by simp
  next
    case False
    have none: "tmap head (key e) = None" using p(4,6) False r(3) by simp
    have hn: "hashfn n = hashfn e" using hashfn_key assms(2,5,6) by blast
    have "HT_FIND_OR_INSERT hashfn eqfn alloc head e y n =
        Some (None, h\<lparr> hth_table := Some (t[b := t ! b @ [(n, hashfn n)]]), hth_n_entries := u32 (hth_n_entries h + 1) \<rparr>)"
      using r(1,4) p(1) False hn by (simp add: HT_FIND_OR_INSERT_def Let_def ht_at_def)
    then show ?thesis
      using inv_add [OF r(2,4) assms(5), of b "t ! b @ [(n, hashfn n)]"] p(2) hn none r(3,5,6) assms(4,6) by simp
  qed
qed

lemma ht_replace:
  assumes "tinv head" and "good e" and "e \<notin> set (ht_elems head)" and "fst alloc \<or> snd alloc" and "hth_n_entries head + 1 < 2 ^ 32"
  shows "\<exists>head'. HT_REPLACE hashfn eqfn alloc head e = Some (tmap head (key e), head') \<and> tinv head' \<and> tmap head' = (tmap head)(key e \<mapsto> e)"
proof -
  have "\<exists>head'. HT_FIND_OR_INSERT hashfn eqfn alloc head e (\<lambda>r. if good r \<and> key r = key e then e else r) e = Some (tmap head (key e), head') \<and> tinv head' \<and>
    tmap head' = (tmap head)(key e \<mapsto> (case tmap head (key e) of None \<Rightarrow> e | Some r \<Rightarrow> (if good r \<and> key r = key e then e else r)))"
    using assms by (intro ht_find_or_insert) auto
  then obtain head' where h: "HT_FIND_OR_INSERT hashfn eqfn alloc head e (\<lambda>r. if good r \<and> key r = key e then e else r) e = Some (tmap head (key e), head')"
    "tinv head'" "tmap head' = (tmap head)(key e \<mapsto> (case tmap head (key e) of None \<Rightarrow> e | Some r \<Rightarrow> (if good r \<and> key r = key e then e else r)))" by blast
  have same: "good r \<and> key r = key e \<and> r \<noteq> e" if "tmap head (key e) = Some r" for r
    using that assms(1,3) ht_map_Some [OF assms(1), of "key e" r] by (auto simp: ht_inv_def list_all_iff)
  obtain g t where r: "ht_reserve alloc head = Some g" "tinv g" "tmap g = tmap head" "hth_table g = Some t"
    using ht_reserve_inv [OF assms(1,4,5)] by blast
  from find_p [OF r(2,4) assms(2)] obtain b i where p: "HT_FIND_P eqfn g e (hashfn e) = Some (b, i)" "b < length t"
    "i < length (t ! b) \<longrightarrow> tmap g (key e) = Some (fst (t ! b ! i))" "i \<le> length (t ! b)" "i = length (t ! b) \<longrightarrow> tmap g (key e) = None" by blast
  have "HT_REPLACE hashfn eqfn alloc head e = Some (tmap head (key e), head')"
  proof (cases "i < length (t ! b)")
    case True
    obtain x hh where x: "t ! b ! i = (x, hh)" by fastforce
    have m: "tmap head (key e) = Some x" using p(3) True x r(3) by simp
    then have s: "good x" "key x = key e" "x \<noteq> e" using same by blast+
    moreover have "hh = hashfn e" using inv_update(3) [OF r(2,4) p(2) True x assms(2)] s by simp
    moreover have "head' = g\<lparr> hth_table := Some (t[b := (t ! b)[i := (e, hh)]]) \<rparr>"
    proof -
      have "HT_FIND_OR_INSERT hashfn eqfn alloc head e (\<lambda>r. if good r \<and> key r = key e then e else r) e =
          Some (Some x, g\<lparr> hth_table := Some (t[b := (t ! b)[i := (e, hh)]]) \<rparr>)"
        using r(1,4) p(1) True x s by (simp add: HT_FIND_OR_INSERT_def Let_def ht_at_def)
      then show ?thesis using h(1) by simp
    qed
    ultimately show ?thesis
      using r(1,4) p(1) True x m by (simp add: HT_REPLACE_def Let_def ht_at_def)
  next
    case False
    have "HT_FIND_OR_INSERT hashfn eqfn alloc head e (\<lambda>r. if good r \<and> key r = key e then e else r) e = HT_REPLACE hashfn eqfn alloc head e"
      using False r(1,4) p(1) by (simp add: HT_FIND_OR_INSERT_def HT_REPLACE_def Let_def ht_at_def)
    then show ?thesis using h(1) by simp
  qed
  moreover have "(case tmap head (key e) of None \<Rightarrow> e | Some r \<Rightarrow> (if good r \<and> key r = key e then e else r)) = e"
    using same by (cases "tmap head (key e)") auto
  then have "tmap head' = (tmap head)(key e \<mapsto> e)" unfolding h(3) by (simp only:)
  ultimately show ?thesis using h(2) by blast
qed

end

text \<open>The part of the table before a position and the part from it on.\<close>

definition ht_before :: "('e \<times> nat) list list \<Rightarrow> nat \<Rightarrow> nat \<Rightarrow> ('e \<times> nat) list" where
  "ht_before t b i = concat (take b t) @ take i (t ! b)"

definition ht_after :: "('e \<times> nat) list list \<Rightarrow> nat \<Rightarrow> nat \<Rightarrow> ('e \<times> nat) list" where
  "ht_after t b i = drop i (t ! b) @ concat (drop (Suc b) t)"

lemma next_bucket_Some:
  assumes "next_bucket t b = Some b'"
  shows "b \<le> b'" and "b' < length t" and "t ! b' \<noteq> []" and "ht_before t b' 0 = concat (take b t)" and "ht_after t b' 0 = concat (drop b t)"
proof -
  have r: "b \<le> b' \<and> b' < length t \<and> t ! b' \<noteq> [] \<and> (\<forall>k. b \<le> k \<and> k < b' \<longrightarrow> t ! k = [])"
  proof -
    obtain k where k: "k < length t - b" "t ! (b + k) \<noteq> []" "b' = b + k" "\<forall>j < k. t ! (b + j) = []"
      using assms by (auto simp: next_bucket_def find_Some_iff)
    have "t ! j = []" if "b \<le> j" "j < b'" for j using k(3,4) that by (metis le_Suc_ex nat_add_left_cancel_less)
    then show ?thesis using k(1-3) by auto
  qed
  then show "b \<le> b'" "b' < length t" "t ! b' \<noteq> []" by simp_all
  have "set (take (b' - b) (drop b t)) \<subseteq> {[]}" using r by (auto simp: set_conv_nth)
  then have e: "concat (take (b' - b) (drop b t)) = []" by auto
  have "take b' t = take b t @ take (b' - b) (drop b t)" using r by (metis le_add_diff_inverse take_add)
  then show "ht_before t b' 0 = concat (take b t)" using e by (simp add: ht_before_def)
  have "drop b t = take (b' - b) (drop b t) @ drop b' t" using r by (metis append_take_drop_id drop_drop le_add_diff_inverse2)
  moreover have "drop b' t = t ! b' # drop (Suc b') t" using r by (simp add: Cons_nth_drop_Suc)
  ultimately show "ht_after t b' 0 = concat (drop b t)" using e by (metis append_Nil concat_append concat.simps(2) drop0 ht_after_def)
qed

lemma next_bucket_None: "next_bucket t b = None \<Longrightarrow> concat (drop b t) = []"
  by (auto simp: next_bucket_def find_None_iff in_set_conv_nth)

lemma ht_before_after: "b < length t \<Longrightarrow> concat t = ht_before t b i @ ht_after t b i"
  by (metis append.assoc append_take_drop_id concat.simps(2) concat_append id_take_nth_drop ht_after_def ht_before_def)

lemma after_step:
  assumes "b < length t" and "i < length (t ! b)"
  shows "ht_after t b i = t ! b ! i # ht_after t b (Suc i)" and "ht_before t b (Suc i) = ht_before t b i @ [t ! b ! i]"
  using assms by (simp_all add: ht_after_def ht_before_def Cons_nth_drop_Suc take_Suc_conv_app_nth)

lemma after_end:
  assumes "b < length t"
  shows "ht_after t b (length (t ! b)) = concat (drop (b + 1) t)" and "ht_before t b (length (t ! b)) = concat (take (b + 1) t)"
  using assms by (simp_all add: ht_after_def ht_before_def take_Suc_conv_app_nth)

lemma unlink_parts:
  assumes "b < length t" and "i < length (t ! b)"
  shows "ht_before (ht_unlink t (b, i)) b i = ht_before t b i" and "ht_after (ht_unlink t (b, i)) b i = ht_after t b (Suc i)"
    and "length (ht_unlink t (b, i)) = length t" and "length (ht_unlink t (b, i) ! b) = length (t ! b) - 1"
  using assms by (simp_all add: ht_before_def ht_after_def ht_unlink_def min_def)

context hash_elements
begin

lemma start_from_ok:
  assumes "tinv head" and "hth_table head = Some t"
  shows "start_from head b = Some (map_option (\<lambda>b'. (b', 0)) (next_bucket t b))"
proof (cases "next_bucket t b")
  case (Some b')
  note ok = ht_ok_table [OF inv_elems(1) [OF assms] assms(2)]
  have "hd (t ! b') \<in> set (t ! b')" using next_bucket_Some(3) [OF Some] by simp
  then have "snd (hd (t ! b')) mod length t = b'" using table_okD [OF ok(3) next_bucket_Some(2) [OF Some]] by metis
  then show ?thesis using Some assms(2) ok(2) by (simp add: start_from_def ht_bucket_num_def)
qed (simp add: start_from_def assms(2))

lemma bucket_num_at:
  assumes "tinv head" and "hth_table head = Some t" and "b < length t" and "i < length (t ! b)"
  shows "ht_bucket_num head (snd (t ! b ! i)) = b"
proof -
  note ok = ht_ok_table [OF inv_elems(1) [OF assms(1,2)] assms(2)]
  show ?thesis using table_okD [OF ok(3) assms(3) nth_mem [OF assms(4)]] ok(2) by (simp add: ht_bucket_num_def)
qed

lemma ht_next:
  assumes "tinv head" and "hth_table head = Some t" and "b < length t" and "i < length (t ! b)"
  shows "HT_NEXT head (b, i) = Some (if Suc i < length (t ! b) then Some (b, Suc i) else map_option (\<lambda>b'. (b', 0)) (next_bucket t (b + 1)))"
proof -
  have e: "ht_at t (b, i) = Some (t ! b ! i)" using assms(4) by (simp add: ht_at_def)
  show ?thesis
  proof (cases "Suc i < length (t ! b)")
    case True
    then have "ht_at t (b, Suc i) = Some (t ! b ! Suc i)" by (simp add: ht_at_def)
    then show ?thesis using e assms(2) True bucket_num_at [OF assms(1-3)] assms(4) by (simp add: HT_NEXT_def)
  next
    case False
    then have "ht_at t (b, Suc i) = None" by (simp add: ht_at_def)
    then show ?thesis using e assms(2) False bucket_num_at [OF assms] start_from_ok [OF assms(1,2), of "b + 1"] by (simp add: HT_NEXT_def)
  qed
qed

lemma ht_next_rmv:
  assumes "tinv head" and "hth_table head = Some t" and "b < length t" and "i < length (t ! b)"
  defines "t' \<equiv> ht_unlink t (b, i)"
  shows "\<exists>head'. HT_NEXT_RMV head (b, i) = Some (if i < length (t' ! b) then Some (b, i) else map_option (\<lambda>b'. (b', 0)) (next_bucket t' (b + 1)), head') \<and>
    tinv head' \<and> hth_table head' = Some t'"
proof -
  obtain r h where rh: "t ! b ! i = (r, h)" by fastforce
  define head' where "head' = head\<lparr> hth_table := Some t', hth_n_entries := u32 (hth_n_entries head + 2 ^ 32 - 1) \<rparr>"
  have "tinv head'" unfolding head'_def t'_def by (rule inv_remove(1) [OF assms(1-4) rh])
  moreover have "ht_bucket_num head' (snd (t ! b ! i)) = b"
    using bucket_num_at [OF assms(1-4)] by (simp add: head'_def ht_bucket_num_def)
  moreover have "ht_at t (b, i) = Some (t ! b ! i)" "ht_at t' (b, i) = (if i < length (t' ! b) then Some (t' ! b ! i) else None)"
    using assms(4) by (simp_all add: ht_at_def)
  ultimately show ?thesis
    using assms(2) by (intro exI [of _ head']) (simp add: HT_NEXT_RMV_def head'_def [symmetric] t'_def [symmetric] Let_def, simp add: head'_def)
qed

text \<open>
  A loop that stands at a position, or just behind the end of a chain, meets exactly the rest of the table, and keeps of it
  what it does not delete.
\<close>

definition iter_at :: "('e \<times> nat) list list \<Rightarrow> nat \<Rightarrow> nat \<Rightarrow> ht_pos option" where
  "iter_at t b i = (if i < length (t ! b) then Some (b, i) else map_option (\<lambda>b'. (b', 0)) (next_bucket t (b + 1)))"

definition visits_rest :: "('e \<Rightarrow> bool) \<Rightarrow> 'e ht_head \<Rightarrow> ('e \<times> nat) list list \<Rightarrow> nat \<Rightarrow> nat \<Rightarrow> ht_pos option \<Rightarrow> bool" where
  "visits_rest del head t b i iter \<longleftrightarrow>
    (\<exists>head' t'. ht_visit del head iter = Some (map fst (ht_after t b i), head') \<and> tinv head' \<and> hth_table head' = Some t' \<and>
      concat t' = ht_before t b i @ filter (\<lambda>p. \<not> del (fst p)) (ht_after t b i))"

lemma visits_rest_cons:
  assumes "hth_table head = Some t" and "ht_at t p = Some e"
    and "(if del (fst e) then HT_NEXT_RMV head p else map_option (\<lambda>q. (q, head)) (HT_NEXT head p)) = Some (iter, head1)"
    and "visits_rest del head1 t1 b i iter" and "ht_after t b0 i0 = e # ht_after t1 b i"
    and "ht_before t1 b i = (if del (fst e) then ht_before t b0 i0 else ht_before t b0 i0 @ [e])"
  shows "visits_rest del head t b0 i0 (Some p)"
proof -
  obtain head' t' where v: "ht_visit del head1 iter = Some (map fst (ht_after t1 b i), head')" "tinv head'" "hth_table head' = Some t'"
    "concat t' = ht_before t1 b i @ filter (\<lambda>p. \<not> del (fst p)) (ht_after t1 b i)"
    using assms(4) unfolding visits_rest_def by blast
  have "ht_visit del head (Some p) = Some (fst e # map fst (ht_after t1 b i), head')"
    using assms(1-3) v(1) by (subst ht_visit.simps) (simp del: map_option_eq_Some)
  then show ?thesis unfolding visits_rest_def using v(2-4) assms(5,6) by auto
qed

lemma visit_step:
  assumes "tinv head" and "hth_table head = Some t" and "b < length t" and "i < length (t ! b)"
    and IH: "\<And>head1 t1 j. tinv head1 \<Longrightarrow> hth_table head1 = Some t1 \<Longrightarrow> b < length t1 \<Longrightarrow> j \<le> length (t1 ! b) \<Longrightarrow>
      length (ht_after t1 b j) < length (ht_after t b i) \<Longrightarrow> visits_rest del head1 t1 b j (iter_at t1 b j)"
  shows "visits_rest del head t b i (Some (b, i))"
proof -
  note step = after_step [OF assms(3,4)]
  note un = unlink_parts [OF assms(3,4)]
  have at: "ht_at t (b, i) = Some (t ! b ! i)" using assms(4) by (simp add: ht_at_def)
  show ?thesis
  proof (cases "del (fst (t ! b ! i))")
    case False
    have "visits_rest del head t b (Suc i) (iter_at t b (Suc i))" using IH [OF assms(1-3), of "Suc i"] step assms(4) by simp
    moreover have "HT_NEXT head (b, i) = Some (iter_at t b (Suc i))" using ht_next [OF assms(1-4)] by (simp add: iter_at_def)
    ultimately show ?thesis using visits_rest_cons [OF assms(2) at, of del "iter_at t b (Suc i)" head t b "Suc i" b i] step False by simp
  next
    case True
    obtain head1 where h: "HT_NEXT_RMV head (b, i) = Some (iter_at (ht_unlink t (b, i)) b i, head1)" "tinv head1" "hth_table head1 = Some (ht_unlink t (b, i))"
      using ht_next_rmv [OF assms(1-4)] by (auto simp: iter_at_def)
    have "visits_rest del head1 (ht_unlink t (b, i)) b i (iter_at (ht_unlink t (b, i)) b i)"
      using IH [OF h(2,3), of i] un step assms(3,4) by simp
    then show ?thesis using visits_rest_cons [OF assms(2) at, of del _ head1 "ht_unlink t (b, i)" b i b i] h(1) un step True by simp
  qed
qed

lemma ht_visit_from:
  "tinv head \<Longrightarrow> hth_table head = Some t \<Longrightarrow> b < length t \<Longrightarrow> i \<le> length (t ! b) \<Longrightarrow> visits_rest del head t b i (iter_at t b i)"
proof (induction "length (ht_after t b i)" arbitrary: head t b i rule: less_induct)
  case less
  note prems = less.prems
  note IH = less.hyps
  show ?case
  proof (cases "i < length (t ! b)")
    case True
    then have "visits_rest del head t b i (Some (b, i))" using IH by (intro visit_step [OF prems(1-3)]) blast+
    then show ?thesis using True by (simp add: iter_at_def)
  next
    case False
    then have i: "i = length (t ! b)" using prems(4) by simp
    show ?thesis
    proof (cases "next_bucket t (b + 1)")
      case None
      have "ht_after t b i = []" using next_bucket_None [OF None] after_end(1) [OF prems(3)] i by simp
      then have "concat t = ht_before t b i" using ht_before_after [OF prems(3), of i] by simp
      moreover have "iter_at t b i = None" using None i by (simp add: iter_at_def)
      moreover have "ht_visit del head None = Some ([], head)" by (simp add: ht_visit.simps)
      ultimately show ?thesis using prems(1,2) \<open>ht_after t b i = []\<close> by (simp add: visits_rest_def)
    next
      case (Some b')
      note nb = next_bucket_Some [OF Some]
      have parts: "ht_after t b' 0 = ht_after t b i" "ht_before t b' 0 = ht_before t b i"
        using nb(4,5) after_end [OF prems(3)] i by simp_all
      have len: "0 < length (t ! b')" using nb(3) by simp
      have "visits_rest del head t b' 0 (Some (b', 0))"
        using IH unfolding parts(1) [symmetric] by (intro visit_step [OF prems(1,2) nb(2) len]) blast+
      moreover have "iter_at t b i = Some (b', 0)" using Some i by (simp add: iter_at_def)
      ultimately show ?thesis using parts by (simp add: visits_rest_def)
    qed
  qed
qed

lemma ht_visit_all:
  assumes "tinv head"
  shows "\<exists>iter head'. HT_START head = Some iter \<and> ht_visit del head iter = Some (ht_elems head, head') \<and> tinv head' \<and>
    ht_elems head' = filter (\<lambda>e. \<not> del e) (ht_elems head)"
proof (cases "hth_table head")
  case None
  then show ?thesis using assms by (simp add: HT_START_def start_from_def ht_elems_def ht_visit.simps)
next
  case (Some t)
  have start: "HT_START head = Some (map_option (\<lambda>b. (b, 0)) (next_bucket t 0))"
    using start_from_ok [OF assms Some] by (simp add: HT_START_def)
  show ?thesis
  proof (cases "next_bucket t 0")
    case None
    have "ht_elems head = []" using next_bucket_None [OF None] Some by (simp add: ht_elems_def)
    then show ?thesis using start None assms by (simp add: ht_visit.simps)
  next
    case b: (Some b)
    note nb = next_bucket_Some [OF b]
    have "visits_rest del head t b 0 (Some (b, 0))" using ht_visit_from [OF assms Some nb(2), of 0 del] nb(3) by (simp add: iter_at_def)
    then obtain head' t' where "ht_visit del head (Some (b, 0)) = Some (map fst (concat t), head')" "tinv head'" "hth_table head' = Some t'"
      "concat t' = filter (\<lambda>p. \<not> del (fst p)) (concat t)"
      using nb(4,5) unfolding visits_rest_def by auto
    moreover from this have "map fst (concat t') = filter (\<lambda>e. \<not> del e) (map fst (concat t))" by (simp add: filter_map comp_def)
    ultimately show ?thesis using start b Some by (simp add: ht_elems_def del: map_concat filter_concat)
  qed
qed

end

section \<open>The consistency check is exact\<close>

lemma rep_chain_Inr:
  "rep_chain hashfn len i c = Inr n \<longleftrightarrow> (\<forall>p \<in> set c. snd p = hashfn (fst p) \<and> hashfn (fst p) mod len = i) \<and> n = length c"
proof (induction c arbitrary: n)
  case (Cons p c)
  show ?case
  proof (cases "snd p = hashfn (fst p) \<and> snd p mod len = i")
    case True
    then show ?thesis using Cons.IH by (cases "rep_chain hashfn len i c") auto
  next
    case False
    then show ?thesis by auto
  qed
qed auto

lemma rep_table_Inr:
  "rep_table hashfn len i t = Inr n \<longleftrightarrow>
    (\<forall>j < length t. \<forall>p \<in> set (t ! j). snd p = hashfn (fst p) \<and> hashfn (fst p) mod len = i + j) \<and> n = length (concat t)"
proof (induction t arbitrary: i n)
  case (Cons c t)
  define ok where "ok = (\<lambda>c j. \<forall>p \<in> set c. snd p = hashfn (fst p) \<and> hashfn (fst p) mod len = j)"
  have all: "(\<forall>j < length (c # t). ok ((c # t) ! j) (i + j)) \<longleftrightarrow> ok c i \<and> (\<forall>j < length t. ok (t ! j) (Suc i + j))"
    by (simp add: All_less_Suc2)
  have chain: "rep_chain hashfn len i c = Inr k \<longleftrightarrow> ok c i \<and> k = length c" for k unfolding ok_def by (rule rep_chain_Inr)
  have IH: "rep_table hashfn len (Suc i) t = Inr k \<longleftrightarrow> (\<forall>j < length t. ok (t ! j) (Suc i + j)) \<and> k = length (concat t)" for k
    unfolding ok_def by (rule Cons.IH)
  have "rep_table hashfn len i (c # t) = Inr n \<longleftrightarrow> (\<forall>j < length (c # t). ok ((c # t) ! j) (i + j)) \<and> n = length (concat (c # t))"
  proof (cases "rep_chain hashfn len i c")
    case (Inl err)
    then have "\<not> ok c i" using chain [of "length c"] by simp
    then show ?thesis using Inl unfolding all by simp
  next
    case (Inr k)
    then have c: "ok c i" "k = length c" using chain by blast+
    show ?thesis
    proof (cases "rep_table hashfn len (Suc i) t")
      case (Inl err)
      then have "\<not> (\<forall>j < length t. ok (t ! j) (Suc i + j))" using IH [of "length (concat t)"] by simp
      then show ?thesis using Inl Inr unfolding all by simp
    next
      case r: (Inr k')
      then show ?thesis using Inr c IH [of k'] unfolding all by auto
    qed
  qed
  then show ?case unfolding ok_def .
qed simp

lemma rep_chain_error: "rep_chain hashfn len i c = Inl err \<Longrightarrow> err \<noteq> 0"
  by (induction c) (auto split: if_splits simp: map_sum_def split: sum.splits)

lemma rep_table_error: "rep_table hashfn len i t = Inl err \<Longrightarrow> err \<noteq> 0"
  by (induction t arbitrary: i) (auto simp: map_sum_def dest: rep_chain_error split: sum.splits)

lemma primes_ge: "i < 24 \<Longrightarrow> 53 \<le> HT_PRIMES ! i"
  using primes_mono [of 0 i] by (cases "i = 0") (auto simp: HT_PRIMES_def)

lemma HT_REP_IS_BAD_iff:
  assumes "case hth_table head of None \<Rightarrow> hth_table_length head = 0 | Some t \<Rightarrow> hth_table_length head = length t \<and> t \<noteq> []"
    and "hth_prime_idx head < 24" and "hth_n_entries head < 2 ^ 32"
  shows "HT_REP_IS_BAD hashfn head = 0 \<longleftrightarrow> ht_ok hashfn head \<and> hth_n_entries head \<le> hth_load_limit head"
proof (cases "hth_table head")
  case None
  then show ?thesis using assms by (cases head) (auto simp: HT_REP_IS_BAD_def ht_ok_def HT_INIT_def)
next
  case (Some t)
  have t: "hth_table_length head = length t" "0 < length t" using assms(1) Some by auto
  have rt: "(case rep_table hashfn (length t) 0 t of Inl err \<Rightarrow> err | Inr n \<Rightarrow> if n \<noteq> hth_n_entries head then 6 else 0) = 0 \<longleftrightarrow>
      table_ok hashfn t \<and> hth_n_entries head = length (concat t)"
  proof (cases "rep_table hashfn (length t) 0 t")
    case (Inl err)
    then have "\<not> table_ok hashfn t" using rep_table_Inr [of hashfn "length t" 0 t "length (concat t)"] by (simp add: table_ok_iff)
    moreover have "err \<noteq> 0" using rep_table_error Inl by blast
    ultimately show ?thesis using Inl by simp
  next
    case (Inr n)
    then show ?thesis using rep_table_Inr [of hashfn "length t" 0 t n] by (auto simp: table_ok_iff)
  qed
  have lim: "0 < ht_load (HT_PRIMES ! nat i)" if "0 \<le> i" "i < 24" for i
  proof -
    have "53 \<le> HT_PRIMES ! nat i" using that primes_ge [of "nat i"] by simp
    then show ?thesis by (simp add: ht_load_def div_greater_zero_iff)
  qed
  show ?thesis
    using Some t rt assms(2,3) lim [of "hth_prime_idx head"]
    by (auto simp: HT_REP_IS_BAD_def ht_ok_def primes_length simp del: length_concat)
qed

fun foreach_list :: "('e \<Rightarrow> 'd \<Rightarrow> bool \<times> 'd) \<Rightarrow> 'e list \<Rightarrow> 'd \<Rightarrow> 'e list \<times> 'd" where
  "foreach_list fn [] d = ([], d)"
| "foreach_list fn (e # es) d =
    (let (rmv, d) = fn e d; (es', d) = foreach_list fn es d in (if rmv then es' else e # es', d))"

lemma foreach_list_append:
  "foreach_list fn (xs @ ys) d = (let (xs', d) = foreach_list fn xs d; (ys', d) = foreach_list fn ys d in (xs' @ ys', d))"
  by (induction xs arbitrary: d) (auto simp: Let_def split: prod.splits)

lemma foreach_list_sub:
  "foreach_list fn xs d = (ys, d') \<Longrightarrow> set ys \<subseteq> set xs \<and> (distinct (map key xs) \<longrightarrow> distinct (map key ys))"
proof (induction xs arbitrary: d ys d')
  case (Cons e es)
  obtain rmv d1 es' d2 where f: "fn e d = (rmv, d1)" "foreach_list fn es d1 = (es', d2)" by fastforce
  then have "ys = (if rmv then es' else e # es')" using Cons.prems by (simp add: Let_def)
  then show ?case using Cons.IH [OF f(2)] by auto
qed simp

lemma foreach_chain_spec:
  "foreach_chain fn c d = (c', k, d') \<Longrightarrow>
    foreach_list fn (map fst c) d = (map fst c', d') \<and> set c' \<subseteq> set c \<and> length c = length c' + k"
  by (induction c arbitrary: d c' k d') (fastforce simp: Let_def split: prod.splits if_splits)+

lemma foreach_table_spec:
  "foreach_table fn t d = (t', k, d') \<Longrightarrow>
    foreach_list fn (map fst (concat t)) d = (map fst (concat t'), d') \<and> length t' = length t \<and> (\<forall>b < length t. set (t' ! b) \<subseteq> set (t ! b)) \<and>
    length (concat t) = length (concat t') + k"
proof (induction t arbitrary: d t' k d')
  case (Cons c t)
  obtain c1 k1 d1 where c: "foreach_chain fn c d = (c1, k1, d1)" by (metis prod_cases3)
  obtain t2 k2 d2 where t: "foreach_table fn t d1 = (t2, k2, d2)" by (metis prod_cases3)
  have r: "t' = c1 # t2" "k = k1 + k2" "d' = d2" using Cons.prems c t by simp_all
  show ?case using foreach_chain_spec [OF c] Cons.IH [OF t] unfolding r
    by (auto simp: foreach_list_append Let_def nth_Cons split: nat.splits)
qed simp

context hash_elements
begin

lemma ht_foreach_fn:
  assumes "tinv head" and "HT_FOREACH_FN head fn d = (head', d')"
  shows "tinv head' \<and> foreach_list fn (ht_elems head) d = (ht_elems head', d')"
proof (cases "hth_table head")
  case None
  then show ?thesis using assms by (auto simp: HT_FOREACH_FN_def ht_elems_def)
next
  case (Some t)
  obtain t' k d1 where f: "foreach_table fn t d = (t', k, d1)" by (metis prod_cases3)
  note spec = foreach_table_spec [OF f]
  note el = inv_elems [OF assms(1) Some]
  note ok = ht_ok_table [OF el(1) Some]
  have h': "head' = head\<lparr> hth_table := Some t', hth_n_entries := u32 (hth_n_entries head + k * (2 ^ 32 - 1)) \<rparr>" "d' = d1"
    using assms(2) Some f by (simp_all add: HT_FOREACH_FN_def)
  have lim: "hth_n_entries head < 2 ^ 32" using el(1) Some by (simp add: ht_ok_def)
  have n: "u32 (hth_n_entries head + k * (2 ^ 32 - 1)) = length (concat t')"
  proof -
    have "hth_n_entries head + k * (2 ^ 32 - 1) = length (concat t') + k * 2 ^ 32" using spec ok(4) by simp
    then show ?thesis using spec ok(4) lim by (simp add: u32_def)
  qed
  have "table_ok hashfn t'"
    unfolding table_ok_iff
  proof (intro allI impI ballI)
    fix b p assume "b < length t'" "p \<in> set (t' ! b)"
    then show "snd p = hashfn (fst p) \<and> hashfn (fst p) mod length t' = b" using spec table_okD [OF ok(3), of b p] by auto
  qed
  then have "ht_ok hashfn head'"
    using el(1) Some spec ok(4) lim unfolding h' n by (auto simp: ht_ok_def simp del: length_concat)
  moreover have "foreach_list fn (ht_elems head) d = (ht_elems head', d')" using spec Some by (simp add: h' ht_elems_def)
  moreover from this have "list_all good (ht_elems head')" "distinct (map key (ht_elems head'))"
    using foreach_list_sub [of fn "ht_elems head" d "ht_elems head'" d' key] el(3,4) by (auto simp: list_all_iff)
  ultimately show ?thesis by (simp add: ht_inv_def)
qed

end

end
