(* ===== verification/Tor_Map.thy ===== *)
theory Tor_Map
  imports Tor_Hashtable Tor_Smartlist Tor_Ctime
begin

text \<open>
  \<^verbatim>\<open>lib/container/map.c\<close>: \<^verbatim>\<open>strmap_t\<close>, \<^verbatim>\<open>digestmap_t\<close> and \<^verbatim>\<open>digest256map_t\<close>, which the macro \<^verbatim>\<open>IMPLEMENT_MAP_FNS\<close> makes from the hash
  tables of \<^verbatim>\<open>ht.h\<close>.  An entry is its key and its \<^verbatim>\<open>void *val\<close> (\<open>None\<close> is \<^verbatim>\<open>NULL\<close>); the entry on the stack that a search compares with has
  no value.  \<open>siphash24g\<close> is a parameter: it depends on a key drawn when the process starts.
\<close>

section \<open>Model\<close>

type_synonym 'v map_entry = "bytes \<times> 'v option"
type_synonym 'v map_t = "'v map_entry ht_head"

record 'v map_impl =
  entry_hash :: "'v map_entry \<Rightarrow> nat"
  entries_eq :: "'v map_entry \<Rightarrow> 'v map_entry \<Rightarrow> bool"
  assign_tmp_key :: "bytes \<Rightarrow> bytes"
  assign_key :: "bytes \<Rightarrow> bytes"

text \<open>The cast of the 64-bit hash to \<^verbatim>\<open>unsigned\<close>.\<close>

definition hash_unsigned :: "64 word \<Rightarrow> nat" where
  "hash_unsigned h = unat (ucast h :: 32 word)"

definition strmap_entries_eq :: "'v map_entry \<Rightarrow> 'v map_entry \<Rightarrow> bool" where
  "strmap_entries_eq a b = (strcmp (fst a) (fst b) = 0)"

definition strmap_entry_hash :: "(bytes \<Rightarrow> 64 word) \<Rightarrow> 'v map_entry \<Rightarrow> nat" where
  "strmap_entry_hash siphash24g a = hash_unsigned (siphash24g (c_str (fst a)))"

definition digestmap_entries_eq :: "'v map_entry \<Rightarrow> 'v map_entry \<Rightarrow> bool" where
  "digestmap_entries_eq a b = (tor_memeq (fst a) (fst b) DIGEST_LEN \<noteq> 0)"

definition digestmap_entry_hash :: "(bytes \<Rightarrow> 64 word) \<Rightarrow> 'v map_entry \<Rightarrow> nat" where
  "digestmap_entry_hash siphash24g a = hash_unsigned (siphash24g (take DIGEST_LEN (fst a)))"

definition digest256map_entries_eq :: "'v map_entry \<Rightarrow> 'v map_entry \<Rightarrow> bool" where
  "digest256map_entries_eq a b = (tor_memeq (fst a) (fst b) DIGEST256_LEN \<noteq> 0)"

definition digest256map_entry_hash :: "(bytes \<Rightarrow> 64 word) \<Rightarrow> 'v map_entry \<Rightarrow> nat" where
  "digest256map_entry_hash siphash24g a = hash_unsigned (siphash24g (take DIGEST256_LEN (fst a)))"

definition strmap_impl :: "(bytes \<Rightarrow> 64 word) \<Rightarrow> 'v map_impl" where
  "strmap_impl siphash24g =
    \<lparr> entry_hash = strmap_entry_hash siphash24g, entries_eq = strmap_entries_eq, assign_tmp_key = (\<lambda>k. k), assign_key = c_str \<rparr>"

definition digestmap_impl :: "(bytes \<Rightarrow> 64 word) \<Rightarrow> 'v map_impl" where
  "digestmap_impl siphash24g =
    \<lparr> entry_hash = digestmap_entry_hash siphash24g, entries_eq = digestmap_entries_eq,
      assign_tmp_key = take DIGEST_LEN, assign_key = take DIGEST_LEN \<rparr>"

definition digest256map_impl :: "(bytes \<Rightarrow> 64 word) \<Rightarrow> 'v map_impl" where
  "digest256map_impl siphash24g =
    \<lparr> entry_hash = digest256map_entry_hash siphash24g, entries_eq = digest256map_entries_eq,
      assign_tmp_key = take DIGEST256_LEN, assign_key = take DIGEST256_LEN \<rparr>"

subsection \<open>The functions of the macro\<close>

definition map_new :: "'v map_t" where
  "map_new = HT_INIT"

definition map_get :: "'v map_impl \<Rightarrow> 'v map_t \<Rightarrow> bytes \<Rightarrow> 'v option" where
  "map_get impl m key =
    (case HT_FIND (entry_hash impl) (entries_eq impl) m (assign_tmp_key impl key, None) of
       Some resolve \<Rightarrow> snd resolve
     | None \<Rightarrow> None)"

definition map_set :: "'v map_impl \<Rightarrow> 'v map_t \<Rightarrow> bytes \<Rightarrow> 'v option \<Rightarrow> ('v option \<times> 'v map_t) option" where
  "map_set impl m key val = do {
     tor_assert (val \<noteq> None);
     r \<leftarrow> HT_FIND_OR_INSERT (entry_hash impl) (entries_eq impl) (True, True) m (assign_tmp_key impl key, None)
           (\<lambda>ptr. (fst ptr, val)) (assign_key impl key, val);
     Some (case fst r of Some old \<Rightarrow> snd old | None \<Rightarrow> None, snd r) }"

definition map_remove :: "'v map_impl \<Rightarrow> 'v map_t \<Rightarrow> bytes \<Rightarrow> 'v option \<times> 'v map_t" where
  "map_remove impl m key =
    (let r = HT_REMOVE (entry_hash impl) (entries_eq impl) m (assign_tmp_key impl key, None)
     in (case fst r of Some resolve \<Rightarrow> snd resolve | None \<Rightarrow> None, snd r))"

text \<open>The C function returns an \<^verbatim>\<open>int\<close>.\<close>

definition map_size :: "'v map_t \<Rightarrow> int" where
  "map_size m = sint (word_of_nat (HT_SIZE m) :: 32 word)"

definition map_isempty :: "'v map_t \<Rightarrow> bool" where
  "map_isempty m = HT_EMPTY m"

definition map_assert_ok :: "'v map_impl \<Rightarrow> 'v map_t \<Rightarrow> unit option" where
  "map_assert_ok impl m = tor_assert (HT_REP_IS_BAD (entry_hash impl) m = 0)"

definition map_iter_init :: "'v map_t \<Rightarrow> ht_pos option option" where
  "map_iter_init m = HT_START m"

definition map_iter_next :: "'v map_t \<Rightarrow> ht_pos \<Rightarrow> ht_pos option option" where
  "map_iter_next m iter = HT_NEXT m iter"

definition map_iter_next_rmv :: "'v map_t \<Rightarrow> ht_pos \<Rightarrow> (ht_pos option \<times> 'v map_t) option" where
  "map_iter_next_rmv m iter = HT_NEXT_RMV m iter"

definition map_iter_get :: "'v map_t \<Rightarrow> ht_pos \<Rightarrow> (bytes \<times> 'v option) option" where
  "map_iter_get m iter = do { t \<leftarrow> hth_table m; map_option fst (ht_at t iter) }"

definition map_iter_done :: "ht_pos option \<Rightarrow> bool" where
  "map_iter_done iter = (iter = None)"

text \<open>\<^verbatim>\<open>MAP_FOREACH_MODIFY\<close> with a body that collects the entries and calls \<^verbatim>\<open>MAP_DEL_CURRENT\<close> on those that satisfy \<open>del\<close>.\<close>

definition map_foreach_modify :: "('v map_entry \<Rightarrow> bool) \<Rightarrow> 'v map_t \<Rightarrow> ('v map_entry list \<times> 'v map_t) option" where
  "map_foreach_modify del m = do { iter \<leftarrow> map_iter_init m; ht_visit del m iter }"

text \<open>The values that \<^verbatim>\<open>free_val\<close> is called with, in this order.\<close>

definition map_free :: "'v map_t option \<Rightarrow> 'v option list option" where
  "map_free mp =
    (case mp of
       None \<Rightarrow> Some []
     | Some m \<Rightarrow> do {
         ent \<leftarrow> HT_START m;
         r \<leftarrow> ht_visit (\<lambda>_. True) m ent;
         tor_assert (HT_EMPTY (snd r));
         Some (map snd (fst r)) })"

subsection \<open>Keys in lower case\<close>

definition strmap_set_lc :: "(bytes \<Rightarrow> 64 word) \<Rightarrow> 'v map_t \<Rightarrow> bytes \<Rightarrow> 'v option \<Rightarrow> ('v option \<times> 'v map_t) option" where
  "strmap_set_lc siphash24g m key val = map_set (strmap_impl siphash24g) m (tor_strlower (c_str key)) val"

definition strmap_get_lc :: "(bytes \<Rightarrow> 64 word) \<Rightarrow> 'v map_t \<Rightarrow> bytes \<Rightarrow> 'v option" where
  "strmap_get_lc siphash24g m key = map_get (strmap_impl siphash24g) m (tor_strlower (c_str key))"

definition strmap_remove_lc :: "(bytes \<Rightarrow> 64 word) \<Rightarrow> 'v map_t \<Rightarrow> bytes \<Rightarrow> 'v option \<times> 'v map_t" where
  "strmap_remove_lc siphash24g m key = map_remove (strmap_impl siphash24g) m (tor_strlower (c_str key))"

section \<open>The maps are maps\<close>

text \<open>The contract of a map: what each function returns and how it changes the partial map that the structure stands for.\<close>

locale map_ops =
  fixes good_key :: "bytes \<Rightarrow> bool" and inv :: "'m \<Rightarrow> bool" and view :: "'m \<Rightarrow> bytes \<Rightarrow> 'v option"
    and new :: 'm and get :: "'m \<Rightarrow> bytes \<Rightarrow> 'v option" and set_op :: "'m \<Rightarrow> bytes \<Rightarrow> 'v option \<Rightarrow> ('v option \<times> 'm) option"
    and remove :: "'m \<Rightarrow> bytes \<Rightarrow> 'v option \<times> 'm"
  assumes new: "inv new" "view new = Map.empty"
    and finite: "inv m \<Longrightarrow> finite (dom (view m))"
    and get: "inv m \<Longrightarrow> good_key k \<Longrightarrow> get m k = view m k"
    and set_op: "inv m \<Longrightarrow> good_key k \<Longrightarrow> card (dom (view m)) + 1 < 2 ^ 32 \<Longrightarrow>
      \<exists>m'. set_op m k (Some v) = Some (view m k, m') \<and> inv m' \<and> view m' = (view m)(k \<mapsto> v)"
    and remove: "inv m \<Longrightarrow> good_key k \<Longrightarrow> fst (remove m k) = view m k \<and> inv (snd (remove m k)) \<and> view (snd (remove m k)) = (view m)(k := None)"
begin

lemma get_set:
  assumes "inv m" and "good_key k" and "good_key k'" and "card (dom (view m)) + 1 < 2 ^ 32" and "set_op m k (Some v) = Some (old, m')"
  shows "old = get m k" and "get m' k' = (if k' = k then Some v else get m k')"
  using set_op [OF assms(1,2,4), of v] assms get by auto

lemma get_remove:
  assumes "inv m" and "good_key k" and "good_key k'"
  shows "get (snd (remove m k)) k' = (if k' = k then None else get m k')"
  using remove [OF assms(1,2)] assms get by auto

lemma card_upd: "inv m \<Longrightarrow> card (dom ((view m)(k \<mapsto> v))) \<le> Suc (card (dom (view m)))"
  using finite by (simp add: card_insert_if)

lemma card_del: "inv m \<Longrightarrow> card (dom ((view m)(k := None))) \<le> card (dom (view m))"
  using finite by (simp add: card_mono)

end

datatype 'v map_op = Map_Set bytes 'v | Map_Get bytes | Map_Remove bytes

fun op_key :: "'v map_op \<Rightarrow> bytes" where
  "op_key (Map_Set k v) = k" | "op_key (Map_Get k) = k" | "op_key (Map_Remove k) = k"

text \<open>A sequence of calls and the values they return; \<open>None\<close> when the process stops.\<close>

fun map_run :: "'v map_impl \<Rightarrow> 'v map_t \<Rightarrow> 'v map_op list \<Rightarrow> ('v option list \<times> 'v map_t) option" where
  "map_run impl m [] = Some ([], m)"
| "map_run impl m (Map_Set k v # ops) = do {
     (old, m) \<leftarrow> map_set impl m k (Some v); (rs, m) \<leftarrow> map_run impl m ops; Some (old # rs, m) }"
| "map_run impl m (Map_Get k # ops) = do {
     (rs, m') \<leftarrow> map_run impl m ops; Some (map_get impl m k # rs, m') }"
| "map_run impl m (Map_Remove k # ops) = do {
     (rs, m') \<leftarrow> map_run impl (snd (map_remove impl m k)) ops; Some (fst (map_remove impl m k) # rs, m') }"

fun spec_run :: "(bytes \<Rightarrow> 'v option) \<Rightarrow> 'v map_op list \<Rightarrow> 'v option list \<times> (bytes \<Rightarrow> 'v option)" where
  "spec_run f [] = ([], f)"
| "spec_run f (Map_Set k v # ops) = (let (rs, f') = spec_run (f(k \<mapsto> v)) ops in (f k # rs, f'))"
| "spec_run f (Map_Get k # ops) = (let (rs, f') = spec_run f ops in (f k # rs, f'))"
| "spec_run f (Map_Remove k # ops) = (let (rs, f') = spec_run (f(k := None)) ops in (f k # rs, f'))"

definition map_inv :: "'v map_impl \<Rightarrow> (bytes \<Rightarrow> bool) \<Rightarrow> 'v map_t \<Rightarrow> bool" where
  "map_inv impl good_key m \<longleftrightarrow> ht_inv (entry_hash impl) fst (\<lambda>e. good_key (fst e)) m \<and> list_all (\<lambda>e. snd e \<noteq> None) (ht_elems m)"

definition map_view :: "'v map_t \<Rightarrow> bytes \<Rightarrow> 'v option" where
  "map_view m k = (case ht_map fst m k of Some e \<Rightarrow> snd e | None \<Rightarrow> None)"

text \<open>What the three kinds of keys have in common.\<close>

locale map_impl_ok = hash_elements "entry_hash impl" "entries_eq impl" "fst :: 'v map_entry \<Rightarrow> bytes" "\<lambda>e. good_key (fst e)"
  for impl :: "'v map_impl" and good_key :: "bytes \<Rightarrow> bool" +
  assumes assign: "good_key k \<Longrightarrow> assign_tmp_key impl k = k" "good_key k \<Longrightarrow> assign_key impl k = k"
begin

lemma map_key: "map_inv impl good_key m \<Longrightarrow> ht_map fst m k = map_option (\<lambda>v. (k, Some v)) (map_view m k)"
proof -
  assume inv: "map_inv impl good_key m"
  then have i: "ht_inv (entry_hash impl) fst (\<lambda>e. good_key (fst e)) m" and nn: "list_all (\<lambda>e. snd e \<noteq> None) (ht_elems m)" by (simp_all add: map_inv_def)
  show ?thesis
  proof (cases "ht_map fst m k")
    case (Some e)
    then have e: "e \<in> set (ht_elems m)" "fst e = k" using ht_map_Some [OF i] by auto
    then obtain v where "snd e = Some v" using nn by (auto simp: list_all_iff)
    then have "e = (k, Some v)" using e(2) by (metis prod.collapse)
    then show ?thesis using Some by (simp add: map_view_def)
  qed (simp add: map_view_def)
qed

lemma view_Some: "map_inv impl good_key m \<Longrightarrow> map_view m k = Some v \<longleftrightarrow> (k, Some v) \<in> set (ht_elems m)"
proof -
  assume inv: "map_inv impl good_key m"
  have "map_view m k = Some v \<longleftrightarrow> ht_map fst m k = Some (k, Some v)" using map_key [OF inv, of k] by auto
  then show ?thesis using ht_map_Some [of m k "(k, Some v)"] inv by (simp add: map_inv_def)
qed

lemma view_dom: "map_inv impl good_key m \<Longrightarrow> dom (map_view m) = dom (ht_map fst m)"
  using map_key by (auto simp: dom_def)

lemma size_view: "map_inv impl good_key m \<Longrightarrow> HT_SIZE m = card (dom (map_view m))"
  using ht_size [of m] view_dom [of m] by (simp add: map_inv_def)

lemma map_get_ok: "map_inv impl good_key m \<Longrightarrow> good_key k \<Longrightarrow> map_get impl m k = map_view m k"
  using ht_find [of m "(k, None)"] assign(1) [of k] by (simp add: map_get_def map_view_def map_inv_def)

lemma values_ok:
  assumes "ht_inv (entry_hash impl) fst (\<lambda>e. good_key (fst e)) m'" and "\<And>k e. ht_map fst m' k = Some e \<Longrightarrow> snd e \<noteq> None"
  shows "map_inv impl good_key m'"
  using assms(1,2) ht_map_Some [OF assms(1)] by (auto simp: map_inv_def list_all_iff)

lemma map_set_ok:
  assumes "map_inv impl good_key m" and "good_key k" and "card (dom (map_view m)) + 1 < 2 ^ 32"
  shows "\<exists>m'. map_set impl m k (Some v) = Some (map_view m k, m') \<and> map_inv impl good_key m' \<and> map_view m' = (map_view m)(k \<mapsto> v)"
proof -
  have i: "ht_inv (entry_hash impl) fst (\<lambda>e. good_key (fst e)) m" using assms(1) by (simp add: map_inv_def)
  have n: "hth_n_entries m + 1 < 2 ^ 32" using size_view [OF assms(1)] assms(3) by (simp add: HT_SIZE_def)
  have "\<exists>m'. HT_FIND_OR_INSERT (entry_hash impl) (entries_eq impl) (True, True) m (k, None) (\<lambda>ptr. (fst ptr, Some v)) (k, Some v) =
      Some (ht_map fst m k, m') \<and> ht_inv (entry_hash impl) fst (\<lambda>e. good_key (fst e)) m' \<and>
      ht_map fst m' = (ht_map fst m)(k \<mapsto> (case ht_map fst m k of None \<Rightarrow> (k, Some v) | Some r \<Rightarrow> (fst r, Some v)))"
    using ht_find_or_insert [OF i _ _ n, of "(k, None)" "(True, True)" "(k, Some v)" "\<lambda>ptr. (fst ptr, Some v)"] assms(2) by simp
  then obtain m' where m': "HT_FIND_OR_INSERT (entry_hash impl) (entries_eq impl) (True, True) m (k, None) (\<lambda>ptr. (fst ptr, Some v)) (k, Some v) =
      Some (ht_map fst m k, m')" "ht_inv (entry_hash impl) fst (\<lambda>e. good_key (fst e)) m'"
      "ht_map fst m' = (ht_map fst m)(k \<mapsto> (case ht_map fst m k of None \<Rightarrow> (k, Some v) | Some r \<Rightarrow> (fst r, Some v)))" by blast
  have "(case ht_map fst m k of None \<Rightarrow> (k, Some v) | Some r \<Rightarrow> (fst r, Some v)) = (k, Some v)"
    using map_key [OF assms(1), of k] by (cases "map_view m k") auto
  then have hm: "ht_map fst m' = (ht_map fst m)(k \<mapsto> (k, Some v))" using m'(3) by (simp only:)
  have "map_set impl m k (Some v) = Some (map_view m k, m')"
    using m'(1) assign assms(2) by (simp add: map_set_def map_view_def tor_assert_def)
  moreover have "map_inv impl good_key m'"
    using m'(2) map_key [OF assms(1)] by (intro values_ok) (auto simp: hm split: if_splits)
  moreover have "map_view m' = (map_view m)(k \<mapsto> v)" by (rule ext) (simp add: map_view_def hm)
  ultimately show ?thesis by blast
qed

lemma map_remove_ok:
  assumes "map_inv impl good_key m" and "good_key k"
  shows "fst (map_remove impl m k) = map_view m k \<and> map_inv impl good_key (snd (map_remove impl m k)) \<and>
    map_view (snd (map_remove impl m k)) = (map_view m)(k := None)"
proof -
  have i: "ht_inv (entry_hash impl) fst (\<lambda>e. good_key (fst e)) m" using assms(1) by (simp add: map_inv_def)
  define r where "r = HT_REMOVE (entry_hash impl) (entries_eq impl) m (k, None)"
  have r: "fst r = ht_map fst m k" "ht_inv (entry_hash impl) fst (\<lambda>e. good_key (fst e)) (snd r)" "ht_map fst (snd r) = (ht_map fst m)(k := None)"
    using ht_remove [OF i, of "(k, None)"] assms(2) by (simp_all add: r_def)
  have "map_remove impl m k = (map_view m k, snd r)" using assign(1) [OF assms(2)] r(1) by (simp add: map_remove_def r_def [symmetric] map_view_def Let_def)
  moreover have "map_inv impl good_key (snd r)" using r(2) map_key [OF assms(1)] by (intro values_ok) (auto simp: r(3) split: if_splits)
  moreover have "map_view (snd r) = (map_view m)(k := None)" by (rule ext) (simp add: map_view_def r(3))
  ultimately show ?thesis by simp
qed

end

sublocale map_impl_ok \<subseteq> mops: map_ops good_key "map_inv impl good_key" map_view map_new "map_get impl" "map_set impl" "map_remove impl"
proof (unfold_locales, goal_cases)
  case 1
  then show ?case using ht_inv_init(1) by (simp add: map_inv_def map_new_def ht_elems_def HT_INIT_def)
next
  case 2
  then show ?case using ht_inv_init(2) by (simp add: map_new_def map_view_def fun_eq_iff)
next
  case (3 m)
  then show ?case using view_dom [of m] by (simp add: ht_map_def dom_map_of_conv_image_fst)
next
  case (4 m k)
  then show ?case by (rule map_get_ok)
next
  case (5 m k v)
  then show ?case by (rule map_set_ok)
next
  case (6 m k)
  then show ?case by (rule map_remove_ok)
qed

context map_impl_ok
begin

lemma run_refines:
  assumes "map_inv impl good_key m" and "list_all (\<lambda>c. good_key (op_key c)) ops" and "card (dom (map_view m)) + length ops < 2 ^ 32"
  shows "\<exists>rs m'. map_run impl m ops = Some (rs, m') \<and> spec_run (map_view m) ops = (rs, map_view m') \<and> map_inv impl good_key m' \<and>
    card (dom (map_view m')) \<le> card (dom (map_view m)) + length ops"
  using assms
proof (induction impl\<equiv>impl m ops rule: map_run.induct)
  case (2 m k v ops)
  obtain m1 where m1: "map_set impl m k (Some v) = Some (map_view m k, m1)" "map_inv impl good_key m1" "map_view m1 = (map_view m)(k \<mapsto> v)"
    using map_set_ok [of m k v] 2(2-4) by auto
  have "card (dom (map_view m1)) \<le> Suc (card (dom (map_view m)))" using mops.card_upd [OF 2(2), of k v] m1(3) by simp
  moreover from this obtain rs m' where "map_run impl m1 ops = Some (rs, m')" "spec_run (map_view m1) ops = (rs, map_view m')"
    "map_inv impl good_key m'" "card (dom (map_view m')) \<le> card (dom (map_view m1)) + length ops"
    using 2(1) [of "(map_view m k, m1)" "map_view m k" m1] m1 2(3,4) by auto
  ultimately show ?case using m1 by simp
next
  case (3 m k ops)
  then obtain rs m' where "map_run impl m ops = Some (rs, m')" "spec_run (map_view m) ops = (rs, map_view m')"
    "map_inv impl good_key m'" "card (dom (map_view m')) \<le> card (dom (map_view m)) + length ops"
    by auto
  then show ?case using 3(3) map_get_ok [OF 3(2), of k] by simp
next
  case (4 m k ops)
  let ?m1 = "snd (map_remove impl m k)"
  have m1: "fst (map_remove impl m k) = map_view m k" "map_inv impl good_key ?m1" "map_view ?m1 = (map_view m)(k := None)"
    using map_remove_ok [of m k] 4(2,3) by auto
  have "card (dom (map_view ?m1)) \<le> card (dom (map_view m))" using mops.card_del [OF 4(2), of k] m1(3) by simp
  moreover from this obtain rs m' where "map_run impl ?m1 ops = Some (rs, m')" "spec_run (map_view ?m1) ops = (rs, map_view m')"
    "map_inv impl good_key m'" "card (dom (map_view m')) \<le> card (dom (map_view ?m1)) + length ops"
    using 4(1) m1(2) 4(3,4) by auto
  ultimately show ?case using m1 by simp
qed simp

lemma run_new:
  assumes "list_all (\<lambda>c. good_key (op_key c)) ops" and "length ops < 2 ^ 32"
  shows "\<exists>rs m. map_run impl map_new ops = Some (rs, m) \<and> spec_run Map.empty ops = (rs, map_view m) \<and> map_inv impl good_key m \<and>
    card (dom (map_view m)) \<le> length ops"
  using run_refines [OF mops.new(1) assms(1)] mops.new(2) assms(2) by simp

lemma assert_ok:
  assumes "map_inv impl good_key m" and "card (dom (map_view m)) \<le> ht_load (HT_PRIMES ! 23)"
  shows "map_assert_ok impl m = Some ()"
proof -
  have ok: "ht_ok (entry_hash impl) m" using assms(1) by (simp add: map_inv_def ht_inv_def)
  have "hth_n_entries m \<le> hth_load_limit m"
    using ok size_view [OF assms(1)] assms(2) by (auto simp: ht_ok_def HT_INIT_def HT_SIZE_def primes_length split: option.splits)
  moreover have "case hth_table m of None \<Rightarrow> hth_table_length m = 0 | Some t \<Rightarrow> hth_table_length m = length t \<and> t \<noteq> []"
    using ok ht_ok_table [OF ok] by (auto simp: ht_ok_def HT_INIT_def split: option.splits)
  moreover have "hth_prime_idx m < 24" "hth_n_entries m < 2 ^ 32" using ok by (auto simp: ht_ok_def HT_INIT_def primes_length split: option.splits)
  ultimately show ?thesis using ok HT_REP_IS_BAD_iff [of m "entry_hash impl"] by (simp add: map_assert_ok_def tor_assert_def)
qed

lemma foreach_modify:
  assumes "map_inv impl good_key m"
  shows "\<exists>m'. map_foreach_modify del m = Some (ht_elems m, m') \<and> map_inv impl good_key m' \<and> ht_elems m' = filter (\<lambda>e. \<not> del e) (ht_elems m)"
proof -
  have i: "ht_inv (entry_hash impl) fst (\<lambda>e. good_key (fst e)) m" using assms(1) by (simp add: map_inv_def)
  obtain iter m' where v: "HT_START m = Some iter" "ht_visit del m iter = Some (ht_elems m, m')" "ht_inv (entry_hash impl) fst (\<lambda>e. good_key (fst e)) m'"
    "ht_elems m' = filter (\<lambda>e. \<not> del e) (ht_elems m)" using ht_visit_all [OF i, of del] by blast
  then show ?thesis using assms by (auto simp: map_foreach_modify_def map_iter_init_def map_inv_def list_all_iff)
qed

lemma view_elems:
  assumes "map_inv impl good_key m"
  shows "distinct (ht_elems m)" and "set (ht_elems m) = {(k, Some v) |k v. map_view m k = Some v}"
proof -
  show "distinct (ht_elems m)" using assms by (auto simp: map_inv_def ht_inv_def distinct_map)
  have "e = (fst e, Some (the (snd e)))" if "e \<in> set (ht_elems m)" for e
    using that assms by (cases e) (auto simp: map_inv_def list_all_iff)
  then show "set (ht_elems m) = {(k, Some v) |k v. map_view m k = Some v}" using view_Some [OF assms] by auto metis
qed

lemma free_all:
  assumes "map_inv impl good_key m"
  shows "map_free (Some m) = Some (map snd (ht_elems m))"
proof -
  obtain m' where f: "map_foreach_modify (\<lambda>_. True) m = Some (ht_elems m, m')" "map_inv impl good_key m'" "ht_elems m' = []"
    using foreach_modify [OF assms, of "\<lambda>_. True"] by auto
  have "map_view m' k = None" for k using view_Some [OF f(2), of k] f(3) by (cases "map_view m' k") auto
  then have "dom (map_view m') = {}" by auto
  then have "HT_EMPTY m'" using size_view [OF f(2)] by (simp add: HT_SIZE_def HT_EMPTY_def)
  then show ?thesis using f(1) by (auto simp: map_free_def map_foreach_modify_def map_iter_init_def tor_assert_def split: bind_splits)
qed

end

section \<open>The three kinds of maps\<close>

lemma memeq_key: "length a = n \<Longrightarrow> length b = n \<Longrightarrow> tor_memeq a b n \<noteq> 0 \<longleftrightarrow> a = b"
  by (simp add: tor_memeq_eq)

interpretation strm: map_impl_ok "strmap_impl sip" is_c_str for sip
  by unfold_locales
    (auto simp: strmap_impl_def strmap_entries_eq_def strmap_entry_hash_def strcmp_eq_0 c_string_simps)

interpretation digm: map_impl_ok "digestmap_impl sip" "\<lambda>k. length k = DIGEST_LEN" for sip
  by unfold_locales
    (auto simp: digestmap_impl_def digestmap_entries_eq_def digestmap_entry_hash_def memeq_key)

interpretation dig256m: map_impl_ok "digest256map_impl sip" "\<lambda>k. length k = DIGEST256_LEN" for sip
  by unfold_locales
    (auto simp: digest256map_impl_def digest256map_entries_eq_def digest256map_entry_hash_def memeq_key)

definition is_map_kind :: "(bytes \<Rightarrow> 64 word) \<Rightarrow> 'v map_impl \<Rightarrow> (bytes \<Rightarrow> bool) \<Rightarrow> bool" where
  "is_map_kind sip impl good_key \<longleftrightarrow>
    impl = strmap_impl sip \<and> good_key = is_c_str \<or>
    impl = digestmap_impl sip \<and> good_key = (\<lambda>k. length k = DIGEST_LEN) \<or>
    impl = digest256map_impl sip \<and> good_key = (\<lambda>k. length k = DIGEST256_LEN)"

lemma map_kind_ok: "is_map_kind sip impl good_key \<Longrightarrow> map_impl_ok impl good_key"
  unfolding is_map_kind_def
  using strm.map_impl_ok_axioms digm.map_impl_ok_axioms dig256m.map_impl_ok_axioms by blast

lemma last_limit: "ht_load (HT_PRIMES ! 23) = 241591913"
  by (simp add: HT_PRIMES_def ht_load_def)

text \<open>C14: Every sequence of calls on a new string, digest or 256-bit digest map, whatever the hash function (also one under which
  all keys collide), returns what the same calls on a mathematical partial map return, never stops the process, and
  leaves a structure that stands for the same partial map, has its size, and passes \<^verbatim>\<open>assert_ok\<close>.\<close>

theorem map_refines_partial_map:
  assumes "is_map_kind siphash24g impl good_key" and "list_all (\<lambda>c. good_key (op_key c)) ops" and "length ops \<le> 241591913"
  shows "\<exists>rs m. map_run impl map_new ops = Some (rs, m) \<and> spec_run Map.empty ops = (rs, map_view m) \<and>
    map_size m = int (card (dom (map_view m))) \<and> map_assert_ok impl m = Some ()"
proof -
  note ok = map_kind_ok [OF assms(1)]
  obtain rs m where r: "map_run impl map_new ops = Some (rs, m)" "spec_run Map.empty ops = (rs, map_view m)" "map_inv impl good_key m"
    "card (dom (map_view m)) \<le> length ops"
    using map_impl_ok.run_new [OF ok assms(2)] assms(3) by auto
  have "HT_SIZE m = card (dom (map_view m))" by (rule map_impl_ok.size_view [OF ok r(3)])
  moreover have "card (dom (map_view m)) < 2 ^ 31" using r(4) assms(3) by simp
  ultimately have "map_size m = int (card (dom (map_view m)))"
    by (simp add: map_size_def signed_of_nat signed_take_bit_int_eq_self)
  moreover have "map_assert_ok impl m = Some ()" using r(4) assms(3) by (intro map_impl_ok.assert_ok [OF ok r(3)]) (simp add: last_limit)
  ultimately show ?thesis using r by blast
qed

theorem map_refines_partial_map_witness:
  "map_option fst (map_run (strmap_impl (\<lambda>_. 7)) map_new
      [Map_Set (lit ''a'') (1 :: nat), Map_Set (lit ''b'') 2, Map_Set (lit ''a'') 3, Map_Remove (lit ''a''), Map_Get (lit ''a''), Map_Get (lit ''b'')]) =
    Some [None, None, Some 1, Some 3, None, Some 2]"
  using map_refines_partial_map [of "\<lambda>_. 7" "strmap_impl (\<lambda>_. 7)" is_c_str
      "[Map_Set (lit ''a'') (1 :: nat), Map_Set (lit ''b'') 2, Map_Set (lit ''a'') 3, Map_Remove (lit ''a''), Map_Get (lit ''a''), Map_Get (lit ''b'')]"]
  by (auto simp: is_map_kind_def lit_def c_string_simps)

lemma option_eqI: "(\<And>v. x = Some v \<longleftrightarrow> y = Some v) \<Longrightarrow> x = y"
  by (metis not_Some_eq)

text \<open>C35: A loop over a map (\<^verbatim>\<open>MAP_FOREACH_MODIFY\<close>) that is built by any sequence of calls meets every entry of the map exactly once, also
  when it deletes entries on the way, and leaves exactly the entries it did not delete; freeing the map frees the value of every
  entry exactly once.\<close>

theorem map_foreach_modify_correct:
  assumes "is_map_kind siphash24g impl good_key" and "list_all (\<lambda>c. good_key (op_key c)) ops" and "length ops \<le> 241591913"
    and "map_run impl map_new ops = Some (rs, m)"
  shows "\<exists>ents m'. map_foreach_modify del m = Some (ents, m') \<and> distinct ents \<and> set ents = {(k, Some v) |k v. map_view m k = Some v} \<and>
    map_view m' = (\<lambda>k. if del (k, map_view m k) then None else map_view m k) \<and> map_free (Some m) = Some (map snd ents)"
proof -
  note ok = map_kind_ok [OF assms(1)]
  have inv: "map_inv impl good_key m" using map_impl_ok.run_new [OF ok assms(2)] assms(3,4) by auto
  obtain m' where f: "map_foreach_modify del m = Some (ht_elems m, m')" "map_inv impl good_key m'" "ht_elems m' = filter (\<lambda>e. \<not> del e) (ht_elems m)"
    using map_impl_ok.foreach_modify [OF ok inv] by blast
  have "map_view m' k = (if del (k, map_view m k) then None else map_view m k)" for k
  proof -
    have v: "map_view m' k = Some v \<longleftrightarrow> map_view m k = Some v \<and> \<not> del (k, Some v)" for v
      using map_impl_ok.view_Some [OF ok f(2)] map_impl_ok.view_Some [OF ok inv] f(3) by auto
    show ?thesis
    proof (rule option_eqI)
      fix v
      show "map_view m' k = Some v \<longleftrightarrow> (if del (k, map_view m k) then None else map_view m k) = Some v" unfolding v by auto
    qed
  qed
  then show ?thesis
    using f(1) map_impl_ok.view_elems [OF ok inv] map_impl_ok.free_all [OF ok inv] by auto
qed

theorem map_foreach_modify_correct_witness:
  "\<exists>m ents m'. map_run (strmap_impl (\<lambda>_. 7)) map_new [Map_Set (lit ''a'') (1 :: nat), Map_Set (lit ''b'') 2] = Some ([None, None], m) \<and>
    map_foreach_modify (\<lambda>e. snd e = Some 1) m = Some (ents, m') \<and> map_view m' (lit ''a'') = None \<and> map_view m' (lit ''b'') = Some 2"
proof -
  let ?ops = "[Map_Set (lit ''a'') (1 :: nat), Map_Set (lit ''b'') 2]"
  have p: "is_map_kind (\<lambda>_. 7) (strmap_impl (\<lambda>_. 7)) is_c_str" "list_all (\<lambda>c. is_c_str (op_key c)) ?ops" "length ?ops \<le> 241591913"
    by (simp_all add: is_map_kind_def lit_def c_string_simps)
  obtain m where m: "map_run (strmap_impl (\<lambda>_. 7)) map_new ?ops = Some ([None, None], m)"
      "map_view m = [lit ''a'' \<mapsto> 1, lit ''b'' \<mapsto> 2]"
    using strm.run_new [of ?ops "\<lambda>_. 7"] p(2) by (auto simp: lit_def)
  show ?thesis
    using map_foreach_modify_correct [OF p m(1), of "\<lambda>e. snd e = Some 1"] m by (auto simp: lit_def)
qed

section \<open>Behaviour at the edges\<close>

text \<open>
  The loop of \<^verbatim>\<open>HT_GROW\<close> tests its index after the increment: asked for a table that no prime of the list is large enough for, it
  reads behind the list.  No caller asks for more than one element beyond a full table, for which the next prime always does.
\<close>

lemma grow_loop_overrun: "grow_loop 241591913 (-1) = None"
  by (simp add: grow_loop.simps HT_PRIMES_def ht_load_def nth_Cons)

text \<open>\<^verbatim>\<open>HT_REPLACE\<close> of an element that is in the table already counts it a second time.\<close>

lemma ht_replace_same_element:
  assumes "ht_inv hashfn id (\<lambda>_. True) head" and "e \<in> set (ht_elems head)" and "hth_n_entries head + 1 < 2 ^ 32"
  shows "\<exists>head'. HT_REPLACE hashfn (=) (True, True) head e = Some (None, head') \<and> mset (ht_elems head') = mset (ht_elems head) \<and>
    HT_SIZE head' = HT_SIZE head + 1"
proof -
  have loc: "hash_elements hashfn (=) id (\<lambda>_. True)" by unfold_locales auto
  obtain g t where r: "ht_reserve (True, True) head = Some g" "ht_inv hashfn id (\<lambda>_. True) g" "ht_map id g = ht_map id head" "hth_table g = Some t"
    "hth_n_entries g = hth_n_entries head" "mset (ht_elems g) = mset (ht_elems head)"
  proof -
    have ok: "ht_ok hashfn head" using assms(1) by (simp add: ht_inv_def)
    obtain g where "ht_reserve (True, True) head = Some g" "ht_ok hashfn g" "mset (ht_elems g) = mset (ht_elems head)" "hth_table g \<noteq> None"
      "hth_n_entries g = hth_n_entries head"
      by (rule ht_reserve_ok [OF ok, of "(True, True)"]) (use assms(3) in simp_all)
    moreover have "ht_inv hashfn id (\<lambda>_. True) g \<and> ht_map id g = ht_map id head"
      unfolding ht_map_def [of id head] using calculation assms(1)
      by (intro hash_elements.inv_by_list [OF loc]) (simp_all add: ht_inv_def)
    ultimately show thesis using that by blast
  qed
  from hash_elements.find_p [OF loc r(2,4), of e] obtain b i where p: "HT_FIND_P (=) g e (hashfn e) = Some (b, i)" "b < length t" "i \<le> length (t ! b)"
    "i < length (t ! b) \<longrightarrow> fst (t ! b ! i) = e" "i = length (t ! b) \<longrightarrow> ht_map id g e = None" by auto
  have "ht_map id g e = Some e" unfolding r(3) using hash_elements.ht_map_Some [OF loc assms(1), of e e] assms(2) by simp
  then have i: "i < length (t ! b)" using p(3,5) by force
  have "snd (t ! b ! i) = hashfn e"
    using table_okD [OF ht_ok_table(3) p(2) nth_mem [OF i]] p(4) i r(2,4) by (auto simp: ht_inv_def)
  then have e: "t ! b ! i = (e, hashfn e)" using p(4) i by (metis prod.collapse)
  then have same: "t[b := (t ! b)[i := (e, hashfn e)]] = t" by (metis list_update_id)
  have "HT_REPLACE hashfn (=) (True, True) head e = Some (None, g\<lparr> hth_n_entries := u32 (hth_n_entries head + 1) \<rparr>)"
    using r(1,4,5) p(1) i e same by (simp add: HT_REPLACE_def Let_def ht_at_def)
  then show ?thesis using r(6) assms(3) by (auto simp: HT_SIZE_def u32_def ht_elems_def)
qed

end
