(* ===== verification/Tor_Protover_Summary.thy ===== *)
theory Tor_Protover_Summary
  imports Tor_Protover Tor_Versions Tor_Map
begin

text \<open>
  The part of \<^verbatim>\<open>core/or/versions.c\<close> that summarizes a relay's protocol list into flags, with the cache (a \<^verbatim>\<open>strmap_t\<close>) that
  it keeps between calls, and \<^verbatim>\<open>protover_compute_for_old_tor\<close> of \<^verbatim>\<open>core/or/protover.c\<close>.  The state is the global
  \<^verbatim>\<open>protover_summary_map\<close>; \<open>None\<close> as a result is a failed assertion.
\<close>

section \<open>Model\<close>

record protover_summary_flags =
  protocols_known :: bool
  supports_extend2_cells :: bool
  supports_accepting_ipv6_extends :: bool
  supports_initiating_ipv6_extends :: bool
  supports_canonical_ipv6_conns :: bool
  supports_ed25519_link_handshake_compat :: bool
  supports_ed25519_link_handshake_any :: bool
  supports_ed25519_hs_intro :: bool
  supports_establish_intro_dos_extension :: bool
  supports_v3_hsdir :: bool
  supports_v3_rendezvous_point :: bool
  supports_hs_setup_padding :: bool
  supports_congestion_control :: bool
  supports_conflux :: bool
  supports_cgo :: bool
  supports_ntor_v3 :: bool

definition no_flags :: protover_summary_flags where
  "no_flags = \<lparr> protocols_known = False, supports_extend2_cells = False, supports_accepting_ipv6_extends = False,
     supports_initiating_ipv6_extends = False, supports_canonical_ipv6_conns = False, supports_ed25519_link_handshake_compat = False,
     supports_ed25519_link_handshake_any = False, supports_ed25519_hs_intro = False, supports_establish_intro_dos_extension = False,
     supports_v3_hsdir = False, supports_v3_rendezvous_point = False, supports_hs_setup_padding = False, supports_congestion_control = False,
     supports_conflux = False, supports_cgo = False, supports_ntor_v3 = False \<rparr>"

type_synonym summary_map = "protover_summary_flags map_t option"

definition MAX_PROTOVER_SUMMARY_MAP_LEN :: int where "MAX_PROTOVER_SUMMARY_MAP_LEN = 1024"

text \<open>The assignments of \<^verbatim>\<open>memoize_protover_summary\<close>, the numbers being the macros \<^verbatim>\<open>PROTOVER_*\<close> of \<^verbatim>\<open>protover.h\<close>.\<close>

definition protover_summary :: "bytes \<Rightarrow> protover_summary_flags option" where
  "protover_summary protocols = do {
     let supports = protocol_list_supports_protocol protocols;
     any \<leftarrow> protocol_list_supports_protocol_or_later protocols PRT_LINKAUTH 3;
     Some \<lparr> protocols_known = True,
       supports_extend2_cells = supports PRT_RELAY 2,
       supports_accepting_ipv6_extends = (supports PRT_RELAY 2 \<or> supports PRT_RELAY 3),
       supports_initiating_ipv6_extends = supports PRT_RELAY 3,
       supports_canonical_ipv6_conns = supports PRT_RELAY 3,
       supports_ed25519_link_handshake_compat = supports PRT_LINKAUTH 3,
       supports_ed25519_link_handshake_any = any,
       supports_ed25519_hs_intro = supports PRT_HSINTRO 4,
       supports_establish_intro_dos_extension = supports PRT_HSINTRO 5,
       supports_v3_hsdir = supports PRT_HSDIR 2,
       supports_v3_rendezvous_point = supports PRT_HSREND 2,
       supports_hs_setup_padding = supports PRT_PADDING 2,
       supports_congestion_control = (supports PRT_FLOWCTRL 2 \<and> supports PRT_RELAY 4),
       supports_conflux = (supports PRT_FLOWCTRL 2 \<and> supports PRT_CONFLUX 1),
       supports_cgo = (supports PRT_FLOWCTRL 2 \<and> supports PRT_RELAY 5 \<and> supports PRT_RELAY 6),
       supports_ntor_v3 = supports PRT_RELAY 4 \<rparr> }"

definition protover_summary_cache_free_all :: "summary_map \<Rightarrow> summary_map option" where
  "protover_summary_cache_free_all cache = do { freed \<leftarrow> map_free cache; Some None }"

definition memoize_protover_summary ::
  "(bytes \<Rightarrow> 64 word) \<Rightarrow> summary_map \<Rightarrow> bytes \<Rightarrow> (protover_summary_flags \<times> summary_map) option" where
  "memoize_protover_summary sip cache protocols = do {
     let m = (case cache of None \<Rightarrow> map_new | Some m \<Rightarrow> m);
     m \<leftarrow> (if map_size m \<ge> MAX_PROTOVER_SUMMARY_MAP_LEN
           then do { cache \<leftarrow> protover_summary_cache_free_all (Some m); tor_assert (cache = None); Some map_new }
           else Some m);
     (case map_get (strmap_impl sip) m protocols of
        Some cached \<Rightarrow> do { tor_assert (protocols_known cached); Some (cached, Some m) }
      | None \<Rightarrow> do {
          out \<leftarrow> protover_summary protocols;
          (cached, m) \<leftarrow> map_set (strmap_impl sip) m protocols (Some out);
          tor_assert (cached = None);
          Some (out, Some m) }) }"

definition summarize_protover_flags ::
  "(bytes \<Rightarrow> 64 word) \<Rightarrow> summary_map \<Rightarrow> bytes option \<Rightarrow> bytes option \<Rightarrow> (protover_summary_flags \<times> summary_map) option" where
  "summarize_protover_flags sip cache protocols version = do {
     (out, cache) \<leftarrow>
       (case protocols of
          Some p \<Rightarrow> if strcmp p [] \<noteq> 0 then memoize_protover_summary sip cache p else Some (no_flags, cache)
        | None \<Rightarrow> Some (no_flags, cache));
     Some
       (case version of
          None \<Rightarrow> (out, cache)
        | Some v \<Rightarrow>
            if strcmp v [] \<noteq> 0 \<and> strcmpstart v (lit ''Tor '') = 0
            then if \<not> protocols_known out
                 then (out\<lparr> supports_extend2_cells := tor_version_as_new_as v (lit ''0.2.4.8-alpha''), protocols_known := True \<rparr>, cache)
                 else if \<not> tor_version_as_new_as v (lit ''0.3.0.8'')
                 then (out\<lparr> supports_v3_hsdir := False \<rparr>, cache)
                 else (out, cache)
            else (out, cache)) }"

definition FIRST_TOR_VERSION_TO_ADVERTISE_PROTOCOLS :: bytes where
  "FIRST_TOR_VERSION_TO_ADVERTISE_PROTOCOLS = lit ''0.2.9.3-alpha''"

definition protover_compute_for_old_tor :: "bytes option \<Rightarrow> bytes" where
  "protover_compute_for_old_tor version =
    (let version = (case version of None \<Rightarrow> lit ''0.2.5.15'' | Some v \<Rightarrow> v)
     in if tor_version_as_new_as version FIRST_TOR_VERSION_TO_ADVERTISE_PROTOCOLS then []
        else if tor_version_as_new_as version (lit ''0.2.9.1-alpha'')
        then lit ''Cons=1-2 Desc=1-2 DirCache=1 HSDir=1 HSIntro=3 HSRend=1-2 Link=1-4 LinkAuth=1 Microdesc=1-2 Relay=1-2''
        else if tor_version_as_new_as version (lit ''0.2.7.5'')
        then lit ''Cons=1-2 Desc=1-2 DirCache=1 HSDir=1 HSIntro=3 HSRend=1 Link=1-4 LinkAuth=1 Microdesc=1-2 Relay=1-2''
        else if tor_version_as_new_as version (lit ''0.2.4.19'')
        then lit ''Cons=1 Desc=1 DirCache=1 HSDir=1 HSIntro=3 HSRend=1 Link=1-4 LinkAuth=1 Microdesc=1 Relay=1-2''
        else [])"

section \<open>The cache is transparent\<close>

definition summary_cache_ok :: "(bytes \<Rightarrow> 64 word) \<Rightarrow> summary_map \<Rightarrow> bool" where
  "summary_cache_ok sip cache \<longleftrightarrow>
    (case cache of
       None \<Rightarrow> True
     | Some m \<Rightarrow> map_inv (strmap_impl sip) is_c_str m \<and> card (dom (map_view m)) \<le> 1024 \<and>
         (\<forall>k v. map_view m k = Some v \<longrightarrow> protover_summary k = Some v))"

lemma protover_summary_total: "\<exists>fl. protover_summary protocols = Some fl \<and> protocols_known fl"
proof -
  have "bitmask_for_range 3 63 \<noteq> None" by code_simp
  then show ?thesis by (auto simp: protover_summary_def protocol_list_supports_protocol_or_later_def Let_def split: option.splits bind_splits)
qed

lemma small_map_size: "map_inv (strmap_impl sip) is_c_str m \<Longrightarrow> card (dom (map_view m)) \<le> 1024 \<Longrightarrow> map_size m = int (card (dom (map_view m)))"
  using strm.size_view [of sip m] by (simp add: map_size_def signed_of_nat signed_take_bit_int_eq_self)

lemma memoize_protover_summary_ok:
  assumes "summary_cache_ok sip cache" and "is_c_str protocols"
  shows "\<exists>fl cache'. memoize_protover_summary sip cache protocols = Some (fl, cache') \<and> protover_summary protocols = Some fl \<and>
    protocols_known fl \<and> summary_cache_ok sip cache'"
proof -
  obtain fl where fl: "protover_summary protocols = Some fl" "protocols_known fl" using protover_summary_total by blast
  define m0 where "m0 = (case cache of None \<Rightarrow> map_new | Some m \<Rightarrow> m)"
  have new: "map_inv (strmap_impl sip) is_c_str map_new" "map_view (map_new :: protover_summary_flags map_t) = Map.empty"
    using strm.mops.new by auto
  have m0: "map_inv (strmap_impl sip) is_c_str m0" "card (dom (map_view m0)) \<le> 1024" "\<And>k v. map_view m0 k = Some v \<Longrightarrow> protover_summary k = Some v"
    using assms(1) new by (auto simp: m0_def summary_cache_ok_def split: option.splits)
  define m where "m = (if map_size m0 \<ge> MAX_PROTOVER_SUMMARY_MAP_LEN then map_new else m0)"
  have m: "map_inv (strmap_impl sip) is_c_str m" "card (dom (map_view m)) < 1024" "\<And>k v. map_view m k = Some v \<Longrightarrow> protover_summary k = Some v"
    using m0 new small_map_size [OF m0(1,2)] by (auto simp: m_def MAX_PROTOVER_SUMMARY_MAP_LEN_def split: if_splits)
  have choose: "(if map_size m0 \<ge> MAX_PROTOVER_SUMMARY_MAP_LEN
      then do { cache \<leftarrow> protover_summary_cache_free_all (Some m0); tor_assert (cache = None); Some map_new } else Some m0) = Some m"
    using strm.free_all [OF m0(1)] by (simp add: m_def protover_summary_cache_free_all_def tor_assert_def)
  have get: "map_get (strmap_impl sip) m protocols = map_view m protocols" by (rule strm.map_get_ok [OF m(1) assms(2)])
  show ?thesis
  proof (cases "map_view m protocols")
    case (Some cached)
    then have "cached = fl" using m(3) fl(1) by force
    then show ?thesis
      using Some get choose fl m by (auto simp: memoize_protover_summary_def m0_def [symmetric] Let_def tor_assert_def summary_cache_ok_def)
  next
    case None
    obtain m' where s: "map_set (strmap_impl sip) m protocols (Some fl) = Some (None, m')" "map_inv (strmap_impl sip) is_c_str m'"
      "map_view m' = (map_view m)(protocols \<mapsto> fl)"
      using strm.map_set_ok [OF m(1) assms(2), of fl] m(2) None by auto
    have "card (dom (map_view m')) \<le> 1024" using strm.mops.card_upd [OF m(1), of protocols fl] m(2) unfolding s(3) by simp
    then have "summary_cache_ok sip (Some m')" using s(2,3) m(3) fl(1) by (auto simp: summary_cache_ok_def split: if_splits)
    then show ?thesis
      using None get choose fl s(1) by (auto simp: memoize_protover_summary_def m0_def [symmetric] Let_def tor_assert_def)
  qed
qed

text \<open>What a summary is, with no cache: the flags of the protocol list, corrected for the version.\<close>

definition flags_of :: "bytes option \<Rightarrow> bytes option \<Rightarrow> protover_summary_flags" where
  "flags_of protocols version =
    (let out = (case protocols of Some p \<Rightarrow> if p \<noteq> [] then the (protover_summary p) else no_flags | None \<Rightarrow> no_flags)
     in case version of
          Some v \<Rightarrow>
            if v \<noteq> [] \<and> strcmpstart v (lit ''Tor '') = 0
            then if \<not> protocols_known out
                 then no_flags\<lparr> supports_extend2_cells := tor_version_as_new_as v (lit ''0.2.4.8-alpha''), protocols_known := True \<rparr>
                 else out\<lparr> supports_v3_hsdir := supports_v3_hsdir out \<and> tor_version_as_new_as v (lit ''0.3.0.8'') \<rparr>
            else out
        | None \<Rightarrow> out)"

definition c_str_opt :: "bytes option \<Rightarrow> bool" where
  "c_str_opt s = (case s of None \<Rightarrow> True | Some p \<Rightarrow> is_c_str p)"

lemma summarize_protover_flags_ok:
  assumes "summary_cache_ok sip cache" and "c_str_opt protocols" and "c_str_opt version"
  shows "\<exists>cache'. summarize_protover_flags sip cache protocols version = Some (flags_of protocols version, cache') \<and> summary_cache_ok sip cache'"
proof -
  have ne: "strcmp p [] \<noteq> 0 \<longleftrightarrow> p \<noteq> []" if "is_c_str p" for p using that strcmp_eq_0 [of p "[]"] by (simp add: c_string_simps)
  define out where "out = (case protocols of Some p \<Rightarrow> if p \<noteq> [] then the (protover_summary p) else no_flags | None \<Rightarrow> no_flags)"
  have "\<exists>cache'. (case protocols of
      Some p \<Rightarrow> if strcmp p [] \<noteq> 0 then memoize_protover_summary sip cache p else Some (no_flags, cache)
    | None \<Rightarrow> Some (no_flags, cache)) = Some (out, cache') \<and> summary_cache_ok sip cache'"
  proof (cases "protocols = None \<or> protocols = Some []")
    case True
    then show ?thesis using assms(1) ne [of "[]"] by (auto simp: out_def c_string_simps)
  next
    case False
    then obtain p where p: "protocols = Some p" "p \<noteq> []" "is_c_str p" using assms(2) by (cases protocols) (auto simp: c_str_opt_def)
    then show ?thesis using memoize_protover_summary_ok [OF assms(1) p(3)] ne by (auto simp: out_def)
  qed
  then obtain cache' where c: "(case protocols of
      Some p \<Rightarrow> if strcmp p [] \<noteq> 0 then memoize_protover_summary sip cache p else Some (no_flags, cache)
    | None \<Rightarrow> Some (no_flags, cache)) = Some (out, cache')" "summary_cache_ok sip cache'" by blast
  have unknown: "out = no_flags" if "\<not> protocols_known out"
    using that protover_summary_total by (auto simp: out_def split: option.splits if_splits) (metis option.sel)
  have hsdir: "x\<lparr> supports_v3_hsdir := supports_v3_hsdir x \<rparr> = x" for x :: protover_summary_flags by simp
  show ?thesis
  proof (cases version)
    case None
    then show ?thesis using c by (simp add: summarize_protover_flags_def flags_of_def out_def [symmetric] Let_def)
  next
    case (Some v)
    then have "strcmp v [] \<noteq> 0 \<longleftrightarrow> v \<noteq> []" using ne assms(3) by (simp add: c_str_opt_def)
    then show ?thesis using c Some unknown
      by (auto simp: summarize_protover_flags_def flags_of_def out_def [symmetric] Let_def hsdir)
  qed
qed

datatype summary_call = Summarize "bytes option" "bytes option" | Cache_Free_All

fun summary_run :: "(bytes \<Rightarrow> 64 word) \<Rightarrow> summary_map \<Rightarrow> summary_call list \<Rightarrow> (protover_summary_flags list \<times> summary_map) option" where
  "summary_run sip cache [] = Some ([], cache)"
| "summary_run sip cache (Summarize protocols version # calls) = do {
     (out, cache) \<leftarrow> summarize_protover_flags sip cache protocols version;
     (outs, cache) \<leftarrow> summary_run sip cache calls;
     Some (out # outs, cache) }"
| "summary_run sip cache (Cache_Free_All # calls) = do { cache \<leftarrow> protover_summary_cache_free_all cache; summary_run sip cache calls }"

fun call_ok :: "summary_call \<Rightarrow> bool" where
  "call_ok (Summarize protocols version) = (c_str_opt protocols \<and> c_str_opt version)"
| "call_ok Cache_Free_All = True"

fun call_flags :: "summary_call \<Rightarrow> protover_summary_flags list" where
  "call_flags (Summarize protocols version) = [flags_of protocols version]"
| "call_flags Cache_Free_All = []"

lemma summary_run_ok:
  "summary_cache_ok sip cache \<Longrightarrow> list_all call_ok calls \<Longrightarrow>
    \<exists>cache'. summary_run sip cache calls = Some (concat (map call_flags calls), cache') \<and> summary_cache_ok sip cache'"
proof (induction sip cache calls rule: summary_run.induct)
  case (2 sip cache protocols version calls)
  obtain c1 where c1: "summarize_protover_flags sip cache protocols version = Some (flags_of protocols version, c1)" "summary_cache_ok sip c1"
    using summarize_protover_flags_ok [OF 2(2)] 2(3) by auto
  then obtain c2 where "summary_run sip c1 calls = Some (concat (map call_flags calls), c2)" "summary_cache_ok sip c2"
    using 2(1) [OF _ refl c1(2)] 2(3) by auto
  then show ?case using c1 by simp
next
  case (3 sip cache calls)
  have "protover_summary_cache_free_all cache = Some None"
    using 3(2) by (cases cache) (auto simp: protover_summary_cache_free_all_def summary_cache_ok_def map_free_def [of None] strm.free_all [of sip])
  then show ?case using 3(1) [of None] 3(3) by (simp add: summary_cache_ok_def)
qed simp

text \<open>C34: However calls that summarize protocol lists and calls that drop the cache are interleaved, every summary is the one
  computed from its arguments alone, no assertion of the caching code fails, and the cache never holds more than 1024 entries.\<close>

theorem protover_summary_cache_transparent:
  assumes "list_all call_ok calls"
  shows "\<exists>cache. summary_run siphash24g None calls = Some (concat (map call_flags calls), cache) \<and>
    (case cache of None \<Rightarrow> True | Some m \<Rightarrow> map_size m \<le> MAX_PROTOVER_SUMMARY_MAP_LEN)"
proof -
  obtain cache where c: "summary_run siphash24g None calls = Some (concat (map call_flags calls), cache)" "summary_cache_ok siphash24g cache"
    using summary_run_ok [of siphash24g None calls] assms by (auto simp: summary_cache_ok_def)
  then show ?thesis
    by (auto simp: summary_cache_ok_def MAX_PROTOVER_SUMMARY_MAP_LEN_def small_map_size [of siphash24g] split: option.splits)
qed

theorem protover_summary_cache_transparent_witness:
  "\<exists>cache. summary_run (\<lambda>_. 0) None [Summarize (Some (lit ''Relay=2'')) None, Cache_Free_All, Summarize (Some (lit ''Relay=2'')) None] =
    Some ([flags_of (Some (lit ''Relay=2'')) None, flags_of (Some (lit ''Relay=2'')) None], cache)"
  using protover_summary_cache_transparent [of "[Summarize (Some (lit ''Relay=2'')) None, Cache_Free_All, Summarize (Some (lit ''Relay=2'')) None]" "\<lambda>_. 0"]
  by (auto simp: c_str_opt_def lit_def c_string_simps)

text \<open>For a relay whose version is unknown, \<^verbatim>\<open>protover_compute_for_old_tor\<close> means to return the protocols of 0.2.5.15, but returns the
  empty string: the version it substitutes lacks the prefix \<^verbatim>\<open>"Tor "\<close>, so that every comparison with it counts as "new enough".\<close>

theorem protover_compute_for_old_tor_unknown:
  "protover_compute_for_old_tor None = [] \<and>
   protover_compute_for_old_tor (Some (lit ''Tor 0.2.5.15'')) =
     lit ''Cons=1 Desc=1 DirCache=1 HSDir=1 HSIntro=3 HSRend=1 Link=1-4 LinkAuth=1 Microdesc=1 Relay=1-2''"
  by code_simp

end
