(* ===== verification/Tor_Conflux.thy ===== *)
theory Tor_Conflux
  imports Tor_Pqueue
begin

text \<open>
  Conflux, the splitting of one stream of relay messages over several circuits (the legs of a
  set): \<^verbatim>\<open>core/or/conflux.c\<close>, the SWITCH cells of \<^verbatim>\<open>core/or/conflux_cell.c\<close> with their generated
  encoder and parser in \<^verbatim>\<open>trunnel/conflux.c\<close>, the helpers of \<^verbatim>\<open>core/or/conflux_util.c\<close>
  that it calls, and the two places of \<^verbatim>\<open>core/or/relay.c\<close> from which it is driven. Circuits and legs are
  pointers (\<open>nat\<close>) into the stores \<open>circuits\<close> and \<open>leg_at\<close>, so that \<open>curr_leg\<close>, \<open>prev_leg\<close> and
  the entries of \<open>legs\<close> may name the same leg. Sequence numbers are 64-bit words.
\<close>

subsection \<open>Data\<close>

record relay_msg =
  command :: byte
  msg_length :: "16 word"
  stream_id :: "16 word"
  is_relay_early :: bool
  body :: bytes

record congestion_control =
  cwnd :: "64 word"
  inflight :: "64 word"
  in_slow_start :: bool
  sendme_inc :: byte

text \<open>\<open>last_hop\<close> is \<^verbatim>\<open>cpath->prev\<close>, \<open>hop_ccontrol\<close> its congestion control object; \<open>has_n_chan\<close> and
  \<open>has_conflux\<close> tell that the pointers \<^verbatim>\<open>n_chan\<close> and \<^verbatim>\<open>conflux\<close> are not \<^verbatim>\<open>NULL\<close>.\<close>

record circuit =
  CIRCUIT_IS_ORIGIN :: bool
  marked_for_close :: bool
  circuit_blocked_on_n_chan :: bool
  circuit_blocked_on_p_chan :: bool
  has_n_chan :: bool
  has_conflux :: bool
  last_hop :: nat
  hop_ccontrol :: "congestion_control option"
  ccontrol :: "congestion_control option"

record conflux_leg =
  last_seq_recv :: "64 word"
  last_seq_sent :: "64 word"
  circ_rtts_usec :: "64 word"
  linked_sent_usec :: "64 word"
  leg_circ :: nat

text \<open>\<open>msg_addr\<close> is the address of the allocation.\<close>

record conflux_msg =
  msg_addr :: nat
  seq :: "64 word"
  queued_msg :: relay_msg

datatype conflux_alg = CONFLUX_ALG_MINRTT | CONFLUX_ALG_LOWRTT | CONFLUX_ALG_CWNDRTT

record conflux =
  alg :: conflux_alg
  legs :: "nat list"
  ooo_q :: "conflux_msg pqueue"
  ooo_q_alloc_cost :: "64 word"
  last_seq_delivered :: "64 word"
  cells_until_switch :: "64 word"
  curr_leg :: "nat option"
  prev_leg :: "nat option"
  in_full_teardown :: bool

datatype end_circ_reason = END_CIRC_REASON_INTERNAL | END_CIRC_REASON_TORPROTOCOL | END_CIRC_REASON_RESOURCELIMIT

text \<open>One process: its conflux set, its circuits, the static counter of conflux.c, the circuits it has
  closed, and for each circuit the relay messages that were queued on it and have not left yet. \<open>sent_log\<close> is a
  history: all messages in the order in which they were queued.\<close>

record cfx_world =
  cfx :: conflux
  leg_at :: "nat \<Rightarrow> conflux_leg"
  circuits :: "nat \<Rightarrow> circuit"
  total_ooo_q_bytes :: "64 word"
  closed :: "(nat \<times> end_circ_reason) list"
  cell_queue :: "nat \<Rightarrow> relay_msg list"
  sent_log :: "relay_msg list"

text \<open>The options and consensus parameters that the code reads.\<close>

record conflux_env =
  congestion_control_enabled :: bool
  ConfluxEnabled :: int
  conflux_enabled :: bool
  cfx_drain_pct :: byte
  max_ooo_queue_bytes :: "32 word"

text \<open>The relay commands of \<^verbatim>\<open>core/or/or.h\<close>.\<close>

abbreviation (input) RELAY_COMMAND_BEGIN :: byte where "RELAY_COMMAND_BEGIN \<equiv> 1"
abbreviation (input) RELAY_COMMAND_DATA :: byte where "RELAY_COMMAND_DATA \<equiv> 2"
abbreviation (input) RELAY_COMMAND_END :: byte where "RELAY_COMMAND_END \<equiv> 3"
abbreviation (input) RELAY_COMMAND_CONNECTED :: byte where "RELAY_COMMAND_CONNECTED \<equiv> 4"
abbreviation (input) RELAY_COMMAND_RESOLVE :: byte where "RELAY_COMMAND_RESOLVE \<equiv> 11"
abbreviation (input) RELAY_COMMAND_RESOLVED :: byte where "RELAY_COMMAND_RESOLVED \<equiv> 12"
abbreviation (input) RELAY_COMMAND_CONFLUX_SWITCH :: byte where "RELAY_COMMAND_CONFLUX_SWITCH \<equiv> 22"
abbreviation (input) RELAY_COMMAND_XOFF :: byte where "RELAY_COMMAND_XOFF \<equiv> 43"
abbreviation (input) RELAY_COMMAND_XON :: byte where "RELAY_COMMAND_XON \<equiv> 44"

text \<open>\<^verbatim>\<open>sizeof(conflux_msg_t) + sizeof(relay_msg_t)\<close> where pointers have eight bytes.\<close>

definition CONFLUX_MSG_SIZES :: nat where
  "CONFLUX_MSG_SIZES = 24 + 16"

definition conflux_msg_alloc_cost :: "conflux_msg \<Rightarrow> 64 word" where
  "conflux_msg_alloc_cost m = ucast (msg_length (queued_msg m)) + of_nat CONFLUX_MSG_SIZES"

text \<open>Every command that is not listed here, unknown ones included, is not multiplexed.\<close>

definition conflux_should_multiplex :: "byte \<Rightarrow> bool" where
  "conflux_should_multiplex relay_command \<longleftrightarrow> relay_command \<in> {RELAY_COMMAND_BEGIN, RELAY_COMMAND_DATA,
     RELAY_COMMAND_END, RELAY_COMMAND_CONNECTED, RELAY_COMMAND_RESOLVE, RELAY_COMMAND_RESOLVED,
     RELAY_COMMAND_XOFF, RELAY_COMMAND_XON}"

subsection \<open>Lookups and counters\<close>

definition conflux_get_leg :: "cfx_world \<Rightarrow> nat \<Rightarrow> nat option" where
  "conflux_get_leg w circ = List.find (\<lambda>leg. leg_circ (leg_at w leg) = circ) (legs (cfx w))"

definition conflux_get_max_seq_sent :: "cfx_world \<Rightarrow> 64 word" where
  "conflux_get_max_seq_sent w =
    foldl (\<lambda>m leg. if last_seq_sent (leg_at w leg) > m then last_seq_sent (leg_at w leg) else m) 0 (legs (cfx w))"

definition conflux_get_max_seq_recv :: "cfx_world \<Rightarrow> 64 word" where
  "conflux_get_max_seq_recv w =
    foldl (\<lambda>m leg. if last_seq_recv (leg_at w leg) > m then last_seq_recv (leg_at w leg) else m) 0 (legs (cfx w))"

definition conflux_get_circ_bytes_allocation :: "cfx_world \<Rightarrow> nat \<Rightarrow> 64 word" where
  "conflux_get_circ_bytes_allocation w circ =
    (if has_conflux (circuits w circ) then of_nat (length (pq_list (ooo_q (cfx w)))) * 8 + ooo_q_alloc_cost (cfx w) else 0)"

definition conflux_get_total_bytes_allocation :: "cfx_world \<Rightarrow> 64 word" where
  "conflux_get_total_bytes_allocation w = total_ooo_q_bytes w"

text \<open>The loop of \<^verbatim>\<open>conflux_clear_ooo_q\<close> over the messages; \<^verbatim>\<open>ooo_q_alloc_cost\<close> keeps its value.\<close>

definition clear_cost :: "64 word \<Rightarrow> conflux_msg \<Rightarrow> 64 word" where
  "clear_cost n m = (if conflux_msg_alloc_cost m > n then 0 else n - conflux_msg_alloc_cost m)"

definition conflux_clear_ooo_q :: "cfx_world \<Rightarrow> cfx_world" where
  "conflux_clear_ooo_q w = w\<lparr> total_ooo_q_bytes := foldl clear_cost (total_ooo_q_bytes w) (pq_list (ooo_q (cfx w))),
     cfx := (cfx w)\<lparr> ooo_q := (ooo_q (cfx w))\<lparr> pq_list := [] \<rparr> \<rparr> \<rparr>"

definition set_leg :: "nat \<Rightarrow> (conflux_leg \<Rightarrow> conflux_leg) \<Rightarrow> cfx_world \<Rightarrow> cfx_world" where
  "set_leg p f w = w\<lparr> leg_at := (leg_at w)(p := f (leg_at w p)) \<rparr>"

definition conflux_update_rtt :: "cfx_world \<Rightarrow> nat \<Rightarrow> 64 word \<Rightarrow> cfx_world" where
  "conflux_update_rtt w circ rtt_usec =
    (case conflux_get_leg w circ of None \<Rightarrow> w | Some leg \<Rightarrow> set_leg leg (\<lambda>l. l\<lparr> circ_rtts_usec := rtt_usec \<rparr>) w)"

text \<open>Marking a circuit that is marked already only logs. Padding machines and path bias probes may
  put a close off; this is left out. So is what the function does after setting the mark, in particular \<^verbatim>\<open>conflux_circuit_has_closed\<close>
  of \<^verbatim>\<open>conflux_pool.c\<close>, which takes the leg out of the set: a closed circuit keeps its leg here.\<close>

definition circuit_mark_for_close :: "nat \<Rightarrow> end_circ_reason \<Rightarrow> cfx_world \<Rightarrow> cfx_world" where
  "circuit_mark_for_close circ reason w =
    (if marked_for_close (circuits w circ) then w
     else w\<lparr> circuits := (circuits w)(circ := (circuits w circ)\<lparr> marked_for_close := True \<rparr>),
             closed := closed w @ [(circ, reason)] \<rparr>)"

text \<open>The linked set of \<^verbatim>\<open>conflux_mark_all_for_close\<close>.\<close>

definition conflux_mark_all_for_close :: "end_circ_reason \<Rightarrow> cfx_world \<Rightarrow> cfx_world" where
  "conflux_mark_all_for_close reason w =
    (if in_full_teardown (cfx w) then w
     else foldl (\<lambda>w circ. circuit_mark_for_close circ reason w) (w\<lparr> cfx := (cfx w)\<lparr> in_full_teardown := True \<rparr> \<rparr>)
       (map (\<lambda>leg. leg_circ (leg_at w leg)) (legs (cfx w))))"

subsection \<open>Which leg to send on\<close>

definition circuit_ccontrol :: "circuit \<Rightarrow> congestion_control option" where
  "circuit_ccontrol circ = (if CIRCUIT_IS_ORIGIN circ then hop_ccontrol circ else ccontrol circ)"

definition conflux_is_enabled :: "conflux_env \<Rightarrow> circuit \<Rightarrow> bool" where
  "conflux_is_enabled env circ =
    (if \<not> congestion_control_enabled env then False
     else if circuit_ccontrol circ = None then False
     else if ConfluxEnabled env \<noteq> -1 then ConfluxEnabled env \<noteq> 0
     else conflux_enabled env)"

definition circuit_ready_to_send :: "cfx_world \<Rightarrow> nat \<Rightarrow> bool option" where
  "circuit_ready_to_send w circ = do {
     cc \<leftarrow> circuit_ccontrol (circuits w circ);
     let cc_sendable = (\<not> inflight cc \<ge> cwnd cc);
     Some (if CIRCUIT_IS_ORIGIN (circuits w circ) then cc_sendable \<and> \<not> circuit_blocked_on_n_chan (circuits w circ)
           else cc_sendable \<and> \<not> circuit_blocked_on_p_chan (circuits w circ)) }"

text \<open>The search for the leg with the smallest measured round trip, which three functions share; it
  starts from \<^verbatim>\<open>UINT64_MAX\<close>.\<close>

definition min_rtt_step :: "cfx_world \<Rightarrow> 64 word \<times> nat option \<Rightarrow> nat \<Rightarrow> 64 word \<times> nat option" where
  "min_rtt_step w best leg =
    (if circ_rtts_usec (leg_at w leg) \<noteq> 0 \<and> circ_rtts_usec (leg_at w leg) < fst best
     then (circ_rtts_usec (leg_at w leg), Some leg) else best)"

definition circ_if_ready :: "cfx_world \<Rightarrow> nat option \<Rightarrow> nat option option" where
  "circ_if_ready w leg = (case leg of None \<Rightarrow> Some None
     | Some l \<Rightarrow> do { ready \<leftarrow> circuit_ready_to_send w (leg_circ (leg_at w l));
         Some (if ready then Some (leg_circ (leg_at w l)) else None) })"

definition conflux_decide_circ_minrtt :: "cfx_world \<Rightarrow> nat option option" where
  "conflux_decide_circ_minrtt w = do {
     tor_assert (legs (cfx w) \<noteq> []);
     circ_if_ready w (snd (foldl (min_rtt_step w) (- 1, None) (legs (cfx w)))) }"

primrec lowrtt_loop :: "cfx_world \<Rightarrow> nat list \<Rightarrow> 64 word \<times> nat option \<Rightarrow> (64 word \<times> nat option) option" where
  "lowrtt_loop w [] best = Some best"
| "lowrtt_loop w (leg # ls) best = do {
     ready \<leftarrow> circuit_ready_to_send w (leg_circ (leg_at w leg));
     lowrtt_loop w ls (if ready then min_rtt_step w best leg else best) }"

definition conflux_decide_circ_lowrtt :: "cfx_world \<Rightarrow> nat option option" where
  "conflux_decide_circ_lowrtt w = do {
     tor_assert (legs (cfx w) \<noteq> []);
     best \<leftarrow> lowrtt_loop w (legs (cfx w)) (- 1, None);
     Some (map_option (\<lambda>leg. leg_circ (leg_at w leg)) (snd best)) }"

definition cwnd_available :: "cfx_world \<Rightarrow> nat \<Rightarrow> 64 word option" where
  "cwnd_available w circ = do {
     cc \<leftarrow> circuit_ccontrol (circuits w circ);
     Some (if cwnd cc < inflight cc then 0 else cwnd cc - inflight cc) }"

definition cwnd_sendable :: "cfx_world \<Rightarrow> nat \<Rightarrow> 64 word \<Rightarrow> 64 word \<Rightarrow> 64 word option" where
  "cwnd_sendable w circ in_usec our_usec = do {
     cc \<leftarrow> circuit_ccontrol (circuits w circ);
     cwnd_adjusted \<leftarrow> cwnd_available w circ;
     Some (if our_usec = 0 \<or> in_usec = 0 then cwnd_adjusted
           else if in_slow_start cc then cwnd_adjusted
           else min (cwnd cc) (cwnd_adjusted * in_usec div our_usec)) }"

definition conflux_can_switch :: "conflux_env \<Rightarrow> cfx_world \<Rightarrow> bool option" where
  "conflux_can_switch env w =
    (if cells_until_switch (cfx w) > 0
     then (case prev_leg (cfx w) of None \<Rightarrow> Some False
       | Some prev \<Rightarrow> do {
           cc \<leftarrow> circuit_ccontrol (circuits w (leg_circ (leg_at w prev)));
           Some (inflight cc < ucast (sendme_inc cc) \<or> 100 * inflight cc \<le> ucast (cfx_drain_pct env) * cwnd cc) })
     else Some True)"

text \<open>The second loop of \<^verbatim>\<open>conflux_decide_circ_cwndrtt\<close>.\<close>

primrec cwndrtt_loop :: "cfx_world \<Rightarrow> 64 word \<Rightarrow> nat list \<Rightarrow> nat option \<Rightarrow> nat option option" where
  "cwndrtt_loop w min_rtt [] found = Some found"
| "cwndrtt_loop w min_rtt (l # ls) found = do {
     ready \<leftarrow> circuit_ready_to_send w (leg_circ (leg_at w l));
     if \<not> ready then cwndrtt_loop w min_rtt ls found
     else if circ_rtts_usec (leg_at w l) = 0 then cwndrtt_loop w min_rtt ls found
     else do {
       sendable \<leftarrow> cwnd_sendable w (leg_circ (leg_at w l)) min_rtt (circ_rtts_usec (leg_at w l));
       cwndrtt_loop w min_rtt ls (if sendable > 0 then Some l else found) } }"

definition conflux_decide_circ_cwndrtt :: "cfx_world \<Rightarrow> nat option option" where
  "conflux_decide_circ_cwndrtt w = do {
     tor_assert (legs (cfx w) \<noteq> []);
     let best = foldl (min_rtt_step w) (- 1, None) (legs (cfx w));
     first \<leftarrow> circ_if_ready w (snd best);
     (case first of Some circ \<Rightarrow> Some (Some circ)
      | None \<Rightarrow> do { found \<leftarrow> cwndrtt_loop w (fst best) (legs (cfx w)) None; circ_if_ready w found }) }"

definition first_leg_step :: "cfx_world \<Rightarrow> nat option \<Rightarrow> nat \<Rightarrow> nat option" where
  "first_leg_step w best leg =
    (if circ_rtts_usec (leg_at w leg) > 0
     then (case best of None \<Rightarrow> Some leg
       | Some b \<Rightarrow> if circ_rtts_usec (leg_at w leg) < circ_rtts_usec (leg_at w b) then Some leg else best)
     else best)"

definition conflux_pick_first_leg :: "cfx_world \<Rightarrow> bool \<times> cfx_world" where
  "conflux_pick_first_leg w =
    (let min_leg = foldl (first_leg_step w) None (legs (cfx w))
     in if min_leg = None \<and> legs (cfx w) = [] then (False, w)
        else (True, w\<lparr> cfx := (cfx w)\<lparr> cells_until_switch := 0,
                curr_leg := (if min_leg = None then Some (hd (legs (cfx w))) else min_leg) \<rparr> \<rparr>))"

definition conflux_decide_next_circ :: "conflux_env \<Rightarrow> cfx_world \<Rightarrow> (nat option \<times> cfx_world) option" where
  "conflux_decide_next_circ env w =
    (if in_full_teardown (cfx w) then Some (None, w)
     else let (ok, w) = (if curr_leg (cfx w) = None then conflux_pick_first_leg w else (True, w))
          in if \<not> ok then Some (None, w)
             else do {
               can_switch \<leftarrow> conflux_can_switch env w;
               circ \<leftarrow> (if \<not> can_switch then do { leg \<leftarrow> curr_leg (cfx w); circ_if_ready w (Some leg) }
                       else (case alg (cfx w) of
                           CONFLUX_ALG_MINRTT \<Rightarrow> conflux_decide_circ_minrtt w
                         | CONFLUX_ALG_LOWRTT \<Rightarrow> conflux_decide_circ_lowrtt w
                         | CONFLUX_ALG_CWNDRTT \<Rightarrow> conflux_decide_circ_cwndrtt w));
               Some (circ, w) })"

subsection \<open>Sending\<close>

text \<open>\<^verbatim>\<open>trn_cell_conflux_switch_encode\<close> and \<^verbatim>\<open>trn_cell_conflux_switch_parse\<close>: a big-endian 32-bit number,
  and a body that is too short to hold it.\<close>

definition trn_cell_conflux_switch_encode :: "32 word \<Rightarrow> bytes" where
  "trn_cell_conflux_switch_encode seqnum = map (\<lambda>i. ucast (drop_bit (8 * i) seqnum)) [3, 2, 1, 0]"

definition trn_cell_conflux_switch_parse :: "bytes \<Rightarrow> 32 word option" where
  "trn_cell_conflux_switch_parse input =
    (if length input < 4 then None
     else Some (foldl (\<lambda>n b. push_bit 8 n OR ucast b) 0 (take 4 input)))"

definition conflux_cell_parse_switch :: "relay_msg \<Rightarrow> 32 word" where
  "conflux_cell_parse_switch msg =
    (case trn_cell_conflux_switch_parse (take (unat (msg_length msg)) (body msg)) of None \<Rightarrow> 0 | Some n \<Rightarrow> n)"

text \<open>What \<^verbatim>\<open>circuit_package_relay_cell\<close> does with a cell: an error, a cell that is dropped (with the
  circuit closed when the memory handler ran), or a cell on the circuit's queue. \<open>window_ok\<close> is the
  outcome of the accounting for DATA cells that follows, \<open>encodable\<close> that of the cell encoder.\<close>

datatype package_result = Package_Error | Package_Dropped bool | Package_Queued

record relay_env =
  relay_cell_max_payload_size :: "nat \<Rightarrow> byte \<Rightarrow> nat"
  encodable :: "nat \<Rightarrow> relay_msg \<Rightarrow> bool"
  circuit_package_relay_cell :: "nat \<Rightarrow> relay_msg \<Rightarrow> package_result"
  window_ok :: "nat \<Rightarrow> relay_msg \<Rightarrow> bool"

definition conflux_note_cell_sent :: "cfx_world \<Rightarrow> nat \<Rightarrow> byte \<Rightarrow> cfx_world" where
  "conflux_note_cell_sent w circ relay_command =
    (if \<not> conflux_should_multiplex relay_command then w
     else case conflux_get_leg w circ of None \<Rightarrow> w
       | Some leg \<Rightarrow>
         let w = set_leg leg (\<lambda>l. l\<lparr> last_seq_sent := last_seq_sent l + 1 \<rparr>) w
         in if cells_until_switch (cfx w) > 0
            then w\<lparr> cfx := (cfx w)\<lparr> cells_until_switch := cells_until_switch (cfx w) - 1 \<rparr> \<rparr> else w)"

text \<open>The part of \<^verbatim>\<open>relay_send_command_from_edge_\<close> that follows the choice of the circuit. The first
  component of the result tells that it returned 0.\<close>

definition relay_send_on_circ :: "relay_env \<Rightarrow> cfx_world \<Rightarrow> nat \<Rightarrow> relay_msg \<Rightarrow> bool \<times> cfx_world" where
  "relay_send_on_circ renv w circ msg =
    (if marked_for_close (circuits w circ) then (False, w)
     else if length (body msg) > relay_cell_max_payload_size renv circ (command msg)
     then (False, circuit_mark_for_close circ END_CIRC_REASON_INTERNAL w)
     else if \<not> encodable renv circ msg then (False, circuit_mark_for_close circ END_CIRC_REASON_INTERNAL w)
     else case circuit_package_relay_cell renv circ msg of
       Package_Error \<Rightarrow> (False, circuit_mark_for_close circ END_CIRC_REASON_INTERNAL w)
     | Package_Dropped oom \<Rightarrow> (True, if oom then circuit_mark_for_close circ END_CIRC_REASON_RESOURCELIMIT w else w)
     | Package_Queued \<Rightarrow>
         let w = w\<lparr> cell_queue := (cell_queue w)(circ := cell_queue w circ @ [msg]), sent_log := sent_log w @ [msg] \<rparr>;
             w = (if has_conflux (circuits w circ) then conflux_note_cell_sent w circ (command msg) else w)
         in if command msg = RELAY_COMMAND_DATA \<and> \<not> window_ok renv circ msg
            then (False, circuit_mark_for_close circ END_CIRC_REASON_TORPROTOCOL w) else (True, w))"

definition switch_msg :: "64 word \<Rightarrow> relay_msg" where
  "switch_msg relative_seq = \<lparr> command = RELAY_COMMAND_CONFLUX_SWITCH, msg_length = 4, stream_id = 0, is_relay_early = False,
     body = trn_cell_conflux_switch_encode (ucast relative_seq) \<rparr>"

definition conflux_send_switch_command :: "relay_env \<Rightarrow> cfx_world \<Rightarrow> nat \<Rightarrow> 64 word \<Rightarrow> bool \<times> cfx_world" where
  "conflux_send_switch_command renv w send_circ relative_seq =
    (if relative_seq \<ge> 4294967295 then (False, w)
     else relay_send_on_circ renv w send_circ (switch_msg relative_seq))"

text \<open>Changing the current leg to \<open>new_leg\<close> within \<^verbatim>\<open>conflux_decide_circ_for_send\<close>.\<close>

definition switch_leg :: "relay_env \<Rightarrow> cfx_world \<Rightarrow> nat \<Rightarrow> nat \<Rightarrow> nat \<Rightarrow> nat option \<times> cfx_world" where
  "switch_leg renv w cur new_leg new_circ =
    (let w = w\<lparr> cfx := (cfx w)\<lparr> cells_until_switch := 0, prev_leg := Some cur, curr_leg := Some new_leg \<rparr> \<rparr>
     in if last_seq_sent (leg_at w new_leg) > last_seq_sent (leg_at w cur)
        then (None, conflux_mark_all_for_close END_CIRC_REASON_TORPROTOCOL w)
        else let relative_seq = last_seq_sent (leg_at w cur) - last_seq_sent (leg_at w new_leg);
                 (ok, w) = conflux_send_switch_command renv w (leg_circ (leg_at w new_leg)) relative_seq
             in if \<not> ok then (None, conflux_mark_all_for_close END_CIRC_REASON_TORPROTOCOL w)
                else (Some new_circ, set_leg new_leg (\<lambda>l. l\<lparr> last_seq_sent := last_seq_sent (leg_at w cur) \<rparr>) w))"

definition conflux_decide_circ_for_send ::
  "conflux_env \<Rightarrow> relay_env \<Rightarrow> cfx_world \<Rightarrow> nat \<Rightarrow> byte \<Rightarrow> (nat option \<times> cfx_world) option" where
  "conflux_decide_circ_for_send env renv w orig_circ relay_command =
    (if \<not> conflux_should_multiplex relay_command then Some (Some orig_circ, w)
     else do {
       (new_circ, w) \<leftarrow> conflux_decide_next_circ env w;
       (case new_circ of
         None \<Rightarrow> Some (if relay_command \<noteq> RELAY_COMMAND_DATA
                       then map_option (\<lambda>leg. leg_circ (leg_at w leg)) (curr_leg (cfx w)) else None, w)
       | Some circ \<Rightarrow> do {
           cur \<leftarrow> curr_leg (cfx w);
           if circ \<noteq> leg_circ (leg_at w cur)
           then do { new_leg \<leftarrow> conflux_get_leg w circ; Some (switch_leg renv w cur new_leg circ) }
           else Some (Some circ, w) }) })"

text \<open>\<^verbatim>\<open>relay_send_command_from_edge_\<close>, as far as it concerns conflux: the statistics, padding events and RELAY_EARLY
  marks between the choice of the circuit and the packaging are left out.\<close>

definition relay_send_command_from_edge ::
  "conflux_env \<Rightarrow> relay_env \<Rightarrow> cfx_world \<Rightarrow> nat \<Rightarrow> relay_msg \<Rightarrow> (bool \<times> cfx_world) option" where
  "relay_send_command_from_edge env renv w orig_circ msg =
    (if has_conflux (circuits w orig_circ) \<and> conflux_should_multiplex (command msg)
     then do {
       (circ, w) \<leftarrow> conflux_decide_circ_for_send env renv w orig_circ (command msg);
       Some (case circ of None \<Rightarrow> (False, w) | Some circ \<Rightarrow> relay_send_on_circ renv w circ msg) }
     else Some (relay_send_on_circ renv w orig_circ msg))"

subsection \<open>Receiving\<close>

definition conflux_queue_cmp :: "conflux_msg \<Rightarrow> conflux_msg \<Rightarrow> int" where
  "conflux_queue_cmp a b = (if seq a < seq b then -1 else if seq a > seq b then 1 else 0)"

text \<open>\<open>layer_hint\<close> is the hop of an origin circuit that a message came from.\<close>

definition conflux_get_destination_hop :: "circuit \<Rightarrow> nat option" where
  "conflux_get_destination_hop circ = (if CIRCUIT_IS_ORIGIN circ then Some (last_hop circ) else None)"

definition conflux_validate_source_hop :: "circuit \<Rightarrow> nat option \<Rightarrow> bool" where
  "conflux_validate_source_hop in_circ layer_hint \<longleftrightarrow>
    conflux_get_destination_hop in_circ = layer_hint \<and> \<not> (layer_hint = None \<and> has_n_chan in_circ)"

definition conflux_process_switch_command ::
  "conflux_env \<Rightarrow> cfx_world \<Rightarrow> nat \<Rightarrow> nat option \<Rightarrow> relay_msg \<Rightarrow> int \<times> cfx_world" where
  "conflux_process_switch_command env w in_circ layer_hint msg =
    (if \<not> conflux_is_enabled env (circuits w in_circ)
     then (-1, circuit_mark_for_close in_circ END_CIRC_REASON_TORPROTOCOL w)
     else if \<not> has_conflux (circuits w in_circ)
     then (-1, circuit_mark_for_close in_circ END_CIRC_REASON_TORPROTOCOL w)
     else case conflux_get_leg w in_circ of
       None \<Rightarrow> (-1, circuit_mark_for_close in_circ END_CIRC_REASON_INTERNAL w)
     | Some leg \<Rightarrow>
         if \<not> conflux_validate_source_hop (circuits w in_circ) layer_hint
         then (-1, circuit_mark_for_close in_circ END_CIRC_REASON_TORPROTOCOL w)
         else (0, set_leg leg (\<lambda>l. l\<lparr> last_seq_recv := last_seq_recv l + ucast (conflux_cell_parse_switch msg) \<rparr>) w))"

text \<open>\<^verbatim>\<open>relay_msg_copy\<close> asserts the length; \<open>addr\<close> is the address that the allocation returns.\<close>

definition RELAY_PAYLOAD_SIZE_MAX :: nat where
  "RELAY_PAYLOAD_SIZE_MAX = 509 - 11"

definition conflux_queue_msg :: "cfx_world \<Rightarrow> conflux_msg \<Rightarrow> cfx_world" where
  "conflux_queue_msg w c_msg =
    (let cost = conflux_msg_alloc_cost c_msg
     in w\<lparr> total_ooo_q_bytes := total_ooo_q_bytes w + cost,
           cfx := (cfx w)\<lparr> ooo_q := smartlist_pqueue_add conflux_queue_cmp (ooo_q (cfx w)) c_msg,
                           ooo_q_alloc_cost := ooo_q_alloc_cost (cfx w) + cost \<rparr> \<rparr>)"

definition conflux_process_relay_msg ::
  "conflux_env \<Rightarrow> cfx_world \<Rightarrow> nat \<Rightarrow> nat option \<Rightarrow> relay_msg \<Rightarrow> nat \<Rightarrow> (bool \<times> cfx_world) option" where
  "conflux_process_relay_msg env w in_circ layer_hint msg addr =
    (case conflux_get_leg w in_circ of
       None \<Rightarrow> Some (False, circuit_mark_for_close in_circ END_CIRC_REASON_INTERNAL w)
     | Some leg \<Rightarrow>
         if \<not> conflux_validate_source_hop (circuits w in_circ) layer_hint
         then Some (False, circuit_mark_for_close in_circ END_CIRC_REASON_TORPROTOCOL w)
         else let w = set_leg leg (\<lambda>l. l\<lparr> last_seq_recv := last_seq_recv l + 1 \<rparr>) w;
                  recv = last_seq_recv (leg_at w leg)
              in if recv = last_seq_delivered (cfx w) + 1
                 then Some (True, w\<lparr> cfx := (cfx w)\<lparr> last_seq_delivered := last_seq_delivered (cfx w) + 1 \<rparr> \<rparr>)
                 else if recv \<le> last_seq_delivered (cfx w)
                 then Some (False, circuit_mark_for_close in_circ END_CIRC_REASON_INTERNAL w)
                 else if ooo_q_alloc_cost (cfx w) \<ge> ucast (max_ooo_queue_bytes env)
                 then Some (False, circuit_mark_for_close in_circ END_CIRC_REASON_RESOURCELIMIT w)
                 else do {
                   tor_assert (unat (msg_length msg) \<le> RELAY_PAYLOAD_SIZE_MAX);
                   Some (False, conflux_queue_msg w \<lparr> msg_addr = addr, seq = recv, queued_msg = msg \<rparr>) })"

text \<open>The result is the message and the new state; the outer \<open>None\<close> is an assertion that fails.\<close>

definition conflux_dequeue_relay_msg :: "cfx_world \<Rightarrow> nat \<Rightarrow> (conflux_msg option \<times> cfx_world) option" where
  "conflux_dequeue_relay_msg w circ =
    (if marked_for_close (circuits w circ) then Some (None, w)
     else if \<not> has_conflux (circuits w circ) then Some (None, w)
     else if pq_list (ooo_q (cfx w)) = [] then Some (None, w)
     else if seq (pq_list (ooo_q (cfx w)) ! 0) = last_seq_delivered (cfx w) + 1
     then do {
       (top, q) \<leftarrow> smartlist_pqueue_pop conflux_queue_cmp (ooo_q (cfx w));
       let cost = conflux_msg_alloc_cost top;
       Some (Some top, w\<lparr> total_ooo_q_bytes := total_ooo_q_bytes w - cost,
         cfx := (cfx w)\<lparr> ooo_q := q, ooo_q_alloc_cost := ooo_q_alloc_cost (cfx w) - cost,
                         last_seq_delivered := last_seq_delivered (cfx w) + 1 \<rparr> \<rparr>) }
     else Some (None, w))"

text \<open>The conflux part of \<^verbatim>\<open>connection_edge_process_relay_cell\<close>. What comes before it is left out: messages with one of six
  commands for streams (BEGIN, CONNECTED, END, RESOLVE, RESOLVED, BEGIN_DIR) and stream number 0, which no sender produces, are dropped there
  without being counted, and the SENDME window of the circuit is updated. \<open>process\<close> stands for
  \<^verbatim>\<open>connection_edge_process_ordered_relay_cell\<close>, which hands a message to its stream; the last component of
  the result lists the multiplexed messages for which it was called. A loop that does not end has
  the result \<open>None\<close>.\<close>

type_synonym ordered_handler = "cfx_world \<Rightarrow> nat \<Rightarrow> relay_msg \<Rightarrow> int \<times> cfx_world"

partial_function (option) conflux_drain ::
  "ordered_handler \<Rightarrow> cfx_world \<Rightarrow> nat \<Rightarrow> relay_msg list \<Rightarrow> (int \<times> cfx_world \<times> relay_msg list) option" where
  "conflux_drain process w circ handed =
    Option.bind (conflux_dequeue_relay_msg w circ) (\<lambda>(c_msg, w).
      case c_msg of None \<Rightarrow> Some (0, w, handed)
      | Some m \<Rightarrow> (case process w circ (queued_msg m) of (ret, w) \<Rightarrow>
          if ret < 0 then Some (ret, w, handed @ [queued_msg m])
          else conflux_drain process w circ (handed @ [queued_msg m])))"

declare conflux_drain.simps [code]

definition connection_edge_process_relay_cell ::
  "conflux_env \<Rightarrow> ordered_handler \<Rightarrow> cfx_world \<Rightarrow> nat \<Rightarrow> nat option \<Rightarrow> relay_msg \<Rightarrow> nat \<Rightarrow>
    (int \<times> cfx_world \<times> relay_msg list) option" where
  "connection_edge_process_relay_cell env process w circ layer_hint msg addr =
    (if \<not> has_conflux (circuits w circ) \<or> \<not> conflux_should_multiplex (command msg)
     then (let (ret, w) = (if command msg = RELAY_COMMAND_CONFLUX_SWITCH
                           then conflux_process_switch_command env w circ layer_hint msg else process w circ msg)
           in Some (ret, w, []))
     else do {
       (in_order, w) \<leftarrow> conflux_process_relay_msg env w circ layer_hint msg addr;
       if in_order
       then (let (ret, w) = process w circ msg
             in if ret < 0 then Some (ret, w, [msg]) else conflux_drain process w circ [msg])
       else Some (0, w, []) })"

subsection \<open>The codec of SWITCH cells\<close>

lemma switch_parse_encode [simp]: "trn_cell_conflux_switch_parse (trn_cell_conflux_switch_encode n) = Some n"
  using word32_bytes [of n] by (simp add: trn_cell_conflux_switch_parse_def trn_cell_conflux_switch_encode_def)

lemma length_switch_encode [simp]: "length (trn_cell_conflux_switch_encode n) = 4"
  by (simp add: trn_cell_conflux_switch_encode_def)

lemma parse_switch_msg:
  assumes "r < 4294967295"
  shows "ucast (conflux_cell_parse_switch (switch_msg r)) = r"
proof -
  have "unat r < 2 ^ 32" using assms by (simp add: word_less_nat_alt)
  then have "(ucast (ucast r :: 32 word) :: 64 word) = r"
    by (simp add: word_unat_eq_iff unsigned_ucast_eq unsigned_take_bit_eq take_bit_nat_eq_self_iff)
  then show ?thesis by (simp add: conflux_cell_parse_switch_def switch_msg_def)
qed

subsection \<open>The out-of-order queue\<close>

interpretation oooq: item_order conflux_queue_cmp seq
  by unfold_locales (auto simp: conflux_queue_cmp_def)

lemma unat_ucast_32_64 [simp]: "unat (ucast (x :: 32 word) :: 64 word) = unat x"
proof -
  have "unat x < 2 ^ 32" using unsigned_less [of x] by simp
  then show ?thesis by (simp add: unsigned_ucast_eq take_bit_nat_eq_self)
qed

definition msg_cost :: "conflux_msg \<Rightarrow> nat" where
  "msg_cost m = unat (msg_length (queued_msg m)) + CONFLUX_MSG_SIZES"

lemma unat_alloc_cost: "unat (conflux_msg_alloc_cost m) = msg_cost m"
proof -
  have "unat (msg_length (queued_msg m)) < 2 ^ 16" using unsigned_less [of "msg_length (queued_msg m)"] by simp
  then show ?thesis
    by (simp add: conflux_msg_alloc_cost_def msg_cost_def CONFLUX_MSG_SIZES_def unat_word_ariths unsigned_ucast_eq unsigned_take_bit_eq take_bit_nat_eq_self)
qed

text \<open>What the receiving side of a set keeps: a heap of messages at different addresses, and the exact sum of
  their costs, which passes the limit by less than one message.\<close>

definition ooo_queue_ok :: "conflux_env \<Rightarrow> cfx_world \<Rightarrow> bool" where
  "ooo_queue_ok env w \<longleftrightarrow> smartlist_pqueue_assert_ok conflux_queue_cmp (ooo_q (cfx w)) = Some () \<and>
    distinct (map msg_addr (pq_list (ooo_q (cfx w)))) \<and>
    unat (ooo_q_alloc_cost (cfx w)) = sum_list (map msg_cost (pq_list (ooo_q (cfx w)))) \<and>
    unat (ooo_q_alloc_cost (cfx w)) < unat (max_ooo_queue_bytes env) + (RELAY_PAYLOAD_SIZE_MAX + CONFLUX_MSG_SIZES)"

lemma sum_list_mset_Cons: "mset xs = add_mset x (mset ys) \<Longrightarrow> sum_list (map f xs) = f x + sum_list (map f ys)"
  for f :: "'a \<Rightarrow> nat"
proof -
  assume "mset xs = add_mset x (mset ys)"
  then have "mset (map f xs) = mset (map f (x # ys))" by simp
  then have "sum_list (map f xs) = sum_list (map f (x # ys))" by (metis sum_mset_sum_list)
  then show ?thesis by simp
qed

lemma ooo_queue_ok_pq:
  assumes "ooo_queue_ok env w"
  shows "oooq.pq_ok (ooo_q (cfx w))" and "length (pq_list (ooo_q (cfx w))) < INT_MAX"
proof -
  let ?q = "pq_list (ooo_q (cfx w))"
  have "sum_list (map (\<lambda>m. CONFLUX_MSG_SIZES) ?q) \<le> sum_list (map msg_cost ?q)" by (rule sum_list_mono) (simp add: msg_cost_def)
  then have "40 * length ?q \<le> unat (ooo_q_alloc_cost (cfx w))"
    using assms by (simp add: ooo_queue_ok_def sum_list_triv CONFLUX_MSG_SIZES_def)
  moreover have "unat (max_ooo_queue_bytes env) < 2 ^ 32" using unsigned_less [of "max_ooo_queue_bytes env"] by simp
  ultimately show len: "length ?q < INT_MAX"
    using assms by (simp add: ooo_queue_ok_def CONFLUX_MSG_SIZES_def RELAY_PAYLOAD_SIZE_MAX_def)
  show "oooq.pq_ok (ooo_q (cfx w))"
    using assms len by (simp add: ooo_queue_ok_def oooq.pq_ok_def assert_ok_iff [of _ seq, OF oooq.compare_le])
qed

lemma pq_ok_assert: "oooq.pq_ok q \<Longrightarrow> smartlist_pqueue_assert_ok conflux_queue_cmp q = Some ()"
  by (simp add: oooq.pq_ok_def assert_ok_iff [of _ seq, OF oooq.compare_le])

lemma conflux_queue_msg_ok:
  assumes "ooo_queue_ok env w" and "msg_addr m \<notin> msg_addr ` set (pq_list (ooo_q (cfx w)))"
    and "ooo_q_alloc_cost (cfx w) < ucast (max_ooo_queue_bytes env)" and "unat (msg_length (queued_msg m)) \<le> RELAY_PAYLOAD_SIZE_MAX"
  shows "ooo_queue_ok env (conflux_queue_msg w m)"
    and "mset (pq_list (ooo_q (cfx (conflux_queue_msg w m)))) = add_mset m (mset (pq_list (ooo_q (cfx w))))"
proof -
  let ?q = "ooo_q (cfx w)" and ?q' = "ooo_q (cfx (conflux_queue_msg w m))"
  have new: "m \<notin># mset (pq_list ?q)" using assms(2) by force
  have add: "oooq.pq_ok ?q'" "mset (pq_list ?q') = add_mset m (mset (pq_list ?q))"
    using oooq.pq.insert_q [OF ooo_queue_ok_pq(1) [OF assms(1)] new] ooo_queue_ok_pq(2) [OF assms(1)]
    by (simp_all add: conflux_queue_msg_def Let_def)
  then show "mset (pq_list ?q') = add_mset m (mset (pq_list ?q))" by simp
  have lim: "unat (ooo_q_alloc_cost (cfx w)) < unat (max_ooo_queue_bytes env)"
    using assms(3) by (simp add: word_less_nat_alt)
  have max: "unat (max_ooo_queue_bytes env) < 2 ^ 32" using unsigned_less [of "max_ooo_queue_bytes env"] by simp
  have len: "msg_cost m \<le> 538" using assms(4) by (simp add: msg_cost_def CONFLUX_MSG_SIZES_def RELAY_PAYLOAD_SIZE_MAX_def)
  have cost: "unat (ooo_q_alloc_cost (cfx (conflux_queue_msg w m))) = unat (ooo_q_alloc_cost (cfx w)) + msg_cost m"
    using lim max len by (simp add: conflux_queue_msg_def Let_def unat_word_ariths unat_alloc_cost)
  have addrs: "mset (map msg_addr (pq_list ?q')) = mset (msg_addr m # map msg_addr (pq_list ?q))" by (simp add: add(2))
  have "distinct (map msg_addr (pq_list ?q'))"
    unfolding mset_eq_imp_distinct_iff [OF addrs] using assms(1,2) by (simp add: ooo_queue_ok_def)
  moreover have "sum_list (map msg_cost (pq_list ?q')) = msg_cost m + sum_list (map msg_cost (pq_list ?q))" by (rule sum_list_mset_Cons [OF add(2)])
  ultimately show "ooo_queue_ok env (conflux_queue_msg w m)"
    using add(1) cost lim assms(1) len pq_ok_assert [OF add(1)]
    by (simp add: ooo_queue_ok_def RELAY_PAYLOAD_SIZE_MAX_def CONFLUX_MSG_SIZES_def)
qed

text \<open>Taking a message out of the queue: it is the one that is due, or the head is not due and
  nothing in the queue precedes it.\<close>

definition dequeued :: "cfx_world \<Rightarrow> conflux_msg \<Rightarrow> conflux_msg pqueue \<Rightarrow> cfx_world" where
  "dequeued w m q = w\<lparr> total_ooo_q_bytes := total_ooo_q_bytes w - conflux_msg_alloc_cost m,
     cfx := (cfx w)\<lparr> ooo_q := q, ooo_q_alloc_cost := ooo_q_alloc_cost (cfx w) - conflux_msg_alloc_cost m,
                     last_seq_delivered := last_seq_delivered (cfx w) + 1 \<rparr> \<rparr>"

lemma conflux_dequeue_cases:
  assumes "ooo_queue_ok env w"
  obtains (None) "conflux_dequeue_relay_msg w circ = Some (None, w)"
      "marked_for_close (circuits w circ) \<or> \<not> has_conflux (circuits w circ) \<or> pq_list (ooo_q (cfx w)) = [] \<or>
       seq (pq_list (ooo_q (cfx w)) ! 0) \<noteq> last_seq_delivered (cfx w) + 1"
  | (Some) m q where "conflux_dequeue_relay_msg w circ = Some (Some m, dequeued w m q)"
      "seq m = last_seq_delivered (cfx w) + 1" "mset (pq_list (ooo_q (cfx w))) = add_mset m (mset (pq_list q))"
      "ooo_queue_ok env (dequeued w m q)"
proof -
  let ?q = "ooo_q (cfx w)"
  consider (no) "marked_for_close (circuits w circ) \<or> \<not> has_conflux (circuits w circ) \<or> pq_list ?q = [] \<or>
       seq (pq_list ?q ! 0) \<noteq> last_seq_delivered (cfx w) + 1"
    | (due) "\<not> marked_for_close (circuits w circ)" "has_conflux (circuits w circ)" "pq_list ?q \<noteq> []"
       "seq (pq_list ?q ! 0) = last_seq_delivered (cfx w) + 1" by blast
  then show thesis
  proof cases
    case no
    then show ?thesis by (intro None) (auto simp: conflux_dequeue_relay_msg_def)
  next
    case due
    have "mset (pq_list ?q) \<noteq> {#}" using due(3) by simp
    then obtain m q where m: "smartlist_pqueue_pop conflux_queue_cmp ?q = Some (m, q)" "oooq.pq_ok q"
        "mset (pq_list ?q) = add_mset m (mset (pq_list q))"
      using oooq.pq.pop_q [OF ooo_queue_ok_pq(1) [OF assms]] by blast
    have top: "m = pq_list ?q ! 0" using m(1) due(3) by (auto simp: smartlist_pqueue_pop_def Let_def)
    have sum: "sum_list (map msg_cost (pq_list ?q)) = msg_cost m + sum_list (map msg_cost (pq_list q))" by (rule sum_list_mset_Cons [OF m(3)])
    then have le: "conflux_msg_alloc_cost m \<le> ooo_q_alloc_cost (cfx w)"
      using assms by (simp add: word_le_nat_alt unat_alloc_cost ooo_queue_ok_def)
    have addrs: "mset (map msg_addr (pq_list ?q)) = mset (msg_addr m # map msg_addr (pq_list q))" by (simp add: m(3))
    have "distinct (msg_addr m # map msg_addr (pq_list q))"
      unfolding mset_eq_imp_distinct_iff [OF addrs, symmetric] using assms by (simp add: ooo_queue_ok_def)
    then have "ooo_queue_ok env (dequeued w m q)"
      using assms pq_ok_assert [OF m(2)] sum unat_sub [OF le] by (simp add: ooo_queue_ok_def dequeued_def unat_alloc_cost)
    then show ?thesis
      using m due top by (intro Some [of m q]) (simp_all add: conflux_dequeue_relay_msg_def dequeued_def Let_def)
  qed
qed

text \<open>Handling a message that is in order may mark circuits for closing and send cells, but leaves the receiving side of the set alone. A handler
  that links or unlinks legs, as \<^verbatim>\<open>conflux_pool.c\<close> does when a circuit of the set closes, is not one of these: the theorems are
  about a set whose legs stay.\<close>

definition marks_ok :: "cfx_world \<Rightarrow> bool" where
  "marks_ok w \<longleftrightarrow> (closed w = [] \<longrightarrow> (\<forall>c. \<not> marked_for_close (circuits w c)))"

definition same_receiver :: "cfx_world \<Rightarrow> cfx_world \<Rightarrow> bool" where
  "same_receiver w w' \<longleftrightarrow> legs (cfx w') = legs (cfx w) \<and> ooo_q (cfx w') = ooo_q (cfx w) \<and>
    ooo_q_alloc_cost (cfx w') = ooo_q_alloc_cost (cfx w) \<and> last_seq_delivered (cfx w') = last_seq_delivered (cfx w) \<and>
    (\<forall>p. leg_circ (leg_at w' p) = leg_circ (leg_at w p) \<and> last_seq_recv (leg_at w' p) = last_seq_recv (leg_at w p)) \<and>
    (\<forall>c. has_conflux (circuits w' c) = has_conflux (circuits w c)) \<and>
    (closed w' = [] \<longrightarrow> closed w = []) \<and> (marks_ok w \<longrightarrow> marks_ok w')"

definition keeps_receiver :: "ordered_handler \<Rightarrow> bool" where
  "keeps_receiver process \<longleftrightarrow> (\<forall>w c m. same_receiver w (snd (process w c m)))"

lemma keeps_receiverD: "keeps_receiver process \<Longrightarrow> process w c m = (ret, w') \<Longrightarrow> same_receiver w w'"
  by (metis keeps_receiver_def snd_conv)

lemma same_receiver_queue_ok: "same_receiver w w' \<Longrightarrow> ooo_queue_ok env w \<Longrightarrow> ooo_queue_ok env w'"
  by (simp add: same_receiver_def ooo_queue_ok_def)

text \<open>The loop over the queue ends, whatever the handler does: an invariant of one round holds after it.\<close>

lemma conflux_drain_invariant:
  assumes "keeps_receiver process" and "P w handed" and "ooo_queue_ok env w"
    and "\<And>w handed m q w' ret. P w handed \<Longrightarrow> ooo_queue_ok env w \<Longrightarrow> seq m = last_seq_delivered (cfx w) + 1 \<Longrightarrow>
      mset (pq_list (ooo_q (cfx w))) = add_mset m (mset (pq_list q)) \<Longrightarrow> same_receiver (dequeued w m q) w' \<Longrightarrow>
      P w' (handed @ [queued_msg m])"
  shows "\<exists>ret w' handed'. conflux_drain process w circ handed = Some (ret, w', handed') \<and> P w' handed' \<and> ooo_queue_ok env w' \<and>
    (ret < 0 \<or> ret = 0 \<and> (marked_for_close (circuits w' circ) \<or> \<not> has_conflux (circuits w' circ) \<or>
       pq_list (ooo_q (cfx w')) = [] \<or> seq (pq_list (ooo_q (cfx w')) ! 0) \<noteq> last_seq_delivered (cfx w') + 1))"
  using assms(2,3)
proof (induction "length (pq_list (ooo_q (cfx w)))" arbitrary: w handed rule: less_induct)
  case less
  note unfold = conflux_drain.simps [of process w circ handed]
  from less.prems(2) show ?case
  proof (cases rule: conflux_dequeue_cases [where circ = circ])
    case None
    then show ?thesis using less.prems by (simp add: unfold)
  next
    case (Some m q)
    obtain ret w' where r: "process (dequeued w m q) circ (queued_msg m) = (ret, w')" by (cases "process (dequeued w m q) circ (queued_msg m)")
    have same: "same_receiver (dequeued w m q) w'" using keeps_receiverD [OF assms(1) r] .
    have P: "P w' (handed @ [queued_msg m])" using assms(4) [OF less.prems Some(2,3) same] .
    have ok: "ooo_queue_ok env w'" using same_receiver_queue_ok [OF same Some(4)] .
    have "ooo_q (cfx w') = q" using same by (simp add: same_receiver_def dequeued_def)
    moreover have "size (mset (pq_list (ooo_q (cfx w)))) = Suc (size (mset (pq_list q)))" by (simp only: Some(3) size_add_mset)
    ultimately have "length (pq_list (ooo_q (cfx w'))) < length (pq_list (ooo_q (cfx w)))" by simp
    then have "\<exists>ret' w'' handed'. conflux_drain process w' circ (handed @ [queued_msg m]) = Some (ret', w'', handed') \<and> P w'' handed' \<and>
        ooo_queue_ok env w'' \<and> (ret' < 0 \<or> ret' = 0 \<and> (marked_for_close (circuits w'' circ) \<or> \<not> has_conflux (circuits w'' circ) \<or>
        pq_list (ooo_q (cfx w'')) = [] \<or> seq (pq_list (ooo_q (cfx w'')) ! 0) \<noteq> last_seq_delivered (cfx w'') + 1))"
      using P ok by (rule less.hyps)
    then show ?thesis using P ok by (cases "ret < 0") (simp_all add: unfold Some(1) r)
  qed
qed

text \<open>The branches of \<^verbatim>\<open>conflux_process_relay_msg\<close>: the circuit is closed, the message is in order, or it waits.\<close>

lemma process_relay_msg_cases:
  assumes "conflux_process_relay_msg env w c hint m addr = Some (in_order, w2)" and "conflux_get_leg w c = Some p"
    and "w1 = set_leg p (\<lambda>l. l\<lparr> last_seq_recv := last_seq_recv l + 1 \<rparr>) w"
  obtains (Close) reason w3 where "\<not> in_order" "w3 = w \<or> w3 = w1" "w2 = circuit_mark_for_close c reason w3"
  | (In_Order) "in_order" "last_seq_recv (leg_at w1 p) = last_seq_delivered (cfx w) + 1"
      "w2 = w1\<lparr> cfx := (cfx w)\<lparr> last_seq_delivered := last_seq_delivered (cfx w) + 1 \<rparr> \<rparr>"
  | (Queue) "\<not> in_order" "last_seq_recv (leg_at w1 p) \<noteq> last_seq_delivered (cfx w) + 1"
      "ooo_q_alloc_cost (cfx w) < ucast (max_ooo_queue_bytes env)" "unat (msg_length m) \<le> RELAY_PAYLOAD_SIZE_MAX"
      "w2 = conflux_queue_msg w1 \<lparr> msg_addr = addr, seq = last_seq_recv (leg_at w1 p), queued_msg = m \<rparr>"
proof -
  have "cfx w1 = cfx w" using assms(3) by (simp add: set_leg_def)
  then show thesis using assms(1) Close In_Order Queue
    unfolding conflux_process_relay_msg_def assms(2) option.case Let_def assms(3) [symmetric]
    by (auto simp: not_le split: if_splits)
qed

lemma process_relay_msg_total:
  assumes "unat (msg_length m) \<le> RELAY_PAYLOAD_SIZE_MAX"
  shows "conflux_process_relay_msg env w c hint m addr \<noteq> None"
  using assms by (cases "conflux_get_leg w c") (auto simp: conflux_process_relay_msg_def Let_def)

lemma mark_cfx [simp]: "cfx (circuit_mark_for_close c r w) = cfx w"
  by (simp add: circuit_mark_for_close_def)

lemma process_relay_msg_queue_ok:
  assumes "ooo_queue_ok env w" and "addr \<notin> msg_addr ` set (pq_list (ooo_q (cfx w)))"
    and "conflux_process_relay_msg env w c hint m addr = Some (in_order, w')"
  shows "ooo_queue_ok env w'"
proof (cases "conflux_get_leg w c")
  case None
  then show ?thesis using assms by (auto simp: conflux_process_relay_msg_def ooo_queue_ok_def)
next
  case (Some p)
  define w1 where "w1 = set_leg p (\<lambda>l. l\<lparr> last_seq_recv := last_seq_recv l + 1 \<rparr>) w"
  have w1: "cfx w1 = cfx w" by (simp add: w1_def set_leg_def)
  then have ok1: "ooo_queue_ok env w1" using assms(1) by (simp add: ooo_queue_ok_def)
  from assms(3) Some w1_def show ?thesis
  proof (cases rule: process_relay_msg_cases)
    case (Close reason w3)
    then show ?thesis using assms(1) w1 by (auto simp: ooo_queue_ok_def)
  next
    case In_Order
    then show ?thesis using assms(1) by (simp add: ooo_queue_ok_def)
  next
    case Queue
    then show ?thesis using conflux_queue_msg_ok(1) [OF ok1] assms(2) w1 by simp
  qed
qed

lemma process_switch_queue_ok:
  "ooo_queue_ok env w \<Longrightarrow> conflux_process_switch_command env' w c hint m = (ret, w') \<Longrightarrow> ooo_queue_ok env w'"
  by (auto simp: conflux_process_switch_command_def set_leg_def ooo_queue_ok_def split: option.splits if_splits)

subsection \<open>An example: a set with two legs\<close>

definition demo_cc :: congestion_control where
  "demo_cc = \<lparr> cwnd = 100, inflight = 0, in_slow_start = True, sendme_inc = 31 \<rparr>"

definition demo_circuit :: "nat \<Rightarrow> circuit" where
  "demo_circuit c = \<lparr> CIRCUIT_IS_ORIGIN = True, marked_for_close = False, circuit_blocked_on_n_chan = False,
     circuit_blocked_on_p_chan = False, has_n_chan = True, has_conflux = (c = 1 \<or> c = 2), last_hop = 7,
     hop_ccontrol = Some demo_cc, ccontrol = None \<rparr>"

definition demo_side :: cfx_world where
  "demo_side = \<lparr> cfx = \<lparr> alg = CONFLUX_ALG_LOWRTT, legs = [10, 20], ooo_q = \<lparr> pq_list = [], pq_idx = (\<lambda>_. -1) \<rparr>,
       ooo_q_alloc_cost = 0, last_seq_delivered = 0, cells_until_switch = 0, curr_leg = None, prev_leg = None,
       in_full_teardown = False \<rparr>,
     leg_at = (\<lambda>p. \<lparr> last_seq_recv = 0, last_seq_sent = 0, circ_rtts_usec = (if p = 10 then 5 else 7),
       linked_sent_usec = 0, leg_circ = (if p = 10 then 1 else 2) \<rparr>),
     circuits = demo_circuit, total_ooo_q_bytes = 0, closed = [], cell_queue = (\<lambda>_. []), sent_log = [] \<rparr>"

definition demo_msg :: "byte \<Rightarrow> relay_msg" where
  "demo_msg b = \<lparr> command = RELAY_COMMAND_DATA, msg_length = 1, stream_id = 1, is_relay_early = False, body = [b] \<rparr>"

definition demo_conflux_env :: conflux_env where
  "demo_conflux_env = \<lparr> congestion_control_enabled = True, ConfluxEnabled = -1, conflux_enabled = True, cfx_drain_pct = 0,
     max_ooo_queue_bytes = 10000 \<rparr>"

lemma demo_handler: "keeps_receiver (\<lambda>w c m. (0, w))"
  by (simp add: keeps_receiver_def same_receiver_def)

subsection \<open>Properties\<close>

text \<open>C37: Whatever a peer sends, on whatever circuit and from whatever hop, the receiving code returns: no assertion
  fails and the loop over the queue ends, for any handler that leaves the queue alone. It leaves a queue whose heap order
  and recorded cost are right, and whose cost exceeds the limit by less than one message.\<close>

theorem conflux_queue_bounded:
  assumes "keeps_receiver process" and "ooo_queue_ok env w" and "addr \<notin> msg_addr ` set (pq_list (ooo_q (cfx w)))"
    and "unat (msg_length msg) \<le> RELAY_PAYLOAD_SIZE_MAX"
  shows "\<exists>ret w' handed. connection_edge_process_relay_cell env process w c hint msg addr = Some (ret, w', handed) \<and>
    smartlist_pqueue_assert_ok conflux_queue_cmp (ooo_q (cfx w')) = Some () \<and>
    unat (ooo_q_alloc_cost (cfx w')) = sum_list (map (unat \<circ> conflux_msg_alloc_cost) (pq_list (ooo_q (cfx w')))) \<and>
    unat (ooo_q_alloc_cost (cfx w')) < unat (max_ooo_queue_bytes env) + 538 \<and> ooo_queue_ok env w'"
proof -
  have "\<exists>ret w' handed. connection_edge_process_relay_cell env process w c hint msg addr = Some (ret, w', handed) \<and> ooo_queue_ok env w'"
  proof (cases "has_conflux (circuits w c) \<and> conflux_should_multiplex (command msg)")
    case True
    obtain in_order w2 where r: "conflux_process_relay_msg env w c hint msg addr = Some (in_order, w2)"
      using process_relay_msg_total [OF assms(4)] by fast
    note ok2 = process_relay_msg_queue_ok [OF assms(2,3) r]
    obtain ret w3 where r3: "process w2 c msg = (ret, w3)" by (cases "process w2 c msg")
    have ok3: "ooo_queue_ok env w3" by (rule same_receiver_queue_ok [OF keeps_receiverD [OF assms(1) r3] ok2])
    have "\<exists>ret w' handed. conflux_drain process w3 c [msg] = Some (ret, w', handed) \<and> ooo_queue_ok env w'"
      using conflux_drain_invariant [where P = "\<lambda>_ _. True", OF assms(1) _ ok3] by blast
    then show ?thesis using True r r3 ok2 ok3
      by (cases "in_order"; cases "ret < 0") (auto simp: connection_edge_process_relay_cell_def)
  next
    case False
    obtain ret w' where r: "(if command msg = RELAY_COMMAND_CONFLUX_SWITCH
        then conflux_process_switch_command env w c hint msg else process w c msg) = (ret, w')" by fastforce
    have "ooo_queue_ok env w'"
      using r process_switch_queue_ok [OF assms(2)] same_receiver_queue_ok [OF keeps_receiverD [OF assms(1)] assms(2)] by (auto split: if_splits)
    then show ?thesis using False r by (auto simp: connection_edge_process_relay_cell_def Let_def)
  qed
  then show ?thesis by (auto simp: ooo_queue_ok_def RELAY_PAYLOAD_SIZE_MAX_def CONFLUX_MSG_SIZES_def unat_alloc_cost o_def)
qed

theorem conflux_queue_bounded_witness:
  "\<exists>ret w' handed. connection_edge_process_relay_cell demo_conflux_env (\<lambda>w c m. (0, w)) demo_side 1 (Some 7) (demo_msg 1) 0 =
      Some (ret, w', handed) \<and> unat (ooo_q_alloc_cost (cfx w')) < 10000 + 538"
proof -
  have "ooo_queue_ok demo_conflux_env demo_side"
    by (simp add: ooo_queue_ok_def demo_side_def demo_conflux_env_def smartlist_pqueue_assert_ok_def)
  then show ?thesis
    using conflux_queue_bounded [OF demo_handler, of demo_conflux_env demo_side 0 "demo_msg 1" 1 "Some 7"]
    by (auto simp: demo_side_def demo_msg_def demo_conflux_env_def RELAY_PAYLOAD_SIZE_MAX_def)
qed

subsection \<open>The choice of a leg\<close>

definition ready_leg :: "cfx_world \<Rightarrow> nat \<Rightarrow> bool" where
  "ready_leg w leg \<longleftrightarrow> circuit_ready_to_send w (leg_circ (leg_at w leg)) = Some True \<and> circ_rtts_usec (leg_at w leg) \<noteq> 0"

lemma lowrtt_loop_min:
  assumes "\<And>leg. leg \<in> set ls \<Longrightarrow> circuit_ccontrol (circuits w (leg_circ (leg_at w leg))) \<noteq> None"
  shows "\<exists>m r. lowrtt_loop w ls best = Some (m, r) \<and> m \<le> fst best \<and>
    ((m, r) = best \<or> (\<exists>leg \<in> set ls. r = Some leg \<and> ready_leg w leg \<and> m = circ_rtts_usec (leg_at w leg))) \<and>
    (\<forall>leg \<in> set ls. ready_leg w leg \<longrightarrow> m \<le> circ_rtts_usec (leg_at w leg))"
  using assms
proof (induction ls arbitrary: best)
  case Nil
  then show ?case by (cases best) simp
next
  case (Cons l ls)
  obtain b where b: "circuit_ready_to_send w (leg_circ (leg_at w l)) = Some b"
    using Cons.prems [of l] by (auto simp: circuit_ready_to_send_def Let_def)
  let ?best = "if b then min_rtt_step w best l else best"
  have IH: "\<exists>m r. lowrtt_loop w ls ?best = Some (m, r) \<and> m \<le> fst ?best \<and>
    ((m, r) = ?best \<or> (\<exists>leg \<in> set ls. r = Some leg \<and> ready_leg w leg \<and> m = circ_rtts_usec (leg_at w leg))) \<and>
    (\<forall>leg \<in> set ls. ready_leg w leg \<longrightarrow> m \<le> circ_rtts_usec (leg_at w leg))"
    using Cons.prems by (intro Cons.IH) simp
  have "fst ?best \<le> fst best" "ready_leg w l \<longrightarrow> fst ?best \<le> circ_rtts_usec (leg_at w l)"
    "?best = best \<or> ready_leg w l \<and> ?best = (circ_rtts_usec (leg_at w l), Some l)"
    using b by (auto simp: min_rtt_step_def ready_leg_def)
  then show ?case using IH b by (auto intro: order_trans)
qed

text \<open>The low latency scheduler picks a leg that can send, and no leg that can send has a smaller measured
  round trip; it picks none only if no such leg has a measured round trip below the largest 64-bit number.\<close>

theorem conflux_lowrtt_optimal:
  assumes "legs (cfx w) \<noteq> []"
    and "\<And>leg. leg \<in> set (legs (cfx w)) \<Longrightarrow> circuit_ccontrol (circuits w (leg_circ (leg_at w leg))) \<noteq> None"
  shows "\<exists>r. conflux_decide_circ_lowrtt w = Some r \<and>
    (case r of None \<Rightarrow> \<forall>leg \<in> set (legs (cfx w)). ready_leg w leg \<longrightarrow> circ_rtts_usec (leg_at w leg) = - 1
     | Some c \<Rightarrow> \<exists>leg \<in> set (legs (cfx w)). leg_circ (leg_at w leg) = c \<and> ready_leg w leg \<and>
         (\<forall>leg' \<in> set (legs (cfx w)). ready_leg w leg' \<longrightarrow> circ_rtts_usec (leg_at w leg) \<le> circ_rtts_usec (leg_at w leg')))"
proof -
  obtain m r where r: "lowrtt_loop w (legs (cfx w)) (- 1, None) = Some (m, r)"
      "(m, r) = (- 1, None) \<or> (\<exists>leg \<in> set (legs (cfx w)). r = Some leg \<and> ready_leg w leg \<and> m = circ_rtts_usec (leg_at w leg))"
      "\<forall>leg \<in> set (legs (cfx w)). ready_leg w leg \<longrightarrow> m \<le> circ_rtts_usec (leg_at w leg)"
    using lowrtt_loop_min [OF assms(2), where best = "(- 1, None)"] by blast
  then show ?thesis using assms(1) by (auto simp: conflux_decide_circ_lowrtt_def word_order.extremum_unique)
qed

text \<open>Beyond its first choice the scheduler \<^verbatim>\<open>conflux_decide_circ_cwndrtt\<close> takes the last leg that has room, not the one
  with the lowest round trip: of the legs with the round trips 20, 30 and 40, the first of which is
  blocked, it takes the one with 40.\<close>

definition demo_three_legs :: cfx_world where
  "demo_three_legs = demo_side\<lparr> cfx := (cfx demo_side)\<lparr> alg := CONFLUX_ALG_CWNDRTT, legs := [20, 30, 40] \<rparr>,
     leg_at := (\<lambda>p. \<lparr> last_seq_recv = 0, last_seq_sent = 0, circ_rtts_usec = of_nat p, linked_sent_usec = 0, leg_circ = p \<rparr>),
     circuits := (\<lambda>c. (demo_circuit c)\<lparr> circuit_blocked_on_n_chan := (c = 20) \<rparr>) \<rparr>"

lemma cwndrtt_takes_last: "conflux_decide_circ_cwndrtt demo_three_legs = Some (Some 40)"
  by code_simp

end
