(* ===== verification/Tor_Conflux_Link.thy ===== *)
theory Tor_Conflux_Link
  imports Tor_Conflux "HOL-Library.Sublist"
begin

text \<open>
  Two ends of a conflux set and the circuits between them. One end sends with
  \<^verbatim>\<open>relay_send_command_from_edge\<close>, the other one receives with \<^verbatim>\<open>connection_edge_process_relay_cell\<close>; each
  circuit delivers its cells in order, but nothing is known about the order between
  circuits. The theory shows that the messages reach the streams in the order in which they were sent.
\<close>

subsection \<open>The system\<close>

record conflux_link =
  sender :: cfx_world
  receiver :: cfx_world
  delivered :: "relay_msg list"

text \<open>The congestion state of a circuit, which changes at any time.\<close>

record congestion =
  new_hop_ccontrol :: "congestion_control option"
  new_ccontrol :: "congestion_control option"
  new_blocked_n :: bool
  new_blocked_p :: bool

definition set_congestion :: "congestion \<Rightarrow> circuit \<Rightarrow> circuit" where
  "set_congestion g c = c\<lparr> hop_ccontrol := new_hop_ccontrol g, ccontrol := new_ccontrol g,
     circuit_blocked_on_n_chan := new_blocked_n g, circuit_blocked_on_p_chan := new_blocked_p g \<rparr>"

text \<open>
  What may happen next: a message is sent, with the given circuit as the one it was meant for and the
  given index into the outcomes of the code that packages cells; the oldest cell of a circuit arrives from the
  given hop, and the next allocation returns the given address; the sender measures a round trip; the
  congestion state of the sender's circuits changes.
\<close>

datatype action = Send nat nat relay_msg | Receive nat "nat option" nat | Rtt nat "64 word" | Congestion "nat \<Rightarrow> congestion"

text \<open>A run ends when either end closes a circuit of the set.\<close>

fun link_step :: "conflux_env \<Rightarrow> (nat \<Rightarrow> relay_env) \<Rightarrow> ordered_handler \<Rightarrow> action \<Rightarrow> conflux_link \<Rightarrow> conflux_link option" where
  "link_step env renv process (Send i orig_circ msg) l = do {
     tor_assert (closed (sender l) = [] \<and> closed (receiver l) = []);
     tor_assert (has_conflux (circuits (sender l) orig_circ) \<and> command msg \<noteq> RELAY_COMMAND_CONFLUX_SWITCH);
     (ret, w) \<leftarrow> relay_send_command_from_edge env (renv i) (sender l) orig_circ msg;
     Some (l\<lparr> sender := w \<rparr>) }"
| "link_step env renv process (Receive circ hint addr) l = do {
     tor_assert (closed (sender l) = [] \<and> closed (receiver l) = []);
     tor_assert (has_conflux (circuits (receiver l) circ) \<and> cell_queue (sender l) circ \<noteq> [] \<and>
       addr \<notin> msg_addr ` set (pq_list (ooo_q (cfx (receiver l)))));
     let msg = hd (cell_queue (sender l) circ);
     (ret, w, handed) \<leftarrow> connection_edge_process_relay_cell env process (receiver l) circ hint msg addr;
     Some (l\<lparr> sender := (sender l)\<lparr> cell_queue := (cell_queue (sender l))(circ := tl (cell_queue (sender l) circ)) \<rparr>,
              receiver := (if ret < 0 then circuit_mark_for_close circ END_CIRC_REASON_TORPROTOCOL w else w),
              delivered := delivered l @ handed \<rparr>) }"
| "link_step env renv process (Rtt circ rtt) l = do {
     tor_assert (closed (sender l) = [] \<and> closed (receiver l) = []);
     Some (l\<lparr> sender := conflux_update_rtt (sender l) circ rtt \<rparr>) }"
| "link_step env renv process (Congestion f) l = do {
     tor_assert (closed (sender l) = [] \<and> closed (receiver l) = []);
     Some (l\<lparr> sender := (sender l)\<lparr> circuits := (\<lambda>c. set_congestion (f c) (circuits (sender l) c)) \<rparr> \<rparr>) }"

primrec link_run :: "conflux_env \<Rightarrow> (nat \<Rightarrow> relay_env) \<Rightarrow> ordered_handler \<Rightarrow> action list \<Rightarrow> conflux_link \<Rightarrow> conflux_link option" where
  "link_run env renv process [] l = Some l"
| "link_run env renv process (a # as) l = Option.bind (link_step env renv process a l) (link_run env renv process as)"

text \<open>The multiplexed messages that the sender has put on its circuits, in order.\<close>

definition sent :: "conflux_link \<Rightarrow> relay_msg list" where
  "sent l = filter (\<lambda>m. conflux_should_multiplex (command m)) (sent_log (sender l))"

definition leg_circs :: "cfx_world \<Rightarrow> nat list" where
  "leg_circs w = map (\<lambda>p. leg_circ (leg_at w p)) (legs (cfx w))"

text \<open>A set whose legs are linked and unused.\<close>

definition fresh_side :: "cfx_world \<Rightarrow> bool" where
  "fresh_side w \<longleftrightarrow> distinct (leg_circs w) \<and> legs (cfx w) \<noteq> [] \<and> closed w = [] \<and>
    (\<forall>c. \<not> marked_for_close (circuits w c) \<and> has_conflux (circuits w c) = (c \<in> set (leg_circs w)) \<and> cell_queue w c = []) \<and>
    (\<forall>p \<in> set (legs (cfx w)). last_seq_sent (leg_at w p) = 0 \<and> last_seq_recv (leg_at w p) = 0) \<and>
    pq_list (ooo_q (cfx w)) = [] \<and> ooo_q_alloc_cost (cfx w) = 0 \<and> last_seq_delivered (cfx w) = 0 \<and>
    curr_leg (cfx w) = None \<and> sent_log w = []"

definition fresh_link :: "conflux_link \<Rightarrow> bool" where
  "fresh_link l \<longleftrightarrow> fresh_side (sender l) \<and> fresh_side (receiver l) \<and>
    set (leg_circs (sender l)) = set (leg_circs (receiver l)) \<and> delivered l = []"

text \<open>A SWITCH is never dropped from a circuit that stays open.\<close>

definition relay_env_ok :: "relay_env \<Rightarrow> bool" where
  "relay_env_ok renv \<longleftrightarrow>
    (\<forall>c m. command m = RELAY_COMMAND_CONFLUX_SWITCH \<longrightarrow> circuit_package_relay_cell renv c m \<noteq> Package_Dropped False)"

subsection \<open>Sequence numbers of the cells on a circuit\<close>

text \<open>The numbers that the receiver will give to the cells of a circuit when the last one had the number
  \<open>r\<close>, and the number it will have reached.\<close>

primrec walk :: "64 word \<Rightarrow> relay_msg list \<Rightarrow> (64 word \<times> relay_msg) list" where
  "walk r [] = []"
| "walk r (m # ms) =
    (if command m = RELAY_COMMAND_CONFLUX_SWITCH then walk (r + ucast (conflux_cell_parse_switch m)) ms
     else if conflux_should_multiplex (command m) then (r + 1, m) # walk (r + 1) ms else walk r ms)"

primrec walk_end :: "64 word \<Rightarrow> relay_msg list \<Rightarrow> 64 word" where
  "walk_end r [] = r"
| "walk_end r (m # ms) =
    (if command m = RELAY_COMMAND_CONFLUX_SWITCH then walk_end (r + ucast (conflux_cell_parse_switch m)) ms
     else if conflux_should_multiplex (command m) then walk_end (r + 1) ms else walk_end r ms)"

abbreviation multiplexed :: "relay_msg \<Rightarrow> bool" where
  "multiplexed m \<equiv> conflux_should_multiplex (command m)"

lemma multiplexed_not_switch [simp]: "multiplexed m \<Longrightarrow> command m \<noteq> RELAY_COMMAND_CONFLUX_SWITCH"
  by (auto simp: conflux_should_multiplex_def)

lemma walk_append: "walk r (xs @ ys) = walk r xs @ walk (walk_end r xs) ys"
  by (induction xs arbitrary: r) simp_all

lemma walk_end_append: "walk_end r (xs @ ys) = walk_end (walk_end r xs) ys"
  by (induction xs arbitrary: r) simp_all

lemma walk_end_multiplexed: "(\<forall>m \<in> set ms. multiplexed m) \<Longrightarrow> walk_end r ms = r + of_nat (length ms)"
  by (induction ms arbitrary: r) (auto simp: ac_simps)

lemma in_walk_multiplexed:
  "(\<forall>m \<in> set ms. multiplexed m) \<Longrightarrow> (s, m) \<in> set (walk r ms) \<Longrightarrow> \<exists>i < length ms. s = r + of_nat (Suc i) \<and> m = ms ! i"
proof (induction ms arbitrary: r)
  case (Cons x xs)
  then consider "s = r + 1" "m = x" | "(s, m) \<in> set (walk (r + 1) xs)" by auto
  then show ?case
  proof cases
    case 2
    then obtain i where "i < length xs" "s = r + 1 + of_nat (Suc i)" "m = xs ! i"
      using Cons.IH [of "r + 1"] Cons.prems(1) by auto
    then show ?thesis by (intro exI [of _ "Suc i"]) (simp add: ac_simps)
  qed (intro exI [of _ 0], simp)
qed simp

text \<open>Small numbers do not wrap.\<close>

lemma of_nat64_eq_iff: "i < 2 ^ 64 \<Longrightarrow> j < 2 ^ 64 \<Longrightarrow> (of_nat i :: 64 word) = of_nat j \<longleftrightarrow> i = j"
  by (simp add: word_unat_eq_iff unat_of_nat)

lemma of_nat64_le_iff: "i < 2 ^ 64 \<Longrightarrow> j < 2 ^ 64 \<Longrightarrow> (of_nat i :: 64 word) \<le> of_nat j \<longleftrightarrow> i \<le> j"
  by (simp add: word_le_nat_alt unat_of_nat)

lemma unat_of_nat64_Suc:
  assumes "n + 1 < 2 ^ 64"
  shows "unat (of_nat n + 1 :: 64 word) = n + 1"
proof -
  have "(of_nat n + 1 :: 64 word) = of_nat (n + 1)" by simp
  then show ?thesis using assms by (simp only: unat_of_nat) simp
qed

text \<open>If the message that is due is among those that were not delivered, it is the first of them.\<close>

lemma due_is_first:
  assumes "mset (walk (of_nat d) xs) = add_mset (of_nat d + 1, m) Y" and "d + length xs < 2 ^ 64" and "\<forall>m \<in> set xs. multiplexed m"
  obtains ys where "xs = m # ys" and "mset (walk (of_nat d + 1) ys) = Y"
proof -
  have "(of_nat d + 1, m) \<in> set (walk (of_nat d) xs)" using assms(1) by (metis set_mset_mset union_single_eq_member)
  then obtain i where i: "i < length xs" "of_nat d + 1 = (of_nat d :: 64 word) + of_nat (Suc i)" "m = xs ! i"
    using in_walk_multiplexed [OF assms(3)] by blast
  then have "(of_nat (d + 1) :: 64 word) = of_nat (d + Suc i)" by simp
  then have "i = 0" using i(1) assms(2) by (subst (asm) of_nat64_eq_iff) simp_all
  then obtain ys where "xs = m # ys" using i by (cases xs) auto
  then show thesis using assms(1,3) by (intro that) auto
qed

subsection \<open>Legs\<close>

definition recv_seq :: "cfx_world \<Rightarrow> nat \<Rightarrow> 64 word" where
  "recv_seq w c = (case conflux_get_leg w c of None \<Rightarrow> 0 | Some p \<Rightarrow> last_seq_recv (leg_at w p))"

definition sent_seq :: "cfx_world \<Rightarrow> nat \<Rightarrow> 64 word" where
  "sent_seq w c = (case conflux_get_leg w c of None \<Rightarrow> 0 | Some p \<Rightarrow> last_seq_sent (leg_at w p))"

lemma get_leg_cong:
  "legs (cfx w') = legs (cfx w) \<Longrightarrow> (\<And>p. leg_circ (leg_at w' p) = leg_circ (leg_at w p)) \<Longrightarrow> conflux_get_leg w' c = conflux_get_leg w c"
  by (simp add: conflux_get_leg_def)

lemma leg_circs_cong:
  "legs (cfx w') = legs (cfx w) \<Longrightarrow> (\<And>p. leg_circ (leg_at w' p) = leg_circ (leg_at w p)) \<Longrightarrow> leg_circs w' = leg_circs w"
  by (simp add: leg_circs_def)

lemma recv_seq_cong: "legs (cfx w') = legs (cfx w) \<Longrightarrow> leg_at w' = leg_at w \<Longrightarrow> recv_seq w' = recv_seq w"
  by (rule ext) (simp add: recv_seq_def conflux_get_leg_def split: option.split)

lemma sent_seq_cong: "legs (cfx w') = legs (cfx w) \<Longrightarrow> leg_at w' = leg_at w \<Longrightarrow> sent_seq w' = sent_seq w"
  by (rule ext) (simp add: sent_seq_def conflux_get_leg_def split: option.split)

lemma get_leg_SomeD: "conflux_get_leg w c = Some p \<Longrightarrow> p \<in> set (legs (cfx w)) \<and> leg_circ (leg_at w p) = c"
  by (auto simp: conflux_get_leg_def find_Some_iff)

lemma get_leg_Some: "c \<in> set (leg_circs w) \<Longrightarrow> \<exists>p. conflux_get_leg w c = Some p"
  by (auto simp: conflux_get_leg_def leg_circs_def find_None_iff simp flip: not_None_eq)

lemma get_leg_of_circ:
  assumes "distinct (leg_circs w)" and "p \<in> set (legs (cfx w))"
  shows "conflux_get_leg w (leg_circ (leg_at w p)) = Some p"
proof -
  obtain q where q: "conflux_get_leg w (leg_circ (leg_at w p)) = Some q"
    using get_leg_Some [of "leg_circ (leg_at w p)" w] assms(2) by (auto simp: leg_circs_def)
  then have "q = p" using get_leg_SomeD [OF q] assms by (auto simp: leg_circs_def distinct_map inj_on_def)
  then show ?thesis using q by simp
qed

lemma get_leg_set_leg: "(\<And>l. leg_circ (f l) = leg_circ l) \<Longrightarrow> conflux_get_leg (set_leg p f w) c = conflux_get_leg w c"
  by (rule get_leg_cong) (simp_all add: set_leg_def)

lemma seq_set_leg:
  assumes "\<And>l. leg_circ (f l) = leg_circ l" and "conflux_get_leg w c = Some p"
  shows "recv_seq (set_leg p f w) c' = (if c' = c then last_seq_recv (f (leg_at w p)) else recv_seq w c')"
    and "sent_seq (set_leg p f w) c' = (if c' = c then last_seq_sent (f (leg_at w p)) else sent_seq w c')"
proof -
  have "p \<noteq> q" if "conflux_get_leg w c' = Some q" "c' \<noteq> c" for q
    using get_leg_SomeD [OF that(1)] get_leg_SomeD [OF assms(2)] that(2) by auto
  then show "recv_seq (set_leg p f w) c' = (if c' = c then last_seq_recv (f (leg_at w p)) else recv_seq w c')"
    "sent_seq (set_leg p f w) c' = (if c' = c then last_seq_sent (f (leg_at w p)) else sent_seq w c')"
    using assms(2) unfolding recv_seq_def sent_seq_def get_leg_set_leg [of f p w, OF assms(1)]
    by (auto simp: set_leg_def split: option.splits)
qed

subsection \<open>The receiving end\<close>

text \<open>The receiver has handed over the messages \<open>del\<close>, a prefix of those that were sent (\<open>S\<close>); the
  others are in its queue or, with the numbers they will get, still to come (\<open>X\<close>).\<close>

definition recv_inv :: "relay_msg list \<Rightarrow> (64 word \<times> relay_msg) multiset \<Rightarrow> relay_msg list \<Rightarrow> cfx_world \<Rightarrow> bool" where
  "recv_inv S X del w \<longleftrightarrow> last_seq_delivered (cfx w) = of_nat (length del) \<and>
    (\<exists>rest. S = del @ rest \<and> mset (walk (of_nat (length del)) rest) =
      image_mset (\<lambda>m. (seq m, queued_msg m)) (mset (pq_list (ooo_q (cfx w)))) + X)"

definition sent_ok :: "relay_msg list \<Rightarrow> bool" where
  "sent_ok S \<longleftrightarrow> length S < 2 ^ 64 \<and> (\<forall>m \<in> set S. multiplexed m)"

lemma recv_inv_deliver:
  assumes "mset (walk (of_nat (length del)) rest) = add_mset (of_nat (length del) + 1, m) Y" and "sent_ok (del @ rest)"
  shows "\<exists>rest'. del @ rest = (del @ [m]) @ rest' \<and> mset (walk (of_nat (length (del @ [m]))) rest') = Y"
proof -
  have "length del + length rest < 2 ^ 64" "\<forall>m \<in> set rest. multiplexed m" using assms(2) by (auto simp: sent_ok_def)
  then obtain ys where "rest = m # ys" "mset (walk (of_nat (length del) + 1) ys) = Y" by (rule due_is_first [OF assms(1)])
  then show ?thesis by (intro exI [of _ ys]) (simp add: add.commute)
qed

lemma recv_inv_in_order:
  assumes "recv_inv S (add_mset (last_seq_delivered (cfx w) + 1, m) X) del w" and "sent_ok S"
    and "last_seq_delivered (cfx w') = last_seq_delivered (cfx w) + 1" and "ooo_q (cfx w') = ooo_q (cfx w)"
  shows "recv_inv S X (del @ [m]) w'"
proof -
  let ?Q = "image_mset (\<lambda>m. (seq m, queued_msg m)) (mset (pq_list (ooo_q (cfx w))))"
  obtain rest where rest: "S = del @ rest" "mset (walk (of_nat (length del)) rest) = add_mset (of_nat (length del) + 1, m) (?Q + X)"
    using assms(1) by (auto simp: recv_inv_def)
  show ?thesis using recv_inv_deliver [OF rest(2)] assms rest(1) by (simp add: recv_inv_def add.commute)
qed

lemma recv_inv_dequeue:
  assumes "recv_inv S X del w" and "sent_ok S" and "seq m = last_seq_delivered (cfx w) + 1"
    and "mset (pq_list (ooo_q (cfx w))) = add_mset m (mset (pq_list q))" and "same_receiver (dequeued w m q) w'"
  shows "recv_inv S X (del @ [queued_msg m]) w'"
proof -
  let ?Q = "image_mset (\<lambda>m. (seq m, queued_msg m)) (mset (pq_list q))"
  have ld: "last_seq_delivered (cfx w) = of_nat (length del)" using assms(1) by (simp add: recv_inv_def)
  obtain rest where rest: "S = del @ rest"
      "mset (walk (of_nat (length del)) rest) = add_mset (of_nat (length del) + 1, queued_msg m) (?Q + X)"
    using assms(1,3,4) by (auto simp: recv_inv_def)
  have "ooo_q (cfx w') = q" "last_seq_delivered (cfx w') = of_nat (length (del @ [queued_msg m]))"
    using assms(5) ld by (simp_all add: same_receiver_def dequeued_def add.commute)
  then show ?thesis using recv_inv_deliver [OF rest(2)] assms(2) rest(1) by (simp add: recv_inv_def)
qed

lemma recv_inv_same: "recv_inv S X del w \<Longrightarrow> same_receiver w w' \<Longrightarrow> recv_inv S X del w'"
  by (simp add: recv_inv_def same_receiver_def)

definition queue_waits :: "cfx_world \<Rightarrow> bool" where
  "queue_waits w \<longleftrightarrow> (\<forall>m \<in> set (pq_list (ooo_q (cfx w))). seq m \<noteq> last_seq_delivered (cfx w) + 1)"

lemma queued_number:
  assumes "recv_inv S X del w" and "sent_ok S" and "m \<in> set (pq_list (ooo_q (cfx w)))"
  obtains i where "length del + Suc i < 2 ^ 64" and "seq m = of_nat (length del + Suc i)"
proof -
  obtain rest where rest: "S = del @ rest" "mset (walk (of_nat (length del)) rest) =
      image_mset (\<lambda>m. (seq m, queued_msg m)) (mset (pq_list (ooo_q (cfx w)))) + X"
    using assms(1) by (auto simp: recv_inv_def)
  have "(seq m, queued_msg m) \<in># mset (walk (of_nat (length del)) rest)" unfolding rest(2) using assms(3) by simp
  then have "(seq m, queued_msg m) \<in> set (walk (of_nat (length del)) rest)" by simp
  moreover have mx: "\<forall>m \<in> set rest. multiplexed m" and len: "length del + length rest < 2 ^ 64"
    using assms(2) rest(1) by (auto simp: sent_ok_def)
  ultimately obtain i where "i < length rest" "seq m = of_nat (length del) + of_nat (Suc i)"
    using in_walk_multiplexed [OF mx] by blast
  then show thesis using len by (intro that [of i]) simp_all
qed

lemma coming_number:
  assumes "recv_inv S (add_mset (s, m) X) del w" and "sent_ok S"
  shows "\<not> s \<le> last_seq_delivered (cfx w)"
proof -
  obtain rest where rest: "S = del @ rest" "mset (walk (of_nat (length del)) rest) =
      image_mset (\<lambda>m. (seq m, queued_msg m)) (mset (pq_list (ooo_q (cfx w)))) + add_mset (s, m) X"
    using assms(1) by (auto simp: recv_inv_def)
  have "(s, m) \<in># mset (walk (of_nat (length del)) rest)" unfolding rest(2) by simp
  then have walk: "(s, m) \<in> set (walk (of_nat (length del)) rest)" by simp
  have mx: "\<forall>m \<in> set rest. multiplexed m" and len: "length del + length rest < 2 ^ 64"
    using assms(2) rest(1) by (auto simp: sent_ok_def)
  obtain i where i: "i < length rest" "s = of_nat (length del) + of_nat (Suc i)"
    using in_walk_multiplexed [OF mx walk] by blast
  then have "s = of_nat (length del + Suc i)" "length del + Suc i < 2 ^ 64" using len by simp_all
  then show ?thesis using assms(1) of_nat64_le_iff [of "length del + Suc i" "length del"] by (simp add: recv_inv_def del: of_nat_Suc of_nat_add)
qed

lemma head_not_due:
  assumes "recv_inv S X del w" and "sent_ok S" and "ooo_queue_ok env w"
    and "pq_list (ooo_q (cfx w)) = [] \<or> seq (pq_list (ooo_q (cfx w)) ! 0) \<noteq> last_seq_delivered (cfx w) + 1"
  shows "queue_waits w"
  unfolding queue_waits_def
proof (intro ballI notI)
  let ?q = "pq_list (ooo_q (cfx w))"
  fix m
  assume m: "m \<in> set ?q" "seq m = last_seq_delivered (cfx w) + 1"
  have ld: "last_seq_delivered (cfx w) = of_nat (length del)" using assms(1) by (simp add: recv_inv_def)
  have ne: "?q \<noteq> []" using m(1) by auto
  obtain i where i: "length del + Suc i < 2 ^ 64" "seq (?q ! 0) = of_nat (length del + Suc i)"
    using queued_number [OF assms(1,2), of "?q ! 0"] ne by auto
  have top: "seq (?q ! 0) \<le> seq m"
    using ooo_queue_ok_pq(1) [OF assms(3)] m(1) is_heap_root [of seq ?q] by (auto simp: oooq.pq_ok_def in_set_conv_nth)
  have "seq m = of_nat (length del + 1)" using m(2) ld by (simp add: add.commute)
  then have "length del + Suc i \<le> length del + 1" using top i(1) by (simp add: i(2) of_nat64_le_iff del: of_nat_add of_nat_Suc)
  then show False using assms(4) ne i(2) ld by (simp add: add.commute)
qed

text \<open>The state of the receiving end while the circuits in \<open>C\<close> carry the cells \<open>chan\<close>.\<close>

definition receiver_ok ::
  "conflux_env \<Rightarrow> nat set \<Rightarrow> relay_msg list \<Rightarrow> (nat \<Rightarrow> relay_msg list) \<Rightarrow> relay_msg list \<Rightarrow> cfx_world \<Rightarrow> bool" where
  "receiver_ok env C S chan del w \<longleftrightarrow> ooo_queue_ok env w \<and> distinct (leg_circs w) \<and> set (leg_circs w) = C \<and>
    (\<forall>c. has_conflux (circuits w c) \<longleftrightarrow> c \<in> C) \<and> queue_waits w \<and>
    recv_inv S (\<Sum>c \<in> C. mset (walk (recv_seq w c) (chan c))) del w"

lemma sum_walk_update:
  assumes "finite C" and "c \<in> C" and "\<And>c'. c' \<noteq> c \<Longrightarrow> r' c' = r c'"
  shows "(\<Sum>c' \<in> C. mset (walk (r' c') ((chan(c := ms)) c'))) = mset (walk (r' c) ms) + (\<Sum>c' \<in> C - {c}. mset (walk (r c') (chan c')))"
proof -
  have "(\<Sum>c' \<in> C - {c}. mset (walk (r' c') ((chan(c := ms)) c'))) = (\<Sum>c' \<in> C - {c}. mset (walk (r c') (chan c')))"
    using assms(3) by (intro sum.cong) auto
  then show ?thesis using sum.remove [OF assms(1,2), of "\<lambda>c'. mset (walk (r' c') ((chan(c := ms)) c'))"] by simp
qed

lemma same_receiver_legs:
  assumes "same_receiver w w'"
  shows "leg_circs w' = leg_circs w" and "recv_seq w' c = recv_seq w c" and "conflux_get_leg w' c = conflux_get_leg w c"
  using leg_circs_cong [of w' w] get_leg_cong [of w' w] assms
  by (auto simp: same_receiver_def recv_seq_def split: option.splits)

lemma same_receiver_ok: "same_receiver w w' \<Longrightarrow> receiver_ok env C S chan del w \<Longrightarrow> receiver_ok env C S chan del w'"
  using recv_inv_same [of S _ del w w'] same_receiver_queue_ok [of w w' env]
  by (simp add: receiver_ok_def same_receiver_legs queue_waits_def) (simp add: same_receiver_def)

lemma receiver_cfx_cong:
  assumes "cfx w' = cfx w"
  shows "recv_inv S X del w' = recv_inv S X del w" and "ooo_queue_ok env w' = ooo_queue_ok env w" and "queue_waits w' = queue_waits w"
  using assms by (simp_all add: recv_inv_def ooo_queue_ok_def queue_waits_def)

lemma recv_inv_prefix: "recv_inv S X del w \<Longrightarrow> prefix del S"
  by (auto simp: recv_inv_def)

lemma mark_receiver [simp]:
  "cfx (circuit_mark_for_close c r w) = cfx w" "leg_at (circuit_mark_for_close c r w) = leg_at w"
  "sent_log (circuit_mark_for_close c r w) = sent_log w" "cell_queue (circuit_mark_for_close c r w) = cell_queue w"
  "has_conflux (circuits (circuit_mark_for_close c r w) c') = has_conflux (circuits w c')"
  by (simp_all add: circuit_mark_for_close_def)

lemma mark_closes: "marks_ok w \<Longrightarrow> closed (circuit_mark_for_close c r w) \<noteq> []"
  by (auto simp: circuit_mark_for_close_def marks_ok_def)

lemma mark_marks_ok: "marks_ok w \<Longrightarrow> marks_ok (circuit_mark_for_close c r w)"
  by (auto simp: circuit_mark_for_close_def marks_ok_def)

text \<open>What holds while messages are handed over: \<open>w\<close> is the state in which the message was counted.\<close>

definition handing ::
  "relay_msg list \<Rightarrow> (64 word \<times> relay_msg) multiset \<Rightarrow> relay_msg list \<Rightarrow> cfx_world \<Rightarrow> cfx_world \<Rightarrow> relay_msg list \<Rightarrow> bool" where
  "handing S X del w w' hs \<longleftrightarrow> recv_inv S X (del @ hs) w' \<and> leg_circs w' = leg_circs w \<and> recv_seq w' = recv_seq w \<and>
    (\<forall>c. has_conflux (circuits w' c) = has_conflux (circuits w c)) \<and> marks_ok w'"

lemma handing_same:
  assumes "handing S X del w w0 hs" and "same_receiver w0 w'"
  shows "handing S X del w w' hs"
  using assms recv_inv_same [of S X "del @ hs" w0 w'] same_receiver_legs [OF assms(2)]
  by (simp add: handing_def fun_eq_iff) (simp add: same_receiver_def)

lemma handing_dequeue:
  assumes "handing S X del w w0 hs" and "sent_ok S" and "seq x = last_seq_delivered (cfx w0) + 1"
    and "mset (pq_list (ooo_q (cfx w0))) = add_mset x (mset (pq_list q))" and "same_receiver (dequeued w0 x q) w'"
  shows "handing S X del w w' (hs @ [queued_msg x])"
proof -
  have "recv_inv S X (del @ (hs @ [queued_msg x])) w'"
    using recv_inv_dequeue [OF _ assms(2-5), of X "del @ hs"] assms(1) by (simp add: handing_def)
  moreover have "recv_seq (dequeued w0 x q) = recv_seq w0" by (rule recv_seq_cong) (simp_all add: dequeued_def)
  moreover have "leg_circs (dequeued w0 x q) = leg_circs w0" "circuits (dequeued w0 x q) = circuits w0"
    "marks_ok (dequeued w0 x q) = marks_ok w0"
    by (simp_all add: dequeued_def leg_circs_def marks_ok_def)
  ultimately show ?thesis using same_receiver_legs [OF assms(5)] assms(1,5)
    by (simp add: handing_def fun_eq_iff) (simp add: same_receiver_def)
qed

text \<open>Once the message that was due is counted, it and the messages behind it are handed over.\<close>

lemma hand_over:
  assumes keeps: "keeps_receiver process" and S: "sent_ok S" and P: "handing S X del w w2 [m]" and ok: "ooo_queue_ok env w2"
    and hc: "has_conflux (circuits w c)"
    and res: "(case process w2 c m of (ret, w3) \<Rightarrow> if ret < 0 then Some (ret, w3, [m]) else conflux_drain process w3 c [m]) =
      Some (ret, w', hs)"
  shows "handing S X del w w' hs \<and> ooo_queue_ok env w' \<and> (closed w' = [] \<and> ret \<ge> 0 \<longrightarrow> queue_waits w')"
proof -
  obtain ret3 w3 where r3: "process w2 c m = (ret3, w3)" by (cases "process w2 c m")
  have P3: "handing S X del w w3 [m]" "ooo_queue_ok env w3"
    using handing_same [OF P] same_receiver_queue_ok [OF _ ok] keeps_receiverD [OF keeps r3] by auto
  show ?thesis
  proof (cases "ret3 < 0")
    case False
    obtain ret4 w4 hs4 where d: "conflux_drain process w3 c [m] = Some (ret4, w4, hs4)" "handing S X del w w4 hs4" "ooo_queue_ok env w4"
      "ret4 < 0 \<or> ret4 = 0 \<and> (marked_for_close (circuits w4 c) \<or> \<not> has_conflux (circuits w4 c) \<or>
         pq_list (ooo_q (cfx w4)) = [] \<or> seq (pq_list (ooo_q (cfx w4)) ! 0) \<noteq> last_seq_delivered (cfx w4) + 1)"
      using conflux_drain_invariant [where P = "handing S X del w", OF keeps P3, of c] handing_dequeue [OF _ S] by blast
    have "queue_waits w4" if "closed w4 = []" "ret4 \<ge> 0"
    proof -
      have "\<not> marked_for_close (circuits w4 c)" "has_conflux (circuits w4 c)" using that(1) d(2) hc by (auto simp: handing_def marks_ok_def)
      then show ?thesis using d(4) that(2) head_not_due [OF _ S d(3), of X "del @ hs4"] d(2) by (auto simp: handing_def)
    qed
    then show ?thesis using d res r3 False by auto
  qed (use res r3 P3 in auto)
qed

text \<open>What the receiver will have counted on each circuit once everything has arrived.\<close>

definition same_ends :: "cfx_world \<Rightarrow> (nat \<Rightarrow> relay_msg list) \<Rightarrow> cfx_world \<Rightarrow> (nat \<Rightarrow> relay_msg list) \<Rightarrow> bool" where
  "same_ends w chan w' chan' \<longleftrightarrow> (\<forall>c. walk_end (recv_seq w' c) (chan' c) = walk_end (recv_seq w c) (chan c))"

text \<open>Counting a message on its leg.\<close>

lemma count_received:
  assumes inv: "receiver_ok env C S chan del w" and c: "c \<in> C" "chan c = m # ms" "multiplexed m" and p: "conflux_get_leg w c = Some p"
    and w1: "w1 = set_leg p (\<lambda>l. l\<lparr> last_seq_recv := last_seq_recv l + 1 \<rparr>) w"
  shows "recv_inv S (add_mset (last_seq_recv (leg_at w1 p), m) (\<Sum>c' \<in> C. mset (walk (recv_seq w1 c') ((chan(c := ms)) c')))) del w1 \<and>
    same_ends w chan w1 (chan(c := ms))"
proof -
  have fin: "finite C" using inv by (auto simp: receiver_ok_def)
  have seqs: "recv_seq w1 c' = (if c' = c then recv_seq w c + 1 else recv_seq w c')" for c'
    unfolding w1 using p by (simp add: seq_set_leg(1) [OF _ p]) (simp add: recv_seq_def)
  have recv: "last_seq_recv (leg_at w1 p) = recv_seq w c + 1" using p by (simp add: w1 set_leg_def recv_seq_def)
  have "(\<Sum>c' \<in> C. mset (walk (recv_seq w c') (chan c'))) =
      add_mset (recv_seq w c + 1, m) (\<Sum>c' \<in> C. mset (walk (recv_seq w1 c') ((chan(c := ms)) c')))"
    using sum_walk_update [OF fin c(1), of "recv_seq w1" "recv_seq w" chan ms] seqs
      sum.remove [OF fin c(1), of "\<lambda>c'. mset (walk (recv_seq w c') (chan c'))"] c(2,3) by simp
  moreover have "same_ends w chan w1 (chan(c := ms))" using seqs c(2,3) by (simp add: same_ends_def)
  ultimately show ?thesis using inv unfolding recv by (simp add: receiver_ok_def recv_inv_def) (simp add: w1 set_leg_def)
qed

text \<open>A multiplexed message arrives.\<close>

lemma receive_multiplexed:
  assumes keeps: "keeps_receiver process" and inv: "receiver_ok env C S chan del w" and S: "sent_ok S"
    and marks: "marks_ok w" and c: "c \<in> C" "chan c = m # ms" and m: "multiplexed m"
    and fresh: "addr \<notin> msg_addr ` set (pq_list (ooo_q (cfx w)))"
    and res: "connection_edge_process_relay_cell env process w c hint m addr = Some (ret, w', handed)"
  shows "prefix (del @ handed) S \<and> marks_ok w' \<and> (closed w' = [] \<and> ret \<ge> 0 \<longrightarrow> receiver_ok env C S (chan(c := ms)) (del @ handed) w' \<and>
    same_ends w chan w' (chan(c := ms)))"
proof -
  obtain p where p: "conflux_get_leg w c = Some p" using get_leg_Some [of c w] inv c by (auto simp: receiver_ok_def)
  define w1 where "w1 = set_leg p (\<lambda>l. l\<lparr> last_seq_recv := last_seq_recv l + 1 \<rparr>) w"
  define X where "X = (\<Sum>c' \<in> C. mset (walk (recv_seq w1 c') ((chan(c := ms)) c')))"
  have ri: "recv_inv S (add_mset (last_seq_recv (leg_at w1 p), m) X) del w1" and ends: "same_ends w chan w1 (chan(c := ms))"
    using count_received [OF inv c m p w1_def] by (simp_all add: X_def)
  have w1: "cfx w1 = cfx w" "circuits w1 = circuits w" "closed w1 = closed w" "leg_circs w1 = leg_circs w"
    by (simp_all add: w1_def set_leg_def leg_circs_def)
  have hc: "has_conflux (circuits w c)" using inv c(1) by (simp add: receiver_ok_def)
  have ok1: "ooo_queue_ok env w1" and marks1: "marks_ok w1" using inv marks w1 by (simp_all add: receiver_ok_def ooo_queue_ok_def marks_ok_def)
  obtain in_order w2 where pr: "conflux_process_relay_msg env w c hint m addr = Some (in_order, w2)"
    using res hc m by (auto simp: connection_edge_process_relay_cell_def bind_eq_Some_conv)
  note res = res [unfolded connection_edge_process_relay_cell_def Let_def, simplified hc m pr, simplified]
  from pr p w1_def show ?thesis
  proof (cases rule: process_relay_msg_cases)
    case (Close reason w3)
    have "marks_ok w3" using Close(2) marks marks1 by auto
    then show ?thesis using Close res recv_inv_prefix [OF ri] mark_closes mark_marks_ok by auto
  next
    case In_Order
    have "recv_inv S X (del @ [m]) w2" using recv_inv_in_order [of S w1 m X del w2] ri S In_Order(2,3) w1 by simp
    moreover have "recv_seq w2 = recv_seq w1" using In_Order(3) w1 by (intro recv_seq_cong) simp_all
    ultimately have P: "handing S X del w1 w2 [m]" using marks1 In_Order(3) w1 by (simp add: handing_def leg_circs_def marks_ok_def)
    have ok: "ooo_queue_ok env w2" using ok1 In_Order(3) w1 by (simp add: ooo_queue_ok_def)
    have "handing S X del w1 w' handed \<and> ooo_queue_ok env w' \<and> (closed w' = [] \<and> ret \<ge> 0 \<longrightarrow> queue_waits w')"
      using hand_over [OF keeps S P ok, of c ret w' handed] res In_Order(1) hc w1(2) by simp
    then show ?thesis using recv_inv_prefix [of S X "del @ handed" w'] inv w1 ends
      unfolding handing_def receiver_ok_def X_def same_ends_def by auto
  next
    case Queue
    let ?m = "\<lparr> msg_addr = addr, seq = last_seq_recv (leg_at w1 p), queued_msg = m \<rparr>"
    have q: "ooo_queue_ok env w2" "mset (pq_list (ooo_q (cfx w2))) = add_mset ?m (mset (pq_list (ooo_q (cfx w))))"
      using conflux_queue_msg_ok [of env w1 ?m] ok1 fresh Queue(3,4,5) w1 by simp_all
    have w2: "leg_circs w2 = leg_circs w" "circuits w2 = circuits w" "closed w2 = closed w"
      "last_seq_delivered (cfx w2) = last_seq_delivered (cfx w)" and seqs: "recv_seq w2 = recv_seq w1"
      using w1 Queue(5) recv_seq_cong [of w2 w1] by (simp_all add: conflux_queue_msg_def Let_def leg_circs_def)
    have "recv_inv S X del w2" using ri q(2) w2(4) w1 by (simp add: recv_inv_def)
    moreover have "set (pq_list (ooo_q (cfx w2))) = insert ?m (set (pq_list (ooo_q (cfx w))))"
      using arg_cong [OF q(2), of set_mset] by simp
    then have "queue_waits w2" using inv Queue(2) w2(4) by (simp add: receiver_ok_def queue_waits_def)
    ultimately have "receiver_ok env C S (chan(c := ms)) del w2"
      using inv q(1) w2 seqs unfolding receiver_ok_def X_def by simp
    moreover have "w' = w2" "handed = []" "ret = 0" using res Queue(1) by auto
    ultimately show ?thesis using recv_inv_prefix [OF ri] marks w2 seqs ends by (simp add: marks_ok_def same_ends_def)
  qed
qed

text \<open>A SWITCH arrives.\<close>

lemma receive_switch:
  assumes inv: "receiver_ok env C S chan del w" and marks: "marks_ok w" and c: "c \<in> C" "chan c = m # ms"
    and m: "command m = RELAY_COMMAND_CONFLUX_SWITCH"
    and res: "conflux_process_switch_command env w c hint m = (ret, w')"
  shows "marks_ok w' \<and> (closed w' = [] \<and> ret \<ge> 0 \<longrightarrow> receiver_ok env C S (chan(c := ms)) del w' \<and> same_ends w chan w' (chan(c := ms)))"
proof -
  obtain p where p: "conflux_get_leg w c = Some p" using get_leg_Some [of c w] inv c by (auto simp: receiver_ok_def)
  define w1 where "w1 = set_leg p (\<lambda>l. l\<lparr> last_seq_recv := last_seq_recv l + ucast (conflux_cell_parse_switch m) \<rparr>) w"
  have cases: "(\<exists>r. w' = circuit_mark_for_close c r w) \<or> w' = w1"
    using res p by (auto simp: conflux_process_switch_command_def w1_def split: if_splits)
  have seqs: "recv_seq w1 c' = (if c' = c then recv_seq w c + ucast (conflux_cell_parse_switch m) else recv_seq w c')" for c'
    unfolding w1_def using p by (simp add: seq_set_leg(1) [OF _ p]) (simp add: recv_seq_def)
  have fin: "finite C" using inv by (auto simp: receiver_ok_def)
  have "(\<Sum>c' \<in> C. mset (walk (recv_seq w1 c') ((chan(c := ms)) c'))) = (\<Sum>c' \<in> C. mset (walk (recv_seq w c') (chan c')))"
    using sum_walk_update [OF fin c(1), of "recv_seq w1" "recv_seq w" chan ms] seqs
      sum.remove [OF fin c(1), of "\<lambda>c'. mset (walk (recv_seq w c') (chan c'))"] c(2) m by simp
  moreover have "cfx w1 = cfx w" "circuits w1 = circuits w" "closed w1 = closed w" "leg_circs w1 = leg_circs w"
    by (simp_all add: w1_def set_leg_def leg_circs_def)
  ultimately have "receiver_ok env C S (chan(c := ms)) del w1" and "marks_ok w1"
    using inv marks by (simp_all add: receiver_ok_def receiver_cfx_cong [of w1 w] marks_ok_def)
  moreover have "same_ends w chan w1 (chan(c := ms))" using seqs c(2) m by (simp add: same_ends_def)
  ultimately show ?thesis using cases marks mark_closes mark_marks_ok by auto
qed

text \<open>Any cell arrives.\<close>

lemma receive_cell:
  assumes keeps: "keeps_receiver process" and inv: "receiver_ok env C S chan del w" and S: "sent_ok S"
    and marks: "marks_ok w" and c: "c \<in> C" "chan c = m # ms" and fresh: "addr \<notin> msg_addr ` set (pq_list (ooo_q (cfx w)))"
    and res: "connection_edge_process_relay_cell env process w c hint m addr = Some (ret, w', handed)"
  shows "prefix (del @ handed) S \<and> marks_ok w' \<and> (closed w' = [] \<and> ret \<ge> 0 \<longrightarrow> receiver_ok env C S (chan(c := ms)) (del @ handed) w' \<and>
    same_ends w chan w' (chan(c := ms)))"
proof (cases "multiplexed m")
  case True
  then show ?thesis using receive_multiplexed [OF assms(1-6) _ fresh res] by simp
next
  case False
  have del: "prefix del S" using inv by (auto simp: receiver_ok_def dest: recv_inv_prefix)
  have h: "handed = []" using res False by (auto simp: connection_edge_process_relay_cell_def Let_def split: prod.splits if_splits)
  show ?thesis
  proof (cases "command m = RELAY_COMMAND_CONFLUX_SWITCH")
    case True
    then have "conflux_process_switch_command env w c hint m = (ret, w')"
      using res False by (auto simp: connection_edge_process_relay_cell_def Let_def split: prod.splits)
    then show ?thesis using receive_switch [OF inv marks c True] del h by simp
  next
    case other: False
    have "process w c m = (ret, w')" using res False other by (auto simp: connection_edge_process_relay_cell_def split: prod.splits)
    then have same: "same_receiver w w'" by (rule keeps_receiverD [OF keeps])
    have "(\<Sum>c' \<in> C. mset (walk (recv_seq w c') ((chan(c := ms)) c'))) = (\<Sum>c' \<in> C. mset (walk (recv_seq w c') (chan c')))"
      using c(2) False other by (intro sum.cong) auto
    then have "receiver_ok env C S (chan(c := ms)) del w" using inv by (simp add: receiver_ok_def)
    moreover have "same_ends w chan w' (chan(c := ms))" using same_receiver_legs [OF same] c(2) False other by (simp add: same_ends_def)
    ultimately show ?thesis using same_receiver_ok [OF same] same marks del h by (simp add: same_receiver_def)
  qed
qed

subsection \<open>The sending end\<close>

abbreviation n_sent :: "cfx_world \<Rightarrow> nat" where
  "n_sent w \<equiv> length (filter multiplexed (sent_log w))"

text \<open>The current leg has reached the number of messages sent, no leg is ahead of it, and every circuit will have
  brought the receiver to the number of its leg.\<close>

definition sender_ok :: "nat set \<Rightarrow> (nat \<Rightarrow> 64 word) \<Rightarrow> cfx_world \<Rightarrow> bool" where
  "sender_ok C R w \<longleftrightarrow> distinct (leg_circs w) \<and> set (leg_circs w) = C \<and> (\<forall>c. has_conflux (circuits w c) \<longleftrightarrow> c \<in> C) \<and>
    (\<forall>c \<in> C. walk_end (R c) (cell_queue w c) = sent_seq w c \<and> unat (sent_seq w c) \<le> n_sent w) \<and>
    (case curr_leg (cfx w) of None \<Rightarrow> n_sent w = 0 | Some p \<Rightarrow> p \<in> set (legs (cfx w)) \<and> last_seq_sent (leg_at w p) = of_nat (n_sent w))"

definition in_flight :: "nat set \<Rightarrow> (nat \<Rightarrow> 64 word) \<Rightarrow> cfx_world \<Rightarrow> (64 word \<times> relay_msg) multiset" where
  "in_flight C R w = (\<Sum>c \<in> C. mset (walk (R c) (cell_queue w c)))"

text \<open>Putting a cell on a circuit.\<close>

definition queue_cell :: "cfx_world \<Rightarrow> nat \<Rightarrow> relay_msg \<Rightarrow> cfx_world" where
  "queue_cell w c msg =
    (let w = w\<lparr> cell_queue := (cell_queue w)(c := cell_queue w c @ [msg]), sent_log := sent_log w @ [msg] \<rparr>
     in if has_conflux (circuits w c) then conflux_note_cell_sent w c (command msg) else w)"

lemma relay_send_on_circ_cases:
  assumes "relay_send_on_circ renv w c msg = (ok, w')" and "marks_ok w" and "closed w = []"
  obtains (Closed) "closed w' \<noteq> []" "marks_ok w'" "sent_log w' = sent_log w \<or> sent_log w' = sent_log w @ [msg]"
  | (Dropped) "circuit_package_relay_cell renv c msg = Package_Dropped False" "w' = w"
  | (Queued) "ok" "w' = queue_cell w c msg"
proof -
  have q: "marks_ok (queue_cell w c msg)" "sent_log (queue_cell w c msg) = sent_log w @ [msg]"
    using assms(2) by (auto simp: queue_cell_def conflux_note_cell_sent_def marks_ok_def set_leg_def Let_def split: option.splits)
  have um: "\<not> marked_for_close (circuits w c)" using assms(2,3) by (simp add: marks_ok_def)
  have close: thesis if "w' = circuit_mark_for_close c r w0" "w0 = w \<or> w0 = queue_cell w c msg" for r w0
    using that q assms(2) mark_closes [of w0 c r] mark_marks_ok [of w0 c r] by (intro Closed) auto
  show thesis
    using assms(1) um close Dropped Queued unfolding relay_send_on_circ_def queue_cell_def
    by (auto simp: Let_def split: package_result.splits if_splits)
qed

lemma queue_cell_frame:
  "leg_circs (queue_cell w c msg) = leg_circs w" "circuits (queue_cell w c msg) = circuits w"
  "legs (cfx (queue_cell w c msg)) = legs (cfx w)" "curr_leg (cfx (queue_cell w c msg)) = curr_leg (cfx w)"
  "closed (queue_cell w c msg) = closed w" "sent_log (queue_cell w c msg) = sent_log w @ [msg]"
  "cell_queue (queue_cell w c msg) = (cell_queue w)(c := cell_queue w c @ [msg])"
  by (auto simp: queue_cell_def conflux_note_cell_sent_def set_leg_def leg_circs_def Let_def split: option.splits)

lemma queue_cell_legs:
  assumes "has_conflux (circuits w c)" and "conflux_get_leg w c = Some p"
  shows "leg_at (queue_cell w c msg) =
    (if multiplexed msg then (leg_at w)(p := (leg_at w p)\<lparr> last_seq_sent := last_seq_sent (leg_at w p) + 1 \<rparr>) else leg_at w)"
proof -
  have "conflux_get_leg (w\<lparr> cell_queue := x, sent_log := y \<rparr>) c = Some p" for x y using assms(2) by (simp add: conflux_get_leg_def)
  then show ?thesis using assms(1) by (simp add: queue_cell_def conflux_note_cell_sent_def set_leg_def Let_def)
qed

lemma queue_cell_sent_seq:
  assumes "has_conflux (circuits w c)" and "conflux_get_leg w c = Some p"
  shows "sent_seq (queue_cell w c msg) c' = (if c' = c \<and> multiplexed msg then sent_seq w c + 1 else sent_seq w c')"
proof -
  have "sent_seq (queue_cell w c msg) = sent_seq (if multiplexed msg then set_leg p (\<lambda>l. l\<lparr> last_seq_sent := last_seq_sent l + 1 \<rparr>) w else w)"
    by (rule sent_seq_cong) (simp_all add: queue_cell_frame queue_cell_legs [OF assms] set_leg_def)
  then show ?thesis using assms(2) by (simp add: seq_set_leg(2) [OF _ assms(2)]) (simp add: sent_seq_def)
qed

lemma in_flight_append:
  assumes "finite C" and "c \<in> C" and "cell_queue w' = (cell_queue w)(c := cell_queue w c @ [msg])"
  shows "in_flight C R w' = in_flight C R w + mset (walk (walk_end (R c) (cell_queue w c)) [msg])"
  unfolding in_flight_def assms(3)
  using sum_walk_update [OF assms(1,2), of R R "cell_queue w" "cell_queue w c @ [msg]"]
    sum.remove [OF assms(1,2), of "\<lambda>c. mset (walk (R c) (cell_queue w c))"]
  by (simp add: walk_append ac_simps)

lemma sender_ok_finite: "sender_ok C R w \<Longrightarrow> finite C"
  by (auto simp: sender_ok_def)

text \<open>A multiplexed message goes onto the current leg, another one onto any circuit of the set.\<close>

lemma queue_on_current:
  assumes inv: "sender_ok C R w" and cur: "curr_leg (cfx w) = Some p" and c: "c = leg_circ (leg_at w p)" and m: "multiplexed msg"
    and n: "n_sent w + 1 < 2 ^ 64"
  shows "sender_ok C R (queue_cell w c msg) \<and> in_flight C R (queue_cell w c msg) = in_flight C R w + {#(of_nat (n_sent w) + 1, msg)#}"
proof -
  have p: "p \<in> set (legs (cfx w))" "last_seq_sent (leg_at w p) = of_nat (n_sent w)" using inv cur by (auto simp: sender_ok_def)
  then have C: "c \<in> C" "has_conflux (circuits w c)" and g: "conflux_get_leg w c = Some p"
    using inv c get_leg_of_circ [of w p] by (auto simp: sender_ok_def leg_circs_def)
  have end_c: "walk_end (R c) (cell_queue w c) = of_nat (n_sent w)" using inv C(1) g p(2) by (auto simp: sender_ok_def sent_seq_def)
  have "in_flight C R (queue_cell w c msg) = in_flight C R w + {#(of_nat (n_sent w) + 1, msg)#}"
    using in_flight_append [OF sender_ok_finite [OF inv] C(1), of "queue_cell w c msg" w msg R] end_c m by (simp add: queue_cell_frame)
  moreover have "unat (of_nat (n_sent w) + 1 :: 64 word) = n_sent w + 1" by (rule unat_of_nat64_Suc [OF n])
  then have "walk_end (R c') (cell_queue (queue_cell w c msg) c') = sent_seq (queue_cell w c msg) c' \<and>
      unat (sent_seq (queue_cell w c msg) c') \<le> n_sent (queue_cell w c msg)" if "c' \<in> C" for c'
    using that inv C(1) m end_c by (auto simp: sender_ok_def queue_cell_frame queue_cell_sent_seq [OF C(2) g] walk_end_append le_SucI)
  then have "sender_ok C R (queue_cell w c msg)"
    using inv cur m p by (simp add: sender_ok_def queue_cell_frame queue_cell_legs [OF C(2) g] add.commute)
  ultimately show ?thesis by simp
qed

lemma queue_plain:
  assumes inv: "sender_ok C R w" and c: "c \<in> C" and m: "\<not> multiplexed msg" "command msg \<noteq> RELAY_COMMAND_CONFLUX_SWITCH"
  shows "sender_ok C R (queue_cell w c msg) \<and> in_flight C R (queue_cell w c msg) = in_flight C R w"
proof -
  obtain p where g: "conflux_get_leg w c = Some p" using inv c get_leg_Some [of c w] by (auto simp: sender_ok_def)
  have hc: "has_conflux (circuits w c)" using inv c by (simp add: sender_ok_def)
  have "in_flight C R (queue_cell w c msg) = in_flight C R w"
    using in_flight_append [OF sender_ok_finite [OF inv] c, of "queue_cell w c msg" w msg R] m by (simp add: queue_cell_frame)
  moreover have "sender_ok C R (queue_cell w c msg)"
    using inv m by (auto simp: sender_ok_def queue_cell_frame queue_cell_sent_seq [OF hc g]
      queue_cell_legs [OF hc g] walk_end_append split: option.splits)
  ultimately show ?thesis by simp
qed

text \<open>Tearing the set down.\<close>

lemma mark_each:
  "marks_ok w \<Longrightarrow> marks_ok (foldl (\<lambda>w c. circuit_mark_for_close c r w) w cs) \<and>
   sent_log (foldl (\<lambda>w c. circuit_mark_for_close c r w) w cs) = sent_log w \<and>
   (closed w \<noteq> [] \<or> cs \<noteq> [] \<longrightarrow> closed (foldl (\<lambda>w c. circuit_mark_for_close c r w) w cs) \<noteq> [])"
  by (induction cs arbitrary: w) (auto simp: mark_marks_ok mark_closes)

lemma mark_all_closes:
  assumes "marks_ok w" and "legs (cfx w) \<noteq> []" and "closed w \<noteq> [] \<or> \<not> in_full_teardown (cfx w)"
  shows "closed (conflux_mark_all_for_close r w) \<noteq> []" and "marks_ok (conflux_mark_all_for_close r w)"
    and "sent_log (conflux_mark_all_for_close r w) = sent_log w"
proof -
  have "marks_ok (w\<lparr> cfx := x \<rparr>)" for x using assms(1) by (simp add: marks_ok_def)
  then show "closed (conflux_mark_all_for_close r w) \<noteq> []" "marks_ok (conflux_mark_all_for_close r w)"
    "sent_log (conflux_mark_all_for_close r w) = sent_log w"
    using assms mark_each [of "w\<lparr> cfx := (cfx w)\<lparr> in_full_teardown := True \<rparr> \<rparr>" r "map (\<lambda>leg. leg_circ (leg_at w leg)) (legs (cfx w))"]
    by (auto simp: conflux_mark_all_for_close_def)
qed

text \<open>The outcome of a step of the sender: the set is closed, or its state is right and nothing but \<open>T\<close> was sent.\<close>

definition sends :: "nat set \<Rightarrow> (nat \<Rightarrow> 64 word) \<Rightarrow> cfx_world \<Rightarrow> relay_msg list \<Rightarrow> cfx_world \<Rightarrow> bool" where
  "sends C R w T w' \<longleftrightarrow> marks_ok w' \<and> filter multiplexed (sent_log w') = filter multiplexed (sent_log w) @ T \<and>
    (closed w' = [] \<longrightarrow> sender_ok C R w' \<and> in_flight C R w' = in_flight C R w + mset (walk (of_nat (n_sent w)) T))"

lemma switch_not_multiplexed [simp]:
  "\<not> conflux_should_multiplex RELAY_COMMAND_CONFLUX_SWITCH" "command (switch_msg r) = RELAY_COMMAND_CONFLUX_SWITCH"
  by (simp_all add: switch_msg_def conflux_should_multiplex_def)

text \<open>The SWITCH brings the new leg level with the one before.\<close>

lemma switched_ok:
  assumes inv: "sender_ok C R w" and cur: "last_seq_sent (leg_at w cur) = of_nat (n_sent w)" and g: "conflux_get_leg w c = Some new"
    and r: "of_nat (n_sent w) - last_seq_sent (leg_at w new) < 4294967295"
    and w0: "w0 = w\<lparr> cfx := (cfx w)\<lparr> cells_until_switch := 0, prev_leg := Some cur, curr_leg := Some new \<rparr> \<rparr>"
    and w1: "w1 = queue_cell w0 c (switch_msg (of_nat (n_sent w) - last_seq_sent (leg_at w new)))"
    and w2: "w2 = set_leg new (\<lambda>l. l\<lparr> last_seq_sent := last_seq_sent (leg_at w1 cur) \<rparr>) w1"
  shows "sender_ok C R w2" and "in_flight C R w2 = in_flight C R w" and "filter multiplexed (sent_log w2) = filter multiplexed (sent_log w)"
proof -
  let ?r = "of_nat (n_sent w) - last_seq_sent (leg_at w new) :: 64 word"
  have c: "c \<in> C" "has_conflux (circuits w0 c)" using inv get_leg_SomeD [OF g] by (auto simp: sender_ok_def leg_circs_def w0)
  have g0: "conflux_get_leg w0 c = Some new" using g by (simp add: w0 conflux_get_leg_def)
  have leg1: "leg_at w1 = leg_at w" using queue_cell_legs [OF c(2) g0] by (simp add: w1) (simp add: w0)
  have q2: "cell_queue w2 = (cell_queue w)(c := cell_queue w c @ [switch_msg ?r])"
    by (simp add: w2 set_leg_def w1 queue_cell_frame) (simp add: w0)
  show fl: "filter multiplexed (sent_log w2) = filter multiplexed (sent_log w)"
    by (simp add: w2 set_leg_def w1 queue_cell_frame) (simp add: w0)
  show "in_flight C R w2 = in_flight C R w"
    using in_flight_append [OF sender_ok_finite [OF inv] c(1) q2] by simp
  have frame: "legs (cfx w2) = legs (cfx w)" "curr_leg (cfx w2) = Some new" "circuits w2 = circuits w" "leg_circs w2 = leg_circs w"
    by (simp_all add: w2 set_leg_def w1 queue_cell_frame) (simp_all add: w0 leg1 [unfolded w1 w0] leg_circs_def queue_cell_frame)
  have at2: "leg_at w2 = (leg_at w)(new := (leg_at w new)\<lparr> last_seq_sent := of_nat (n_sent w) \<rparr>)"
    by (simp add: w2 set_leg_def leg1 cur)
  have "sent_seq w2 = sent_seq (set_leg new (\<lambda>l. l\<lparr> last_seq_sent := of_nat (n_sent w) \<rparr>) w)"
    by (rule sent_seq_cong) (simp_all add: frame at2 set_leg_def)
  then have ss: "sent_seq w2 c' = (if c' = c then of_nat (n_sent w) else sent_seq w c')" for c' by (simp add: seq_set_leg(2) [OF _ g])
  have "walk_end (R c) (cell_queue w2 c) = of_nat (n_sent w)"
    using inv c(1) g r by (simp add: q2 walk_end_append parse_switch_msg sender_ok_def sent_seq_def)
  moreover have "unat (of_nat (n_sent w) :: 64 word) \<le> n_sent w" by (simp add: unat_of_nat)
  ultimately show "sender_ok C R w2"
    using inv fl ss get_leg_SomeD [OF g] by (auto simp: sender_ok_def frame at2 q2)
qed

lemma switch_leg_ok:
  assumes inv: "sender_ok C R w" and marks: "marks_ok w" "closed w = []" and env: "relay_env_ok renv"
    and cur: "curr_leg (cfx w) = Some cur" and g: "conflux_get_leg w c = Some new" and td: "\<not> in_full_teardown (cfx w)"
    and n: "n_sent w < 2 ^ 64" and res: "switch_leg renv w cur new c = (res, w')"
  shows "sends C R w [] w' \<and> (closed w' = [] \<longrightarrow> (\<exists>p. curr_leg (cfx w') = Some p \<and> leg_circ (leg_at w' p) = c))"
proof -
  let ?r = "of_nat (n_sent w) - last_seq_sent (leg_at w new) :: 64 word"
  define w0 where "w0 = w\<lparr> cfx := (cfx w)\<lparr> cells_until_switch := 0, prev_leg := Some cur, curr_leg := Some new \<rparr> \<rparr>"
  have last: "last_seq_sent (leg_at w cur) = of_nat (n_sent w)" using inv cur by (simp add: sender_ok_def)
  have C: "c \<in> C" "leg_circ (leg_at w new) = c" using get_leg_SomeD [OF g] inv by (auto simp: sender_ok_def leg_circs_def)
  then have "unat (last_seq_sent (leg_at w new)) \<le> n_sent w" using inv g by (auto simp: sender_ok_def sent_seq_def)
  then have le: "\<not> last_seq_sent (leg_at w new) > of_nat (n_sent w)" using n by (simp add: not_less word_le_nat_alt unat_of_nat)
  have m0: "marks_ok w0" "closed w0 = []" "legs (cfx w0) \<noteq> []" "\<not> in_full_teardown (cfx w0)" "sent_log w0 = sent_log w"
    using marks td get_leg_SomeD [OF g] by (auto simp: w0_def marks_ok_def)
  obtain ok w1 where sw: "conflux_send_switch_command renv w0 c ?r = (ok, w1)" by (cases "conflux_send_switch_command renv w0 c ?r")
  have res: "(res, w') = (if \<not> ok then (None, conflux_mark_all_for_close END_CIRC_REASON_TORPROTOCOL w1)
      else (Some c, set_leg new (\<lambda>l. l\<lparr> last_seq_sent := last_seq_sent (leg_at w1 cur) \<rparr>) w1))"
    using res le last sw C(2) by (simp add: switch_leg_def w0_def Let_def)
  have shut: ?thesis if "closed w' \<noteq> []" "marks_ok w'" "filter multiplexed (sent_log w') = filter multiplexed (sent_log w)"
    using that by (simp add: sends_def)
  show ?thesis
  proof (cases "?r \<ge> 4294967295")
    case True
    then have "\<not> ok" "w1 = w0" using sw by (auto simp: conflux_send_switch_command_def)
    then show ?thesis using res m0 mark_all_closes [of w0] by (intro shut) auto
  next
    case False
    then have "relay_send_on_circ renv w0 c (switch_msg ?r) = (ok, w1)" using sw by (simp add: conflux_send_switch_command_def)
    then show ?thesis using m0(1,2)
    proof (cases rule: relay_send_on_circ_cases)
      case Closed
      then have "legs (cfx w1) \<noteq> []" if "\<not> ok"
        using sw m0(3) False by (auto simp: conflux_send_switch_command_def relay_send_on_circ_def Let_def queue_cell_frame
          conflux_note_cell_sent_def split: package_result.splits if_splits)
      then show ?thesis using res Closed m0(5) mark_all_closes [of w1]
        by (intro shut) (auto simp: marks_ok_def set_leg_def split: if_splits)
    next
      case Dropped
      then show ?thesis using env by (simp add: relay_env_ok_def)
    next
      case Queued
      then have w': "w' = set_leg new (\<lambda>l. l\<lparr> last_seq_sent := last_seq_sent (leg_at w1 cur) \<rparr>) w1" using res by simp
      have "?r < 4294967295" using False by simp
      note ok = switched_ok [OF inv last g this w0_def Queued(2) w']
      have "circuits w' = circuits w" "closed w' = closed w" "curr_leg (cfx w') = Some new" "leg_circ (leg_at w' new) = c"
        using w' Queued(2) C(2) by (simp_all add: set_leg_def queue_cell_frame w0_def)
          (auto simp: queue_cell_def conflux_note_cell_sent_def set_leg_def Let_def split: option.splits)
      then show ?thesis using ok marks by (simp add: sends_def marks_ok_def)
    qed
  qed
qed

text \<open>Choosing a circuit changes nothing but the first choice of a current leg.\<close>

lemma first_leg_in: "foldl (first_leg_step w) best ls = Some p \<Longrightarrow> best = Some p \<or> p \<in> set ls"
proof (induction ls arbitrary: best)
  case (Cons l ls)
  have "first_leg_step w best l = best \<or> first_leg_step w best l = Some l" by (simp add: first_leg_step_def split: option.splits)
  then show ?case using Cons.IH [of "first_leg_step w best l"] Cons.prems by auto
qed simp

lemma decide_next_circ_cases:
  assumes "conflux_decide_next_circ env w = Some (res, w')"
  obtains (Same) "w' = w" "res = None \<or> \<not> in_full_teardown (cfx w)"
  | (First) p where "curr_leg (cfx w) = None" "p \<in> set (legs (cfx w))" "\<not> in_full_teardown (cfx w)"
      "w' = w\<lparr> cfx := (cfx w)\<lparr> cells_until_switch := 0, curr_leg := Some p \<rparr> \<rparr>"
proof (cases "in_full_teardown (cfx w) \<or> curr_leg (cfx w) \<noteq> None")
  case True
  then have "w' = w" "res = None \<or> \<not> in_full_teardown (cfx w)"
    using assms by (auto simp: conflux_decide_next_circ_def bind_eq_Some_conv split: if_splits)
  then show thesis by (rule Same)
next
  case False
  let ?p = "foldl (first_leg_step w) None (legs (cfx w))"
  obtain ok w1 where pick: "conflux_pick_first_leg w = (ok, w1)" by (cases "conflux_pick_first_leg w")
  have w': "w' = w1" using assms False pick by (auto simp: conflux_decide_next_circ_def bind_eq_Some_conv split: if_splits)
  show thesis
  proof (cases "?p = None \<and> legs (cfx w) = []")
    case True
    then show thesis using Same False w' pick by (auto simp: conflux_pick_first_leg_def)
  next
    case ne: False
    define p where "p = (if ?p = None then hd (legs (cfx w)) else the ?p)"
    have "p \<in> set (legs (cfx w))" using ne first_leg_in [of w None "legs (cfx w)" p] by (auto simp: p_def split: if_splits)
    moreover have "w' = w\<lparr> cfx := (cfx w)\<lparr> cells_until_switch := 0, curr_leg := Some p \<rparr> \<rparr>"
      using w' pick ne by (auto simp: conflux_pick_first_leg_def p_def Let_def split: if_splits)
    ultimately show thesis using First [of p] False by auto
  qed
qed

lemma first_leg_ok:
  assumes "sender_ok C R w" and "curr_leg (cfx w) = None" and "p \<in> set (legs (cfx w))"
    and w': "w' = w\<lparr> cfx := (cfx w)\<lparr> cells_until_switch := 0, curr_leg := Some p \<rparr> \<rparr>"
  shows "sender_ok C R w'" and "in_flight C R w' = in_flight C R w"
proof -
  have "sent_seq w (leg_circ (leg_at w p)) = last_seq_sent (leg_at w p)"
    using get_leg_of_circ [OF _ assms(3)] assms(1) by (simp add: sender_ok_def sent_seq_def)
  moreover have "unat (sent_seq w (leg_circ (leg_at w p))) \<le> n_sent w" using assms(1,3) by (auto simp: sender_ok_def leg_circs_def)
  moreover have "n_sent w = 0" using assms(1,2) by (simp add: sender_ok_def)
  ultimately have "last_seq_sent (leg_at w p) = 0" by (simp add: unat_eq_0)
  moreover have "sent_seq w' = sent_seq w" by (rule sent_seq_cong) (simp_all add: w')
  moreover have "leg_circs w' = leg_circs w" by (simp add: w' leg_circs_def)
  ultimately show "sender_ok C R w'" using assms by (auto simp: sender_ok_def)
  show "in_flight C R w' = in_flight C R w" by (simp add: in_flight_def w')
qed

lemma sends_refl: "sender_ok C R w \<Longrightarrow> marks_ok w \<Longrightarrow> sends C R w [] w"
  by (simp add: sends_def)

lemma sends_trans:
  assumes "sends C R w [] w1" and "closed w1 = []" and "sends C R w1 T w2"
  shows "sends C R w T w2"
  using assms by (auto simp: sends_def)

lemma decide_circ_for_send_ok:
  assumes inv: "sender_ok C R w" and marks: "marks_ok w" "closed w = []" and env: "relay_env_ok renv" and n: "n_sent w < 2 ^ 64"
    and cmd: "conflux_should_multiplex cmd" and res: "conflux_decide_circ_for_send env renv w orig cmd = Some (res, w')"
  shows "sends C R w [] w' \<and> (closed w' = [] \<and> res = Some c \<longrightarrow> (\<exists>p. curr_leg (cfx w') = Some p \<and> leg_circ (leg_at w' p) = c))"
proof -
  obtain next1 w1 where d: "conflux_decide_next_circ env w = Some (next1, w1)"
    using res cmd by (auto simp: conflux_decide_circ_for_send_def bind_eq_Some_conv)
  then have w1: "sends C R w [] w1 \<and> sender_ok C R w1 \<and> marks_ok w1 \<and> closed w1 = [] \<and> n_sent w1 = n_sent w \<and>
      (next1 \<noteq> None \<longrightarrow> \<not> in_full_teardown (cfx w1))"
  proof (cases rule: decide_next_circ_cases)
    case Same
    then show ?thesis using sends_refl [OF inv marks(1)] inv marks by auto
  next
    case (First p)
    then show ?thesis using first_leg_ok [OF inv First(1,2,4)] marks by (simp add: sends_def marks_ok_def)
  qed
  show ?thesis
  proof (cases next1)
    case None
    then have "w' = w1" "res = Some c \<longrightarrow> (\<exists>p. curr_leg (cfx w1) = Some p \<and> leg_circ (leg_at w1 p) = c)"
      using res cmd d by (auto simp: conflux_decide_circ_for_send_def split: if_splits)
    then show ?thesis using w1 by simp
  next
    case (Some c1)
    obtain cur where cur: "curr_leg (cfx w1) = Some cur"
      using res cmd d Some by (auto simp: conflux_decide_circ_for_send_def bind_eq_Some_conv)
    show ?thesis
    proof (cases "c1 = leg_circ (leg_at w1 cur)")
      case True
      then show ?thesis using res cmd d Some cur w1 by (auto simp: conflux_decide_circ_for_send_def)
    next
      case False
      then obtain new where new: "conflux_get_leg w1 c1 = Some new" "switch_leg renv w1 cur new c1 = (res, w')"
        using res cmd d Some cur by (auto simp: conflux_decide_circ_for_send_def bind_eq_Some_conv)
      have "res = Some c \<longrightarrow> c1 = c" using new(2) by (auto simp: switch_leg_def Let_def split: if_splits prod.splits)
      moreover have "sends C R w1 [] w' \<and> (closed w' = [] \<longrightarrow> (\<exists>p. curr_leg (cfx w') = Some p \<and> leg_circ (leg_at w' p) = c1))"
        using w1 Some n by (intro switch_leg_ok [OF _ _ _ env cur new(1) _ _ new(2)]) auto
      ultimately show ?thesis using sends_trans [of C R w w1] w1 by auto
    qed
  qed
qed

text \<open>\<^verbatim>\<open>relay_send_command_from_edge\<close> sends the message or not.\<close>

lemma relay_send_on_circ_ok:
  assumes snd: "relay_send_on_circ renv w c msg = (ret, w')" and inv: "sender_ok C R w" and marks: "marks_ok w" "closed w = []"
    and n: "n_sent w + 1 < 2 ^ 64" and cmd: "command msg \<noteq> RELAY_COMMAND_CONFLUX_SWITCH"
    and c: "if multiplexed msg then \<exists>p. curr_leg (cfx w) = Some p \<and> leg_circ (leg_at w p) = c else c \<in> C"
  shows "\<exists>T. length T \<le> 1 \<and> sends C R w T w'"
  using snd marks
proof (cases rule: relay_send_on_circ_cases)
  case Closed
  then show ?thesis by (intro exI [of _ "filter multiplexed (drop (length (sent_log w)) (sent_log w'))"]) (auto simp: sends_def)
next
  case Dropped
  then show ?thesis using sends_refl inv marks(1) by (intro exI [of _ "[]"]) auto
next
  case Queued
  have m: "marks_ok w'" using Queued(2) marks(1) by (simp add: marks_ok_def queue_cell_frame)
  show ?thesis
  proof (cases "multiplexed msg")
    case True
    then obtain p where "curr_leg (cfx w) = Some p" "c = leg_circ (leg_at w p)" using c by auto
    then show ?thesis using queue_on_current [OF inv _ _ True n] Queued(2) m True
      by (intro exI [of _ "[msg]"]) (simp add: sends_def queue_cell_frame)
  next
    case False
    then show ?thesis using queue_plain [OF inv _ False cmd, of c] c Queued(2) m
      by (intro exI [of _ "[]"]) (simp add: sends_def queue_cell_frame)
  qed
qed

text \<open>Once the set is closed, nothing is promised but the order of the log.\<close>

lemma relay_send_closed:
  assumes "relay_send_on_circ renv w c msg = (ret, w')" and "marks_ok w" and "closed w \<noteq> []"
  shows "marks_ok w' \<and> closed w' \<noteq> [] \<and> (sent_log w' = sent_log w \<or> sent_log w' = sent_log w @ [msg])"
proof -
  obtain w0 where "w0 = w \<or> w0 = queue_cell w c msg" "w' = w0 \<or> (\<exists>r. w' = circuit_mark_for_close c r w0)"
    using assms(1) unfolding relay_send_on_circ_def queue_cell_def
    by (auto simp: Let_def split: package_result.splits if_splits)
  moreover have "marks_ok (queue_cell w c msg)" using assms(2) by (simp add: marks_ok_def queue_cell_frame)
  ultimately show ?thesis using assms(2,3) mark_closes [of w0] mark_marks_ok [of w0] by (auto simp: queue_cell_frame)
qed

lemma relay_send_ok:
  assumes inv: "sender_ok C R w" and marks: "marks_ok w" "closed w = []" and env: "relay_env_ok renv" and n: "n_sent w + 1 < 2 ^ 64"
    and orig: "has_conflux (circuits w orig)" and cmd: "command msg \<noteq> RELAY_COMMAND_CONFLUX_SWITCH"
    and res: "relay_send_command_from_edge cenv renv w orig msg = Some (ret, w')"
  shows "\<exists>T. length T \<le> 1 \<and> sends C R w T w'"
proof (cases "multiplexed msg")
  case True
  then obtain circ w1 where d: "conflux_decide_circ_for_send cenv renv w orig (command msg) = Some (circ, w1)"
      "(ret, w') = (case circ of None \<Rightarrow> (False, w1) | Some c \<Rightarrow> relay_send_on_circ renv w1 c msg)"
    using res orig by (auto simp: relay_send_command_from_edge_def bind_eq_Some_conv)
  have d1: "sends C R w [] w1 \<and> (closed w1 = [] \<and> circ = Some c \<longrightarrow> (\<exists>p. curr_leg (cfx w1) = Some p \<and> leg_circ (leg_at w1 p) = c))" for c
    using n by (intro decide_circ_for_send_ok [OF inv marks env _ True d(1)]) simp
  then have s1: "sends C R w [] w1" by blast
  show ?thesis
  proof (cases circ)
    case None
    then show ?thesis using d(2) s1 by (intro exI [of _ "[]"]) auto
  next
    case (Some c)
    then have snd: "relay_send_on_circ renv w1 c msg = (ret, w')" using d(2) by simp
    show ?thesis
    proof (cases "closed w1 = []")
      case op: True
      then have "\<exists>T. length T \<le> 1 \<and> sends C R w1 T w'"
        using s1 d1 [of c] True n Some by (intro relay_send_on_circ_ok [OF snd _ _ _ _ cmd]) (auto simp: sends_def)
      then show ?thesis using sends_trans [OF s1 op] by blast
    next
      case False
      then have "marks_ok w' \<and> closed w' \<noteq> [] \<and> (sent_log w' = sent_log w1 \<or> sent_log w' = sent_log w1 @ [msg])"
        using s1 by (intro relay_send_closed [OF snd]) (auto simp: sends_def)
      then show ?thesis using s1
        by (intro exI [of _ "filter multiplexed (drop (length (sent_log w1)) (sent_log w'))"]) (auto simp: sends_def)
    qed
  qed
next
  case False
  then have "relay_send_on_circ renv w orig msg = (ret, w')" using res by (simp add: relay_send_command_from_edge_def)
  moreover have "orig \<in> C" using inv orig by (simp add: sender_ok_def)
  ultimately show ?thesis using relay_send_on_circ_ok [of renv w orig msg ret w' C R] inv marks n False cmd by simp
qed

subsection \<open>The invariant of the system\<close>

definition link_ok :: "conflux_env \<Rightarrow> nat set \<Rightarrow> conflux_link \<Rightarrow> bool" where
  "link_ok env C l \<longleftrightarrow> prefix (delivered l) (sent l) \<and> marks_ok (sender l) \<and> marks_ok (receiver l) \<and>
    (closed (sender l) = [] \<and> closed (receiver l) = [] \<longrightarrow>
      receiver_ok env C (sent l) (cell_queue (sender l)) (delivered l) (receiver l) \<and> sender_ok C (recv_seq (receiver l)) (sender l))"

lemma receiver_ok_sends:
  assumes "receiver_ok env C S (cell_queue w) del r" and "S = filter multiplexed (sent_log w)"
    and "in_flight C (recv_seq r) w' = in_flight C (recv_seq r) w + mset (walk (of_nat (length S)) T)"
  shows "receiver_ok env C (S @ T) (cell_queue w') del r"
proof -
  obtain rest where rest: "S = del @ rest" "mset (walk (of_nat (length del)) rest) =
      image_mset (\<lambda>m. (seq m, queued_msg m)) (mset (pq_list (ooo_q (cfx r)))) + in_flight C (recv_seq r) w"
    using assms(1) by (auto simp: receiver_ok_def recv_inv_def in_flight_def)
  have "\<forall>m \<in> set S. multiplexed m" using assms(2) by simp
  then have "\<forall>m \<in> set rest. multiplexed m" using rest(1) by simp
  then have "walk_end (of_nat (length del)) rest = of_nat (length S)" using rest(1) by (simp add: walk_end_multiplexed)
  then have "mset (walk (of_nat (length del)) (rest @ T)) =
      image_mset (\<lambda>m. (seq m, queued_msg m)) (mset (pq_list (ooo_q (cfx r)))) + in_flight C (recv_seq r) w'"
    using rest(2) assms(3) by (simp add: walk_append)
  then show ?thesis using assms(1) rest(1) by (auto simp: receiver_ok_def recv_inv_def in_flight_def)
qed

lemma sender_ok_cong:
  assumes inv: "sender_ok C R w" and ends: "\<And>c. walk_end (R' c) (cell_queue w' c) = walk_end (R c) (cell_queue w c)"
    and same: "legs (cfx w') = legs (cfx w)" "curr_leg (cfx w') = curr_leg (cfx w)" "sent_log w' = sent_log w"
      "\<And>p. leg_circ (leg_at w' p) = leg_circ (leg_at w p)" "\<And>p. last_seq_sent (leg_at w' p) = last_seq_sent (leg_at w p)"
      "\<And>c. has_conflux (circuits w' c) = has_conflux (circuits w c)"
  shows "sender_ok C R' w'"
proof -
  have "sent_seq w' c = sent_seq w c" for c
    using get_leg_cong [OF same(1,4)] same(5) by (simp add: sent_seq_def split: option.split)
  then show ?thesis using inv ends same leg_circs_cong [OF same(1,4)] unfolding sender_ok_def by (simp split: option.splits)
qed

lemma sent_multiplexed: "length (sent l) < 2 ^ 64 \<Longrightarrow> sent_ok (sent l)"
  by (auto simp: sent_ok_def sent_def)

text \<open>One step adds at most one message and keeps the invariant.\<close>

lemma send_step:
  assumes inv: "link_ok env C l" and renv: "relay_env_ok (renv i)" and n: "length (sent l) + 1 < 2 ^ 64"
    and st: "link_step env renv process (Send i orig msg) l = Some l'"
  shows "link_ok env C l' \<and> length (sent l') \<le> length (sent l) + 1"
proof -
  obtain ret w where w: "relay_send_command_from_edge env (renv i) (sender l) orig msg = Some (ret, w)" "l' = l\<lparr> sender := w \<rparr>"
    and op: "closed (sender l) = []" "closed (receiver l) = []" "has_conflux (circuits (sender l) orig)"
      "command msg \<noteq> RELAY_COMMAND_CONFLUX_SWITCH"
    using st by (auto simp: bind_eq_Some_conv tor_assert_def split: if_splits)
  have ok: "receiver_ok env C (sent l) (cell_queue (sender l)) (delivered l) (receiver l)"
      "sender_ok C (recv_seq (receiver l)) (sender l)" "marks_ok (sender l)"
    using inv op by (simp_all add: link_ok_def)
  obtain T where T: "length T \<le> 1" "sends C (recv_seq (receiver l)) (sender l) T w"
    using relay_send_ok [OF ok(2,3) op(1) renv _ op(3,4) w(1)] n by (auto simp: sent_def)
  have S: "sent l' = sent l @ T" using T(2) w(2) by (simp add: sends_def sent_def)
  moreover have "receiver_ok env C (sent l @ T) (cell_queue w) (delivered l) (receiver l)" if "closed w = []"
    using that T(2) ok(1) by (intro receiver_ok_sends [where w = "sender l"]) (simp_all add: sends_def sent_def)
  ultimately show ?thesis using inv T w(2) by (auto simp: link_ok_def sends_def)
qed

lemma receive_step:
  assumes inv: "link_ok env C l" and keeps: "keeps_receiver process" and n: "length (sent l) < 2 ^ 64"
    and st: "link_step env renv process (Receive c hint addr) l = Some l'"
  shows "link_ok env C l' \<and> sent l' = sent l"
proof -
  obtain ret w handed m ms where w: "connection_edge_process_relay_cell env process (receiver l) c hint m addr = Some (ret, w, handed)"
    and l': "l' = l\<lparr> sender := (sender l)\<lparr> cell_queue := (cell_queue (sender l))(c := ms) \<rparr>,
      receiver := (if ret < 0 then circuit_mark_for_close c END_CIRC_REASON_TORPROTOCOL w else w), delivered := delivered l @ handed \<rparr>"
    and q: "cell_queue (sender l) c = m # ms"
    and op: "closed (sender l) = []" "closed (receiver l) = []" "has_conflux (circuits (receiver l) c)"
      "addr \<notin> msg_addr ` set (pq_list (ooo_q (cfx (receiver l))))"
    using st by (cases "cell_queue (sender l) c") (auto simp: bind_eq_Some_conv tor_assert_def split: if_splits)
  have ok: "receiver_ok env C (sent l) (cell_queue (sender l)) (delivered l) (receiver l)"
      "sender_ok C (recv_seq (receiver l)) (sender l)" "marks_ok (sender l)" "marks_ok (receiver l)"
    using inv op by (simp_all add: link_ok_def)
  have c: "c \<in> C" using ok(1) op(3) by (simp add: receiver_ok_def)
  note rc = receive_cell [OF keeps ok(1) sent_multiplexed [OF n] ok(4) c q op(4) w]
  have S: "sent l' = sent l" by (simp add: l' sent_def)
  show ?thesis
  proof (cases "ret < 0")
    case True
    then show ?thesis using rc S ok(3) mark_closes mark_marks_ok l' by (simp add: link_ok_def marks_ok_def)
  next
    case False
    have "sender_ok C (recv_seq w) (sender l')" if "closed w = []"
      using rc that False by (intro sender_ok_cong [OF ok(2)]) (auto simp: same_ends_def l')
    then show ?thesis using rc S ok(3) False l' by (auto simp: link_ok_def marks_ok_def)
  qed
qed

lemma update_rtt_frame [simp]:
  "cfx (conflux_update_rtt w c r) = cfx w" "circuits (conflux_update_rtt w c r) = circuits w" "closed (conflux_update_rtt w c r) = closed w"
  "cell_queue (conflux_update_rtt w c r) = cell_queue w" "sent_log (conflux_update_rtt w c r) = sent_log w"
  "leg_circ (leg_at (conflux_update_rtt w c r) p) = leg_circ (leg_at w p)"
  "last_seq_sent (leg_at (conflux_update_rtt w c r) p) = last_seq_sent (leg_at w p)"
  by (simp_all add: conflux_update_rtt_def set_leg_def split: option.split)

lemma set_congestion_frame [simp]:
  "has_conflux (set_congestion g c) = has_conflux c" "marked_for_close (set_congestion g c) = marked_for_close c"
  by (simp_all add: set_congestion_def)

lemma sender_changed:
  assumes "link_ok env C l" and "sender_ok C (recv_seq (receiver l)) (sender l) \<Longrightarrow> sender_ok C (recv_seq (receiver l)) w"
    and "cell_queue w = cell_queue (sender l)" "sent_log w = sent_log (sender l)" "closed w = closed (sender l)"
    and "\<And>c. marked_for_close (circuits w c) = marked_for_close (circuits (sender l) c)"
  shows "link_ok env C (l\<lparr> sender := w \<rparr>) \<and> sent (l\<lparr> sender := w \<rparr>) = sent l"
  using assms by (simp add: link_ok_def sent_def marks_ok_def)

lemma environment_step:
  assumes inv: "link_ok env C l" and st: "link_step env renv process a l = Some l'" and a: "(\<exists>c r. a = Rtt c r) \<or> (\<exists>f. a = Congestion f)"
  shows "link_ok env C l' \<and> sent l' = sent l"
proof -
  have "link_ok env C (l\<lparr> sender := conflux_update_rtt (sender l) c r \<rparr>) \<and> sent (l\<lparr> sender := conflux_update_rtt (sender l) c r \<rparr>) = sent l" for c r
    using inv by (rule sender_changed) (erule sender_ok_cong, simp_all)
  moreover have "link_ok env C (l\<lparr> sender := (sender l)\<lparr> circuits := (\<lambda>c. set_congestion (f c) (circuits (sender l) c)) \<rparr> \<rparr>) \<and>
      sent (l\<lparr> sender := (sender l)\<lparr> circuits := (\<lambda>c. set_congestion (f c) (circuits (sender l) c)) \<rparr> \<rparr>) = sent l" for f
    using inv by (rule sender_changed) (erule sender_ok_cong, simp_all)
  ultimately show ?thesis using a st by auto
qed

lemma link_step_ok:
  assumes "link_ok env C l" and "keeps_receiver process" and "\<forall>i. relay_env_ok (renv i)" and "length (sent l) + 1 < 2 ^ 64"
    and "link_step env renv process a l = Some l'"
  shows "link_ok env C l' \<and> length (sent l') \<le> length (sent l) + 1"
proof (cases a)
  case (Send i orig msg)
  show ?thesis by (rule send_step [OF assms(1) _ assms(4) assms(5) [unfolded Send]]) (simp add: assms(3))
next
  case (Receive c hint addr)
  have "link_ok env C l' \<and> sent l' = sent l" using assms(4) by (intro receive_step [OF assms(1,2) _ assms(5) [unfolded Receive]]) simp
  then show ?thesis by simp
qed (use environment_step [OF assms(1,5)] in auto)

lemma link_run_ok:
  "link_run env renv process as l = Some l' \<Longrightarrow> link_ok env C l \<Longrightarrow> keeps_receiver process \<Longrightarrow> \<forall>i. relay_env_ok (renv i) \<Longrightarrow>
   length (sent l) + length as < 2 ^ 64 \<Longrightarrow> link_ok env C l' \<and> length (sent l') \<le> length (sent l) + length as"
proof (induction as arbitrary: l)
  case (Cons a as)
  obtain l1 where l1: "link_step env renv process a l = Some l1" "link_run env renv process as l1 = Some l'"
    using Cons.prems(1) by (auto simp: bind_eq_Some_conv)
  have "link_ok env C l1 \<and> length (sent l1) \<le> length (sent l) + 1"
    using Cons.prems by (intro link_step_ok [OF _ _ _ _ l1(1)]) auto
  then show ?case using Cons.IH [OF l1(2)] Cons.prems by fastforce
qed simp

lemma fresh_link_ok:
  assumes "fresh_link l"
  shows "link_ok env (set (leg_circs (sender l))) l"
proof -
  have "sent_seq (sender l) c = 0" "recv_seq (receiver l) c = 0" for c
    using assms get_leg_SomeD by (fastforce simp: fresh_link_def fresh_side_def sent_seq_def recv_seq_def split: option.splits)+
  then have "sender_ok (set (leg_circs (sender l))) (recv_seq (receiver l)) (sender l)"
    "receiver_ok env (set (leg_circs (sender l))) [] (cell_queue (sender l)) [] (receiver l)"
    using assms
    by (auto simp: fresh_link_def fresh_side_def sender_ok_def receiver_ok_def ooo_queue_ok_def queue_waits_def recv_inv_def
      smartlist_pqueue_assert_ok_def RELAY_PAYLOAD_SIZE_MAX_def)
  then show ?thesis using assms by (simp add: link_ok_def fresh_link_def fresh_side_def sent_def marks_ok_def)
qed

lemma fresh_run_ok:
  assumes "fresh_link l" and "keeps_receiver process" and "\<forall>i. relay_env_ok (renv i)" and "length as < 2 ^ 64"
    and "link_run env renv process as l = Some l'"
  shows "link_ok env (set (leg_circs (sender l))) l' \<and> length (sent l') < 2 ^ 64"
proof -
  have "sent l = []" using assms(1) by (simp add: fresh_link_def fresh_side_def sent_def)
  then show ?thesis using link_run_ok [OF assms(5) fresh_link_ok assms(2,3)] assms(1,4) by fastforce
qed

text \<open>If nothing is on its way and no message waits for its turn, all messages were delivered.\<close>

lemma recv_inv_empty:
  assumes "recv_inv S {#} del w" and "queue_waits w" and "\<forall>m \<in> set S. multiplexed m"
  shows "del = S"
proof (rule ccontr)
  assume "del \<noteq> S"
  obtain rest' where rest': "S = del @ rest'" "mset (walk (of_nat (length del)) rest') =
      image_mset (\<lambda>m. (seq m, queued_msg m)) (mset (pq_list (ooo_q (cfx w))))"
    using assms(1) by (auto simp: recv_inv_def)
  with \<open>del \<noteq> S\<close> obtain x xs where "rest' = x # xs" by (cases rest') auto
  note rest = rest' [unfolded this]
  have "multiplexed x" using assms(3) rest(1) by simp
  then have "(of_nat (length del) + 1, x) \<in># mset (walk (of_nat (length del)) (x # xs))" by simp
  then have "(of_nat (length del) + 1, x) \<in># image_mset (\<lambda>m. (seq m, queued_msg m)) (mset (pq_list (ooo_q (cfx w))))"
    by (simp only: rest(2))
  then show False using assms(1,2) by (auto simp: queue_waits_def recv_inv_def)
qed

subsection \<open>An example\<close>

definition demo_link :: conflux_link where
  "demo_link = \<lparr> sender = demo_side, receiver = demo_side, delivered = [] \<rparr>"

definition demo_relay_env :: relay_env where
  "demo_relay_env = \<lparr> relay_cell_max_payload_size = (\<lambda>_ _. 498), encodable = (\<lambda>_ _. True),
     circuit_package_relay_cell = (\<lambda>_ _. Package_Queued), window_ok = (\<lambda>_ _. True) \<rparr>"

definition demo_actions :: "action list" where
  "demo_actions = [Send 0 1 (demo_msg 1), Rtt 1 9, Send 0 1 (demo_msg 2), Receive 2 (Some 7) 0, Receive 2 (Some 7) 0, Receive 1 (Some 7) 1]"

lemma demo_fresh: "fresh_link demo_link"
  by (auto simp: fresh_link_def fresh_side_def demo_link_def demo_side_def demo_circuit_def leg_circs_def)

lemma demo_relay_env_ok: "\<forall>i. relay_env_ok demo_relay_env"
  by (simp add: relay_env_ok_def demo_relay_env_def)

lemma demo_run:
  "map_option (\<lambda>l. (delivered l, sent l, closed (sender l), closed (receiver l), map (cell_queue (sender l)) [1, 2]))
     (link_run demo_conflux_env (\<lambda>_. demo_relay_env) (\<lambda>w c m. (0, w)) demo_actions demo_link) =
   Some ([demo_msg 1, demo_msg 2], [demo_msg 1, demo_msg 2], [], [], [[], []])"
  by code_simp

subsection \<open>Properties\<close>

text \<open>C7: Whatever circuits the messages took and in whatever order their cells arrived, the streams are
  handed exactly the messages that were sent, in that order, each once and without a gap, up to
  some point: this holds after every sequence of fewer than \<open>2 ^ 64\<close> events on a fresh set, also when the set
  has just been closed.\<close>

theorem conflux_delivers_in_order:
  assumes "fresh_link l" and "keeps_receiver process" and "\<forall>i. relay_env_ok (renv i)" and "length as < 2 ^ 64"
    and "link_run env renv process as l = Some l'"
  shows "prefix (delivered l') (sent l')"
  using fresh_run_ok [OF assms] by (simp add: link_ok_def)

theorem conflux_delivers_in_order_witness:
  "\<exists>l'. link_run demo_conflux_env (\<lambda>_. demo_relay_env) (\<lambda>w c m. (0, w)) demo_actions demo_link = Some l' \<and>
     delivered l' = [demo_msg 1, demo_msg 2] \<and> prefix (delivered l') (sent l')"
proof -
  obtain l' where l': "link_run demo_conflux_env (\<lambda>_. demo_relay_env) (\<lambda>w c m. (0, w)) demo_actions demo_link = Some l'"
    "delivered l' = [demo_msg 1, demo_msg 2]" using demo_run by auto
  then show ?thesis
    using conflux_delivers_in_order [OF demo_fresh demo_handler demo_relay_env_ok _ l'(1)] by (simp add: demo_actions_def)
qed

text \<open>C8: Nothing is lost or held back: when every cell has arrived and no circuit was closed, all messages that
  were sent have been handed over.\<close>

theorem conflux_delivers_all:
  assumes "fresh_link l" and "keeps_receiver process" and "\<forall>i. relay_env_ok (renv i)" and "length as < 2 ^ 64"
    and "link_run env renv process as l = Some l'" and "closed (sender l') = []" and "closed (receiver l') = []"
    and "\<And>c. c \<in> set (leg_circs (sender l)) \<Longrightarrow> cell_queue (sender l') c = []"
  shows "delivered l' = sent l'"
proof -
  have ok: "receiver_ok env (set (leg_circs (sender l))) (sent l') (cell_queue (sender l')) (delivered l') (receiver l')"
    using fresh_run_ok [OF assms(1-3) _ assms(5)] assms(4,6,7) by (simp add: link_ok_def)
  then have "recv_inv (sent l') {#} (delivered l') (receiver l')" using assms(8) by (simp add: receiver_ok_def)
  moreover have "queue_waits (receiver l')" using ok by (simp add: receiver_ok_def)
  ultimately show ?thesis by (rule recv_inv_empty) (simp add: sent_def)
qed

theorem conflux_delivers_all_witness:
  "\<exists>l'. link_run demo_conflux_env (\<lambda>_. demo_relay_env) (\<lambda>w c m. (0, w)) demo_actions demo_link = Some l' \<and>
     delivered l' = sent l' \<and> length (sent l') = 2"
proof -
  obtain l' where l': "link_run demo_conflux_env (\<lambda>_. demo_relay_env) (\<lambda>w c m. (0, w)) demo_actions demo_link = Some l'"
    "delivered l' = [demo_msg 1, demo_msg 2]" "closed (sender l') = []" "closed (receiver l') = []"
    "cell_queue (sender l') 1 = []" "cell_queue (sender l') 2 = []" using demo_run by auto
  have "cell_queue (sender l') c = []" if "c \<in> set (leg_circs (sender demo_link))" for c
    using that l'(5,6) by (auto simp: demo_link_def demo_side_def leg_circs_def)
  then have "delivered l' = sent l'"
    using conflux_delivers_all [OF demo_fresh demo_handler demo_relay_env_ok _ l'(1,3,4)] by (simp add: demo_actions_def)
  moreover have "length (delivered l') = 2" using l'(2) by simp
  ultimately show ?thesis using l'(1) by auto
qed

text \<open>C36: A peer that follows the protocol is never accused: a message on one of its circuits that comes from the
  right hop does not close the circuit, as long as the queue is below its limit. In particular its number
  is never one that was delivered before.\<close>

theorem conflux_no_false_close:
  assumes "fresh_link l" and "keeps_receiver process" and "\<forall>i. relay_env_ok (renv i)" and "length as < 2 ^ 64"
    and "link_run env renv process as l = Some l'" and "closed (sender l') = []" and "closed (receiver l') = []"
    and "cell_queue (sender l') c = m # ms" and "c \<in> set (leg_circs (sender l))" and "conflux_should_multiplex (command m)"
    and "conflux_validate_source_hop (circuits (receiver l') c) hint"
    and "ooo_q_alloc_cost (cfx (receiver l')) < ucast (max_ooo_queue_bytes env)" and "unat (msg_length m) \<le> RELAY_PAYLOAD_SIZE_MAX"
  shows "\<exists>in_order w. conflux_process_relay_msg env (receiver l') c hint m addr = Some (in_order, w) \<and> closed w = []"
proof -
  let ?w = "receiver l'"
  have ok: "receiver_ok env (set (leg_circs (sender l))) (sent l') (cell_queue (sender l')) (delivered l') ?w"
    and len: "length (sent l') < 2 ^ 64"
    using fresh_run_ok [OF assms(1-5)] assms(6,7) by (simp_all add: link_ok_def)
  obtain p where p: "conflux_get_leg ?w c = Some p" using get_leg_Some [of c ?w] ok assms(9) by (auto simp: receiver_ok_def)
  define w1 where "w1 = set_leg p (\<lambda>l. l\<lparr> last_seq_recv := last_seq_recv l + 1 \<rparr>) ?w"
  obtain X where ri: "recv_inv (sent l') (add_mset (last_seq_recv (leg_at w1 p), m) X) (delivered l') w1"
    using count_received [OF ok assms(9,8,10) p w1_def] by blast
  have w1: "cfx w1 = cfx ?w" "closed w1 = closed ?w" by (simp_all add: w1_def set_leg_def)
  have "\<not> last_seq_recv (leg_at w1 p) \<le> last_seq_delivered (cfx ?w)"
    using coming_number [OF ri sent_multiplexed [OF len]] w1 by simp
  then show ?thesis using assms(7,11-13) w1 p
    by (auto simp: conflux_process_relay_msg_def conflux_queue_msg_def Let_def not_le simp flip: w1_def)
qed

lemma demo_one_sent:
  "map_option (\<lambda>l. (closed (sender l), closed (receiver l), cell_queue (sender l) 1, ooo_q_alloc_cost (cfx (receiver l)),
       conflux_validate_source_hop (circuits (receiver l) 1) (Some 7)))
     (link_run demo_conflux_env (\<lambda>_. demo_relay_env) (\<lambda>w c m. (0, w)) [Send 0 1 (demo_msg 1)] demo_link) =
   Some ([], [], [demo_msg 1], 0, True)"
  by code_simp

theorem conflux_no_false_close_witness:
  "\<exists>l' in_order w. link_run demo_conflux_env (\<lambda>_. demo_relay_env) (\<lambda>w c m. (0, w)) [Send 0 1 (demo_msg 1)] demo_link = Some l' \<and>
     conflux_process_relay_msg demo_conflux_env (receiver l') 1 (Some 7) (demo_msg 1) 0 = Some (in_order, w) \<and> closed w = []"
proof -
  obtain l' where l': "link_run demo_conflux_env (\<lambda>_. demo_relay_env) (\<lambda>w c m. (0, w)) [Send 0 1 (demo_msg 1)] demo_link = Some l'"
    "closed (sender l') = []" "closed (receiver l') = []" "cell_queue (sender l') 1 = [demo_msg 1]"
    "ooo_q_alloc_cost (cfx (receiver l')) = 0" "conflux_validate_source_hop (circuits (receiver l') 1) (Some 7)"
    using demo_one_sent by auto
  have "\<exists>in_order w. conflux_process_relay_msg demo_conflux_env (receiver l') 1 (Some 7) (demo_msg 1) 0 = Some (in_order, w) \<and> closed w = []"
    using l'(5) by (intro conflux_no_false_close [OF demo_fresh demo_handler demo_relay_env_ok _ l'(1-4) _ _ l'(6)])
      (simp_all add: demo_link_def demo_side_def leg_circs_def demo_msg_def conflux_should_multiplex_def demo_conflux_env_def RELAY_PAYLOAD_SIZE_MAX_def)
  then show ?thesis using l'(1) by auto
qed

end
