(* ===== verification/Tor_Replaycache.thy ===== *)
theory Tor_Replaycache
  imports Tor_Map
begin

text \<open>
  \<^verbatim>\<open>feature/hs_common/replaycache.c\<close>: the cache by which an onion service recognizes INTRODUCE2 cells that it has seen.
  It is a map from SHA-256 digests to pointers; the \<^verbatim>\<open>time_t\<close> that a pointer leads to is in the store \<open>access_times\<close>.
  SHA-256 and the allocator, which returns an address outside those in use, are parameters.
\<close>

record replaycache =
  scrubbed :: int
  scrub_interval :: int
  horizon :: int
  digests_seen :: "nat map_t"
  access_times :: "nat \<Rightarrow> int"

text \<open>The functions that the cache calls.\<close>

record replay_env =
  sip :: "bytes \<Rightarrow> 64 word"
  crypto_digest256 :: "bytes \<Rightarrow> bytes"
  tor_malloc :: "nat set \<Rightarrow> nat"

definition replaycache_new :: "int \<Rightarrow> int \<Rightarrow> replaycache option" where
  "replaycache_new hrz interval =
    (if hrz < 0 then None
     else let interval = (if interval < 0 then 0 else interval)
          in Some \<lparr> scrubbed = 0, scrub_interval = interval, horizon = hrz, digests_seen = map_new, access_times = (\<lambda>_. 0) \<rparr>)"

text \<open>The loop over the map advances with \<^verbatim>\<open>iter_next_rmv\<close> on the entries that are too old and with \<^verbatim>\<open>iter_next\<close> on the others, as
  \<^verbatim>\<open>MAP_FOREACH_MODIFY\<close> does.\<close>

definition replaycache_scrub_if_needed_internal :: "int \<Rightarrow> replaycache \<Rightarrow> replaycache option" where
  "replaycache_scrub_if_needed_internal present r =
    (if present - scrubbed r < scrub_interval r \<and> scrubbed r > 0 then Some r
     else if horizon r = 0 then Some r
     else do {
       (ents, m) \<leftarrow> map_foreach_modify (\<lambda>e. access_times r (the (snd e)) < present - horizon r) (digests_seen r);
       let r = r\<lparr> digests_seen := m \<rparr>;
       Some (if present > scrubbed r then r\<lparr> scrubbed := present \<rparr> else r) })"

definition addresses_in_use :: "replaycache \<Rightarrow> nat set" where
  "addresses_in_use r = set (map (\<lambda>e. the (snd e)) (ht_elems (digests_seen r)))"

text \<open>The result is the return value, the elapsed time if it is set, and the new cache.\<close>

definition replaycache_add_and_test_internal ::
  "replay_env \<Rightarrow> int \<Rightarrow> replaycache \<Rightarrow> bytes \<Rightarrow> (bool \<times> int option \<times> replaycache) option" where
  "replaycache_add_and_test_internal env present r data =
    (if present \<le> 0 \<or> length data = 0 then Some (False, None, r)
     else let digest = crypto_digest256 env data
          in case map_get (digest256map_impl (sip env)) (digests_seen r) digest of
            Some access_time \<Rightarrow>
              let t = access_times r access_time;
                  rv = (t \<ge> present - horizon r \<or> horizon r = 0);
                  elapsed = (if rv then Some (if present \<ge> t then present - t else 0) else None);
                  r = (if t < present then r\<lparr> access_times := (access_times r)(access_time := present) \<rparr> else r)
              in do { r \<leftarrow> replaycache_scrub_if_needed_internal present r; Some (rv, elapsed, r) }
          | None \<Rightarrow>
              let access_time = tor_malloc env (addresses_in_use r);
                  r = r\<lparr> access_times := (access_times r)(access_time := present) \<rparr>
              in do {
                (old, m) \<leftarrow> map_set (digest256map_impl (sip env)) (digests_seen r) digest (Some access_time);
                r \<leftarrow> replaycache_scrub_if_needed_internal present (r\<lparr> digests_seen := m \<rparr>);
                Some (False, None, r) })"

text \<open>The three functions below read the clock, here the argument \<open>now\<close>.\<close>

definition replaycache_add_and_test :: "replay_env \<Rightarrow> int \<Rightarrow> replaycache \<Rightarrow> bytes \<Rightarrow> (bool \<times> replaycache) option" where
  "replaycache_add_and_test env now r data = map_option (\<lambda>(rv, _, r). (rv, r)) (replaycache_add_and_test_internal env now r data)"

definition replaycache_add_test_and_elapsed ::
  "replay_env \<Rightarrow> int \<Rightarrow> replaycache \<Rightarrow> bytes \<Rightarrow> (bool \<times> int option \<times> replaycache) option" where
  "replaycache_add_test_and_elapsed env now r data = replaycache_add_and_test_internal env now r data"

definition replaycache_scrub_if_needed :: "int \<Rightarrow> replaycache \<Rightarrow> replaycache option" where
  "replaycache_scrub_if_needed now r = replaycache_scrub_if_needed_internal now r"

definition replaycache_free :: "replaycache option \<Rightarrow> nat option list option" where
  "replaycache_free r = (case r of None \<Rightarrow> Some [] | Some r \<Rightarrow> map_free (Some (digests_seen r)))"

subsection \<open>Sequences of calls\<close>

text \<open>A call tests some data, or only scrubs. The answer to a test is the elapsed time of a hit.\<close>

datatype replay_call = Test int bytes | Scrub int

primrec call_time :: "replay_call \<Rightarrow> int" where
  "call_time (Test t d) = t"
| "call_time (Scrub t) = t"

fun replay_run :: "replay_env \<Rightarrow> replaycache \<Rightarrow> replay_call list \<Rightarrow> ((bool \<times> int option) list \<times> replaycache) option" where
  "replay_run env r [] = Some ([], r)"
| "replay_run env r (Test t d # cs) = do {
     (rv, elapsed, r) \<leftarrow> replaycache_add_test_and_elapsed env t r d;
     (rs, r) \<leftarrow> replay_run env r cs;
     Some ((rv, elapsed) # rs, r) }"
| "replay_run env r (Scrub t # cs) = do { r \<leftarrow> replaycache_scrub_if_needed t r; replay_run env r cs }"

text \<open>What the answers should be: a test hits if the same digest was tested before, not longer ago than the horizon, and
  the elapsed time is counted from the last such test. \<open>hist\<close> has the tests so far, the last one first.\<close>

definition within :: "int \<Rightarrow> int \<Rightarrow> int \<Rightarrow> bool" where
  "within hrz t t' \<longleftrightarrow> hrz = 0 \<or> t' \<ge> t - hrz"

definition replay_answer :: "int \<Rightarrow> (bytes \<times> int) list \<Rightarrow> int \<Rightarrow> bytes \<Rightarrow> bool \<times> int option" where
  "replay_answer hrz hist t d =
    (case filter (\<lambda>(d', t'). d' = d \<and> within hrz t t') hist of [] \<Rightarrow> (False, None) | (_, t') # _ \<Rightarrow> (True, Some (t - t')))"

fun replay_spec :: "(bytes \<Rightarrow> bytes) \<Rightarrow> int \<Rightarrow> (bytes \<times> int) list \<Rightarrow> replay_call list \<Rightarrow> (bool \<times> int option) list" where
  "replay_spec sha hrz hist [] = []"
| "replay_spec sha hrz hist (Test t data # cs) = replay_answer hrz hist t (sha data) # replay_spec sha hrz ((sha data, t) # hist) cs"
| "replay_spec sha hrz hist (Scrub t # cs) = replay_spec sha hrz hist cs"

subsection \<open>The cache knows what matters of the history\<close>

text \<open>An entry has the time of the last test; a digest without an entry was never tested or too long ago to matter at or after
  \<open>now\<close>.\<close>

definition cache_ok :: "replay_env \<Rightarrow> (bytes \<times> int) list \<Rightarrow> int \<Rightarrow> replaycache \<Rightarrow> bool" where
  "cache_ok env hist now r \<longleftrightarrow> map_inv (digest256map_impl (sip env)) (\<lambda>k. length k = DIGEST256_LEN) (digests_seen r) \<and>
    (\<forall>d d' p. map_view (digests_seen r) d = Some p \<and> map_view (digests_seen r) d' = Some p \<longrightarrow> d = d') \<and> horizon r \<ge> 0 \<and>
    (\<forall>d p. map_view (digests_seen r) d = Some p \<longrightarrow> map_of hist d = Some (access_times r p)) \<and>
    (\<forall>d t. map_view (digests_seen r) d = None \<and> map_of hist d = Some t \<longrightarrow> horizon r \<noteq> 0 \<and> t < now - horizon r)"

definition replay_env_ok :: "replay_env \<Rightarrow> bool" where
  "replay_env_ok env \<longleftrightarrow> (\<forall>data. length (crypto_digest256 env data) = DIGEST256_LEN) \<and> (\<forall>A. finite A \<longrightarrow> tor_malloc env A \<notin> A)"

lemma in_use:
  assumes "map_inv (digest256map_impl s) (\<lambda>k. length k = DIGEST256_LEN) (digests_seen r)"
  shows "addresses_in_use r = {p. \<exists>d. map_view (digests_seen r) d = Some p}"
proof -
  have "addresses_in_use r = (\<lambda>e. the (snd e)) ` {(k, Some v) |k v. map_view (digests_seen r) k = Some v}"
    using dig256m.view_elems(2) [OF assms] by (simp add: addresses_in_use_def)
  then show ?thesis by (auto simp: image_iff) (metis option.sel)
qed

lemma cache_ok_later: "cache_ok env hist now r \<Longrightarrow> now \<le> now' \<Longrightarrow> cache_ok env hist now' r"
  unfolding cache_ok_def by force

lemma scrub_ok:
  assumes "cache_ok env hist now r"
  shows "\<exists>r'. replaycache_scrub_if_needed_internal now r = Some r' \<and> cache_ok env hist now r' \<and> horizon r' = horizon r \<and>
    card (dom (map_view (digests_seen r'))) \<le> card (dom (map_view (digests_seen r)))"
proof -
  let ?impl = "digest256map_impl (sip env)" and ?good = "\<lambda>k :: bytes. length k = DIGEST256_LEN"
  let ?del = "\<lambda>e. access_times r (the (snd e)) < now - horizon r"
  have inv: "map_inv ?impl ?good (digests_seen r)" using assms by (simp add: cache_ok_def)
  obtain m where m: "map_foreach_modify ?del (digests_seen r) = Some (ht_elems (digests_seen r), m)" "map_inv ?impl ?good m"
      "ht_elems m = filter (\<lambda>e. \<not> ?del e) (ht_elems (digests_seen r))"
    using dig256m.foreach_modify [OF inv, of ?del] by blast
  have view: "map_view m d = Some p \<longleftrightarrow> map_view (digests_seen r) d = Some p \<and> \<not> access_times r p < now - horizon r" for d p
    using dig256m.view_Some [OF m(2)] dig256m.view_Some [OF inv] m(3) by auto
  then have "dom (map_view m) \<subseteq> dom (map_view (digests_seen r))" by blast
  then have card: "card (dom (map_view m)) \<le> card (dom (map_view (digests_seen r)))"
    using dig256m.mops.finite [OF inv] by (intro card_mono)
  have gone: "t < now - horizon r" if "map_view m d = None" "map_of hist d = Some t" "horizon r \<noteq> 0" for d t
  proof (cases "map_view (digests_seen r) d")
    case (Some p)
    then show ?thesis using that view [of d p] assms by (auto simp: cache_ok_def)
  qed (use that assms in \<open>auto simp: cache_ok_def\<close>)
  have "cache_ok env hist now (r\<lparr> digests_seen := m, scrubbed := s \<rparr>)" if "horizon r \<noteq> 0" for s
    using assms m(2) gone that by (simp add: cache_ok_def view) blast
  moreover have "cache_ok env hist now (r\<lparr> digests_seen := m \<rparr>)" if "horizon r \<noteq> 0"
    using assms m(2) gone that by (simp add: cache_ok_def view) blast
  ultimately show ?thesis using m(1) assms card by (auto simp: replaycache_scrub_if_needed_internal_def Let_def)
qed

text \<open>The times of the history, the last one first, do not increase.\<close>

definition hist_ok :: "int \<Rightarrow> (bytes \<times> int) list \<Rightarrow> bool" where
  "hist_ok now hist \<longleftrightarrow> sorted_wrt (\<ge>) (map snd hist) \<and> (\<forall>e \<in> set hist. snd e \<le> now)"

lemma answer_map_of:
  assumes "hist_ok now hist"
  shows "replay_answer hrz hist t d =
    (case map_of hist d of None \<Rightarrow> (False, None) | Some t' \<Rightarrow> if within hrz t t' then (True, Some (t - t')) else (False, None))"
  using assms
proof (induction hist)
  case Nil
  then show ?case by (simp add: replay_answer_def)
next
  case (Cons e hist)
  obtain d' t' where e: "e = (d', t')" by (cases e)
  have ok: "hist_ok now hist" and le: "\<forall>x \<in> set hist. snd x \<le> t'" using Cons.prems by (auto simp: hist_ok_def e)
  show ?case
  proof (cases "d' = d \<and> \<not> within hrz t t'")
    case True
    then have "\<forall>x \<in> set hist. \<not> within hrz t (snd x)" using le by (fastforce simp: within_def)
    then have "filter (\<lambda>(d', t'). d' = d \<and> within hrz t t') hist = []" by (fastforce simp: filter_empty_conv)
    then show ?thesis using True by (simp add: replay_answer_def e)
  next
    case False
    then show ?thesis using Cons.IH [OF ok] by (auto simp: replay_answer_def e)
  qed
qed

text \<open>Noting a test.\<close>

lemma record_ok:
  assumes ok: "cache_ok env hist now r" and t: "now \<le> t" and inv: "map_inv (digest256map_impl (sip env)) (\<lambda>k. length k = DIGEST256_LEN) (digests_seen r')"
    and h: "horizon r' = horizon r" and view: "map_view (digests_seen r') = (map_view (digests_seen r))(d \<mapsto> p)"
    and own: "\<And>d'. map_view (digests_seen r) d' = Some p \<Longrightarrow> d' = d"
    and times: "access_times r' p = t" "\<And>q. q \<noteq> p \<Longrightarrow> access_times r' q = access_times r q"
  shows "cache_ok env ((d, t) # hist) t r'"
  unfolding cache_ok_def
proof (intro conjI allI impI)
  fix d1 d2 q
  assume "map_view (digests_seen r') d1 = Some q \<and> map_view (digests_seen r') d2 = Some q"
  then show "d1 = d2" using ok own by (auto simp: view cache_ok_def split: if_splits)
next
  fix d1 q
  assume a: "map_view (digests_seen r') d1 = Some q"
  show "map_of ((d, t) # hist) d1 = Some (access_times r' q)"
  proof (cases "d1 = d")
    case False
    then have "map_view (digests_seen r) d1 = Some q" "q \<noteq> p" using a own by (auto simp: view)
    then show ?thesis using False ok times(2) by (simp add: cache_ok_def)
  qed (use a times(1) in \<open>simp add: view\<close>)
next
  fix d1 t1
  assume a: "map_view (digests_seen r') d1 = None \<and> map_of ((d, t) # hist) d1 = Some t1"
  then have "horizon r \<noteq> 0 \<and> t1 < now - horizon r" using ok by (auto simp: view cache_ok_def split: if_splits)
  then show "horizon r' \<noteq> 0" "t1 < t - horizon r'" using h t by simp_all
qed (use inv ok h in \<open>auto simp: cache_ok_def\<close>)

lemma test_ok:
  assumes env: "replay_env_ok env" and ok: "cache_ok env hist now r" and h: "hist_ok now hist" and t: "now \<le> t" "0 < t" and data: "data \<noteq> []"
    and n: "card (dom (map_view (digests_seen r))) + 1 < 2 ^ 32"
  shows "\<exists>r'. replaycache_add_test_and_elapsed env t r data =
      (case replay_answer (horizon r) hist t (crypto_digest256 env data) of (rv, elapsed) \<Rightarrow> Some (rv, elapsed, r')) \<and>
    cache_ok env ((crypto_digest256 env data, t) # hist) t r' \<and> horizon r' = horizon r \<and>
    card (dom (map_view (digests_seen r'))) \<le> card (dom (map_view (digests_seen r))) + 1"
proof -
  let ?impl = "digest256map_impl (sip env)" and ?d = "crypto_digest256 env data" and ?m = "digests_seen r"
  have inv: "map_inv ?impl (\<lambda>k. length k = DIGEST256_LEN) ?m" and d: "length ?d = DIGEST256_LEN"
    using ok env by (simp_all add: cache_ok_def replay_env_ok_def)
  have get: "map_get ?impl ?m ?d = map_view ?m ?d" using dig256m.map_get_ok [OF inv d] .
  note ans = answer_map_of [OF h, of "horizon r" t ?d]
  show ?thesis
  proof (cases "map_view ?m ?d")
    case (Some p)
    then have last: "map_of hist ?d = Some (access_times r p)" using ok by (auto simp: cache_ok_def)
    then have le: "access_times r p \<le> t" using h t(1) by (fastforce simp: hist_ok_def dest: map_of_SomeD)
    define r1 where "r1 = (if access_times r p < t then r\<lparr> access_times := (access_times r)(p := t) \<rparr> else r)"
    have ok1: "cache_ok env ((?d, t) # hist) t r1"
      using ok Some inv le by (intro record_ok [OF ok t(1), where p = p]) (auto simp: r1_def cache_ok_def)
    obtain r' where r': "replaycache_scrub_if_needed_internal t r1 = Some r'" "cache_ok env ((?d, t) # hist) t r'" "horizon r' = horizon r1"
        "card (dom (map_view (digests_seen r'))) \<le> card (dom (map_view (digests_seen r1)))"
      using scrub_ok [OF ok1] by blast
    have "replaycache_add_test_and_elapsed env t r data = Some (within (horizon r) t (access_times r p),
        if within (horizon r) t (access_times r p) then Some (t - access_times r p) else None, r')"
      using t(2) data get Some le r'(1)
      by (auto simp: replaycache_add_test_and_elapsed_def replaycache_add_and_test_internal_def Let_def r1_def [symmetric] within_def)
    then show ?thesis using r' ans last by (auto simp: r1_def split: if_splits)
  next
    case None
    let ?p = "tor_malloc env (addresses_in_use r)"
    have "finite (addresses_in_use r)" by (simp add: addresses_in_use_def)
    then have "?p \<notin> addresses_in_use r" using env by (simp add: replay_env_ok_def)
    then have fresh: "map_view ?m d' \<noteq> Some ?p" for d' using in_use [OF inv] by auto
    obtain m where m: "map_set ?impl ?m ?d (Some ?p) = Some (map_view ?m ?d, m)" "map_inv ?impl (\<lambda>k. length k = DIGEST256_LEN) m"
        "map_view m = (map_view ?m)(?d \<mapsto> ?p)"
      using dig256m.map_set_ok [OF inv d n] by blast
    define r1 where "r1 = r\<lparr> access_times := (access_times r)(?p := t), digests_seen := m \<rparr>"
    have ok1: "cache_ok env ((?d, t) # hist) t r1"
      using m fresh by (intro record_ok [OF ok t(1), where p = ?p]) (auto simp: r1_def)
    obtain r' where r': "replaycache_scrub_if_needed_internal t r1 = Some r'" "cache_ok env ((?d, t) # hist) t r'" "horizon r' = horizon r1"
        "card (dom (map_view (digests_seen r'))) \<le> card (dom (map_view (digests_seen r1)))"
      using scrub_ok [OF ok1] by blast
    have "replaycache_add_test_and_elapsed env t r data = Some (False, None, r')"
      using t(2) data get None r'(1) m(1)
      by (simp add: replaycache_add_test_and_elapsed_def replaycache_add_and_test_internal_def Let_def r1_def)
    moreover have "replay_answer (horizon r) hist t ?d = (False, None)"
    proof (cases "map_of hist ?d")
      case (Some x)
      then have "horizon r \<noteq> 0 \<and> x < now - horizon r" using ok None unfolding cache_ok_def by blast
      then show ?thesis using t(1) Some ans by (simp add: within_def)
    qed (use ans in simp)
    moreover have "card (dom (map_view m)) \<le> Suc (card (dom (map_view ?m)))" using dig256m.mops.card_upd [OF inv] m(3) by simp
    ultimately show ?thesis using r' by (auto simp: r1_def)
  qed
qed

lemma replay_run_ok:
  assumes "replay_env_ok env" and "cache_ok env hist now r" and "hist_ok now hist"
    and "sorted (now # map call_time cs)" and "\<forall>c \<in> set cs. 0 < call_time c \<and> (case c of Test t d \<Rightarrow> d \<noteq> [] | Scrub t \<Rightarrow> True)"
    and "card (dom (map_view (digests_seen r))) + length cs < 2 ^ 32"
  shows "\<exists>r'. replay_run env r cs = Some (replay_spec (crypto_digest256 env) (horizon r) hist cs, r')"
  using assms(2-)
proof (induction cs arbitrary: hist now r)
  case (Cons c cs)
  show ?case
  proof (cases c)
    case (Test t data)
    then have p: "now \<le> t" "0 < t" "data \<noteq> []" "card (dom (map_view (digests_seen r))) + 1 < 2 ^ 32" using Cons.prems by auto
    obtain r1 where r1: "replaycache_add_test_and_elapsed env t r data =
        (case replay_answer (horizon r) hist t (crypto_digest256 env data) of (rv, elapsed) \<Rightarrow> Some (rv, elapsed, r1))"
        "cache_ok env ((crypto_digest256 env data, t) # hist) t r1" "horizon r1 = horizon r"
        "card (dom (map_view (digests_seen r1))) \<le> card (dom (map_view (digests_seen r))) + 1"
      using test_ok [OF assms(1) Cons.prems(1,2) p] by blast
    have "hist_ok t ((crypto_digest256 env data, t) # hist)" using Cons.prems(2) p(1) by (fastforce simp: hist_ok_def)
    then obtain r' where "replay_run env r1 cs = Some (replay_spec (crypto_digest256 env) (horizon r1) ((crypto_digest256 env data, t) # hist) cs, r')"
      using Cons.IH [OF r1(2)] Cons.prems(3-5) r1(4) Test by auto
    then show ?thesis using r1(1,3) Test by (simp split: prod.splits)
  next
    case (Scrub t)
    then have ok: "cache_ok env hist t r" "hist_ok t hist" using Cons.prems cache_ok_later [of env hist now r t] by (auto simp: hist_ok_def)
    obtain r1 where r1: "replaycache_scrub_if_needed t r = Some r1" "cache_ok env hist t r1" "horizon r1 = horizon r"
        "card (dom (map_view (digests_seen r1))) \<le> card (dom (map_view (digests_seen r)))"
      using scrub_ok [OF ok(1)] by (auto simp: replaycache_scrub_if_needed_def)
    then obtain r' where "replay_run env r1 cs = Some (replay_spec (crypto_digest256 env) (horizon r1) hist cs, r')"
      using Cons.IH [OF r1(2) ok(2)] Cons.prems(3-5) Scrub by auto
    then show ?thesis using r1(1,3) Scrub by simp
  qed
qed simp

lemma replaycache_new_ok:
  assumes "replaycache_new hrz interval = Some r"
  shows "cache_ok env [] now r" "horizon r = hrz" "card (dom (map_view (digests_seen r))) = 0"
  using assms by (auto simp: replaycache_new_def cache_ok_def Let_def dig256m.mops.new split: if_splits)

text \<open>C38: From a fresh cache on, with a clock that does not run backwards, every test of a non-empty message answers whether
  the same digest was tested before within the horizon, and a hit comes with the time that has passed since the last such test.
  Scrubbing, when the interval allows it, never changes an answer.\<close>

theorem replaycache_detects_replays:
  assumes "replay_env_ok env" and "replaycache_new hrz interval = Some r" and "sorted (map call_time cs)"
    and "\<forall>c \<in> set cs. 0 < call_time c \<and> (case c of Test t d \<Rightarrow> d \<noteq> [] | Scrub t \<Rightarrow> True)" and "length cs < 2 ^ 32"
  shows "\<exists>r'. replay_run env r cs = Some (replay_spec (crypto_digest256 env) hrz [] cs, r')"
proof -
  have "sorted (0 # map call_time cs)" using assms(3,4) by fastforce
  moreover have "hist_ok 0 []" by (simp add: hist_ok_def)
  ultimately show ?thesis
    using replay_run_ok [OF assms(1) replaycache_new_ok(1) [OF assms(2)], of 0 cs] replaycache_new_ok(2,3) [OF assms(2)] assms(4,5) by auto
qed

definition example_env :: replay_env where
  "example_env = \<lparr> sip = (\<lambda>k. of_nat (length (takeWhile (\<lambda>b. b = 0) k))), crypto_digest256 = (\<lambda>d. take 32 (d @ replicate 32 0)), tor_malloc = (\<lambda>A. Suc (Max (insert 0 A))) \<rparr>"

lemma example_env_ok: "replay_env_ok example_env"
proof -
  have "Suc (Max (insert 0 A)) \<notin> A" if "finite A" for A :: "nat set"
  proof
    assume "Suc (Max (insert 0 A)) \<in> A"
    then have "Suc (Max (insert 0 A)) \<le> Max (insert 0 A)" using that by (intro Max_ge) auto
    then show False by simp
  qed
  moreover have "min (length d) 32 + (32 - length d) = 32" for d :: bytes by (simp add: min_def)
  ultimately show ?thesis by (simp add: replay_env_ok_def example_env_def)
qed

theorem replaycache_detects_replays_witness:
  "\<exists>r r'. replaycache_new 60 10 = Some r \<and>
    replay_run example_env r [Test 100 [1], Test 130 [1], Scrub 140, Test 150 [2], Test 200 [1], Test 201 [2]] =
      Some ([(False, None), (True, Some 30), (False, None), (False, None), (True, Some 51)], r')"
proof -
  let ?cs = "[Test 100 [1], Test 130 [1], Scrub 140, Test 150 [2], Test 200 [1], Test 201 [2]]"
  obtain r where r: "replaycache_new 60 10 = Some r" by (auto simp: replaycache_new_def)
  moreover have "replay_spec (crypto_digest256 example_env) 60 [] ?cs = [(False, None), (True, Some 30), (False, None), (False, None), (True, Some 51)]"
    by (simp add: example_env_def replay_answer_def within_def)
  ultimately show ?thesis using replaycache_detects_replays [OF example_env_ok r, of ?cs] by auto
qed

end
