(* ===== verification/Tor_Cells.thy ===== *)
theory Tor_Cells
  imports Tor_Buffers
begin

text \<open>
  The link layer: cells on the wire and the negotiation of the link protocol. Fixed and variable-length cells are packed and unpacked
  by \<^verbatim>\<open>core/or/connection_or.c\<close>, taken from the input buffer by \<^verbatim>\<open>core/proto/proto_cell.c\<close>, and handled by \<^verbatim>\<open>core/or/channeltls.c\<close>, where a VERSIONS
  cell fixes the protocol and with it the format of all later cells.

  The input buffer is a buffer of \<open>Tor_Buffers\<close>; no handler touches it, so that it is an argument beside the connection. To the output
  buffer the link layer only appends: it is given by its contents. A running digest is the string that it was given. The processing of
  cells by the rest of the program and the contents of the CERTS, AUTH_CHALLENGE and NETINFO cells are parameters.
\<close>

subsection \<open>Cells and connections\<close>

record cell =
  circ_id :: "32 word"
  cell_command :: byte
  payload :: bytes

record var_cell =
  var_command :: byte
  var_circ_id :: "32 word"
  payload_len :: "16 word"
  var_payload :: bytes

datatype wire_cell = Cell cell | Var_Cell var_cell

datatype or_conn_state = OR_CONN_STATE_CONNECTING | OR_CONN_STATE_PROXY_HANDSHAKING | OR_CONN_STATE_TLS_HANDSHAKING
  | OR_CONN_STATE_SERVER_VERSIONS_WAIT | OR_CONN_STATE_OR_HANDSHAKING_V3 | OR_CONN_STATE_OPEN

record or_handshake_state =
  hs_started_here :: bool
  digest_sent_data :: bool
  digest_received_data :: bool
  sent_versions :: bool
  received_versions :: bool
  sent_netinfo :: bool
  digest_sent :: bytes
  digest_received :: bytes

record or_connection =
  conn_state :: or_conn_state
  conn_marked_for_close :: bool
  hold_open_until_flushed :: bool
  tls_is_server :: bool
  link_proto :: nat
  wide_circ_ids :: bool
  handshake_state :: "or_handshake_state option"
  outbuf :: bytes

record link_env =
  public_server_mode :: bool
  certs_cell :: "or_connection \<Rightarrow> var_cell option"
  auth_challenge_cell :: "or_connection \<Rightarrow> var_cell option"
  netinfo_cell :: "or_connection \<Rightarrow> cell option"
  process_cell :: "or_connection \<Rightarrow> wire_cell \<Rightarrow> or_connection"

abbreviation (input) CELL_PAYLOAD_SIZE :: nat where "CELL_PAYLOAD_SIZE \<equiv> 509"
abbreviation (input) CELL_MAX_NETWORK_SIZE :: nat where "CELL_MAX_NETWORK_SIZE \<equiv> 514"
abbreviation (input) VAR_CELL_MAX_HEADER_SIZE :: nat where "VAR_CELL_MAX_HEADER_SIZE \<equiv> 7"
abbreviation (input) MIN_LINK_PROTO_FOR_WIDE_CIRC_IDS :: nat where "MIN_LINK_PROTO_FOR_WIDE_CIRC_IDS \<equiv> 4"

abbreviation (input) CELL_PADDING :: byte where "CELL_PADDING \<equiv> 0"
abbreviation (input) CELL_CREATE :: byte where "CELL_CREATE \<equiv> 1"
abbreviation (input) CELL_CREATED :: byte where "CELL_CREATED \<equiv> 2"
abbreviation (input) CELL_RELAY :: byte where "CELL_RELAY \<equiv> 3"
abbreviation (input) CELL_DESTROY :: byte where "CELL_DESTROY \<equiv> 4"
abbreviation (input) CELL_CREATE_FAST :: byte where "CELL_CREATE_FAST \<equiv> 5"
abbreviation (input) CELL_CREATED_FAST :: byte where "CELL_CREATED_FAST \<equiv> 6"
abbreviation (input) CELL_VERSIONS :: byte where "CELL_VERSIONS \<equiv> 7"
abbreviation (input) CELL_NETINFO :: byte where "CELL_NETINFO \<equiv> 8"
abbreviation (input) CELL_RELAY_EARLY :: byte where "CELL_RELAY_EARLY \<equiv> 9"
abbreviation (input) CELL_CREATE2 :: byte where "CELL_CREATE2 \<equiv> 10"
abbreviation (input) CELL_CREATED2 :: byte where "CELL_CREATED2 \<equiv> 11"
abbreviation (input) CELL_PADDING_NEGOTIATE :: byte where "CELL_PADDING_NEGOTIATE \<equiv> 12"
abbreviation (input) CELL_VPADDING :: byte where "CELL_VPADDING \<equiv> 128"
abbreviation (input) CELL_CERTS :: byte where "CELL_CERTS \<equiv> 129"
abbreviation (input) CELL_AUTH_CHALLENGE :: byte where "CELL_AUTH_CHALLENGE \<equiv> 130"
abbreviation (input) CELL_AUTHENTICATE :: byte where "CELL_AUTHENTICATE \<equiv> 131"
abbreviation (input) CELL_AUTHORIZE :: byte where "CELL_AUTHORIZE \<equiv> 132"

subsection \<open>The wire format\<close>

text \<open>\<^verbatim>\<open>set_uint16(p, htons(v))\<close> and \<^verbatim>\<open>ntohs(get_uint16(p))\<close>, and the same for 32 bits.\<close>

definition htons_bytes :: "16 word \<Rightarrow> bytes" where
  "htons_bytes v = [ucast (drop_bit 8 v), ucast v]"

definition ntohs_bytes :: "bytes \<Rightarrow> 16 word" where
  "ntohs_bytes p = foldl (\<lambda>n b. push_bit 8 n OR ucast b) 0 (take 2 p)"

definition htonl_bytes :: "32 word \<Rightarrow> bytes" where
  "htonl_bytes v = map (\<lambda>i. ucast (drop_bit (8 * i) v)) [3, 2, 1, 0]"

definition ntohl_bytes :: "bytes \<Rightarrow> 32 word" where
  "ntohl_bytes p = foldl (\<lambda>n b. push_bit 8 n OR ucast b) 0 (take 4 p)"

definition get_cell_network_size :: "bool \<Rightarrow> nat" where
  "get_cell_network_size wide = (if wide then CELL_MAX_NETWORK_SIZE else CELL_MAX_NETWORK_SIZE - 2)"

definition get_var_cell_header_size :: "bool \<Rightarrow> nat" where
  "get_var_cell_header_size wide = (if wide then VAR_CELL_MAX_HEADER_SIZE else VAR_CELL_MAX_HEADER_SIZE - 2)"

definition get_circ_id_size :: "bool \<Rightarrow> nat" where
  "get_circ_id_size wide = (if wide then 4 else 2)"

text \<open>The whole \<^verbatim>\<open>body\<close> of the packed cell.\<close>

definition cell_pack :: "cell \<Rightarrow> bool \<Rightarrow> bytes" where
  "cell_pack src wide = (if wide then htonl_bytes (circ_id src) @ cell_command src # payload src
     else htons_bytes (ucast (circ_id src)) @ cell_command src # payload src @ [0, 0])"

definition cell_unpack :: "bytes \<Rightarrow> bool \<Rightarrow> cell" where
  "cell_unpack src wide =
    (let id = (if wide then ntohl_bytes src else ucast (ntohs_bytes src)); src = drop (if wide then 4 else 2) src
     in \<lparr> circ_id = id, cell_command = src ! 0, payload = take CELL_PAYLOAD_SIZE (drop 1 src) \<rparr>)"

definition var_cell_pack_header :: "var_cell \<Rightarrow> bool \<Rightarrow> bytes" where
  "var_cell_pack_header c wide = (if wide then htonl_bytes (var_circ_id c) else htons_bytes (ucast (var_circ_id c))) @
     var_command c # htons_bytes (payload_len c)"

definition var_cell_new :: "16 word \<Rightarrow> var_cell" where
  "var_cell_new len = \<lparr> var_command = 0, var_circ_id = 0, payload_len = len, var_payload = replicate (unat len) 0 \<rparr>"

definition var_cell_copy :: "var_cell option \<Rightarrow> var_cell option" where
  "var_cell_copy src = map_option (\<lambda>s. \<lparr> var_command = var_command s, var_circ_id = var_circ_id s, payload_len = payload_len s,
     var_payload = take (unat (payload_len s)) (var_payload s) \<rparr>) src"

definition cell_command_is_var_length :: "byte \<Rightarrow> nat \<Rightarrow> bool" where
  "cell_command_is_var_length cmd linkproto =
    (if linkproto = 1 then False else if linkproto = 2 then cmd = CELL_VERSIONS else cmd = CELL_VERSIONS \<or> cmd \<ge> 128)"

text \<open>The first component of the result is the returned flag, the second one the cell (\<^verbatim>\<open>NULL\<close> is \<open>None\<close>).\<close>

definition fetch_var_cell_from_buf :: "nat \<Rightarrow> buf \<Rightarrow> nat \<Rightarrow> (bool \<times> var_cell option \<times> nat \<times> buf) option" where
  "fetch_var_cell_from_buf tot b linkproto =
    (let wide = linkproto \<ge> MIN_LINK_PROTO_FOR_WIDE_CIRC_IDS; circ_id_len = get_circ_id_size wide; header_len = get_var_cell_header_size wide
     in if buf_datalen b < header_len then Some (False, None, tot, b)
        else do {
          hdr \<leftarrow> buf_peek b header_len;
          let cmd = hdr ! circ_id_len;
          if \<not> cell_command_is_var_length cmd linkproto then Some (False, None, tot, b)
          else do {
            let len = ntohs_bytes (drop (circ_id_len + 1) hdr);
            if buf_datalen b < header_len + unat len then Some (True, None, tot, b)
            else do {
              let result = (var_cell_new len)\<lparr> var_command := cmd,
                var_circ_id := (if wide then ntohl_bytes hdr else ucast (ntohs_bytes hdr)) \<rparr>;
              (tot, b) \<leftarrow> buf_drain tot b header_len;
              body \<leftarrow> buf_peek b (unat len);
              (tot, b) \<leftarrow> buf_drain tot b (unat len);
              Some (True, Some (result\<lparr> var_payload := body \<rparr>), tot, b) }}})"

subsection \<open>Sending\<close>

definition connection_or_close_for_error :: "or_connection \<Rightarrow> or_connection" where
  "connection_or_close_for_error conn = conn\<lparr> conn_marked_for_close := True \<rparr>"

definition connection_may_write_to_buf :: "or_connection \<Rightarrow> bool" where
  "connection_may_write_to_buf conn \<longleftrightarrow> \<not> (conn_marked_for_close conn \<and> \<not> hold_open_until_flushed conn)"

definition connection_buf_add :: "bytes \<Rightarrow> or_connection \<Rightarrow> or_connection" where
  "connection_buf_add s conn =
    (if s = [] then conn else if \<not> connection_may_write_to_buf conn then conn
     else if length (outbuf conn) + length s > BUF_MAX_LEN then connection_or_close_for_error conn
     else conn\<lparr> outbuf := outbuf conn @ s \<rparr>)"

text \<open>Both functions that record a cell are given the bytes that they add to the digest.\<close>

definition or_handshake_state_record :: "or_handshake_state \<Rightarrow> bytes \<Rightarrow> bool \<Rightarrow> or_handshake_state" where
  "or_handshake_state_record st s incoming =
    (if incoming then (if \<not> digest_received_data st then st else st\<lparr> digest_received := digest_received st @ s \<rparr>)
     else if \<not> digest_sent_data st then st else st\<lparr> digest_sent := digest_sent st @ s \<rparr>)"

definition or_handshake_state_record_cell :: "or_connection \<Rightarrow> or_handshake_state \<Rightarrow> cell \<Rightarrow> bool \<Rightarrow> or_handshake_state" where
  "or_handshake_state_record_cell conn st c incoming =
    or_handshake_state_record st (take (get_cell_network_size (wide_circ_ids conn)) (cell_pack c (wide_circ_ids conn))) incoming"

definition or_handshake_state_record_var_cell :: "or_connection \<Rightarrow> or_handshake_state \<Rightarrow> var_cell \<Rightarrow> bool \<Rightarrow> or_handshake_state" where
  "or_handshake_state_record_var_cell conn st c incoming =
    or_handshake_state_record st (var_cell_pack_header c (wide_circ_ids conn) @ take (unat (payload_len c)) (var_payload c)) incoming"

text \<open>In the state \<open>OR_CONN_STATE_OR_HANDSHAKING_V3\<close> a missing handshake state would be a \<^verbatim>\<open>NULL\<close> dereference: \<open>None\<close>.\<close>

definition connection_or_write_cell_to_buf :: "cell \<Rightarrow> or_connection \<Rightarrow> or_connection option" where
  "connection_or_write_cell_to_buf c conn =
    (let conn = connection_buf_add (take (get_cell_network_size (wide_circ_ids conn)) (cell_pack c (wide_circ_ids conn))) conn
     in if conn_state conn = OR_CONN_STATE_OR_HANDSHAKING_V3
        then map_option (\<lambda>st. conn\<lparr> handshake_state := Some (or_handshake_state_record_cell conn st c False) \<rparr>) (handshake_state conn)
        else Some conn)"

definition connection_or_write_var_cell_to_buf :: "var_cell \<Rightarrow> or_connection \<Rightarrow> or_connection option" where
  "connection_or_write_var_cell_to_buf c conn =
    (let conn = connection_buf_add (var_cell_pack_header c (wide_circ_ids conn)) conn;
         conn = connection_buf_add (take (unat (payload_len c)) (var_payload c)) conn
     in if conn_state conn = OR_CONN_STATE_OR_HANDSHAKING_V3
        then map_option (\<lambda>st. conn\<lparr> handshake_state := Some (or_handshake_state_record_var_cell conn st c False) \<rparr>) (handshake_state conn)
        else Some conn)"

definition or_protocol_versions :: "16 word list" where
  "or_protocol_versions = [3, 4, 5]"

definition is_or_protocol_version_known :: "16 word \<Rightarrow> bool" where
  "is_or_protocol_version_known v \<longleftrightarrow> v \<in> set or_protocol_versions"

definition versions_payload :: "bool \<Rightarrow> bytes" where
  "versions_payload v3_plus = concat (map htons_bytes
     (filter (\<lambda>v. \<not> (unat v < (if v3_plus then 3 else 0) \<or> unat v > (if v3_plus then 65535 else 2))) or_protocol_versions))"

definition versions_cell :: "bool \<Rightarrow> var_cell" where
  "versions_cell v3_plus =
    (let vs = versions_payload v3_plus;
         c = (var_cell_new (of_nat (length or_protocol_versions * 2)))\<lparr> var_command := CELL_VERSIONS \<rparr>
     in c\<lparr> var_payload := vs @ drop (length vs) (var_payload c), payload_len := of_nat (length vs) \<rparr>)"

definition connection_or_send_versions :: "or_connection \<Rightarrow> bool \<Rightarrow> or_connection option" where
  "connection_or_send_versions conn v3_plus = do {
     st \<leftarrow> handshake_state conn;
     tor_assert (\<not> sent_versions st);
     conn \<leftarrow> connection_or_write_var_cell_to_buf (versions_cell v3_plus) conn;
     st \<leftarrow> handshake_state conn;
     Some (conn\<lparr> handshake_state := Some (st\<lparr> sent_versions := True \<rparr>) \<rparr>) }"

text \<open>The three functions that send what the environment supplies; the flag is false when they return a negative number.\<close>

definition connection_or_send_certs_cell :: "link_env \<Rightarrow> or_connection \<Rightarrow> (bool \<times> or_connection) option" where
  "connection_or_send_certs_cell env conn =
    (case certs_cell env conn of None \<Rightarrow> Some (False, conn) | Some c \<Rightarrow> map_option (Pair True) (connection_or_write_var_cell_to_buf c conn))"

definition connection_or_send_auth_challenge_cell :: "link_env \<Rightarrow> or_connection \<Rightarrow> (bool \<times> or_connection) option" where
  "connection_or_send_auth_challenge_cell env conn =
    (case auth_challenge_cell env conn of None \<Rightarrow> Some (False, conn) | Some c \<Rightarrow> map_option (Pair True) (connection_or_write_var_cell_to_buf c conn))"

definition connection_or_send_netinfo :: "link_env \<Rightarrow> or_connection \<Rightarrow> (bool \<times> or_connection) option" where
  "connection_or_send_netinfo env conn = do {
     st \<leftarrow> handshake_state conn;
     if sent_netinfo st then Some (True, conn)
     else case netinfo_cell env conn of
       None \<Rightarrow> Some (False, conn)
     | Some c \<Rightarrow> map_option (Pair True) (connection_or_write_cell_to_buf c
         (conn\<lparr> handshake_state := Some (st\<lparr> digest_sent_data := False, sent_netinfo := True \<rparr>) \<rparr>)) }"

subsection \<open>Receiving\<close>

definition connection_or_nonopen_was_started_here :: "or_connection \<Rightarrow> bool" where
  "connection_or_nonopen_was_started_here conn =
    (case handshake_state conn of Some st \<Rightarrow> hs_started_here st | None \<Rightarrow> \<not> tls_is_server conn)"

definition connection_init_or_handshake_state :: "or_connection \<Rightarrow> bool \<Rightarrow> or_connection" where
  "connection_init_or_handshake_state conn started_here =
    (case handshake_state conn of Some st \<Rightarrow> conn
     | None \<Rightarrow> conn\<lparr> handshake_state := Some \<lparr> hs_started_here = started_here, digest_sent_data = True, digest_received_data = True,
         sent_versions = False, received_versions = False, sent_netinfo = False, digest_sent = [], digest_received = [] \<rparr> \<rparr>)"

definition command_allowed_before_handshake :: "byte \<Rightarrow> bool" where
  "command_allowed_before_handshake cmd \<longleftrightarrow> cmd = CELL_VERSIONS \<or> cmd = CELL_VPADDING \<or> cmd = CELL_AUTHORIZE"

definition enter_v3_handshake_with_cell :: "var_cell \<Rightarrow> or_connection \<Rightarrow> or_connection option" where
  "enter_v3_handshake_with_cell c conn = do {
     let started_here = connection_or_nonopen_was_started_here conn;
     tor_assert (conn_state conn = OR_CONN_STATE_TLS_HANDSHAKING \<or> conn_state conn = OR_CONN_STATE_SERVER_VERSIONS_WAIT);
     let conn = connection_init_or_handshake_state (conn\<lparr> conn_state := OR_CONN_STATE_OR_HANDSHAKING_V3 \<rparr>) started_here;
     st \<leftarrow> handshake_state conn;
     Some (conn\<lparr> handshake_state := Some (or_handshake_state_record_var_cell conn st c True) \<rparr>) }"

fun version_loop :: "nat \<Rightarrow> bytes \<Rightarrow> nat \<Rightarrow> nat" where
  "version_loop 0 cp highest = highest"
| "version_loop (Suc n) cp highest =
    (let v = ntohs_bytes cp
     in version_loop n (drop 2 cp) (if is_or_protocol_version_known v \<and> unat v > highest then unat v else highest))"

text \<open>The messages that follow a successful negotiation: each one is sent if its flag is set, and a failure closes the connection and
  ends the sequence.\<close>

definition send_if :: "bool \<Rightarrow> (or_connection \<Rightarrow> (bool \<times> or_connection) option) \<Rightarrow> or_connection \<Rightarrow> (bool \<times> or_connection) option" where
  "send_if flag send conn =
    (if \<not> flag then Some (True, conn)
     else map_option (\<lambda>(ok, conn). (ok, if ok then conn else connection_or_close_for_error conn)) (send conn))"

definition channel_tls_process_versions_cell :: "link_env \<Rightarrow> var_cell \<Rightarrow> or_connection \<Rightarrow> or_connection option" where
  "channel_tls_process_versions_cell env c conn =
    (if unat (payload_len c) mod 2 = 1 then Some (connection_or_close_for_error conn)
     else let started_here = connection_or_nonopen_was_started_here conn
     in if link_proto conn \<noteq> 0 \<or> (case handshake_state conn of None \<Rightarrow> False | Some st \<Rightarrow> received_versions st) then Some conn
     else if conn_state conn \<noteq> OR_CONN_STATE_OR_HANDSHAKING_V3 then Some conn
     else do {
       st \<leftarrow> handshake_state conn;
       let highest = version_loop (unat (payload_len c) div 2) (var_payload c) 0;
       if highest = 0 then Some (connection_or_close_for_error conn)
       else if highest = 1 then Some (connection_or_close_for_error conn)
       else if highest < 3 \<and> conn_state conn = OR_CONN_STATE_OR_HANDSHAKING_V3 then Some (connection_or_close_for_error conn)
       else do {
         let conn = conn\<lparr> link_proto := highest, handshake_state := Some (st\<lparr> received_versions := True \<rparr>) \<rparr>;
         if link_proto conn = 2 then map_option snd (send_if True (connection_or_send_netinfo env) conn)
         else do {
           tor_assert (link_proto conn \<ge> 3);
           conn \<leftarrow> (if \<not> started_here then connection_or_send_versions conn True else Some conn);
           let conn = conn\<lparr> wide_circ_ids := link_proto conn \<ge> MIN_LINK_PROTO_FOR_WIDE_CIRC_IDS \<rparr>;
           (ok, conn) \<leftarrow> send_if (\<not> started_here \<or> public_server_mode env) (connection_or_send_certs_cell env) conn;
           if \<not> ok then Some conn
           else do {
             (ok, conn) \<leftarrow> send_if (\<not> started_here) (connection_or_send_auth_challenge_cell env) conn;
             if \<not> ok then Some conn
             else map_option snd (send_if (\<not> started_here) (connection_or_send_netinfo env) conn) }}}})"

definition channel_tls_handle_cell :: "link_env \<Rightarrow> cell \<Rightarrow> or_connection \<Rightarrow> or_connection option" where
  "channel_tls_handle_cell env c conn =
    (let handshaking = (conn_state conn \<noteq> OR_CONN_STATE_OPEN); cmd = cell_command c
     in if conn_marked_for_close conn then Some conn
     else if handshaking \<and> cmd \<noteq> CELL_VERSIONS \<and> cmd \<noteq> CELL_NETINFO then Some (connection_or_close_for_error conn)
     else if conn_state conn = OR_CONN_STATE_OR_HANDSHAKING_V3 \<and> handshake_state conn = None then Some (connection_or_close_for_error conn)
     else let conn = (if conn_state conn = OR_CONN_STATE_OR_HANDSHAKING_V3
         then conn\<lparr> handshake_state := map_option (\<lambda>st. or_handshake_state_record_cell conn st c True) (handshake_state conn) \<rparr> else conn)
     in Some (if cmd \<in> {CELL_NETINFO, CELL_PADDING_NEGOTIATE, CELL_CREATE, CELL_CREATE_FAST, CELL_CREATED, CELL_CREATED_FAST, CELL_RELAY,
         CELL_RELAY_EARLY, CELL_DESTROY, CELL_CREATE2, CELL_CREATED2} then process_cell env conn (Cell c) else conn))"

definition dispatch_var_cell :: "link_env \<Rightarrow> var_cell \<Rightarrow> or_connection \<Rightarrow> or_connection option" where
  "dispatch_var_cell env c conn =
    (if var_command c = CELL_VERSIONS then channel_tls_process_versions_cell env c conn
     else Some (if var_command c \<in> {CELL_CERTS, CELL_AUTH_CHALLENGE, CELL_AUTHENTICATE} then process_cell env conn (Var_Cell c) else conn))"

definition channel_tls_handle_var_cell :: "link_env \<Rightarrow> var_cell \<Rightarrow> or_connection \<Rightarrow> or_connection option" where
  "channel_tls_handle_var_cell env c conn =
    (if conn_marked_for_close conn then Some conn
     else if conn_state conn = OR_CONN_STATE_TLS_HANDSHAKING \<or> conn_state conn = OR_CONN_STATE_SERVER_VERSIONS_WAIT then
       if \<not> command_allowed_before_handshake (var_command c) then Some (connection_or_close_for_error conn)
       else do { conn \<leftarrow> enter_v3_handshake_with_cell c conn; dispatch_var_cell env c conn }
     else if conn_state conn = OR_CONN_STATE_OR_HANDSHAKING_V3 then
       if var_command c \<noteq> CELL_AUTHENTICATE then
         case handshake_state conn of None \<Rightarrow> Some (connection_or_close_for_error conn)
         | Some st \<Rightarrow> dispatch_var_cell env c (conn\<lparr> handshake_state := Some (or_handshake_state_record_var_cell conn st c True) \<rparr>)
       else dispatch_var_cell env c conn
     else if conn_state conn = OR_CONN_STATE_OPEN then (if link_proto conn < 3 then Some conn else dispatch_var_cell env c conn)
     else Some conn)"

primrec handle :: "link_env \<Rightarrow> or_connection \<Rightarrow> wire_cell \<Rightarrow> or_connection option" where
  "handle env conn (Cell c) = channel_tls_handle_cell env c conn"
| "handle env conn (Var_Cell c) = channel_tls_handle_var_cell env c conn"

definition connection_or_launch_v3_or_handshake :: "or_connection \<Rightarrow> or_connection option" where
  "connection_or_launch_v3_or_handshake conn = do {
     tor_assert (connection_or_nonopen_was_started_here conn);
     connection_or_send_versions (connection_init_or_handshake_state (conn\<lparr> conn_state := OR_CONN_STATE_OR_HANDSHAKING_V3 \<rparr>) True) True }"

text \<open>The loop hands over the cells one by one; the last component of the result lists them.\<close>

partial_function (option) connection_or_process_cells_from_inbuf ::
  "link_env \<Rightarrow> nat \<Rightarrow> buf \<Rightarrow> or_connection \<Rightarrow> (nat \<times> buf \<times> or_connection \<times> wire_cell list) option" where
  "connection_or_process_cells_from_inbuf env tot b conn =
    Option.bind (fetch_var_cell_from_buf tot b (link_proto conn)) (\<lambda>(found, var_cell, tot, b).
      if found then
        (case var_cell of
          None \<Rightarrow> Some (tot, b, conn, [])
        | Some c \<Rightarrow>
            Option.bind (handle env conn (Var_Cell c)) (\<lambda>conn.
            Option.bind (connection_or_process_cells_from_inbuf env tot b conn) (\<lambda>(tot, b, conn, cs).
            Some (tot, b, conn, Var_Cell c # cs))))
      else if buf_datalen b < get_cell_network_size (wide_circ_ids conn) then Some (tot, b, conn, [])
      else Option.bind (buf_get_bytes tot b (get_cell_network_size (wide_circ_ids conn))) (\<lambda>(tot, b, s, r).
        Option.bind (handle env conn (Cell (cell_unpack s (wide_circ_ids conn)))) (\<lambda>conn'.
        Option.bind (connection_or_process_cells_from_inbuf env tot b conn') (\<lambda>(tot, b, conn', cs).
        Some (tot, b, conn', Cell (cell_unpack s (wide_circ_ids conn)) # cs)))))"

subsection \<open>The wire format is read back\<close>

lemma ntohs_htons [simp]: "ntohs_bytes (htons_bytes v @ s) = v"
  using word16_bytes [of v] by (simp add: ntohs_bytes_def htons_bytes_def)

lemma ntohs_htons_all [simp]: "ntohs_bytes (htons_bytes v) = v"
  using ntohs_htons [of v "[]"] by simp

lemma ntohl_htonl [simp]: "ntohl_bytes (htonl_bytes v @ s) = v"
  using word32_bytes [of v] by (simp add: ntohl_bytes_def htonl_bytes_def)

lemma length_htons [simp]: "length (htons_bytes v) = 2" "length (htonl_bytes w) = 4"
  by (simp_all add: htons_bytes_def htonl_bytes_def)

definition id_bytes :: "bool \<Rightarrow> 32 word \<Rightarrow> bytes" where
  "id_bytes wide n = (if wide then htonl_bytes n else htons_bytes (ucast n))"

definition read_id :: "bool \<Rightarrow> bytes \<Rightarrow> 32 word" where
  "read_id wide s = (if wide then ntohl_bytes s else ucast (ntohs_bytes s))"

lemma narrow_id: "n < 65536 \<Longrightarrow> (ucast (ucast n :: 16 word) :: 32 word) = n"
  by (simp add: word_unat_eq_iff unsigned_ucast_eq unsigned_take_bit_eq take_bit_nat_eq_self_iff word_less_nat_alt)

lemma read_id_bytes: "wide \<or> n < 65536 \<Longrightarrow> read_id wide (id_bytes wide n @ s) = n"
  by (auto simp: read_id_def id_bytes_def narrow_id)

lemma length_id_bytes [simp]: "length (id_bytes wide n) = get_circ_id_size wide"
  by (simp add: id_bytes_def get_circ_id_size_def)

text \<open>What the functions that send write, and what a sender has to respect when the receiver is in link protocol \<open>lp\<close>.\<close>

primrec wire :: "bool \<Rightarrow> wire_cell \<Rightarrow> bytes" where
  "wire wide (Cell c) = take (get_cell_network_size wide) (cell_pack c wide)"
| "wire wide (Var_Cell c) = var_cell_pack_header c wide @ take (unat (payload_len c)) (var_payload c)"

primrec wire_ok :: "nat \<Rightarrow> wire_cell \<Rightarrow> bool" where
  "wire_ok lp (Cell c) \<longleftrightarrow> length (payload c) = CELL_PAYLOAD_SIZE \<and> \<not> cell_command_is_var_length (cell_command c) lp \<and>
     (lp \<ge> MIN_LINK_PROTO_FOR_WIDE_CIRC_IDS \<or> circ_id c < 65536)"
| "wire_ok lp (Var_Cell c) \<longleftrightarrow> length (var_payload c) = unat (payload_len c) \<and> cell_command_is_var_length (var_command c) lp \<and>
     (lp \<ge> MIN_LINK_PROTO_FOR_WIDE_CIRC_IDS \<or> var_circ_id c < 65536)"

declare wire.simps [simp del]

lemma wire_Cell: "length (payload c) = CELL_PAYLOAD_SIZE \<Longrightarrow> wire wide (Cell c) = id_bytes wide (circ_id c) @ cell_command c # payload c"
  by (simp add: wire.simps cell_pack_def id_bytes_def get_cell_network_size_def)

lemma wire_Var: "length (var_payload c) = unat (payload_len c) \<Longrightarrow>
    wire wide (Var_Cell c) = id_bytes wide (var_circ_id c) @ var_command c # htons_bytes (payload_len c) @ var_payload c"
  by (simp add: wire.simps var_cell_pack_header_def id_bytes_def)

lemma sizes: "get_cell_network_size wide = get_circ_id_size wide + 510" "get_var_cell_header_size wide = get_circ_id_size wide + 3"
  by (simp_all add: get_cell_network_size_def get_circ_id_size_def get_var_cell_header_size_def)

lemma cell_unpack_wire:
  assumes "length (payload c) = CELL_PAYLOAD_SIZE" and "wide \<or> circ_id c < 65536"
  shows "cell_unpack (wire wide (Cell c)) wide = c"
proof -
  have "cell_unpack s wide = (let src = drop (get_circ_id_size wide) s in
      \<lparr> circ_id = read_id wide s, cell_command = src ! 0, payload = take CELL_PAYLOAD_SIZE (drop 1 src) \<rparr>)" for s
    by (simp add: cell_unpack_def read_id_def get_circ_id_size_def Let_def)
  then show ?thesis using assms by (simp add: wire_Cell read_id_bytes)
qed

text \<open>What is at the front of the buffer decides: not a variable-length cell, or one that is incomplete, or a whole one.\<close>

lemma fetch_var_other:
  assumes "buf_ok b" and "\<not> cell_command_is_var_length (contents b ! get_circ_id_size (lp \<ge> MIN_LINK_PROTO_FOR_WIDE_CIRC_IDS)) lp \<or>
    length (contents b) < get_var_cell_header_size (lp \<ge> MIN_LINK_PROTO_FOR_WIDE_CIRC_IDS)"
  shows "fetch_var_cell_from_buf tot b lp = Some (False, None, tot, b)"
  using assms length_buf_contents [OF assms(1)] buf_peek_ok [OF assms(1)]
  by (auto simp: fetch_var_cell_from_buf_def Let_def buf_datalen_def sizes)

lemma fetch_var_prefix:
  assumes "buf_ok b" and "wide = (lp \<ge> MIN_LINK_PROTO_FOR_WIDE_CIRC_IDS)" and "wire_ok lp (Var_Cell c)"
    and "contents b @ y = wire wide (Var_Cell c) @ z" and "length (contents b) < length (wire wide (Var_Cell c))"
  shows "fetch_var_cell_from_buf tot b lp = Some (get_var_cell_header_size wide \<le> length (contents b), None, tot, b)"
proof (cases "length (contents b) < get_var_cell_header_size wide")
  case True
  then show ?thesis using fetch_var_other [OF assms(1), of lp tot] assms(2) by (simp add: not_le)
next
  case False
  let ?h = "get_var_cell_header_size wide"
  have hdr: "take ?h (contents b) = id_bytes wide (var_circ_id c) @ var_command c # htons_bytes (payload_len c)"
    using arg_cong [OF assms(4), of "take ?h"] False assms(3) by (simp add: wire_Var sizes)
  have "unat (payload_len c) = length (var_payload c)" using assms(3) by simp
  then have "length (contents b) < ?h + unat (payload_len c)" using assms(5,3) by (simp add: wire_Var sizes)
  then show ?thesis
    using False assms(1-3) length_buf_contents [OF assms(1)] buf_peek_ok [OF assms(1), of ?h] hdr
    by (simp add: fetch_var_cell_from_buf_def Let_def buf_datalen_def nth_append)
qed

lemma fetch_var_whole:
  assumes "buf_ok b" and "buf_allocation b \<le> tot" and "wide = (lp \<ge> MIN_LINK_PROTO_FOR_WIDE_CIRC_IDS)" and "wire_ok lp (Var_Cell c)"
    and "contents b = wire wide (Var_Cell c) @ rest"
  obtains tot' b' where "fetch_var_cell_from_buf tot b lp = Some (True, Some c, tot', b')" and "buf_ok b'" and "contents b' = rest"
    and "buf_allocation b' \<le> tot'"
proof -
  let ?h = "get_var_cell_header_size wide" and ?n = "unat (payload_len c)"
  have len: "?n = length (var_payload c)" and id: "wide \<or> var_circ_id c < 65536" and var: "cell_command_is_var_length (var_command c) lp"
    using assms(3,4) by auto
  have cont: "contents b = (id_bytes wide (var_circ_id c) @ var_command c # htons_bytes (payload_len c)) @ var_payload c @ rest"
    using assms(4,5) by (simp add: wire_Var)
  have hdr: "take ?h (contents b) = id_bytes wide (var_circ_id c) @ var_command c # htons_bytes (payload_len c)"
    and tl: "drop ?h (contents b) = var_payload c @ rest" by (simp_all add: cont sizes)
  have le: "?h + ?n \<le> length (contents b)" using len by (simp add: cont sizes)
  obtain t1 b1 where d1: "buf_drain tot b ?h = Some (t1, b1)" and be1: "becomes tot b t1 b1 (var_payload c @ rest)"
    using buf_drain_ok [OF assms(1) _ assms(2), of ?h] le tl by (metis add_leD1)
  have b1: "buf_ok b1" "contents b1 = var_payload c @ rest" "buf_allocation b1 \<le> t1"
    using be1 becomes_allocation [OF be1, of 0] assms(2) by (simp_all add: becomes_def)
  obtain t2 b2 where d2: "buf_drain t1 b1 ?n = Some (t2, b2)" and be2: "becomes t1 b1 t2 b2 rest"
    using buf_drain_ok [OF b1(1) _ b1(3), of ?n] b1(2) len by auto
  have "read_id wide (take ?h (contents b)) = var_circ_id c" using hdr read_id_bytes [OF id] by simp
  then have "fetch_var_cell_from_buf tot b lp = Some (True, Some c, t2, b2)"
    using le var d1 d2 buf_peek_ok [OF assms(1), of ?h] buf_peek_ok [OF b1(1), of ?n] b1(2) len hdr assms(3) length_buf_contents [OF assms(1)]
    by (simp add: fetch_var_cell_from_buf_def Let_def buf_datalen_def nth_append read_id_def var_cell_new_def split: if_splits)
  then show thesis by (rule that) (use be2 becomes_allocation [OF be2, of 0] b1(3) in \<open>simp_all add: becomes_def\<close>)
qed

lemma wire_length: "wire_ok lp c \<Longrightarrow> get_circ_id_size wide + 3 \<le> length (wire wide c)"
  by (cases c) (auto simp: wire_Cell wire_Var)

subsection \<open>Streams of cells\<close>

text \<open>The bytes of a sequence of cells in the formats that the receiver is in when it gets to them, and what makes them readable.\<close>

fun deliver :: "link_env \<Rightarrow> or_connection \<Rightarrow> wire_cell list \<Rightarrow> or_connection option" where
  "deliver env conn [] = Some conn"
| "deliver env conn (c # cs) = Option.bind (handle env conn c) (\<lambda>conn. deliver env conn cs)"

fun wire_stream :: "link_env \<Rightarrow> or_connection \<Rightarrow> wire_cell list \<Rightarrow> bytes" where
  "wire_stream env conn [] = []"
| "wire_stream env conn (c # cs) = wire (wide_circ_ids conn) c @ (case handle env conn c of None \<Rightarrow> [] | Some conn \<Rightarrow> wire_stream env conn cs)"

fun stream_ok :: "link_env \<Rightarrow> or_connection \<Rightarrow> wire_cell list \<Rightarrow> bool" where
  "stream_ok env conn [] \<longleftrightarrow> True"
| "stream_ok env conn (c # cs) \<longleftrightarrow> (wide_circ_ids conn \<longleftrightarrow> link_proto conn \<ge> MIN_LINK_PROTO_FOR_WIDE_CIRC_IDS) \<and> wire_ok (link_proto conn) c \<and>
     (case handle env conn c of None \<Rightarrow> False | Some conn \<Rightarrow> stream_ok env conn cs)"

lemma process_partial:
  assumes "buf_ok b" and "wide_circ_ids conn = (link_proto conn \<ge> MIN_LINK_PROTO_FOR_WIDE_CIRC_IDS)" and "wire_ok (link_proto conn) c"
    and "contents b @ y = wire (wide_circ_ids conn) c @ z" and "length (contents b) < length (wire (wide_circ_ids conn) c)"
  shows "connection_or_process_cells_from_inbuf env tot b conn = Some (tot, b, conn, [])"
proof (cases c)
  case (Cell d)
  let ?w = "wide_circ_ids conn"
  have full: "length (wire ?w c) = get_cell_network_size ?w" using assms(3) Cell by (simp add: wire_Cell sizes)
  have "contents b ! get_circ_id_size ?w = cell_command d" if "get_circ_id_size ?w < length (contents b)"
    using arg_cong [OF assms(4), of "\<lambda>s. s ! get_circ_id_size ?w"] that assms(3) Cell by (simp add: nth_append wire_Cell)
  then have "fetch_var_cell_from_buf tot b (link_proto conn) = Some (False, None, tot, b)"
    using assms(2,3) Cell by (intro fetch_var_other [OF assms(1)]) (fastforce simp: sizes)
  then show ?thesis
    using assms(5) full length_buf_contents [OF assms(1)] by (subst connection_or_process_cells_from_inbuf.simps) (simp add: buf_datalen_def)
next
  case (Var_Cell d)
  then have "fetch_var_cell_from_buf tot b (link_proto conn) =
      Some (get_var_cell_header_size (wide_circ_ids conn) \<le> length (contents b), None, tot, b)"
    using fetch_var_prefix [OF assms(1,2), of d y z tot] assms(3-5) by blast
  then show ?thesis
    using length_buf_contents [OF assms(1)] by (subst connection_or_process_cells_from_inbuf.simps) (auto simp: buf_datalen_def sizes)
qed

lemma process_whole:
  assumes "buf_ok b" and "buf_allocation b \<le> tot" and "wide_circ_ids conn = (link_proto conn \<ge> MIN_LINK_PROTO_FOR_WIDE_CIRC_IDS)"
    and "wire_ok (link_proto conn) c" and "contents b = wire (wide_circ_ids conn) c @ rest" and "handle env conn c = Some conn'"
  obtains tot' b' where "connection_or_process_cells_from_inbuf env tot b conn =
      map_option (\<lambda>(tot, b, conn, cs). (tot, b, conn, c # cs)) (connection_or_process_cells_from_inbuf env tot' b' conn')"
    and "buf_ok b'" and "contents b' = rest" and "buf_allocation b' \<le> tot'"
proof (cases c)
  case (Cell d)
  let ?w = "wide_circ_ids conn" and ?p = "connection_or_process_cells_from_inbuf env"
  have full: "length (wire ?w c) = get_cell_network_size ?w" and len: "length (payload d) = CELL_PAYLOAD_SIZE" and id: "?w \<or> circ_id d < 65536"
    using assms(3,4) Cell by (auto simp: wire_Cell sizes)
  have "contents b ! get_circ_id_size ?w = cell_command d" using assms(5) len Cell by (simp add: nth_append wire_Cell)
  then have f: "fetch_var_cell_from_buf tot b (link_proto conn) = Some (False, None, tot, b)"
    using assms(3,4) Cell by (intro fetch_var_other [OF assms(1)]) simp
  obtain tot' b' where g: "buf_get_bytes tot b (get_cell_network_size ?w) =
      Some (tot', b', take (get_cell_network_size ?w) (contents b), int (length (contents b) - get_cell_network_size ?w))"
    and be: "becomes tot b tot' b' (drop (get_cell_network_size ?w) (contents b))"
    by (rule buf_get_bytes_ok [OF assms(1) _ assms(2), of "get_cell_network_size ?w"]) (use full assms(5) in simp)
  have t: "take (get_cell_network_size ?w) (contents b) = wire ?w c" "drop (get_cell_network_size ?w) (contents b) = rest"
    using full assms(5) by simp_all
  have "\<not> buf_datalen b < get_cell_network_size ?w" using assms(5) full length_buf_contents [OF assms(1)] by (simp add: buf_datalen_def)
  then have "?p tot b conn = map_option (\<lambda>(tot, b, conn, cs). (tot, b, conn, c # cs)) (?p tot' b' conn')"
    using f g t(1) assms(6) cell_unpack_wire [OF len id] Cell
    by (subst connection_or_process_cells_from_inbuf.simps) (simp add: map_conv_bind_option comp_def split_def)
  then show thesis by (rule that) (use be t(2) becomes_allocation [OF be, of 0] assms(2) in \<open>simp_all add: becomes_def\<close>)
next
  case (Var_Cell d)
  let ?p = "connection_or_process_cells_from_inbuf env"
  obtain tot' b' where f: "fetch_var_cell_from_buf tot b (link_proto conn) = Some (True, Some d, tot', b')" and ok: "buf_ok b'" "contents b' = rest"
      "buf_allocation b' \<le> tot'"
    by (rule fetch_var_whole [OF assms(1-3)]) (use assms(4,5) Var_Cell in auto)
  have "?p tot b conn = map_option (\<lambda>(tot, b, conn, cs). (tot, b, conn, c # cs)) (?p tot' b' conn')"
    using f assms(6) Var_Cell by (subst connection_or_process_cells_from_inbuf.simps) (simp add: map_conv_bind_option comp_def split_def)
  then show thesis using ok by (rule that)
qed

text \<open>The buffer does not hold the whole of the next cell.\<close>

definition pending :: "or_connection \<Rightarrow> buf \<Rightarrow> wire_cell list \<Rightarrow> bool" where
  "pending conn b cs \<longleftrightarrow> cs = [] \<or> length (contents b) < length (wire (wide_circ_ids conn) (hd cs))"

lemma pending_nothing: "pending conn b cs \<Longrightarrow> contents b = wire_stream env conn cs \<Longrightarrow> cs = []"
  by (cases cs) (simp_all add: pending_def)

text \<open>One call handles the cells that are complete and leaves the start of the next one.\<close>

lemma process_stream:
  assumes "stream_ok env conn cs" and "contents b @ y = wire_stream env conn cs" and "buf_ok b" and "buf_allocation b \<le> tot"
  shows "\<exists>done rest tot' b' conn'. cs = done @ rest \<and> connection_or_process_cells_from_inbuf env tot b conn = Some (tot', b', conn', done) \<and>
    deliver env conn done = Some conn' \<and> contents b' @ y = wire_stream env conn' rest \<and> stream_ok env conn' rest \<and> buf_ok b' \<and>
    buf_allocation b' \<le> tot' \<and> pending conn' b' rest \<and> length (contents b') \<le> length (contents b)"
  using assms
proof (induction cs arbitrary: conn tot b)
  case Nil
  have empty: "contents b = []" "y = []" using Nil.prems(2) by simp_all
  have "fetch_var_cell_from_buf tot b (link_proto conn) = Some (False, None, tot, b)"
    by (rule fetch_var_other [OF Nil.prems(3)]) (simp add: empty sizes)
  then have "connection_or_process_cells_from_inbuf env tot b conn = Some (tot, b, conn, [])"
    using empty(1) length_buf_contents [OF Nil.prems(3)] by (subst connection_or_process_cells_from_inbuf.simps) (simp add: buf_datalen_def sizes)
  then show ?case using Nil.prems empty by (auto simp: pending_def)
next
  case (Cons c cs)
  obtain conn1 where h: "handle env conn c = Some conn1" and ok1: "stream_ok env conn1 cs" and w: "wide_circ_ids conn = (link_proto conn \<ge> 4)"
    "wire_ok (link_proto conn) c" using Cons.prems(1) by (auto split: option.splits)
  have str: "contents b @ y = wire (wide_circ_ids conn) c @ wire_stream env conn1 cs" using Cons.prems(2) h by simp
  show ?case
  proof (cases "length (contents b) < length (wire (wide_circ_ids conn) c)")
    case True
    then have "connection_or_process_cells_from_inbuf env tot b conn = Some (tot, b, conn, [])"
      using process_partial [OF Cons.prems(3) w str] by blast
    then show ?thesis using Cons.prems True by (intro exI [of _ "[]"] exI [of _ "c # cs"]) (auto simp: pending_def)
  next
    case False
    let ?n = "length (wire (wide_circ_ids conn) c)"
    define r where "r = drop ?n (contents b)"
    have "take ?n (contents b) = wire (wide_circ_ids conn) c" "r @ y = wire_stream env conn1 cs"
      using arg_cong [OF str, of "take ?n"] arg_cong [OF str, of "drop ?n"] False by (simp_all add: r_def)
    then have r: "contents b = wire (wide_circ_ids conn) c @ r" "r @ y = wire_stream env conn1 cs"
      using append_take_drop_id [of ?n "contents b"] by (simp_all add: r_def)
    obtain t1 b1 where p: "connection_or_process_cells_from_inbuf env tot b conn =
        map_option (\<lambda>(tot, b, conn, cs). (tot, b, conn, c # cs)) (connection_or_process_cells_from_inbuf env t1 b1 conn1)"
      and b1: "buf_ok b1" "contents b1 = r" "buf_allocation b1 \<le> t1"
      by (rule process_whole [OF Cons.prems(3,4) w r(1) h])
    obtain dn rest tot' b' conn' where ih: "cs = dn @ rest" "connection_or_process_cells_from_inbuf env t1 b1 conn1 = Some (tot', b', conn', dn)"
        "deliver env conn1 dn = Some conn'" "contents b' @ y = wire_stream env conn' rest" "stream_ok env conn' rest" "buf_ok b'"
        "buf_allocation b' \<le> tot'" "pending conn' b' rest" "length (contents b') \<le> length (contents b1)"
      using Cons.IH [OF ok1 _ b1(1,3)] b1(2) r(2) by blast
    then show ?thesis using p h r(1) b1(2)
      by (intro exI [of _ "c # dn"] exI [of _ rest] exI [of _ tot'] exI [of _ b'] exI [of _ conn']) auto
  qed
qed

text \<open>The bytes arrive in parts; after each part the connection processes its buffer.\<close>

fun arrive :: "link_env \<Rightarrow> buf_env \<Rightarrow> nat \<Rightarrow> buf \<Rightarrow> or_connection \<Rightarrow> bytes list \<Rightarrow> (nat \<times> buf \<times> or_connection \<times> wire_cell list) option" where
  "arrive env benv tot b conn [] = Some (tot, b, conn, [])"
| "arrive env benv tot b conn (s # parts) = do {
     (tot, b, r) \<leftarrow> buf_add benv tot b s;
     (tot, b, conn, cs) \<leftarrow> connection_or_process_cells_from_inbuf env tot b conn;
     (tot, b, conn, cs') \<leftarrow> arrive env benv tot b conn parts;
     Some (tot, b, conn, cs @ cs') }"

lemma deliver_append: "deliver env conn (cs @ cs') = Option.bind (deliver env conn cs) (\<lambda>conn. deliver env conn cs')"
  by (induction cs arbitrary: conn) (simp_all add: bind_assoc)

lemma arrive_ok:
  assumes "stream_ok env conn cs" and "contents b @ concat parts @ y = wire_stream env conn cs" and "pending conn b cs" and "buf_ok b"
    and "buf_allocation b \<le> tot" and "length (contents b) + length (concat parts) \<le> BUF_MAX_LEN"
  shows "\<exists>dn rest tot' b' conn'. cs = dn @ rest \<and> arrive env benv tot b conn parts = Some (tot', b', conn', dn) \<and>
    deliver env conn dn = Some conn' \<and> contents b' @ y = wire_stream env conn' rest \<and> pending conn' b' rest"
  using assms
proof (induction parts arbitrary: conn cs tot b)
  case Nil
  then show ?case by auto
next
  case (Cons s parts)
  obtain t1 b1 where a: "buf_add benv tot b s = Some (t1, b1, int (length (contents b) + length s))" and be: "becomes tot b t1 b1 (contents b @ s)"
    using buf_add_ok [OF Cons.prems(4), of s benv tot] Cons.prems(6) by auto
  have b1: "buf_ok b1" "contents b1 = contents b @ s" "buf_allocation b1 \<le> t1"
    using be becomes_allocation [OF be, of 0] Cons.prems(5) by (simp_all add: becomes_def)
  obtain dn1 rest1 t2 b2 conn2 where p: "cs = dn1 @ rest1" "connection_or_process_cells_from_inbuf env t1 b1 conn = Some (t2, b2, conn2, dn1)"
      "deliver env conn dn1 = Some conn2" "contents b2 @ (concat parts @ y) = wire_stream env conn2 rest1" "stream_ok env conn2 rest1"
      "buf_ok b2" "buf_allocation b2 \<le> t2" "pending conn2 b2 rest1" "length (contents b2) \<le> length (contents b1)"
    using process_stream [OF Cons.prems(1) _ b1(1,3), of "concat parts @ y"] Cons.prems(2) b1(2) by auto
  have "length (contents b2) + length (concat parts) \<le> BUF_MAX_LEN" using p(9) Cons.prems(6) b1(2) by simp
  from Cons.IH [OF p(5,4,8,6,7) this] obtain dn rest tot' b' conn' where ih: "rest1 = dn @ rest"
      "arrive env benv t2 b2 conn2 parts = Some (tot', b', conn', dn)" "deliver env conn2 dn = Some conn'"
      "contents b' @ y = wire_stream env conn' rest" "pending conn' b' rest" by blast
  then show ?case using a p by (intro exI [of _ "dn1 @ dn"] exI [of _ rest] exI [of _ tot'] exI [of _ b'] exI [of _ conn']) (simp add: deliver_append)
qed

lemma pending_new:
  assumes "stream_ok env conn cs"
  shows "pending conn buf_new cs"
proof (cases cs)
  case (Cons c cs')
  then show ?thesis using assms(1) wire_length [of "link_proto conn" c "wide_circ_ids conn"] buf_new_ok by (auto simp: pending_def)
qed (simp add: pending_def)

lemma arrive_all:
  assumes "stream_ok env conn cs" and "concat parts = wire_stream env conn cs" and "length (concat parts) \<le> BUF_MAX_LEN"
  shows "\<exists>tot' b' conn'. arrive env benv tot buf_new conn parts = Some (tot', b', conn', cs) \<and> deliver env conn cs = Some conn' \<and> contents b' = []"
proof -
  obtain dn rest tot' b' conn' where a: "cs = dn @ rest" "arrive env benv tot buf_new conn parts = Some (tot', b', conn', dn)"
      "deliver env conn dn = Some conn'" "contents b' = wire_stream env conn' rest" "pending conn' b' rest"
    using arrive_ok [OF assms(1) _ pending_new [OF assms(1)] buf_new_ok(1), where parts = parts and y = "[]" and tot = tot and benv = benv]
      assms(2,3) buf_new_ok(2,3) by auto
  moreover have "rest = []" by (rule pending_nothing [OF a(5,4)])
  ultimately show ?thesis by simp
qed

text \<open>C9: Cells survive any segmentation of the byte stream. Whatever parts of a stream of cells arrive, and however they are cut, the
  connection hands over exactly the cells that are complete, unchanged and in order, with the effect of handling them one by one; the rest stays
  in the input buffer. Each cell is read in the format that the handling of the cells before it has left the connection in, so that
  the stream may change its format behind a VERSIONS cell.\<close>

theorem cells_survive_segmentation:
  assumes "stream_ok env conn cs" and "concat parts @ y = wire_stream env conn cs" and "length (concat parts) \<le> BUF_MAX_LEN"
  shows "\<exists>dn rest tot' b' conn'. cs = dn @ rest \<and> arrive env benv tot buf_new conn parts = Some (tot', b', conn', dn) \<and>
    deliver env conn dn = Some conn' \<and> contents b' @ y = wire_stream env conn' rest \<and>
    (rest = [] \<or> length (contents b') < length (wire (wide_circ_ids conn') (hd rest)))"
  using arrive_ok [OF assms(1) _ pending_new [OF assms(1)] buf_new_ok(1), where parts = parts and y = y] assms(2,3) buf_new_ok(2,3)
  unfolding pending_def by simp

subsection \<open>The negotiation of the link protocol\<close>

text \<open>The part of a connection that no message after the negotiation changes.\<close>

definition keeps :: "or_connection \<Rightarrow> or_connection \<Rightarrow> bool" where
  "keeps conn conn' \<longleftrightarrow> link_proto conn' = link_proto conn \<and> wide_circ_ids conn' = wide_circ_ids conn"

lemma keeps_refl [simp]: "keeps conn conn" and keeps_trans: "keeps a b \<Longrightarrow> keeps b c \<Longrightarrow> keeps a c"
  by (simp_all add: keeps_def)

lemma close_simps [simp]: "link_proto (connection_or_close_for_error conn) = link_proto conn"
  "wide_circ_ids (connection_or_close_for_error conn) = wide_circ_ids conn" "conn_state (connection_or_close_for_error conn) = conn_state conn"
  "handshake_state (connection_or_close_for_error conn) = handshake_state conn" "conn_marked_for_close (connection_or_close_for_error conn)"
  by (simp_all add: connection_or_close_for_error_def)

lemma buf_add_simps [simp]: "link_proto (connection_buf_add s conn) = link_proto conn"
  "wide_circ_ids (connection_buf_add s conn) = wide_circ_ids conn" "conn_state (connection_buf_add s conn) = conn_state conn"
  "handshake_state (connection_buf_add s conn) = handshake_state conn"
  by (simp_all add: connection_buf_add_def)

text \<open>In the handshake every message can be sent, and sending leaves the connection in the handshake.\<close>

definition handshaking :: "or_connection \<Rightarrow> bool" where
  "handshaking conn \<longleftrightarrow> conn_state conn = OR_CONN_STATE_OR_HANDSHAKING_V3 \<and> handshake_state conn \<noteq> None"

lemma write_cell_keeps:
  assumes "handshaking conn"
  shows "\<exists>conn'. connection_or_write_cell_to_buf c conn = Some conn' \<and> keeps conn conn' \<and> handshaking conn'"
    and "\<exists>conn'. connection_or_write_var_cell_to_buf d conn = Some conn' \<and> keeps conn conn' \<and> handshaking conn'"
  using assms by (auto simp: connection_or_write_cell_to_buf_def connection_or_write_var_cell_to_buf_def handshaking_def keeps_def Let_def)

lemma send_if_keeps:
  assumes "\<exists>ok conn'. send conn = Some (ok, conn') \<and> keeps conn conn' \<and> handshaking conn'" and "handshaking conn"
  shows "\<exists>ok conn'. send_if flag send conn = Some (ok, conn') \<and> keeps conn conn' \<and> handshaking conn'"
proof -
  obtain ok conn' where s: "send conn = Some (ok, conn')" "keeps conn conn'" "handshaking conn'" using assms(1) by blast
  then have "keeps conn (if ok then conn' else connection_or_close_for_error conn')" "handshaking (if ok then conn' else connection_or_close_for_error conn')"
    by (simp_all add: keeps_def handshaking_def)
  then show ?thesis using assms(2) s(1) by (cases flag) (auto simp: send_if_def)
qed

lemma sends_keep:
  assumes "handshaking conn"
  shows "\<exists>ok conn'. connection_or_send_certs_cell env conn = Some (ok, conn') \<and> keeps conn conn' \<and> handshaking conn'"
    and "\<exists>ok conn'. connection_or_send_auth_challenge_cell env conn = Some (ok, conn') \<and> keeps conn conn' \<and> handshaking conn'"
    and "\<exists>ok conn'. connection_or_send_netinfo env conn = Some (ok, conn') \<and> keeps conn conn' \<and> handshaking conn'"
proof -
  show "\<exists>ok conn'. connection_or_send_certs_cell env conn = Some (ok, conn') \<and> keeps conn conn' \<and> handshaking conn'"
    using assms write_cell_keeps(2) [OF assms] by (fastforce simp: connection_or_send_certs_cell_def split: option.split)
  show "\<exists>ok conn'. connection_or_send_auth_challenge_cell env conn = Some (ok, conn') \<and> keeps conn conn' \<and> handshaking conn'"
    using assms write_cell_keeps(2) [OF assms] by (fastforce simp: connection_or_send_auth_challenge_cell_def split: option.split)
  obtain st where st: "handshake_state conn = Some st" using assms by (auto simp: handshaking_def)
  let ?conn = "conn\<lparr> handshake_state := Some (st\<lparr> digest_sent_data := False, sent_netinfo := True \<rparr>) \<rparr>"
  have "handshaking ?conn" "keeps conn ?conn" using assms by (simp_all add: handshaking_def keeps_def)
  then show "\<exists>ok conn'. connection_or_send_netinfo env conn = Some (ok, conn') \<and> keeps conn conn' \<and> handshaking conn'"
    using assms st write_cell_keeps(1) [of ?conn] keeps_trans
    by (fastforce simp: connection_or_send_netinfo_def split: option.split)
qed

lemma send_versions_keeps:
  assumes "handshaking conn" and "\<not> sent_versions (the (handshake_state conn))"
  shows "\<exists>conn'. connection_or_send_versions conn b = Some conn' \<and> keeps conn conn' \<and> handshaking conn'"
proof -
  obtain st where st: "handshake_state conn = Some st" using assms by (auto simp: handshaking_def)
  obtain conn1 where w: "connection_or_write_var_cell_to_buf (versions_cell b) conn = Some conn1" "keeps conn conn1" "handshaking conn1"
    using write_cell_keeps(2) [OF assms(1)] by blast
  obtain st1 where st1: "handshake_state conn1 = Some st1" using w(3) by (auto simp: handshaking_def)
  have "connection_or_send_versions conn b = Some (conn1\<lparr> handshake_state := Some (st1\<lparr> sent_versions := True \<rparr>) \<rparr>)"
    using assms(2) st st1 w(1) by (simp add: connection_or_send_versions_def)
  then show ?thesis using w(2,3) by (simp add: keeps_def handshaking_def)
qed

text \<open>The highest version that both sides know.\<close>

definition highest_common :: "16 word list \<Rightarrow> nat" where
  "highest_common vs = foldr max (map unat (filter is_or_protocol_version_known vs)) 0"

lemma version_loop_highest:
  "version_loop (length vs) (concat (map htons_bytes vs) @ s) h = max h (highest_common vs)"
proof (induction vs arbitrary: h)
  case (Cons v vs)
  have "version_loop (length (v # vs)) (concat (map htons_bytes (v # vs)) @ s) h =
      max (if is_or_protocol_version_known v \<and> unat v > h then unat v else h) (highest_common vs)"
    using Cons.IH by simp
  then show ?case by (simp add: highest_common_def max_def)
qed (simp add: highest_common_def)

lemma foldr_max_Max: "foldr max xs 0 = Max (insert 0 (set xs))" for xs :: "nat list"
  by (induction xs) (simp_all add: insert_commute)

lemma highest_common_iff:
  assumes "0 < n"
  shows "highest_common vs = n \<longleftrightarrow> n \<in> unat ` {v \<in> set vs. is_or_protocol_version_known v} \<and>
    (\<forall>v \<in> set vs. is_or_protocol_version_known v \<longrightarrow> unat v \<le> n)"
  using assms by (auto simp: highest_common_def foldr_max_Max Max_eq_iff)

lemma highest_common_range: "highest_common vs \<in> {0, 3, 4, 5}"
proof (cases "highest_common vs = 0")
  case False
  then obtain v where "highest_common vs = unat v" "is_or_protocol_version_known v" using highest_common_iff [of "highest_common vs" vs] by auto
  then show ?thesis by (auto simp: is_or_protocol_version_known_def or_protocol_versions_def)
qed simp

text \<open>What a VERSIONS cell with the versions \<open>vs\<close> does in the handshake.\<close>

lemma process_versions:
  assumes hs: "handshaking conn" and st: "handshake_state conn = Some st" and new: "link_proto conn = 0" "\<not> received_versions st"
    and sent: "hs_started_here st \<or> \<not> sent_versions st" and c: "var_payload c = concat (map htons_bytes vs)" "unat (payload_len c) = 2 * length vs"
  shows "\<exists>conn'. channel_tls_process_versions_cell env c conn = Some conn' \<and>
    (if highest_common vs = 0 then conn' = connection_or_close_for_error conn
     else link_proto conn' = highest_common vs \<and> wide_circ_ids conn' = (highest_common vs \<ge> MIN_LINK_PROTO_FOR_WIDE_CIRC_IDS) \<and> handshaking conn')"
proof (cases "highest_common vs = 0")
  case True
  then show ?thesis
    using hs st new c version_loop_highest [of vs "[]" 0] by (simp add: channel_tls_process_versions_cell_def handshaking_def Let_def)
next
  case False
  then have h: "highest_common vs \<ge> 3" using highest_common_range [of vs] by auto
  define started where "started = hs_started_here st"
  define conn1 where "conn1 = conn\<lparr> link_proto := highest_common vs, handshake_state := Some (st\<lparr> received_versions := True \<rparr>) \<rparr>"
  have 1: "handshaking conn1" using hs by (simp add: handshaking_def conn1_def)
  obtain conn2 where 2: "(if \<not> started then connection_or_send_versions conn1 True else Some conn1) = Some conn2" "keeps conn1 conn2" "handshaking conn2"
    using send_versions_keeps [OF 1, of True] 1 sent by (cases started) (auto simp: conn1_def started_def)
  define conn3 where "conn3 = conn2\<lparr> wide_circ_ids := link_proto conn2 \<ge> MIN_LINK_PROTO_FOR_WIDE_CIRC_IDS \<rparr>"
  have 3: "handshaking conn3" "link_proto conn3 = highest_common vs" "wide_circ_ids conn3 = (highest_common vs \<ge> 4)"
    using 2(2,3) by (simp_all add: handshaking_def conn3_def keeps_def conn1_def)
  obtain ok4 conn4 where 4: "send_if (\<not> started \<or> public_server_mode env) (connection_or_send_certs_cell env) conn3 = Some (ok4, conn4)"
      "keeps conn3 conn4" "handshaking conn4"
    using send_if_keeps [where send = "connection_or_send_certs_cell env", OF sends_keep(1) [OF 3(1)] 3(1)] by blast
  obtain ok5 conn5 where 5: "send_if (\<not> started) (connection_or_send_auth_challenge_cell env) conn4 = Some (ok5, conn5)"
      "keeps conn4 conn5" "handshaking conn5"
    using send_if_keeps [where send = "connection_or_send_auth_challenge_cell env", OF sends_keep(2) [OF 4(3)] 4(3)] by blast
  obtain ok6 conn6 where 6: "send_if (\<not> started) (connection_or_send_netinfo env) conn5 = Some (ok6, conn6)"
      "keeps conn5 conn6" "handshaking conn6"
    using send_if_keeps [where send = "connection_or_send_netinfo env", OF sends_keep(3) [OF 5(3)] 5(3)] by blast
  have loop: "version_loop (unat (payload_len c) div 2) (var_payload c) 0 = highest_common vs"
    using version_loop_highest [of vs "[]" 0] c by simp
  have "connection_or_nonopen_was_started_here conn = started" using st by (simp add: connection_or_nonopen_was_started_here_def started_def)
  then have "channel_tls_process_versions_cell env c conn = Some (if \<not> ok4 then conn4 else if \<not> ok5 then conn5 else conn6)"
    using hs st new c(2) h 2(1) 4(1) 5(1) 6(1) unfolding channel_tls_process_versions_cell_def loop
    by (cases started) (simp_all add: handshaking_def Let_def conn1_def [symmetric] conn3_def [symmetric])
  then show ?thesis using False 3(2,3) 4 5 6 by (auto simp: keeps_def)
qed

subsection \<open>What a side sends\<close>

text \<open>In the handshake \<open>s\<close> was appended to the output, and the rest that matters stayed.\<close>

definition wrote :: "bytes \<Rightarrow> or_connection \<Rightarrow> or_connection \<Rightarrow> bool" where
  "wrote s conn conn' \<longleftrightarrow> (\<exists>st st'. handshake_state conn = Some st \<and> handshake_state conn' = Some st' \<and> sent_netinfo st' = sent_netinfo st \<and>
     digest_received st' = digest_received st) \<and> conn_state conn' = conn_state conn \<and> link_proto conn' = link_proto conn \<and>
     wide_circ_ids conn' = wide_circ_ids conn \<and> \<not> conn_marked_for_close conn' \<and> outbuf conn' = outbuf conn @ s"

lemma wrote_trans: "wrote s a b \<Longrightarrow> wrote s' b c \<Longrightarrow> wrote (s @ s') a c"
  by (auto simp: wrote_def)

lemma buf_add_writes:
  assumes "\<not> conn_marked_for_close conn" and "length (outbuf conn) + length s \<le> BUF_MAX_LEN"
  shows "connection_buf_add s conn = conn\<lparr> outbuf := outbuf conn @ s \<rparr>"
  using assms by (simp add: connection_buf_add_def connection_may_write_to_buf_def)

lemma record_simps [simp]: "sent_netinfo (or_handshake_state_record st s incoming) = sent_netinfo st"
  "digest_received (or_handshake_state_record st s False) = digest_received st"
  by (simp_all add: or_handshake_state_record_def)

lemma wrote_result:
  assumes "handshake_state conn = Some st" and "\<not> conn_marked_for_close conn"
  shows "wrote s conn (conn\<lparr> outbuf := outbuf conn @ s, handshake_state := Some (or_handshake_state_record st r False) \<rparr>)"
  using assms by (simp add: wrote_def)

lemma write_var_writes:
  assumes "handshaking conn" and "\<not> conn_marked_for_close conn" and "length (outbuf conn) + length (wire (wide_circ_ids conn) (Var_Cell c)) \<le> BUF_MAX_LEN"
  shows "\<exists>conn'. connection_or_write_var_cell_to_buf c conn = Some conn' \<and> wrote (wire (wide_circ_ids conn) (Var_Cell c)) conn conn'"
proof -
  let ?s = "wire (wide_circ_ids conn) (Var_Cell c)"
  obtain st where st: "handshake_state conn = Some st" using assms(1) by (auto simp: handshaking_def)
  have "connection_or_write_var_cell_to_buf c conn =
      Some (conn\<lparr> outbuf := outbuf conn @ ?s, handshake_state := Some (or_handshake_state_record st ?s False) \<rparr>)"
    using assms st by (simp add: connection_or_write_var_cell_to_buf_def buf_add_writes handshaking_def wire.simps or_handshake_state_record_var_cell_def)
  then show ?thesis using wrote_result [OF st assms(2)] by blast
qed

lemma write_cell_writes:
  assumes "handshaking conn" and "\<not> conn_marked_for_close conn" and "length (outbuf conn) + length (wire (wide_circ_ids conn) (Cell c)) \<le> BUF_MAX_LEN"
  shows "\<exists>conn'. connection_or_write_cell_to_buf c conn = Some conn' \<and> wrote (wire (wide_circ_ids conn) (Cell c)) conn conn'"
proof -
  let ?s = "wire (wide_circ_ids conn) (Cell c)"
  obtain st where st: "handshake_state conn = Some st" using assms(1) by (auto simp: handshaking_def)
  have "connection_or_write_cell_to_buf c conn =
      Some (conn\<lparr> outbuf := outbuf conn @ ?s, handshake_state := Some (or_handshake_state_record st ?s False) \<rparr>)"
    using assms st by (simp add: connection_or_write_cell_to_buf_def buf_add_writes handshaking_def wire.simps or_handshake_state_record_cell_def)
  then show ?thesis using wrote_result [OF st assms(2)] by blast
qed

lemma wrote_handshaking: "wrote s conn conn' \<Longrightarrow> handshaking conn \<Longrightarrow> handshaking conn' \<and> \<not> conn_marked_for_close conn'"
  by (auto simp: wrote_def handshaking_def)

lemma wire_length_le: "wire_ok lp c \<Longrightarrow> length (wire wide c) \<le> 65542"
proof (cases c)
  case (Var_Cell d)
  moreover have "unat (payload_len d) < 65536" using unsigned_less [of "payload_len d", where 'a = nat] by simp
  ultimately show "wire_ok lp c \<Longrightarrow> ?thesis" by (simp add: wire_Var get_circ_id_size_def)
qed (simp add: wire_Cell get_circ_id_size_def)

lemma versions_cell_True: "versions_cell True = \<lparr> var_command = CELL_VERSIONS, var_circ_id = 0, payload_len = 6, var_payload = [0, 3, 0, 4, 0, 5] \<rparr>"
  by (simp add: versions_cell_def versions_payload_def or_protocol_versions_def htons_bytes_def var_cell_new_def)

lemma versions_cell_payload: "var_payload (versions_cell True) = concat (map htons_bytes or_protocol_versions)"
    "unat (payload_len (versions_cell True)) = 2 * length or_protocol_versions" "highest_common or_protocol_versions = 5"
  by (simp_all add: versions_cell_True or_protocol_versions_def htons_bytes_def highest_common_def is_or_protocol_version_known_def)

lemma send_versions_writes:
  assumes "handshaking conn" and "\<not> conn_marked_for_close conn" and "\<not> sent_versions (the (handshake_state conn))"
    and "length (outbuf conn) + length (wire (wide_circ_ids conn) (Var_Cell (versions_cell b))) \<le> BUF_MAX_LEN"
  shows "\<exists>conn'. connection_or_send_versions conn b = Some conn' \<and> wrote (wire (wide_circ_ids conn) (Var_Cell (versions_cell b))) conn conn'"
proof -
  obtain conn1 where w: "connection_or_write_var_cell_to_buf (versions_cell b) conn = Some conn1"
      "wrote (wire (wide_circ_ids conn) (Var_Cell (versions_cell b))) conn conn1"
    using write_var_writes [OF assms(1,2,4)] by blast
  obtain st st1 where st: "handshake_state conn = Some st" "handshake_state conn1 = Some st1" using w(2) by (auto simp: wrote_def)
  have "connection_or_send_versions conn b = Some (conn1\<lparr> handshake_state := Some (st1\<lparr> sent_versions := True \<rparr>) \<rparr>)"
    using assms(3) st w(1) by (simp add: connection_or_send_versions_def)
  then show ?thesis using w(2) st by (simp add: wrote_def)
qed

lemma send_netinfo_writes:
  assumes "handshaking conn" and "\<not> conn_marked_for_close conn" and "\<not> sent_netinfo (the (handshake_state conn))"
    and "\<forall>conn. netinfo_cell env conn = Some c" and "length (outbuf conn) + length (wire (wide_circ_ids conn) (Cell c)) \<le> BUF_MAX_LEN"
  shows "\<exists>conn' st st'. connection_or_send_netinfo env conn = Some (True, conn') \<and> outbuf conn' = outbuf conn @ wire (wide_circ_ids conn) (Cell c) \<and>
    handshake_state conn = Some st \<and> handshake_state conn' = Some st' \<and> digest_received st' = digest_received st \<and>
    link_proto conn' = link_proto conn \<and> wide_circ_ids conn' = wide_circ_ids conn"
proof -
  obtain st where st: "handshake_state conn = Some st" using assms(1) by (auto simp: handshaking_def)
  let ?conn = "conn\<lparr> handshake_state := Some (st\<lparr> digest_sent_data := False, sent_netinfo := True \<rparr>) \<rparr>"
  have "handshaking ?conn" "\<not> conn_marked_for_close ?conn" using assms(1,2) by (simp_all add: handshaking_def)
  then obtain conn' where "connection_or_write_cell_to_buf c ?conn = Some conn'" "wrote (wire (wide_circ_ids conn) (Cell c)) ?conn conn'"
    using write_cell_writes [of ?conn c] assms(5) by auto
  then show ?thesis using assms(3,4) st by (auto simp: connection_or_send_netinfo_def wrote_def)
qed

text \<open>The three messages that follow the VERSIONS cell of the side that was called.\<close>

lemma send_flight:
  assumes hs: "handshaking conn" "\<not> conn_marked_for_close conn" "wide_circ_ids conn" and st: "handshake_state conn = Some st" "\<not> sent_netinfo st"
    and fit: "length (outbuf conn) + length (wire True (Var_Cell cc)) + length (wire True (Var_Cell ac)) + length (wire True (Cell nc)) \<le> BUF_MAX_LEN"
    and env: "\<forall>conn. netinfo_cell env conn = Some nc"
  shows "\<exists>conn4 conn5 conn6 st6. connection_or_write_var_cell_to_buf cc conn = Some conn4 \<and> connection_or_write_var_cell_to_buf ac conn4 = Some conn5 \<and>
    connection_or_send_netinfo env conn5 = Some (True, conn6) \<and> link_proto conn6 = link_proto conn \<and> wide_circ_ids conn6 \<and>
    handshake_state conn6 = Some st6 \<and> digest_received st6 = digest_received st \<and>
    outbuf conn6 = outbuf conn @ wire True (Var_Cell cc) @ wire True (Var_Cell ac) @ wire True (Cell nc)"
proof -
  have fit3: "length (outbuf conn) + length (wire (wide_circ_ids conn) (Var_Cell cc)) \<le> BUF_MAX_LEN" using hs(3) fit by simp
  obtain conn4 where s4: "connection_or_write_var_cell_to_buf cc conn = Some conn4" "wrote (wire True (Var_Cell cc)) conn conn4"
    using write_var_writes [OF hs(1,2) fit3] hs(3) by auto
  have 4: "handshaking conn4" "\<not> conn_marked_for_close conn4" "wide_circ_ids conn4" "outbuf conn4 = outbuf conn @ wire True (Var_Cell cc)"
    using s4(2) hs(3) wrote_handshaking [OF s4(2) hs(1)] by (simp_all add: wrote_def)
  have fit4: "length (outbuf conn4) + length (wire (wide_circ_ids conn4) (Var_Cell ac)) \<le> BUF_MAX_LEN" using 4(3,4) fit by simp
  obtain conn5 where s5: "connection_or_write_var_cell_to_buf ac conn4 = Some conn5" "wrote (wire True (Var_Cell ac)) conn4 conn5"
    using write_var_writes [OF 4(1,2) fit4] 4(3) by auto
  have 5: "handshaking conn5" "\<not> conn_marked_for_close conn5" using wrote_handshaking [OF s5(2) 4(1)] by simp_all
  have w5: "wrote (wire True (Var_Cell cc) @ wire True (Var_Cell ac)) conn conn5" by (rule wrote_trans [OF s4(2) s5(2)])
  obtain st5 where st5: "handshake_state conn5 = Some st5" "\<not> sent_netinfo (the (handshake_state conn5))" "digest_received st5 = digest_received st"
    using w5 st by (auto simp: wrote_def)
  have o5: "wide_circ_ids conn5" "outbuf conn5 = outbuf conn @ wire True (Var_Cell cc) @ wire True (Var_Cell ac)" "link_proto conn5 = link_proto conn"
    using w5 hs(3) by (simp_all add: wrote_def)
  have fit5: "length (outbuf conn5) + length (wire (wide_circ_ids conn5) (Cell nc)) \<le> BUF_MAX_LEN" using o5 fit by simp
  obtain conn6 st6 where "connection_or_send_netinfo env conn5 = Some (True, conn6)" "outbuf conn6 = outbuf conn5 @ wire True (Cell nc)"
      "handshake_state conn6 = Some st6" "digest_received st6 = digest_received st5" "link_proto conn6 = link_proto conn" "wide_circ_ids conn6"
    using send_netinfo_writes [OF 5 st5(2) env fit5] st5(1) o5 by auto
  then show ?thesis using s4(1) s5(1) st5(3) o5(2) by auto
qed

text \<open>The answer of the side that was called: all four messages, the first one still in the old format.\<close>

lemma answer_versions:
  assumes hs: "handshaking conn" and st: "handshake_state conn = Some st" and new: "link_proto conn = 0" "\<not> wide_circ_ids conn" "\<not> received_versions st"
    "\<not> hs_started_here st" "\<not> sent_versions st" "\<not> sent_netinfo st" "\<not> conn_marked_for_close conn" "outbuf conn = []"
    and env: "\<forall>conn. certs_cell env conn = Some cc" "\<forall>conn. auth_challenge_cell env conn = Some ac" "\<forall>conn. netinfo_cell env conn = Some nc"
    and ok: "wire_ok 5 (Var_Cell cc)" "wire_ok 5 (Var_Cell ac)" "wire_ok 5 (Cell nc)"
  shows "\<exists>conn' st'. channel_tls_process_versions_cell env (versions_cell True) conn = Some conn' \<and> link_proto conn' = 5 \<and> wide_circ_ids conn' \<and>
    handshake_state conn' = Some st' \<and> digest_received st' = digest_received st \<and>
    outbuf conn' = wire False (Var_Cell (versions_cell True)) @ wire True (Var_Cell cc) @ wire True (Var_Cell ac) @ wire True (Cell nc)"
proof -
  let ?v = "versions_cell True"
  have max: "65542 * 4 \<le> BUF_MAX_LEN" by (simp add: BUF_MAX_LEN_def)
  have "wire_ok 5 (Var_Cell ?v)" by (simp add: versions_cell_True cell_command_is_var_length_def)
  then have len: "length (wire w (Var_Cell ?v)) \<le> 65542" "length (wire w (Var_Cell cc)) \<le> 65542" "length (wire w (Var_Cell ac)) \<le> 65542"
      "length (wire w (Cell nc)) \<le> 65542" for w
    using wire_length_le ok by blast+
  have loop: "version_loop (unat (payload_len ?v) div 2) (var_payload ?v) 0 = 5"
    using versions_cell_payload version_loop_highest [of or_protocol_versions "[]" 0] by simp
  define conn1 where "conn1 = conn\<lparr> link_proto := 5, handshake_state := Some (st\<lparr> received_versions := True \<rparr>) \<rparr>"
  have 1: "handshaking conn1" "\<not> conn_marked_for_close conn1" "\<not> sent_versions (the (handshake_state conn1))" "outbuf conn1 = []" "wide_circ_ids conn1 = False"
    using hs new by (simp_all add: handshaking_def conn1_def)
  have fit1: "length (outbuf conn1) + length (wire (wide_circ_ids conn1) (Var_Cell ?v)) \<le> BUF_MAX_LEN" using 1(4,5) len(1) [of False] max by simp
  obtain conn2 where s2: "connection_or_send_versions conn1 True = Some conn2" "wrote (wire False (Var_Cell ?v)) conn1 conn2"
    using send_versions_writes [OF 1(1-3) fit1] unfolding 1(5) by blast
  define conn3 where "conn3 = conn2\<lparr> wide_circ_ids := link_proto conn2 \<ge> MIN_LINK_PROTO_FOR_WIDE_CIRC_IDS \<rparr>"
  have 3: "handshaking conn3" "\<not> conn_marked_for_close conn3" "wide_circ_ids conn3" "link_proto conn3 = 5" "outbuf conn3 = wire False (Var_Cell ?v)"
    using s2(2) 1 wrote_handshaking [OF s2(2) 1(1)] by (simp_all add: conn3_def wrote_def handshaking_def conn1_def)
  obtain st3 where st3: "handshake_state conn3 = Some st3" "\<not> sent_netinfo st3" "digest_received st3 = digest_received st"
    using s2(2) new(6) by (auto simp: wrote_def conn3_def conn1_def)
  have fit: "length (outbuf conn3) + length (wire True (Var_Cell cc)) + length (wire True (Var_Cell ac)) + length (wire True (Cell nc)) \<le> BUF_MAX_LEN"
    using len(1) [of False] len(2-4) [of True] max 3(5) by simp
  obtain conn4 conn5 conn6 st6 where f: "connection_or_write_var_cell_to_buf cc conn3 = Some conn4"
      "connection_or_write_var_cell_to_buf ac conn4 = Some conn5" "connection_or_send_netinfo env conn5 = Some (True, conn6)"
      "link_proto conn6 = 5" "wide_circ_ids conn6" "handshake_state conn6 = Some st6" "digest_received st6 = digest_received st"
      "outbuf conn6 = wire False (Var_Cell ?v) @ wire True (Var_Cell cc) @ wire True (Var_Cell ac) @ wire True (Cell nc)"
    using send_flight [OF 3(1-3) st3(1,2) fit env(3)] 3(4,5) st3(3) by auto
  have "connection_or_nonopen_was_started_here conn = False" using st new(4) by (simp add: connection_or_nonopen_was_started_here_def)
  then have "channel_tls_process_versions_cell env ?v conn = Some conn6"
    using hs st new(1,3) s2(1) f(1-3) env(1,2) unfolding channel_tls_process_versions_cell_def loop
    by (simp add: handshaking_def versions_cell_True send_if_def connection_or_send_certs_cell_def connection_or_send_auth_challenge_cell_def
        conn1_def [symmetric] conn3_def [symmetric])
  then show ?thesis using f by simp
qed

text \<open>Once the protocol is settled, handling a cell always returns and keeps it.\<close>

lemma handle_settled:
  assumes "link_proto conn \<noteq> 0" and "\<forall>conn c. keeps conn (process_cell env conn c)"
  shows "\<exists>conn'. handle env conn c = Some conn' \<and> keeps conn conn'"
proof (cases c)
  case (Cell d)
  have "keeps conn (process_cell env (conn\<lparr> handshake_state := h \<rparr>) c)" for h
    using assms(2) [rule_format, of "conn\<lparr> handshake_state := h \<rparr>" c] by (simp add: keeps_def)
  then show ?thesis using assms(2) Cell by (auto simp: channel_tls_handle_cell_def Let_def keeps_def)
next
  case (Var_Cell d)
  have versions: "\<exists>conn'. channel_tls_process_versions_cell env d x = Some conn' \<and> keeps x conn'" if "link_proto x \<noteq> 0" for x
    using that by (simp add: channel_tls_process_versions_cell_def keeps_def Let_def)
  have disp: "\<exists>conn'. dispatch_var_cell env d x = Some conn' \<and> keeps x conn'" if "link_proto x \<noteq> 0" for x
    using versions [OF that] assms(2) by (auto simp: dispatch_var_cell_def)
  have rec: "\<exists>conn'. dispatch_var_cell env d (conn\<lparr> handshake_state := h \<rparr>) = Some conn' \<and> keeps conn conn'" for h
    using disp [of "conn\<lparr> handshake_state := h \<rparr>"] assms(1) by (simp add: keeps_def)
  have enter: "\<exists>x. enter_v3_handshake_with_cell d conn = Some x \<and> keeps conn x"
    if "conn_state conn = OR_CONN_STATE_TLS_HANDSHAKING \<or> conn_state conn = OR_CONN_STATE_SERVER_VERSIONS_WAIT"
    using that by (auto simp: enter_v3_handshake_with_cell_def connection_init_or_handshake_state_def keeps_def Let_def split: option.splits)
  have entered: "\<exists>conn'. Option.bind (enter_v3_handshake_with_cell d conn) (dispatch_var_cell env d) = Some conn' \<and> keeps conn conn'"
    if "conn_state conn = OR_CONN_STATE_TLS_HANDSHAKING \<or> conn_state conn = OR_CONN_STATE_SERVER_VERSIONS_WAIT"
  proof -
    from enter [OF that] obtain x where "enter_v3_handshake_with_cell d conn = Some x" "keeps conn x" by blast
    then show ?thesis using disp [of x] assms(1) by (auto simp: keeps_def)
  qed
  have closed: "keeps conn (connection_or_close_for_error conn)" by (simp add: keeps_def)
  show ?thesis using entered rec disp [OF assms(1)] closed Var_Cell
    by (auto simp: channel_tls_handle_var_cell_def split: option.split)
qed

definition new_connection :: "bool \<Rightarrow> or_connection" where
  "new_connection server = \<lparr> conn_state = (if server then OR_CONN_STATE_SERVER_VERSIONS_WAIT else OR_CONN_STATE_TLS_HANDSHAKING),
     conn_marked_for_close = False, hold_open_until_flushed = False, tls_is_server = server, link_proto = 0, wide_circ_ids = False,
     handshake_state = None, outbuf = [] \<rparr>"

text \<open>The calling side after it has sent its VERSIONS cell.\<close>

lemma launched:
  "\<exists>conn st. connection_or_launch_v3_or_handshake (new_connection False) = Some conn \<and> handshaking conn \<and> handshake_state conn = Some st \<and>
    link_proto conn = 0 \<and> \<not> wide_circ_ids conn \<and> \<not> received_versions st \<and> hs_started_here st \<and> \<not> conn_marked_for_close conn \<and>
    outbuf conn = wire False (Var_Cell (versions_cell True)) \<and> digest_sent st = wire False (Var_Cell (versions_cell True))"
  by (simp add: connection_or_launch_v3_or_handshake_def new_connection_def connection_or_nonopen_was_started_here_def
      connection_init_or_handshake_state_def connection_or_send_versions_def connection_or_write_var_cell_to_buf_def Let_def
      or_handshake_state_record_var_cell_def or_handshake_state_record_def wire.simps buf_add_writes handshaking_def
      versions_cell_True var_cell_pack_header_def BUF_MAX_LEN_def)

lemma server_handles_versions:
  assumes "\<forall>conn. certs_cell env conn = Some cc" "\<forall>conn. auth_challenge_cell env conn = Some ac" "\<forall>conn. netinfo_cell env conn = Some nc"
    and "wire_ok 5 (Var_Cell cc)" "wire_ok 5 (Var_Cell ac)" "wire_ok 5 (Cell nc)"
  shows "\<exists>conn st. handle env (new_connection True) (Var_Cell (versions_cell True)) = Some conn \<and> link_proto conn = 5 \<and> wide_circ_ids conn \<and>
    handshake_state conn = Some st \<and> digest_received st = wire False (Var_Cell (versions_cell True)) \<and>
    outbuf conn = wire False (Var_Cell (versions_cell True)) @ wire True (Var_Cell cc) @ wire True (Var_Cell ac) @ wire True (Cell nc)"
proof -
  obtain conn st where e: "enter_v3_handshake_with_cell (versions_cell True) (new_connection True) = Some conn" "handshaking conn"
      "handshake_state conn = Some st" "link_proto conn = 0" "\<not> wide_circ_ids conn" "\<not> received_versions st" "\<not> hs_started_here st"
      "\<not> sent_versions st" "\<not> sent_netinfo st" "\<not> conn_marked_for_close conn" "outbuf conn = []"
      "digest_received st = wire False (Var_Cell (versions_cell True))"
    by (simp add: enter_v3_handshake_with_cell_def new_connection_def connection_or_nonopen_was_started_here_def handshaking_def wire.simps
        connection_init_or_handshake_state_def or_handshake_state_record_var_cell_def or_handshake_state_record_def)
  have "handle env (new_connection True) (Var_Cell (versions_cell True)) = channel_tls_process_versions_cell env (versions_cell True) conn"
    using e(1) by (simp add: channel_tls_handle_var_cell_def new_connection_def command_allowed_before_handshake_def dispatch_var_cell_def versions_cell_True)
  then show ?thesis using answer_versions [OF e(2-11) assms] e(12) by auto
qed

lemma client_handles_versions:
  assumes "handshaking conn" and "handshake_state conn = Some st" and "link_proto conn = 0" and "\<not> received_versions st" and "hs_started_here st"
    and "\<not> conn_marked_for_close conn"
  shows "\<exists>conn'. handle env conn (Var_Cell (versions_cell True)) = Some conn' \<and> link_proto conn' = 5 \<and> wide_circ_ids conn'"
proof -
  define st1 where "st1 = or_handshake_state_record_var_cell conn st (versions_cell True) True"
  have "handle env conn (Var_Cell (versions_cell True)) =
      channel_tls_process_versions_cell env (versions_cell True) (conn\<lparr> handshake_state := Some st1 \<rparr>)"
    using assms by (simp add: channel_tls_handle_var_cell_def dispatch_var_cell_def handshaking_def versions_cell_True st1_def)
  moreover have "handshaking (conn\<lparr> handshake_state := Some st1 \<rparr>)" "\<not> received_versions st1" "hs_started_here st1"
    using assms by (simp_all add: handshaking_def st1_def or_handshake_state_record_var_cell_def or_handshake_state_record_def)
  ultimately show ?thesis
    using process_versions [of "conn\<lparr> handshake_state := Some st1 \<rparr>" st1 "versions_cell True" or_protocol_versions env] assms(3) versions_cell_payload
    by auto
qed

text \<open>C10: Two relays agree on the link protocol. The calling side sends its VERSIONS cell; the other side answers it, however it is cut on the
  way, with its own VERSIONS cell in the old format and the rest of its messages in the new one; and the calling side reads all four of
  them. Both end in protocol 5 with wide circuit numbers, and the string that the called side has hashed of what it received is the one that the
  calling side has hashed of what it sent.\<close>

theorem link_handshake_agrees:
  assumes "\<forall>conn. certs_cell senv conn = Some cc" "\<forall>conn. auth_challenge_cell senv conn = Some ac" "\<forall>conn. netinfo_cell senv conn = Some nc"
    and "wire_ok 5 (Var_Cell cc)" "wire_ok 5 (Var_Cell ac)" "wire_ok 5 (Cell nc)"
    and "\<forall>conn c. keeps conn (process_cell cenv conn c)"
  shows "\<exists>client server. connection_or_launch_v3_or_handshake (new_connection False) = Some client \<and>
    (\<forall>parts. concat parts = outbuf client \<longrightarrow> (\<exists>tot' b'. arrive senv benv tot buf_new (new_connection True) parts =
      Some (tot', b', server, [Var_Cell (versions_cell True)]))) \<and>
    link_proto server = 5 \<and> wide_circ_ids server \<and>
    digest_received (the (handshake_state server)) = digest_sent (the (handshake_state client)) \<and>
    (\<forall>parts. concat parts = outbuf server \<longrightarrow> (\<exists>tot' b' client'. arrive cenv benv tot buf_new client parts =
      Some (tot', b', client', [Var_Cell (versions_cell True), Var_Cell cc, Var_Cell ac, Cell nc]) \<and> contents b' = [] \<and>
      link_proto client' = 5 \<and> wide_circ_ids client'))"
proof -
  let ?v = "versions_cell True"
  have v: "wire_ok 0 (Var_Cell ?v)" by (simp add: versions_cell_True cell_command_is_var_length_def)
  have max: "65542 * 4 \<le> BUF_MAX_LEN" by (simp add: BUF_MAX_LEN_def)
  have len: "length (wire w (Var_Cell ?v)) \<le> 65542" "length (wire w (Var_Cell cc)) \<le> 65542" "length (wire w (Var_Cell ac)) \<le> 65542"
      "length (wire w (Cell nc)) \<le> 65542" for w
    using wire_length_le v assms(4-6) by blast+
  obtain client st where c: "connection_or_launch_v3_or_handshake (new_connection False) = Some client" "handshaking client"
      "handshake_state client = Some st" "link_proto client = 0" "\<not> wide_circ_ids client" "\<not> received_versions st" "hs_started_here st"
      "\<not> conn_marked_for_close client" "outbuf client = wire False (Var_Cell ?v)" "digest_sent st = wire False (Var_Cell ?v)"
    using launched by blast
  obtain server st' where s: "handle senv (new_connection True) (Var_Cell ?v) = Some server" "link_proto server = 5" "wide_circ_ids server"
      "handshake_state server = Some st'" "digest_received st' = wire False (Var_Cell ?v)"
      "outbuf server = wire False (Var_Cell ?v) @ wire True (Var_Cell cc) @ wire True (Var_Cell ac) @ wire True (Cell nc)"
    using server_handles_versions [OF assms(1-6)] by blast
  have "stream_ok senv (new_connection True) [Var_Cell ?v]" "wire_stream senv (new_connection True) [Var_Cell ?v] = wire False (Var_Cell ?v)"
    using v s(1) by (simp_all add: new_connection_def)
  then have up: "\<exists>tot' b'. arrive senv benv tot buf_new (new_connection True) parts = Some (tot', b', server, [Var_Cell ?v])"
    if "concat parts = outbuf client" for parts
    using that arrive_all [of senv "new_connection True" "[Var_Cell ?v]" parts benv tot] c(9) s(1) len(1) [of False] max by auto
  obtain c2 where c2: "handle cenv client (Var_Cell ?v) = Some c2" "link_proto c2 = 5" "wide_circ_ids c2"
    using client_handles_versions [OF c(2-4,6-8)] by blast
  obtain c3 where c3: "handle cenv c2 (Var_Cell cc) = Some c3" "link_proto c3 = 5" "wide_circ_ids c3"
    using handle_settled [OF _ assms(7), of c2 "Var_Cell cc"] c2 by (auto simp: keeps_def)
  obtain c4 where c4: "handle cenv c3 (Var_Cell ac) = Some c4" "link_proto c4 = 5" "wide_circ_ids c4"
    using handle_settled [OF _ assms(7), of c3 "Var_Cell ac"] c3 by (auto simp: keeps_def)
  obtain c5 where c5: "handle cenv c4 (Cell nc) = Some c5" "link_proto c5 = 5" "wide_circ_ids c5"
    using handle_settled [OF _ assms(7), of c4 "Cell nc"] c4 by (auto simp: keeps_def)
  let ?cs = "[Var_Cell ?v, Var_Cell cc, Var_Cell ac, Cell nc]"
  have "stream_ok cenv client ?cs" "wire_stream cenv client ?cs = outbuf server" "deliver cenv client ?cs = Some c5"
    using v c(4,5) c2 c3 c4 c5 assms(4-6) s(6) by (simp_all del: handle.simps wire_ok.simps)
  moreover have "length (outbuf server) \<le> BUF_MAX_LEN" using len(1) [of False] len(2-4) [of True] max s(6) by simp
  ultimately have down: "\<exists>tot' b' client'. arrive cenv benv tot buf_new client parts = Some (tot', b', client', ?cs) \<and> contents b' = [] \<and>
      link_proto client' = 5 \<and> wide_circ_ids client'" if "concat parts = outbuf server" for parts
    using that arrive_all [of cenv client ?cs parts benv tot] c5(2,3) by auto
  show ?thesis using c s up down by (intro exI [of _ client] exI [of _ server]) simp
qed

subsection \<open>Examples\<close>

definition example_link_env :: link_env where
  "example_link_env = \<lparr> public_server_mode = True, certs_cell = (\<lambda>_. Some ((var_cell_new 3)\<lparr> var_command := CELL_CERTS \<rparr>)),
     auth_challenge_cell = (\<lambda>_. Some ((var_cell_new 2)\<lparr> var_command := CELL_AUTH_CHALLENGE \<rparr>)),
     netinfo_cell = (\<lambda>_. Some \<lparr> circ_id = 0, cell_command = CELL_NETINFO, payload = replicate CELL_PAYLOAD_SIZE 0 \<rparr>),
     process_cell = (\<lambda>conn c. conn) \<rparr>"

definition example_open :: or_connection where
  "example_open = (new_connection True)\<lparr> conn_state := OR_CONN_STATE_OPEN, link_proto := 5, wide_circ_ids := True \<rparr>"

definition example_cells :: "wire_cell list" where
  "example_cells = [Cell \<lparr> circ_id = 2147483649, cell_command = CELL_RELAY, payload = replicate CELL_PAYLOAD_SIZE 7 \<rparr>,
     Var_Cell \<lparr> var_command = CELL_VPADDING, var_circ_id = 0, payload_len = 2, var_payload = [1, 2] \<rparr>]"

lemma example_handles: "c \<in> set example_cells \<Longrightarrow> handle example_link_env example_open c = Some example_open"
  by (auto simp: example_cells_def example_open_def new_connection_def example_link_env_def channel_tls_handle_cell_def
      channel_tls_handle_var_cell_def dispatch_var_cell_def)

theorem cells_survive_segmentation_witness:
  "\<forall>benv. \<exists>dn rest tot' b' conn'. example_cells = dn @ rest \<and> arrive example_link_env benv 0 buf_new example_open
      [take 1 (wire_stream example_link_env example_open example_cells), take 519 (drop 1 (wire_stream example_link_env example_open example_cells))] =
    Some (tot', b', conn', dn) \<and> deliver example_link_env example_open dn = Some conn' \<and>
    contents b' @ drop 520 (wire_stream example_link_env example_open example_cells) = wire_stream example_link_env conn' rest"
proof
  fix benv
  let ?s = "wire_stream example_link_env example_open example_cells"
  have h: "handle example_link_env example_open c = Some example_open" if "c \<in> set example_cells" for c using example_handles [OF that] .
  have ok: "stream_ok example_link_env example_open example_cells"
    using h [of "example_cells ! 0"] h [of "example_cells ! 1"]
    by (simp add: example_cells_def example_open_def new_connection_def cell_command_is_var_length_def del: handle.simps)
  have cut: "concat [take 1 ?s, take 519 (drop 1 ?s)] @ drop 520 ?s = ?s"
    using append_take_drop_id [of 519 "drop 1 ?s"] append_take_drop_id [of 1 ?s] by simp
  have "length (concat [take 1 ?s, take 519 (drop 1 ?s)]) \<le> BUF_MAX_LEN" by (simp add: BUF_MAX_LEN_def)
  from cells_survive_segmentation [OF ok cut this, of benv 0]
  show "\<exists>dn rest tot' b' conn'. example_cells = dn @ rest \<and> arrive example_link_env benv 0 buf_new example_open
      [take 1 ?s, take 519 (drop 1 ?s)] = Some (tot', b', conn', dn) \<and> deliver example_link_env example_open dn = Some conn' \<and>
    contents b' @ drop 520 ?s = wire_stream example_link_env conn' rest" by blast
qed

theorem link_handshake_agrees_witness:
  "\<forall>benv. \<exists>client server. connection_or_launch_v3_or_handshake (new_connection False) = Some client \<and>
    (\<exists>tot' b'. arrive example_link_env benv 0 buf_new (new_connection True) [take 4 (outbuf client), drop 4 (outbuf client)] =
      Some (tot', b', server, [Var_Cell (versions_cell True)])) \<and> link_proto server = 5 \<and>
    (\<exists>tot' b' client' cs. arrive example_link_env benv 0 buf_new client [outbuf server] = Some (tot', b', client', cs) \<and> length cs = 4 \<and> link_proto client' = 5)"
proof
  fix benv
  define cc where "cc = (var_cell_new 3)\<lparr> var_command := CELL_CERTS \<rparr>"
  define ac where "ac = (var_cell_new 2)\<lparr> var_command := CELL_AUTH_CHALLENGE \<rparr>"
  define nc :: cell where "nc = \<lparr> circ_id = 0, cell_command = CELL_NETINFO, payload = replicate CELL_PAYLOAD_SIZE 0 \<rparr>"
  have env: "\<forall>conn. certs_cell example_link_env conn = Some cc" "\<forall>conn. auth_challenge_cell example_link_env conn = Some ac"
      "\<forall>conn. netinfo_cell example_link_env conn = Some nc" "\<forall>conn c. keeps conn (process_cell example_link_env conn c)"
    by (simp_all add: example_link_env_def cc_def ac_def nc_def)
  have ok: "wire_ok 5 (Var_Cell cc)" "wire_ok 5 (Var_Cell ac)" "wire_ok 5 (Cell nc)"
    by (simp_all add: cc_def ac_def nc_def var_cell_new_def cell_command_is_var_length_def)
  obtain client server where a: "connection_or_launch_v3_or_handshake (new_connection False) = Some client"
      "\<forall>parts. concat parts = outbuf client \<longrightarrow> (\<exists>tot' b'. arrive example_link_env benv 0 buf_new (new_connection True) parts =
        Some (tot', b', server, [Var_Cell (versions_cell True)]))" "link_proto server = 5"
      "\<forall>parts. concat parts = outbuf server \<longrightarrow> (\<exists>tot' b' client'. arrive example_link_env benv 0 buf_new client parts =
        Some (tot', b', client', [Var_Cell (versions_cell True), Var_Cell cc, Var_Cell ac, Cell nc]) \<and> contents b' = [] \<and>
        link_proto client' = 5 \<and> wide_circ_ids client')"
    using link_handshake_agrees [OF env(1-3) ok env(4), of benv 0] by blast
  have "concat [take 4 (outbuf client), drop 4 (outbuf client)] = outbuf client" "concat [outbuf server] = outbuf server" by simp_all
  then obtain tot1 b1 tot2 b2 client' where "arrive example_link_env benv 0 buf_new (new_connection True) [take 4 (outbuf client), drop 4 (outbuf client)] =
        Some (tot1, b1, server, [Var_Cell (versions_cell True)])"
      "arrive example_link_env benv 0 buf_new client [outbuf server] =
        Some (tot2, b2, client', [Var_Cell (versions_cell True), Var_Cell cc, Var_Cell ac, Cell nc])" "link_proto client' = 5"
    using a(2,4) by blast
  then show "\<exists>client server. connection_or_launch_v3_or_handshake (new_connection False) = Some client \<and>
    (\<exists>tot' b'. arrive example_link_env benv 0 buf_new (new_connection True) [take 4 (outbuf client), drop 4 (outbuf client)] =
      Some (tot', b', server, [Var_Cell (versions_cell True)])) \<and> link_proto server = 5 \<and>
    (\<exists>tot' b' client' cs. arrive example_link_env benv 0 buf_new client [outbuf server] = Some (tot', b', client', cs) \<and> length cs = 4 \<and> link_proto client' = 5)"
    using a(1,3) by (intro exI [of _ client] exI [of _ server] conjI exI) (assumption | simp)+
qed

end
