(* ===== verification/Tor_Relay_Msg.thy ===== *)
theory Tor_Relay_Msg
  imports Tor_Cells Tor_Conflux
begin

text \<open>
  \<^verbatim>\<open>core/or/relay_msg.c\<close>: relay messages in the payload of cells, in the original format and in the one with a 16-byte tag. The random bytes
  of the padding are the parameter \<open>rng\<close>. The body of a decoded message is what its \<^verbatim>\<open>length\<close> lets a reader see of the pointer into the cell.
\<close>

datatype relay_cell_fmt = RELAY_CELL_FORMAT_V0 | RELAY_CELL_FORMAT_V1

abbreviation (input) RELAY_HEADER_SIZE_V0 :: nat where "RELAY_HEADER_SIZE_V0 \<equiv> 11"
abbreviation (input) RELAY_HEADER_SIZE_V1_NO_STREAM_ID :: nat where "RELAY_HEADER_SIZE_V1_NO_STREAM_ID \<equiv> 19"
abbreviation (input) RELAY_HEADER_SIZE_V1_WITH_STREAM_ID :: nat where "RELAY_HEADER_SIZE_V1_WITH_STREAM_ID \<equiv> 21"

text \<open>BEGIN, BEGIN_DIR, CONNECTED, DATA, END, RESOLVE, RESOLVED, XOFF and XON.\<close>

definition relay_cmd_expects_streamid_in_v1 :: "byte \<Rightarrow> bool" where
  "relay_cmd_expects_streamid_in_v1 cmd \<longleftrightarrow> cmd \<in> {1, 13, 4, 2, 3, 11, 12, 43, 44}"

text \<open>1 to 15, 19 to 22 and 32 to 44.\<close>

definition is_known_relay_command :: "byte \<Rightarrow> bool" where
  "is_known_relay_command cmd \<longleftrightarrow> cmd \<in> {1, 13, 19, 20, 21, 22, 4, 2, 10, 3, 32, 33, 14, 6, 15, 7, 34, 35, 40, 38, 41, 42, 36, 37, 39, 11, 12, 5, 8, 9, 43, 44}"

definition relay_cell_max_payload_size :: "relay_cell_fmt \<Rightarrow> byte \<Rightarrow> nat" where
  "relay_cell_max_payload_size fmt cmd =
    (case fmt of RELAY_CELL_FORMAT_V0 \<Rightarrow> CELL_PAYLOAD_SIZE - RELAY_HEADER_SIZE_V0
     | RELAY_CELL_FORMAT_V1 \<Rightarrow> if relay_cmd_expects_streamid_in_v1 cmd then CELL_PAYLOAD_SIZE - RELAY_HEADER_SIZE_V1_WITH_STREAM_ID
         else CELL_PAYLOAD_SIZE - RELAY_HEADER_SIZE_V1_NO_STREAM_ID)"

text \<open>Writing \<open>s\<close> at offset \<open>i\<close> of a block.\<close>

definition put :: "nat \<Rightarrow> bytes \<Rightarrow> bytes \<Rightarrow> bytes" where
  "put i s out = take i out @ s @ drop (i + length s) out"

definition relay_cell_pad :: "(nat \<Rightarrow> byte) \<Rightarrow> bytes \<Rightarrow> nat \<Rightarrow> bytes" where
  "relay_cell_pad rng out end_of_message =
    (if end_of_message + 4 \<ge> CELL_PAYLOAD_SIZE then out
     else put (end_of_message + 4) (map rng [0..<CELL_PAYLOAD_SIZE - (end_of_message + 4)]) out)"

text \<open>The encoders write into the payload of a cell; \<open>None\<close> is \<open>-1\<close>.\<close>

definition encode_v0_cell :: "(nat \<Rightarrow> byte) \<Rightarrow> relay_msg \<Rightarrow> bytes \<Rightarrow> bytes option" where
  "encode_v0_cell rng msg out =
    (if unat (msg_length msg) > relay_cell_max_payload_size RELAY_CELL_FORMAT_V0 (command msg) then None
     else let out = put 0 [command msg] out;
              out = put 3 (htons_bytes (stream_id msg)) out;
              out = put 9 (htons_bytes (msg_length msg)) out;
              out = put RELAY_HEADER_SIZE_V0 (take (unat (msg_length msg)) (body msg)) out
          in Some (relay_cell_pad rng out (RELAY_HEADER_SIZE_V0 + unat (msg_length msg))))"

definition encode_v1_cell :: "(nat \<Rightarrow> byte) \<Rightarrow> relay_msg \<Rightarrow> bytes \<Rightarrow> bytes option" where
  "encode_v1_cell rng msg out =
    (if unat (msg_length msg) > relay_cell_max_payload_size RELAY_CELL_FORMAT_V1 (command msg) then None
     else let out = put 16 [command msg] out;
              out = put 17 (htons_bytes (msg_length msg)) out
          in if relay_cmd_expects_streamid_in_v1 (command msg)
             then if stream_id msg = 0 then None
                  else Some (relay_cell_pad rng (put 21 (take (unat (msg_length msg)) (body msg)) (put 19 (htons_bytes (stream_id msg)) out))
                    (21 + unat (msg_length msg)))
             else if stream_id msg \<noteq> 0 then None
                  else Some (relay_cell_pad rng (put 19 (take (unat (msg_length msg)) (body msg)) out) (19 + unat (msg_length msg))))"

definition relay_msg_encode_cell :: "relay_cell_fmt \<Rightarrow> (nat \<Rightarrow> byte) \<Rightarrow> relay_msg \<Rightarrow> cell option" where
  "relay_msg_encode_cell fmt rng msg =
    (let cmd = (if is_relay_early msg then CELL_RELAY_EARLY else CELL_RELAY); zero = replicate CELL_PAYLOAD_SIZE 0
     in map_option (\<lambda>out. \<lparr> circ_id = 0, cell_command = cmd, payload = out \<rparr>)
       (case fmt of RELAY_CELL_FORMAT_V0 \<Rightarrow> encode_v0_cell rng msg zero | RELAY_CELL_FORMAT_V1 \<Rightarrow> encode_v1_cell rng msg zero))"

definition decode_v0_cell :: "cell \<Rightarrow> relay_msg option" where
  "decode_v0_cell c =
    (let p = payload c; len = ntohs_bytes (drop 9 p)
     in if unat len > CELL_PAYLOAD_SIZE - RELAY_HEADER_SIZE_V0 then None
        else Some \<lparr> command = p ! 0, msg_length = len, stream_id = ntohs_bytes (drop 3 p),
          is_relay_early = (cell_command c = CELL_RELAY_EARLY), body = take (unat len) (drop 11 p) \<rparr>)"

definition decode_v1_cell :: "cell \<Rightarrow> relay_msg option" where
  "decode_v1_cell c =
    (let p = payload c; cmd = p ! 16
     in if \<not> is_known_relay_command cmd then None
        else let len = ntohs_bytes (drop 17 p); sid = (if relay_cmd_expects_streamid_in_v1 cmd then ntohs_bytes (drop 19 p) else 0);
                 payload_offset = (if relay_cmd_expects_streamid_in_v1 cmd then 21 else 19)
             in if unat len > CELL_PAYLOAD_SIZE - payload_offset then None
                else Some \<lparr> command = cmd, msg_length = len, stream_id = sid, is_relay_early = (cell_command c = CELL_RELAY_EARLY),
                  body = take (unat len) (drop payload_offset p) \<rparr>)"

definition relay_msg_decode_cell_in_place :: "relay_cell_fmt \<Rightarrow> cell \<Rightarrow> relay_msg option" where
  "relay_msg_decode_cell_in_place fmt c = (case fmt of RELAY_CELL_FORMAT_V0 \<Rightarrow> decode_v0_cell c | RELAY_CELL_FORMAT_V1 \<Rightarrow> decode_v1_cell c)"

definition relay_msg_decode_cell :: "relay_cell_fmt \<Rightarrow> cell \<Rightarrow> relay_msg option" where
  "relay_msg_decode_cell fmt c = relay_msg_decode_cell_in_place fmt c"

definition relay_msg_copy :: "relay_msg \<Rightarrow> relay_msg option" where
  "relay_msg_copy msg = do { tor_assert (unat (msg_length msg) \<le> RELAY_PAYLOAD_SIZE_MAX); Some (msg\<lparr> body := take (unat (msg_length msg)) (body msg) \<rparr>) }"

definition relay_msg_clear :: "relay_msg \<Rightarrow> relay_msg" where
  "relay_msg_clear msg = \<lparr> command = 0, msg_length = 0, stream_id = 0, is_relay_early = False, body = [] \<rparr>"

subsection \<open>Blocks\<close>

lemma length_put: "i + length s \<le> length out \<Longrightarrow> length (put i s out) = length out"
  by (simp add: put_def)

lemma nth_put_other: "i + length s \<le> length out \<Longrightarrow> j < i \<Longrightarrow> put i s out ! j = out ! j"
  by (simp add: put_def nth_append)

lemma drop_put: "i \<le> length out \<Longrightarrow> drop i (put i s out) = s @ drop (i + length s) out"
  by (simp add: put_def)

lemma take_drop_put_before:
  assumes "j + n \<le> i" and "i + length s \<le> length out"
  shows "take n (drop j (put i s out)) = take n (drop j out)"
proof (rule nth_equalityI)
  show "length (take n (drop j (put i s out))) = length (take n (drop j out))" using assms by (simp add: length_put)
  show "take n (drop j (put i s out)) ! k = take n (drop j out) ! k" if "k < length (take n (drop j (put i s out)))" for k
    using that assms by (simp add: length_put nth_put_other)
qed

lemma ntohs_take: "ntohs_bytes (take 2 p) = ntohs_bytes p"
  by (simp add: ntohs_bytes_def)

lemma ntohs_put:
  assumes "i + 2 \<le> length out"
  shows "ntohs_bytes (drop i (put i (htons_bytes v) out)) = v"
  using assms by (simp add: drop_put)

lemma ntohs_put_before:
  assumes "j + 2 \<le> i" and "i + length s \<le> length out"
  shows "ntohs_bytes (drop j (put i s out)) = ntohs_bytes (drop j out)"
  by (metis assms ntohs_take take_drop_put_before)

text \<open>Padding comes behind the message.\<close>

lemma pad_length: "length out = CELL_PAYLOAD_SIZE \<Longrightarrow> length (relay_cell_pad rng out e) = CELL_PAYLOAD_SIZE"
  by (simp add: relay_cell_pad_def length_put)

lemma take_pad: "length out = CELL_PAYLOAD_SIZE \<Longrightarrow> take e (relay_cell_pad rng out e) = take e out"
  using take_drop_put_before [of 0 e "e + 4" "map rng [0..<CELL_PAYLOAD_SIZE - (e + 4)]" out] by (simp add: relay_cell_pad_def)

lemma prefix_reads:
  assumes "take e p = take e q"
  shows "j < e \<Longrightarrow> p ! j = q ! j" and "j + 2 \<le> e \<Longrightarrow> ntohs_bytes (drop j p) = ntohs_bytes (drop j q)"
    and "j + n \<le> e \<Longrightarrow> take n (drop j p) = take n (drop j q)"
proof -
  show sub: "take n (drop j p) = take n (drop j q)" if "j + n \<le> e" for j n
    using arg_cong [OF assms, of "\<lambda>s. drop j (take (j + n) s)"] that by (simp add: take_drop min_def add.commute)
  show "p ! j = q ! j" if "j < e" using arg_cong [OF assms, of "\<lambda>s. s ! j"] that by simp
  show "ntohs_bytes (drop j p) = ntohs_bytes (drop j q)" if "j + 2 \<le> e" using sub [OF that] by (metis ntohs_take)
qed

lemma put_body: "i + length s \<le> length out \<Longrightarrow> n = length s \<Longrightarrow> take n (drop i (put i s out)) = s"
  by (simp add: drop_put)

lemmas put_reads = length_put nth_put_other ntohs_put ntohs_put_before put_body

definition encodable_msg :: "relay_cell_fmt \<Rightarrow> relay_msg \<Rightarrow> bool" where
  "encodable_msg fmt msg \<longleftrightarrow> unat (msg_length msg) \<le> relay_cell_max_payload_size fmt (command msg) \<and>
    (fmt = RELAY_CELL_FORMAT_V1 \<longrightarrow> (relay_cmd_expects_streamid_in_v1 (command msg) \<longleftrightarrow> stream_id msg \<noteq> 0))"

lemma encode_v0:
  assumes "length (body msg) = unat (msg_length msg)" and "unat (msg_length msg) \<le> 498"
  shows "\<exists>out. encode_v0_cell rng msg (replicate 509 0) = Some out \<and> length out = 509 \<and> out ! 0 = command msg \<and>
    ntohs_bytes (drop 3 out) = stream_id msg \<and> ntohs_bytes (drop 9 out) = msg_length msg \<and> take (unat (msg_length msg)) (drop 11 out) = body msg"
proof -
  let ?n = "unat (msg_length msg)"
  define out where "out = put 11 (body msg) (put 9 (htons_bytes (msg_length msg)) (put 3 (htons_bytes (stream_id msg)) (put 0 [command msg] (replicate 509 0))))"
  have len: "length out = 509" using assms by (simp add: out_def put_reads)
  note reads = prefix_reads [OF take_pad [OF len, of "11 + ?n" rng]]
  have "out ! 0 = command msg" "ntohs_bytes (drop 3 out) = stream_id msg" "ntohs_bytes (drop 9 out) = msg_length msg" "take ?n (drop 11 out) = body msg"
    using assms by (simp_all add: out_def put_reads, simp add: put_def)
  then show ?thesis using assms reads(1) [of 0] reads(2) [of 3] reads(2) [of 9] reads(3) [of 11 ?n] pad_length [OF len, of rng "11 + ?n"]
    by (simp add: encode_v0_cell_def relay_cell_max_payload_size_def out_def [symmetric])
qed

lemma encode_v1:
  assumes "length (body msg) = unat (msg_length msg)" and "encodable_msg RELAY_CELL_FORMAT_V1 msg"
  defines "off \<equiv> if relay_cmd_expects_streamid_in_v1 (command msg) then 21 else 19"
  shows "\<exists>out. encode_v1_cell rng msg (replicate 509 0) = Some out \<and> length out = 509 \<and> out ! 16 = command msg \<and>
    (relay_cmd_expects_streamid_in_v1 (command msg) \<longrightarrow> ntohs_bytes (drop 19 out) = stream_id msg) \<and> ntohs_bytes (drop 17 out) = msg_length msg \<and>
    take (unat (msg_length msg)) (drop off out) = body msg"
proof -
  let ?n = "unat (msg_length msg)" and ?sid = "relay_cmd_expects_streamid_in_v1 (command msg)"
  define hdr where "hdr = put 17 (htons_bytes (msg_length msg)) (put 16 [command msg] (replicate 509 0))"
  define out where "out = put off (body msg) (if ?sid then put 19 (htons_bytes (stream_id msg)) hdr else hdr)"
  have n: "off + ?n \<le> 509" using assms(2) by (auto simp: encodable_msg_def relay_cell_max_payload_size_def off_def split: if_splits)
  have hdr: "length hdr = 509" "hdr ! 16 = command msg" "ntohs_bytes (drop 17 hdr) = msg_length msg"
    by (simp_all add: hdr_def put_reads, simp add: put_def nth_append)
  have len: "length out = 509" using assms(1) n hdr(1) by (auto simp: out_def put_reads off_def split: if_splits)
  note reads = prefix_reads [OF take_pad [OF len, of "off + ?n" rng]]
  have "out ! 16 = command msg" "?sid \<longrightarrow> ntohs_bytes (drop 19 out) = stream_id msg" "ntohs_bytes (drop 17 out) = msg_length msg"
      "take ?n (drop off out) = body msg"
    using assms(1) n hdr by (auto simp: out_def put_reads off_def split: if_splits)
  moreover have "encode_v1_cell rng msg (replicate 509 0) = Some (relay_cell_pad rng out (off + ?n))"
    using assms(1,2) by (auto simp: encode_v1_cell_def encodable_msg_def out_def off_def hdr_def)
  ultimately show ?thesis
    using reads(1) [of 16] reads(2) [of 17] reads(2) [of 19] reads(3) [of off ?n] pad_length [OF len, of rng "off + ?n"] by (auto simp: off_def)
qed

text \<open>C12: Relay messages survive the cell formats. A message whose body has its length is encoded exactly if it fits the format and, in the
  newer one, carries a stream number exactly when its command needs one; the cell has the full payload and can be sent on every link; and it
  decodes to the same message, whatever the padding, if the receiver knows the command (the newer format refuses others).\<close>

theorem relay_msg_roundtrip:
  assumes "length (body msg) = unat (msg_length msg)"
  shows "(encodable_msg fmt msg \<longleftrightarrow> relay_msg_encode_cell fmt rng msg \<noteq> None) \<and>
    (case relay_msg_encode_cell fmt rng msg of None \<Rightarrow> True
     | Some c \<Rightarrow> wire_ok lp (Cell c) \<and>
         relay_msg_decode_cell fmt c = (if fmt = RELAY_CELL_FORMAT_V0 \<or> is_known_relay_command (command msg) then Some msg else None))"
proof (cases fmt)
  case RELAY_CELL_FORMAT_V0
  show ?thesis
  proof (cases "encodable_msg fmt msg")
    case True
    then have n: "unat (msg_length msg) \<le> 498" using RELAY_CELL_FORMAT_V0 by (simp add: encodable_msg_def relay_cell_max_payload_size_def)
    from encode_v0 [OF assms n, of rng] show ?thesis using RELAY_CELL_FORMAT_V0 True n
      by (auto simp: relay_msg_encode_cell_def relay_msg_decode_cell_def relay_msg_decode_cell_in_place_def decode_v0_cell_def Let_def cell_command_is_var_length_def)
  next
    case False
    then have "encode_v0_cell rng msg (replicate 509 0) = None" using RELAY_CELL_FORMAT_V0 by (auto simp: encodable_msg_def encode_v0_cell_def)
    then show ?thesis using False RELAY_CELL_FORMAT_V0 by (simp add: relay_msg_encode_cell_def)
  qed
next
  case RELAY_CELL_FORMAT_V1
  show ?thesis
  proof (cases "encodable_msg fmt msg")
    case True
    then have e: "encodable_msg RELAY_CELL_FORMAT_V1 msg" using RELAY_CELL_FORMAT_V1 by simp
    have n: "unat (msg_length msg) \<le> (if relay_cmd_expects_streamid_in_v1 (command msg) then 488 else 490)"
      using e by (auto simp: encodable_msg_def relay_cell_max_payload_size_def split: if_splits)
    have sid: "\<not> relay_cmd_expects_streamid_in_v1 (command msg) \<Longrightarrow> stream_id msg = 0" using e by (simp add: encodable_msg_def)
    from encode_v1 [OF assms e, of rng] show ?thesis using RELAY_CELL_FORMAT_V1 e n sid
      by (auto simp: relay_msg_encode_cell_def relay_msg_decode_cell_def relay_msg_decode_cell_in_place_def decode_v1_cell_def Let_def cell_command_is_var_length_def)
  next
    case False
    then have "encode_v1_cell rng msg (replicate 509 0) = None"
      using RELAY_CELL_FORMAT_V1 by (auto simp: encodable_msg_def encode_v1_cell_def Let_def)
    then show ?thesis using False RELAY_CELL_FORMAT_V1 by (simp add: relay_msg_encode_cell_def)
  qed
qed

theorem relay_msg_roundtrip_witness:
  "length (body \<lparr> command = 2, msg_length = 3, stream_id = 7, is_relay_early = False, body = [1, 2, 3] \<rparr>) = 3 \<and>
   (\<exists>c. relay_msg_encode_cell RELAY_CELL_FORMAT_V1 (\<lambda>_. 9) \<lparr> command = 2, msg_length = 3, stream_id = 7, is_relay_early = False, body = [1, 2, 3] \<rparr> = Some c \<and>
     wire_ok 5 (Cell c) \<and> relay_msg_decode_cell RELAY_CELL_FORMAT_V1 c = Some \<lparr> command = 2, msg_length = 3, stream_id = 7, is_relay_early = False, body = [1, 2, 3] \<rparr>)"
proof -
  let ?msg = "\<lparr> command = 2, msg_length = 3, stream_id = 7, is_relay_early = False, body = [1, 2, 3] \<rparr> :: relay_msg"
  have "length (body ?msg) = unat (msg_length ?msg)" by simp
  from relay_msg_roundtrip [OF this, of RELAY_CELL_FORMAT_V1 "\<lambda>_. 9" 5] show ?thesis
    by (auto simp: encodable_msg_def relay_cell_max_payload_size_def relay_cmd_expects_streamid_in_v1_def is_known_relay_command_def)
qed

text \<open>Whatever a peer puts into a cell, the length of a decoded message is within the bound of its format and is that of its body.\<close>

lemma decoded_length:
  assumes "relay_msg_decode_cell fmt c = Some msg" and "length (payload c) = CELL_PAYLOAD_SIZE"
  shows "length (body msg) = unat (msg_length msg)" and "unat (msg_length msg) \<le> relay_cell_max_payload_size fmt (command msg)"
    and "relay_msg_copy msg = Some msg"
proof -
  show l: "length (body msg) = unat (msg_length msg)" and b: "unat (msg_length msg) \<le> relay_cell_max_payload_size fmt (command msg)"
    using assms by (auto simp: relay_msg_decode_cell_def relay_msg_decode_cell_in_place_def decode_v0_cell_def decode_v1_cell_def relay_cell_max_payload_size_def Let_def
        split: relay_cell_fmt.splits if_splits)
  have "relay_cell_max_payload_size fmt (command msg) \<le> RELAY_PAYLOAD_SIZE_MAX"
    by (simp add: relay_cell_max_payload_size_def RELAY_PAYLOAD_SIZE_MAX_def split: relay_cell_fmt.split)
  then show "relay_msg_copy msg = Some msg" using l b by (simp add: relay_msg_copy_def)
qed

end
