(* ===== verification/Tor_Congestion.thy ===== *)
theory Tor_Congestion
  imports Tor_Parse_Int
begin

text \<open>
  Congestion control of circuits: \<^verbatim>\<open>core/or/congestion_control_common.c\<close> and \<^verbatim>\<open>congestion_control_vegas.c\<close>, the accounting of cells and
  acknowledgements in \<^verbatim>\<open>core/or/sendme.c\<close>, and the reading of consensus parameters in \<^verbatim>\<open>feature/nodelist/networkstatus.c\<close>.

  Fields and variables of unsigned types are natural numbers; \<open>u64\<close>, \<open>u32\<close>, \<open>u16\<close> and \<open>u8\<close> are the conversions of C, and
  \<open>sub64\<close> is the subtraction that wraps. Counters that are only reported (the metrics) are left out. \<open>None\<close> is a failed assertion or a division
  by zero in the arguments of a log message, which are evaluated whether or not the message is printed.
\<close>

definition u64 :: "nat \<Rightarrow> nat" where "u64 n = n mod 2 ^ 64"
definition u16 :: "int \<Rightarrow> nat" where "u16 v = nat (v mod 2 ^ 16)"

definition sub64 :: "nat \<Rightarrow> nat \<Rightarrow> nat" where
  "sub64 a b = (a + (2 ^ 64 - b)) mod 2 ^ 64"

abbreviation (input) INT32_MAX :: int where "INT32_MAX \<equiv> 2147483647"

subsection \<open>Consensus parameters\<close>





subsection \<open>State\<close>

text \<open>The static variables of the two files.\<close>

record cc_globals =
  cell_queue_high :: int
  cell_queue_low :: int
  or_conn_highwater :: nat
  or_conn_lowwater :: nat
  cwnd_max :: nat
  cc_sendme_inc :: nat
  global_cc_alg :: nat
  n_ewma_cwnd_pct :: nat
  n_ewma_max :: nat
  n_ewma_ss :: nat
  bwe_sendme_min :: nat
  rtt_reset_pct :: nat
  is_monotime_clock_broken :: bool
  cc_vegas_cwnd_full_gap :: nat
  cc_vegas_cwnd_full_minpct :: nat
  cc_cwnd_full_per_cwnd :: bool

record vegas_params =
  ss_cwnd_cap :: nat
  ss_cwnd_max :: nat
  vegas_gamma :: nat
  vegas_alpha :: nat
  vegas_beta :: nat
  vegas_delta :: nat

record congestion_control_t =
  sendme_pending_timestamps :: "nat list"
  ewma_rtt_usec :: nat
  min_rtt_usec :: nat
  max_rtt_usec :: nat
  bdp :: nat
  cwnd :: nat
  inflight :: nat
  next_cc_event :: nat
  next_cwnd_event :: nat
  in_slow_start :: bool
  cwnd_full :: bool
  blocked_chan :: bool
  cwnd_inc_pct_ss :: nat
  cwnd_inc :: nat
  cwnd_min :: nat
  cwnd_inc_rate :: nat
  sendme_inc :: nat
  cc_alg :: nat
  vegas :: vegas_params


abbreviation (input) CC_ALG_VEGAS :: nat where "CC_ALG_VEGAS \<equiv> 2"





definition CWND_UPDATE_RATE :: "congestion_control_t \<Rightarrow> nat" where
  "CWND_UPDATE_RATE cc = (if in_slow_start cc then 1
     else u64 (cwnd cc + cwnd_inc_rate cc * sendme_inc cc div 2) div (cwnd_inc_rate cc * sendme_inc cc))"

definition SENDME_PER_CWND :: "congestion_control_t \<Rightarrow> nat" where
  "SENDME_PER_CWND cc = u64 (cwnd cc + sendme_inc cc div 2) div sendme_inc cc"


subsection \<open>Round-trip times\<close>

definition enqueue_timestamp :: "nat list \<Rightarrow> nat \<Rightarrow> nat list" where
  "enqueue_timestamp q t = q @ [t]"

text \<open>\<^verbatim>\<open>smartlist_get\<close> reads the first slot of the array also when the list is empty. The slots behind the used ones are \<^verbatim>\<open>NULL\<close>
  (\<^verbatim>\<open>smartlist_new\<close> and \<^verbatim>\<open>smartlist_del_keeporder\<close> see to it), so that the function reports a bug and returns 0.\<close>

definition dequeue_timestamp :: "nat list \<Rightarrow> nat \<times> nat list" where
  "dequeue_timestamp q = (case q of [] \<Rightarrow> (0, []) | t # q \<Rightarrow> (t, q))"

definition n_ewma_count :: "cc_globals \<Rightarrow> congestion_control_t \<Rightarrow> nat" where
  "n_ewma_count g cc =
    (let ewma_cnt = (if in_slow_start cc then n_ewma_ss g else min (u64 (CWND_UPDATE_RATE cc * n_ewma_cwnd_pct g) div 100) (n_ewma_max g))
     in max ewma_cnt 2)"

definition n_count_ewma :: "nat \<Rightarrow> nat \<Rightarrow> nat \<Rightarrow> nat" where
  "n_count_ewma val prev N = (if prev = 0 then val else u64 (2 * val + (N - 1) * prev) div (N + 1))"

definition percent_max_mix :: "nat \<Rightarrow> nat \<Rightarrow> nat \<Rightarrow> nat" where
  "percent_max_mix a b pct_max =
    (let mx = max a b; mn = min a b
     in if pct_max > 100 then mx else u64 (u64 (pct_max * mx) div 100 + u64 ((100 - pct_max) * mn) div 100))"

definition time_delta_should_use_heuristics :: "congestion_control_t \<Rightarrow> bool" where
  "time_delta_should_use_heuristics cc \<longleftrightarrow> \<not> in_slow_start cc \<and> ewma_rtt_usec cc \<noteq> 0"

definition time_delta_stalled_or_jumped :: "cc_globals \<Rightarrow> congestion_control_t \<Rightarrow> nat \<Rightarrow> nat \<Rightarrow> bool \<times> cc_globals" where
  "time_delta_stalled_or_jumped g cc old_delta new_delta =
    (if new_delta = 0 then (True, g\<lparr> is_monotime_clock_broken := True \<rparr>)
     else if \<not> time_delta_should_use_heuristics cc then (False, g)
     else if old_delta > u64 (new_delta * 5000) then (is_monotime_clock_broken g, g)
     else if new_delta > u64 (old_delta * 5000) then (True, g)
     else (False, g\<lparr> is_monotime_clock_broken := False \<rparr>))"

definition congestion_control_update_circuit_rtt ::
  "cc_globals \<Rightarrow> congestion_control_t \<Rightarrow> nat \<Rightarrow> nat \<times> cc_globals \<times> congestion_control_t" where
  "congestion_control_update_circuit_rtt g cc now_usec =
    (let (sent_at_timestamp, q) = dequeue_timestamp (sendme_pending_timestamps cc);
         cc = cc\<lparr> sendme_pending_timestamps := q \<rparr>;
         rtt = sub64 now_usec sent_at_timestamp;
         (bad, g) = time_delta_stalled_or_jumped g cc (ewma_rtt_usec cc) rtt
     in if bad then (0, g, cc)
        else let cc = cc\<lparr> ewma_rtt_usec := n_count_ewma rtt (ewma_rtt_usec cc) (n_ewma_count g cc) \<rparr>;
                 cc = (if rtt > max_rtt_usec cc then cc\<lparr> max_rtt_usec := rtt \<rparr> else cc);
                 cc = (if min_rtt_usec cc = 0 then cc\<lparr> min_rtt_usec := ewma_rtt_usec cc \<rparr>
                       else if cwnd cc = cwnd_min cc \<and> \<not> in_slow_start cc
                       then cc\<lparr> min_rtt_usec := percent_max_mix (ewma_rtt_usec cc) (min_rtt_usec cc) (rtt_reset_pct g) \<rparr>
                       else if ewma_rtt_usec cc < min_rtt_usec cc then cc\<lparr> min_rtt_usec := ewma_rtt_usec cc \<rparr> else cc)
             in (rtt, g, cc))"

text \<open>The circuit matters only by the length of its queue towards the peer and by whether its channel is blocked.\<close>

definition congestion_control_update_circuit_bdp :: "congestion_control_t \<Rightarrow> nat \<Rightarrow> bool \<Rightarrow> nat \<Rightarrow> bool \<times> congestion_control_t" where
  "congestion_control_update_circuit_bdp cc chan_q blocked_on_chan curr_rtt_usec =
    (if ewma_rtt_usec cc = 0 then
       let w = (if \<not> blocked_on_chan then cwnd cc else if chan_q \<ge> cwnd cc then cwnd_min cc else max (sub64 (cwnd cc) chan_q) (cwnd_min cc))
       in (blocked_on_chan, cc\<lparr> blocked_chan := blocked_on_chan, bdp := w \<rparr>)
     else
       let cc = cc\<lparr> bdp := u64 (cwnd cc * min_rtt_usec cc) div ewma_rtt_usec cc \<rparr>;
           cc = (if blocked_on_chan then (if \<not> blocked_chan cc then cc\<lparr> next_cc_event := 0, blocked_chan := True \<rparr> else cc)
                 else if blocked_chan cc then cc\<lparr> blocked_chan := False, next_cc_event := 0 \<rparr> else cc)
       in (blocked_on_chan \<or> curr_rtt_usec \<noteq> 0, cc))"

definition congestion_control_update_circuit_estimates ::
  "cc_globals \<Rightarrow> congestion_control_t \<Rightarrow> nat \<Rightarrow> bool \<Rightarrow> nat \<Rightarrow> bool \<times> cc_globals \<times> congestion_control_t" where
  "congestion_control_update_circuit_estimates g cc chan_q blocked_on_chan now_usec =
    (let (curr_rtt_usec, g, cc) = congestion_control_update_circuit_rtt g cc now_usec;
         (ret, cc) = congestion_control_update_circuit_bdp cc chan_q blocked_on_chan curr_rtt_usec
     in (ret, g, cc))"

subsection \<open>The window\<close>

text \<open>The log message divides by the larger of the two times.\<close>

definition congestion_control_vegas_log :: "congestion_control_t \<Rightarrow> unit option" where
  "congestion_control_vegas_log cc = tor_assert (max (min_rtt_usec cc) (ewma_rtt_usec cc) \<noteq> 0)"

definition rfc3742_ss_inc :: "congestion_control_t \<Rightarrow> nat" where
  "rfc3742_ss_inc cc =
    (if cwnd cc \<le> ss_cwnd_cap (vegas cc) then (cwnd_inc_pct_ss cc * sendme_inc cc + 50) div 100
     else max (u64 (sendme_inc cc * ss_cwnd_cap (vegas cc) + cwnd cc) div u64 (2 * cwnd cc)) 1)"

definition congestion_control_vegas_exit_slow_start :: "congestion_control_t \<Rightarrow> congestion_control_t option" where
  "congestion_control_vegas_exit_slow_start cc = do {
     congestion_control_vegas_log cc;
     let cc = cc\<lparr> in_slow_start := False \<rparr>;
     congestion_control_vegas_log cc;
     Some cc }"

definition cwnd_became_full :: "cc_globals \<Rightarrow> congestion_control_t \<Rightarrow> bool" where
  "cwnd_became_full g cc \<longleftrightarrow> u64 (inflight cc + cc_vegas_cwnd_full_gap g * sendme_inc cc) \<ge> cwnd cc"

definition cwnd_became_nonfull :: "cc_globals \<Rightarrow> congestion_control_t \<Rightarrow> bool" where
  "cwnd_became_nonfull g cc \<longleftrightarrow> u64 (100 * inflight cc) < u64 (cc_vegas_cwnd_full_minpct g * cwnd cc)"

definition cwnd_full_reset :: "cc_globals \<Rightarrow> congestion_control_t \<Rightarrow> bool" where
  "cwnd_full_reset g cc \<longleftrightarrow> (if cc_cwnd_full_per_cwnd g then next_cwnd_event cc = SENDME_PER_CWND cc else next_cc_event cc = CWND_UPDATE_RATE cc)"

text \<open>The two branches of \<^verbatim>\<open>congestion_control_vegas_process_sendme\<close>: in slow start, and once per update period afterwards.\<close>

definition vegas_slow_start :: "congestion_control_t \<Rightarrow> nat \<Rightarrow> congestion_control_t option" where
  "vegas_slow_start cc queue_use = do {
     cc \<leftarrow> (if queue_use < vegas_gamma (vegas cc) \<and> \<not> blocked_chan cc then
              if cwnd_full cc then
                let inc = rfc3742_ss_inc cc; cc = cc\<lparr> cwnd := u64 (cwnd cc + inc) \<rparr>
                in if u64 (inc * SENDME_PER_CWND cc) \<le> cwnd_inc cc * cwnd_inc_rate cc then congestion_control_vegas_exit_slow_start cc else Some cc
              else Some cc
            else congestion_control_vegas_exit_slow_start (cc\<lparr> cwnd := u64 (bdp cc + vegas_gamma (vegas cc)) \<rparr>));
     if cwnd cc \<ge> ss_cwnd_max (vegas cc) then congestion_control_vegas_exit_slow_start (cc\<lparr> cwnd := ss_cwnd_max (vegas cc) \<rparr>) else Some cc }"

definition vegas_steady :: "congestion_control_t \<Rightarrow> nat \<Rightarrow> congestion_control_t option" where
  "vegas_steady cc queue_use = do {
     let w = (if queue_use > vegas_delta (vegas cc) then sub64 (u64 (bdp cc + vegas_delta (vegas cc))) (cwnd_inc cc)
              else if queue_use > vegas_beta (vegas cc) \<or> blocked_chan cc then sub64 (cwnd cc) (cwnd_inc cc)
              else if cwnd_full cc \<and> queue_use < vegas_alpha (vegas cc) then u64 (cwnd cc + cwnd_inc cc)
              else cwnd cc);
     let cc = cc\<lparr> cwnd := max w (cwnd_min cc) \<rparr>;
     congestion_control_vegas_log cc;
     Some cc }"

definition vegas_finish :: "cc_globals \<Rightarrow> congestion_control_t \<Rightarrow> congestion_control_t" where
  "vegas_finish g cc =
    (let cc = (if next_cwnd_event cc = 0 then cc\<lparr> next_cwnd_event := u16 (int (SENDME_PER_CWND cc)) \<rparr> else cc);
         cc = (if next_cc_event cc = 0 then cc\<lparr> next_cc_event := u16 (int (CWND_UPDATE_RATE cc)) \<rparr> else cc);
         cc = (if cwnd_full_reset g cc then cc\<lparr> cwnd_full := False \<rparr> else cc)
     in cc\<lparr> inflight := sub64 (inflight cc) (sendme_inc cc) \<rparr>)"

definition congestion_control_vegas_process_sendme ::
  "cc_globals \<Rightarrow> congestion_control_t \<Rightarrow> nat \<Rightarrow> bool \<Rightarrow> nat \<Rightarrow> (cc_globals \<times> congestion_control_t) option" where
  "congestion_control_vegas_process_sendme g cc chan_q blocked_on_chan now_usec = do {
     tor_assert (cc_alg cc = CC_ALG_VEGAS);
     let cc = cc\<lparr> next_cc_event := next_cc_event cc - 1, next_cwnd_event := next_cwnd_event cc - 1 \<rparr>;
     let (updated, g, cc) = congestion_control_update_circuit_estimates g cc chan_q blocked_on_chan now_usec;
     if \<not> updated then Some (g, cc\<lparr> inflight := sub64 (inflight cc) (sendme_inc cc) \<rparr>)
     else do {
       let queue_use = (if bdp cc > cwnd cc then 0 else cwnd cc - bdp cc);
       let cc = (if cwnd_became_full g cc then cc\<lparr> cwnd_full := True \<rparr> else if cwnd_became_nonfull g cc then cc\<lparr> cwnd_full := False \<rparr> else cc);
       cc \<leftarrow> (if in_slow_start cc then vegas_slow_start cc queue_use else if next_cc_event cc = 0 then vegas_steady cc queue_use else Some cc);
       Some (g, vegas_finish g cc) }}"


subsection \<open>Counting cells\<close>

text \<open>A circuit has a congestion control object or the fixed package window.\<close>

definition congestion_control_get_package_window :: "congestion_control_t option \<Rightarrow> int \<Rightarrow> int" where
  "congestion_control_get_package_window cc package_window =
    (case cc of None \<Rightarrow> package_window
     | Some cc \<Rightarrow> if inflight cc > cwnd cc then 0 else if int (cwnd cc - inflight cc) > INT32_MAX then INT32_MAX else int (cwnd cc - inflight cc))"

definition sendme_get_inc_count :: "congestion_control_t option \<Rightarrow> nat" where
  "sendme_get_inc_count cc = (case cc of None \<Rightarrow> 100 | Some cc \<Rightarrow> sendme_inc cc)"

definition circuit_sent_cell_for_sendme :: "congestion_control_t option \<Rightarrow> int \<Rightarrow> bool" where
  "circuit_sent_cell_for_sendme cc window =
    (case cc of Some cc \<Rightarrow> if inflight cc = 0 then False else u64 (inflight cc + 1) mod sendme_inc cc = 0
     | None \<Rightarrow> if window = 1000 then False else (window - 1) mod 100 = 0)"

definition congestion_control_note_cell_sent :: "congestion_control_t \<Rightarrow> nat \<Rightarrow> congestion_control_t" where
  "congestion_control_note_cell_sent cc now_usec =
    (if \<not> circuit_sent_cell_for_sendme (Some cc) 0 then cc\<lparr> inflight := u64 (inflight cc + 1) \<rparr>
     else cc\<lparr> inflight := u64 (inflight cc + 1), sendme_pending_timestamps := enqueue_timestamp (sendme_pending_timestamps cc) now_usec \<rparr>)"

definition sendme_note_circuit_data_packaged :: "congestion_control_t option \<Rightarrow> int \<Rightarrow> nat \<Rightarrow> int \<times> congestion_control_t option \<times> int" where
  "sendme_note_circuit_data_packaged cc package_window now_usec =
    (let (cc, package_window) = (case cc of Some cc \<Rightarrow> (Some (congestion_control_note_cell_sent cc now_usec), package_window)
        | None \<Rightarrow> (None, package_window - 1))
     in (congestion_control_get_package_window cc package_window, cc, package_window))"

definition sendme_process_circuit_level_impl :: "int \<Rightarrow> int option" where
  "sendme_process_circuit_level_impl package_window = (if package_window + 100 > 1000 then None else Some (package_window + 100))"

text \<open>The receiving end: the window after a DATA cell, and the SENDME cells that it sends. \<open>sent\<close> tells which of them could be sent.\<close>

definition sendme_circuit_data_received :: "int \<Rightarrow> int" where
  "sendme_circuit_data_received deliver_window = deliver_window - 1"

partial_function (option) sendme_circuit_consider_sending :: "nat \<Rightarrow> (nat \<Rightarrow> bool) \<Rightarrow> int \<Rightarrow> nat \<Rightarrow> (int \<times> nat) option" where
  "sendme_circuit_consider_sending inc sent deliver_window n =
    (if deliver_window \<le> 1000 - int inc
     then if \<not> sent n then Some (deliver_window + int inc, n)
          else sendme_circuit_consider_sending inc sent (deliver_window + int inc) (n + 1)
     else Some (deliver_window, n))"

definition congestion_control_validate_sendme_increment :: "cc_globals \<Rightarrow> nat \<Rightarrow> bool" where
  "congestion_control_validate_sendme_increment g inc =
    (if inc = 0 then False else \<not> (int inc > int (cc_sendme_inc g) + 1 \<or> int inc < int (cc_sendme_inc g) - 1))"

subsection \<open>Arithmetic\<close>

lemma u64_id: "n < 2 ^ 64 \<Longrightarrow> u64 n = n" and u64_less: "u64 n < 2 ^ 64" and u64_le: "u64 n \<le> n"
  by (simp_all add: u64_def)

lemma sub64_id: "b \<le> a \<Longrightarrow> a < 2 ^ 64 \<Longrightarrow> sub64 a b = a - b"
proof -
  assume "b \<le> a" "a < 2 ^ 64"
  then have "a + (2 ^ 64 - b) = (a - b) + 2 ^ 64" "a - b < 2 ^ 64" by simp_all
  then show ?thesis by (simp only: sub64_def mod_add_self2 mod_less)
qed




subsection \<open>One acknowledgement\<close>

text \<open>What the parameters of an object must satisfy for the window arithmetic not to wrap: the step of the window is not larger than the
  smallest window and than delta, and an acknowledgement stands for at least two cells.\<close>

definition cwnd_floor :: "congestion_control_t \<Rightarrow> nat" where
  "cwnd_floor cc = min (cwnd_min cc) (min (vegas_gamma (vegas cc)) (ss_cwnd_max (vegas cc)))"



text \<open>The fields that stay for the life of a circuit.\<close>

definition same_params :: "congestion_control_t \<Rightarrow> congestion_control_t \<Rightarrow> bool" where
  "same_params cc cc' \<longleftrightarrow> cc_alg cc' = cc_alg cc \<and> sendme_inc cc' = sendme_inc cc \<and> cwnd_inc cc' = cwnd_inc cc \<and> cwnd_min cc' = cwnd_min cc \<and>
    cwnd_inc_pct_ss cc' = cwnd_inc_pct_ss cc \<and> cwnd_inc_rate cc' = cwnd_inc_rate cc \<and> vegas cc' = vegas cc"

lemma same_params_refl [simp]: "same_params cc cc"
  and same_params_trans: "same_params a b \<Longrightarrow> same_params b c \<Longrightarrow> same_params a c"
  and same_params_floor: "same_params cc cc' \<Longrightarrow> cwnd_floor cc' = cwnd_floor cc"
  by (auto simp: same_params_def cwnd_floor_def)














subsection \<open>The life of a circuit\<close>







subsection \<open>Parameters from the consensus\<close>









subsection \<open>Properties\<close>












text \<open>The receiving end sends one SENDME at most for a cell, as the assertion in the loop expects, and its window is back in range afterwards.\<close>

lemma one_sendme_at_most:
  assumes "0 < inc" and "1000 - int inc < deliver_window"
  shows "\<exists>w k. sendme_circuit_consider_sending inc sent (sendme_circuit_data_received deliver_window) 0 = Some (w, k) \<and> k \<le> 1 \<and> 1000 - int inc < w"
proof -
  let ?w = "sendme_circuit_data_received deliver_window"
  have "sendme_circuit_consider_sending inc sent (?w + int inc) 1 = Some (?w + int inc, 1)"
    by (subst sendme_circuit_consider_sending.simps) (use assms in \<open>simp add: sendme_circuit_data_received_def\<close>)
  then show ?thesis
    by (subst sendme_circuit_consider_sending.simps) (use assms in \<open>auto simp: sendme_circuit_data_received_def\<close>)
qed

subsection \<open>What the conditions exclude\<close>

text \<open>A step that is larger than the window makes the subtraction wrap: the answer to congestion is the largest window there is.\<close>

lemma window_jumps_to_max:
  assumes "cwnd cc < cwnd_inc cc" and "cwnd_inc cc < 2 ^ 16" and "blocked_chan cc" and "queue_use \<le> vegas_delta (vegas cc)" and "0 < ewma_rtt_usec cc"
  shows "\<exists>cc'. vegas_steady cc queue_use = Some cc' \<and> 2 ^ 64 - 2 ^ 16 \<le> cwnd cc'"
proof -
  have "sub64 (cwnd cc) (cwnd_inc cc) = cwnd cc + (2 ^ 64 - cwnd_inc cc)"
    unfolding sub64_def by (rule mod_less) (use assms(1,2) in simp)
  then have "2 ^ 64 - 2 ^ 16 \<le> sub64 (cwnd cc) (cwnd_inc cc)" using assms(2) by simp
  then show ?thesis using assms(3-5) by (simp add: vegas_steady_def congestion_control_vegas_log_def)
qed

text \<open>A SENDME that arrives when the clock has not moved, on a new circuit whose channel is blocked: no round-trip time is known, and the message on leaving
  slow start divides by it.\<close>

lemma stalled_clock_divides_by_zero:
  assumes "cc_alg cc = CC_ALG_VEGAS" and "in_slow_start cc" and "ewma_rtt_usec cc = 0" and "min_rtt_usec cc = 0"
    and "sendme_pending_timestamps cc = now # q" and "now < 2 ^ 64"
  shows "congestion_control_vegas_process_sendme g cc chan_q True now = None"
  using assms by (simp add: congestion_control_vegas_process_sendme_def congestion_control_update_circuit_estimates_def congestion_control_update_circuit_rtt_def
    dequeue_timestamp_def sub64_id time_delta_stalled_or_jumped_def congestion_control_update_circuit_bdp_def vegas_slow_start_def Let_def
    congestion_control_vegas_exit_slow_start_def congestion_control_vegas_log_def)

text \<open>With a SENDME for every cell (\<^verbatim>\<open>SENDME_INC_MIN\<close> is 1), the first cell is not recorded, and the acknowledgement of it finds no time.\<close>

lemma first_cell_not_recorded:
  assumes "sendme_inc cc = 1" and "inflight cc = 0" and "sendme_pending_timestamps cc = []"
  shows "inflight (congestion_control_note_cell_sent cc now) = 1" and "sendme_pending_timestamps (congestion_control_note_cell_sent cc now) = []"
  using assms by (simp_all add: congestion_control_note_cell_sent_def circuit_sent_cell_for_sendme_def u64_id)

end
