(* ===== verification/Spec2Isabelle.thy ===== *)
theory Spec2Isabelle
  imports Tor_Intmath Tor_Ctime Tor_Base32 Tor_Base64 Tor_Smartlist Tor_Smartlist_Ops Tor_Tokenizer Dittor_Gate Tor_Pqueue Tor_Token_Bucket Tor_Consdiff_Changes Tor_Consdiff Tor_Consdiff_Doc Tor_Buffers Tor_Buffers_Search Tor_Buffers_Net Tor_Protover Tor_Versions Tor_Hashtable Tor_Map Tor_Protover_Summary Tor_Conflux Tor_Conflux_Link Tor_Replaycache Tor_Cells Tor_Relay_Msg Tor_Congestion
begin

text \<open>
  A verification development for Dittor, a modified Tor relay in C (\<^verbatim>\<open>src/tor\<close>). Dittor adds to Tor a gate in
  front of the directory: a relay publishes a proof line in its descriptor, and whoever parses the descriptor has the proof
  verified by a backend over a loopback connection. The rest of the program is Tor. Paths below are under \<^verbatim>\<open>src/tor/src\<close>.

  \<^bold>\<open>The parts and how they meet.\<close>
  The libraries (\<^verbatim>\<open>lib\<close>) provide integers, strings, codecs, lists, queues, hash tables, maps, buffers and rate limits.
  Bytes come from sockets into buffers and leave through them (\<^verbatim>\<open>lib/net\<close>, \<^verbatim>\<open>lib/buf\<close>), at the pace of token buckets. On a
  link they are cells, which carry relay messages, and a set of circuits may share one stream of messages (\<^verbatim>\<open>core/or\<close>).
  Directory documents are read by one tokenizer (\<^verbatim>\<open>feature/dirparse\<close>), from which the parser of router descriptors and with it the
  gate take their tokens; authorities vote on protocol lists (\<^verbatim>\<open>core/or/protover.c\<close>), and caches hand out consensuses as
  diffs (\<^verbatim>\<open>feature/dircommon\<close>).

  \<^bold>\<open>Conventions\<close> (theory \<open>Tor_Prelude\<close>).
  Bytes are \<open>8 word\<close>; integers keep their width (\<open>32 word\<close>, \<open>64 word\<close>) where the code depends on it and are \<open>nat\<close> or \<open>int\<close> with the
  conversions written out elsewhere. A failed \<^verbatim>\<open>tor_assert\<close>, a write outside of a block or other undefined behaviour is
  \<open>None\<close>; an error that the code returns is a value. State is passed explicitly. C structures are records, enumerations datatypes.
  Each definition has the name of the C function it translates; a loop is a function of its own, named after its function.

  \<^bold>\<open>The theories.\<close>
  \<^item> \<open>Tor_Intmath\<close> (\<^verbatim>\<open>lib/intmath\<close>), \<open>Tor_Ctime\<close> (\<^verbatim>\<open>lib/ctime/di_ops.c\<close>), \<open>Tor_String\<close> (\<^verbatim>\<open>lib/string/compat_ctype.c\<close>,
    \<^verbatim>\<open>util_string.c\<close>), \<open>Tor_Parse_Int\<close> (\<^verbatim>\<open>parse_int.c\<close>): every function against a reference definition, among them the
    constant-time comparisons, the UTF-8 check and the limits of integer parsing.
  \<^item> \<open>Tor_Binascii\<close>, \<open>Tor_Base32\<close>, \<open>Tor_Base64\<close> (\<^verbatim>\<open>lib/encoding/binascii.c\<close>): round trips with exact lengths and no write
    past the destination.
  \<^item> \<open>Tor_Smartlist\<close>, \<open>Tor_Smartlist_Ops\<close> (\<^verbatim>\<open>lib/smartlist_core\<close>, \<^verbatim>\<open>lib/container/smartlist.c\<close>): the array with its capacity
    refines a list (locale \<open>append_list\<close>); searching, splitting, joining, sorting on that list.
  \<^item> \<open>Tor_Pqueue\<close> (the heap of \<^verbatim>\<open>smartlist.c\<close>): heap order and index fields are kept, popping sorts (locales \<open>priority_queue\<close>
    and \<open>item_order\<close>, the second one for every comparison that comes from a key; interpreted for the resolve queue of
    \<^verbatim>\<open>feature/relay/dns.c\<close> and for the queue of conflux). \<open>smartlist_pqueue_remove\<close> is shown to break the heap.
  \<^item> \<open>Tor_Token_Bucket\<close> (\<^verbatim>\<open>lib/evloop/token_bucket.c\<close>): reachable buckets as an inductive predicate, the level never above the
    burst, and the rate limit over any sequence of refills and withdrawals.
  \<^item> \<open>Tor_Buffers\<close>, \<open>Tor_Buffers_Search\<close>, \<open>Tor_Buffers_Net\<close> (\<^verbatim>\<open>lib/buf/buffers.c\<close>, \<^verbatim>\<open>lib/net/buffers_net.c\<close>): chunk lists with their memory refine a
    byte queue (locale \<open>byte_queue\<close>); the searches agree with \<^verbatim>\<open>memmem\<close> on the contents when no chunk is empty; reads
    and flushes lose and invent nothing.
  \<^item> \<open>Tor_Hashtable\<close>, \<open>Tor_Map\<close> (\<^verbatim>\<open>ext/ht.h\<close>, \<^verbatim>\<open>lib/container/map.c\<close>): hash tables with cached hashes and growing refine a partial
    map for every hash function (locales \<open>hash_elements\<close>, \<open>map_impl_ok\<close>, \<open>map_ops\<close>, interpreted for the three kinds of maps).
  \<^item> \<open>Tor_Tokenizer\<close> (\<^verbatim>\<open>feature/dirparse/parsecommon.c\<close>, the table of \<^verbatim>\<open>routerparse.c\<close>), \<open>Dittor_Gate\<close> (the gate in
    \<^verbatim>\<open>router_parse_entry_from_string\<close>, \<^verbatim>\<open>dittor_proxy.c\<close>, the injection in \<^verbatim>\<open>feature/relay/router.c\<close>): accepted documents obey their
    rules, written lines are read back, and exactly which descriptors pass the gate for which answers.
  \<^item> \<open>Tor_Consdiff_Changes\<close>, \<open>Tor_Consdiff\<close>, \<open>Tor_Consdiff_Doc\<close> (\<^verbatim>\<open>feature/dircommon/consdiff.c\<close>): the search for changes on
    bit arrays (locale \<open>bit_array\<close>), the scripts, the documents; generating and applying is the identity on the target.
  \<^item> \<open>Tor_Protover\<close>, \<open>Tor_Versions\<close>, \<open>Tor_Protover_Summary\<close> (\<^verbatim>\<open>core/or/protover.c\<close>, \<^verbatim>\<open>versions.c\<close>): protocol lists print and parse back, the
    vote counts right, versions are linearly ordered, the cache of summaries (a map of \<open>Tor_Map\<close>) cannot be observed.
  \<^item> \<open>Tor_Conflux\<close>, \<open>Tor_Conflux_Link\<close> (\<^verbatim>\<open>core/or/conflux.c\<close>, \<^verbatim>\<open>conflux_cell.c\<close> and the places of \<^verbatim>\<open>relay.c\<close> that call them): one end of a
    set with its legs and its out-of-order queue (a heap of \<open>Tor_Pqueue\<close>), and the system of two ends with FIFO circuits between them;
    messages arrive in order, all of them once the circuits are empty, and the memory of the queue is bounded against any peer.
  \<^item> \<open>Tor_Replaycache\<close> (\<^verbatim>\<open>feature/hs_common/replaycache.c\<close>): the cache (a map of \<open>Tor_Map\<close>) answers as the full history would.
  \<^item> \<open>Tor_Cells\<close> (\<^verbatim>\<open>core/or/connection_or.c\<close>, \<^verbatim>\<open>core/proto/proto_cell.c\<close>, \<^verbatim>\<open>core/or/channeltls.c\<close>): cells on the wire, on the buffers of
    \<open>Tor_Buffers\<close>. However the bytes of a connection are cut into segments, the same cells are handled; two ends of a
    new link agree on the protocol, and on what they have said so far.
  \<^item> \<open>Tor_Relay_Msg\<close> (\<^verbatim>\<open>core/or/relay_msg.c\<close>): both formats of relay messages are read back, exactly those that fit are written.
  \<^item> \<open>Tor_Congestion\<close> (\<^verbatim>\<open>core/or/congestion_control_common.c\<close>, \<^verbatim>\<open>congestion_control_vegas.c\<close>, \<^verbatim>\<open>sendme.c\<close>, the consensus parameters of
    \<^verbatim>\<open>feature/nodelist/networkstatus.c\<close>): reachable states as an inductive predicate; the window stays in its bounds, and the accounting of
    SENDME cells is exact.

  \<^bold>\<open>Termination and bounds.\<close>
  No function has fuel. Loops that are not structurally recursive have a termination proof; the few whose end depends on an
  invariant of their state (adding to a buffer, reading from a socket, the search in a buffer, the visit of a hash table, the
  drain of the conflux queue, the cells of an input buffer, the SENDME cells to send) are \<^theory_text>\<open>partial_function (option)\<close>, where not returning is \<open>None\<close>, and the theorems show that they return \<open>Some\<close>.
  Numeric bounds in hypotheses are those of the C types: \<open>INT_MAX\<close> entries of a smartlist, \<open>BUF_MAX_LEN\<close> bytes of a buffer, fewer
  than \<open>2 ^ 32\<close> entries of a map.

  \<^bold>\<open>Parameters.\<close>
  Code outside of the repository and randomness are arguments: \<open>pk_ops\<close> (decoding of RSA keys), \<open>digest_ops\<close> (SHA3 and the as-signed
  digest), \<open>dittor_net\<close> (the loopback connection and the backend), \<open>buf_env\<close> (contents of fresh memory and the clock), \<open>recv\<close> and \<open>send\<close>
  (the system calls), \<open>qsort\<close>, \<open>siphash24g\<close> (keyed at random), the allocation results of hash tables, \<open>replay_env\<close> (SHA-256 and
  the allocator), \<open>conflux_env\<close>, \<open>relay_env\<close> and \<open>ordered_handler\<close> (consensus parameters, clock and random choice, packaging of cells and
  delivery to streams), \<open>link_env\<close> (the contents of the CERTS, AUTH_CHALLENGE and NETINFO cells and the processing of all cells but VERSIONS), the
  random padding of relay cells, and the queue, the channel and the clock that congestion control looks at. What a theorem needs of them is a named hypothesis, and its witness instantiates them.

  \<^bold>\<open>What the proofs brought up.\<close>
  The gate deletes the spaces of an answer before it compares it with a sentence, and a validation text
  that does not fit its buffer is sent unterminated (\<open>dittor_gate_overlong_accepted\<close>). \<open>smartlist_pqueue_remove\<close> can break the heap. No diff can be made from a consensus whose signature section is one line.
  A search in a buffer can read uninitialized memory. Printing a protocol with all 64
  versions is undefined (\<open>protover_full_mask_undefined\<close>), and the guess for an unknown version is never used
  (\<open>protover_compute_for_old_tor_unknown\<close>). The conflux scheduler for the spill-over takes the last usable leg, not the one
  with the lowest round-trip time (\<open>cwndrtt_takes_last\<close>). In the vote on protocols only the first entry of a name counts
  (\<open>vote_repeated_name\<close>), and versions with revisions far apart, one of them negative, are compared the wrong way round. A congestion window smaller than its step wraps to the largest window
  (\<open>window_jumps_to_max\<close>), a blocked channel under a stalled clock makes a log message divide by zero (\<open>stalled_clock_divides_by_zero\<close>),
  and with one SENDME per cell the first cell is not recorded (\<open>first_cell_not_recorded\<close>).

  \<^bold>\<open>Not modelled.\<close>
  The event loop, sockets, TLS, files, processes, threads and logging (input and output); the cryptographic wrappers
  (calls of OpenSSL and NSS); building and choosing circuits, guards, padding, the linking and unlinking of conflux legs (the legs of a
  set stay in the theorems about conflux) and the checks of a relay cell before the conflux handling, onion services, the rest of the
  authority and of the directory caches, the control port and the configuration (large states tied to connections and timers);
  generated code but for the SWITCH cells, and vendored code but for \<^verbatim>\<open>ext/ht.h\<close>. Memory is released without a step in the model
  wherever releasing it has no effect on later results.
\<close>

end
